(* ===== verification/Py_Base.thy ===== *)
theory Py_Base
  imports Complex_Main "HOL-Library.AList"
begin

text \<open>
  Prelude of the development: the fragment of Python that the modelled modules use.

  \<^item> \<open>py_error\<close> names the exceptions; a fallible operation returns \<open>py_error + 'a\<close>.
  \<^item> A Python \<open>dict\<close> is an association list in insertion order with distinct keys
    (\<open>pydict\<close>), read by \<open>map_of\<close>, written by \<open>AList.update\<close> (which keeps the position of an
    existing key and appends a new one, as Python does) and \<open>AList.delete\<close>.
    The locale \<open>kv_dict\<close> states that contract and is interpreted on these operations.
  \<^item> A Python \<open>str\<close> is a \<open>string\<close>: one \<open>char\<close> per code point, so the model covers the code
    points 0 to 255. The string methods below follow Python on that range.
  \<^item> A Python \<open>float\<close> is a \<open>rat\<close>: rounding, infinities and NaN are not modelled. Clock
    readings (\<open>time.time()\<close>, \<open>time.monotonic()\<close>) are arguments.
  \<^item> JSON-like values (\<open>Any\<close> in the source) are the datatype \<open>json\<close>.
\<close>

section \<open>Collections of facts\<close>

named_theorems dict_simps \<open>lookup, domain and size facts about dictionaries\<close>
named_theorems str_defs \<open>the string functions, for evaluation\<close>

section \<open>Errors\<close>

datatype py_error = ValueError | KeyError | TypeError | AttributeError | ZeroDivisionError | UnicodeError | OtherError

text \<open>Evaluate, and go on with the value unless it raised.\<close>

fun and_then :: "py_error + 'a \<Rightarrow> ('a \<Rightarrow> py_error + 'b) \<Rightarrow> py_error + 'b" where
  "and_then (Inl e) f = Inl e"
| "and_then (Inr x) f = f x"

lemma and_then_Inr_iff: "and_then r f = Inr y \<longleftrightarrow> (\<exists>x. r = Inr x \<and> f x = Inr y)"
  by (cases r) auto

section \<open>Dictionaries\<close>

type_synonym ('k, 'v) pydict = "('k \<times> 'v) list"

abbreviation dict_get :: "('k, 'v) pydict \<Rightarrow> 'k \<Rightarrow> 'v option" where
  "dict_get \<equiv> map_of"

abbreviation dict_set :: "'k \<Rightarrow> 'v \<Rightarrow> ('k, 'v) pydict \<Rightarrow> ('k, 'v) pydict" where
  "dict_set \<equiv> AList.update"

abbreviation dict_del :: "'k \<Rightarrow> ('k, 'v) pydict \<Rightarrow> ('k, 'v) pydict" where
  "dict_del \<equiv> AList.delete"

abbreviation dict_ok :: "('k, 'v) pydict \<Rightarrow> bool" where
  "dict_ok d \<equiv> distinct (map fst d)"

definition dict_keys :: "('k, 'v) pydict \<Rightarrow> 'k list" where
  "dict_keys d = map fst d"

text \<open>\<open>d.get(k, v)\<close>.\<close>

definition dict_get_default :: "('k, 'v) pydict \<Rightarrow> 'k \<Rightarrow> 'v \<Rightarrow> 'v" where
  "dict_get_default d k v = (case dict_get d k of None \<Rightarrow> v | Some x \<Rightarrow> x)"

text \<open>Deleting a list of keys one after the other: \<open>for k in ks: del d[k]\<close>.\<close>

primrec dict_del_all :: "'k list \<Rightarrow> ('k, 'v) pydict \<Rightarrow> ('k, 'v) pydict" where
  "dict_del_all [] d = d"
| "dict_del_all (k # ks) d = dict_del_all ks (dict_del k d)"

lemma dict_get_set [dict_simps]: "dict_get (dict_set k v d) k' = (if k' = k then Some v else dict_get d k')"
  by (simp add: update_conv)

lemma dict_get_del [dict_simps]: "dict_get (dict_del k d) k' = (if k' = k then None else dict_get d k')"
  by (simp add: delete_conv)

lemma dict_ok_set [simp]: "dict_ok d \<Longrightarrow> dict_ok (dict_set k v d)"
  by (rule distinct_update)

lemma dict_ok_del [simp]: "dict_ok d \<Longrightarrow> dict_ok (dict_del k d)"
  by (rule distinct_delete)

lemma dict_get_None_iff: "dict_get d k = None \<longleftrightarrow> k \<notin> set (map fst d)"
  by (metis map_of_eq_None_iff list.set_map)

lemma dict_get_Some_in: "dict_get d k = Some v \<Longrightarrow> (k, v) \<in> set d"
  by (rule map_of_SomeD)

lemma dict_in_get: "dict_ok d \<Longrightarrow> (k, v) \<in> set d \<Longrightarrow> dict_get d k = Some v"
  by simp

lemma dict_get_filter_key: "dict_get (filter (\<lambda>(k, v). P k) d) k = (if P k then dict_get d k else None)"
  by (induction d) auto

lemma length_dict_set [dict_simps]:
  "length (dict_set k v d) = (if dict_get d k = None then Suc (length d) else length d)"
  by (induction d) auto

lemma dict_keys_set: "fst ` set (dict_set k v d) = insert k (fst ` set d)"
  by (simp add: dom_update)

lemma dict_keys_del: "fst ` set (dict_del k d) = fst ` set d - {k}"
  by (force simp: AList.delete_eq)

lemma dict_set_new: "dict_get d k = None \<Longrightarrow> dict_set k v d = d @ [(k, v)]"
  by (induction d) (auto split: if_splits)

lemma dict_set_twice: "dict_set k v (dict_set k w d) = dict_set k v d"
  by (induction d) auto

lemma dict_set_same: "dict_get d k = Some v \<Longrightarrow> dict_set k v d = d"
  by (induction d) auto

lemma dict_del_absent: "dict_get d k = None \<Longrightarrow> dict_del k d = d"
  by (simp add: dict_get_None_iff delete_notin_dom list.set_map)

lemma length_dict_del [dict_simps]:
  "dict_ok d \<Longrightarrow> length (dict_del k d) = (if dict_get d k = None then length d else length d - 1)"
proof (induction d)
  case Nil
  then show ?case by simp
next
  case (Cons p d)
  show ?case
  proof (cases "fst p = k")
    case True
    with Cons.prems have "dict_get d k = None"
      by (auto simp: map_of_eq_None_iff)
    with True show ?thesis
      by (cases p) (auto simp: dict_del_absent)
  next
    case False
    with Cons show ?thesis
      by (cases p; cases d) (auto split: if_splits)
  qed
qed

lemma dict_del_all_filter: "dict_del_all ks d = filter (\<lambda>(k, v). k \<notin> set ks) d"
  by (induction ks arbitrary: d) (auto simp: AList.delete_eq intro: filter_cong)

lemma dict_get_del_all [dict_simps]:
  "dict_get (dict_del_all ks d) k = (if k \<in> set ks then None else dict_get d k)"
  by (simp add: dict_del_all_filter dict_get_filter_key)

lemma dict_ok_del_all [simp]: "dict_ok d \<Longrightarrow> dict_ok (dict_del_all ks d)"
  by (induction ks arbitrary: d) auto

lemma length_dict_del_all_le: "length (dict_del_all ks d) \<le> length d"
  by (simp add: dict_del_all_filter)

text \<open>A quantity summed over the entries, split at one key.\<close>

lemma sum_dict_del:
  fixes f :: "'k \<times> 'v \<Rightarrow> int"
  shows "dict_ok d \<Longrightarrow> dict_get d k = Some v \<Longrightarrow> (\<Sum>p\<leftarrow>d. f p) = f (k, v) + (\<Sum>p\<leftarrow>dict_del k d. f p)"
proof (induction d)
  case (Cons x d)
  show ?case
  proof (cases "fst x = k")
    case True
    then have "dict_del k d = d" using Cons.prems by (intro dict_del_absent) (auto simp: map_of_eq_None_iff)
    with True Cons.prems show ?thesis by (cases x) simp
  next
    case False
    with Cons show ?thesis by (cases x) auto
  qed
qed simp

subsection \<open>The dictionary contract\<close>

text \<open>
  What a client of a key-value store relies on: \<open>lk\<close> is the abstraction to a partial map,
  \<open>sz\<close> the number of entries.
\<close>

locale kv_dict =
  fixes lk :: "'d \<Rightarrow> 'k \<Rightarrow> 'v option"
    and st :: "'k \<Rightarrow> 'v \<Rightarrow> 'd \<Rightarrow> 'd"
    and dl :: "'k \<Rightarrow> 'd \<Rightarrow> 'd"
    and sz :: "'d \<Rightarrow> nat"
    and ok :: "'d \<Rightarrow> bool"
  assumes lk_st: "ok d \<Longrightarrow> lk (st k v d) = (lk d)(k \<mapsto> v)"
    and lk_dl: "ok d \<Longrightarrow> lk (dl k d) = (lk d)(k := None)"
    and ok_st: "ok d \<Longrightarrow> ok (st k v d)"
    and ok_dl: "ok d \<Longrightarrow> ok (dl k d)"
    and finite_lk: "ok d \<Longrightarrow> finite (dom (lk d))"
    and sz_card: "ok d \<Longrightarrow> sz d = card (dom (lk d))"
begin

lemma st_then_lk: "ok d \<Longrightarrow> lk (st k v d) k = Some v"
  by (simp add: lk_st)

lemma st_frame: "ok d \<Longrightarrow> k' \<noteq> k \<Longrightarrow> lk (st k v d) k' = lk d k'"
  by (simp add: lk_st)

lemma dl_then_lk: "ok d \<Longrightarrow> lk (dl k d) k = None"
  by (simp add: lk_dl)

lemma dl_st_absent: "ok d \<Longrightarrow> lk d k = None \<Longrightarrow> lk (dl k (st k v d)) = lk d"
  by (auto simp: lk_dl ok_st lk_st)

lemma sz_st_new: "ok d \<Longrightarrow> lk d k = None \<Longrightarrow> sz (st k v d) = Suc (sz d)"
  by (simp add: sz_card ok_st lk_st finite_lk domIff)

lemma sz_st_old: "ok d \<Longrightarrow> lk d k \<noteq> None \<Longrightarrow> sz (st k v d) = sz d"
  by (simp add: sz_card ok_st lk_st insert_absorb domIff)

lemma sz_dl_old: "ok d \<Longrightarrow> lk d k \<noteq> None \<Longrightarrow> Suc (sz (dl k d)) = sz d"
  using card_Suc_Diff1 [OF finite_lk, of d k]
  by (simp add: sz_card ok_dl lk_dl domIff)

lemma sz_dl_le: "ok d \<Longrightarrow> sz (dl k d) \<le> sz d"
  by (cases "lk d k") (simp_all add: sz_card ok_dl lk_dl card_Diff1_le)

end

interpretation pd: kv_dict dict_get dict_set dict_del length dict_ok
proof
  fix d :: "('a, 'b) pydict" and k v
  assume d: "dict_ok d"
  show "dict_get (dict_set k v d) = (dict_get d)(k \<mapsto> v)"
    by (rule update_conv')
  show "dict_get (dict_del k d) = (dict_get d)(k := None)"
    by (rule delete_conv')
  show "dict_ok (dict_set k v d)" and "dict_ok (dict_del k d)"
    using d by simp_all
  show "finite (dom (dict_get d))"
    by (rule finite_dom_map_of)
  show "length d = card (dom (dict_get d))"
    using d distinct_card [of "map fst d"] by (simp add: dom_map_of_conv_image_fst)
qed

end
