(* ===== verification/Py_Text.thy ===== *)
theory Py_Text
  imports Py_Base
begin

text \<open>
  Prelude, part two: Python's string methods on code points 0 to 255, the decimal rendering of
  integers and its inverse, and JSON-like values. The two round trips the components build on
  are \<open>join_split\<close>/\<open>split_join\<close> (\<open>str.split\<close> and \<open>str.join\<close> on one separator) and
  \<open>dec_val_nat_dec\<close>/\<open>nat_dec_dec_val\<close> (\<open>str(n)\<close> and \<open>int(s)\<close>).
\<close>

section \<open>Characters\<close>

abbreviation code_point :: "char \<Rightarrow> nat" where
  "code_point \<equiv> of_char"

text \<open>\<open>bytes.lower()\<close> changes ASCII letters only; \<open>str.lower()\<close> also the Latin-1 capitals.\<close>

definition byte_lower :: "char \<Rightarrow> char" where
  "byte_lower c = (if 65 \<le> code_point c \<and> code_point c \<le> 90 then char_of (code_point c + 32) else c)"

definition char_lower :: "char \<Rightarrow> char" where
  "char_lower c =
     (if 192 \<le> code_point c \<and> code_point c \<le> 222 \<and> code_point c \<noteq> 215
      then char_of (code_point c + 32) else byte_lower c)"

definition bytes_lower :: "string \<Rightarrow> string" where
  "bytes_lower s = map byte_lower s"

definition str_lower :: "string \<Rightarrow> string" where
  "str_lower s = map char_lower s"

lemma char_lower_idem [simp]: "char_lower (char_lower c) = char_lower c"
  by (auto simp: char_lower_def byte_lower_def)

lemma str_lower_idem [simp]: "str_lower (str_lower s) = str_lower s"
  by (simp add: str_lower_def)

lemma length_str_lower [simp]: "length (str_lower s) = length s"
  by (simp add: str_lower_def)

text \<open>\<open>str.isspace()\<close> on one character, and the ASCII digits.\<close>

definition is_space :: "char \<Rightarrow> bool" where
  "is_space c =
     (let n = code_point c in 9 \<le> n \<and> n \<le> 13 \<or> 28 \<le> n \<and> n \<le> 32 \<or> n = 133 \<or> n = 160)"

definition is_digit :: "char \<Rightarrow> bool" where
  "is_digit c = (48 \<le> code_point c \<and> code_point c \<le> 57)"

definition NL :: char where
  "NL = CHR 0x0A"

definition TAB :: char where
  "TAB = CHR 0x09"

section \<open>Prefixes, stripping, slicing\<close>

definition startswith :: "string \<Rightarrow> string \<Rightarrow> bool" where
  "startswith s p = (take (length p) s = p)"

definition endswith :: "string \<Rightarrow> string \<Rightarrow> bool" where
  "endswith s p = (length p \<le> length s \<and> drop (length s - length p) s = p)"

definition lstrip :: "string \<Rightarrow> string" where
  "lstrip s = dropWhile is_space s"

definition rstrip :: "string \<Rightarrow> string" where
  "rstrip s = rev (dropWhile is_space (rev s))"

definition strip :: "string \<Rightarrow> string" where
  "strip s = rstrip (lstrip s)"

text \<open>\<open>xs[-n:]\<close> for a non-negative \<open>n\<close>: the last \<open>n\<close> items, the whole list when \<open>n\<close> is 0.\<close>

definition last_n :: "nat \<Rightarrow> 'a list \<Rightarrow> 'a list" where
  "last_n n xs = (if n = 0 then xs else drop (length xs - n) xs)"

lemma startswith_append [simp]: "startswith (p @ s) p"
  by (simp add: startswith_def)

lemma startswith_iff: "startswith s p \<longleftrightarrow> (\<exists>r. s = p @ r)"
  by (metis append_eq_conv_conj append_take_drop_id startswith_def)

lemma endswith_snoc [simp]: "endswith (s @ [c]) [c'] \<longleftrightarrow> c = c'"
  by (auto simp: endswith_def)

lemma endswith_single_iff: "endswith s [c] \<longleftrightarrow> s \<noteq> [] \<and> last s = c"
  by (cases s rule: rev_cases) (auto simp: endswith_def)

lemma length_last_n: "0 < n \<Longrightarrow> length (last_n n xs) = min n (length xs)"
  by (simp add: last_n_def)

section \<open>Splitting and joining\<close>

fun split_on :: "char \<Rightarrow> string \<Rightarrow> string list" where
  "split_on c [] = [[]]"
| "split_on c (x # xs) =
     (if x = c then [] # split_on c xs
      else (case split_on c xs of [] \<Rightarrow> [[x]] | l # ls \<Rightarrow> (x # l) # ls))"

fun join_with :: "string \<Rightarrow> string list \<Rightarrow> string" where
  "join_with sep [] = []"
| "join_with sep [l] = l"
| "join_with sep (l # m # ls) = l @ sep @ join_with sep (m # ls)"

lemma split_on_nonempty [simp]: "split_on c s \<noteq> []"
  by (induction s) (auto split: list.splits)

lemma join_split [simp]: "join_with [c] (split_on c s) = s"
proof (induction s)
  case Nil
  show ?case by simp
next
  case (Cons x xs)
  obtain l ls where s: "split_on c xs = l # ls"
    by (cases "split_on c xs") simp_all
  with Cons show ?case
    by (cases ls) auto
qed

lemma split_on_no_sep: "l \<in> set (split_on c s) \<Longrightarrow> c \<notin> set l"
proof (induction s arbitrary: l)
  case Nil
  then show ?case by simp
next
  case (Cons x xs)
  obtain m ls where "split_on c xs = m # ls"
    by (cases "split_on c xs") simp_all
  with Cons show ?case
    by (auto split: if_splits)
qed

lemma split_on_clean: "c \<notin> set l \<Longrightarrow> split_on c l = [l]"
  by (induction l) auto

lemma split_on_append: "c \<notin> set l \<Longrightarrow> split_on c (l @ c # s) = l # split_on c s"
  by (induction l) auto

lemma split_join:
  "ls \<noteq> [] \<Longrightarrow> (\<And>l. l \<in> set ls \<Longrightarrow> c \<notin> set l) \<Longrightarrow> split_on c (join_with [c] ls) = ls"
proof (induction "[c]" ls rule: join_with.induct)
  case (3 l m ls)
  then show ?case
    using split_on_append [of c l] by simp
qed (simp_all add: split_on_clean)

lemma join_with_eq_Nil: "join_with [c] ls = [] \<longleftrightarrow> ls = [] \<or> ls = [[]]"
  by (induction "[c]" ls rule: join_with.induct) auto

lemma join_with_snoc: "ls \<noteq> [] \<Longrightarrow> join_with sep (ls @ [l]) = join_with sep ls @ sep @ l"
proof (induction sep ls rule: join_with.induct)
  case (3 sep a b ls)
  then show ?case by simp
qed simp_all

text \<open>\<open>s.split()\<close>: the maximal runs of non-space characters.\<close>

fun words_aux :: "string \<Rightarrow> string \<Rightarrow> string list" where
  "words_aux cur [] = (if cur = [] then [] else [rev cur])"
| "words_aux cur (c # s) =
     (if is_space c then (if cur = [] then words_aux [] s else rev cur # words_aux [] s)
      else words_aux (c # cur) s)"

definition words :: "string \<Rightarrow> string list" where
  "words s = words_aux [] s"

section \<open>Decimal numerals\<close>

definition digit_char :: "nat \<Rightarrow> char" where
  "digit_char d = char_of (48 + d)"

definition digit_val :: "char \<Rightarrow> nat" where
  "digit_val c = code_point c - 48"

fun nat_dec :: "nat \<Rightarrow> string" where
  "nat_dec n = (if n < 10 then [digit_char n] else nat_dec (n div 10) @ [digit_char (n mod 10)])"

declare nat_dec.simps [simp del]

definition int_dec :: "int \<Rightarrow> string" where
  "int_dec i = (if i < 0 then CHR ''-'' # nat_dec (nat (- i)) else nat_dec (nat i))"

definition dec_val :: "string \<Rightarrow> nat" where
  "dec_val s = foldl (\<lambda>a c. 10 * a + digit_val c) 0 s"

text \<open>A numeral without leading zero: what \<open>str(n)\<close> prints for a positive \<open>n\<close>.\<close>

definition plain_numeral :: "string \<Rightarrow> bool" where
  "plain_numeral s = (s \<noteq> [] \<and> list_all is_digit s \<and> hd s \<noteq> CHR ''0'')"

lemma code_point_digit_char: "d < 10 \<Longrightarrow> code_point (digit_char d) = 48 + d"
  by (simp add: digit_char_def)

lemma digit_val_digit_char [simp]: "d < 10 \<Longrightarrow> digit_val (digit_char d) = d"
  by (simp add: digit_val_def code_point_digit_char)

lemma is_digit_digit_char [simp]: "d < 10 \<Longrightarrow> is_digit (digit_char d)"
  by (simp add: is_digit_def code_point_digit_char)

lemma digit_char_digit_val: "is_digit c \<Longrightarrow> digit_char (digit_val c) = c"
  by (simp add: is_digit_def digit_char_def digit_val_def)

lemma digit_val_less: "is_digit c \<Longrightarrow> digit_val c < 10"
  by (auto simp: is_digit_def digit_val_def)

lemma digit_val_zero: "is_digit c \<Longrightarrow> digit_val c = 0 \<longleftrightarrow> c = CHR ''0''"
proof -
  assume d: "is_digit c"
  have "c = CHR ''0''" if "digit_val c = 0"
  proof -
    have "code_point c = code_point (CHR ''0'')"
      using d that by (simp add: is_digit_def digit_val_def)
    then show ?thesis by (simp only: of_char_eq_iff)
  qed
  then show ?thesis by (auto simp: digit_val_def)
qed

lemma dec_val_snoc [simp]: "dec_val (s @ [c]) = 10 * dec_val s + digit_val c"
  by (simp add: dec_val_def)

lemma dec_val_Nil [simp]: "dec_val [] = 0"
  by (simp add: dec_val_def)

lemma dec_val_nat_dec [simp]: "dec_val (nat_dec n) = n"
proof (induction n rule: nat_dec.induct)
  case (1 n)
  then show ?case
    by (subst nat_dec.simps) (auto simp: dec_val_def)
qed

lemma nat_dec_digits [simp]: "list_all is_digit (nat_dec n)"
proof (induction n rule: nat_dec.induct)
  case (1 n)
  then show ?case by (subst nat_dec.simps) auto
qed

lemma nat_dec_nonempty [simp]: "nat_dec n \<noteq> []"
  by (subst nat_dec.simps) auto

lemma nat_dec_inject [simp]: "nat_dec m = nat_dec n \<longleftrightarrow> m = n"
  by (metis dec_val_nat_dec)

lemma dec_val_pos: "plain_numeral s \<Longrightarrow> 0 < dec_val s"
proof (induction s rule: rev_induct)
  case Nil
  then show ?case by (simp add: plain_numeral_def)
next
  case (snoc c s)
  show ?case
  proof (cases "s = []")
    case True
    with snoc.prems show ?thesis
      using digit_val_zero [of c] by (auto simp: plain_numeral_def dec_val_def)
  next
    case False
    with snoc show ?thesis by (auto simp: plain_numeral_def)
  qed
qed

lemma nat_dec_dec_val: "plain_numeral s \<Longrightarrow> nat_dec (dec_val s) = s"
proof (induction s rule: rev_induct)
  case Nil
  then show ?case by (simp add: plain_numeral_def)
next
  case (snoc c s)
  have c: "digit_val c < 10" "digit_char (digit_val c) = c"
    using snoc.prems digit_val_less [of c] digit_char_digit_val [of c]
    by (auto simp: plain_numeral_def)
  show ?case
  proof (cases "s = []")
    case True
    then show ?thesis
      using c by (simp add: dec_val_def nat_dec.simps)
  next
    case False
    with snoc.prems have p: "plain_numeral s"
      by (auto simp: plain_numeral_def)
    then have "0 < dec_val s" and IH: "nat_dec (dec_val s) = s"
      by (auto intro: dec_val_pos snoc.IH)
    then have "\<not> 10 * dec_val s + digit_val c < 10"
      by simp
    then show ?thesis
      using c IH by (subst nat_dec.simps) simp
  qed
qed

text \<open>\<open>int(digits)\<close> raises \<open>ValueError\<close> above CPython's default limit on the number of digits.\<close>

definition INT_MAX_STR_DIGITS :: nat where
  "INT_MAX_STR_DIGITS = 4300"

definition int_of_digits :: "string \<Rightarrow> py_error + nat" where
  "int_of_digits ds = (if INT_MAX_STR_DIGITS < length ds then Inl ValueError else Inr (dec_val ds))"

lemma length_nat_dec: "n < 10 ^ k \<Longrightarrow> 0 < k \<Longrightarrow> length (nat_dec n) \<le> k"
proof (induction k arbitrary: n)
  case 0
  then show ?case by simp
next
  case (Suc k)
  show ?case
  proof (cases "n < 10")
    case True
    then show ?thesis by (simp add: nat_dec.simps)
  next
    case False
    then have "0 < k" using Suc.prems by (cases k) auto
    moreover have "n div 10 < 10 ^ k" using Suc.prems(1) by (simp add: less_mult_imp_div_less)
    ultimately have "length (nat_dec (n div 10)) \<le> k" using Suc.IH by blast
    then show ?thesis using False by (subst nat_dec.simps) simp
  qed
qed

lemma INT_MAX_STR_DIGITS_pos: "0 < INT_MAX_STR_DIGITS"
  by (simp add: INT_MAX_STR_DIGITS_def)

lemma int_of_digits_nat_dec: "n < 10 ^ INT_MAX_STR_DIGITS \<Longrightarrow> int_of_digits (nat_dec n) = Inr n"
  using length_nat_dec [of n INT_MAX_STR_DIGITS] INT_MAX_STR_DIGITS_pos by (simp add: int_of_digits_def)

text \<open>\<open>int(s)\<close> on a text: white space around, a sign, and digits with single underscores between them.\<close>

definition int_of_str :: "string \<Rightarrow> py_error + int" where
  "int_of_str s =
     (let s = strip s;
          neg = startswith s ''-'';
          body = (if neg \<or> startswith s ''+'' then tl s else s);
          groups = split_on (CHR ''_'') body
      in if list_all (\<lambda>g. g \<noteq> [] \<and> list_all is_digit g) groups
         then and_then (int_of_digits (concat groups)) (\<lambda>n. Inr (if neg then - int n else int n))
         else Inl ValueError)"

section \<open>Numbers\<close>

text \<open>\<open>int(x)\<close> on a float truncates towards zero.\<close>

definition py_int :: "rat \<Rightarrow> int" where
  "py_int x = (if 0 \<le> x then \<lfloor>x\<rfloor> else \<lceil>x\<rceil>)"

lemma py_int_nonneg: "0 \<le> x \<Longrightarrow> 0 \<le> py_int x"
  by (simp add: py_int_def)

lemma py_int_le: "0 \<le> x \<Longrightarrow> x \<le> of_int n \<Longrightarrow> py_int x \<le> n"
  by (simp add: py_int_def floor_le_iff)

section \<open>Matching\<close>

text \<open>The steps of a regular expression: a literal, and \<open>\d+\<close>.\<close>

definition after :: "string \<Rightarrow> string \<Rightarrow> string option" where
  "after p s = (if startswith s p then Some (drop (length p) s) else None)"

definition digits_then :: "string \<Rightarrow> (string \<times> string) option" where
  "digits_then s = (let ds = takeWhile is_digit s in if ds = [] then None else Some (ds, dropWhile is_digit s))"

lemma after_append [simp]: "after p (p @ s) = Some s"
  by (simp add: after_def)

lemma after_Some_iff: "after p s = Some r \<longleftrightarrow> s = p @ r"
  by (auto simp: after_def startswith_iff split: if_splits)

lemma digits_then_append:
  assumes "list_all is_digit ds" "ds \<noteq> []" "r = [] \<or> \<not> is_digit (hd r)"
  shows "digits_then (ds @ r) = Some (ds, r)"
proof -
  have "takeWhile is_digit (ds @ r) = ds" "dropWhile is_digit (ds @ r) = r"
    using assms by (cases r; auto simp: list_all_iff takeWhile_append dropWhile_append)+
  with assms(2) show ?thesis by (simp add: digits_then_def Let_def)
qed

lemma digits_then_Some: "digits_then s = Some (ds, r) \<Longrightarrow> s = ds @ r \<and> list_all is_digit ds \<and> ds \<noteq> []"
  by (auto simp: digits_then_def Let_def list_all_iff dest: set_takeWhileD split: if_splits)

section \<open>JSON-like values\<close>

datatype json =
    JNull
  | JBool bool
  | JInt int
  | JFloat rat
  | JStr string
  | JList "json list"
  | JDict "(string \<times> json) list"

text \<open>The truth value of a JSON value, and \<open>x.get(k, dflt)\<close>, which only a
  dictionary has; \<open>x.get(k)\<close> has the default \<open>None\<close>, here \<open>JNull\<close>.\<close>

fun truthy :: "json \<Rightarrow> bool" where
  "truthy JNull = False"
| "truthy (JBool b) = b"
| "truthy (JInt i) = (i \<noteq> 0)"
| "truthy (JFloat x) = (x \<noteq> 0)"
| "truthy (JStr s) = (s \<noteq> [])"
| "truthy (JList xs) = (xs \<noteq> [])"
| "truthy (JDict d) = (d \<noteq> [])"

abbreviation jget :: "(string \<times> json) list \<Rightarrow> string \<Rightarrow> json option" where
  "jget \<equiv> map_of"

text \<open>A message of a request, and a value of it.\<close>

type_synonym message = "(string, json) pydict"

fun json_get :: "json \<Rightarrow> string \<Rightarrow> json \<Rightarrow> py_error + json" where
  "json_get (JDict d) k dflt = Inr (dict_get_default d k dflt)"
| "json_get _ k dflt = Inl AttributeError"

text \<open>A loop over a list whose body may raise.\<close>

primrec fold_err :: "('a \<Rightarrow> 's \<Rightarrow> py_error + 's) \<Rightarrow> 'a list \<Rightarrow> 's \<Rightarrow> py_error + 's" where
  "fold_err f [] s = Inr s"
| "fold_err f (x # xs) s = and_then (f x s) (fold_err f xs)"

lemma fold_err_append: "fold_err f (xs @ ys) s = and_then (fold_err f xs s) (fold_err f ys)"
proof (induction xs arbitrary: s)
  case (Cons x xs)
  then show ?case by (cases "f x s") simp_all
qed simp

text \<open>\<open>x or y\<close> on JSON values.\<close>

definition py_or :: "json \<Rightarrow> json \<Rightarrow> json" where
  "py_or x y = (if truthy x then x else y)"

text \<open>Iterating over a value, and keys of a dictionary.\<close>

fun py_iter :: "json \<Rightarrow> py_error + json list" where
  "py_iter (JList xs) = Inr xs"
| "py_iter (JDict d) = Inr (map (JStr \<circ> fst) d)"
| "py_iter (JStr s) = Inr (map (\<lambda>c. JStr [c]) s)"
| "py_iter _ = Inl TypeError"

fun hashable :: "json \<Rightarrow> bool" where
  "hashable (JList xs) = False"
| "hashable (JDict d) = False"
| "hashable _ = True"

text \<open>\<open>len(x)\<close>, and \<open>str(x)\<close>, where \<open>rp\<close> is the \<open>repr\<close> of floats and containers.\<close>

fun py_len :: "json \<Rightarrow> py_error + nat" where
  "py_len (JStr s) = Inr (length s)"
| "py_len (JList xs) = Inr (length xs)"
| "py_len (JDict d) = Inr (length d)"
| "py_len _ = Inl TypeError"

fun py_str :: "(json \<Rightarrow> string) \<Rightarrow> json \<Rightarrow> string" where
  "py_str rp (JStr s) = s"
| "py_str rp JNull = ''None''"
| "py_str rp (JBool b) = (if b then ''True'' else ''False'')"
| "py_str rp (JInt i) = int_dec i"
| "py_str rp v = rp v"

text \<open>Numbers: \<open>bool\<close> is a subclass of \<open>int\<close>, and an integer equals the float of the same value.\<close>

fun int_of_json :: "json \<Rightarrow> int option" where
  "int_of_json (JInt i) = Some i"
| "int_of_json (JBool b) = Some (if b then 1 else 0)"
| "int_of_json _ = None"

fun num_of_json :: "json \<Rightarrow> rat option" where
  "num_of_json (JFloat x) = Some x"
| "num_of_json v = map_option of_int (int_of_json v)"

text \<open>
  Python's \<open>==\<close> on decoded JSON: numbers by value, lists item by item, dictionaries by
  their keys and not by their order.
\<close>

fun py_eq :: "json \<Rightarrow> json \<Rightarrow> bool"
  and py_eq_list :: "json list \<Rightarrow> json list \<Rightarrow> bool"
  and py_eq_items :: "(string \<times> json) list \<Rightarrow> (string \<times> json) list \<Rightarrow> bool" where
  "py_eq JNull y = (y = JNull)"
| "py_eq (JBool b) y = (num_of_json y = num_of_json (JBool b))"
| "py_eq (JInt i) y = (num_of_json y = num_of_json (JInt i))"
| "py_eq (JFloat x) y = (num_of_json y = Some x)"
| "py_eq (JStr s) y = (y = JStr s)"
| "py_eq (JList xs) y = (case y of JList ys \<Rightarrow> py_eq_list xs ys | _ \<Rightarrow> False)"
| "py_eq (JDict d) y = (case y of JDict e \<Rightarrow> length d = length e \<and> py_eq_items d e | _ \<Rightarrow> False)"
| "py_eq_list [] ys = (ys = [])"
| "py_eq_list (x # xs) ys = (case ys of [] \<Rightarrow> False | y # ys' \<Rightarrow> py_eq x y \<and> py_eq_list xs ys')"
| "py_eq_items [] e = True"
| "py_eq_items ((k, v) # d) e = ((case jget e k of None \<Rightarrow> False | Some w \<Rightarrow> py_eq v w) \<and> py_eq_items d e)"

text \<open>The keys of every dictionary are distinct, as \<open>json.loads\<close> leaves them.\<close>

fun json_ok :: "json \<Rightarrow> bool"
  and json_ok_list :: "json list \<Rightarrow> bool"
  and json_ok_items :: "(string \<times> json) list \<Rightarrow> bool" where
  "json_ok (JList xs) = json_ok_list xs"
| "json_ok (JDict d) = (dict_ok d \<and> json_ok_items d)"
| "json_ok _ = True"
| "json_ok_list [] = True"
| "json_ok_list (x # xs) = (json_ok x \<and> json_ok_list xs)"
| "json_ok_items [] = True"
| "json_ok_items ((k, v) # d) = (json_ok v \<and> json_ok_items d)"

lemma json_ok_list_iff: "json_ok_list xs \<longleftrightarrow> (\<forall>x\<in>set xs. json_ok x)"
  by (induction xs) auto

lemma json_ok_items_iff: "json_ok_items d \<longleftrightarrow> (\<forall>(k, v)\<in>set d. json_ok v)"
  by (induction d) auto

lemma py_eq_list_iff: "py_eq_list xs ys \<longleftrightarrow> list_all2 py_eq xs ys"
  by (induction xs arbitrary: ys) (auto split: list.splits)

lemma py_eq_items_iff:
  "py_eq_items d e \<longleftrightarrow> (\<forall>(k, v)\<in>set d. \<exists>w. jget e k = Some w \<and> py_eq v w)"
  by (induction d) (auto split: option.splits)

lemma py_eq_refl: "json_ok x \<Longrightarrow> py_eq x x"
  and py_eq_list_refl: "json_ok_list xs \<Longrightarrow> py_eq_list xs xs"
  and py_eq_items_refl: "json_ok_items d \<Longrightarrow> list_all (\<lambda>(k, v). py_eq v v) d"
proof (induction x and xs and d rule: json_ok_json_ok_list_json_ok_items.induct)
  case (2 d)
  then show ?case by (auto simp: py_eq_items_iff list_all_iff)
qed auto

lemma py_eq_trans: "py_eq x y \<Longrightarrow> py_eq y z \<Longrightarrow> py_eq x z"
  and py_eq_list_trans: "py_eq_list xs ys \<Longrightarrow> py_eq_list ys zs \<Longrightarrow> py_eq_list xs zs"
  and py_eq_items_trans: "py_eq_items d e \<Longrightarrow> py_eq_items e f \<Longrightarrow> py_eq_items d f"
proof (induction x y and xs ys and d e arbitrary: z and zs and f rule: py_eq_py_eq_list_py_eq_items.induct)
  case (6 xs y)
  then show ?case by (auto split: json.splits)
next
  case (7 d y)
  then show ?case by (auto split: json.splits)
next
  case (9 x xs ys)
  then show ?case by (auto split: list.splits)
next
  case (11 k v d e)
  from 11 show ?case
    by (auto split: option.splits simp: py_eq_items_iff [of e]) (fastforce dest: map_of_SomeD)+
next
  case (2 b y) then show ?case by (cases y; cases z) auto
next
  case (3 i y) then show ?case by (cases y; cases z) auto
next
  case (4 x y) then show ?case by (cases y; cases z) auto
qed auto

text \<open>Python-equal dictionaries with distinct keys have the same keys.\<close>

lemma py_eq_dict_keys:
  assumes "py_eq (JDict d) (JDict e)" "dict_ok d" "dict_ok e"
  shows "fst ` set d = fst ` set e"
proof (rule card_subset_eq)
  show "fst ` set d \<subseteq> fst ` set e"
    using assms(1) by (force simp: py_eq_items_iff dest: map_of_SomeD)
  have "card (fst ` set d) = length d" "card (fst ` set e) = length e"
    using assms(2,3) distinct_card [of "map fst d"] distinct_card [of "map fst e"] by simp_all
  then show "card (fst ` set d) = card (fst ` set e)" using assms(1) by simp
qed simp

lemma py_eq_dict_get:
  assumes "py_eq (JDict d) (JDict e)" "dict_ok d" "dict_ok e"
  shows "rel_option py_eq (jget d k) (jget e k)"
proof (cases "jget d k")
  case None
  then have "jget e k = None" using py_eq_dict_keys [OF assms] by (simp add: map_of_eq_None_iff)
  with None show ?thesis by simp
next
  case (Some v)
  then show ?thesis using assms(1) by (force simp: py_eq_items_iff dest: map_of_SomeD)
qed

lemma py_eq_dictI:
  assumes "dict_ok d" "dict_ok e" "\<And>k. rel_option py_eq (jget d k) (jget e k)"
  shows "py_eq (JDict d) (JDict e)"
proof -
  have dom: "dom (jget d) = dom (jget e)"
  proof -
    have "jget d k = None \<longleftrightarrow> jget e k = None" for k
      using assms(3) [of k] by (cases "jget d k"; cases "jget e k") auto
    then show ?thesis by (simp add: dom_def)
  qed
  have "length d = length e"
    using pd.sz_card [OF assms(1)] pd.sz_card [OF assms(2)] dom by simp
  moreover have "\<exists>w. jget e k = Some w \<and> py_eq v w" if "(k, v) \<in> set d" for k v
    using assms(3) [of k] dict_in_get [OF assms(1) that] by (auto simp: option_rel_Some1)
  ultimately show ?thesis by (auto simp: py_eq_items_iff)
qed

lemma py_eq_dict_iff:
  "dict_ok d \<Longrightarrow> dict_ok e \<Longrightarrow> py_eq (JDict d) (JDict e) \<longleftrightarrow> (\<forall>k. rel_option py_eq (jget d k) (jget e k))"
  using py_eq_dictI py_eq_dict_get by blast

lemma json_ok_get: "json_ok (JDict d) \<Longrightarrow> jget d k = Some v \<Longrightarrow> json_ok v"
  by (auto simp: json_ok_items_iff dest: map_of_SomeD)

lemma json_ok_set: "json_ok (JDict d) \<Longrightarrow> json_ok v \<Longrightarrow> json_ok (JDict (dict_set k v d))"
proof -
  have "json_ok_items d \<Longrightarrow> json_ok v \<Longrightarrow> json_ok_items (dict_set k v d)"
    by (induction d) auto
  then show "json_ok (JDict d) \<Longrightarrow> json_ok v \<Longrightarrow> json_ok (JDict (dict_set k v d))" by simp
qed

lemma py_eq_sym: "json_ok x \<Longrightarrow> json_ok y \<Longrightarrow> py_eq x y \<Longrightarrow> py_eq y x"
  and py_eq_list_sym: "json_ok_list xs \<Longrightarrow> json_ok_list ys \<Longrightarrow> py_eq_list xs ys \<Longrightarrow> py_eq_list ys xs"
  and py_eq_items_sym: "json_ok_items d \<Longrightarrow> json_ok_items e \<Longrightarrow> py_eq_items d e \<Longrightarrow> \<forall>(k, v)\<in>set d. \<forall>w. jget e k = Some w \<longrightarrow> py_eq w v"
proof (induction x y and xs ys and d e rule: py_eq_py_eq_list_py_eq_items.induct)
  case (7 d y)
  then obtain e where y: "y = JDict e" and eq: "py_eq (JDict d) (JDict e)"
    and ok: "dict_ok d" "dict_ok e" "json_ok_items d" "json_ok_items e"
    by (cases y) auto
  have flip: "\<forall>(k, v)\<in>set d. \<forall>w. jget e k = Some w \<longrightarrow> py_eq w v"
    using 7 y ok by auto
  have "rel_option py_eq (jget e k) (jget d k)" for k
    using py_eq_dict_get [OF eq ok(1,2), of k] flip
    by (cases "jget d k"; cases "jget e k") (auto dest!: map_of_SomeD simp: ok)
  then show ?case unfolding y using ok by (intro py_eq_dictI)
next
  case (11 k v d e)
  then show ?case
    using json_ok_items_iff [of e] by (auto split: option.splits dest: map_of_SomeD)
next
  case (6 xs y) then show ?case by (cases y) auto
next
  case (9 x xs ys) then show ?case by (cases ys) auto
next
  case (2 b y) then show ?case by (cases y) auto
next
  case (3 i y) then show ?case by (cases y) auto
next
  case (4 x y) then show ?case by (cases y) auto
qed auto

text \<open>
  \<open>json.dumps\<close> with \<open>ensure_ascii=False\<close> and the default separators. \<open>frepr\<close> stands for the
  shortest decimal rendering of a float, which is not modelled.
\<close>

definition hex_digit :: "nat \<Rightarrow> char" where
  "hex_digit d = (if d < 10 then digit_char d else char_of (87 + d))"

definition json_escape_char :: "char \<Rightarrow> string" where
  "json_escape_char c =
     (if c = CHR 0x22 then [CHR 0x5C, CHR 0x22]
      else if c = CHR 0x5C then [CHR 0x5C, CHR 0x5C]
      else if c = CHR 0x0A then [CHR 0x5C, CHR ''n'']
      else if c = CHR 0x0D then [CHR 0x5C, CHR ''r'']
      else if c = CHR 0x09 then [CHR 0x5C, CHR ''t'']
      else if c = CHR 0x08 then [CHR 0x5C, CHR ''b'']
      else if c = CHR 0x0C then [CHR 0x5C, CHR ''f'']
      else if code_point c < 32
           then [CHR 0x5C, CHR ''u'', CHR ''0'', CHR ''0'', hex_digit (code_point c div 16), hex_digit (code_point c mod 16)]
      else [c])"

definition json_quote :: "string \<Rightarrow> string" where
  "json_quote s = [CHR 0x22] @ concat (map json_escape_char s) @ [CHR 0x22]"

fun json_dumps :: "(rat \<Rightarrow> string) \<Rightarrow> json \<Rightarrow> string"
  and json_dumps_list :: "(rat \<Rightarrow> string) \<Rightarrow> json list \<Rightarrow> string list"
  and json_dumps_items :: "(rat \<Rightarrow> string) \<Rightarrow> (string \<times> json) list \<Rightarrow> string list" where
  "json_dumps frepr JNull = ''null''"
| "json_dumps frepr (JBool b) = (if b then ''true'' else ''false'')"
| "json_dumps frepr (JInt i) = int_dec i"
| "json_dumps frepr (JFloat x) = frepr x"
| "json_dumps frepr (JStr s) = json_quote s"
| "json_dumps frepr (JList xs) = ''['' @ join_with '', '' (json_dumps_list frepr xs) @ '']''"
| "json_dumps frepr (JDict kvs) = ''{'' @ join_with '', '' (json_dumps_items frepr kvs) @ ''}''"
| "json_dumps_list frepr [] = []"
| "json_dumps_list frepr (x # xs) = json_dumps frepr x # json_dumps_list frepr xs"
| "json_dumps_items frepr [] = []"
| "json_dumps_items frepr ((k, v) # kvs) = (json_quote k @ '': '' @ json_dumps frepr v) # json_dumps_items frepr kvs"

text \<open>\<open>json.dumps\<close> with \<open>separators=(",", ":")\<close>; \<open>esc\<close> is \<open>json_escape_char\<close>, or
  \<open>json_escape_ascii\<close> where \<open>ensure_ascii\<close> is left at its default.\<close>

definition json_escape_ascii :: "char \<Rightarrow> string" where
  "json_escape_ascii c =
     (if 126 < code_point c
      then [CHR 0x5C, CHR ''u'', CHR ''0'', CHR ''0'', hex_digit (code_point c div 16), hex_digit (code_point c mod 16)]
      else json_escape_char c)"

definition json_string :: "(char \<Rightarrow> string) \<Rightarrow> string \<Rightarrow> string" where
  "json_string esc s = [CHR 0x22] @ concat (map esc s) @ [CHR 0x22]"

fun json_compact :: "(char \<Rightarrow> string) \<Rightarrow> (rat \<Rightarrow> string) \<Rightarrow> json \<Rightarrow> string"
  and json_compact_list :: "(char \<Rightarrow> string) \<Rightarrow> (rat \<Rightarrow> string) \<Rightarrow> json list \<Rightarrow> string list"
  and json_compact_items :: "(char \<Rightarrow> string) \<Rightarrow> (rat \<Rightarrow> string) \<Rightarrow> (string \<times> json) list \<Rightarrow> string list" where
  "json_compact esc frepr JNull = ''null''"
| "json_compact esc frepr (JBool b) = (if b then ''true'' else ''false'')"
| "json_compact esc frepr (JInt i) = int_dec i"
| "json_compact esc frepr (JFloat x) = frepr x"
| "json_compact esc frepr (JStr s) = json_string esc s"
| "json_compact esc frepr (JList xs) = ''['' @ join_with '','' (json_compact_list esc frepr xs) @ '']''"
| "json_compact esc frepr (JDict kvs) = ''{'' @ join_with '','' (json_compact_items esc frepr kvs) @ ''}''"
| "json_compact_list esc frepr [] = []"
| "json_compact_list esc frepr (x # xs) = json_compact esc frepr x # json_compact_list esc frepr xs"
| "json_compact_items esc frepr [] = []"
| "json_compact_items esc frepr ((k, v) # kvs) =
     (json_string esc k @ '':'' @ json_compact esc frepr v) # json_compact_items esc frepr kvs"

text \<open>\<open>str.encode("utf-8")\<close>: one byte below 128, two bytes up to 255.\<close>

definition utf8_encode :: "string \<Rightarrow> string" where
  "utf8_encode s = concat (map (\<lambda>c.
     if code_point c < 128 then [c]
     else [char_of (192 + code_point c div 64), char_of (128 + code_point c mod 64)]) s)"

text \<open>
  \<open>bytes.decode("ascii", errors="replace")\<close> turns every byte from 128 on into U+FFFD, which is
  beyond the range of \<open>char\<close>; \<open>CHR 0xFF\<close> stands for it. \<open>str.encode("ascii")\<close> raises on any
  character from 128 on, so on it too.
\<close>

definition ascii_decode_replace :: "string \<Rightarrow> string" where
  "ascii_decode_replace b = map (\<lambda>c. if code_point c < 128 then c else CHR 0xFF) b"

definition is_ascii :: "string \<Rightarrow> bool" where
  "is_ascii s = list_all (\<lambda>c. code_point c < 128) s"

definition ascii_encode :: "string \<Rightarrow> py_error + string" where
  "ascii_encode s = (if is_ascii s then Inr s else Inl UnicodeError)"

lemmas str_eval =
  byte_lower_def char_lower_def bytes_lower_def str_lower_def is_space_def is_digit_def
  startswith_def endswith_def lstrip_def rstrip_def strip_def last_n_def NL_def TAB_def
  char_of_eq_iff
declare str_eval [str_defs]

end
