(* ===== verification/Token_Bucket.thy ===== *)
theory Token_Bucket
  imports Py_Text
begin

text \<open>
  The contract of a token bucket, which the per-user limiter of the auth plugin
  (\<open>rate_limiter.py\<close>) and the proxy's own limiter (\<open>headroom/proxy/rate_limiter.py\<close>) both
  implement. \<open>consume now c b\<close> asks for \<open>c\<close> tokens at clock reading \<open>now\<close>; \<open>avail t b\<close> is
  what the bucket holds at time \<open>t\<close>. The client lemmas are proved once here: over any run of
  requests with a non-decreasing clock the admitted amount is bounded by the initial level plus
  the refill, and a refused request succeeds after the advertised wait.
\<close>

text \<open>Requests are (clock reading, amount) pairs; the run returns the bucket and what was admitted.\<close>

fun bucket_run :: "(rat \<Rightarrow> rat \<Rightarrow> 'b \<Rightarrow> 'b \<times> bool) \<Rightarrow> 'b \<Rightarrow> (rat \<times> rat) list \<Rightarrow> 'b \<times> rat" where
  "bucket_run consume b [] = (b, 0)"
| "bucket_run consume b ((now, c) # rs) =
     (case consume now c b of
        (b', ok) \<Rightarrow> (case bucket_run consume b' rs of
           (b'', adm) \<Rightarrow> (b'', (if ok then c else 0) + adm)))"

fun clock_from :: "rat \<Rightarrow> (rat \<times> rat) list \<Rightarrow> bool" where
  "clock_from t [] = True"
| "clock_from t ((now, c) # rs) = (t \<le> now \<and> clock_from now rs)"

fun clock_end :: "rat \<Rightarrow> (rat \<times> rat) list \<Rightarrow> rat" where
  "clock_end t [] = t"
| "clock_end t ((now, c) # rs) = clock_end now rs"

lemma clock_end_ge: "clock_from t rs \<Longrightarrow> t \<le> clock_end t rs"
  by (induction t rs rule: clock_end.induct) auto

locale token_bucket =
  fixes consume :: "rat \<Rightarrow> rat \<Rightarrow> 'b \<Rightarrow> 'b \<times> bool"
    and avail :: "rat \<Rightarrow> 'b \<Rightarrow> rat"
    and upd :: "'b \<Rightarrow> rat"
    and rate :: "'b \<Rightarrow> rat"
    and inv :: "'b \<Rightarrow> bool"
  assumes inv_consume: "inv b \<Longrightarrow> upd b \<le> now \<Longrightarrow> 0 \<le> c \<Longrightarrow> inv (fst (consume now c b))"
    and upd_consume: "inv b \<Longrightarrow> upd b \<le> now \<Longrightarrow> upd (fst (consume now c b)) = now"
    and rate_consume: "inv b \<Longrightarrow> rate (fst (consume now c b)) = rate b"
    and admits_iff: "inv b \<Longrightarrow> upd b \<le> now \<Longrightarrow> snd (consume now c b) \<longleftrightarrow> c \<le> avail now b"
    and avail_consume: "inv b \<Longrightarrow> upd b \<le> now \<Longrightarrow> 0 \<le> c \<Longrightarrow>
          avail now (fst (consume now c b)) =
            (if snd (consume now c b) then avail now b - c else avail now b)"
    and avail_later: "inv b \<Longrightarrow> upd b \<le> s \<Longrightarrow> s \<le> t \<Longrightarrow>
          avail t b = min (rate b) (avail s b + (t - s) * (rate b / 60))"
    and avail_nonneg: "inv b \<Longrightarrow> upd b \<le> t \<Longrightarrow> 0 \<le> avail t b"
    and rate_pos: "inv b \<Longrightarrow> 0 < rate b"
begin

lemma avail_le_rate: "inv b \<Longrightarrow> upd b \<le> t \<Longrightarrow> avail t b \<le> rate b"
  using avail_later [of b t t] by simp

text \<open>One request costs what it is granted, out of the level and the refill since \<open>t\<close>.\<close>

lemma consume_step:
  assumes "inv b" "upd b \<le> t" "t \<le> now" "0 \<le> c" "consume now c b = (b', ok)"
  shows "(if ok then c else 0) + avail now b' \<le> avail t b + (now - t) * (rate b / 60)"
    and "upd b' = now" and "inv b'" and "rate b' = rate b"
proof -
  have now: "upd b \<le> now" using assms by simp
  have "avail now b \<le> avail t b + (now - t) * (rate b / 60)"
    using avail_later [of b t now] assms by simp
  then show "(if ok then c else 0) + avail now b' \<le> avail t b + (now - t) * (rate b / 60)"
    using avail_consume [of b now c] assms now by simp
  show "upd b' = now" and "inv b'" and "rate b' = rate b"
    using upd_consume [of b now c] inv_consume [of b now c] rate_consume [of b now c] assms now
    by simp_all
qed

theorem run_bounded:
  assumes "inv b" "upd b \<le> t" "clock_from t rs" "\<forall>(_, c) \<in> set rs. 0 \<le> c"
  shows "snd (bucket_run consume b rs) \<le> avail t b + (clock_end t rs - t) * (rate b / 60)"
  using assms
proof (induction rs arbitrary: b t)
  case Nil
  then show ?case using avail_nonneg [of b t] by simp
next
  case (Cons r rs)
  obtain now c where r: "r = (now, c)" by (cases r)
  obtain b' ok where c: "consume now c b = (b', ok)" by (cases "consume now c b")
  obtain b'' adm where run: "bucket_run consume b' rs = (b'', adm)"
    by (cases "bucket_run consume b' rs")
  have t: "t \<le> now" "clock_from now rs" "0 \<le> c" using Cons.prems r by auto
  note step = consume_step [OF Cons.prems(1,2) t(1,3) c]
  have "adm \<le> avail now b' + (clock_end now rs - now) * (rate b / 60)"
    using Cons.IH [of b' now] step t Cons.prems(4) run by simp
  moreover have "(clock_end now rs - now) * (rate b / 60) + (now - t) * (rate b / 60)
      = (clock_end now rs - t) * (rate b / 60)"
    by (simp only: distrib_right [symmetric]) simp
  ultimately show ?case
    using step(1) r c run by (auto split: if_splits)
qed

theorem wait_suffices:
  assumes "inv b" "upd b \<le> now" "0 \<le> c" "c \<le> rate b"
    and no: "consume now c b = (b', False)"
    and later: "now + (c - avail now b) * (60 / rate b) \<le> t"
  shows "snd (consume t c b')"
proof -
  have r: "0 < rate b" using assms(1) by (rule rate_pos)
  have short: "avail now b < c"
    using admits_iff [of b now c] assms by simp
  note step = consume_step(2-4) [OF assms(1,2) order_refl assms(3) no]
  have same: "avail now b' = avail now b"
    using avail_consume [of b now c] assms by simp
  have gap: "(c - avail now b) * (60 / rate b) \<le> t - now" using later by simp
  have "0 < (c - avail now b) * (60 / rate b)"
    using short r by (intro mult_pos_pos) simp_all
  with gap have le: "now \<le> t" by linarith
  have "c - avail now b = (c - avail now b) * (60 / rate b) * (rate b / 60)"
    using r by simp
  also have "\<dots> \<le> (t - now) * (rate b / 60)"
    using gap r by (intro mult_right_mono) simp_all
  finally have "c \<le> avail t b'"
    using avail_later [of b' now t] step same assms(4) le by simp
  then show ?thesis
    using admits_iff [of b' t c] step le by simp
qed

end

end
