(* ===== verification/Auth_Rate_Limiter.thy ===== *)
theory Auth_Rate_Limiter
  imports Token_Bucket
begin

text \<open>
  The per-user token-bucket limiter of the auth plugin
  (\<open>plugins/headroom-auth/src/headroom_auth/rate_limiter.py\<close>): \<open>_Bucket\<close> with \<open>refill\<close> and
  \<open>try_consume\<close>, and \<open>PerUserRateLimiter\<close> with \<open>check_rate_limit\<close>, \<open>record_tokens\<close>,
  \<open>_cleanup_if_needed\<close> and \<open>stats\<close>. Every reading of a clock is an argument: a call of
  \<open>check_rate_limit\<close> takes the record \<open>rl_clock\<close> of the readings it makes, in their order.
  \<open>60.0 / rate_per_minute\<close> raises for a zero rate, so \<open>try_consume\<close> returns an error value
  beside the refilled bucket. Shown: the bucket obeys the contract \<open>token_bucket\<close>; every bucket
  level stays within its rate; over any interleaved sequence of calls the admissions of one user
  are bounded by the limit plus the refill, whatever the cleanup evicts; a refused request is
  admitted after the advertised wait.
\<close>

section \<open>Buckets\<close>

record Bucket =
  bk_tokens :: rat
  bk_rate_per_minute :: rat
  bk_last_update :: rat

definition refill :: "rat \<Rightarrow> Bucket \<Rightarrow> Bucket \<times> rat" where
  "refill now b =
     (let elapsed = now - bk_last_update b;
          refill = elapsed * (bk_rate_per_minute b / 60);
          b' = b\<lparr>bk_tokens := min (bk_rate_per_minute b) (bk_tokens b + refill), bk_last_update := now\<rparr>
      in (b', bk_tokens b'))"

definition try_consume :: "rat \<Rightarrow> rat \<Rightarrow> Bucket \<Rightarrow> Bucket \<times> (py_error + bool \<times> rat)" where
  "try_consume now count b =
     (let (b', available) = refill now b
      in if count \<le> available then (b'\<lparr>bk_tokens := bk_tokens b' - count\<rparr>, Inr (True, 0))
         else if bk_rate_per_minute b' = 0 then (b', Inl ZeroDivisionError)
         else (b', Inr (False, (count - available) * (60 / bk_rate_per_minute b'))))"

section \<open>The limiter\<close>

definition MAX_BUCKETS :: nat where
  "MAX_BUCKETS = 1000"

record limiter =
  request_buckets :: "(string, Bucket) pydict"
  token_buckets :: "(string, Bucket) pydict"
  last_cleanup :: rat

definition limiter_init :: "rat \<Rightarrow> limiter" where
  "limiter_init now = \<lparr>request_buckets = [], token_buckets = [], last_cleanup = now\<rparr>"

record rl_clock =
  c_cleanup :: rat
  c_req_new :: rat
  c_req :: rat
  c_tok_new :: rat
  c_tok :: rat
  c_wall :: rat

definition cleanup_if_needed :: "rat \<Rightarrow> limiter \<Rightarrow> limiter" where
  "cleanup_if_needed now l =
     (if now - last_cleanup l < 60 then l
      else let threshold = now - 600;
               stale = [uid. (uid, b) \<leftarrow> request_buckets l, bk_last_update b < threshold]
           in l\<lparr>last_cleanup := now,
                request_buckets := dict_del_all stale (request_buckets l),
                token_buckets := dict_del_all stale (token_buckets l)\<rparr>)"

text \<open>The bucket of a user: the stored one when its rate is the current limit, else a full new one.\<close>

definition bucket_for :: "rat \<Rightarrow> int \<Rightarrow> string \<Rightarrow> (string, Bucket) pydict \<Rightarrow> Bucket" where
  "bucket_for now limit user d =
     (let fresh = \<lparr>bk_tokens = of_int limit, bk_rate_per_minute = of_int limit, bk_last_update = now\<rparr>
      in case dict_get d user of
           None \<Rightarrow> fresh
         | Some b \<Rightarrow> if bk_rate_per_minute b \<noteq> of_int limit then fresh else b)"

definition rl_headers :: "int \<Rightarrow> rat \<Rightarrow> Bucket \<Rightarrow> Bucket \<Rightarrow> (string \<times> string) list" where
  "rl_headers req_limit wall req_bucket tok_bucket =
     (let remaining = py_int (min (bk_tokens req_bucket) (bk_tokens tok_bucket));
          deficit = of_int req_limit - bk_tokens req_bucket;
          reset_seconds = (if 0 < req_limit then deficit * (60 / of_int req_limit) else 0)
      in [(''X-RateLimit-Limit'', int_dec req_limit),
          (''X-RateLimit-Remaining'', int_dec (max 0 remaining)),
          (''X-RateLimit-Reset'', int_dec (py_int (wall + reset_seconds)))])"

definition check_rate_limit ::
  "rl_clock \<Rightarrow> string \<Rightarrow> int option \<Rightarrow> int option \<Rightarrow> int \<Rightarrow> limiter
     \<Rightarrow> limiter \<times> (py_error + bool \<times> rat \<times> (string \<times> string) list)" where
  "check_rate_limit clk user rpm tpm estimated_tokens l =
     (let req_limit = (case rpm of None \<Rightarrow> 60 | Some n \<Rightarrow> n);
          tok_limit = (case tpm of None \<Rightarrow> 100000 | Some n \<Rightarrow> n);
          l1 = cleanup_if_needed (c_cleanup clk) l;
          (req, req_res) = try_consume (c_req clk) 1
             (bucket_for (c_req_new clk) req_limit user (request_buckets l1));
          l2 = l1\<lparr>request_buckets := dict_set user req (request_buckets l1)\<rparr>
      in case req_res of
           Inl e \<Rightarrow> (l2, Inl e)
         | Inr (req_allowed, req_wait) \<Rightarrow>
             (let (tok, tok_res) = try_consume (c_tok clk) (of_int (max estimated_tokens 1))
                     (bucket_for (c_tok_new clk) tok_limit user (token_buckets l2));
                  l3 = l2\<lparr>token_buckets := dict_set user tok (token_buckets l2)\<rparr>
              in case tok_res of
                   Inl e \<Rightarrow> (l3, Inl e)
                 | Inr (tok_allowed, tok_wait) \<Rightarrow>
                     (let headers = rl_headers req_limit (c_wall clk) req tok
                      in if \<not> req_allowed then (l3, Inr (False, req_wait, headers))
                         else if 0 < estimated_tokens \<and> \<not> tok_allowed
                              then (l3, Inr (False, tok_wait, headers))
                         else (l3, Inr (True, 0, headers)))))"

definition record_tokens :: "string \<Rightarrow> int \<Rightarrow> limiter \<Rightarrow> limiter" where
  "record_tokens user token_count l =
     (case dict_get (token_buckets l) user of
        None \<Rightarrow> l
      | Some b \<Rightarrow> l\<lparr>token_buckets := dict_set user
                     (b\<lparr>bk_tokens := max 0 (bk_tokens b - of_int token_count)\<rparr>) (token_buckets l)\<rparr>)"

definition limiter_stats :: "limiter \<Rightarrow> (string \<times> nat) list" where
  "limiter_stats l =
     [(''active_users'', length (request_buckets l)), (''max_buckets'', MAX_BUCKETS)]"

definition rate_limit_error :: "rat \<Rightarrow> (string \<times> json) list" where
  "rate_limit_error retry_after_seconds =
     [(''error'', JStr ''rate_limit_exceeded''),
      (''retry_after_seconds'', JInt (py_int (max 0 retry_after_seconds)))]"

section \<open>The bucket obeys the token-bucket contract\<close>

definition bucket_ok :: "Bucket \<Rightarrow> bool" where
  "bucket_ok b = (0 \<le> bk_tokens b \<and> bk_tokens b \<le> bk_rate_per_minute b)"

definition bucket_level :: "rat \<Rightarrow> Bucket \<Rightarrow> rat" where
  "bucket_level t b =
     min (bk_rate_per_minute b)
       (bk_tokens b + (t - bk_last_update b) * (bk_rate_per_minute b / 60))"

text \<open>The bucket as a client of the contract sees it: an error is a refusal.\<close>

definition bucket_consume :: "rat \<Rightarrow> rat \<Rightarrow> Bucket \<Rightarrow> Bucket \<times> bool" where
  "bucket_consume now c b =
     (case try_consume now c b of (b', r) \<Rightarrow> (b', r = Inr (True, 0)))"

lemma refill_eq:
  "refill now b = (b\<lparr>bk_tokens := bucket_level now b, bk_last_update := now\<rparr>, bucket_level now b)"
  by (simp add: refill_def bucket_level_def Let_def)

lemma try_consume_eq:
  "try_consume now c b =
     (if c \<le> bucket_level now b
      then (b\<lparr>bk_tokens := bucket_level now b - c, bk_last_update := now\<rparr>, Inr (True, 0))
      else (b\<lparr>bk_tokens := bucket_level now b, bk_last_update := now\<rparr>,
            if bk_rate_per_minute b = 0 then Inl ZeroDivisionError
            else Inr (False, (c - bucket_level now b) * (60 / bk_rate_per_minute b))))"
  by (simp add: try_consume_def refill_eq)

lemma bucket_consume_eq:
  "bucket_consume now c b =
     (b\<lparr>bk_tokens := (if c \<le> bucket_level now b then bucket_level now b - c else bucket_level now b),
        bk_last_update := now\<rparr>, c \<le> bucket_level now b)"
  by (simp add: bucket_consume_def try_consume_eq)

lemma bucket_level_le: "bucket_level t b \<le> bk_rate_per_minute b"
  by (simp add: bucket_level_def)

lemma bucket_level_nonneg:
  "bucket_ok b \<Longrightarrow> bk_last_update b \<le> t \<Longrightarrow> 0 \<le> bucket_level t b"
  by (auto simp: bucket_ok_def bucket_level_def)

lemma bucket_level_now [simp]:
  "x \<le> bk_rate_per_minute b \<Longrightarrow> bucket_level t (b\<lparr>bk_tokens := x, bk_last_update := t\<rparr>) = x"
  by (simp add: bucket_level_def)

lemma bucket_level_later:
  assumes "0 \<le> bk_rate_per_minute b" "s \<le> t"
  shows "bucket_level t b =
    min (bk_rate_per_minute b) (bucket_level s b + (t - s) * (bk_rate_per_minute b / 60))"
proof -
  let ?r = "bk_rate_per_minute b" and ?x = "bk_tokens b" and ?u = "bk_last_update b"
  have "?x + (t - ?u) * (?r / 60) = (?x + (s - ?u) * (?r / 60)) + (t - s) * (?r / 60)"
    by (simp add: field_simps)
  moreover have "0 \<le> (t - s) * (?r / 60)"
    using assms by simp
  ultimately show ?thesis
    unfolding bucket_level_def by linarith
qed

interpretation ub: token_bucket bucket_consume bucket_level bk_last_update bk_rate_per_minute
  "\<lambda>b. bucket_ok b \<and> 0 < bk_rate_per_minute b"
proof
  fix b :: Bucket and now c s t :: rat
  assume b: "bucket_ok b \<and> 0 < bk_rate_per_minute b"
  show "bk_rate_per_minute (fst (bucket_consume now c b)) = bk_rate_per_minute b"
    by (simp add: bucket_consume_eq)
  show "0 < bk_rate_per_minute b" using b by simp
  {
    assume now: "bk_last_update b \<le> now"
    note lv = bucket_level_nonneg [OF conjunct1 [OF b] now] bucket_level_le [of now b]
    show "bk_last_update (fst (bucket_consume now c b)) = now"
      by (simp add: bucket_consume_eq)
    show "snd (bucket_consume now c b) = (c \<le> bucket_level now b)"
      by (simp add: bucket_consume_eq)
    show "0 \<le> bucket_level now b" by (rule lv)
    assume c: "0 \<le> c"
    show "bucket_ok (fst (bucket_consume now c b)) \<and> 0 < bk_rate_per_minute (fst (bucket_consume now c b))"
      using b c lv by (simp add: bucket_consume_eq bucket_ok_def)
    show "bucket_level now (fst (bucket_consume now c b)) =
        (if snd (bucket_consume now c b) then bucket_level now b - c else bucket_level now b)"
      using c lv by (simp add: bucket_consume_eq)
  }
  show "bucket_level t b =
      min (bk_rate_per_minute b) (bucket_level s b + (t - s) * (bk_rate_per_minute b / 60))"
    if "bk_last_update b \<le> s" "s \<le> t"
    using bucket_level_later b that by (simp add: bucket_ok_def)
qed

section \<open>The limiter keeps every bucket within its rate\<close>

definition resolved :: "int \<Rightarrow> int option \<Rightarrow> int" where
  "resolved dflt limit = (case limit of None \<Rightarrow> dflt | Some n \<Rightarrow> n)"

text \<open>The readings of one call, in order, none before \<open>t\<close>.\<close>

definition clock_ok :: "rat \<Rightarrow> rl_clock \<Rightarrow> bool" where
  "clock_ok t clk = (t \<le> c_cleanup clk \<and> c_cleanup clk \<le> c_req_new clk \<and> c_req_new clk \<le> c_req clk
     \<and> c_req clk \<le> c_tok_new clk \<and> c_tok_new clk \<le> c_tok clk)"

definition buckets_ok :: "rat \<Rightarrow> (string, Bucket) pydict \<Rightarrow> bool" where
  "buckets_ok t d = (dict_ok d \<and> (\<forall>u b. dict_get d u = Some b \<longrightarrow> bucket_ok b \<and> bk_last_update b \<le> t))"

definition limiter_ok :: "rat \<Rightarrow> limiter \<Rightarrow> bool" where
  "limiter_ok t l = (buckets_ok t (request_buckets l) \<and> buckets_ok t (token_buckets l))"

lemma buckets_ok_mono: "buckets_ok s d \<Longrightarrow> s \<le> t \<Longrightarrow> buckets_ok t d"
  by (fastforce simp: buckets_ok_def)

lemma buckets_ok_set:
  "buckets_ok t d \<Longrightarrow> bucket_ok b \<Longrightarrow> bk_last_update b \<le> t \<Longrightarrow> buckets_ok t (dict_set u b d)"
  by (auto simp: buckets_ok_def dict_simps split: if_splits)

lemma buckets_ok_del_all: "buckets_ok t d \<Longrightarrow> buckets_ok t (dict_del_all us d)"
  by (auto simp: buckets_ok_def dict_simps split: if_splits)

lemma cleanup_ok: "limiter_ok t l \<Longrightarrow> t \<le> now \<Longrightarrow> limiter_ok now (cleanup_if_needed now l)"
  by (auto simp: limiter_ok_def cleanup_if_needed_def Let_def intro: buckets_ok_mono buckets_ok_del_all)

lemma bucket_for_ok:
  assumes "buckets_ok t d" "t \<le> now" "0 \<le> limit"
  shows "bucket_ok (bucket_for now limit u d)"
    and "bk_last_update (bucket_for now limit u d) \<le> now"
    and "bk_rate_per_minute (bucket_for now limit u d) = of_int limit"
  using assms by (fastforce simp: bucket_for_def bucket_ok_def buckets_ok_def Let_def split: option.splits)+

lemma try_consume_ok:
  assumes "bucket_ok b" "bk_last_update b \<le> now" "0 \<le> c"
  shows "bucket_ok (fst (try_consume now c b))"
    and "bk_last_update (fst (try_consume now c b)) = now"
    and "bk_rate_per_minute (fst (try_consume now c b)) = bk_rate_per_minute b"
  using assms bucket_level_nonneg [OF assms(1,2)] bucket_level_le [of now b]
  by (auto simp: try_consume_eq bucket_ok_def)

text \<open>What a call leaves in the two tables, on every path.\<close>

definition req_used :: "rl_clock \<Rightarrow> string \<Rightarrow> int \<Rightarrow> limiter \<Rightarrow> Bucket" where
  "req_used clk user limit l =
     bucket_for (c_req_new clk) limit user (request_buckets (cleanup_if_needed (c_cleanup clk) l))"

definition tok_used :: "rl_clock \<Rightarrow> string \<Rightarrow> int \<Rightarrow> limiter \<Rightarrow> Bucket" where
  "tok_used clk user limit l =
     bucket_for (c_tok_new clk) limit user (token_buckets (cleanup_if_needed (c_cleanup clk) l))"

lemma check_requests:
  "request_buckets (fst (check_rate_limit clk u rpm tpm est l)) =
     dict_set u (fst (try_consume (c_req clk) 1 (req_used clk u (resolved 60 rpm) l)))
       (request_buckets (cleanup_if_needed (c_cleanup clk) l))"
  by (auto simp: check_rate_limit_def req_used_def resolved_def Let_def split: sum.splits prod.splits)

lemma check_tokens:
  "token_buckets (fst (check_rate_limit clk u rpm tpm est l)) =
     (if isl (snd (try_consume (c_req clk) 1 (req_used clk u (resolved 60 rpm) l)))
      then token_buckets (cleanup_if_needed (c_cleanup clk) l)
      else dict_set u (fst (try_consume (c_tok clk) (of_int (max est 1)) (tok_used clk u (resolved 100000 tpm) l)))
             (token_buckets (cleanup_if_needed (c_cleanup clk) l)))"
  by (auto simp: check_rate_limit_def req_used_def tok_used_def resolved_def Let_def
      split: sum.splits prod.splits)

definition admitted :: "py_error + bool \<times> rat \<times> (string \<times> string) list \<Rightarrow> bool" where
  "admitted r = (case r of Inl _ \<Rightarrow> False | Inr (ok, _, _) \<Rightarrow> ok)"

lemma check_admitted:
  "admitted (snd (check_rate_limit clk u rpm tpm est l)) \<Longrightarrow>
     1 \<le> bucket_level (c_req clk) (req_used clk u (resolved 60 rpm) l)"
  by (auto simp: check_rate_limit_def req_used_def resolved_def admitted_def try_consume_eq Let_def
      split: sum.splits prod.splits if_splits)

lemma check_rate_limit_ok:
  assumes l: "limiter_ok t l" and clk: "clock_ok t clk"
    and lims: "0 \<le> resolved 60 rpm" "0 \<le> resolved 100000 tpm"
  shows "limiter_ok (c_tok clk) (fst (check_rate_limit clk u rpm tpm est l))"
proof -
  let ?l = "cleanup_if_needed (c_cleanup clk) l"
  let ?req = "req_used clk u (resolved 60 rpm) l" and ?tok = "tok_used clk u (resolved 100000 tpm) l"
  have c: "limiter_ok (c_cleanup clk) ?l"
    using l clk by (auto simp: clock_ok_def intro: cleanup_ok)
  then have rq: "buckets_ok (c_cleanup clk) (request_buckets ?l)"
    and tk: "buckets_ok (c_cleanup clk) (token_buckets ?l)"
    by (simp_all add: limiter_ok_def)
  have ord: "c_cleanup clk \<le> c_req_new clk" "c_req_new clk \<le> c_req clk" "c_req clk \<le> c_tok clk"
    "c_cleanup clk \<le> c_tok_new clk" "c_tok_new clk \<le> c_tok clk" "c_cleanup clk \<le> c_tok clk"
    using clk by (auto simp: clock_ok_def)
  note rb = bucket_for_ok [OF rq ord(1) lims(1), of u, folded req_used_def]
  note tb = bucket_for_ok [OF tk ord(4) lims(2), of u, folded tok_used_def]
  note rc = try_consume_ok [OF rb(1) order_trans [OF rb(2) ord(2)], of 1]
  note tc = try_consume_ok [OF tb(1) order_trans [OF tb(2) ord(5)], of "of_int (max est 1)"]
  have "buckets_ok (c_tok clk) (request_buckets (fst (check_rate_limit clk u rpm tpm est l)))"
    unfolding check_requests
    using rc ord by (auto intro!: buckets_ok_set buckets_ok_mono [OF rq])
  moreover have "buckets_ok (c_tok clk) (token_buckets (fst (check_rate_limit clk u rpm tpm est l)))"
    unfolding check_tokens
    using tc ord by (auto intro!: buckets_ok_set buckets_ok_mono [OF tk])
  ultimately show ?thesis by (simp add: limiter_ok_def)
qed

lemma record_tokens_ok:
  assumes "limiter_ok t l" "0 \<le> n"
  shows "limiter_ok t (record_tokens u n l)"
proof (cases "dict_get (token_buckets l) u")
  case None
  with assms show ?thesis by (simp add: record_tokens_def)
next
  case (Some b)
  with assms have "bucket_ok b" "bk_last_update b \<le> t"
    by (auto simp: limiter_ok_def buckets_ok_def)
  with Some assms show ?thesis
    by (auto simp: record_tokens_def limiter_ok_def bucket_ok_def intro!: buckets_ok_set)
qed

section \<open>Admissions of one user over a run\<close>

datatype rl_op =
    Check rl_clock string "int option" "int option" int
  | RecordTokens string int

fun rl_run :: "string \<Rightarrow> limiter \<Rightarrow> rl_op list \<Rightarrow> limiter \<times> nat" where
  "rl_run u l [] = (l, 0)"
| "rl_run u l (Check clk v rpm tpm est # ops) =
     (case check_rate_limit clk v rpm tpm est l of
        (l', res) \<Rightarrow> (case rl_run u l' ops of
           (l'', n) \<Rightarrow> (l'', (if v = u \<and> admitted res then Suc n else n))))"
| "rl_run u l (RecordTokens v n # ops) = rl_run u (record_tokens v n l) ops"

text \<open>The clock is monotonic, limits are not negative, and the user's limit is \<open>R\<close> throughout.\<close>

fun ops_ok :: "string \<Rightarrow> int \<Rightarrow> rat \<Rightarrow> rl_op list \<Rightarrow> bool" where
  "ops_ok u R t [] = True"
| "ops_ok u R t (Check clk v rpm tpm est # ops) =
     (clock_ok t clk \<and> 0 \<le> resolved 60 rpm \<and> 0 \<le> resolved 100000 tpm
      \<and> (v = u \<longrightarrow> resolved 60 rpm = R) \<and> ops_ok u R (c_tok clk) ops)"
| "ops_ok u R t (RecordTokens v n # ops) = (0 \<le> n \<and> ops_ok u R t ops)"

fun ops_end :: "rat \<Rightarrow> rl_op list \<Rightarrow> rat" where
  "ops_end t [] = t"
| "ops_end t (Check clk v rpm tpm est # ops) = ops_end (c_tok clk) ops"
| "ops_end t (RecordTokens v n # ops) = ops_end t ops"

text \<open>What the user may spend at time \<open>t\<close>; a missing or outdated bucket counts as full.\<close>

definition user_level :: "string \<Rightarrow> int \<Rightarrow> rat \<Rightarrow> limiter \<Rightarrow> rat" where
  "user_level u R t l =
     (case dict_get (request_buckets l) u of
        None \<Rightarrow> of_int R
      | Some b \<Rightarrow> if bk_rate_per_minute b \<noteq> of_int R then of_int R else bucket_level t b)"

lemma user_level_nonneg: "limiter_ok t l \<Longrightarrow> 0 < R \<Longrightarrow> 0 \<le> user_level u R t l"
  by (auto simp: user_level_def limiter_ok_def buckets_ok_def bucket_level_nonneg split: option.splits)

lemma user_level_later:
  assumes "0 < R" "s \<le> t"
  shows "user_level u R t l \<le> user_level u R s l + (t - s) * (of_int R / 60)"
  using assms
  by (auto simp: user_level_def bucket_level_later [OF _ assms(2)] split: option.splits)

text \<open>A bucket that the cleanup evicts is full by then, so eviction gives nothing away.\<close>

lemma stale_bucket_full:
  assumes "bucket_ok b" "bk_last_update b < now - 600"
  shows "bucket_level now b = bk_rate_per_minute b"
proof -
  let ?r = "bk_rate_per_minute b"
  have "600 * (?r / 60) \<le> (now - bk_last_update b) * (?r / 60)"
    using assms by (intro mult_right_mono) (auto simp: bucket_ok_def)
  then show ?thesis
    using assms by (simp add: bucket_level_def bucket_ok_def)
qed

lemma user_level_del_all:
  "user_level u R t (l\<lparr>last_cleanup := a, request_buckets := dict_del_all us (request_buckets l), token_buckets := d\<rparr>)
     = (if u \<in> set us then of_int R else user_level u R t l)"
  by (simp add: user_level_def dict_get_del_all)

lemma user_level_cleanup:
  assumes l: "limiter_ok t l" and "t \<le> now"
  shows "user_level u R now (cleanup_if_needed now l) = user_level u R now l"
proof (cases "now - last_cleanup l < 60")
  case True
  then show ?thesis by (simp add: cleanup_if_needed_def)
next
  case False
  let ?stale = "[uid. (uid, b) \<leftarrow> request_buckets l, bk_last_update b < now - 600]"
  have stale: "user_level u R now l = of_int R" if u: "u \<in> set ?stale"
  proof -
    obtain b where b: "(u, b) \<in> set (request_buckets l)" "bk_last_update b < now - 600"
      using u by (auto split: if_splits)
    then have g: "dict_get (request_buckets l) u = Some b" and ok: "bucket_ok b"
      using l by (auto simp: limiter_ok_def buckets_ok_def)
    with stale_bucket_full [OF ok b(2)] show ?thesis
      by (simp add: user_level_def)
  qed
  have "cleanup_if_needed now l =
      l\<lparr>last_cleanup := now, request_buckets := dict_del_all ?stale (request_buckets l),
        token_buckets := dict_del_all ?stale (token_buckets l)\<rparr>"
    using False by (simp add: cleanup_if_needed_def Let_def)
  then have "user_level u R now (cleanup_if_needed now l) =
      (if u \<in> set ?stale then of_int R else user_level u R now l)"
    by (simp only: user_level_del_all)
  then show ?thesis using stale by presburger
qed

text \<open>The bucket a call uses holds exactly the user's level.\<close>

lemma req_used_level:
  assumes l: "limiter_ok t l" and clk: "clock_ok t clk" and R: "0 < R"
  shows "bucket_level (c_req clk) (req_used clk u R l) = user_level u R (c_req clk) (cleanup_if_needed (c_cleanup clk) l)"
  using clk R
  by (auto simp: req_used_def bucket_for_def user_level_def bucket_level_def clock_ok_def Let_def
      split: option.splits)

lemma level_before_check:
  assumes l: "limiter_ok t l" and clk: "clock_ok t clk" and R: "0 < R"
  shows "user_level u R (c_req clk) (cleanup_if_needed (c_cleanup clk) l)
    \<le> user_level u R t l + (c_req clk - t) * (of_int R / 60)"
proof -
  have ord: "t \<le> c_cleanup clk" "c_cleanup clk \<le> c_req clk"
    using clk by (auto simp: clock_ok_def)
  have "user_level u R (c_req clk) (cleanup_if_needed (c_cleanup clk) l)
      \<le> user_level u R (c_cleanup clk) l + (c_req clk - c_cleanup clk) * (of_int R / 60)"
    using user_level_later [OF R ord(2)] user_level_cleanup [OF l ord(1)] by metis
  also have "\<dots> \<le> user_level u R t l + (c_cleanup clk - t) * (of_int R / 60)
      + (c_req clk - c_cleanup clk) * (of_int R / 60)"
    using user_level_later [OF R ord(1)] by simp
  finally show ?thesis
    by (simp only: add.assoc distrib_right [symmetric]) simp
qed

lemma check_step:
  assumes l: "limiter_ok t l" and clk: "clock_ok t clk" and R: "0 < R"
    and lim: "v = u \<Longrightarrow> resolved 60 rpm = R"
    and c: "check_rate_limit clk v rpm tpm est l = (l', res)"
  shows "(if v = u \<and> admitted res then 1 else 0) + user_level u R (c_tok clk) l'
    \<le> user_level u R t l + (c_tok clk - t) * (of_int R / 60)"
proof -
  let ?l = "cleanup_if_needed (c_cleanup clk) l" and ?b = "req_used clk u R l"
  have ord: "c_req clk \<le> c_tok clk" using clk by (auto simp: clock_ok_def)
  have rate: "bk_rate_per_minute ?b = of_int R"
    by (auto simp: req_used_def bucket_for_def Let_def split: option.splits)
  have after: "(if v = u \<and> admitted res then 1 else 0) + user_level u R (c_req clk) l'
      \<le> user_level u R (c_req clk) ?l"
  proof (cases "v = u")
    case True
    then have "dict_get (request_buckets l') u = Some (fst (try_consume (c_req clk) 1 ?b))"
      using check_requests [of clk v rpm tpm est l] c lim by (simp add: dict_simps)
    moreover have "admitted res \<Longrightarrow> 1 \<le> bucket_level (c_req clk) ?b"
      using check_admitted [of clk v rpm tpm est l] c lim True by simp
    ultimately show ?thesis
      using True req_used_level [OF l clk R, of u] bucket_level_le [of "c_req clk" ?b]
      by (auto simp: user_level_def [of _ _ _ l'] try_consume_eq rate)
  next
    case False
    then have "dict_get (request_buckets l') u = dict_get (request_buckets ?l) u"
      using check_requests [of clk v rpm tpm est l] c by (simp add: dict_simps)
    with False show ?thesis by (simp add: user_level_def)
  qed
  have "user_level u R (c_tok clk) l' \<le> user_level u R (c_req clk) l' + (c_tok clk - c_req clk) * (of_int R / 60)"
    by (rule user_level_later [OF R ord])
  moreover have "(c_req clk - t) * (of_int R / 60) + (c_tok clk - c_req clk) * (of_int R / 60)
      = (c_tok clk - t) * (of_int R / 60)"
    by (simp only: distrib_right [symmetric]) simp
  ultimately show ?thesis
    using after level_before_check [OF l clk R, of u] by linarith
qed

lemma user_level_record: "user_level u R t (record_tokens v n l) = user_level u R t l"
  by (simp add: user_level_def record_tokens_def split: option.splits)

lemma rl_run_bounded:
  assumes "limiter_ok t l" "ops_ok u R t ops" "0 < R"
  shows "of_nat (snd (rl_run u l ops)) \<le> user_level u R t l + (ops_end t ops - t) * (of_int R / 60)"
  using assms
proof (induction u l ops arbitrary: t rule: rl_run.induct)
  case (1 u l)
  then show ?case using user_level_nonneg by simp
next
  case (2 u l clk v rpm tpm est ops)
  obtain l' res where c: "check_rate_limit clk v rpm tpm est l = (l', res)"
    by (cases "check_rate_limit clk v rpm tpm est l")
  obtain l'' n where run: "rl_run u l' ops = (l'', n)" by (cases "rl_run u l' ops")
  have ok: "clock_ok t clk" "0 \<le> resolved 60 rpm" "0 \<le> resolved 100000 tpm"
    "v = u \<Longrightarrow> resolved 60 rpm = R" "ops_ok u R (c_tok clk) ops"
    using "2.prems" by auto
  have l': "limiter_ok (c_tok clk) l'"
    using check_rate_limit_ok [OF "2.prems"(1) ok(1-3), of v est] c by simp
  have "of_nat n \<le> user_level u R (c_tok clk) l' + (ops_end (c_tok clk) ops - c_tok clk) * (of_int R / 60)"
    using "2.IH" [OF c [symmetric] l' ok(5) "2.prems"(3)] run by simp
  moreover have "(c_tok clk - t) * (of_int R / 60) + (ops_end (c_tok clk) ops - c_tok clk) * (of_int R / 60)
      = (ops_end (c_tok clk) ops - t) * (of_int R / 60)"
    by (simp only: distrib_right [symmetric]) simp
  moreover have "(if v = u \<and> admitted res then 1 else 0) + user_level u R (c_tok clk) l'
      \<le> user_level u R t l + (c_tok clk - t) * (of_int R / 60)"
    using "2.prems"(1) ok(1) "2.prems"(3) ok(4) c by (rule check_step)
  ultimately have "(if v = u \<and> admitted res then 1 else 0) + of_nat n
      \<le> user_level u R t l + (ops_end (c_tok clk) ops - t) * (of_int R / 60)"
    by linarith
  then show ?case
    using c run by auto
next
  case (3 u l v n ops)
  then show ?case
    using record_tokens_ok [of t l n v] by (simp add: user_level_record)
qed

lemma rl_run_ok:
  assumes "limiter_ok t l" "ops_ok u R t ops"
  shows "limiter_ok (ops_end t ops) (fst (rl_run v l ops))"
  using assms
proof (induction u l ops arbitrary: t rule: rl_run.induct)
  case (2 u l clk w rpm tpm est ops)
  then show ?case
    using check_rate_limit_ok [of t l clk rpm tpm w est]
    by (auto split: prod.splits)
qed (auto intro: record_tokens_ok)

lemma limiter_init_ok: "limiter_ok t (limiter_init t)"
  by (simp add: limiter_ok_def limiter_init_def buckets_ok_def)

section \<open>Waiting as advertised\<close>

lemma user_level_exact:
  assumes "0 < R" "s \<le> t"
  shows "user_level u R t l = min (of_int R) (user_level u R s l + (t - s) * (of_int R / 60))"
  using assms
  by (auto simp: user_level_def bucket_level_later [OF _ assms(2)] split: option.splits)

lemma user_level_cleanup_later:
  assumes "limiter_ok t l" "t \<le> now" "now \<le> t'" "0 < R"
  shows "user_level u R t' (cleanup_if_needed now l) = user_level u R t' l"
  using user_level_exact [OF assms(4,3)] user_level_cleanup [OF assms(1,2)] by simp

lemma check_admitted_iff:
  assumes "limiter_ok t l" "clock_ok t clk" "0 < R" "0 < T"
  shows "admitted (snd (check_rate_limit clk u (Some R) (Some T) 0 l))
    \<longleftrightarrow> 1 \<le> user_level u R (c_req clk) l"
proof -
  have "bucket_level (c_req clk) (req_used clk u R l) = user_level u R (c_req clk) l"
    using req_used_level [OF assms(1-3)] user_level_cleanup_later [OF assms(1) _ _ assms(3)] assms(2)
    by (simp add: clock_ok_def)
  moreover have "bk_rate_per_minute (req_used clk u R l) = of_int R"
    by (auto simp: req_used_def bucket_for_def Let_def split: option.splits)
  moreover have "bk_rate_per_minute (tok_used clk u T l) = of_int T"
    by (auto simp: tok_used_def bucket_for_def Let_def split: option.splits)
  ultimately show ?thesis
    using assms(3,4)
    by (auto simp: check_rate_limit_def req_used_def tok_used_def admitted_def try_consume_eq Let_def)
qed

lemma check_refused:
  assumes "check_rate_limit clk u (Some R) tpm 0 l = (l', Inr (False, w, h))"
  shows "\<not> 1 \<le> bucket_level (c_req clk) (req_used clk u R l)"
    and "w = (1 - bucket_level (c_req clk) (req_used clk u R l)) * (60 / of_int R)"
    and "dict_get (request_buckets l') u = Some (fst (bucket_consume (c_req clk) 1 (req_used clk u R l)))"
proof -
  have rate: "bk_rate_per_minute (req_used clk u R l) = of_int R"
    by (auto simp: req_used_def bucket_for_def Let_def split: option.splits)
  show "\<not> 1 \<le> bucket_level (c_req clk) (req_used clk u R l)"
    and "w = (1 - bucket_level (c_req clk) (req_used clk u R l)) * (60 / of_int R)"
    using assms rate
    by (auto simp: check_rate_limit_def req_used_def try_consume_eq Let_def split: sum.splits prod.splits if_splits)
  show "dict_get (request_buckets l') u = Some (fst (bucket_consume (c_req clk) 1 (req_used clk u R l)))"
    using check_requests [of clk u "Some R" tpm 0 l] assms
    by (simp add: dict_simps resolved_def bucket_consume_def split: prod.splits)
qed

section \<open>Properties\<close>

text \<open>C2: Rate-limit soundness. Starting from a new limiter, over any interleaving of checks and
  token records of any users with a monotonic clock, the number of requests of a user that
  \<open>check_rate_limit\<close> admits is at most the user's requests-per-minute limit plus the refill over
  the elapsed time. Evicting stale buckets does not weaken the bound.\<close>
theorem user_admissions_bounded:
  assumes "ops_ok u R t ops" "0 < R"
  shows "of_nat (snd (rl_run u (limiter_init t) ops)) \<le> of_int R + (ops_end t ops - t) * (of_int R / 60)"
  using rl_run_bounded [OF limiter_init_ok assms] by (simp add: user_level_def limiter_init_def)

definition sample_clock :: "rat \<Rightarrow> rl_clock" where
  "sample_clock t = \<lparr>c_cleanup = t, c_req_new = t, c_req = t, c_tok_new = t, c_tok = t, c_wall = t\<rparr>"

definition sample_ops :: "rl_op list" where
  "sample_ops = [Check (sample_clock 0) ''a'' (Some 1) None 0, Check (sample_clock 1) ''b'' None None 0,
     Check (sample_clock 2) ''a'' (Some 1) None 0, RecordTokens ''a'' 7,
     Check (sample_clock 62) ''a'' (Some 1) None 0]"

lemma sample_ops_ok: "ops_ok ''a'' 1 0 sample_ops"
  by (simp add: sample_ops_def sample_clock_def clock_ok_def resolved_def)

theorem user_admissions_bounded_witness:
  "of_nat (snd (rl_run ''a'' (limiter_init 0) sample_ops)) \<le> (1 :: rat) + (ops_end 0 sample_ops - 0) * (1 / 60)"
  using user_admissions_bounded [OF sample_ops_ok] by simp

text \<open>In every state a run of the limiter reaches, each request and token bucket holds between
  0 and its per-minute rate, and none was updated in the future. In particular \<open>record_tokens\<close>
  never makes a bucket negative.\<close>
theorem limiter_run_levels_ok:
  assumes "ops_ok u R t ops"
  shows "limiter_ok (ops_end t ops) (fst (rl_run u (limiter_init t) ops))"
  using rl_run_ok [OF limiter_init_ok assms] .

theorem limiter_run_levels_ok_witness:
  "limiter_ok (ops_end 0 sample_ops) (fst (rl_run ''a'' (limiter_init 0) sample_ops))"
  using limiter_run_levels_ok [OF sample_ops_ok] .

text \<open>The advertised wait is honest. If a request is refused with \<open>retry_after = w\<close>, then the
  same user's next request, made at least \<open>w\<close> seconds later, is admitted.\<close>
theorem refused_then_admitted:
  assumes l: "limiter_ok t l" and clk: "clock_ok t clk" and R: "0 < R" and T: "0 < T"
    and no: "check_rate_limit clk u (Some R) (Some T) 0 l = (l', Inr (False, w, h))"
    and clk': "clock_ok (c_tok clk) clk'" and wait: "c_req clk + w \<le> c_req clk'"
  shows "admitted (snd (check_rate_limit clk' u (Some R) (Some T) 0 l'))"
proof -
  let ?b = "req_used clk u R l"
  note ref = check_refused [OF no]
  have l': "limiter_ok (c_tok clk) l'"
    using check_rate_limit_ok [OF l clk, of "Some R" "Some T" u 0] R T no by (simp add: resolved_def)
  have ord: "t \<le> c_cleanup clk" "c_cleanup clk \<le> c_req_new clk" "c_req_new clk \<le> c_req clk"
    using clk by (simp_all add: clock_ok_def)
  have "limiter_ok (c_cleanup clk) (cleanup_if_needed (c_cleanup clk) l)"
    using cleanup_ok [OF l ord(1)] .
  then have b: "bucket_ok ?b" "bk_last_update ?b \<le> c_req clk" "bk_rate_per_minute ?b = of_int R"
    using bucket_for_ok [of "c_cleanup clk" _ "c_req_new clk" R u] ord R
    by (fastforce simp: limiter_ok_def req_used_def)+
  have refuse: "bucket_consume (c_req clk) 1 ?b = (fst (bucket_consume (c_req clk) 1 ?b), False)"
    using ref(1) by (simp add: bucket_consume_eq)
  have "snd (bucket_consume (c_req clk') 1 (fst (bucket_consume (c_req clk) 1 ?b)))"
    using ub.wait_suffices [OF _ b(2) _ _ refuse, of "c_req clk'"] b R wait ref(2) by simp
  then have "1 \<le> user_level u R (c_req clk') l'"
    using ref(3) b(3) by (simp add: user_level_def bucket_consume_eq [of "c_req clk'"]
        bucket_consume_eq [of "c_req clk"])
  then show ?thesis
    using check_admitted_iff [OF l' clk' R T] by simp
qed

theorem refused_then_admitted_witness:
  "let l1 = fst (check_rate_limit (sample_clock 0) ''a'' (Some 1) (Some 5) 0 (limiter_init 0));
       l2 = fst (check_rate_limit (sample_clock 2) ''a'' (Some 1) (Some 5) 0 l1)
   in \<not> admitted (snd (check_rate_limit (sample_clock 2) ''a'' (Some 1) (Some 5) 0 l1))
      \<and> admitted (snd (check_rate_limit (sample_clock 60) ''a'' (Some 1) (Some 5) 0 l2))"
proof -
  define l1 where "l1 = fst (check_rate_limit (sample_clock 0) ''a'' (Some 1) (Some 5) 0 (limiter_init 0))"
  define l2 where "l2 = fst (check_rate_limit (sample_clock 2) ''a'' (Some 1) (Some 5) 0 l1)"
  define h where "h = rl_headers 1 2 (fst (try_consume 2 1 \<lparr>bk_tokens = 0, bk_rate_per_minute = 1, bk_last_update = 0\<rparr>))
      (fst (try_consume 2 1 \<lparr>bk_tokens = 4, bk_rate_per_minute = 5, bk_last_update = 0\<rparr>))"
  have l1: "l1 = \<lparr>request_buckets = [(''a'', \<lparr>bk_tokens = 0, bk_rate_per_minute = 1, bk_last_update = 0\<rparr>)],
      token_buckets = [(''a'', \<lparr>bk_tokens = 4, bk_rate_per_minute = 5, bk_last_update = 0\<rparr>)], last_cleanup = 0\<rparr>"
    by (simp add: l1_def check_rate_limit_def sample_clock_def limiter_init_def cleanup_if_needed_def
        bucket_for_def try_consume_eq bucket_level_def Let_def)
  have ok: "limiter_ok 0 l1"
    unfolding l1 by (auto simp: limiter_ok_def buckets_ok_def bucket_ok_def split: if_splits)
  have no: "check_rate_limit (sample_clock 2) ''a'' (Some 1) (Some 5) 0 l1 = (l2, Inr (False, 58, h))"
    by (simp add: l2_def l1 h_def check_rate_limit_def sample_clock_def cleanup_if_needed_def
        bucket_for_def try_consume_eq bucket_level_def Let_def)
  have "admitted (snd (check_rate_limit (sample_clock 60) ''a'' (Some 1) (Some 5) 0 l2))"
    by (rule refused_then_admitted [OF ok _ _ _ no]) (simp_all add: sample_clock_def clock_ok_def)
  then show ?thesis
    using no by (simp add: l1_def [symmetric] l2_def [symmetric] admitted_def)
qed

text \<open>A zero requests-per-minute limit is not a refusal but an exception: every check of such a
  user raises \<open>ZeroDivisionError\<close> (from \<open>60.0 / self.rate_per_minute\<close>).\<close>
theorem zero_limit_raises:
  assumes "limiter_ok t l" "clock_ok t clk"
  shows "snd (check_rate_limit clk u (Some 0) tpm est l) = Inl ZeroDivisionError"
proof -
  have "limiter_ok (c_cleanup clk) (cleanup_if_needed (c_cleanup clk) l)"
    using assms by (auto simp: clock_ok_def intro: cleanup_ok)
  then have "bk_rate_per_minute (req_used clk u 0 l) = 0"
    using bucket_for_ok(3) [of "c_cleanup clk" _ "c_req_new clk" 0 u] assms(2)
    by (auto simp: limiter_ok_def clock_ok_def req_used_def)
  then obtain b where "try_consume (c_req clk) 1 (req_used clk u 0 l) = (b, Inl ZeroDivisionError)"
    using bucket_level_le [of "c_req clk" "req_used clk u 0 l"] by (auto simp: try_consume_eq)
  then show ?thesis
    by (simp add: check_rate_limit_def req_used_def Let_def)
qed

theorem zero_limit_raises_witness:
  "snd (check_rate_limit (sample_clock 1) ''a'' (Some 0) None 0 (limiter_init 0)) = Inl ZeroDivisionError"
  by (rule zero_limit_raises [OF limiter_init_ok]) (simp add: sample_clock_def clock_ok_def)

end
