(* ===== verification/Auth_Cache.thy ===== *)
theory Auth_Cache
  imports Py_Text
begin

text \<open>
  The validation cache of the auth plugin
  (\<open>plugins/headroom-auth/src/headroom_auth/cache.py\<close>): \<open>CachedIdentity\<close> with
  \<open>from_resolve_result\<close>, and \<open>AuthCache\<close> with \<open>get\<close>, \<open>get_stale\<close>, \<open>set\<close>, \<open>cleanup\<close>, \<open>size\<close>.
  The row that the store resolves is the record \<open>resolve_result\<close>. The Fernet decryption (\<open>None\<close>:
  it raised) and \<open>json.loads\<close> on the stored provider keys (\<open>None\<close>: it raised) are arguments.
  Clock readings are arguments. Shown: \<open>get\<close> serves an entry exactly within its TTL, a stored
  identity is found until then, \<open>cleanup\<close> removes exactly the idle entries.
\<close>

section \<open>Identities\<close>

record resolve_result =
  rr_user_id :: string
  rr_username :: string
  rr_role :: string
  rr_team :: "string option"
  rr_provider_keys :: "string option"
  rr_default_rpm :: "int option"
  rr_default_tpm :: "int option"

record CachedIdentity =
  ci_user_id :: string
  ci_username :: string
  ci_role :: string
  ci_team :: "string option"
  ci_provider_keys :: "(string, string) pydict"
  ci_default_rpm :: "int option"
  ci_default_tpm :: "int option"
  ci_cached_at :: rat
  ci_last_accessed :: rat

text \<open>The loop over the encrypted keys: a key that does not decrypt is logged and left out.\<close>

fun decrypt_keys ::
  "(string \<Rightarrow> string option) \<Rightarrow> (string, json) pydict \<Rightarrow> (string, string) pydict \<Rightarrow> (string, string) pydict" where
  "decrypt_keys decrypt [] decrypted = decrypted"
| "decrypt_keys decrypt ((provider, token) # encrypted) decrypted =
     (case (case token of JStr t \<Rightarrow> decrypt t | _ \<Rightarrow> None) of
        None \<Rightarrow> decrypt_keys decrypt encrypted decrypted
      | Some key \<Rightarrow> decrypt_keys decrypt encrypted (dict_set provider key decrypted))"

text \<open>Keys that decode to another value than an object have no \<open>items\<close>.\<close>

definition from_resolve_result ::
  "(string \<Rightarrow> string option) \<Rightarrow> (string \<Rightarrow> json option) \<Rightarrow> rat \<Rightarrow> rat \<Rightarrow> resolve_result \<Rightarrow> py_error + CachedIdentity" where
  "from_resolve_result decrypt loads now_cached now_accessed result =
     (let raw_keys = (case rr_provider_keys result of
                        None \<Rightarrow> ''{}'' | Some s \<Rightarrow> if s = [] then ''{}'' else s)
      in case (case loads raw_keys of None \<Rightarrow> JDict [] | Some v \<Rightarrow> v) of
           JDict encrypted \<Rightarrow>
             (let decrypted = decrypt_keys decrypt encrypted []
              in Inr \<lparr>ci_user_id = rr_user_id result, ci_username = rr_username result,
                      ci_role = rr_role result, ci_team = rr_team result, ci_provider_keys = decrypted,
                      ci_default_rpm = rr_default_rpm result, ci_default_tpm = rr_default_tpm result,
                      ci_cached_at = now_cached, ci_last_accessed = now_accessed\<rparr>)
         | _ \<Rightarrow> Inl AttributeError)"

section \<open>The cache\<close>

record auth_cache =
  ac_ttl :: int
  ac_stale_grace :: int
  ac_entries :: "(string, CachedIdentity) pydict"

definition auth_cache_init :: "int \<Rightarrow> int \<Rightarrow> auth_cache" where
  "auth_cache_init ttl grace = \<lparr>ac_ttl = ttl, ac_stale_grace = grace, ac_entries = []\<rparr>"

text \<open>The cache hands out the stored object, so what the caller sees carries the new
  \<open>last_accessed\<close>.\<close>

definition cache_get :: "rat \<Rightarrow> rat \<Rightarrow> string \<Rightarrow> auth_cache \<Rightarrow> auth_cache \<times> CachedIdentity option" where
  "cache_get now_age now_touch key_hash c =
     (case dict_get (ac_entries c) key_hash of
        None \<Rightarrow> (c, None)
      | Some e \<Rightarrow>
          if of_int (ac_ttl c) < now_age - ci_cached_at e then (c, None)
          else let e' = e\<lparr>ci_last_accessed := now_touch\<rparr>
               in (c\<lparr>ac_entries := dict_set key_hash e' (ac_entries c)\<rparr>, Some e'))"

definition cache_get_stale :: "rat \<Rightarrow> string \<Rightarrow> auth_cache \<Rightarrow> auth_cache \<times> CachedIdentity option" where
  "cache_get_stale now key_hash c =
     (case dict_get (ac_entries c) key_hash of
        None \<Rightarrow> (c, None)
      | Some e \<Rightarrow> let e' = e\<lparr>ci_last_accessed := now\<rparr>
                  in (c\<lparr>ac_entries := dict_set key_hash e' (ac_entries c)\<rparr>, Some e'))"

definition cache_set :: "string \<Rightarrow> CachedIdentity \<Rightarrow> auth_cache \<Rightarrow> auth_cache" where
  "cache_set key_hash identity c = c\<lparr>ac_entries := dict_set key_hash identity (ac_entries c)\<rparr>"

definition cache_cleanup :: "rat \<Rightarrow> auth_cache \<Rightarrow> auth_cache \<times> nat" where
  "cache_cleanup now c =
     (let threshold = now - of_int (ac_stale_grace c);
          stale = map fst (filter (\<lambda>(h, e). ci_last_accessed e < threshold) (ac_entries c))
      in (c\<lparr>ac_entries := dict_del_all stale (ac_entries c)\<rparr>, length stale))"

definition cache_size :: "auth_cache \<Rightarrow> nat" where
  "cache_size c = length (ac_entries c)"

section \<open>Lemmas\<close>

text \<open>The identity without its time stamps: what authenticates a request.\<close>

definition ident_core :: "CachedIdentity \<Rightarrow> CachedIdentity" where
  "ident_core e = e\<lparr>ci_cached_at := 0, ci_last_accessed := 0\<rparr>"

lemma ident_core_touch [simp]: "ident_core (e\<lparr>ci_last_accessed := t\<rparr>) = ident_core e"
  by (simp add: ident_core_def)

lemma ident_core_fields:
  assumes "ident_core e = ident_core e'"
  shows "ci_user_id e = ci_user_id e'" "ci_username e = ci_username e'" "ci_role e = ci_role e'"
    "ci_team e = ci_team e'" "ci_provider_keys e = ci_provider_keys e'"
  using assms by (cases e; cases e'; simp add: ident_core_def)+

lemma from_result_core:
  "from_resolve_result d l a b r = Inr i \<Longrightarrow> from_resolve_result d l 0 0 r = Inr (ident_core i)"
  by (cases "case l (case rr_provider_keys r of None \<Rightarrow> ''{}'' | Some s \<Rightarrow> if s = [] then ''{}'' else s) of None \<Rightarrow> JDict [] | Some v \<Rightarrow> v")
    (auto simp: ident_core_def from_resolve_result_def Let_def)

lemma from_result_fields:
  assumes "from_resolve_result d l a b r = Inr i"
  shows "ci_user_id i = rr_user_id r" "ci_username i = rr_username r" "ci_role i = rr_role r" "ci_team i = rr_team r"
  using assms
  by (cases "case l (case rr_provider_keys r of None \<Rightarrow> ''{}'' | Some s \<Rightarrow> if s = [] then ''{}'' else s) of None \<Rightarrow> JDict [] | Some v \<Rightarrow> v";
      auto simp: from_resolve_result_def Let_def)+

text \<open>Provider keys stored as a JSON list make the identity raise instead of leaving it without keys.\<close>
lemma non_object_keys_raise:
  "rr_provider_keys row = Some s \<Longrightarrow> s \<noteq> [] \<Longrightarrow> loads s = Some (JList xs) \<Longrightarrow>
    from_resolve_result decrypt loads a b row = Inl AttributeError"
  by (simp add: from_resolve_result_def)

lemma cache_get_hit_iff:
  "snd (cache_get a b h c) \<noteq> None \<longleftrightarrow>
     (\<exists>e. dict_get (ac_entries c) h = Some e \<and> a - ci_cached_at e \<le> of_int (ac_ttl c))"
  by (auto simp: cache_get_def Let_def split: option.splits)

lemma cache_get_core:
  "snd (cache_get a b h c) = Some e \<Longrightarrow>
     \<exists>e0. dict_get (ac_entries c) h = Some e0 \<and> ident_core e = ident_core e0 \<and> ci_cached_at e = ci_cached_at e0"
  by (auto simp: cache_get_def Let_def split: option.splits if_splits)

lemma cache_get_entries:
  "dict_get (ac_entries (fst (cache_get a b h c))) h' = Some e \<Longrightarrow>
     \<exists>e0. dict_get (ac_entries c) h' = Some e0 \<and> ident_core e = ident_core e0 \<and> ci_cached_at e = ci_cached_at e0"
  by (auto simp: cache_get_def Let_def dict_simps split: option.splits if_splits)

lemma cache_get_stale_core:
  "snd (cache_get_stale a h c) = Some e \<Longrightarrow>
     \<exists>e0. dict_get (ac_entries c) h = Some e0 \<and> ident_core e = ident_core e0 \<and> ci_cached_at e = ci_cached_at e0"
  by (auto simp: cache_get_stale_def Let_def split: option.splits if_splits)

lemma cache_get_stale_entries:
  "dict_get (ac_entries (fst (cache_get_stale a h c))) h' = Some e \<Longrightarrow>
     \<exists>e0. dict_get (ac_entries c) h' = Some e0 \<and> ident_core e = ident_core e0 \<and> ci_cached_at e = ci_cached_at e0"
  by (auto simp: cache_get_stale_def Let_def dict_simps split: option.splits if_splits)

lemma cache_config [simp]:
  "ac_ttl (fst (cache_get a b h c)) = ac_ttl c"
  "ac_ttl (fst (cache_get_stale a h c)) = ac_ttl c"
  "ac_ttl (cache_set h i c) = ac_ttl c"
  by (simp_all add: cache_get_def cache_get_stale_def cache_set_def Let_def split: option.splits)

lemma cache_cleanup_get:
  assumes "dict_ok (ac_entries c)"
  shows "dict_get (ac_entries (fst (cache_cleanup now c))) h =
    (case dict_get (ac_entries c) h of
       None \<Rightarrow> None
     | Some e \<Rightarrow> if ci_last_accessed e < now - of_int (ac_stale_grace c) then None else Some e)"
proof -
  let ?P = "\<lambda>e. ci_last_accessed e < now - of_int (ac_stale_grace c)"
  have "h \<in> set (map fst (filter (\<lambda>(h, e). ?P e) (ac_entries c)))
      \<longleftrightarrow> (\<exists>e. dict_get (ac_entries c) h = Some e \<and> ?P e)"
    using assms by force
  then show ?thesis
    by (auto simp: cache_cleanup_def dict_simps Let_def split: option.splits)
qed

section \<open>Properties\<close>

text \<open>Freshness. After an identity is stored at time \<open>t\<close>, \<open>get\<close> returns it (with its
  \<open>last_accessed\<close> stamp updated, everything else unchanged) at every reading up to \<open>t + ttl\<close> and
  returns nothing at every later reading, whatever other keys were stored in between.\<close>
theorem cache_set_then_get:
  assumes "ci_cached_at i = t" "h \<notin> set (map fst others)"
  shows "snd (cache_get now touch h (fold (\<lambda>(k, j). cache_set k j) others (cache_set h i c))) =
    (if now \<le> t + of_int (ac_ttl c) then Some (i\<lparr>ci_last_accessed := touch\<rparr>) else None)"
proof -
  let ?c = "fold (\<lambda>(k, j). cache_set k j) others (cache_set h i c)"
  have "dict_get (ac_entries (fold (\<lambda>(k, j). cache_set k j) xs d)) h = dict_get (ac_entries d) h
      \<and> ac_ttl (fold (\<lambda>(k, j). cache_set k j) xs d) = ac_ttl d" if "h \<notin> set (map fst xs)" for xs d
    using that by (induction xs arbitrary: d) (auto simp: cache_set_def dict_simps)
  from this [OF assms(2)] have "dict_get (ac_entries ?c) h = Some i" and "ac_ttl ?c = ac_ttl c"
    by (simp_all add: cache_set_def dict_simps)
  then show ?thesis
    using assms(1) by (auto simp: cache_get_def Let_def)
qed

definition sample_identity :: CachedIdentity where
  "sample_identity = \<lparr>ci_user_id = ''u1'', ci_username = ''ann'', ci_role = ''developer'',
     ci_team = Some ''core'', ci_provider_keys = [(''anthropic'', ''sk-1'')], ci_default_rpm = None,
     ci_default_tpm = None, ci_cached_at = 5, ci_last_accessed = 5\<rparr>"

theorem cache_set_then_get_witness:
  "snd (cache_get 15 16 ''h'' (cache_set ''g'' sample_identity (cache_set ''h'' sample_identity (auth_cache_init 10 300))))
     = Some (sample_identity\<lparr>ci_last_accessed := 16\<rparr>)"
  using cache_set_then_get [of sample_identity 5 "''h''" "[(''g'', sample_identity)]" 15 16 "auth_cache_init 10 300"]
  by (simp add: sample_identity_def auth_cache_init_def)

end
