(* ===== verification/Auth_Gateway.thy ===== *)
theory Auth_Gateway
  imports Auth_Rate_Limiter Auth_Cache
begin

text \<open>
  The auth gateway: \<open>identity.py\<close> (context variables), \<open>provider_injector.py\<close> and
  \<open>middleware.py\<close> of \<open>plugins/headroom-auth/src/headroom_auth/\<close>. The ASGI handler
  \<open>AuthMiddleware.__call__\<close> is \<open>gateway\<close>: it takes the environment (store, crypto, hash, inner
  application) as a record of functions, the clock readings of one request, the request scope and
  the state (cache, lazily created limiter, identity context), and returns the new state and what
  happened: the inner application was called (with which scope and which identity in context), a
  response was sent, or an exception escaped. Headers are pairs of byte strings.
\<close>

section \<open>Identity context (\<open>identity.py\<close>)\<close>

record ident_ctx =
  cur_user_id :: "string option"
  cur_username :: "string option"
  cur_role :: "string option"
  cur_team :: "string option"

definition no_identity :: ident_ctx where
  "no_identity = \<lparr>cur_user_id = None, cur_username = None, cur_role = None, cur_team = None\<rparr>"

definition set_current_identity :: "string \<Rightarrow> string \<Rightarrow> string \<Rightarrow> string option \<Rightarrow> ident_ctx \<Rightarrow> ident_ctx" where
  "set_current_identity user_id username role team ctx =
     ctx\<lparr>cur_user_id := Some user_id, cur_username := Some username, cur_role := Some role, cur_team := team\<rparr>"

definition clear_current_identity :: "ident_ctx \<Rightarrow> ident_ctx" where
  "clear_current_identity ctx =
     ctx\<lparr>cur_user_id := None, cur_username := None, cur_role := None, cur_team := None\<rparr>"

section \<open>Provider keys (\<open>provider_injector.py\<close>)\<close>

type_synonym header = "string \<times> string"

definition PROVIDER_PATH_MAP :: "(string \<times> string) list" where
  "PROVIDER_PATH_MAP =
     [(''/v1/messages'', ''anthropic''),
      (''/v1/chat/completions'', ''openai''),
      (''/v1beta/models/'', ''gemini''),
      (''/v1internal/'', ''cloudcode'')]"

fun first_prefix :: "(string \<times> string) list \<Rightarrow> string \<Rightarrow> string option" where
  "first_prefix [] path = None"
| "first_prefix ((pre, provider) # ps) path =
     (if startswith path pre then Some provider else first_prefix ps path)"

definition resolve_provider :: "string \<Rightarrow> string option" where
  "resolve_provider path = first_prefix PROVIDER_PATH_MAP path"

text \<open>\<open>api_key.encode("ascii")\<close> raises on a non-ASCII key, hence the outer error.\<close>

definition inject_provider_key ::
  "header list \<Rightarrow> (string, string) pydict \<Rightarrow> string
     \<Rightarrow> py_error + header list \<times> (string \<times> json) list option" where
  "inject_provider_key headers provider_keys provider =
     (case dict_get provider_keys provider of
        None \<Rightarrow> Inr (headers, Some
          [(''error'', JStr ''provider_key_not_configured''),
           (''message'', JStr (''No API key configured for provider '' @ [CHR 0x27] @ provider @ [CHR 0x27] @ '' in your role. ''
              @ ''An admin can add one at /manage/roles or via: ''
              @ ''headroom auth set-provider-key <role> '' @ provider))])
      | Some api_key \<Rightarrow>
          (let new_headers = filter (\<lambda>(k, v). bytes_lower k \<noteq> ''authorization'') headers
           in case ascii_encode api_key of
                Inl e \<Rightarrow> Inl e
              | Inr key \<Rightarrow> Inr (new_headers @ [(''authorization'', ''Bearer '' @ key)], None)))"

section \<open>Middleware (\<open>middleware.py\<close>)\<close>

definition AUTH_BYPASS_PATHS :: "string list" where
  "AUTH_BYPASS_PATHS =
     [''/livez'', ''/readyz'', ''/health'', ''/metrics'', ''/dashboard'', ''/stats'',
      ''/stats-history'', ''/transformations/feed'']"

definition should_bypass :: "string \<Rightarrow> bool" where
  "should_bypass path =
     (if path \<in> set AUTH_BYPASS_PATHS then True
      else if startswith path ''/manage'' then True
      else False)"

record response =
  resp_status :: int
  resp_headers :: "header list"
  resp_body :: string

definition json_response :: "int \<Rightarrow> (string \<times> json) list \<Rightarrow> response" where
  "json_response status body =
     (let payload = utf8_encode (json_dumps (\<lambda>_. []) (JDict body))
      in \<lparr>resp_status = status,
          resp_headers = [(''content-type'', ''application/json''),
            (''content-length'', nat_dec (length payload)), (''cache-control'', ''no-store'')],
          resp_body = payload\<rparr>)"

fun extract_auth_header :: "header list \<Rightarrow> string option" where
  "extract_auth_header [] = None"
| "extract_auth_header ((k, v) # hs) =
     (let kl = bytes_lower k
      in if kl = ''authorization'' then
           (let value = ascii_decode_replace v
            in if startswith (str_lower value) ''bearer '' then Some (tl (dropWhile (\<lambda>c. c \<noteq> CHR '' '') value))
               else Some value)
         else if kl = ''x-api-key'' then Some (ascii_decode_replace v)
         else extract_auth_header hs)"

definition validate_key_format :: "string \<Rightarrow> (string \<times> json) list option" where
  "validate_key_format raw_key =
     (if \<not> startswith raw_key ''hr_'' then
        Some [(''error'', JStr ''invalid_key_format''), (''message'', JStr ''API key must start with hr_.'')]
      else if length raw_key < 10 then
        Some [(''error'', JStr ''invalid_key_format''), (''message'', JStr ''API key is too short.'')]
      else None)"

text \<open>What the middleware is given: the store's two lookups (\<open>Inl\<close>: the query raised), the
  decryption, \<open>json.loads\<close> and SHA-256, and the inner application, which may raise.\<close>

record scope =
  sc_type :: string
  sc_path :: string
  sc_headers :: "header list"

record gw_env =
  env_enabled :: bool
  env_resolve :: "string \<Rightarrow> py_error + resolve_result option"
  env_owner_status :: "string \<Rightarrow> py_error + string option"
  env_decrypt :: "string \<Rightarrow> string option"
  env_loads :: "string \<Rightarrow> json option"
  env_sha256 :: "string \<Rightarrow> string"
  env_app :: "scope \<Rightarrow> ident_ctx \<Rightarrow> py_error option"

record gw_clock =
  g_age :: rat
  g_touch :: rat
  g_stale :: rat
  g_cached :: rat
  g_accessed :: rat
  g_limiter_new :: rat
  g_rl :: rl_clock

record gw_state =
  gs_cache :: auth_cache
  gs_limiter :: "limiter option"
  gs_ctx :: ident_ctx

type_synonym gw_error = "int \<times> (string \<times> json) list"

definition unavailable :: gw_error where
  "unavailable = (503, [(''error'', JStr ''auth_service_unavailable''),
     (''message'', JStr ''Authentication service is temporarily unavailable.'')])"

definition classify_key_failure :: "gw_env \<Rightarrow> string \<Rightarrow> gw_error" where
  "classify_key_failure env raw_key =
     (case env_owner_status env raw_key of
        Inl _ \<Rightarrow> unavailable
      | Inr None \<Rightarrow> (401, [(''error'', JStr ''invalid_api_key''), (''message'', JStr ''API key is not valid.'')])
      | Inr (Some status) \<Rightarrow>
          if status = ''deactivated''
          then (403, [(''error'', JStr ''user_deactivated''),
                      (''message'', JStr ''Your account has been deactivated.'')])
          else (401, [(''error'', JStr ''api_key_expired''),
                      (''message'', JStr ''Your key has expired. Contact your team lead to renew.'')]))"

text \<open>\<open>_resolve_identity\<close>: an escaping exception, an error response or an identity.\<close>

datatype resolution = Escaped py_error | Failed gw_error | Identified CachedIdentity

definition resolve_identity :: "gw_env \<Rightarrow> gw_clock \<Rightarrow> string \<Rightarrow> auth_cache \<Rightarrow> auth_cache \<times> resolution" where
  "resolve_identity env clk raw_key c =
     (case ascii_encode raw_key of
        Inl e \<Rightarrow> (c, Escaped e)
      | Inr encoded \<Rightarrow>
         (let key_hash = env_sha256 env encoded;
              (c1, cached) = cache_get (g_age clk) (g_touch clk) key_hash c
          in case cached of
               Some i \<Rightarrow> (c1, Identified i)
             | None \<Rightarrow>
                (case env_resolve env raw_key of
                   Inl _ \<Rightarrow>
                     (let (c2, stale) = cache_get_stale (g_stale clk) key_hash c1
                      in case stale of
                           Some i \<Rightarrow> (c2, Identified i)
                         | None \<Rightarrow> (c2, Failed unavailable))
                 | Inr None \<Rightarrow> (c1, Failed (classify_key_failure env raw_key))
                 | Inr (Some result) \<Rightarrow>
                     (case from_resolve_result (env_decrypt env) (env_loads env)
                            (g_cached clk) (g_accessed clk) result of
                        Inl e \<Rightarrow> (c1, Escaped e)
                      | Inr identity \<Rightarrow> (cache_set key_hash identity c1, Identified identity)))))"

datatype outcome =
    Called scope ident_ctx "py_error option"
  | Responded response
  | Raised py_error

definition get_rate_limiter :: "rat \<Rightarrow> limiter option \<Rightarrow> limiter" where
  "get_rate_limiter now l = (case l of None \<Rightarrow> limiter_init now | Some x \<Rightarrow> x)"

text \<open>The \<open>try\<close> block: rate limit, provider key, forwarding. Its \<open>finally\<close> is in \<open>gateway\<close>.\<close>

definition gateway_body ::
  "gw_env \<Rightarrow> gw_clock \<Rightarrow> scope \<Rightarrow> CachedIdentity \<Rightarrow> gw_state \<Rightarrow> gw_state \<times> outcome" where
  "gateway_body env clk sc identity st =
     (let (lim, res) = check_rate_limit (g_rl clk) (ci_user_id identity)
            (ci_default_rpm identity) (ci_default_tpm identity) 0
            (get_rate_limiter (g_limiter_new clk) (gs_limiter st));
          st1 = st\<lparr>gs_limiter := Some lim\<rparr>
      in case res of
           Inl e \<Rightarrow> (st1, Raised e)
         | Inr (allowed, retry_after, rate_headers) \<Rightarrow>
             if \<not> allowed then
               (let r = json_response 429 (rate_limit_error retry_after)
                in (st1, Responded (r\<lparr>resp_headers := resp_headers r
                      @ [(''retry-after'', int_dec (py_int retry_after))]\<rparr>)))
             else
               (case resolve_provider (sc_path sc) of
                  None \<Rightarrow> (st1, Called sc (gs_ctx st1) (env_app env sc (gs_ctx st1)))
                | Some provider \<Rightarrow>
                    (case inject_provider_key (sc_headers sc) (ci_provider_keys identity) provider of
                       Inl e \<Rightarrow> (st1, Raised e)
                     | Inr (new_headers, Some err) \<Rightarrow> (st1, Responded (json_response 502 err))
                     | Inr (new_headers, None) \<Rightarrow>
                         (let sc' = sc\<lparr>sc_headers := new_headers\<rparr>
                          in (st1, Called sc' (gs_ctx st1) (env_app env sc' (gs_ctx st1)))))))"

definition gateway :: "gw_env \<Rightarrow> gw_clock \<Rightarrow> scope \<Rightarrow> gw_state \<Rightarrow> gw_state \<times> outcome" where
  "gateway env clk sc st =
     (if sc_type sc \<noteq> ''http'' then (st, Called sc (gs_ctx st) (env_app env sc (gs_ctx st)))
      else if should_bypass (sc_path sc) then (st, Called sc (gs_ctx st) (env_app env sc (gs_ctx st)))
      else if \<not> env_enabled env then (st, Called sc (gs_ctx st) (env_app env sc (gs_ctx st)))
      else
        (case extract_auth_header (sc_headers sc) of
           None \<Rightarrow> (st, Responded (json_response 401
                [(''error'', JStr ''missing_auth_header''),
                 (''message'', JStr ''Authorization header is required.'')]))
         | Some auth_value \<Rightarrow>
            (case validate_key_format auth_value of
               Some err \<Rightarrow> (st, Responded (json_response 401 err))
             | None \<Rightarrow>
                (let (c, r) = resolve_identity env clk auth_value (gs_cache st);
                     st1 = st\<lparr>gs_cache := c\<rparr>
                 in case r of
                      Escaped e \<Rightarrow> (st1, Raised e)
                    | Failed (status, err_body) \<Rightarrow> (st1, Responded (json_response status err_body))
                    | Identified identity \<Rightarrow>
                        (let st2 = st1\<lparr>gs_ctx := set_current_identity (ci_user_id identity)
                               (ci_username identity) (ci_role identity) (ci_team identity) (gs_ctx st1)\<rparr>;
                             (st3, out) = gateway_body env clk sc identity st2
                         in (st3\<lparr>gs_ctx := clear_current_identity (gs_ctx st3)\<rparr>, out))))))"

section \<open>Runs\<close>

type_synonym gw_request = "gw_env \<times> gw_clock \<times> scope"

fun gw_run :: "gw_request list \<Rightarrow> gw_state \<Rightarrow> gw_state \<times> outcome list" where
  "gw_run [] st = (st, [])"
| "gw_run ((env, clk, sc) # rs) st =
     (case gateway env clk sc st of
        (st', out) \<Rightarrow> (case gw_run rs st' of (st'', outs) \<Rightarrow> (st'', out # outs)))"

definition gw_init :: "int \<Rightarrow> int \<Rightarrow> gw_state" where
  "gw_init ttl grace = \<lparr>gs_cache = auth_cache_init ttl grace, gs_limiter = None, gs_ctx = no_identity\<rparr>"

definition protected :: "gw_env \<Rightarrow> scope \<Rightarrow> bool" where
  "protected env sc = (sc_type sc = ''http'' \<and> \<not> should_bypass (sc_path sc) \<and> env_enabled env)"

text \<open>The store resolved \<open>key\<close> to row \<open>r\<close> for one of the requests.\<close>

definition resolved_by :: "gw_request list \<Rightarrow> string \<Rightarrow> gw_env \<Rightarrow> resolve_result \<Rightarrow> bool" where
  "resolved_by rs key env r = (\<exists>clk sc. (env, clk, sc) \<in> set rs \<and> env_resolve env key = Inr (Some r))"

definition entry_from :: "gw_env \<Rightarrow> resolve_result \<Rightarrow> py_error + CachedIdentity" where
  "entry_from env r = from_resolve_result (env_decrypt env) (env_loads env) 0 0 r"

text \<open>Every cache entry is what the store resolved for the key with that hash.\<close>

definition cache_sound :: "(string \<Rightarrow> string) \<Rightarrow> gw_request list \<Rightarrow> auth_cache \<Rightarrow> bool" where
  "cache_sound sha rs c =
     (\<forall>h e. dict_get (ac_entries c) h = Some e \<longrightarrow>
        (\<exists>key env r. h = sha key \<and> resolved_by rs key env r \<and> entry_from env r = Inr (ident_core e)))"

lemma resolved_by_mono: "resolved_by rs k env r \<Longrightarrow> set rs \<subseteq> set rs' \<Longrightarrow> resolved_by rs' k env r"
  by (auto simp: resolved_by_def)

lemma cache_sound_mono: "cache_sound sha rs c \<Longrightarrow> set rs \<subseteq> set rs' \<Longrightarrow> cache_sound sha rs' c"
  unfolding cache_sound_def by (meson resolved_by_mono)

lemma cache_sound_get: "cache_sound sha rs c \<Longrightarrow> cache_sound sha rs (fst (cache_get a b h c))"
  unfolding cache_sound_def by (metis cache_get_entries)

lemma cache_sound_get_stale: "cache_sound sha rs c \<Longrightarrow> cache_sound sha rs (fst (cache_get_stale a h c))"
  unfolding cache_sound_def by (metis cache_get_stale_entries)

lemma cache_sound_set:
  "cache_sound sha rs c \<Longrightarrow> resolved_by rs key env r \<Longrightarrow> entry_from env r = Inr (ident_core i) \<Longrightarrow>
     cache_sound sha rs (cache_set (sha key) i c)"
  by (auto simp: cache_sound_def cache_set_def dict_simps)

lemma resolve_identity_sound:
  assumes c: "cache_sound (env_sha256 env) rs c" and rq: "(env, clk, sc) \<in> set rs"
    and inj: "inj (env_sha256 env)" and res: "resolve_identity env clk key c = (c', r)"
  shows "cache_sound (env_sha256 env) rs c'"
    and "r = Identified i \<Longrightarrow> \<exists>env0 row. resolved_by rs key env0 row \<and> entry_from env0 row = Inr (ident_core i)"
proof -
  let ?h = "env_sha256 env key"
  have hit: "\<exists>env0 row. resolved_by rs key env0 row \<and> entry_from env0 row = Inr (ident_core e)"
    if "dict_get (ac_entries d) ?h = Some e0" "ident_core e = ident_core e0"
      "cache_sound (env_sha256 env) rs d" for d e e0
    using that inj unfolding cache_sound_def by (metis injD)
  have new: "resolved_by rs key env row" if "env_resolve env key = Inr (Some row)" for row
    using that rq by (auto simp: resolved_by_def)
  note g = cache_sound_get [OF c, of "g_age clk" "g_touch clk" ?h]
  note gs = cache_sound_get_stale [OF g, of "g_stale clk" ?h]
  have core: "entry_from env row = Inr (ident_core i)" if "from_resolve_result (env_decrypt env) (env_loads env) a b row = Inr i" for a b row i
    using from_result_core [OF that] by (simp add: entry_from_def)
  show "cache_sound (env_sha256 env) rs c'"
    using res g gs c new core
    by (auto simp: resolve_identity_def ascii_encode_def Let_def split: if_splits prod.splits option.splits sum.splits
        intro!: cache_sound_set)
  show "\<exists>env0 row. resolved_by rs key env0 row \<and> entry_from env0 row = Inr (ident_core i)" if "r = Identified i"
    using res that new core hit [OF _ _ c] hit [OF _ _ g]
      cache_get_core [of "g_age clk" "g_touch clk" ?h c i]
      cache_get_stale_core [of "g_stale clk" ?h "fst (cache_get (g_age clk) (g_touch clk) ?h c)" i]
    by (auto simp: resolve_identity_def ascii_encode_def Let_def split: if_splits prod.splits option.splits sum.splits)
       blast+
qed

lemma gateway_body_frame:
  "gs_cache (fst (gateway_body env clk sc i st)) = gs_cache st"
  "gs_ctx (fst (gateway_body env clk sc i st)) = gs_ctx st"
  by (auto simp: gateway_body_def Let_def split: prod.splits sum.splits option.splits)

lemma gateway_body_called:
  "snd (gateway_body env clk sc i st) = Called sc' ctx e \<Longrightarrow>
     ctx = gs_ctx st \<and> (resolve_provider (sc_path sc) = None \<and> sc' = sc \<or>
       (\<exists>p hs. resolve_provider (sc_path sc) = Some p \<and> sc' = sc\<lparr>sc_headers := hs\<rparr>
          \<and> inject_provider_key (sc_headers sc) (ci_provider_keys i) p = Inr (hs, None)))"
  by (auto simp: gateway_body_def Let_def split: prod.splits sum.splits option.splits if_splits)

lemma gateway_cache:
  "gs_cache (fst (gateway env clk sc st)) = gs_cache st \<or>
     (\<exists>key. gs_cache (fst (gateway env clk sc st)) = fst (resolve_identity env clk key (gs_cache st)))"
  using gateway_body_frame(1)
  by (auto simp: gateway_def Let_def split: prod.splits option.splits resolution.splits)
     (metis fst_conv gw_state.select_convs(1) gw_state.surjective gw_state.update_convs(1,3))+

lemma gateway_called_protected:
  assumes "protected env sc" "gateway env clk sc st = (st', Called sc' ctx e)"
  obtains key c i where "extract_auth_header (sc_headers sc) = Some key" "validate_key_format key = None"
    "resolve_identity env clk key (gs_cache st) = (c, Identified i)"
    "ctx = set_current_identity (ci_user_id i) (ci_username i) (ci_role i) (ci_team i) (gs_ctx st)"
    "resolve_provider (sc_path sc) = None \<and> sc' = sc \<or>
       (\<exists>p hs. resolve_provider (sc_path sc) = Some p \<and> sc' = sc\<lparr>sc_headers := hs\<rparr>
          \<and> inject_provider_key (sc_headers sc) (ci_provider_keys i) p = Inr (hs, None))"
proof -
  obtain key where key: "extract_auth_header (sc_headers sc) = Some key" "validate_key_format key = None"
    using assms by (auto simp: gateway_def protected_def Let_def split: option.splits)
  obtain c r where r: "resolve_identity env clk key (gs_cache st) = (c, r)"
    by (cases "resolve_identity env clk key (gs_cache st)")
  have "\<exists>i. r = Identified i"
    using assms key r
    by (cases r) (auto simp: gateway_def protected_def Let_def split: prod.splits)
  then obtain i where i: "r = Identified i" by blast
  let ?st = "st\<lparr>gs_cache := c, gs_ctx := set_current_identity (ci_user_id i) (ci_username i) (ci_role i) (ci_team i) (gs_ctx st)\<rparr>"
  have "snd (gateway_body env clk sc i ?st) = Called sc' ctx e"
    using assms key r i by (auto simp: gateway_def protected_def Let_def split: prod.splits)
  from gateway_body_called [OF this] show ?thesis
    using that [OF key, of c i] r i by auto
qed

lemma gateway_ctx_cleared:
  "gs_ctx st = no_identity \<Longrightarrow> gs_ctx (fst (gateway env clk sc st)) = no_identity"
  by (auto simp: gateway_def clear_current_identity_def no_identity_def Let_def
      split: prod.splits option.splits resolution.splits)

lemma gw_run_ctx: "gs_ctx st = no_identity \<Longrightarrow> gs_ctx (fst (gw_run rs st)) = no_identity"
proof (induction rs st rule: gw_run.induct)
  case (2 env clk sc rs st)
  obtain st' out where g: "gateway env clk sc st = (st', out)"
    by (cases "gateway env clk sc st")
  have "gs_ctx st' = no_identity"
    using gateway_ctx_cleared [OF "2.prems", of env clk sc] g by simp
  with "2.IH" [OF g [symmetric]] show ?case
    using g by (simp add: case_prod_beta)
qed simp

lemma gw_run_sound:
  assumes "cache_sound sha hist (gs_cache st)" "inj sha" "\<forall>(env, clk, sc) \<in> set rs. env_sha256 env = sha"
  shows "cache_sound sha (hist @ rs) (gs_cache (fst (gw_run rs st)))"
  using assms
proof (induction rs st arbitrary: hist rule: gw_run.induct)
  case (1 st)
  then show ?case by simp
next
  case (2 env clk sc rs st)
  obtain st' out where g: "gateway env clk sc st = (st', out)"
    by (cases "gateway env clk sc st")
  let ?hist = "hist @ [(env, clk, sc)]"
  have sha: "env_sha256 env = sha" using "2.prems" by auto
  have s: "cache_sound sha ?hist (gs_cache st)"
    by (rule cache_sound_mono [OF "2.prems"(1)]) auto
  have "cache_sound sha ?hist (fst (resolve_identity env clk key (gs_cache st)))" for key
    using resolve_identity_sound(1) [of env ?hist "gs_cache st" clk sc key]
      s sha "2.prems"(2) by (simp add: prod_eq_iff)
  then have "cache_sound sha ?hist (gs_cache st')"
    using gateway_cache [of env clk sc st] g s by auto
  then have "cache_sound sha (?hist @ rs) (gs_cache (fst (gw_run rs st')))"
    by (rule "2.IH" [OF g [symmetric]]) (use "2.prems" in auto)
  then show ?case using g by (simp add: case_prod_beta)
qed

lemma cache_sound_init: "cache_sound sha [] (gs_cache (gw_init ttl grace))"
  by (simp add: cache_sound_def gw_init_def auth_cache_init_def)

section \<open>Properties\<close>

text \<open>C1: Authentication soundness. Take any run of requests from the initial state, with stores
  that may answer differently at every request, and one more protected request (HTTP, not a bypass
  path, auth enabled). If the inner application is called for it, then the request carried a
  well-formed key, and the identity in context is the user and role that the store resolved for
  exactly this key, at this or an earlier request. Hypothesis on SHA-256: no collisions.\<close>
theorem forwarded_only_if_resolved:
  assumes inj: "inj sha" and shas: "\<forall>(env, clk, sc) \<in> set (rs @ [(env, clk, sc)]). env_sha256 env = sha"
    and prot: "protected env sc"
    and out: "gateway env clk sc (fst (gw_run rs (gw_init ttl grace))) = (st', Called sc' ctx e)"
  shows "\<exists>key env0 row. extract_auth_header (sc_headers sc) = Some key \<and> validate_key_format key = None
    \<and> resolved_by (rs @ [(env, clk, sc)]) key env0 row
    \<and> ctx = \<lparr>cur_user_id = Some (rr_user_id row), cur_username = Some (rr_username row),
             cur_role = Some (rr_role row), cur_team = rr_team row\<rparr>"
proof -
  let ?st = "fst (gw_run rs (gw_init ttl grace))" and ?hist = "rs @ [(env, clk, sc)]"
  obtain key c i where key: "extract_auth_header (sc_headers sc) = Some key" "validate_key_format key = None"
    and res: "resolve_identity env clk key (gs_cache ?st) = (c, Identified i)"
    and ctx: "ctx = set_current_identity (ci_user_id i) (ci_username i) (ci_role i) (ci_team i) (gs_ctx ?st)"
    and "resolve_provider (sc_path sc) = None \<and> sc' = sc \<or>
       (\<exists>p hs. resolve_provider (sc_path sc) = Some p \<and> sc' = sc\<lparr>sc_headers := hs\<rparr>
          \<and> inject_provider_key (sc_headers sc) (ci_provider_keys i) p = Inr (hs, None))"
    by (rule gateway_called_protected [OF prot out])
  have sha: "env_sha256 env = sha" using shas by auto
  have "cache_sound sha ([] @ rs) (gs_cache ?st)"
    by (rule gw_run_sound [OF cache_sound_init inj]) (use shas in auto)
  then have "cache_sound (env_sha256 env) ?hist (gs_cache ?st)"
    unfolding sha by (rule cache_sound_mono) auto
  then obtain env0 row where row: "resolved_by ?hist key env0 row" "entry_from env0 row = Inr (ident_core i)"
    using resolve_identity_sound(2) [OF _ _ _ res] inj sha by fastforce
  then have "ci_user_id i = rr_user_id row" "ci_username i = rr_username row" "ci_role i = rr_role row" "ci_team i = rr_team row"
    using from_result_fields [of "env_decrypt env0" "env_loads env0" 0 0 row "ident_core i"]
    by (simp_all add: entry_from_def ident_core_def)
  note f = this
  have "gs_ctx ?st = no_identity"
    by (rule gw_run_ctx) (simp add: gw_init_def)
  then have "ctx = \<lparr>cur_user_id = Some (rr_user_id row), cur_username = Some (rr_username row),
             cur_role = Some (rr_role row), cur_team = rr_team row\<rparr>"
    using ctx f by (simp add: set_current_identity_def no_identity_def)
  with key row(1) show ?thesis by blast
qed

text \<open>No identity leak. After any sequence of requests, whatever their outcome (forwarded,
  refused, raised), the identity context is empty.\<close>
theorem identity_never_leaks: "gs_ctx (fst (gw_run rs (gw_init ttl grace))) = no_identity"
  by (rule gw_run_ctx) (simp add: gw_init_def)

definition sample_row :: resolve_result where
  "sample_row = \<lparr>rr_user_id = ''u1'', rr_username = ''ann'', rr_role = ''developer'', rr_team = Some ''core'',
     rr_provider_keys = Some ''K'', rr_default_rpm = Some 5, rr_default_tpm = None\<rparr>"

definition sample_env :: "(py_error + resolve_result option) \<Rightarrow> gw_env" where
  "sample_env answer = \<lparr>env_enabled = True, env_resolve = (\<lambda>_. answer), env_owner_status = (\<lambda>_. Inr None),
     env_decrypt = Some, env_loads = (\<lambda>_. Some (JDict [(''anthropic'', JStr ''sk-1'')])), env_sha256 = (\<lambda>k. k),
     env_app = (\<lambda>_ _. None)\<rparr>"

definition sample_gw_clock :: "rat \<Rightarrow> gw_clock" where
  "sample_gw_clock t = \<lparr>g_age = t, g_touch = t, g_stale = t, g_cached = t, g_accessed = t,
     g_limiter_new = t, g_rl = sample_clock t\<rparr>"

definition sample_scope :: "header \<Rightarrow> scope" where
  "sample_scope h = \<lparr>sc_type = ''http'', sc_path = ''/v1/messages'', sc_headers = [h, (''accept'', ''*'')]\<rparr>"

lemmas gw_eval =
  gateway_def gateway_body_def resolve_identity_def sample_env_def sample_gw_clock_def sample_scope_def
  sample_row_def gw_init_def auth_cache_init_def no_identity_def should_bypass_def AUTH_BYPASS_PATHS_def
  validate_key_format_def ascii_encode_def is_ascii_def ascii_decode_replace_def cache_get_def cache_set_def
  from_resolve_result_def get_rate_limiter_def limiter_init_def check_rate_limit_def cleanup_if_needed_def
  sample_clock_def bucket_for_def try_consume_eq bucket_level_def resolve_provider_def PROVIDER_PATH_MAP_def
  inject_provider_key_def set_current_identity_def str_eval

abbreviation auth_header :: header where
  "auth_header \<equiv> (''Authorization'', ''Bearer hr_abcdefgh'')"

lemma sample_run:
  "gateway (sample_env (Inr (Some sample_row))) (sample_gw_clock 1) (sample_scope auth_header) (gw_init 10 300)
   = (fst (gateway (sample_env (Inr (Some sample_row))) (sample_gw_clock 1) (sample_scope auth_header) (gw_init 10 300)),
      Called ((sample_scope auth_header)\<lparr>sc_headers := [(''accept'', ''*''), (''authorization'', ''Bearer sk-1'')]\<rparr>)
        \<lparr>cur_user_id = Some ''u1'', cur_username = Some ''ann'', cur_role = Some ''developer'', cur_team = Some ''core''\<rparr> None)"
  by (simp add: prod_eq_iff gw_eval Let_def)

theorem forwarded_only_if_resolved_witness:
  "\<exists>key env0 row. extract_auth_header (sc_headers (sample_scope auth_header)) = Some key \<and> validate_key_format key = None
    \<and> resolved_by [(sample_env (Inr (Some sample_row)), sample_gw_clock 1, sample_scope auth_header)] key env0 row
    \<and> \<lparr>cur_user_id = Some ''u1'', cur_username = Some ''ann'', cur_role = Some ''developer'', cur_team = Some ''core''\<rparr>
      = \<lparr>cur_user_id = Some (rr_user_id row), cur_username = Some (rr_username row),
             cur_role = Some (rr_role row), cur_team = rr_team row\<rparr>"
proof -
  have inj: "inj (\<lambda>k :: string. k)" by simp
  have prot: "protected (sample_env (Inr (Some sample_row))) (sample_scope auth_header)"
    by (simp add: protected_def gw_eval)
  have shas: "\<forall>(env, clk, sc) \<in> set ([] @ [(sample_env (Inr (Some sample_row)), sample_gw_clock 1, sample_scope auth_header)]).
      env_sha256 env = (\<lambda>k. k)"
    by (simp add: sample_env_def)
  have out: "gateway (sample_env (Inr (Some sample_row))) (sample_gw_clock 1) (sample_scope auth_header)
      (fst (gw_run [] (gw_init 10 300))) = (fst (gateway (sample_env (Inr (Some sample_row))) (sample_gw_clock 1)
        (sample_scope auth_header) (gw_init 10 300)),
      Called ((sample_scope auth_header)\<lparr>sc_headers := [(''accept'', ''*''), (''authorization'', ''Bearer sk-1'')]\<rparr>)
        \<lparr>cur_user_id = Some ''u1'', cur_username = Some ''ann'', cur_role = Some ''developer'', cur_team = Some ''core''\<rparr> None)"
    by (simp only: gw_run.simps fst_conv) (rule sample_run)
  from forwarded_only_if_resolved [OF inj shas prot out] show ?thesis
    by (simp only: append_Nil)
qed

text \<open>C23: Revocation takes effect within the TTL. When the store is reachable and no longer
  resolves the key, and the key's cached identity is older than the TTL (or there is none), a
  protected request never reaches the inner application: it is answered with 401, 403 or 503, unless the key
  passes the format check but is not ASCII; then the middleware raises \<open>UnicodeEncodeError\<close>.\<close>
theorem revoked_key_rejected:
  assumes "protected env sc" "extract_auth_header (sc_headers sc) = Some key"
    and "env_resolve env key = Inr None"
    and "\<And>e. dict_get (ac_entries (gs_cache st)) (env_sha256 env key) = Some e \<Longrightarrow>
            of_int (ac_ttl (gs_cache st)) < g_age clk - ci_cached_at e"
  shows "if validate_key_format key = None \<and> \<not> is_ascii key then snd (gateway env clk sc st) = Raised UnicodeError
    else \<exists>r. snd (gateway env clk sc st) = Responded r \<and> resp_status r \<in> {401, 403, 503}"
proof (cases "validate_key_format key")
  case (Some err)
  then show ?thesis
    using assms(1,2) by (simp add: gateway_def protected_def json_response_def Let_def)
next
  case None
  show ?thesis
  proof (cases "is_ascii key")
    case True
    have "snd (cache_get (g_age clk) (g_touch clk) (env_sha256 env key) (gs_cache st)) = None"
      using cache_get_hit_iff [of "g_age clk" "g_touch clk" "env_sha256 env key" "gs_cache st"] assms(4)
      by (meson not_le)
    then have "snd (resolve_identity env clk key (gs_cache st)) = Failed (classify_key_failure env key)"
      using assms(3) True by (auto simp: resolve_identity_def ascii_encode_def Let_def split: prod.splits)
    moreover have "fst (classify_key_failure env key) \<in> {401, 403, 503}"
      by (auto simp: classify_key_failure_def unavailable_def split: sum.splits option.splits)
    ultimately show ?thesis
      using assms(1,2) None True
      by (auto simp: gateway_def protected_def json_response_def Let_def split: prod.splits)
  next
    case False
    then show ?thesis using assms(1,2) None by (simp add: gateway_def protected_def resolve_identity_def ascii_encode_def Let_def)
  qed
qed

theorem revoked_key_rejected_witness:
  "\<exists>r. snd (gateway (sample_env (Inr None)) (sample_gw_clock 12) (sample_scope auth_header)
        (gw_init 10 300\<lparr>gs_cache := cache_set ''hr_abcdefgh'' (sample_identity\<lparr>ci_cached_at := 1\<rparr>) (auth_cache_init 10 300)\<rparr>))
      = Responded r \<and> resp_status r \<in> {401, 403, 503}"
proof -
  let ?st = "gw_init 10 300\<lparr>gs_cache := cache_set ''hr_abcdefgh'' (sample_identity\<lparr>ci_cached_at := 1\<rparr>) (auth_cache_init 10 300)\<rparr>"
  have "is_ascii ''hr_abcdefgh''" by (simp add: is_ascii_def)
  then show ?thesis
    using revoked_key_rejected [of "sample_env (Inr None)" "sample_scope auth_header" "''hr_abcdefgh''" ?st "sample_gw_clock 12"]
    by (auto simp: protected_def gw_eval sample_identity_def)
qed

text \<open>Provider-key injection. On a provider path the forwarded headers are the client's headers
  without any \<open>Authorization\<close> header, in order, followed by exactly one \<open>authorization\<close> header that
  carries the caller's provider key.\<close>
theorem injected_headers:
  assumes "inject_provider_key headers keys provider = Inr (hs, None)"
  shows "\<exists>api_key. dict_get keys provider = Some api_key \<and>
    filter (\<lambda>(k, v). bytes_lower k = ''authorization'') hs = [(''authorization'', ''Bearer '' @ api_key)] \<and>
    filter (\<lambda>(k, v). bytes_lower k \<noteq> ''authorization'') hs
      = filter (\<lambda>(k, v). bytes_lower k \<noteq> ''authorization'') headers"
proof -
  obtain api_key where k: "dict_get keys provider = Some api_key"
    using assms by (cases "dict_get keys provider") (simp_all add: inject_provider_key_def)
  with assms have hs: "hs = filter (\<lambda>(k, v). bytes_lower k \<noteq> ''authorization'') headers
      @ [(''authorization'', ''Bearer '' @ api_key)]"
    by (auto simp: inject_provider_key_def ascii_encode_def Let_def split: if_splits)
  have "bytes_lower ''authorization'' = ''authorization''"
    by (simp add: str_eval)
  then show ?thesis
    using k unfolding hs by (auto simp: filter_empty_conv)
qed

theorem injected_headers_witness:
  "\<exists>api_key. dict_get [(''anthropic'', ''sk-1'')] ''anthropic'' = Some api_key \<and>
    filter (\<lambda>(k, v). bytes_lower k = ''authorization'') [(''accept'', ''*''), (''authorization'', ''Bearer sk-1'')]
      = [(''authorization'', ''Bearer '' @ api_key)] \<and>
    filter (\<lambda>(k, v). bytes_lower k \<noteq> ''authorization'') [(''accept'', ''*''), (''authorization'', ''Bearer sk-1'')]
      = filter (\<lambda>(k, v). bytes_lower k \<noteq> ''authorization'') [auth_header, (''accept'', ''*'')]"
  by (rule injected_headers) (simp add: inject_provider_key_def ascii_encode_def is_ascii_def str_eval)

text \<open>The proxy key of an \<open>x-api-key\<close> client leaves the gateway. A client may authenticate with
  \<open>x-api-key\<close>, but the injection drops only \<open>Authorization\<close>: whatever the forwarded headers are,
  an \<open>x-api-key\<close> header of the client, with its \<open>hr_\<close> key, is still among them.\<close>
theorem x_api_key_forwarded:
  assumes "inject_provider_key headers keys provider = Inr (hs, None)"
    and "(name, value) \<in> set headers" "bytes_lower name = ''x-api-key''"
  shows "(name, value) \<in> set hs"
  using assms
  by (auto simp: inject_provider_key_def ascii_encode_def Let_def split: option.splits if_splits)

theorem x_api_key_forwarded_witness:
  "extract_auth_header [(''X-Api-Key'', ''hr_secret99'')] = Some ''hr_secret99'' \<and>
   (''X-Api-Key'', ''hr_secret99'') \<in> set [(''X-Api-Key'', ''hr_secret99''), (''authorization'', ''Bearer sk-1'')]"
proof
  show "extract_auth_header [(''X-Api-Key'', ''hr_secret99'')] = Some ''hr_secret99''"
    by (simp add: str_eval ascii_decode_replace_def)
  show "(''X-Api-Key'', ''hr_secret99'') \<in> set [(''X-Api-Key'', ''hr_secret99''), (''authorization'', ''Bearer sk-1'')]"
    by (rule x_api_key_forwarded [of "[(''X-Api-Key'', ''hr_secret99'')]" "[(''anthropic'', ''sk-1'')]" "''anthropic''"])
       (simp_all add: inject_provider_key_def ascii_encode_def is_ascii_def str_eval)
qed

text \<open>C40: A non-ASCII key escapes as an exception. A protected request whose key starts with
  \<open>hr_\<close>, is long enough and contains a byte from 128 on is not answered with 401: the hashing step
  raises \<open>UnicodeEncodeError\<close> out of the middleware.\<close>
theorem non_ascii_key_raises:
  assumes "protected env sc" "extract_auth_header (sc_headers sc) = Some key"
    and "validate_key_format key = None" "\<not> is_ascii key"
  shows "snd (gateway env clk sc st) = Raised UnicodeError"
  using assms by (simp add: gateway_def protected_def resolve_identity_def ascii_encode_def Let_def)

theorem non_ascii_key_raises_witness:
  "snd (gateway (sample_env (Inr None)) (sample_gw_clock 0)
     (sample_scope (''x-api-key'', ''hr_abcdef'' @ [CHR 0xE9])) (gw_init 10 300)) = Raised UnicodeError"
  by (rule non_ascii_key_raises [where key = "''hr_abcdef'' @ [CHR 0xFF]"]) (simp_all add: protected_def gw_eval)

end
