(* ===== verification/Usage_Audit.thy ===== *)
theory Usage_Audit
  imports Auth_Gateway "HOL-Library.Sublist"
begin

text \<open>
  The audit trail: role-based query scope (\<open>headroom/usage/access.py\<close>), the asynchronous buffer in
  front of the audit store (\<open>headroom/usage/buffer.py\<close>) and the logger that fills it from the
  identity the gateway binds (\<open>headroom/usage/logger.py\<close>).

  The buffer's coroutine is cut at its suspension points: one pass of \<open>_flush_loop\<close> up to the
  one-second sleep before a retry, the retry, and \<open>stop\<close>, with \<open>enqueue\<close> possible between any two.
  The store's \<open>insert_batch\<close> is outside; whether a call to it succeeds is an argument of the
  step that makes it, and the steps return the calls made. \<open>stop\<close> is one step: entries enqueued
  while its own final flush sleeps stay in the deque.
\<close>

section \<open>Query scope (\<open>access.py\<close>)\<close>

record Scope =
  sco_user_id :: string
  sco_username :: string
  sco_role :: string
  sco_team :: string
  sco_is_admin :: bool
  sco_allowed_user_ids :: "string list"
  sco_allowed_teams :: "string list"

definition can_view_user :: "Scope \<Rightarrow> string \<Rightarrow> bool" where
  "can_view_user sc target_username = (sco_is_admin sc \<or> target_username = sco_username sc)"

definition can_view_team :: "Scope \<Rightarrow> string \<Rightarrow> bool" where
  "can_view_team sc target_team =
     (sco_is_admin sc \<or> sco_role sc = ''team_lead'' \<and> target_team = sco_team sc)"

definition resolve_scope :: "string \<Rightarrow> string \<Rightarrow> string \<Rightarrow> string \<Rightarrow> Scope" where
  "resolve_scope user_id username role team =
     (let is_admin = (role = ''admin''); is_team_lead = (role = ''team_lead'');
          allowed_teams = (if is_team_lead then [team] else [])
      in \<lparr>sco_user_id = user_id, sco_username = username, sco_role = role, sco_team = team,
          sco_is_admin = is_admin, sco_allowed_user_ids = [user_id],
          sco_allowed_teams = (if is_admin then [] else allowed_teams)\<rparr>)"

datatype access_error =
    OwnRequestsOnly
  | OutsideTeam string string string
  | TeamOnly string
  | TeamOutside string

definition enforce_scope :: "Scope \<Rightarrow> string option \<Rightarrow> string option \<Rightarrow> access_error + unit" where
  "enforce_scope sc target_user target_team =
     (if sco_is_admin sc then Inr ()
      else
        (let user_check =
           (case target_user of
              None \<Rightarrow> Inr ()
            | Some u \<Rightarrow>
               if u = sco_username sc then Inr ()
               else if sco_role sc = ''developer'' then Inl OwnRequestsOnly
               else if sco_role sc = ''team_lead'' then
                 (case target_team of
                    Some t \<Rightarrow> if t \<noteq> sco_team sc then Inl (OutsideTeam (sco_team sc) u t) else Inr ()
                  | None \<Rightarrow> Inl (TeamOnly (sco_team sc)))
               else Inr ())
         in case user_check of
              Inl e \<Rightarrow> Inl e
            | Inr _ \<Rightarrow>
               (case target_team of
                  None \<Rightarrow> Inr ()
                | Some t \<Rightarrow> if t \<noteq> sco_team sc \<and> sco_role sc \<noteq> ''admin'' then Inl (TeamOutside t) else Inr ())))"

section \<open>The buffer (\<open>buffer.py\<close>)\<close>

definition DEFAULT_MAX_SIZE :: int where
  "DEFAULT_MAX_SIZE = 5000"

definition DEFAULT_BATCH_SIZE :: int where
  "DEFAULT_BATCH_SIZE = 50"

definition DEFAULT_FLUSH_INTERVAL :: rat where
  "DEFAULT_FLUSH_INTERVAL = 5"

record 'e audit_buffer =
  ab_max_size :: int
  ab_batch_size :: int
  ab_flush_interval :: rat
  ab_deque :: "'e list"
  ab_running :: bool
  ab_drained :: "'e list"
  ab_sleeping :: "'e list option"

definition buffer_init :: "int \<Rightarrow> int \<Rightarrow> rat \<Rightarrow> 'e audit_buffer" where
  "buffer_init max_size batch_size flush_interval =
     \<lparr>ab_max_size = max_size, ab_batch_size = batch_size, ab_flush_interval = flush_interval,
      ab_deque = [], ab_running = False, ab_drained = [], ab_sleeping = None\<rparr>"

text \<open>\<open>deque.popleft\<close> of an empty deque raises \<open>IndexError\<close>.\<close>

definition enqueue :: "'e \<Rightarrow> 'e audit_buffer \<Rightarrow> py_error + 'e audit_buffer" where
  "enqueue e b =
     (if ab_max_size b \<le> int (length (ab_deque b)) then
        (case ab_deque b of
           [] \<Rightarrow> Inl OtherError
         | _ # rest \<Rightarrow> Inr (b\<lparr>ab_deque := rest @ [e]\<rparr>))
      else Inr (b\<lparr>ab_deque := ab_deque b @ [e]\<rparr>))"

definition buffer_start :: "'e audit_buffer \<Rightarrow> 'e audit_buffer" where
  "buffer_start b = b\<lparr>ab_running := True\<rparr>"

text \<open>A call of \<open>store.insert_batch\<close>: the batch and whether it succeeded.\<close>

type_synonym 'e insert_call = "'e list \<times> bool"

text \<open>\<open>_do_flush\<close>: the first attempt, and the second after the sleep.\<close>

definition do_flush :: "'e list \<Rightarrow> bool \<Rightarrow> bool \<Rightarrow> 'e insert_call list" where
  "do_flush batch ok1 ok2 = (if ok1 then [(batch, True)] else [(batch, False), (batch, ok2)])"

definition should_flush :: "rat \<Rightarrow> 'e audit_buffer \<Rightarrow> bool" where
  "should_flush elapsed b =
     (ab_batch_size b \<le> int (length (ab_deque b)) \<or> (ab_deque b \<noteq> [] \<and> ab_flush_interval b \<le> elapsed))"

text \<open>One pass of \<open>_flush_loop\<close>, up to the sleep before a retry; no pass starts while one sleeps.\<close>

definition flush_pass :: "rat \<Rightarrow> bool \<Rightarrow> 'e audit_buffer \<Rightarrow> 'e audit_buffer \<times> 'e insert_call list" where
  "flush_pass elapsed ok b =
     (if ab_running b \<and> ab_sleeping b = None \<and> should_flush elapsed b then
        (let n = nat (min (int (length (ab_deque b))) (ab_batch_size b));
             batch = take n (ab_deque b);
             b1 = b\<lparr>ab_deque := drop n (ab_deque b)\<rparr>
         in (b1\<lparr>ab_sleeping := (if ok then None else Some batch)\<rparr>, [(batch, ok)]))
      else (b, []))"

definition flush_retry :: "bool \<Rightarrow> 'e audit_buffer \<Rightarrow> 'e audit_buffer \<times> 'e insert_call list" where
  "flush_retry ok b =
     (case ab_sleeping b of
        None \<Rightarrow> (b, [])
      | Some batch \<Rightarrow> (b\<lparr>ab_sleeping := None\<rparr>, [(batch, ok)]))"

text \<open>\<open>stop\<close> cancels the task, and with it a retry that is still sleeping, then drains the deque.\<close>

definition buffer_stop :: "bool \<Rightarrow> bool \<Rightarrow> 'e audit_buffer \<Rightarrow> 'e audit_buffer \<times> 'e insert_call list" where
  "buffer_stop ok1 ok2 b =
     (let drained = ab_drained b @ ab_deque b
      in (b\<lparr>ab_running := False, ab_sleeping := None, ab_deque := [], ab_drained := drained\<rparr>,
          if drained = [] then [] else do_flush drained ok1 ok2))"

section \<open>The logger (\<open>logger.py\<close>)\<close>

record req_outcome =
  oc_request_id :: string
  oc_provider :: string
  oc_model :: string
  oc_optimized_tokens :: int
  oc_output_tokens :: int
  oc_tokens_saved :: int
  oc_total_latency_ms :: rat
  oc_from_response_cache :: bool
  oc_request_messages :: "json list option"
  oc_compressed_messages :: "json list option"

record audit_entry =
  ae_request_id :: string
  ae_user_id :: string
  ae_username :: string
  ae_team :: string
  ae_provider :: string
  ae_model :: string
  ae_input_tokens :: int
  ae_output_tokens :: int
  ae_tokens_saved :: int
  ae_latency_ms :: rat
  ae_cache_hit :: bool
  ae_status_code :: int
  ae_timestamp :: string
  ae_summary :: string

definition dict_field :: "string \<Rightarrow> json \<Rightarrow> json" where
  "dict_field k j = (case j of JDict kvs \<Rightarrow> (case jget kvs k of Some v \<Rightarrow> v | None \<Rightarrow> JStr []) | _ \<Rightarrow> JStr [])"

text \<open>\<open>" ".join(parts)\<close> over the texts of the text blocks raises \<open>TypeError\<close> on a part that is not a string.\<close>

fun text_parts :: "json list \<Rightarrow> py_error + string list" where
  "text_parts [] = Inr []"
| "text_parts (block # blocks) =
     (case text_parts blocks of
        Inl e \<Rightarrow> Inl e
      | Inr rest \<Rightarrow>
         (case block of
            JDict kvs \<Rightarrow>
              if jget kvs ''type'' = Some (JStr ''text'') then
                (case dict_field ''text'' block of JStr s \<Rightarrow> Inr (s # rest) | _ \<Rightarrow> Inl TypeError)
              else Inr rest
          | _ \<Rightarrow> Inr rest))"

definition user_text :: "(json \<Rightarrow> string) \<Rightarrow> json \<Rightarrow> py_error + string" where
  "user_text str_fn msg =
     (case dict_field ''content'' msg of
        JList blocks \<Rightarrow>
          (case text_parts blocks of Inl e \<Rightarrow> Inl e | Inr parts \<Rightarrow> Inr (strip (join_with '' '' parts)))
      | JStr s \<Rightarrow> Inr (strip s)
      | content \<Rightarrow> Inr (strip (str_fn content)))"

definition extract_user_message :: "(json \<Rightarrow> string) \<Rightarrow> req_outcome \<Rightarrow> py_error + string" where
  "extract_user_message str_fn oc =
     (let messages = (case oc_request_messages oc of
            Some (m # ms) \<Rightarrow> m # ms
          | _ \<Rightarrow> (case oc_compressed_messages oc of None \<Rightarrow> [] | Some ms \<Rightarrow> ms))
      in case filter (\<lambda>msg. dict_field ''role'' msg = JStr ''user'') (rev messages) of
           [] \<Rightarrow> Inr []
         | msg # _ \<Rightarrow> user_text str_fn msg)"

definition truncate_words :: "nat \<Rightarrow> string \<Rightarrow> string" where
  "truncate_words max_words s =
     (if max_words < length (words s) then join_with '' '' (take max_words (words s)) else s)"

definition build_summary :: "(json \<Rightarrow> string) \<Rightarrow> req_outcome \<Rightarrow> py_error + string" where
  "build_summary str_fn oc =
     (case extract_user_message str_fn oc of
        Inl e \<Rightarrow> Inl e
      | Inr ut \<Rightarrow>
         if ut \<noteq> [] then Inr (truncate_words 200 ut)
         else Inr (truncate_words 200 (join_with '' ''
           [''Request to '' @ oc_provider oc @ '' using model '' @ oc_model oc @ ''.'',
            ''Input tokens: '' @ int_dec (oc_optimized_tokens oc) @ '', output tokens: '' @ int_dec (oc_output_tokens oc) @ ''.'',
            ''Tokens saved: '' @ int_dec (oc_tokens_saved oc) @ ''.''])))"

definition audit_log ::
  "(json \<Rightarrow> string) \<Rightarrow> string \<Rightarrow> ident_ctx \<Rightarrow> req_outcome \<Rightarrow> audit_entry audit_buffer \<Rightarrow> py_error + audit_entry audit_buffer" where
  "audit_log str_fn timestamp ctx oc b =
     (case cur_user_id ctx of
        None \<Rightarrow> Inr b
      | Some user_id \<Rightarrow>
         (case build_summary str_fn oc of
            Inl e \<Rightarrow> Inl e
          | Inr summary \<Rightarrow>
             enqueue
               \<lparr>ae_request_id = oc_request_id oc, ae_user_id = user_id,
                ae_username = (case cur_username ctx of Some u \<Rightarrow> if u = [] then ''unknown'' else u | None \<Rightarrow> ''unknown''),
                ae_team = (case cur_team ctx of Some t \<Rightarrow> t | None \<Rightarrow> []),
                ae_provider = oc_provider oc, ae_model = oc_model oc,
                ae_input_tokens = oc_optimized_tokens oc, ae_output_tokens = oc_output_tokens oc,
                ae_tokens_saved = oc_tokens_saved oc, ae_latency_ms = oc_total_latency_ms oc,
                ae_cache_hit = oc_from_response_cache oc, ae_status_code = 200,
                ae_timestamp = timestamp, ae_summary = summary\<rparr> b))"

section \<open>Runs of the buffer\<close>

datatype 'e buf_op =
    Enq 'e
  | Pass rat bool
  | Retry bool
  | Start
  | Stop bool bool

fun buf_step :: "'e buf_op \<Rightarrow> 'e audit_buffer \<Rightarrow> py_error + ('e audit_buffer \<times> 'e insert_call list)" where
  "buf_step (Enq e) b = (case enqueue e b of Inl x \<Rightarrow> Inl x | Inr b' \<Rightarrow> Inr (b', []))"
| "buf_step (Pass elapsed ok) b = Inr (flush_pass elapsed ok b)"
| "buf_step (Retry ok) b = Inr (flush_retry ok b)"
| "buf_step Start b = Inr (buffer_start b, [])"
| "buf_step (Stop ok1 ok2) b = Inr (buffer_stop ok1 ok2 b)"

fun buf_run :: "'e buf_op list \<Rightarrow> 'e audit_buffer \<Rightarrow> py_error + ('e audit_buffer \<times> 'e insert_call list)" where
  "buf_run [] b = Inr (b, [])"
| "buf_run (op # ops) b =
     (case buf_step op b of
        Inl x \<Rightarrow> Inl x
      | Inr (b', calls) \<Rightarrow> (case buf_run ops b' of Inl x \<Rightarrow> Inl x | Inr (b'', calls') \<Rightarrow> Inr (b'', calls @ calls')))"

definition delivered :: "'e insert_call list \<Rightarrow> 'e list" where
  "delivered calls = concat (map fst (filter snd calls))"

fun enqueued :: "'e buf_op list \<Rightarrow> 'e list" where
  "enqueued [] = []"
| "enqueued (Enq e # ops) = e # enqueued ops"
| "enqueued (_ # ops) = enqueued ops"

fun is_stop :: "'e buf_op \<Rightarrow> bool" where
  "is_stop (Stop ok1 ok2) = True"
| "is_stop _ = False"

fun no_loss :: "'e buf_op \<Rightarrow> bool" where
  "no_loss (Retry ok) = ok"
| "no_loss _ = True"

definition sleeping_of :: "'e audit_buffer \<Rightarrow> 'e list" where
  "sleeping_of b = (case ab_sleeping b of None \<Rightarrow> [] | Some batch \<Rightarrow> batch)"

definition in_buffer :: "'e audit_buffer \<Rightarrow> 'e list" where
  "in_buffer b = sleeping_of b @ ab_deque b"

lemma delivered_simps [simp]:
  "delivered [] = []" "delivered ((x, ok) # calls) = (if ok then x else []) @ delivered calls"
  "delivered (c1 @ c2) = delivered c1 @ delivered c2"
  by (simp_all add: delivered_def)

lemma flush_pass_keeps:
  assumes "flush_pass elapsed ok b = (b', calls)"
  shows "delivered calls @ in_buffer b' = in_buffer b" and "ab_drained b' = ab_drained b"
    and "ab_max_size b' = ab_max_size b" and "length (ab_deque b') \<le> length (ab_deque b)"
    and "ok \<or> calls = [] \<or> ab_sleeping b' \<noteq> None"
  using assms
  by (auto simp: flush_pass_def in_buffer_def sleeping_of_def Let_def split: if_splits option.splits)

lemma enqueue_ok:
  "0 < ab_max_size b \<Longrightarrow> enqueue e b =
     Inr (b\<lparr>ab_deque := drop (if ab_max_size b \<le> int (length (ab_deque b)) then 1 else 0) (ab_deque b) @ [e]\<rparr>)"
  by (auto simp: enqueue_def split: list.splits)

text \<open>Whatever fails, what has been delivered and what is still held is a subsequence of what came in.\<close>

lemma buf_run_subseq:
  assumes "0 < ab_max_size b" "int (length (ab_deque b)) \<le> ab_max_size b" "list_all (\<lambda>op. \<not> is_stop op) ops"
  shows "\<exists>b' calls. buf_run ops b = Inr (b', calls) \<and> subseq (delivered calls @ in_buffer b') (in_buffer b @ enqueued ops)
    \<and> int (length (ab_deque b')) \<le> ab_max_size b \<and> ab_max_size b' = ab_max_size b \<and> ab_drained b' = ab_drained b"
  using assms
proof (induction ops arbitrary: b)
  case Nil
  then show ?case by simp
next
  case (Cons op ops)
  have "\<exists>b1 c1. buf_step op b = Inr (b1, c1) \<and> subseq (delivered c1 @ in_buffer b1) (in_buffer b @ enqueued [op])
      \<and> int (length (ab_deque b1)) \<le> ab_max_size b \<and> ab_max_size b1 = ab_max_size b \<and> ab_drained b1 = ab_drained b"
  proof (cases op)
    case (Enq e)
    let ?b = "b\<lparr>ab_deque := drop (if ab_max_size b \<le> int (length (ab_deque b)) then 1 else 0) (ab_deque b) @ [e]\<rparr>"
    have "subseq (in_buffer ?b) (in_buffer b @ [e])"
      by (simp add: in_buffer_def sleeping_of_def list_emb_append_mono suffix_imp_subseq suffix_drop)
    with Enq enqueue_ok [OF Cons.prems(1), of e] Cons.prems show ?thesis by auto
  next
    case (Pass elapsed ok)
    obtain b1 c1 where p: "flush_pass elapsed ok b = (b1, c1)" by fastforce
    from flush_pass_keeps [OF p] Pass p Cons.prems show ?thesis by auto
  next
    case (Retry ok)
    with Cons.prems show ?thesis
      by (auto simp: flush_retry_def in_buffer_def sleeping_of_def split: option.splits)
  next
    case Start
    with Cons.prems show ?thesis by (auto simp: buffer_start_def in_buffer_def sleeping_of_def)
  next
    case (Stop ok1 ok2)
    with Cons.prems show ?thesis by simp
  qed
  then obtain b1 c1 where s: "buf_step op b = Inr (b1, c1)" "subseq (delivered c1 @ in_buffer b1) (in_buffer b @ enqueued [op])"
    "int (length (ab_deque b1)) \<le> ab_max_size b" "ab_max_size b1 = ab_max_size b" "ab_drained b1 = ab_drained b" by blast
  obtain b2 c2 where r: "buf_run ops b1 = Inr (b2, c2)" "subseq (delivered c2 @ in_buffer b2) (in_buffer b1 @ enqueued ops)"
    "int (length (ab_deque b2)) \<le> ab_max_size b1" "ab_max_size b2 = ab_max_size b1" "ab_drained b2 = ab_drained b1"
    using Cons.IH [of b1] s Cons.prems by auto
  have "subseq (delivered c1 @ delivered c2 @ in_buffer b2) (delivered c1 @ in_buffer b1 @ enqueued ops)"
    using r(2) by (simp add: list_emb_append_mono)
  moreover have "subseq ((delivered c1 @ in_buffer b1) @ enqueued ops) ((in_buffer b @ enqueued [op]) @ enqueued ops)"
    using s(2) by (rule list_emb_append_mono) simp
  moreover have "enqueued [op] @ enqueued ops = enqueued (op # ops)" by (cases op) simp_all
  ultimately have "subseq (delivered (c1 @ c2) @ in_buffer b2) (in_buffer b @ enqueued (op # ops))"
    by (metis append.assoc delivered_simps(3) subseq_order.trans)
  with s r show ?case by auto
qed

text \<open>When the capacity suffices and no retry fails, nothing is lost.\<close>

lemma buf_run_exact:
  assumes "int (length (ab_deque b) + length (enqueued ops)) \<le> ab_max_size b" "0 < ab_max_size b"
    and "list_all (\<lambda>op. \<not> is_stop op \<and> no_loss op) ops"
  shows "\<exists>b' calls. buf_run ops b = Inr (b', calls) \<and> delivered calls @ in_buffer b' = in_buffer b @ enqueued ops
    \<and> ab_drained b' = ab_drained b"
  using assms
proof (induction ops arbitrary: b)
  case Nil
  then show ?case by simp
next
  case (Cons op ops)
  have "\<exists>b1 c1. buf_step op b = Inr (b1, c1) \<and> delivered c1 @ in_buffer b1 = in_buffer b @ enqueued [op]
      \<and> length (ab_deque b1) \<le> length (ab_deque b) + length (enqueued [op]) \<and> ab_max_size b1 = ab_max_size b
      \<and> ab_drained b1 = ab_drained b"
  proof (cases op)
    case (Enq e)
    with enqueue_ok [of b e] Cons.prems show ?thesis by (auto simp: in_buffer_def sleeping_of_def)
  next
    case (Pass elapsed ok)
    obtain b1 c1 where p: "flush_pass elapsed ok b = (b1, c1)" by fastforce
    from flush_pass_keeps [OF p] Pass p show ?thesis by auto
  next
    case (Retry ok)
    with Cons.prems show ?thesis
      by (auto simp: flush_retry_def in_buffer_def sleeping_of_def split: option.splits)
  next
    case Start
    then show ?thesis by (auto simp: buffer_start_def in_buffer_def sleeping_of_def)
  next
    case (Stop ok1 ok2)
    with Cons.prems show ?thesis by simp
  qed
  then obtain b1 c1 where s: "buf_step op b = Inr (b1, c1)" "delivered c1 @ in_buffer b1 = in_buffer b @ enqueued [op]"
    "length (ab_deque b1) \<le> length (ab_deque b) + length (enqueued [op])" "ab_max_size b1 = ab_max_size b"
    "ab_drained b1 = ab_drained b" by blast
  have e: "enqueued (op # ops) = enqueued [op] @ enqueued ops" by (cases op) simp_all
  then obtain b2 c2 where r: "buf_run ops b1 = Inr (b2, c2)" "delivered c2 @ in_buffer b2 = in_buffer b1 @ enqueued ops"
    "ab_drained b2 = ab_drained b1"
    using Cons.IH [of b1] s Cons.prems by auto
  have "delivered (c1 @ c2) @ in_buffer b2 = in_buffer b @ enqueued (op # ops)"
    using s(2) r(2) by (simp add: e)
  with s r show ?case by auto
qed

lemma buf_run_snoc:
  "buf_run ops b = Inr (b1, c1) \<Longrightarrow> buf_step op b1 = Inr (b2, c2) \<Longrightarrow> buf_run (ops @ [op]) b = Inr (b2, c1 @ c2)"
proof (induction ops arbitrary: b c1)
  case (Cons o1 ops)
  then show ?case by (auto split: sum.splits)
qed simp

section \<open>Properties\<close>

text \<open>for every schedule of enqueues, flush passes, retries and starts, whatever inserts fail, the buffer
  never raises and never grows beyond \<open>max_size\<close>, and the batches the store accepted, followed by
  what the buffer still holds, form a subsequence of the entries logged: no entry is written twice
  and no two are written out of order.\<close>
theorem audit_in_order:
  assumes "0 < m" and "list_all (\<lambda>op. \<not> is_stop op) ops"
  shows "\<exists>b calls. buf_run ops (buffer_init m batch interval) = Inr (b, calls)
    \<and> int (length (ab_deque b)) \<le> m
    \<and> subseq (delivered calls @ sleeping_of b @ ab_deque b) (enqueued ops)"
  using buf_run_subseq [of "buffer_init m batch interval" ops] assms
  by (auto simp: buffer_init_def in_buffer_def sleeping_of_def)

theorem audit_in_order_witness:
  "\<exists>b calls. buf_run [Start, Enq (1::nat), Enq 2, Pass 6 False, Enq 3, Retry False] (buffer_init 2 50 5) = Inr (b, calls)
    \<and> subseq (delivered calls @ sleeping_of b @ ab_deque b) [1, 2, 3]"
  using audit_in_order [of 2 "[Start, Enq (1::nat), Enq 2, Pass 6 False, Enq 3, Retry False]" 50 5] by auto

text \<open>C22: every logged entry reaches the store exactly once and in order, when no more than \<open>max_size\<close> are
  logged, no insert fails twice in a row, and \<open>stop\<close> comes when no retry is pending: then the
  batches accepted up to and including the final flush concatenate to exactly the entries logged.\<close>
theorem audit_exactly_once:
  assumes "0 < m" and "int (length (enqueued ops)) \<le> m"
    and "list_all (\<lambda>op. \<not> is_stop op \<and> no_loss op) ops"
    and run: "buf_run ops (buffer_init m batch interval) = Inr (b, calls)" and "ab_sleeping b = None"
    and "ok1 \<or> ok2"
  shows "\<exists>b' calls'. buf_run (ops @ [Stop ok1 ok2]) (buffer_init m batch interval) = Inr (b', calls')
    \<and> delivered calls' = enqueued ops"
proof -
  have e: "delivered calls @ in_buffer b = enqueued ops" and d: "ab_drained b = []"
    using buf_run_exact [of "buffer_init m batch interval" ops] assms
    by (auto simp: buffer_init_def in_buffer_def sleeping_of_def)
  have "buf_run (ops @ [Stop ok1 ok2]) (buffer_init m batch interval) =
      Inr (fst (buffer_stop ok1 ok2 b), calls @ snd (buffer_stop ok1 ok2 b))"
    by (rule buf_run_snoc [OF run]) simp
  moreover have "delivered (snd (buffer_stop ok1 ok2 b)) = in_buffer b"
    using assms(5,6) d by (auto simp: buffer_stop_def do_flush_def in_buffer_def sleeping_of_def Let_def)
  ultimately show ?thesis using e by auto
qed

theorem audit_exactly_once_witness:
  "\<exists>b' calls'. buf_run ([Start, Enq (1::nat), Enq 2, Pass 6 False, Enq 3, Retry True] @ [Stop False True]) (buffer_init 9 50 5)
      = Inr (b', calls') \<and> delivered calls' = [1, 2, 3]"
proof -
  let ?ops = "[Start, Enq (1::nat), Enq 2, Pass 6 False, Enq 3, Retry True]"
  have "\<exists>b calls. buf_run ?ops (buffer_init 9 50 5) = Inr (b, calls) \<and> ab_sleeping b = None"
    by (simp add: buffer_init_def buffer_start_def enqueue_def flush_pass_def should_flush_def flush_retry_def Let_def)
  then show ?thesis using audit_exactly_once [of 9 ?ops 50 5 _ _ False True] by auto
qed

text \<open>two ways a shutdown breaks that. A \<open>stop\<close> while a failed batch waits for its retry drops the batch:
  the entry logged below is never accepted although the store is back. And a second \<open>stop\<close>
  writes again what the first one wrote, because \<open>_drained\<close> is never cleared.\<close>
theorem audit_stop_anomalies:
  "(\<exists>b calls. buf_run [Start, Enq e, Pass 5 False, Stop True True] (buffer_init 5000 50 5) = Inr (b, calls)
      \<and> delivered calls = [] \<and> ab_deque b = [] \<and> ab_drained b = [] \<and> ab_sleeping b = None)
   \<and> (\<exists>b calls. buf_run [Start, Enq e, Stop True True, Stop True True] (buffer_init 5000 50 5) = Inr (b, calls)
      \<and> delivered calls = [e, e])"
  by (simp add: buffer_init_def buffer_start_def enqueue_def flush_pass_def should_flush_def buffer_stop_def do_flush_def Let_def)

text \<open>which audit queries pass. An administrator may query everything. Otherwise a team, if one is given,
  must be the caller's own, and another user may only be asked for by a team lead who names the own
  team; but a caller with any further role, \<open>viewer\<close> included, may ask for any other user as well.\<close>
theorem enforce_scope_passes:
  "enforce_scope (resolve_scope user_id username role team) target_user target_team = Inr () \<longleftrightarrow>
     role = ''admin''
     \<or> (target_team = None \<or> target_team = Some team)
       \<and> (target_user = None \<or> target_user = Some username
          \<or> role = ''team_lead'' \<and> target_team = Some team
          \<or> role \<notin> {''developer'', ''team_lead''})"
  by (auto simp: enforce_scope_def resolve_scope_def Let_def split: option.splits)

theorem enforce_scope_passes_witness:
  "enforce_scope (resolve_scope ''u7'' ''vic'' ''viewer'' ''core'') (Some ''ann'') None = Inr ()"
  using enforce_scope_passes [of "''u7''" "''vic''" "''viewer''" "''core''" "Some ''ann''" None] by simp

text \<open>audit entries are attributed to the authenticated caller: with no identity bound nothing is
  logged and the buffer is unchanged; with one, if building the summary does not raise and the
  buffer has capacity, exactly one entry is appended, with that user's id and the request's id.\<close>
theorem audit_log_attributes:
  assumes "0 < ab_max_size b" and "int (length (ab_deque b)) < ab_max_size b"
    and "build_summary str_fn oc = Inr summary"
  shows "case cur_user_id ctx of
      None \<Rightarrow> audit_log str_fn ts ctx oc b = Inr b
    | Some uid \<Rightarrow> \<exists>entry. audit_log str_fn ts ctx oc b = Inr (b\<lparr>ab_deque := ab_deque b @ [entry]\<rparr>)
        \<and> ae_user_id entry = uid \<and> ae_request_id entry = oc_request_id oc \<and> ae_summary entry = summary"
  using assms by (auto simp: audit_log_def enqueue_def split: option.splits)

definition sample_outcome :: req_outcome where
  "sample_outcome = \<lparr>oc_request_id = ''r1'', oc_provider = ''openai'', oc_model = ''m'', oc_optimized_tokens = 10,
     oc_output_tokens = 5, oc_tokens_saved = 3, oc_total_latency_ms = 1, oc_from_response_cache = False,
     oc_request_messages = Some [JDict [(''role'', JStr ''user''), (''content'', JStr ''hello'')]],
     oc_compressed_messages = None\<rparr>"

theorem audit_log_attributes_witness:
  "\<exists>entry. audit_log (\<lambda>_. []) ''t'' (set_current_identity ''u1'' ''ann'' ''developer'' None no_identity) sample_outcome
      (buffer_init 5000 50 5) = Inr ((buffer_init 5000 50 5)\<lparr>ab_deque := [entry]\<rparr>) \<and> ae_user_id entry = ''u1''"
proof -
  have "build_summary (\<lambda>_. []) sample_outcome = Inr ''hello''"
    by (simp add: build_summary_def extract_user_message_def sample_outcome_def dict_field_def user_text_def
        truncate_words_def words_def str_eval)
  from audit_log_attributes [where b = "buffer_init 5000 50 5" and ts = "''t''"
      and ctx = "set_current_identity ''u1'' ''ann'' ''developer'' None no_identity", OF _ _ this]
  show ?thesis by (auto simp: set_current_identity_def buffer_init_def)
qed

end
