(* ===== verification/Proxy_Rate_Limiter.thy ===== *)
theory Proxy_Rate_Limiter
  imports Token_Bucket
begin

text \<open>
  The proxy's own limiter: the pure policy functions of \<open>headroom/proxy/rate_limit_policy.py\<close>
  and \<open>TokenBucketRateLimiter\<close> of \<open>headroom/proxy/rate_limiter.py\<close>. The bucket tables are
  \<open>defaultdict\<close>s: reading a missing key creates a full bucket. A division by a zero rate is the
  error value \<open>ZeroDivisionError\<close>. Shown: the bucket obeys \<open>token_bucket\<close>; the tokens granted to
  a key by \<open>check_tokens\<close> over any sequence of calls are bounded; the cleanup removes only stale
  keys, so the table of request buckets is not bounded by \<open>MAX_RATE_LIMITER_BUCKETS\<close>.
\<close>

section \<open>Policy\<close>

definition refilled_tokens :: "rat \<Rightarrow> rat \<Rightarrow> rat \<Rightarrow> rat \<Rightarrow> rat" where
  "refilled_tokens current_tokens last_update now rate_per_minute =
     (let elapsed = max 0 (now - last_update);
          refill = elapsed * (rate_per_minute / 60)
      in min rate_per_minute (current_tokens + refill))"

definition consume_from_bucket :: "rat \<Rightarrow> rat \<Rightarrow> rat \<Rightarrow> py_error + bool \<times> rat \<times> rat" where
  "consume_from_bucket available_tokens requested_tokens rate_per_minute =
     (if requested_tokens \<le> available_tokens
      then Inr (True, available_tokens - requested_tokens, 0)
      else if rate_per_minute = 0 then Inl ZeroDivisionError
      else Inr (False, available_tokens, (requested_tokens - available_tokens) * (60 / rate_per_minute)))"

definition stale_bucket_keys :: "(string, rat) pydict \<Rightarrow> rat \<Rightarrow> rat \<Rightarrow> string list" where
  "stale_bucket_keys last_updates now stale_after_seconds =
     (let stale_before = now - stale_after_seconds
      in map fst (filter (\<lambda>(key, last_update). last_update < stale_before) last_updates))"

section \<open>The limiter\<close>

definition MAX_RATE_LIMITER_BUCKETS :: nat where
  "MAX_RATE_LIMITER_BUCKETS = 1000"

record RateLimitState =
  rs_tokens :: rat
  rs_last_update :: rat

record tb_limiter =
  requests_per_minute :: int
  tokens_per_minute :: int
  tb_request_buckets :: "(string, RateLimitState) pydict"
  tb_token_buckets :: "(string, RateLimitState) pydict"

definition tb_init :: "int \<Rightarrow> int \<Rightarrow> tb_limiter" where
  "tb_init rpm tpm = \<lparr>requests_per_minute = rpm, tokens_per_minute = tpm,
     tb_request_buckets = [], tb_token_buckets = []\<rparr>"

definition cleanup_stale_buckets :: "rat \<Rightarrow> tb_limiter \<Rightarrow> tb_limiter" where
  "cleanup_stale_buckets now l =
     (let stale_keys = stale_bucket_keys
            (map (\<lambda>(k, v). (k, rs_last_update v)) (tb_request_buckets l)) now 600
      in l\<lparr>tb_request_buckets := dict_del_all stale_keys (tb_request_buckets l),
           tb_token_buckets := dict_del_all stale_keys (tb_token_buckets l)\<rparr>)"

text \<open>\<open>d[key]\<close> on the \<open>defaultdict\<close>: a missing key yields a full bucket stamped \<open>now\<close>.\<close>

definition default_state :: "rat \<Rightarrow> int \<Rightarrow> string \<Rightarrow> (string, RateLimitState) pydict \<Rightarrow> RateLimitState" where
  "default_state now cap key d =
     (case dict_get d key of
        None \<Rightarrow> \<lparr>rs_tokens = of_int cap, rs_last_update = now\<rparr>
      | Some s \<Rightarrow> s)"

definition tb_refill :: "rat \<Rightarrow> RateLimitState \<Rightarrow> rat \<Rightarrow> RateLimitState \<times> rat" where
  "tb_refill now state rate_per_minute =
     (let x = refilled_tokens (rs_tokens state) (rs_last_update state) now rate_per_minute
      in (\<lparr>rs_tokens = x, rs_last_update = now\<rparr>, x))"

text \<open>Refill and consume on one bucket, the body the two checks share.\<close>

definition tb_consume :: "rat \<Rightarrow> rat \<Rightarrow> int \<Rightarrow> RateLimitState \<Rightarrow> RateLimitState \<times> (py_error + bool \<times> rat)" where
  "tb_consume now count rate state =
     (let (state', available) = tb_refill now state (of_int rate)
      in case consume_from_bucket available count (of_int rate) of
           Inl e \<Rightarrow> (state', Inl e)
         | Inr (allowed, remaining, wait_seconds) \<Rightarrow>
             (state'\<lparr>rs_tokens := remaining\<rparr>, Inr (allowed, wait_seconds)))"

text \<open>Readings: of the cleanup, of a new bucket, of the refill.\<close>

definition check_request :: "rat \<Rightarrow> rat \<Rightarrow> rat \<Rightarrow> string \<Rightarrow> tb_limiter \<Rightarrow> tb_limiter \<times> (py_error + bool \<times> rat)" where
  "check_request now_c now_new now key l =
     (let l1 = (if MAX_RATE_LIMITER_BUCKETS < length (tb_request_buckets l)
                then cleanup_stale_buckets now_c l else l);
          (state, res) = tb_consume now 1 (requests_per_minute l1)
             (default_state now_new (requests_per_minute l1) key (tb_request_buckets l1))
      in (l1\<lparr>tb_request_buckets := dict_set key state (tb_request_buckets l1)\<rparr>, res))"

definition check_tokens :: "rat \<Rightarrow> rat \<Rightarrow> string \<Rightarrow> int \<Rightarrow> tb_limiter \<Rightarrow> tb_limiter \<times> (py_error + bool \<times> rat)" where
  "check_tokens now_new now key token_count l =
     (let (state, res) = tb_consume now (of_int token_count) (tokens_per_minute l)
             (default_state now_new (tokens_per_minute l) key (tb_token_buckets l))
      in (l\<lparr>tb_token_buckets := dict_set key state (tb_token_buckets l)\<rparr>, res))"

definition tb_stats :: "tb_limiter \<Rightarrow> (string \<times> int) list" where
  "tb_stats l = [(''requests_per_minute'', requests_per_minute l),
     (''tokens_per_minute'', tokens_per_minute l),
     (''active_keys'', int (length (tb_request_buckets l)))]"

section \<open>The bucket obeys the token-bucket contract\<close>

text \<open>The rate is configuration, so the contract is about a rate and a state.\<close>

definition pair_consume :: "rat \<Rightarrow> rat \<Rightarrow> int \<times> RateLimitState \<Rightarrow> (int \<times> RateLimitState) \<times> bool" where
  "pair_consume now c p =
     (case tb_consume now c (fst p) (snd p) of (s', r) \<Rightarrow> ((fst p, s'), r = Inr (True, 0)))"

definition pair_level :: "rat \<Rightarrow> int \<times> RateLimitState \<Rightarrow> rat" where
  "pair_level t p = refilled_tokens (rs_tokens (snd p)) (rs_last_update (snd p)) t (of_int (fst p))"

definition pair_ok :: "int \<times> RateLimitState \<Rightarrow> bool" where
  "pair_ok p = (0 < fst p \<and> 0 \<le> rs_tokens (snd p) \<and> rs_tokens (snd p) \<le> of_int (fst p))"

lemma tb_consume_eq:
  "tb_consume now c r s =
     (let lv = pair_level now (r, s)
      in if c \<le> lv then (\<lparr>rs_tokens = lv - c, rs_last_update = now\<rparr>, Inr (True, 0))
         else (\<lparr>rs_tokens = lv, rs_last_update = now\<rparr>,
               if r = 0 then Inl ZeroDivisionError else Inr (False, (c - lv) * (60 / of_int r))))"
  by (simp add: tb_consume_def tb_refill_def consume_from_bucket_def pair_level_def Let_def)

lemma pair_consume_eq:
  "pair_consume now c p =
     ((fst p, \<lparr>rs_tokens = (if c \<le> pair_level now p then pair_level now p - c else pair_level now p),
               rs_last_update = now\<rparr>), c \<le> pair_level now p)"
  by (simp add: pair_consume_def tb_consume_eq Let_def)

lemma pair_level_bounds:
  "pair_ok p \<Longrightarrow> 0 \<le> pair_level t p \<and> pair_level t p \<le> of_int (fst p)"
  by (auto simp: pair_ok_def pair_level_def refilled_tokens_def Let_def)

lemma pair_level_now:
  "x \<le> of_int r \<Longrightarrow> pair_level t (r, \<lparr>rs_tokens = x, rs_last_update = t\<rparr>) = x"
  by (simp add: pair_level_def refilled_tokens_def)

lemma pair_level_later:
  assumes "pair_ok p" "rs_last_update (snd p) \<le> s" "s \<le> t"
  shows "pair_level t p = min (of_int (fst p)) (pair_level s p + (t - s) * (of_int (fst p) / 60))"
proof -
  let ?r = "of_int (fst p) :: rat" and ?x = "rs_tokens (snd p)" and ?u = "rs_last_update (snd p)"
  have "?x + (t - ?u) * (?r / 60) = (?x + (s - ?u) * (?r / 60)) + (t - s) * (?r / 60)"
    by (simp add: field_simps)
  moreover have "0 \<le> (t - s) * (?r / 60)"
    using assms by (simp add: pair_ok_def)
  moreover have "max 0 (t - ?u) = t - ?u" "max 0 (s - ?u) = s - ?u"
    using assms by simp_all
  ultimately show ?thesis
    unfolding pair_level_def refilled_tokens_def Let_def by linarith
qed

interpretation pb: token_bucket pair_consume pair_level "\<lambda>p. rs_last_update (snd p)"
  "\<lambda>p. of_int (fst p)" pair_ok
proof
  fix p :: "int \<times> RateLimitState" and now c s t :: rat
  assume p: "pair_ok p"
  note lv = pair_level_bounds [OF p, of now]
  show "of_int (fst (fst (pair_consume now c p))) = (of_int (fst p) :: rat)"
    by (simp add: pair_consume_eq)
  show "0 < (of_int (fst p) :: rat)" using p by (simp add: pair_ok_def)
  show "rs_last_update (snd (fst (pair_consume now c p))) = now"
    by (simp add: pair_consume_eq)
  show "snd (pair_consume now c p) = (c \<le> pair_level now p)"
    by (simp add: pair_consume_eq)
  show "0 \<le> pair_level t p" using pair_level_bounds [OF p] by simp
  show "pair_ok (fst (pair_consume now c p))" if "0 \<le> c"
    using p lv that by (simp add: pair_consume_eq pair_ok_def)
  show "pair_level now (fst (pair_consume now c p)) =
      (if snd (pair_consume now c p) then pair_level now p - c else pair_level now p)" if "0 \<le> c"
    using lv that by (simp add: pair_consume_eq pair_level_now)
  show "pair_level t p = min (of_int (fst p)) (pair_level s p + (t - s) * (of_int (fst p) / 60))"
    if "rs_last_update (snd p) \<le> s" "s \<le> t"
    using pair_level_later p that by blast
qed

section \<open>Tokens granted to one key\<close>

text \<open>A call of \<open>check_tokens\<close>: reading of a new bucket, reading of the refill, key, amount.\<close>

type_synonym token_call = "(rat \<times> rat) \<times> string \<times> int"

fun tokens_granted :: "string \<Rightarrow> tb_limiter \<Rightarrow> token_call list \<Rightarrow> rat" where
  "tokens_granted k l [] = 0"
| "tokens_granted k l (((now_new, now), key, n) # cs) =
     (case check_tokens now_new now key n l of
        (l', r) \<Rightarrow> (if key = k \<and> (\<exists>w. r = Inr (True, w)) then of_int n else 0) + tokens_granted k l' cs)"

fun calls_of :: "string \<Rightarrow> token_call list \<Rightarrow> (rat \<times> rat) list" where
  "calls_of k [] = []"
| "calls_of k (((now_new, now), key, n) # cs) =
     (if key = k then (now, of_int n) # calls_of k cs else calls_of k cs)"

text \<open>Seen from one key that has a bucket, the limiter is that key's bucket alone.\<close>

lemma tokens_granted_refines:
  "dict_get (tb_token_buckets l) k = Some s \<Longrightarrow>
     tokens_granted k l cs = snd (bucket_run pair_consume (tokens_per_minute l, s) (calls_of k cs))"
proof (induction k l cs arbitrary: s rule: tokens_granted.induct)
  case (1 k l)
  then show ?case by simp
next
  case (2 k l now_new now key n cs)
  show ?case
  proof (cases "key = k")
    case True
    obtain s' r where c: "tb_consume now (of_int n) (tokens_per_minute l) s = (s', r)"
      by (cases "tb_consume now (of_int n) (tokens_per_minute l) s")
    let ?l = "l\<lparr>tb_token_buckets := dict_set k s' (tb_token_buckets l)\<rparr>"
    have chk: "check_tokens now_new now key n l = (?l, r)"
      using 2 c True by (simp add: check_tokens_def default_state_def)
    have "(\<exists>w. r = Inr (True, w)) \<longleftrightarrow> r = Inr (True, 0)"
      using c by (auto simp: tb_consume_eq Let_def split: if_splits)
    moreover have "tokens_granted k ?l cs = snd (bucket_run pair_consume (tokens_per_minute l, s') (calls_of k cs))"
      using "2.IH" [OF chk [symmetric], of s'] by (simp add: dict_simps)
    moreover have "pair_consume now (of_int n) (tokens_per_minute l, s) = ((tokens_per_minute l, s'), r = Inr (True, 0))"
      using c by (simp add: pair_consume_def)
    ultimately show ?thesis
      using True chk by (simp add: case_prod_beta)
  next
    case False
    let ?l' = "fst (check_tokens now_new now key n l)"
    have "dict_get (tb_token_buckets ?l') k = Some s" and "tokens_per_minute ?l' = tokens_per_minute l"
      using 2 False by (simp_all add: check_tokens_def dict_simps Let_def split: prod.splits)
    then show ?thesis
      using "2.IH" [of ?l' "snd (check_tokens now_new now key n l)" s] False
      by (simp add: prod.case_eq_if)
  qed
qed

section \<open>Properties\<close>

text \<open>Token grants are bounded. For a key with a bucket stamped no later than \<open>t\<close>, the tokens
  that any sequence of \<open>check_tokens\<close> calls (for this key and others, clock not decreasing) grants
  to the key never exceed the tokens-per-minute capacity plus the refill over the elapsed time.\<close>
theorem tokens_granted_bounded:
  assumes "dict_get (tb_token_buckets l) k = Some s" "0 < tokens_per_minute l"
    and "0 \<le> rs_tokens s" "rs_tokens s \<le> of_int (tokens_per_minute l)" "rs_last_update s \<le> t"
    and "clock_from t (calls_of k cs)" "\<forall>(_, n) \<in> set (calls_of k cs). 0 \<le> n"
  shows "tokens_granted k l cs \<le> of_int (tokens_per_minute l)
    + (clock_end t (calls_of k cs) - t) * (of_int (tokens_per_minute l) / 60)"
proof -
  let ?p = "(tokens_per_minute l, s)"
  have p: "pair_ok ?p" using assms by (simp add: pair_ok_def)
  then have "tokens_granted k l cs \<le> pair_level t ?p
      + (clock_end t (calls_of k cs) - t) * (of_int (tokens_per_minute l) / 60)"
    using pb.run_bounded [of ?p t "calls_of k cs"] tokens_granted_refines [OF assms(1)] assms by simp
  then show ?thesis using pair_level_bounds [OF p, of t] by simp
qed

theorem tokens_granted_bounded_witness:
  "tokens_granted ''k'' (tb_init 1 60\<lparr>tb_token_buckets := [(''k'', \<lparr>rs_tokens = 60, rs_last_update = 0\<rparr>)]\<rparr>)
     [((0, 1), ''k'', 50), ((1, 1), ''x'', 9), ((1, 2), ''k'', 40)] \<le> (62 :: rat)"
  using tokens_granted_bounded [of "tb_init 1 60\<lparr>tb_token_buckets := [(''k'', \<lparr>rs_tokens = 60, rs_last_update = 0\<rparr>)]\<rparr>"
      "''k''" "\<lparr>rs_tokens = 60, rs_last_update = 0\<rparr>" 0 "[((0, 1), ''k'', 50), ((1, 1), ''x'', 9), ((1, 2), ''k'', 40)]"]
  by (simp add: tb_init_def)

lemma cleanup_nothing_stale:
  assumes "\<forall>(k, s) \<in> set (tb_request_buckets l). now - 600 \<le> rs_last_update s"
  shows "cleanup_stale_buckets now l = l"
proof -
  have "stale_bucket_keys (map (\<lambda>(k, v). (k, rs_last_update v)) (tb_request_buckets l)) now 600 = []"
    using assms by (auto simp: stale_bucket_keys_def filter_empty_conv filter_map o_def)
  then show ?thesis by (simp add: cleanup_stale_buckets_def)
qed

text \<open>One check by each of the given keys, all within one clock reading.\<close>

fun request_all :: "rat \<Rightarrow> string list \<Rightarrow> tb_limiter \<Rightarrow> tb_limiter" where
  "request_all now [] l = l"
| "request_all now (k # ks) l = request_all now ks (fst (check_request now now now k l))"

lemma check_request_fresh:
  assumes "\<forall>(k, s) \<in> set (tb_request_buckets l). rs_last_update s = now"
    and "dict_get (tb_request_buckets l) k = None"
  shows "\<exists>s. rs_last_update s = now \<and>
    tb_request_buckets (fst (check_request now now now k l)) = tb_request_buckets l @ [(k, s)]"
proof -
  have "cleanup_stale_buckets now l = l"
    using assms(1) by (intro cleanup_nothing_stale) auto
  then have "tb_request_buckets (fst (check_request now now now k l)) =
      dict_set k (fst (tb_consume now 1 (requests_per_minute l)
        (default_state now (requests_per_minute l) k (tb_request_buckets l)))) (tb_request_buckets l)"
    by (simp add: check_request_def Let_def split: prod.splits)
  moreover have "rs_last_update (fst (tb_consume now 1 r s)) = now" for r s
    by (simp add: tb_consume_eq Let_def)
  ultimately show ?thesis using dict_set_new [OF assms(2)] by auto
qed

lemma request_all_grows:
  assumes "\<forall>(k, s) \<in> set (tb_request_buckets l). rs_last_update s = now"
    and "distinct (map fst (tb_request_buckets l) @ ks)"
  shows "length (tb_request_buckets (request_all now ks l)) = length (tb_request_buckets l) + length ks"
  using assms
proof (induction ks arbitrary: l)
  case Nil
  then show ?case by simp
next
  case (Cons k ks)
  have "dict_get (tb_request_buckets l) k = None"
    using Cons.prems(2) by (auto simp: dict_get_None_iff)
  from check_request_fresh [OF Cons.prems(1) this] obtain s where
    "rs_last_update s = now" "tb_request_buckets (fst (check_request now now now k l)) = tb_request_buckets l @ [(k, s)]"
    by blast
  then show ?case
    using Cons.IH [of "fst (check_request now now now k l)"] Cons.prems by auto
qed

text \<open>The request-bucket table is not bounded by \<open>MAX_RATE_LIMITER_BUCKETS\<close>: requests with
  pairwise different keys within ten minutes (here: at one clock reading) each add a bucket, since
  the cleanup that the cap triggers removes stale keys only.\<close>
theorem request_buckets_unbounded:
  assumes "distinct ks"
  shows "length (tb_request_buckets (request_all now ks (tb_init rpm tpm))) = length ks"
  using request_all_grows [of "tb_init rpm tpm" now ks] assms by (simp add: tb_init_def)

theorem request_buckets_unbounded_witness:
  "MAX_RATE_LIMITER_BUCKETS < length (tb_request_buckets (request_all 0 (map nat_dec [0..<1500]) (tb_init 60 100000)))"
proof -
  have "distinct (map nat_dec [0..<1500])"
    by (simp add: distinct_map inj_on_def)
  from request_buckets_unbounded [OF this] show ?thesis
    by (simp add: MAX_RATE_LIMITER_BUCKETS_def)
qed

end
