(* ===== verification/CCR_Store.thy ===== *)
theory CCR_Store
  imports Py_Text "HOL-Library.Product_Lexorder" "HOL-Library.List_Lexorder" "HOL-Library.Char_ord"
    "HOL-Library.Multiset"
begin

text \<open>
  The Compress-Cache-Retrieve store: \<open>InMemoryBackend\<close>
  (\<open>headroom/cache/backends/memory.py\<close>) and \<open>CompressionStore\<close>
  (\<open>headroom/cache/compression_store.py\<close>), which keeps the original of every compressed tool
  output until its TTL ends and evicts the oldest entry when full.

  The eviction heap (\<open>heapq\<close>) is the sorted list of its items: \<open>heappush\<close> inserts, \<open>heappop\<close>
  takes the head, \<open>heapify\<close> sorts; its array layout is not observed by the store. Items are pairs
  (creation time, key) in Python's tuple order, which is the lexicographic order here. SHA-256 is
  an argument. Clock readings are arguments; one loop over the entries uses one reading. The
  feedback, telemetry and TOIN sinks are outside: \<open>process_pending_feedback\<close> returns what it
  hands to them. Log output is not modelled.
\<close>

section \<open>Entries\<close>

definition DEFAULT_CCR_TTL_SECONDS :: int where
  "DEFAULT_CCR_TTL_SECONDS = 1800"

record CompressionEntry =
  ce_hash :: string
  ce_original_content :: string
  ce_compressed_content :: string
  ce_original_tokens :: int
  ce_compressed_tokens :: int
  ce_original_item_count :: int
  ce_compressed_item_count :: int
  ce_tool_name :: "string option"
  ce_tool_call_id :: "string option"
  ce_query_context :: "string option"
  ce_created_at :: rat
  ce_ttl :: int
  ce_tool_signature_hash :: "string option"
  ce_compression_strategy :: "string option"
  ce_retrieval_count :: int
  ce_search_queries :: "string list"
  ce_last_accessed :: "rat option"

definition is_expired :: "rat \<Rightarrow> CompressionEntry \<Rightarrow> bool" where
  "is_expired now e = (of_int (ce_ttl e) < now - ce_created_at e)"

definition record_access :: "rat \<Rightarrow> string option \<Rightarrow> CompressionEntry \<Rightarrow> CompressionEntry" where
  "record_access now query e =
     (let e1 = e\<lparr>ce_retrieval_count := ce_retrieval_count e + 1, ce_last_accessed := Some now\<rparr>
      in case query of
           None \<Rightarrow> e1
         | Some q \<Rightarrow>
             if q \<noteq> [] \<and> q \<notin> set (ce_search_queries e1) then
               (let qs = ce_search_queries e1 @ [q]
                in e1\<lparr>ce_search_queries := (if 10 < length qs then last_n 10 qs else qs)\<rparr>)
             else e1)"

record RetrievalEvent =
  re_hash :: string
  re_query :: "string option"
  re_items_retrieved :: int
  re_total_items :: int
  re_tool_name :: "string option"
  re_timestamp :: rat
  re_retrieval_type :: string
  re_tool_signature_hash :: "string option"

section \<open>The in-memory backend (\<open>backends/memory.py\<close>)\<close>

type_synonym backend = "(string, CompressionEntry) pydict"

definition mb_init :: backend where
  "mb_init = []"

definition mb_get :: "backend \<Rightarrow> string \<Rightarrow> CompressionEntry option" where
  "mb_get b hash_key = dict_get b hash_key"

definition mb_set :: "string \<Rightarrow> CompressionEntry \<Rightarrow> backend \<Rightarrow> backend" where
  "mb_set hash_key entry b = dict_set hash_key entry b"

definition mb_delete :: "string \<Rightarrow> backend \<Rightarrow> backend \<times> bool" where
  "mb_delete hash_key b =
     (if dict_get b hash_key \<noteq> None then (dict_del hash_key b, True) else (b, False))"

definition mb_exists :: "string \<Rightarrow> backend \<Rightarrow> bool" where
  "mb_exists hash_key b = (dict_get b hash_key \<noteq> None)"

definition mb_clear :: "backend \<Rightarrow> backend" where
  "mb_clear b = []"

definition mb_count :: "backend \<Rightarrow> nat" where
  "mb_count b = length b"

definition mb_keys :: "backend \<Rightarrow> string list" where
  "mb_keys b = map fst b"

definition mb_items :: "backend \<Rightarrow> (string \<times> CompressionEntry) list" where
  "mb_items b = b"

lemma mb_delete_fst [simp]: "fst (mb_delete k b) = dict_del k b"
  by (simp add: mb_delete_def dict_del_absent)

interpretation mb: kv_dict mb_get mb_set "\<lambda>k b. fst (mb_delete k b)" mb_count dict_ok
  unfolding mb_get_def [abs_def] mb_set_def [abs_def] mb_count_def [abs_def] mb_delete_fst
  by (rule pd.kv_dict_axioms)

section \<open>The store\<close>

record ccr_store =
  cs_backend :: backend
  cs_max_entries :: int
  cs_default_ttl :: int
  cs_enable_feedback :: bool
  cs_retrieval_events :: "RetrievalEvent list"
  cs_max_events :: nat
  cs_pending :: "RetrievalEvent list"
  cs_heap :: "(rat \<times> string) list"
  cs_stale :: nat

definition ccr_init :: "int \<Rightarrow> int \<Rightarrow> bool \<Rightarrow> backend \<Rightarrow> ccr_store" where
  "ccr_init max_entries default_ttl enable_feedback b =
     \<lparr>cs_backend = b, cs_max_entries = max_entries, cs_default_ttl = default_ttl,
      cs_enable_feedback = enable_feedback, cs_retrieval_events = [], cs_max_events = 1000,
      cs_pending = [], cs_heap = [], cs_stale = 0\<rparr>"

type_synonym feedback_data =
  "RetrievalEvent \<times> string option \<times> string option \<times> string option \<times> string option"

definition process_pending_feedback :: "ccr_store \<Rightarrow> ccr_store \<times> feedback_data list" where
  "process_pending_feedback s =
     (s\<lparr>cs_pending := []\<rparr>,
      map (\<lambda>event. case mb_get (cs_backend s) (re_hash event) of
             Some e \<Rightarrow> (event, ce_tool_name e, ce_tool_signature_hash e, ce_compression_strategy e,
                        Some (ce_compressed_content e))
           | None \<Rightarrow> (event, None, None, None, None)) (cs_pending s))"

text \<open>The deletions of an expired entry, each of which leaves a stale heap item.\<close>

definition drop_entry :: "string \<Rightarrow> ccr_store \<Rightarrow> ccr_store" where
  "drop_entry k s = s\<lparr>cs_backend := fst (mb_delete k (cs_backend s)), cs_stale := cs_stale s + 1\<rparr>"

definition clean_expired :: "rat \<Rightarrow> ccr_store \<Rightarrow> ccr_store" where
  "clean_expired now s =
     (let expired_keys = map fst (filter (\<lambda>(k, e). is_expired now e) (mb_items (cs_backend s)))
      in fold drop_entry expired_keys s)"

definition rebuild_heap :: "ccr_store \<Rightarrow> ccr_store" where
  "rebuild_heap s =
     s\<lparr>cs_heap := sort (map (\<lambda>(k, e). (ce_created_at e, k)) (mb_items (cs_backend s))), cs_stale := 0\<rparr>"

definition record_eviction_success :: "rat \<Rightarrow> CompressionEntry \<Rightarrow> ccr_store \<Rightarrow> ccr_store" where
  "record_eviction_success now e s =
     (if ce_tool_signature_hash e \<noteq> None \<and> ce_compression_strategy e \<noteq> None
      then s\<lparr>cs_pending := cs_pending s @
             [\<lparr>re_hash = ce_hash e, re_query = None, re_items_retrieved = 0,
               re_total_items = ce_original_item_count e, re_tool_name = ce_tool_name e,
               re_timestamp = now, re_retrieval_type = ''eviction_success'',
               re_tool_signature_hash = ce_tool_signature_hash e\<rparr>]\<rparr>
      else s)"

text \<open>The eviction loop, over the heap items from the smallest.\<close>

fun evict_loop :: "rat \<Rightarrow> (rat \<times> string) list \<Rightarrow> ccr_store \<Rightarrow> ccr_store" where
  "evict_loop now [] s = s\<lparr>cs_heap := []\<rparr>"
| "evict_loop now ((created_at, hash_key) # heap) s =
     (if cs_max_entries s \<le> int (mb_count (cs_backend s)) then
        (case mb_get (cs_backend s) hash_key of
           Some e \<Rightarrow>
             if ce_created_at e = created_at then
               (let s1 = (if cs_enable_feedback s \<and> ce_retrieval_count e = 0
                          then record_eviction_success now e s else s)
                in evict_loop now heap (s1\<lparr>cs_backend := fst (mb_delete hash_key (cs_backend s1))\<rparr>))
             else evict_loop now heap (if 0 < cs_stale s then s\<lparr>cs_stale := cs_stale s - 1\<rparr> else s)
         | None \<Rightarrow> evict_loop now heap (if 0 < cs_stale s then s\<lparr>cs_stale := cs_stale s - 1\<rparr> else s))
      else s\<lparr>cs_heap := (created_at, hash_key) # heap\<rparr>)"

definition evict_if_needed :: "rat \<Rightarrow> ccr_store \<Rightarrow> ccr_store" where
  "evict_if_needed now s =
     (let s1 = clean_expired now s;
          heap_size = length (cs_heap s1);
          s2 = (if 0 < heap_size \<and> (1/2 :: rat) \<le> of_nat (cs_stale s1) / of_nat heap_size
                then rebuild_heap s1 else s1)
      in evict_loop now (cs_heap s2) s2)"

record store_args =
  sa_original :: string
  sa_compressed :: string
  sa_original_tokens :: int
  sa_compressed_tokens :: int
  sa_original_item_count :: int
  sa_compressed_item_count :: int
  sa_tool_name :: "string option"
  sa_tool_call_id :: "string option"
  sa_query_context :: "string option"
  sa_tool_signature_hash :: "string option"
  sa_compression_strategy :: "string option"
  sa_ttl :: "int option"
  sa_explicit_hash :: "string option"

definition hex_chars :: string where
  "hex_chars = ''0123456789abcdefABCDEF''"

definition store_key :: "(string \<Rightarrow> string) \<Rightarrow> store_args \<Rightarrow> py_error + string" where
  "store_key sha a =
     (case sa_explicit_hash a of
        Some h \<Rightarrow> if h = [] \<or> \<not> list_all (\<lambda>c. c \<in> set hex_chars) h then Inl ValueError
                  else Inr (str_lower h)
      | None \<Rightarrow> Inr (take 24 (sha (utf8_encode (sa_original a)))))"

definition new_entry :: "rat \<Rightarrow> int \<Rightarrow> string \<Rightarrow> store_args \<Rightarrow> CompressionEntry" where
  "new_entry now default_ttl hash_key a =
     \<lparr>ce_hash = hash_key, ce_original_content = sa_original a, ce_compressed_content = sa_compressed a,
      ce_original_tokens = sa_original_tokens a, ce_compressed_tokens = sa_compressed_tokens a,
      ce_original_item_count = sa_original_item_count a, ce_compressed_item_count = sa_compressed_item_count a,
      ce_tool_name = sa_tool_name a, ce_tool_call_id = sa_tool_call_id a, ce_query_context = sa_query_context a,
      ce_created_at = now, ce_ttl = (case sa_ttl a of None \<Rightarrow> default_ttl | Some t \<Rightarrow> t),
      ce_tool_signature_hash = sa_tool_signature_hash a, ce_compression_strategy = sa_compression_strategy a,
      ce_retrieval_count = 0, ce_search_queries = [], ce_last_accessed = None\<rparr>"

definition store :: "(string \<Rightarrow> string) \<Rightarrow> rat \<Rightarrow> rat \<Rightarrow> store_args \<Rightarrow> ccr_store \<Rightarrow> ccr_store \<times> (py_error + string)" where
  "store sha now now_evict a s =
     (case store_key sha a of
        Inl e \<Rightarrow> (s, Inl e)
      | Inr hash_key \<Rightarrow>
         (let entry = new_entry now (cs_default_ttl s) hash_key a;
              s1 = (if cs_enable_feedback s then fst (process_pending_feedback s) else s);
              s2 = (case mb_get (cs_backend s1) hash_key of
                      None \<Rightarrow> evict_if_needed now_evict s1
                    | Some existing \<Rightarrow> s1\<lparr>cs_stale := cs_stale s1 + 1\<rparr>)
          in (s2\<lparr>cs_backend := mb_set hash_key entry (cs_backend s2),
                 cs_heap := insort (ce_created_at entry, hash_key) (cs_heap s2)\<rparr>, Inr hash_key)))"

definition log_retrieval :: "rat \<Rightarrow> RetrievalEvent \<Rightarrow> ccr_store \<Rightarrow> ccr_store" where
  "log_retrieval now event0 s =
     (let event = event0\<lparr>re_timestamp := now\<rparr>;
          events = cs_retrieval_events s @ [event]
      in s\<lparr>cs_retrieval_events := (if cs_max_events s < length events then last_n (cs_max_events s) events else events),
           cs_pending := cs_pending s @ [event]\<rparr>)"

definition retrieve :: "rat \<Rightarrow> rat \<Rightarrow> rat \<Rightarrow> string \<Rightarrow> string option \<Rightarrow> ccr_store \<Rightarrow> ccr_store \<times> CompressionEntry option" where
  "retrieve now now_access now_log hash_key query s =
     (case mb_get (cs_backend s) hash_key of
        None \<Rightarrow> (s, None)
      | Some entry \<Rightarrow>
         if is_expired now entry then (drop_entry hash_key s, None)
         else
           (let entry' = record_access now_access query entry;
                s1 = s\<lparr>cs_backend := mb_set hash_key entry' (cs_backend s)\<rparr>;
                s2 = (if cs_enable_feedback s1
                      then log_retrieval now_log
                        \<lparr>re_hash = hash_key, re_query = query, re_items_retrieved = ce_original_item_count entry',
                         re_total_items = ce_original_item_count entry', re_tool_name = ce_tool_name entry',
                         re_timestamp = now_log, re_retrieval_type = ''full'',
                         re_tool_signature_hash = ce_tool_signature_hash entry'\<rparr> s1
                      else s1);
                s3 = (if cs_enable_feedback s2 then fst (process_pending_feedback s2) else s2)
            in (s3, Some entry')))"

record metadata =
  md_hash :: string
  md_tool_name :: "string option"
  md_original_item_count :: int
  md_compressed_item_count :: int
  md_query_context :: "string option"
  md_compressed_content :: string
  md_original_content_preview :: string
  md_created_at :: rat
  md_ttl :: int

definition get_metadata :: "rat \<Rightarrow> string \<Rightarrow> ccr_store \<Rightarrow> ccr_store \<times> metadata option" where
  "get_metadata now hash_key s =
     (case mb_get (cs_backend s) hash_key of
        None \<Rightarrow> (s, None)
      | Some e \<Rightarrow>
         if is_expired now e then (drop_entry hash_key s, None)
         else (s, Some \<lparr>md_hash = ce_hash e, md_tool_name = ce_tool_name e,
                 md_original_item_count = ce_original_item_count e,
                 md_compressed_item_count = ce_compressed_item_count e, md_query_context = ce_query_context e,
                 md_compressed_content = ce_compressed_content e,
                 md_original_content_preview = take 2000 (ce_original_content e),
                 md_created_at = ce_created_at e, md_ttl = ce_ttl e\<rparr>))"

definition exists_entry :: "rat \<Rightarrow> string \<Rightarrow> bool \<Rightarrow> ccr_store \<Rightarrow> ccr_store \<times> bool" where
  "exists_entry now hash_key clean s =
     (case mb_get (cs_backend s) hash_key of
        None \<Rightarrow> (s, False)
      | Some e \<Rightarrow>
         if is_expired now e then (if clean then drop_entry hash_key s else s, False)
         else (s, True))"

datatype entry_status =
    Missing string int
  | Known string bool int int rat rat rat

definition get_entry_status :: "rat \<Rightarrow> string \<Rightarrow> bool \<Rightarrow> ccr_store \<Rightarrow> ccr_store \<times> entry_status" where
  "get_entry_status now hash_key clean s =
     (case mb_get (cs_backend s) hash_key of
        None \<Rightarrow> (s, Missing hash_key (cs_default_ttl s))
      | Some e \<Rightarrow>
         (let age_seconds = now - ce_created_at e;
              expires_at = ce_created_at e + of_int (ce_ttl e);
              expired = of_int (ce_ttl e) < age_seconds
          in (if expired \<and> clean then drop_entry hash_key s else s,
              Known hash_key expired (ce_ttl e) (cs_default_ttl s) (ce_created_at e) expires_at age_seconds)))"

definition get_stats :: "rat \<Rightarrow> ccr_store \<Rightarrow> ccr_store \<times> (string \<times> int) list" where
  "get_stats now s =
     (let s1 = clean_expired now s;
          entries = map snd (mb_items (cs_backend s1))
      in (s1, [(''entry_count'', int (mb_count (cs_backend s1))), (''max_entries'', cs_max_entries s1),
               (''default_ttl_seconds'', cs_default_ttl s1),
               (''total_original_tokens'', sum_list (map ce_original_tokens entries)),
               (''total_compressed_tokens'', sum_list (map ce_compressed_tokens entries)),
               (''total_retrievals'', sum_list (map ce_retrieval_count entries)),
               (''event_count'', int (length (cs_retrieval_events s1)))]))"

definition get_retrieval_events :: "nat \<Rightarrow> string option \<Rightarrow> ccr_store \<Rightarrow> RetrievalEvent list" where
  "get_retrieval_events limit tool_name s =
     (let events = (case tool_name of
            None \<Rightarrow> cs_retrieval_events s
          | Some t \<Rightarrow> if t = [] then cs_retrieval_events s
                      else filter (\<lambda>e. re_tool_name e = Some t) (cs_retrieval_events s))
      in rev (last_n limit events))"

definition clear_store :: "ccr_store \<Rightarrow> ccr_store" where
  "clear_store s = s\<lparr>cs_backend := mb_clear (cs_backend s), cs_retrieval_events := [], cs_pending := [],
     cs_heap := [], cs_stale := 0\<rparr>"

section \<open>The invariant\<close>

text \<open>
  Keys are distinct; every live entry has its item in the heap; and the heap holds exactly one
  item per live entry plus the stale ones, so the counter \<open>_stale_heap_entries\<close> is exact.
\<close>

definition heap_matches :: "backend \<Rightarrow> (rat \<times> string) list \<Rightarrow> bool" where
  "heap_matches b heap = (\<forall>k e. mb_get b k = Some e \<longrightarrow> (ce_created_at e, k) \<in> set heap)"

definition ccr_inv_on :: "(rat \<times> string) list \<Rightarrow> ccr_store \<Rightarrow> bool" where
  "ccr_inv_on heap s =
     (dict_ok (cs_backend s) \<and> sorted heap \<and> heap_matches (cs_backend s) heap
      \<and> length heap = mb_count (cs_backend s) + cs_stale s)"

definition ccr_inv :: "ccr_store \<Rightarrow> bool" where
  "ccr_inv s = ccr_inv_on (cs_heap s) s"

lemmas mb_defs = mb_get_def mb_set_def mb_count_def mb_items_def mb_keys_def mb_clear_def mb_exists_def

lemma mb_get_del [simp]: "mb_get (dict_del k b) j = (if j = k then None else mb_get b j)"
  by (simp add: mb_get_def dict_simps)

lemma mb_get_set [simp]: "mb_get (mb_set k e b) j = (if j = k then Some e else mb_get b j)"
  by (simp add: mb_get_def mb_set_def dict_simps)

lemma heap_matches_del: "heap_matches b heap \<Longrightarrow> heap_matches (fst (mb_delete k b)) heap"
  by (auto simp: heap_matches_def split: if_splits)

lemma heap_matches_live_le:
  assumes "dict_ok b" "heap_matches b heap"
  shows "mb_count b \<le> length heap"
proof -
  let ?items = "map (\<lambda>(k, e). (ce_created_at e, k)) b"
  have "inj_on (\<lambda>(k, e). (ce_created_at e, k)) (set b)"
    using assms(1) by (auto simp: inj_on_def dest: eq_key_imp_eq_value)
  then have "distinct ?items"
    using assms(1) by (simp add: distinct_map)
  moreover have "set ?items \<subseteq> set heap"
    using assms by (auto simp: heap_matches_def mb_get_def)
  ultimately have "length ?items \<le> card (set heap)"
    by (metis card_mono distinct_card finite_set)
  then show ?thesis
    using card_length [of heap] by (simp add: mb_count_def)
qed

lemma ccr_inv_drop_entry:
  assumes "ccr_inv_on heap s" "mb_get (cs_backend s) k \<noteq> None"
  shows "ccr_inv_on heap (drop_entry k s)"
  using assms heap_matches_del [of "cs_backend s" heap k] mb.sz_dl_old [of "cs_backend s" k]
  by (auto simp: ccr_inv_on_def drop_entry_def)

lemma drop_entry_frame [simp]:
  "cs_heap (drop_entry k s) = cs_heap s" "cs_max_entries (drop_entry k s) = cs_max_entries s"
  "cs_default_ttl (drop_entry k s) = cs_default_ttl s"
  "cs_enable_feedback (drop_entry k s) = cs_enable_feedback s"
  "cs_backend (drop_entry k s) = dict_del k (cs_backend s)"
  by (simp_all add: drop_entry_def)

text \<open>Dropping a list of present, distinct keys.\<close>

lemma fold_drop_entry:
  assumes "ccr_inv_on heap s" "distinct ks" "\<forall>k \<in> set ks. mb_get (cs_backend s) k \<noteq> None"
  shows "ccr_inv_on heap (fold drop_entry ks s)
    \<and> cs_heap (fold drop_entry ks s) = cs_heap s
    \<and> cs_backend (fold drop_entry ks s) = dict_del_all ks (cs_backend s)
    \<and> cs_max_entries (fold drop_entry ks s) = cs_max_entries s
    \<and> cs_default_ttl (fold drop_entry ks s) = cs_default_ttl s"
  using assms
proof (induction ks arbitrary: s)
  case Nil
  then show ?case by simp
next
  case (Cons k ks)
  have "ccr_inv_on heap (drop_entry k s)"
    using Cons.prems by (intro ccr_inv_drop_entry) auto
  moreover have "\<forall>j \<in> set ks. mb_get (cs_backend (drop_entry k s)) j \<noteq> None"
    using Cons.prems by (auto simp: mb_get_def dict_simps)
  ultimately show ?case
    using Cons.IH [of "drop_entry k s"] Cons.prems(2) by simp
qed

lemma clean_expired_facts:
  assumes "ccr_inv s"
  shows "ccr_inv (clean_expired now s)"
    and "cs_heap (clean_expired now s) = cs_heap s"
    and "cs_max_entries (clean_expired now s) = cs_max_entries s"
    and "cs_default_ttl (clean_expired now s) = cs_default_ttl s"
    and "mb_get (cs_backend (clean_expired now s)) k =
      (case mb_get (cs_backend s) k of None \<Rightarrow> None | Some e \<Rightarrow> if is_expired now e then None else Some e)"
proof -
  let ?ks = "map fst (filter (\<lambda>(k, e). is_expired now e) (cs_backend s))"
  have ok: "dict_ok (cs_backend s)" using assms by (simp add: ccr_inv_def ccr_inv_on_def)
  then have d: "distinct ?ks" by (simp add: distinct_map_filter)
  have mem: "k \<in> set ?ks \<longleftrightarrow> (\<exists>e. mb_get (cs_backend s) k = Some e \<and> is_expired now e)" for k
    using ok by (force simp: mb_get_def)
  then have "\<forall>k \<in> set ?ks. mb_get (cs_backend s) k \<noteq> None" by (auto simp only: mem)
  note f = fold_drop_entry [OF assms [unfolded ccr_inv_def] d this]
  have c: "clean_expired now s = fold drop_entry ?ks s"
    by (simp add: clean_expired_def mb_items_def Let_def)
  show "ccr_inv (clean_expired now s)" and "cs_heap (clean_expired now s) = cs_heap s"
    and "cs_max_entries (clean_expired now s) = cs_max_entries s"
    and "cs_default_ttl (clean_expired now s) = cs_default_ttl s"
    using f by (simp_all add: c ccr_inv_def)
  show "mb_get (cs_backend (clean_expired now s)) k =
      (case mb_get (cs_backend s) k of None \<Rightarrow> None | Some e \<Rightarrow> if is_expired now e then None else Some e)"
  proof -
    have "mb_get (cs_backend (clean_expired now s)) k =
        (if k \<in> set ?ks then None else mb_get (cs_backend s) k)"
      using f by (simp only: c mb_get_def dict_get_del_all)
    then show ?thesis using mem [of k] by (auto simp del: set_map split: option.splits)
  qed
qed

lemma rebuild_heap_inv: "ccr_inv s \<Longrightarrow> ccr_inv (rebuild_heap s)"
  by (force simp: ccr_inv_def ccr_inv_on_def rebuild_heap_def heap_matches_def mb_defs dest: map_of_SomeD)

section \<open>Eviction\<close>

lemma record_eviction_success_frame [simp]:
  "cs_backend (record_eviction_success now e s) = cs_backend s"
  "cs_max_entries (record_eviction_success now e s) = cs_max_entries s"
  "cs_default_ttl (record_eviction_success now e s) = cs_default_ttl s"
  "cs_enable_feedback (record_eviction_success now e s) = cs_enable_feedback s"
  "cs_stale (record_eviction_success now e s) = cs_stale s"
  "cs_heap (record_eviction_success now e s) = cs_heap s"
  by (simp_all add: record_eviction_success_def)

text \<open>The two kinds of iteration.\<close>

definition evict_live :: "rat \<Rightarrow> string \<Rightarrow> CompressionEntry \<Rightarrow> ccr_store \<Rightarrow> ccr_store" where
  "evict_live now k e s =
     (let s1 = (if cs_enable_feedback s \<and> ce_retrieval_count e = 0 then record_eviction_success now e s else s)
      in s1\<lparr>cs_backend := fst (mb_delete k (cs_backend s1))\<rparr>)"

definition evict_stale :: "ccr_store \<Rightarrow> ccr_store" where
  "evict_stale s = (if 0 < cs_stale s then s\<lparr>cs_stale := cs_stale s - 1\<rparr> else s)"

lemma evict_live_frame [simp]:
  "cs_backend (evict_live now k e s) = dict_del k (cs_backend s)"
  "cs_max_entries (evict_live now k e s) = cs_max_entries s"
  "cs_default_ttl (evict_live now k e s) = cs_default_ttl s"
  "cs_stale (evict_live now k e s) = cs_stale s"
  by (simp_all add: evict_live_def Let_def)

lemma evict_stale_frame [simp]:
  "cs_backend (evict_stale s) = cs_backend s" "cs_max_entries (evict_stale s) = cs_max_entries s"
  "cs_default_ttl (evict_stale s) = cs_default_ttl s"
  by (simp_all add: evict_stale_def)

lemma evict_loop_stop:
  "\<not> cs_max_entries s \<le> int (mb_count (cs_backend s)) \<Longrightarrow>
     evict_loop now ((c, k) # heap) s = s\<lparr>cs_heap := (c, k) # heap\<rparr>"
  by simp

lemma evict_loop_live:
  "cs_max_entries s \<le> int (mb_count (cs_backend s)) \<Longrightarrow> mb_get (cs_backend s) k = Some e \<Longrightarrow>
     ce_created_at e = c \<Longrightarrow> evict_loop now ((c, k) # heap) s = evict_loop now heap (evict_live now k e s)"
  by (simp add: evict_live_def Let_def)

lemma evict_loop_stale:
  "cs_max_entries s \<le> int (mb_count (cs_backend s)) \<Longrightarrow>
     \<not> (\<exists>e. mb_get (cs_backend s) k = Some e \<and> ce_created_at e = c) \<Longrightarrow>
     evict_loop now ((c, k) # heap) s = evict_loop now heap (evict_stale s)"
  by (auto simp: evict_stale_def split: option.splits)

lemmas evict_loop_steps = evict_loop_stop evict_loop_live evict_loop_stale
declare evict_loop.simps(2) [simp del]

lemma evict_loop_induct [case_names Nil stop live stale]:
  assumes "\<And>s. P [] s"
    and "\<And>c k heap s. \<not> cs_max_entries s \<le> int (mb_count (cs_backend s)) \<Longrightarrow> P ((c, k) # heap) s"
    and "\<And>k e heap s. cs_max_entries s \<le> int (mb_count (cs_backend s)) \<Longrightarrow> mb_get (cs_backend s) k = Some e \<Longrightarrow>
          P heap (evict_live now k e s) \<Longrightarrow> P ((ce_created_at e, k) # heap) s"
    and "\<And>c k heap s. cs_max_entries s \<le> int (mb_count (cs_backend s)) \<Longrightarrow>
          \<not> (\<exists>e. mb_get (cs_backend s) k = Some e \<and> ce_created_at e = c) \<Longrightarrow>
          P heap (evict_stale s) \<Longrightarrow> P ((c, k) # heap) s"
  shows "P heap s"
proof (induction heap arbitrary: s)
  case Nil
  show ?case by (rule assms)
next
  case (Cons x heap)
  then show ?case
    by (cases x) (metis assms(2-4))
qed

lemma ccr_inv_evict_live:
  assumes "ccr_inv_on ((ce_created_at e, k) # heap) s" "mb_get (cs_backend s) k = Some e"
  shows "ccr_inv_on heap (evict_live now k e s)"
proof -
  have "heap_matches (dict_del k (cs_backend s)) heap"
    using assms by (auto simp: ccr_inv_on_def heap_matches_def)
  then show ?thesis
    using assms mb.sz_dl_old [of "cs_backend s" k] by (auto simp: ccr_inv_on_def)
qed

lemma ccr_inv_evict_stale:
  assumes i: "ccr_inv_on ((c, k) # heap) s"
    and no: "\<not> (\<exists>e. mb_get (cs_backend s) k = Some e \<and> ce_created_at e = c)"
  shows "ccr_inv_on heap (evict_stale s)"
proof -
  have m: "heap_matches (cs_backend s) heap"
    using i no by (auto simp: ccr_inv_on_def heap_matches_def)
  have "mb_count (cs_backend s) \<le> length heap"
    using i m by (auto simp: ccr_inv_on_def intro: heap_matches_live_le)
  with i m show ?thesis
    by (auto simp: ccr_inv_on_def evict_stale_def)
qed

lemma evict_loop_frame:
  "cs_max_entries (evict_loop now heap s) = cs_max_entries s"
  "cs_default_ttl (evict_loop now heap s) = cs_default_ttl s"
  by (induction heap s rule: evict_loop_induct [where now = now]) (simp_all add: evict_loop_steps)

lemma evict_loop_inv: "ccr_inv_on heap s \<Longrightarrow> ccr_inv (evict_loop now heap s)"
proof (induction heap s rule: evict_loop_induct [where now = now])
  case (Nil s)
  then show ?case by (simp add: ccr_inv_def ccr_inv_on_def)
next
  case (stop c k heap s)
  then show ?case by (simp add: evict_loop_stop ccr_inv_def ccr_inv_on_def)
next
  case (live k e heap s)
  then show ?case by (simp add: evict_loop_live ccr_inv_evict_live)
next
  case (stale c k heap s)
  then show ?case by (simp add: evict_loop_stale ccr_inv_evict_stale)
qed

lemma evict_loop_room:
  "ccr_inv_on heap s \<Longrightarrow> 0 < cs_max_entries s \<Longrightarrow>
     int (mb_count (cs_backend (evict_loop now heap s))) < cs_max_entries s"
proof (induction heap s rule: evict_loop_induct [where now = now])
  case (Nil s)
  then show ?case by (simp add: ccr_inv_on_def)
next
  case (stop c k heap s)
  then show ?case by (simp add: evict_loop_stop)
next
  case (live k e heap s)
  then show ?case using ccr_inv_evict_live [of e k heap s now] by (simp add: evict_loop_live)
next
  case (stale c k heap s)
  then show ?case using ccr_inv_evict_stale [of c k heap s] by (simp add: evict_loop_stale)
qed

text \<open>The loop keeps an entry unchanged or removes it.\<close>

lemma evict_loop_get:
  "mb_get (cs_backend (evict_loop now heap s)) j = Some e' \<Longrightarrow> mb_get (cs_backend s) j = Some e'"
  by (induction heap s rule: evict_loop_induct [where now = now])
     (auto simp: evict_loop_steps split: if_splits)

lemma evict_loop_heap_subset: "set (cs_heap (evict_loop now heap s)) \<subseteq> set heap"
  by (induction heap s rule: evict_loop_induct [where now = now]) (auto simp: evict_loop_steps)

text \<open>What it removes it removes in heap order: before every item that remains.\<close>

lemma evict_loop_order:
  "sorted heap \<Longrightarrow> mb_get (cs_backend s) j = Some e' \<Longrightarrow>
     mb_get (cs_backend (evict_loop now heap s)) j = None \<Longrightarrow>
     x \<in> set (cs_heap (evict_loop now heap s)) \<Longrightarrow> (ce_created_at e', j) \<le> x"
proof (induction heap s rule: evict_loop_induct [where now = now])
  case (live k e heap s)
  have eq: "evict_loop now ((ce_created_at e, k) # heap) s = evict_loop now heap (evict_live now k e s)"
    using live.hyps by (simp add: evict_loop_live)
  show ?case
  proof (cases "j = k")
    case True
    then have "e' = e" using live.hyps live.prems by simp
    moreover have "x \<in> set heap"
      using live.prems(4) evict_loop_heap_subset unfolding eq by blast
    ultimately show ?thesis using live.prems(1) True by auto
  next
    case False
    then show ?thesis using live.IH live.prems unfolding eq by simp
  qed
qed (simp_all add: evict_loop_steps)

section \<open>Every operation keeps the invariant and the capacity\<close>

lemma evict_if_needed_facts:
  assumes "ccr_inv s"
  shows "ccr_inv (evict_if_needed now s)"
    and "cs_max_entries (evict_if_needed now s) = cs_max_entries s"
    and "cs_default_ttl (evict_if_needed now s) = cs_default_ttl s"
    and "0 < cs_max_entries s \<Longrightarrow> int (mb_count (cs_backend (evict_if_needed now s))) < cs_max_entries s"
    and "mb_get (cs_backend (evict_if_needed now s)) j = Some e \<Longrightarrow>
      mb_get (cs_backend s) j = Some e \<and> \<not> is_expired now e"
proof -
  define s1 where "s1 = clean_expired now s"
  define s2 where "s2 = (if 0 < length (cs_heap s1) \<and> (1/2 :: rat) \<le> of_nat (cs_stale s1) / of_nat (length (cs_heap s1))
                then rebuild_heap s1 else s1)"
  have ev: "evict_if_needed now s = evict_loop now (cs_heap s2) s2"
    by (simp add: evict_if_needed_def s1_def s2_def Let_def)
  note c = clean_expired_facts [OF assms, of now, folded s1_def]
  have s2: "ccr_inv s2" "cs_backend s2 = cs_backend s1" "cs_max_entries s2 = cs_max_entries s"
    "cs_default_ttl s2 = cs_default_ttl s"
    using c by (auto simp: s2_def rebuild_heap_inv) (auto simp: rebuild_heap_def)
  show "ccr_inv (evict_if_needed now s)"
    using evict_loop_inv [of "cs_heap s2" s2 now] s2(1) by (simp add: ev ccr_inv_def)
  show "cs_max_entries (evict_if_needed now s) = cs_max_entries s"
    and "cs_default_ttl (evict_if_needed now s) = cs_default_ttl s"
    by (simp_all add: ev evict_loop_frame s2)
  show "int (mb_count (cs_backend (evict_if_needed now s))) < cs_max_entries s" if "0 < cs_max_entries s"
    using evict_loop_room [of "cs_heap s2" s2 now] s2 that by (simp add: ev ccr_inv_def)
  show "mb_get (cs_backend s) j = Some e \<and> \<not> is_expired now e"
    if "mb_get (cs_backend (evict_if_needed now s)) j = Some e"
    using evict_loop_get [of now "cs_heap s2" s2 j e] that c(5) [of j]
    by (auto simp: ev s2(2) split: option.splits if_splits)
qed

lemma process_pending_frame [simp]:
  "cs_backend (fst (process_pending_feedback s)) = cs_backend s"
  "cs_heap (fst (process_pending_feedback s)) = cs_heap s"
  "cs_stale (fst (process_pending_feedback s)) = cs_stale s"
  "cs_max_entries (fst (process_pending_feedback s)) = cs_max_entries s"
  "cs_default_ttl (fst (process_pending_feedback s)) = cs_default_ttl s"
  by (simp_all add: process_pending_feedback_def)

lemma ccr_inv_cong:
  "cs_backend s' = cs_backend s \<Longrightarrow> cs_heap s' = cs_heap s \<Longrightarrow> cs_stale s' = cs_stale s \<Longrightarrow> ccr_inv s' = ccr_inv s"
  by (simp add: ccr_inv_def ccr_inv_on_def)

text \<open>The store step on its two paths: a new key after eviction, a known key in place.\<close>

definition flushed :: "ccr_store \<Rightarrow> ccr_store" where
  "flushed s = (if cs_enable_feedback s then fst (process_pending_feedback s) else s)"

definition put_entry :: "string \<Rightarrow> CompressionEntry \<Rightarrow> ccr_store \<Rightarrow> ccr_store" where
  "put_entry k e s = s\<lparr>cs_backend := mb_set k e (cs_backend s), cs_heap := insort (ce_created_at e, k) (cs_heap s)\<rparr>"

lemma flushed_frame [simp]:
  "cs_backend (flushed s) = cs_backend s" "cs_heap (flushed s) = cs_heap s" "cs_stale (flushed s) = cs_stale s"
  "cs_max_entries (flushed s) = cs_max_entries s" "cs_default_ttl (flushed s) = cs_default_ttl s"
  by (simp_all add: flushed_def)

lemma ccr_inv_flushed [simp]: "ccr_inv (flushed s) = ccr_inv s"
  by (rule ccr_inv_cong) simp_all

lemma store_eq:
  "store_key sha a = Inr k \<Longrightarrow> store sha now now_e a s =
     (put_entry k (new_entry now (cs_default_ttl s) k a)
        (case mb_get (cs_backend s) k of
           None \<Rightarrow> evict_if_needed now_e (flushed s)
         | Some _ \<Rightarrow> (flushed s)\<lparr>cs_stale := cs_stale s + 1\<rparr>), Inr k)"
  by (simp add: store_def put_entry_def flushed_def Let_def split: option.splits)

lemma put_entry_frame [simp]:
  "cs_max_entries (put_entry k e s) = cs_max_entries s"
  "cs_default_ttl (put_entry k e s) = cs_default_ttl s"
  "cs_backend (put_entry k e s) = mb_set k e (cs_backend s)"
  "cs_heap (put_entry k e s) = insort (ce_created_at e, k) (cs_heap s)"
  by (simp_all add: put_entry_def)

lemma put_entry_inv:
  assumes "dict_ok (cs_backend s)" "sorted (cs_heap s)" "heap_matches (cs_backend s) (cs_heap s)"
    and "Suc (length (cs_heap s)) = mb_count (mb_set k e (cs_backend s)) + cs_stale s"
  shows "ccr_inv (put_entry k e s)"
  using assms mb.ok_st [of "cs_backend s" k e]
  by (auto simp: put_entry_def ccr_inv_def ccr_inv_on_def heap_matches_def sorted_insort set_insort_key)

lemma new_entry_fields [simp]:
  "ce_created_at (new_entry now t k a) = now" "ce_original_content (new_entry now t k a) = sa_original a"
  "ce_ttl (new_entry now t k a) = (case sa_ttl a of None \<Rightarrow> t | Some x \<Rightarrow> x)"
  by (simp_all add: new_entry_def)

lemma store_inv:
  assumes "ccr_inv s"
  shows "ccr_inv (fst (store sha now now_e a s))"
proof (cases "store_key sha a")
  case (Inl e)
  with assms show ?thesis by (simp add: store_def)
next
  case (Inr k)
  let ?e = "new_entry now (cs_default_ttl s) k a"
  show ?thesis
  proof (cases "mb_get (cs_backend s) k")
    case None
    let ?s = "evict_if_needed now_e (flushed s)"
    have fl: "ccr_inv (flushed s)" using assms by simp
    note ev = evict_if_needed_facts [OF fl, of now_e]
    have "mb_get (cs_backend ?s) k = None"
      using ev(5) [of k] None by (metis flushed_frame(1) not_None_eq)
    then have "ccr_inv (put_entry k ?e ?s)"
      using ev(1) mb.sz_st_new [of "cs_backend ?s" k ?e]
      by (intro put_entry_inv) (auto simp: ccr_inv_def ccr_inv_on_def)
    then show ?thesis by (simp add: store_eq [OF Inr] None)
  next
    case (Some e0)
    then have "ccr_inv (put_entry k ?e ((flushed s)\<lparr>cs_stale := cs_stale s + 1\<rparr>))"
      using assms mb.sz_st_old [of "cs_backend s" k ?e]
      by (intro put_entry_inv) (auto simp: ccr_inv_def ccr_inv_on_def)
    then show ?thesis by (simp add: store_eq [OF Inr] Some)
  qed
qed

lemma store_capacity:
  assumes "ccr_inv s" "0 < cs_max_entries s" "int (mb_count (cs_backend s)) \<le> cs_max_entries s"
  shows "int (mb_count (cs_backend (fst (store sha now now_e a s)))) \<le> cs_max_entries s"
    and "cs_max_entries (fst (store sha now now_e a s)) = cs_max_entries s"
proof -
  have "int (mb_count (cs_backend (fst (store sha now now_e a s)))) \<le> cs_max_entries s
      \<and> cs_max_entries (fst (store sha now now_e a s)) = cs_max_entries s"
  proof (cases "store_key sha a")
    case (Inl e)
    with assms show ?thesis by (simp add: store_def)
  next
    case (Inr k)
    let ?s = "evict_if_needed now_e (flushed s)" and ?e = "new_entry now (cs_default_ttl s) k a"
    have fl: "ccr_inv (flushed s)" using assms by simp
    note ev = evict_if_needed_facts [OF fl, of now_e]
    show ?thesis
    proof (cases "mb_get (cs_backend s) k")
      case None
      have "mb_get (cs_backend ?s) k = None"
        using ev(5) [of k] None by (metis flushed_frame(1) not_None_eq)
      moreover have "dict_ok (cs_backend ?s)"
        using ev(1) by (simp add: ccr_inv_def ccr_inv_on_def)
      ultimately have "int (mb_count (mb_set k ?e (cs_backend ?s))) \<le> cs_max_entries s"
        using mb.sz_st_new [of "cs_backend ?s" k ?e] ev(4) assms(2) by simp
      then show ?thesis
        using ev(2) by (simp add: store_eq [OF Inr] None)
    next
      case (Some e0)
      then show ?thesis
        using assms mb.sz_st_old [of "cs_backend s" k ?e]
        by (simp add: store_eq [OF Inr] ccr_inv_def ccr_inv_on_def)
    qed
  qed
  then show "int (mb_count (cs_backend (fst (store sha now now_e a s)))) \<le> cs_max_entries s"
    and "cs_max_entries (fst (store sha now now_e a s)) = cs_max_entries s" by simp_all
qed

lemma count_drop_le: "dict_ok b \<Longrightarrow> mb_count (dict_del k b) \<le> mb_count b"
  using mb.sz_dl_le [of b k] by simp

lemma drop_entry_facts:
  assumes "ccr_inv s" "mb_get (cs_backend s) k = Some e"
  shows "ccr_inv (drop_entry k s)" and "mb_count (cs_backend (drop_entry k s)) \<le> mb_count (cs_backend s)"
  using assms ccr_inv_drop_entry [of "cs_heap s" s k] count_drop_le [of "cs_backend s" k]
  by (auto simp: ccr_inv_def ccr_inv_on_def [of "cs_heap s" s])

lemma record_access_core [simp]:
  "ce_created_at (record_access now q e) = ce_created_at e"
  "ce_original_content (record_access now q e) = ce_original_content e"
  "ce_ttl (record_access now q e) = ce_ttl e"
  by (simp_all add: record_access_def Let_def split: option.splits)

lemma retrieve_cases:
  obtains (miss) "mb_get (cs_backend s) k = None" "retrieve now na nl k q s = (s, None)"
  | (expired) e where "mb_get (cs_backend s) k = Some e" "is_expired now e"
      "retrieve now na nl k q s = (drop_entry k s, None)"
  | (hit) e s' where "mb_get (cs_backend s) k = Some e" "\<not> is_expired now e"
      "retrieve now na nl k q s = (s', Some (record_access na q e))"
      "cs_backend s' = mb_set k (record_access na q e) (cs_backend s)" "cs_heap s' = cs_heap s"
      "cs_stale s' = cs_stale s" "cs_max_entries s' = cs_max_entries s" "cs_default_ttl s' = cs_default_ttl s"
proof (cases "mb_get (cs_backend s) k")
  case None
  then show ?thesis using miss by (simp add: retrieve_def)
next
  case (Some e)
  show ?thesis
  proof (cases "is_expired now e")
    case True
    then show ?thesis using expired Some by (simp add: retrieve_def)
  next
    case False
    let ?s = "fst (retrieve now na nl k q s)"
    have "retrieve now na nl k q s = (?s, Some (record_access na q e))"
      and "cs_backend ?s = mb_set k (record_access na q e) (cs_backend s)"
      and "cs_heap ?s = cs_heap s" "cs_stale ?s = cs_stale s" "cs_max_entries ?s = cs_max_entries s"
        "cs_default_ttl ?s = cs_default_ttl s"
      using Some False by (simp_all add: retrieve_def log_retrieval_def Let_def)
    then show ?thesis using hit [OF Some False] by blast
  qed
qed

section \<open>Runs\<close>

datatype ccr_op =
    Store rat rat store_args
  | Retrieve rat rat rat string "string option"
  | Metadata rat string
  | Exists rat string bool
  | Status rat string bool
  | Stats rat
  | Feedback
  | Clear

fun ccr_step :: "(string \<Rightarrow> string) \<Rightarrow> ccr_op \<Rightarrow> ccr_store \<Rightarrow> ccr_store" where
  "ccr_step sha (Store now now_e a) s = fst (store sha now now_e a s)"
| "ccr_step sha (Retrieve now na nl k q) s = fst (retrieve now na nl k q s)"
| "ccr_step sha (Metadata now k) s = fst (get_metadata now k s)"
| "ccr_step sha (Exists now k c) s = fst (exists_entry now k c s)"
| "ccr_step sha (Status now k c) s = fst (get_entry_status now k c s)"
| "ccr_step sha (Stats now) s = fst (get_stats now s)"
| "ccr_step sha Feedback s = fst (process_pending_feedback s)"
| "ccr_step sha Clear s = clear_store s"

definition ccr_run :: "(string \<Rightarrow> string) \<Rightarrow> ccr_op list \<Rightarrow> ccr_store \<Rightarrow> ccr_store" where
  "ccr_run sha ops s = fold (ccr_step sha) ops s"

text \<open>What holds of the store at any time.\<close>

definition ccr_ok :: "int \<Rightarrow> ccr_store \<Rightarrow> bool" where
  "ccr_ok m s = (ccr_inv s \<and> cs_max_entries s = m \<and> int (mb_count (cs_backend s)) \<le> m)"

lemma ccr_ok_drop: "ccr_ok m s \<Longrightarrow> mb_get (cs_backend s) k = Some e \<Longrightarrow> ccr_ok m (drop_entry k s)"
  using drop_entry_facts [of s k e] by (auto simp: ccr_ok_def)

lemma ccr_ok_retrieve:
  assumes "ccr_ok m s"
  shows "ccr_ok m (fst (retrieve now na nl k q s))"
proof (cases rule: retrieve_cases [of s k now na nl q])
  case miss
  with assms show ?thesis by simp
next
  case (expired e)
  with assms ccr_ok_drop show ?thesis by simp
next
  case (hit e s')
  have "heap_matches (cs_backend s') (cs_heap s')"
    using assms hit by (auto simp: ccr_ok_def ccr_inv_def ccr_inv_on_def heap_matches_def)
  then show ?thesis
    using assms hit mb.sz_st_old [of "cs_backend s" k] mb.ok_st [of "cs_backend s" k]
    by (auto simp: ccr_ok_def ccr_inv_def ccr_inv_on_def)
qed

lemma ccr_ok_clean: "ccr_ok m s \<Longrightarrow> ccr_ok m (clean_expired now s)"
proof -
  assume ok: "ccr_ok m s"
  then have i: "ccr_inv s" by (simp add: ccr_ok_def)
  note c = clean_expired_facts [OF i, of now]
  have "mb_count (cs_backend (clean_expired now s)) \<le> mb_count (cs_backend s)"
  proof -
    have "dom (mb_get (cs_backend (clean_expired now s))) \<subseteq> dom (mb_get (cs_backend s))"
      using c(5) by (auto simp: dom_def split: option.splits if_splits)
    then show ?thesis
      using c(1) i mb.sz_card mb.finite_lk card_mono by (metis ccr_inv_def ccr_inv_on_def)
  qed
  with ok c show ?thesis by (simp add: ccr_ok_def)
qed

lemma ccr_ok_step: "ccr_ok m s \<Longrightarrow> 0 < m \<Longrightarrow> ccr_ok m (ccr_step sha op s)"
proof (cases op)
  case (Store now now_e a)
  assume "ccr_ok m s" "0 < m"
  with Store show ?thesis
    using store_inv [of s sha now now_e a] store_capacity [of s sha now now_e a] by (auto simp: ccr_ok_def)
next
  case (Retrieve now na nl k q)
  assume "ccr_ok m s"
  with Retrieve show ?thesis by (simp add: ccr_ok_retrieve)
next
  case (Metadata now k)
  assume "ccr_ok m s"
  with Metadata show ?thesis by (auto simp: get_metadata_def ccr_ok_drop split: option.splits)
next
  case (Exists now k c)
  assume "ccr_ok m s"
  with Exists show ?thesis by (auto simp: exists_entry_def ccr_ok_drop split: option.splits)
next
  case (Status now k c)
  assume "ccr_ok m s"
  with Status show ?thesis by (auto simp: get_entry_status_def ccr_ok_drop Let_def split: option.splits)
next
  case (Stats now)
  assume "ccr_ok m s"
  with Stats show ?thesis by (simp add: get_stats_def ccr_ok_clean Let_def)
next
  case Feedback
  assume "ccr_ok m s"
  with Feedback show ?thesis
    using ccr_inv_cong [of "fst (process_pending_feedback s)" s] by (simp add: ccr_ok_def)
next
  case Clear
  assume "ccr_ok m s" "0 < m"
  with Clear show ?thesis
    by (simp add: ccr_ok_def clear_store_def ccr_inv_def ccr_inv_on_def heap_matches_def mb_defs)
qed

lemma ccr_ok_run: "ccr_ok m s \<Longrightarrow> 0 < m \<Longrightarrow> ccr_ok m (ccr_run sha ops s)"
  by (induction ops arbitrary: s) (simp_all add: ccr_run_def ccr_ok_step)

lemma ccr_ok_init: "0 < m \<Longrightarrow> ccr_ok m (ccr_init m ttl fb mb_init)"
  by (simp add: ccr_ok_def ccr_init_def ccr_inv_def ccr_inv_on_def heap_matches_def mb_init_def mb_defs)

text \<open>Operations other than storing and clearing, at clock readings up to \<open>t\<close>.\<close>

fun read_op :: "rat \<Rightarrow> ccr_op \<Rightarrow> bool" where
  "read_op t (Store now now_e a) = False"
| "read_op t (Retrieve now na nl k q) = (now \<le> t)"
| "read_op t (Metadata now k) = (now \<le> t)"
| "read_op t (Exists now k c) = (now \<le> t)"
| "read_op t (Status now k c) = (now \<le> t)"
| "read_op t (Stats now) = (now \<le> t)"
| "read_op t Feedback = True"
| "read_op t Clear = False"

definition holds_until :: "string \<Rightarrow> string \<Rightarrow> rat \<Rightarrow> ccr_store \<Rightarrow> bool" where
  "holds_until k content t s =
     (\<exists>e. mb_get (cs_backend s) k = Some e \<and> ce_original_content e = content
        \<and> t \<le> ce_created_at e + of_int (ce_ttl e))"

lemma not_expired_until: "now \<le> t \<Longrightarrow> t \<le> ce_created_at e + of_int (ce_ttl e) \<Longrightarrow> \<not> is_expired now e"
  by (simp add: is_expired_def)

lemma holds_until_drop:
  "holds_until k content t s \<Longrightarrow> mb_get (cs_backend s) j = Some e \<Longrightarrow> is_expired now e \<Longrightarrow> now \<le> t \<Longrightarrow>
     holds_until k content t (drop_entry j s)"
  by (auto simp: holds_until_def not_expired_until)

lemma holds_until_read:
  assumes "ccr_inv s" "holds_until k content t s" "read_op t op"
  shows "holds_until k content t (ccr_step sha op s)"
proof (cases op)
  case (Retrieve now na nl j q)
  show ?thesis
  proof (cases rule: retrieve_cases [of s j now na nl q])
    case miss
    with assms Retrieve show ?thesis by simp
  next
    case (expired e)
    with assms Retrieve show ?thesis by (simp add: holds_until_drop)
  next
    case (hit e s')
    with assms Retrieve show ?thesis by (auto simp: holds_until_def)
  qed
next
  case (Metadata now j)
  with assms show ?thesis by (auto simp: get_metadata_def holds_until_drop split: option.splits)
next
  case (Exists now j c)
  with assms show ?thesis by (auto simp: exists_entry_def holds_until_drop split: option.splits)
next
  case (Status now j c)
  with assms show ?thesis
    by (auto simp: get_entry_status_def Let_def is_expired_def [symmetric] holds_until_drop split: option.splits)
next
  case (Stats now)
  obtain e where e: "mb_get (cs_backend s) k = Some e" "ce_original_content e = content"
    "t \<le> ce_created_at e + of_int (ce_ttl e)"
    using assms(2) by (auto simp: holds_until_def)
  moreover have "\<not> is_expired now e"
    using e(3) assms(3) Stats by (intro not_expired_until) simp_all
  ultimately show ?thesis
    using Stats clean_expired_facts(5) [OF assms(1), of now k] by (simp add: get_stats_def holds_until_def Let_def)
next
  case Feedback
  with assms show ?thesis by (simp add: holds_until_def)
qed (use assms in simp_all)

lemma holds_until_run:
  "ccr_ok m s \<Longrightarrow> 0 < m \<Longrightarrow> holds_until k content t s \<Longrightarrow> list_all (read_op t) ops \<Longrightarrow>
     holds_until k content t (ccr_run sha ops s)"
proof (induction ops arbitrary: s)
  case Nil
  then show ?case by (simp add: ccr_run_def)
next
  case (Cons op ops)
  have "ccr_ok m (ccr_step sha op s)" using Cons.prems by (simp add: ccr_ok_step)
  moreover have "holds_until k content t (ccr_step sha op s)"
    using Cons.prems by (intro holds_until_read) (simp_all add: ccr_ok_def)
  ultimately show ?case
    using Cons.IH [of "ccr_step sha op s"] Cons.prems by (simp add: ccr_run_def)
qed

section \<open>Properties\<close>

lemma fold_drop_backend: "cs_backend (fold drop_entry ks s) = dict_del_all ks (cs_backend s)"
  by (induction ks arbitrary: s) simp_all

lemma clean_expired_backend:
  "cs_backend (clean_expired now s) =
     dict_del_all (map fst (filter (\<lambda>(k, e). is_expired now e) (cs_backend s))) (cs_backend s)"
  by (simp add: clean_expired_def mb_items_def fold_drop_backend Let_def)

lemma ccr_reachable_ok: "0 < m \<Longrightarrow> ccr_ok m (ccr_run sha ops (ccr_init m ttl fb mb_init))"
  by (simp add: ccr_ok_run ccr_ok_init)

lemma evict_loop_keeps:
  "dict_ok (cs_backend s) \<Longrightarrow> cs_max_entries s - 1 \<le> int (mb_count (cs_backend s)) \<Longrightarrow>
     cs_max_entries s - 1 \<le> int (mb_count (cs_backend (evict_loop now heap s)))"
proof (induction heap s rule: evict_loop_induct [where now = now])
  case (live k e heap s)
  then have "int (mb_count (dict_del k (cs_backend s))) = int (mb_count (cs_backend s)) - 1"
    using mb.sz_dl_old [of "cs_backend s" k] by auto
  moreover have "dict_ok (dict_del k (cs_backend s))"
    using live.prems(1) mb.ok_dl [of "cs_backend s" k] by simp
  ultimately show ?case
    using live by (simp add: evict_loop_live)
qed (simp_all add: evict_loop_steps)

lemma evict_loop_idle:
  "int (mb_count (cs_backend s)) < cs_max_entries s \<Longrightarrow> cs_backend (evict_loop now heap s) = cs_backend s"
  by (cases heap) (auto simp: evict_loop_stop)

text \<open>An unexpired entry that eviction removes: the store was full of unexpired entries, the rest is newer.\<close>

lemma evict_if_needed_removed:
  assumes inv: "ccr_inv s"
    and e: "mb_get (cs_backend s) j = Some e" "\<not> is_expired now e"
    and gone: "mb_get (cs_backend (evict_if_needed now s)) j = None"
  shows "cs_max_entries s \<le> int (mb_count (cs_backend (clean_expired now s)))"
    and "cs_max_entries s - 1 \<le> int (mb_count (cs_backend (evict_if_needed now s)))"
    and "mb_get (cs_backend (evict_if_needed now s)) i = Some e2 \<Longrightarrow> (ce_created_at e, j) \<le> (ce_created_at e2, i)"
proof -
  define s1 where "s1 = clean_expired now s"
  define s2 where "s2 = (if 0 < length (cs_heap s1) \<and> (1/2 :: rat) \<le> of_nat (cs_stale s1) / of_nat (length (cs_heap s1))
                then rebuild_heap s1 else s1)"
  have ev: "evict_if_needed now s = evict_loop now (cs_heap s2) s2"
    by (simp add: evict_if_needed_def s1_def s2_def Let_def)
  note c = clean_expired_facts [OF inv, of now, folded s1_def]
  have s2: "ccr_inv s2" "cs_backend s2 = cs_backend s1" "cs_max_entries s2 = cs_max_entries s"
    using c by (auto simp: s2_def rebuild_heap_inv) (auto simp: rebuild_heap_def)
  have live: "mb_get (cs_backend s2) j = Some e"
    using e c(5) [of j] by (simp add: s2(2))
  have gone2: "mb_get (cs_backend (evict_loop now (cs_heap s2) s2)) j = None" using gone by (simp add: ev)
  show full: "cs_max_entries s \<le> int (mb_count (cs_backend (clean_expired now s)))"
  proof (rule ccontr)
    assume "\<not> ?thesis"
    then have "cs_backend (evict_loop now (cs_heap s2) s2) = cs_backend s2"
      by (intro evict_loop_idle) (simp add: s2 s1_def)
    with live gone2 show False by simp
  qed
  show "cs_max_entries s - 1 \<le> int (mb_count (cs_backend (evict_if_needed now s)))"
    using evict_loop_keeps [of s2 now "cs_heap s2"] s2 full
    by (simp add: ev s1_def ccr_inv_def ccr_inv_on_def)
  show "(ce_created_at e, j) \<le> (ce_created_at e2, i)"
    if surv: "mb_get (cs_backend (evict_if_needed now s)) i = Some e2"
  proof -
    have "ccr_inv (evict_if_needed now s)" using evict_if_needed_facts(1) [OF inv] .
    then have "(ce_created_at e2, i) \<in> set (cs_heap (evict_loop now (cs_heap s2) s2))"
      using surv by (simp add: ev ccr_inv_def ccr_inv_on_def heap_matches_def)
    moreover have "sorted (cs_heap s2)" using s2(1) by (simp add: ccr_inv_def ccr_inv_on_def)
    ultimately show ?thesis using evict_loop_order live gone2 by blast
  qed
qed

text \<open>A store with room costs no unexpired entry of another key, and adds at most one entry.\<close>

lemma store_with_room:
  assumes inv: "ccr_inv s" and k: "store_key sha a = Inr k" and room: "int (mb_count (cs_backend s)) < cs_max_entries s"
  shows "holds_until j content t s \<Longrightarrow> j \<noteq> k \<Longrightarrow> now_e \<le> t \<Longrightarrow> holds_until j content t (fst (store sha now now_e a s))"
    and "mb_count (cs_backend (fst (store sha now now_e a s))) \<le> Suc (mb_count (cs_backend s))"
proof -
  let ?s = "evict_if_needed now_e (flushed s)" and ?e = "new_entry now (cs_default_ttl s) k a"
  have fl: "ccr_inv (flushed s)" using inv by simp
  have ok: "dict_ok (cs_backend s)" "dict_ok (cs_backend ?s)"
    using inv evict_if_needed_facts(1) [OF fl] by (simp_all add: ccr_inv_def ccr_inv_on_def)
  have few: "mb_count (cs_backend (clean_expired now_e (flushed s))) \<le> mb_count (cs_backend s)"
    by (simp add: clean_expired_backend mb_count_def length_dict_del_all_le)
  have kept: "mb_get (cs_backend ?s) j = Some e" if e: "mb_get (cs_backend s) j = Some e" "\<not> is_expired now_e e" for j e
  proof (cases "mb_get (cs_backend ?s) j")
    case None
    then show ?thesis
      using evict_if_needed_removed(1) [OF fl, of j e now_e] e few room by simp
  next
    case (Some e2)
    then show ?thesis using evict_if_needed_facts(5) [OF fl Some] e by simp
  qed
  have st: "fst (store sha now now_e a s) = put_entry k ?e
        (case mb_get (cs_backend s) k of None \<Rightarrow> ?s | Some _ \<Rightarrow> (flushed s)\<lparr>cs_stale := cs_stale s + 1\<rparr>)"
    by (simp add: store_eq [OF k])
  show "holds_until j content t (fst (store sha now now_e a s))" if "holds_until j content t s" "j \<noteq> k" "now_e \<le> t"
  proof -
    from that(1) obtain e where e: "mb_get (cs_backend s) j = Some e" "ce_original_content e = content"
      "t \<le> ce_created_at e + of_int (ce_ttl e)" by (auto simp: holds_until_def)
    with kept [of j e] that show ?thesis
      by (auto simp: st holds_until_def not_expired_until split: option.splits)
  qed
  have keys: "set (map fst (cs_backend ?s)) \<subseteq> set (map fst (cs_backend s))"
  proof
    fix j assume "j \<in> set (map fst (cs_backend ?s))"
    then obtain e where "mb_get (cs_backend ?s) j = Some e"
      using dict_get_None_iff [of "cs_backend ?s" j] by (auto simp: mb_get_def)
    then show "j \<in> set (map fst (cs_backend s))"
      using evict_if_needed_facts(5) [OF fl, of now_e j e] dict_get_None_iff [of "cs_backend s" j] by (auto simp: mb_get_def)
  qed
  have le: "mb_count (cs_backend ?s) \<le> mb_count (cs_backend s)"
    using card_mono [OF finite_set keys] by (simp only: distinct_card [OF ok(1)] distinct_card [OF ok(2)] mb_count_def length_map)
  show "mb_count (cs_backend (fst (store sha now now_e a s))) \<le> Suc (mb_count (cs_backend s))"
    using le by (auto simp: st mb_defs dict_simps split: option.splits)
qed

definition sample_sha :: "string \<Rightarrow> string" where
  "sample_sha s = replicate 24 (CHR ''a'')"

lemma stored_is_retrieved:
  assumes "0 < m" and "s = ccr_run sha ops (ccr_init m ttl fb mb_init)"
    and k: "store_key sha a = Inr k"
    and t: "t \<le> now + of_int (case sa_ttl a of None \<Rightarrow> cs_default_ttl s | Some x \<Rightarrow> x)"
    and reads: "list_all (read_op t) reads" and "now' \<le> t"
  shows "snd (store sha now now_e a s) = Inr k
    \<and> map_option ce_original_content
        (snd (retrieve now' na nl k q (ccr_run sha reads (fst (store sha now now_e a s))))) = Some (sa_original a)"
proof -
  let ?s = "fst (store sha now now_e a s)"
  have ok: "ccr_ok m ?s"
    using ccr_ok_step [of m s sha "Store now now_e a"] ccr_reachable_ok [OF assms(1)] assms(1,2) by simp
  have "holds_until k (sa_original a) t ?s"
    using t by (auto simp: store_eq [OF k] holds_until_def)
  then have h: "holds_until k (sa_original a) t (ccr_run sha reads ?s)"
    using ok assms(1) reads by (intro holds_until_run)
  have "map_option ce_original_content (snd (retrieve now' na nl k q (ccr_run sha reads ?s))) = Some (sa_original a)"
    using h \<open>now' \<le> t\<close>
    by (cases rule: retrieve_cases [of "ccr_run sha reads ?s" k now' na nl q])
       (auto simp: holds_until_def not_expired_until)
  then show ?thesis by (simp add: store_eq [OF k])
qed

definition sample_args :: "string \<Rightarrow> string \<Rightarrow> store_args" where
  "sample_args h original =
     \<lparr>sa_original = original, sa_compressed = ''['' @ h @ '']'', sa_original_tokens = 10, sa_compressed_tokens = 2,
      sa_original_item_count = 5, sa_compressed_item_count = 1, sa_tool_name = None, sa_tool_call_id = None,
      sa_query_context = None, sa_tool_signature_hash = None, sa_compression_strategy = None,
      sa_ttl = None, sa_explicit_hash = Some h\<rparr>"

text \<open>C20: whatever stores, retrievals, status queries, statistics, feedback flushes and clears were
  run since construction over an empty backend, the store holds at most \<open>max_entries\<close> entries,
  every live entry has its item on the eviction heap, and the stale counter is exact: the heap is
  as long as the entries and the stale items together.\<close>
theorem ccr_reachable_invariant:
  assumes "0 < m" and "s = ccr_run sha ops (ccr_init m ttl fb mb_init)"
  shows "int (mb_count (cs_backend s)) \<le> m
    \<and> length (cs_heap s) = mb_count (cs_backend s) + cs_stale s
    \<and> (\<forall>k e. mb_get (cs_backend s) k = Some e \<longrightarrow> (ce_created_at e, k) \<in> set (cs_heap s))"
  using ccr_reachable_ok [OF assms(1), of sha ops ttl fb] assms(2)
  by (simp_all add: ccr_ok_def ccr_inv_def ccr_inv_on_def heap_matches_def)

theorem ccr_reachable_invariant_witness:
  "int (mb_count (cs_backend (ccr_run sample_sha
      [Store 1 1 (sample_args ''aa'' ''x''), Store 2 2 (sample_args ''bb'' ''y'')] (ccr_init 1 60 True mb_init)))) \<le> 1"
  using ccr_reachable_invariant [OF _ refl, of 1] by simp

text \<open>C3: content stored under a key is retrieved verbatim: after a successful store at \<open>now\<close> in any
  reachable store, and any sequence of retrievals, metadata, existence and status queries (with or
  without clean-up), statistics and feedback flushes at readings up to \<open>t\<close>, where \<open>t\<close> is not after
  \<open>now\<close> plus the entry's TTL, a retrieval at a reading up to \<open>t\<close> returns an entry
  whose original content is exactly what was stored.\<close>
theorem store_then_retrieve:
  assumes "0 < m" and "s = ccr_run sha ops (ccr_init m ttl fb mb_init)"
    and k: "store_key sha a = Inr k"
    and t: "t \<le> now + of_int (case sa_ttl a of None \<Rightarrow> cs_default_ttl s | Some x \<Rightarrow> x)"
    and reads: "list_all (read_op t) reads" and "now' \<le> t"
  shows "snd (store sha now now_e a s) = Inr k
    \<and> map_option ce_original_content
        (snd (retrieve now' na nl k q (ccr_run sha reads (fst (store sha now now_e a s))))) = Some (sa_original a)"
  using assms by (rule stored_is_retrieved)

theorem store_then_retrieve_witness:
  "map_option ce_original_content (snd (retrieve 50 50 50 ''aa'' None (ccr_run sample_sha [Stats 40, Retrieve 45 45 45 ''aa'' None]
      (fst (store sample_sha 1 1 (sample_args ''AA'' ''payload'') (ccr_run sample_sha [] (ccr_init 1 60 True mb_init))))))) = Some ''payload''"
  using store_then_retrieve [of 1 _ sample_sha "[]" 60 True "sample_args ''AA'' ''payload''" "''aa''" 50 1
      "[Stats 40, Retrieve 45 45 45 ''aa'' None]" 50 1 50 50 None, OF _ refl]
  by (simp add: sample_args_def store_key_def hex_chars_def ccr_run_def ccr_init_def str_eval)

text \<open>eviction is oldest first and minimal. When storing a new key removes an entry \<open>j\<close> that was not
  expired, then the unexpired entries alone filled the store, every entry that remains, the new
  one apart, follows \<open>j\<close> in creation order, and the store is full again afterwards: no further
  entry was given up.\<close>
theorem store_evicts_oldest:
  assumes "0 < m" and s: "s = ccr_run sha ops (ccr_init m ttl fb mb_init)"
    and k: "store_key sha a = Inr k" "mb_get (cs_backend s) k = None"
    and j: "mb_get (cs_backend s) j = Some e" "\<not> is_expired now_e e"
    and gone: "mb_get (cs_backend (fst (store sha now now_e a s))) j = None"
  shows "int (mb_count (cs_backend (clean_expired now_e s))) = m
    \<and> (\<forall>i e2. i \<noteq> k \<longrightarrow> mb_get (cs_backend (fst (store sha now now_e a s))) i = Some e2 \<longrightarrow>
          (ce_created_at e, j) \<le> (ce_created_at e2, i))
    \<and> int (mb_count (cs_backend (fst (store sha now now_e a s)))) = m"
proof (intro conjI allI)
  have ok: "ccr_ok m s" using ccr_reachable_ok [OF assms(1)] s by simp
  then have fl: "ccr_inv (flushed s)" "cs_max_entries (flushed s) = m" by (simp_all add: ccr_ok_def)
  let ?v = "evict_if_needed now_e (flushed s)"
  have st: "cs_backend (fst (store sha now now_e a s)) = mb_set k (new_entry now (cs_default_ttl s) k a) (cs_backend ?v)"
    by (simp add: store_eq [OF k(1)] k(2))
  have "mb_get (cs_backend ?v) j = None" using gone j by (auto simp: st split: if_splits)
  note r = evict_if_needed_removed [OF fl(1) _ j(2) this]
  have cl: "cs_backend (clean_expired now_e (flushed s)) = cs_backend (clean_expired now_e s)"
    by (simp add: clean_expired_backend)
  have "int (mb_count (cs_backend (clean_expired now_e s))) \<le> m"
    using ccr_ok_clean [OF ok] by (simp add: ccr_ok_def)
  then show "int (mb_count (cs_backend (clean_expired now_e s))) = m"
    using r(1) j fl(2) cl by simp
  show "i \<noteq> k \<longrightarrow> mb_get (cs_backend (fst (store sha now now_e a s))) i = Some e2 \<longrightarrow>
      (ce_created_at e, j) \<le> (ce_created_at e2, i)" for i e2
    using r(3) j by (auto simp: st)
  have "mb_get (cs_backend ?v) k = None"
    using evict_if_needed_facts(5) [OF fl(1), of now_e k] k(2) by (metis flushed_frame(1) not_None_eq)
  then show "int (mb_count (cs_backend (fst (store sha now now_e a s)))) = m"
    using r(2) j fl mb.sz_st_new [of "cs_backend ?v" k "new_entry now (cs_default_ttl s) k a"]
      evict_if_needed_facts(1,4) [OF fl(1), of now_e] assms(1)
    by (auto simp: st ccr_inv_def ccr_inv_on_def)
qed

definition sample_full :: ccr_store where
  "sample_full = ccr_run sample_sha [Store 1 1 (sample_args ''aa'' ''x''), Store 2 2 (sample_args ''bb'' ''y'')]
     (ccr_init 2 60 False mb_init)"

lemmas ccr_eval = store_def store_key_def new_entry_def evict_if_needed_def clean_expired_def rebuild_heap_def
  is_expired_def drop_entry_def evict_loop.simps mb_defs mb_delete_def mb_init_def ccr_init_def ccr_run_def
  sample_args_def hex_chars_def Let_def

lemma sample_full_eval:
  "mb_get (cs_backend sample_full) ''cc'' = None"
  "mb_get (cs_backend sample_full) ''aa'' = Some (new_entry 1 60 ''aa'' (sample_args ''aa'' ''x''))"
  "cs_heap sample_full = [(1, ''aa''), (2, ''bb'')]"
  "cs_stale sample_full = 0"
  "mb_count (cs_backend sample_full) = 2"
  by (simp_all add: sample_full_def ccr_eval str_eval)

theorem store_evicts_oldest_witness:
  "int (mb_count (cs_backend (fst (store sample_sha 3 3 (sample_args ''cc'' ''z'') sample_full)))) = 2"
proof -
  have "mb_get (cs_backend (fst (store sample_sha 3 3 (sample_args ''cc'' ''z'') sample_full))) ''aa'' = None"
    by (simp add: sample_full_def ccr_eval str_eval)
  moreover have "store_key sample_sha (sample_args ''cc'' ''z'') = Inr ''cc''"
    by (simp add: ccr_eval str_eval)
  ultimately show ?thesis
    using store_evicts_oldest [OF _ sample_full_def _ sample_full_eval(1) sample_full_eval(2), of "sample_args ''cc'' ''z''" 3 3]
    by (simp add: is_expired_def) (simp add: sample_args_def)
qed

text \<open>storing again under a key that is present never costs another entry: every other key keeps its
  entry unchanged, even in a full store and whether or not the content is the same.\<close>
theorem restore_keeps_others:
  assumes "store_key sha a = Inr k" and "mb_get (cs_backend s) k \<noteq> None" and "j \<noteq> k"
  shows "mb_get (cs_backend (fst (store sha now now_e a s))) j = mb_get (cs_backend s) j"
  using assms by (auto simp: store_eq)

theorem restore_keeps_others_witness:
  "mb_get (cs_backend (fst (store sample_sha 9 9 (sample_args ''bb'' ''w'') sample_full))) ''aa'' = mb_get (cs_backend sample_full) ''aa''"
  by (rule restore_keeps_others [of _ _ "''bb''"]) (simp_all add: sample_full_def ccr_eval str_eval)

text \<open>an entry past its TTL is never handed out. Whatever key a caller asks for, an entry that
  \<open>retrieve\<close> returns is one the backend held unexpired at the reading of the call, with its access
  recorded; in particular a retrieval of an expired key returns nothing and removes the entry.\<close>
theorem retrieve_unexpired:
  "case mb_get (cs_backend s) k of
     None \<Rightarrow> retrieve now na nl k q s = (s, None)
   | Some e \<Rightarrow>
       (if of_int (ce_ttl e) < now - ce_created_at e
        then snd (retrieve now na nl k q s) = None
          \<and> mb_get (cs_backend (fst (retrieve now na nl k q s))) k = None
        else snd (retrieve now na nl k q s) = Some (record_access na q e)
          \<and> mb_get (cs_backend (fst (retrieve now na nl k q s))) k = Some (record_access na q e)
          \<and> ce_retrieval_count (record_access na q e) = ce_retrieval_count e + 1
          \<and> ce_original_content (record_access na q e) = ce_original_content e)"
proof -
  have "ce_retrieval_count (record_access na q e) = ce_retrieval_count e + 1" for e
    by (simp add: record_access_def Let_def split: option.splits)
  then show ?thesis
    by (cases rule: retrieve_cases [of s k now na nl q]) (auto simp: is_expired_def)
qed

text \<open>the eviction heap has no bound. Re-storing a present key \<open>n\<close> times, as the mirror bridge does on
  every turn, leaves the number of entries as it is and the heap \<open>n\<close> items longer, whatever
  \<open>max_entries\<close>; the 50 per cent rebuild only runs when a new key arrives.\<close>
theorem restore_grows_heap:
  assumes "store_key sha a = Inr k" and "dict_ok (cs_backend s)" and "mb_get (cs_backend s) k \<noteq> None"
  shows "length (cs_heap (ccr_run sha (replicate n (Store now now_e a)) s)) = length (cs_heap s) + n
    \<and> mb_count (cs_backend (ccr_run sha (replicate n (Store now now_e a)) s)) = mb_count (cs_backend s)"
  using assms(2,3)
proof (induction n arbitrary: s)
  case 0
  show ?case by (simp add: ccr_run_def)
next
  case (Suc n)
  let ?s = "fst (store sha now now_e a s)" and ?e = "new_entry now (cs_default_ttl s) k a"
  have b: "cs_backend ?s = mb_set k ?e (cs_backend s)" and h: "length (cs_heap ?s) = Suc (length (cs_heap s))"
    using Suc.prems by (auto simp: store_eq [OF assms(1)])
  have "dict_ok (cs_backend ?s)" and "mb_get (cs_backend ?s) k \<noteq> None"
    and "mb_count (cs_backend ?s) = mb_count (cs_backend s)"
    using Suc.prems mb.ok_st [of "cs_backend s" k ?e] mb.sz_st_old [of "cs_backend s" k ?e] by (auto simp: b)
  with Suc.IH [of ?s] h show ?case by (simp add: ccr_run_def)
qed

theorem restore_grows_heap_witness:
  "length (cs_heap (ccr_run sample_sha (replicate 5000 (Store 3 3 (sample_args ''bb'' ''y''))) sample_full)) = 5002"
proof -
  have "dict_ok (cs_backend sample_full)" "mb_get (cs_backend sample_full) ''bb'' \<noteq> None"
    by (simp_all add: sample_full_def ccr_eval str_eval)
  moreover have "store_key sample_sha (sample_args ''bb'' ''y'') = Inr ''bb''"
    by (simp add: ccr_eval str_eval)
  ultimately show ?thesis
    using restore_grows_heap [of sample_sha "sample_args ''bb'' ''y''" "''bb''" sample_full 5000 3 3] sample_full_eval(3) by simp
qed

text \<open>\<open>max_entries\<close> is not enforced over a backend that already holds entries when the store is
  constructed, as a persistent one does after a restart: the heap starts empty, so nothing can be
  evicted, and storing a new key into a backend already at or over the limit with unexpired entries adds one more.\<close>
theorem prefilled_backend_overflows:
  assumes "store_key sha a = Inr k" and "dict_ok b" and "mb_get b k = None"
    and "m \<le> int (mb_count b)" and "list_all (\<lambda>(j, e). \<not> is_expired now_e e) b"
  shows "m < int (mb_count (cs_backend (fst (store sha now now_e a (ccr_init m ttl fb b)))))"
proof -
  have no: "filter (\<lambda>(j, e). is_expired now_e e) b = []"
    using assms(5) by (auto simp: filter_empty_conv list_all_iff)
  have "clean_expired now_e (flushed (ccr_init m ttl fb b)) = flushed (ccr_init m ttl fb b)"
    by (simp add: clean_expired_def mb_items_def no ccr_init_def)
  then have "cs_backend (evict_if_needed now_e (flushed (ccr_init m ttl fb b))) = b"
    by (simp add: evict_if_needed_def Let_def) (simp add: ccr_init_def)
  moreover have "cs_backend (ccr_init m ttl fb b) = b" by (simp add: ccr_init_def)
  ultimately show ?thesis
    using assms mb.sz_st_new [of b k] by (simp add: store_eq)
qed

theorem prefilled_backend_overflows_witness:
  "(2::int) < int (mb_count (cs_backend (fst (store sample_sha 3 3 (sample_args ''cc'' ''z'')
      (ccr_init 2 60 True (cs_backend sample_full))))))"
  by (rule prefilled_backend_overflows [of _ _ "''cc''"]) (simp_all add: sample_full_def ccr_eval str_eval)

end
