(* ===== verification/Lossless_Compaction.thy ===== *)
theory Lossless_Compaction
  imports Py_Text
begin

text \<open>
  The format-native lossless compactions of \<open>headroom/transforms/lossless_compaction.py\<close>: run
  collapsing, repeated-block folding, the three heading folds and the dispatcher
  \<open>compact_lossless\<close> with its run-time self-check.

  The regular expressions are parsers on one line (a line has no newline, so \<open>.\<close> matches every
  character and \<open>$\<close> only the end); \<open>\d\<close> on code points 0 to 255 is the ASCII digits and \<open>\s\<close> is
  \<open>is_space\<close>. Each \<open>while\<close> over a line index is a recursion over the remaining lines, and the
  block fold, which looks bk, keeps the index. \<open>int(digits)\<close> raises \<open>ValueError\<close> above
  CPython's limit of 4300 digits, which is why the inverses return a sum.
\<close>

section \<open>Lines\<close>

definition split_keep_trailing :: "string \<Rightarrow> string list \<times> bool" where
  "split_keep_trailing text =
     (if text = [] then ([], False)
      else let had_trailing = endswith text [NL];
               body = (if had_trailing then butlast text else text)
           in (split_on NL body, had_trailing))"

definition join_lines :: "string list \<Rightarrow> bool \<Rightarrow> string" where
  "join_lines lines had_trailing = join_with [NL] lines @ (if had_trailing then [NL] else [])"

text \<open>The common frame of the transforms: split, return the text when it has no lines, rejoin.\<close>

definition on_lines :: "(string list \<Rightarrow> string list) \<Rightarrow> string \<Rightarrow> string" where
  "on_lines f text =
     (case split_keep_trailing text of (lines, had_trailing) \<Rightarrow>
        if lines = [] then text else join_lines (f lines) had_trailing)"

definition on_lines_err :: "(string list \<Rightarrow> py_error + string list) \<Rightarrow> string \<Rightarrow> py_error + string" where
  "on_lines_err f text =
     (case split_keep_trailing text of (lines, had_trailing) \<Rightarrow>
        if lines = [] then Inr text
        else case f lines of Inl e \<Rightarrow> Inl e | Inr out \<Rightarrow> Inr (join_lines out had_trailing))"

section \<open>Regular expressions\<close>

definition RUN_MARKER_RE :: "string \<Rightarrow> string option" where
  "RUN_MARKER_RE line =
     (case after ''... (repeated '' line of None \<Rightarrow> None | Some r \<Rightarrow>
        (case digits_then r of None \<Rightarrow> None | Some (ds, r') \<Rightarrow> if r' = '' times)'' then Some ds else None))"

definition BLOCK_MARKER_RE :: "string \<Rightarrow> (string \<times> string) option" where
  "BLOCK_MARKER_RE line =
     (case after ''... (repeats '' line of None \<Rightarrow> None | Some r \<Rightarrow>
        (case digits_then r of None \<Rightarrow> None | Some (ds, r1) \<Rightarrow>
          (case after '' lines from '' r1 of None \<Rightarrow> None | Some r2 \<Rightarrow>
            (case digits_then r2 of None \<Rightarrow> None | Some (ds2, r3) \<Rightarrow>
               if r3 = '' lines back)'' then Some (ds, ds2) else None))))"

definition HEADING_ROW_RE :: "string \<Rightarrow> (string \<times> string) option" where
  "HEADING_ROW_RE line =
     (case digits_then line of None \<Rightarrow> None | Some (ds, r) \<Rightarrow>
        (case r of [] \<Rightarrow> None | c # content \<Rightarrow> if c = CHR '':'' then Some (ds, content) else None))"

definition GREP_ROW_RE :: "string \<Rightarrow> (string \<times> string \<times> string) option" where
  "GREP_ROW_RE line =
     (let path = takeWhile (\<lambda>c. c \<noteq> CHR '':'') line
      in if path = [] then None
         else case dropWhile (\<lambda>c. c \<noteq> CHR '':'') line of [] \<Rightarrow> None | c # r \<Rightarrow>
                (case HEADING_ROW_RE r of None \<Rightarrow> None | Some (ds, content) \<Rightarrow> Some (path, ds, content)))"

definition DIR_DATA_RE :: "string \<Rightarrow> bool" where
  "DIR_DATA_RE line =
     (case GREP_ROW_RE line of None \<Rightarrow> False | Some (base, ds, content) \<Rightarrow> CHR ''/'' \<notin> set base)"

text \<open>
  \<open>_PATH_ROW_RE\<close> on the segments between slashes: the last is the basename, the others the
  directory; all are free of white space and colons; only the first may be empty, and then a
  further directory segment is needed.
\<close>

definition clean_seg :: "string \<Rightarrow> bool" where
  "clean_seg s = list_all (\<lambda>c. \<not> is_space c \<and> c \<noteq> CHR '':'') s"

definition PATH_ROW_RE :: "string \<Rightarrow> (string \<times> string) option" where
  "PATH_ROW_RE line =
     (let segs = split_on (CHR ''/'') line; dirs = butlast segs; base = last segs
      in if list_all clean_seg segs \<and> base \<noteq> [] \<and> dirs \<noteq> []
            \<and> (list_all (\<lambda>d. d \<noteq> []) dirs \<or> (hd dirs = [] \<and> tl dirs \<noteq> [] \<and> list_all (\<lambda>d. d \<noteq> []) (tl dirs)))
         then Some (join_with ''/'' dirs @ ''/'', base) else None)"

fun hexdig :: "char \<Rightarrow> bool" where
  "hexdig c = (is_digit c \<or> c \<in> set ''abcdefABCDEF'')"

definition DIFF_INDEX_RE :: "string \<Rightarrow> bool" where
  "DIFF_INDEX_RE line =
     (case after ''index '' line of None \<Rightarrow> False | Some r \<Rightarrow>
        takeWhile hexdig r \<noteq> [] \<and>
        (case after ''..'' (dropWhile hexdig r) of None \<Rightarrow> False | Some r2 \<Rightarrow>
           takeWhile hexdig r2 \<noteq> [] \<and>
           (case dropWhile hexdig r2 of
              [] \<Rightarrow> True
            | c # mode \<Rightarrow> c = CHR '' '' \<and> mode \<noteq> [] \<and> list_all (\<lambda>d. d \<in> set ''01234567'') mode)))"

section \<open>The transforms\<close>

text \<open>\<open>re.sub\<close> of ESC \<open>[\<close>, digits and semicolons, \<open>m\<close>, from left to right.\<close>

function strip_ansi :: "string \<Rightarrow> string" where
  "strip_ansi [] = []"
| "strip_ansi (c # s) =
     (case after [CHR 0x1B, CHR ''[''] (c # s) of
        None \<Rightarrow> c # strip_ansi s
      | Some r \<Rightarrow>
         (case dropWhile (\<lambda>d. is_digit d \<or> d = CHR '';'') r of
            [] \<Rightarrow> c # strip_ansi s
          | d # rest \<Rightarrow> if d = CHR ''m'' then strip_ansi rest else c # strip_ansi s))"
  by pat_completeness auto
termination
proof (relation "measure length")
  fix c s r d rest
  assume a: "after [CHR 0x1B, CHR ''[''] (c # s) = Some r" and d: "dropWhile (\<lambda>d. is_digit d \<or> d = CHR '';'') r = d # rest"
  have "length (d # rest) \<le> length r" by (metis d length_dropWhile_le)
  moreover have "length r < length (c # s)" using a by (auto simp: after_def startswith_def split: if_splits)
  ultimately show "(rest, c # s) \<in> measure length" by simp
qed simp_all

definition run_marker :: "nat \<Rightarrow> string" where
  "run_marker n = ''... (repeated '' @ nat_dec n @ '' times)''"

function collapse_loop :: "string list \<Rightarrow> string list" where
  "collapse_loop [] = []"
| "collapse_loop (l # ls) =
     (let run_len = 1 + length (takeWhile (\<lambda>x. x = l) ls)
      in (if 2 \<le> run_len then [l, run_marker run_len] else [l]) @ collapse_loop (dropWhile (\<lambda>x. x = l) ls))"
  by pat_completeness auto
termination
  by (relation "measure length") (auto simp: le_imp_less_Suc length_dropWhile_le)

definition collapse_runs :: "string \<Rightarrow> string" where
  "collapse_runs text = on_lines collapse_loop text"

fun expand_loop :: "string list \<Rightarrow> py_error + string list" where
  "expand_loop [] = Inr []"
| "expand_loop [line] = Inr [line]"
| "expand_loop (line # nxt # ls) =
     (case RUN_MARKER_RE nxt of
        Some ds \<Rightarrow>
          (case int_of_digits ds of
             Inl e \<Rightarrow> Inl e
           | Inr count \<Rightarrow>
              (case expand_loop ls of Inl e \<Rightarrow> Inl e | Inr out \<Rightarrow> Inr (replicate count line @ out)))
      | None \<Rightarrow> (case expand_loop (nxt # ls) of Inl e \<Rightarrow> Inl e | Inr out \<Rightarrow> Inr (line # out)))"

definition expand_runs :: "string \<Rightarrow> py_error + string" where
  "expand_runs text = on_lines_err expand_loop text"

definition is_run_collapsed :: "string \<Rightarrow> bool" where
  "is_run_collapsed text = list_ex (\<lambda>line. RUN_MARKER_RE line \<noteq> None) (split_on NL text)"

definition FOLD_MIN_BLOCK :: nat where
  "FOLD_MIN_BLOCK = 3"

definition FOLD_MAX_BLOCK :: nat where
  "FOLD_MAX_BLOCK = 64"

definition FOLD_MAX_CANDIDATES :: nat where
  "FOLD_MAX_CANDIDATES = 8"

definition FOLD_MAX_LINES :: nat where
  "FOLD_MAX_LINES = 20000"

definition remember :: "(string, nat list) pydict \<Rightarrow> string \<Rightarrow> nat \<Rightarrow> (string, nat list) pydict" where
  "remember positions line index =
     (let bucket = (case dict_get positions line of None \<Rightarrow> [] | Some b \<Rightarrow> b) @ [index]
      in dict_set line (if FOLD_MAX_CANDIDATES < length bucket then tl bucket else bucket) positions)"

text \<open>The length of the common stretch from \<open>q\<close> and from \<open>i\<close>, at most \<open>max_len\<close>.\<close>

fun match_len :: "string list \<Rightarrow> nat \<Rightarrow> nat \<Rightarrow> nat \<Rightarrow> nat" where
  "match_len lines q i 0 = 0"
| "match_len lines q i (Suc max_len) =
     (if lines ! q = lines ! i then Suc (match_len lines (Suc q) (Suc i) max_len) else 0)"

definition try_candidate :: "string list \<Rightarrow> nat \<Rightarrow> nat \<Rightarrow> nat \<times> nat \<Rightarrow> nat \<times> nat" where
  "try_candidate lines i q best =
     (let len = match_len lines q i (min FOLD_MAX_BLOCK (min (length lines - i) (i - q)))
      in if fst best < len then (len, i - q) else best)"

definition best_match :: "string list \<Rightarrow> (string, nat list) pydict \<Rightarrow> nat \<Rightarrow> nat \<times> nat" where
  "best_match lines positions i =
     fold (try_candidate lines i) (rev (dict_get_default positions (lines ! i) [])) (0, 0)"

definition block_marker :: "nat \<Rightarrow> nat \<Rightarrow> string" where
  "block_marker len bk = ''... (repeats '' @ nat_dec len @ '' lines from '' @ nat_dec bk @ '' lines back)''"

definition remember_block :: "string list \<Rightarrow> nat \<Rightarrow> nat \<Rightarrow> (string, nat list) pydict \<Rightarrow> (string, nat list) pydict" where
  "remember_block lines i len positions =
     fold (\<lambda>k p. remember p (lines ! (i + k)) (i + k)) [0..<len] positions"

definition takes_fold :: "string list \<Rightarrow> nat \<Rightarrow> nat \<Rightarrow> nat \<Rightarrow> bool" where
  "takes_fold lines i len bk =
     (FOLD_MIN_BLOCK \<le> len \<and>
      length (block_marker len bk) + 1 < sum_list (map (\<lambda>k. length (lines ! (i + k)) + 1) [0..<len]))"

function fold_loop :: "string list \<Rightarrow> nat \<Rightarrow> (string, nat list) pydict \<Rightarrow> string list" where
  "fold_loop lines i positions =
     (if i < length lines then
        (case best_match lines positions i of (best_len, best_dist) \<Rightarrow>
           if takes_fold lines i best_len best_dist
           then block_marker best_len best_dist #
                  fold_loop lines (i + best_len) (remember_block lines i best_len positions)
           else (lines ! i) # fold_loop lines (i + 1) (remember positions (lines ! i) i))
      else [])"
  by pat_completeness auto
termination
  by (relation "measure (\<lambda>(lines, i, _). length lines - i)") (auto simp: takes_fold_def FOLD_MIN_BLOCK_def)

definition fold_repeated_blocks :: "string \<Rightarrow> string" where
  "fold_repeated_blocks text =
     (case split_keep_trailing text of (lines, had_trailing) \<Rightarrow>
        if length lines < FOLD_MIN_BLOCK * 2 \<or> FOLD_MAX_LINES < length lines then text
        else join_lines (fold_loop lines 0 []) had_trailing)"

definition unfold_line :: "string list \<Rightarrow> string \<Rightarrow> py_error + string list" where
  "unfold_line out line =
     (case BLOCK_MARKER_RE line of
        None \<Rightarrow> Inr (out @ [line])
      | Some (ds1, ds2) \<Rightarrow>
         (case int_of_digits ds1 of Inl e \<Rightarrow> Inl e | Inr len \<Rightarrow>
           (case int_of_digits ds2 of Inl e \<Rightarrow> Inl e | Inr bk \<Rightarrow>
              if 0 \<le> int (length out) - int bk \<and> len \<le> bk
              then Inr (out @ take len (drop (length out - bk) out))
              else Inr (out @ [line]))))"

fun unfold_loop :: "string list \<Rightarrow> string list \<Rightarrow> py_error + string list" where
  "unfold_loop out [] = Inr out"
| "unfold_loop out (line # ls) = (case unfold_line out line of Inl e \<Rightarrow> Inl e | Inr out' \<Rightarrow> unfold_loop out' ls)"

definition unfold_repeated_blocks :: "string \<Rightarrow> py_error + string" where
  "unfold_repeated_blocks text = on_lines_err (unfold_loop []) text"

text \<open>The heading folds: \<open>current\<close> is the header the rows below belong to.\<close>

fun search_heading_loop :: "string option \<Rightarrow> string list \<Rightarrow> string list" where
  "search_heading_loop current_path [] = []"
| "search_heading_loop current_path (line # ls) =
     (case GREP_ROW_RE line of
        Some (path, ds, content) \<Rightarrow>
          (if Some path \<noteq> current_path then [path] else []) @ [ds @ '':'' @ content] @ search_heading_loop (Some path) ls
      | None \<Rightarrow> line # search_heading_loop None ls)"

definition search_heading :: "string \<Rightarrow> string" where
  "search_heading text = on_lines (search_heading_loop None) text"

fun search_unheading_loop :: "string option \<Rightarrow> string list \<Rightarrow> string list" where
  "search_unheading_loop current_path [] = []"
| "search_unheading_loop current_path (line # ls) =
     (case (current_path, HEADING_ROW_RE line) of
        (Some path, Some (ds, content)) \<Rightarrow> (path @ '':'' @ ds @ '':'' @ content) # search_unheading_loop current_path ls
      | (_, data) \<Rightarrow>
          if data = None \<and> ls \<noteq> [] \<and> HEADING_ROW_RE (hd ls) \<noteq> None then search_unheading_loop (Some line) ls
          else line # search_unheading_loop None ls)"

definition search_unheading :: "string \<Rightarrow> string" where
  "search_unheading text = on_lines (search_unheading_loop None) text"

definition rsplit_dir :: "string \<Rightarrow> string \<times> string" where
  "rsplit_dir path =
     (let base = rev (takeWhile (\<lambda>c. c \<noteq> CHR ''/'') (rev path))
      in (take (length path - length base) path, base))"

fun search_dir_heading_loop :: "string option \<Rightarrow> string list \<Rightarrow> string list" where
  "search_dir_heading_loop current_dir [] = []"
| "search_dir_heading_loop current_dir (line # ls) =
     (case GREP_ROW_RE line of
        Some (path, ds, content) \<Rightarrow>
          if CHR ''/'' \<in> set path then
            (case rsplit_dir path of (dir_part, base) \<Rightarrow>
               (if Some dir_part \<noteq> current_dir then [dir_part] else []) @
               [base @ '':'' @ ds @ '':'' @ content] @ search_dir_heading_loop (Some dir_part) ls)
          else line # search_dir_heading_loop None ls
      | None \<Rightarrow> line # search_dir_heading_loop None ls)"

definition search_dir_heading :: "string \<Rightarrow> string" where
  "search_dir_heading text = on_lines (search_dir_heading_loop None) text"

fun search_dir_unheading_loop :: "string option \<Rightarrow> string list \<Rightarrow> string list" where
  "search_dir_unheading_loop current_dir [] = []"
| "search_dir_unheading_loop current_dir (line # ls) =
     (if current_dir \<noteq> None \<and> DIR_DATA_RE line then (the current_dir @ line) # search_dir_unheading_loop current_dir ls
      else if endswith line ''/'' \<and> ls \<noteq> [] \<and> DIR_DATA_RE (hd ls) then search_dir_unheading_loop (Some line) ls
      else line # search_dir_unheading_loop None ls)"

definition search_dir_unheading :: "string \<Rightarrow> string" where
  "search_dir_unheading text = on_lines (search_dir_unheading_loop None) text"

definition diff_strip_index :: "string \<Rightarrow> string" where
  "diff_strip_index text = on_lines (filter (\<lambda>line. \<not> DIFF_INDEX_RE line)) text"

fun path_heading_loop :: "string option \<Rightarrow> string list \<Rightarrow> string list" where
  "path_heading_loop current [] = []"
| "path_heading_loop current (line # ls) =
     (case PATH_ROW_RE line of
        Some (d, base) \<Rightarrow> (if Some d \<noteq> current then [d] else []) @ [base] @ path_heading_loop (Some d) ls
      | None \<Rightarrow> line # path_heading_loop None ls)"

definition path_heading :: "string \<Rightarrow> string" where
  "path_heading text =
     (case split_keep_trailing text of (lines, had_trailing) \<Rightarrow>
        if length (filter (\<lambda>ln. PATH_ROW_RE ln \<noteq> None) lines) < 2 then text
        else join_lines (path_heading_loop None lines) had_trailing)"

definition is_base :: "string \<Rightarrow> bool" where
  "is_base line = (line \<noteq> [] \<and> CHR ''/'' \<notin> set line)"

fun path_unheading_loop :: "string option \<Rightarrow> string list \<Rightarrow> string list" where
  "path_unheading_loop current [] = []"
| "path_unheading_loop current (line # ls) =
     (if current \<noteq> None \<and> is_base line then (the current @ line) # path_unheading_loop current ls
      else if endswith line ''/'' \<and> ls \<noteq> [] \<and> is_base (hd ls) then path_unheading_loop (Some line) ls
      else line # path_unheading_loop None ls)"

definition path_unheading :: "string \<Rightarrow> string" where
  "path_unheading text = on_lines (path_unheading_loop None) text"

section \<open>The dispatcher\<close>

definition smaller :: "string \<Rightarrow> string \<Rightarrow> bool" where
  "smaller candidate original = (length candidate < length original)"

definition compact_lossless :: "string \<Rightarrow> string \<Rightarrow> string" where
  "compact_lossless content kind =
     (if content = [] then content
      else if kind = ''log'' then
        (let baseline = strip_ansi content; candidate = collapse_runs baseline
         in case expand_runs candidate of
              Inl e \<Rightarrow> content
            | Inr x \<Rightarrow> if x \<noteq> baseline then content else if smaller candidate content then candidate else content)
      else if kind = ''search'' then
        (let c1 = search_heading content; c2 = search_dir_heading content;
             best1 = (if search_unheading c1 = content \<and> smaller c1 content then c1 else content)
         in if search_dir_unheading c2 = content \<and> smaller c2 best1 then c2 else best1)
      else if kind = ''paths'' then
        (let candidate = path_heading content
         in if path_unheading candidate \<noteq> content then content
            else if smaller candidate content then candidate else content)
      else if kind = ''diff'' then
        (let candidate = diff_strip_index content in if smaller candidate content then candidate else content)
      else if kind = ''text'' then
        (let candidate = collapse_runs content
         in case expand_runs candidate of
              Inl e \<Rightarrow> content
            | Inr x \<Rightarrow> if x \<noteq> content then content else if smaller candidate content then candidate else content)
      else if kind = ''config'' then
        (let candidate = fold_repeated_blocks (collapse_runs content)
         in case unfold_repeated_blocks candidate of
              Inl e \<Rightarrow> content
            | Inr u \<Rightarrow>
               (case expand_runs u of
                  Inl e \<Rightarrow> content
                | Inr x \<Rightarrow> if x \<noteq> content then content else if smaller candidate content then candidate else content))
      else content)"

declare fold_loop.simps [simp del]

section \<open>Codecs on lines lift to texts\<close>

definition line_ok :: "string \<Rightarrow> bool" where
  "line_ok l = (NL \<notin> set l)"

lemma split_join_lines:
  assumes "ls \<noteq> []" "list_all line_ok ls" "\<not> tr \<longrightarrow> last ls \<noteq> []"
  shows "split_keep_trailing (join_lines ls tr) = (ls, tr)"
proof -
  have sp: "split_on NL (join_with [NL] ls) = ls"
    using assms(1,2) by (intro split_join) (auto simp: list_all_iff line_ok_def)
  show ?thesis
  proof (cases tr)
    case True
    with sp show ?thesis by (simp add: split_keep_trailing_def join_lines_def Let_def)
  next
    case False
    then have last: "last ls \<noteq> []" using assms(3) by simp
    have "\<exists>p. join_with [NL] ls = p @ last ls"
    proof (cases "butlast ls = []")
      case True
      then have "ls = [last ls]" using assms(1) by (metis append_Nil append_butlast_last_id)
      then show ?thesis by (metis append_Nil join_with.simps(2))
    next
      case False
      then show ?thesis
        using join_with_snoc [of "butlast ls" "[NL]" "last ls"] assms(1) by (metis append.assoc append_butlast_last_id)
    qed
    then obtain p where p: "join_with [NL] ls = p @ last ls" ..
    have "last (last ls) \<noteq> NL"
      using assms last by (metis last_in_set list_all_iff line_ok_def)
    then have "\<not> endswith (join_with [NL] ls) [NL]"
      using last by (simp add: endswith_single_iff p)
    with False sp last p show ?thesis by (simp add: split_keep_trailing_def join_lines_def Let_def)
  qed
qed

lemma split_keep_trailing_facts:
  assumes "text \<noteq> []" "split_keep_trailing text = (ls, tr)"
  shows "ls \<noteq> []" "list_all line_ok ls" "\<not> tr \<longrightarrow> last ls \<noteq> []" "join_lines ls tr = text"
proof -
  let ?body = "if endswith text [NL] then butlast text else text"
  have eq: "ls = split_on NL ?body" "tr = endswith text [NL]"
    using assms by (auto simp: split_keep_trailing_def Let_def)
  show "ls \<noteq> []" by (simp add: eq)
  show "list_all line_ok ls" using split_on_no_sep by (auto simp: eq(1) list_all_iff line_ok_def)
  have j: "join_with [NL] ls = ?body" by (simp only: eq(1) join_split)
  show "join_lines ls tr = text"
    using assms(1) by (auto simp: snoc_eq_iff_butlast join_lines_def j eq(2) endswith_single_iff)
  show "\<not> tr \<longrightarrow> last ls \<noteq> []"
  proof (intro impI notI)
    assume tr: "\<not> tr" and last: "last ls = []"
    then have tx: "join_with [NL] ls = text" using j eq by simp
    show False
    proof (cases "butlast ls = []")
      case True
      then have "ls = [[]]" using last \<open>ls \<noteq> []\<close> by (metis append_Nil append_butlast_last_id)
      with tx assms(1) show False by simp
    next
      case False
      then have "join_with [NL] (butlast ls) @ [NL] = text"
        using join_with_snoc [of "butlast ls" "[NL]" "[]"] last \<open>ls \<noteq> []\<close> tx
        by (metis append.right_neutral append_butlast_last_id)
      then have "endswith text [NL]" using endswith_snoc by metis
      with tr eq(2) show False by blast
    qed
  qed
qed

lemma split_keep_trailing_Nil [simp]: "split_keep_trailing [] = ([], False)"
  by (simp add: split_keep_trailing_def)

text \<open>
  What a fold and its inverse on lines promise: on \<open>good\<close> lines the inverse restores them, and the
  fold keeps the shape that lets the text be split again.
\<close>

locale line_codec =
  fixes enc :: "string list \<Rightarrow> string list"
    and dec :: "string list \<Rightarrow> py_error + string list"
    and good :: "string list \<Rightarrow> bool"
  assumes dec_enc: "good ls \<Longrightarrow> dec (enc ls) = Inr ls"
    and enc_nonempty: "ls \<noteq> [] \<Longrightarrow> enc ls \<noteq> []"
    and enc_line_ok: "list_all line_ok ls \<Longrightarrow> list_all line_ok (enc ls)"
    and enc_last: "ls \<noteq> [] \<Longrightarrow> last ls \<noteq> [] \<Longrightarrow> last (enc ls) \<noteq> []"
begin

lemma split_enc:
  assumes "split_keep_trailing text = (ls, tr)" "text \<noteq> []"
  shows "split_keep_trailing (join_lines (enc ls) tr) = (enc ls, tr)"
  using split_keep_trailing_facts [OF assms(2,1)] enc_nonempty enc_line_ok enc_last
  by (intro split_join_lines) auto

lemma text_roundtrip:
  assumes "good (fst (split_keep_trailing text))"
  shows "on_lines_err dec (on_lines enc text) = Inr text"
proof (cases "text = []")
  case True
  then show ?thesis by (simp add: on_lines_def on_lines_err_def)
next
  case False
  obtain ls tr where s: "split_keep_trailing text = (ls, tr)" by fastforce
  note f = split_keep_trailing_facts [OF False s]
  have "on_lines enc text = join_lines (enc ls) tr" using s f(1) by (simp add: on_lines_def)
  then show ?thesis
    using split_enc [OF s False] enc_nonempty [OF f(1)] dec_enc [of ls] assms s f(4)
    by (simp add: on_lines_err_def)
qed

end

lemma on_lines_pure: "on_lines_err (\<lambda>ls. Inr (f ls)) text = Inr (on_lines f text)"
  by (simp add: on_lines_def on_lines_err_def split: prod.splits)

section \<open>Run collapsing\<close>

lemma RUN_MARKER_run_marker [simp]: "RUN_MARKER_RE (run_marker n) = Some (nat_dec n)"
proof -
  have "digits_then (nat_dec n @ '' times)'') = Some (nat_dec n, '' times)'')"
    by (rule digits_then_append) (simp_all add: is_digit_def)
  then show ?thesis by (simp only: RUN_MARKER_RE_def run_marker_def after_append option.case prod.case) simp
qed

text \<open>Lines a run fold can be undone on: no line is itself a run marker.\<close>

definition no_run_marker :: "string list \<Rightarrow> bool" where
  "no_run_marker ls = (list_all (\<lambda>l. RUN_MARKER_RE l = None) ls \<and> length ls < 10 ^ INT_MAX_STR_DIGITS)"

lemma takeWhile_eq_replicate: "takeWhile (\<lambda>x. x = l) ls = replicate (length (takeWhile (\<lambda>x. x = l) ls)) l"
  by (induction ls) auto

lemma expand_single:
  assumes "ls = [] \<or> RUN_MARKER_RE (hd ls) = None" "expand_loop ls = Inr out"
  shows "expand_loop (l # ls) = Inr (l # out)"
  using assms by (cases ls) simp_all

lemma hd_collapse_loop: "ls \<noteq> [] \<Longrightarrow> collapse_loop ls \<noteq> [] \<and> hd (collapse_loop ls) = hd ls"
  by (cases ls) (auto simp: Let_def)

lemma collapse_loop_eq_Nil [simp]: "collapse_loop ls = [] \<longleftrightarrow> ls = []"
  using hd_collapse_loop by fastforce

lemma expand_collapse: "no_run_marker ls \<Longrightarrow> expand_loop (collapse_loop ls) = Inr ls"
proof (induction ls rule: collapse_loop.induct)
  case 1
  show ?case by simp
next
  case (2 l ls)
  let ?tw = "takeWhile (\<lambda>x. x = l) ls" and ?dw = "dropWhile (\<lambda>x. x = l) ls"
  have "length ?dw \<le> length ls" by (rule length_dropWhile_le)
  then have "no_run_marker ?dw"
    using "2.prems" by (auto simp: no_run_marker_def list_all_iff dest: set_dropWhileD)
  then have IH: "expand_loop (collapse_loop ?dw) = Inr ?dw" using "2.IH" by simp
  have nx: "collapse_loop ?dw = [] \<or> RUN_MARKER_RE (hd (collapse_loop ?dw)) = None"
  proof (cases ?dw)
    case (Cons x xs)
    then have "x \<in> set ls" by (metis list.set_intros(1) set_dropWhileD)
    then show ?thesis
      using hd_collapse_loop [of ?dw] Cons "2.prems" by (auto simp: no_run_marker_def list_all_iff)
  qed simp
  have ls: "ls = replicate (length ?tw) l @ ?dw"
    using takeWhile_eq_replicate [of l ls] by (metis takeWhile_dropWhile_id)
  show ?case
  proof (cases "?tw = []")
    case True
    then have "?dw = ls" using ls by (metis append_Nil takeWhile_dropWhile_id)
    with True show ?thesis using expand_single [OF nx IH] by (simp add: Let_def)
  next
    case False
    have "length ?tw \<le> length ls" by (rule length_takeWhile_le)
    then have n: "1 + length ?tw < 10 ^ INT_MAX_STR_DIGITS"
      using "2.prems" by (simp add: no_run_marker_def)
    have "collapse_loop (l # ls) = l # run_marker (1 + length ?tw) # collapse_loop ?dw"
      using False by (simp add: Let_def Suc_le_eq)
    moreover have "replicate (1 + length ?tw) l @ ?dw = l # ls" using ls by simp
    ultimately show ?thesis
      using IH int_of_digits_nat_dec [OF n] by (simp only: expand_loop.simps RUN_MARKER_run_marker option.case sum.case)
  qed
qed

lemma digits_line_ok: "list_all is_digit ds \<Longrightarrow> line_ok ds"
  by (auto simp: line_ok_def list_all_iff is_digit_def NL_def)

lemma line_ok_append [simp]: "line_ok (a @ b) \<longleftrightarrow> line_ok a \<and> line_ok b"
  by (simp add: line_ok_def)

lemma line_ok_nat_dec [simp]: "line_ok (nat_dec n)"
  by (simp add: digits_line_ok)

lemma line_ok_run_marker [simp]: "line_ok (run_marker n)"
  using line_ok_nat_dec [of n] by (simp add: run_marker_def line_ok_def NL_def)

lemma collapse_loop_elems: "x \<in> set (collapse_loop ls) \<Longrightarrow> x \<in> set ls \<or> (\<exists>n. x = run_marker n)"
  by (induction ls rule: collapse_loop.induct) (auto simp: Let_def dest: set_dropWhileD split: if_splits)

lemma collapse_loop_last: "ls \<noteq> [] \<Longrightarrow> last ls \<noteq> [] \<Longrightarrow> last (collapse_loop ls) \<noteq> []"
proof (induction ls rule: collapse_loop.induct)
  case (2 l ls)
  show ?case
  proof (cases "dropWhile (\<lambda>x. x = l) ls = []")
    case True
    then have "last (l # ls) = l" by (cases ls rule: rev_cases) (auto split: if_splits)
    with True "2.prems" show ?thesis by (simp add: Let_def run_marker_def)
  next
    case False
    then have "last (dropWhile (\<lambda>x. x = l) ls) = last (l # ls)"
      by (metis dropWhile.simps(1) last_ConsR last_appendR takeWhile_dropWhile_id)
    with False "2.IH" "2.prems" show ?thesis by (simp add: Let_def)
  qed
qed simp

interpretation runs: line_codec collapse_loop expand_loop no_run_marker
proof
  show "list_all line_ok (collapse_loop ls)" if "list_all line_ok ls" for ls
    using that by (auto simp: list_all_iff dest: collapse_loop_elems)
qed (simp_all add: expand_collapse collapse_loop_last)

section \<open>Block folding\<close>

lemma match_len_le: "match_len lines q i m \<le> m"
  by (induction lines q i m rule: match_len.induct) simp_all

lemma match_len_eq: "k < match_len lines q i m \<Longrightarrow> lines ! (q + k) = lines ! (i + k)"
proof (induction lines q i m arbitrary: k rule: match_len.induct)
  case (2 lines q i m)
  show ?case
  proof (cases k)
    case 0
    with 2 show ?thesis by (simp split: if_splits)
  next
    case (Suc j)
    with 2 show ?thesis by (simp split: if_splits)
  qed
qed simp

text \<open>A bk-reference that is right: it lies before \<open>i\<close>, does not overlap, and repeats the lines from \<open>i\<close>.\<close>

definition valid_ref :: "string list \<Rightarrow> nat \<Rightarrow> nat \<times> nat \<Rightarrow> bool" where
  "valid_ref lines i r =
     (case r of (len, bk) \<Rightarrow> len \<le> bk \<and> bk \<le> i \<and> i + len \<le> length lines
        \<and> (\<forall>k < len. lines ! (i - bk + k) = lines ! (i + k)))"

lemma try_candidate_valid:
  assumes "valid_ref lines i best"
  shows "valid_ref lines i (try_candidate lines i q best)"
proof -
  let ?m = "min FOLD_MAX_BLOCK (min (length lines - i) (i - q))"
  let ?len = "match_len lines q i ?m"
  have le: "?len \<le> length lines - i" "?len \<le> i - q" using match_len_le [of lines q i ?m] by simp_all
  have "lines ! (i - (i - q) + k) = lines ! (i + k)" if "k < ?len" for k
  proof -
    have "i - (i - q) = q" using le(2) that by linarith
    then show ?thesis using match_len_eq [OF that] by (simp only:)
  qed
  then have "valid_ref lines i (?len, i - q)" if "0 < ?len"
    unfolding valid_ref_def prod.case using le that by (intro conjI allI impI) (linarith | blast)+
  then show ?thesis using assms by (auto simp: try_candidate_def Let_def)
qed

lemma best_match_valid: "i \<le> length lines \<Longrightarrow> valid_ref lines i (best_match lines positions i)"
proof -
  assume "i \<le> length lines"
  then have "valid_ref lines i (0, 0)" by (simp add: valid_ref_def)
  then have "valid_ref lines i (fold (try_candidate lines i) qs (0, 0))" for qs
    by (induction qs rule: rev_induct) (simp_all add: try_candidate_valid)
  then show ?thesis by (simp add: best_match_def)
qed

lemma BLOCK_MARKER_block_marker [simp]: "BLOCK_MARKER_RE (block_marker len bk) = Some (nat_dec len, nat_dec bk)"
proof -
  have "digits_then (nat_dec len @ '' lines from '' @ nat_dec bk @ '' lines back)'')
      = Some (nat_dec len, '' lines from '' @ nat_dec bk @ '' lines back)'')"
    by (rule digits_then_append) (simp_all add: is_digit_def)
  moreover have "digits_then (nat_dec bk @ '' lines back)'') = Some (nat_dec bk, '' lines back)'')"
    by (rule digits_then_append) (simp_all add: is_digit_def)
  ultimately show ?thesis
    by (simp only: BLOCK_MARKER_RE_def block_marker_def after_append option.case prod.case if_True refl)
qed

lemma FOLD_MAX_LINES_small: "n \<le> FOLD_MAX_LINES \<Longrightarrow> n < 10 ^ INT_MAX_STR_DIGITS"
proof -
  assume "n \<le> FOLD_MAX_LINES"
  then have "n < 10 ^ 5" by (simp add: FOLD_MAX_LINES_def)
  also have "(10 :: nat) ^ 5 \<le> 10 ^ INT_MAX_STR_DIGITS"
    by (rule power_increasing) (simp_all add: INT_MAX_STR_DIGITS_def)
  finally show ?thesis .
qed

lemma take_ref:
  assumes "valid_ref lines i (len, bk)"
  shows "take i lines @ take len (drop (i - bk) (take i lines)) = take (i + len) lines"
proof -
  have "take len (drop (i - bk) (take i lines)) = take len (drop i lines)"
    using assms by (auto simp: valid_ref_def min_def list_eq_iff_nth_eq [of "take len (drop _ _)"])
  then show ?thesis by (simp add: take_add)
qed

lemma unfold_marker:
  assumes "valid_ref lines i (len, bk)" "length lines \<le> FOLD_MAX_LINES"
  shows "unfold_line (take i lines) (block_marker len bk) = Inr (take (i + len) lines)"
proof -
  have "len < 10 ^ INT_MAX_STR_DIGITS" "bk < 10 ^ INT_MAX_STR_DIGITS"
    using assms by (auto simp: valid_ref_def intro!: FOLD_MAX_LINES_small)
  then show ?thesis
    using assms(1) take_ref [OF assms(1)]
    by (auto simp: unfold_line_def int_of_digits_nat_dec valid_ref_def min_def)
qed

lemma unfold_plain: "BLOCK_MARKER_RE line = None \<Longrightarrow> unfold_line out line = Inr (out @ [line])"
  by (simp add: unfold_line_def)

lemma unfold_fold_loop:
  assumes "list_all (\<lambda>l. BLOCK_MARKER_RE l = None) lines" "length lines \<le> FOLD_MAX_LINES"
  shows "unfold_loop (take i lines) (fold_loop lines i positions) = Inr lines"
  using assms
proof (induction lines i positions rule: fold_loop.induct)
  case (1 lines i positions)
  show ?case
  proof (cases "i < length lines")
    case False
    then show ?thesis by (simp add: fold_loop.simps [of lines])
  next
    case True
    obtain len bk where b: "best_match lines positions i = (len, bk)" by fastforce
    have v: "valid_ref lines i (len, bk)" using best_match_valid [of i lines positions] True b by simp
    show ?thesis
    proof (cases "takes_fold lines i len bk")
      case tf: True
      with "1.IH"(1) [OF True] b unfold_marker [OF v] "1.prems" True show ?thesis
        by (simp add: fold_loop.simps [of lines i])
    next
      case tf: False
      have "take i lines @ [lines ! i] = take (i + 1) lines" using True by (simp add: take_Suc_conv_app_nth)
      with tf "1.IH"(2) [OF True] b "1.prems" True show ?thesis
        by (simp add: fold_loop.simps [of lines i] unfold_plain list_all_length)
    qed
  qed
qed

lemma fold_loop_elems: "x \<in> set (fold_loop lines i p) \<Longrightarrow> x \<in> set lines \<or> (\<exists>l d. x = block_marker l d)"
proof (induction lines i p rule: fold_loop.induct)
  case (1 lines i p)
  obtain len bk where b: "best_match lines p i = (len, bk)" by fastforce
  show ?case
  proof (cases "i < length lines")
    case True
    with 1 b show ?thesis
      by (cases "takes_fold lines i len bk") (auto simp: fold_loop.simps [of lines i])
  next
    case False
    with "1.prems" show ?thesis by (simp add: fold_loop.simps [of lines i])
  qed
qed

lemma fold_loop_last:
  "i < length lines \<Longrightarrow> last lines \<noteq> [] \<Longrightarrow> fold_loop lines i p \<noteq> [] \<and> last (fold_loop lines i p) \<noteq> []"
proof (induction lines i p rule: fold_loop.induct)
  case (1 lines i p)
  obtain len bk where b: "best_match lines p i = (len, bk)" by fastforce
  have fin: "fold_loop lines j q = []" if "\<not> j < length lines" for j q
    using that by (simp add: fold_loop.simps [of lines j])
  have "lines ! i = last lines" if "\<not> i + 1 < length lines"
    using 1(3) that by (metis Suc_eq_plus1 Suc_lessI diff_Suc_1 gr_implies_not0 last_conv_nth length_0_conv)
  with 1 b fin [of "i + len"] fin [of "i + 1"] show ?case
    by (cases "takes_fold lines i len bk"; cases "i + len < length lines"; cases "i + 1 < length lines")
       (auto simp: fold_loop.simps [of lines i] block_marker_def)
qed

definition fold_lines :: "string list \<Rightarrow> string list" where
  "fold_lines ls = (if length ls < FOLD_MIN_BLOCK * 2 \<or> FOLD_MAX_LINES < length ls then ls else fold_loop ls 0 [])"

definition no_block_marker :: "string list \<Rightarrow> bool" where
  "no_block_marker ls = list_all (\<lambda>l. BLOCK_MARKER_RE l = None) ls"

lemma unfold_loop_plain: "no_block_marker ls \<Longrightarrow> unfold_loop out ls = Inr (out @ ls)"
  by (induction ls arbitrary: out) (simp_all add: no_block_marker_def unfold_plain)

lemma line_ok_block_marker [simp]: "line_ok (block_marker n d)"
  using line_ok_nat_dec [of n] line_ok_nat_dec [of d] by (simp add: block_marker_def line_ok_def NL_def)

interpretation blocks: line_codec fold_lines "unfold_loop []" no_block_marker
proof
  fix ls :: "string list"
  show "unfold_loop [] (fold_lines ls) = Inr ls" if "no_block_marker ls"
    using that unfold_fold_loop [of ls 0 "[]"] unfold_loop_plain [OF that, of "[]"]
    by (auto simp: fold_lines_def no_block_marker_def)
  show "fold_lines ls \<noteq> []" if "ls \<noteq> []"
    using that by (auto simp: fold_lines_def fold_loop.simps [of ls 0] split: prod.splits)
  show "list_all line_ok (fold_lines ls)" if "list_all line_ok ls"
    using that by (auto simp: fold_lines_def list_all_iff dest!: fold_loop_elems)
  show "last (fold_lines ls) \<noteq> []" if "ls \<noteq> []" "last ls \<noteq> []"
    using that fold_loop_last [of 0 ls "[]"] by (simp add: fold_lines_def)
qed

lemma on_lines_id: "on_lines (\<lambda>ls. ls) text = text"
proof (cases "text = []")
  case False
  obtain ls tr where s: "split_keep_trailing text = (ls, tr)" by fastforce
  with split_keep_trailing_facts [OF False s] show ?thesis by (simp add: on_lines_def)
qed (simp add: on_lines_def)

lemma on_lines_eq_text:
  "split_keep_trailing text = (ls, tr) \<Longrightarrow> join_lines ls tr = text \<or> ls = []"
  by (cases "text = []") (auto dest: split_keep_trailing_facts)

lemma fold_repeated_blocks_eq: "fold_repeated_blocks text = on_lines fold_lines text"
proof -
  obtain ls tr where s: "split_keep_trailing text = (ls, tr)" by fastforce
  with on_lines_eq_text [OF s] show ?thesis
    by (auto simp: fold_repeated_blocks_def on_lines_def fold_lines_def FOLD_MIN_BLOCK_def)
qed

section \<open>Heading folds\<close>

text \<open>
  The three heading folds are one scheme: \<open>row\<close> splits a line into header and data row, a data row
  is recognised by \<open>data\<close>, and \<open>unrow\<close> puts the header back. A line the fold can be undone on is one
  whose split gives a recognisable row, or one that is passed through and is not itself a data row.
\<close>

locale heading_codec =
  fixes fwd bwd :: "string option \<Rightarrow> string list \<Rightarrow> string list"
    and row :: "string \<Rightarrow> (string \<times> string) option"
    and unrow :: "string \<Rightarrow> string \<Rightarrow> string"
    and data hdr ok :: "string \<Rightarrow> bool"
  assumes fwd_Nil: "fwd cur [] = []"
    and fwd_row: "row l = Some (h, r) \<Longrightarrow> fwd cur (l # ls) = (if Some h \<noteq> cur then [h] else []) @ [r] @ fwd (Some h) ls"
    and fwd_pass: "row l = None \<Longrightarrow> fwd cur (l # ls) = l # fwd None ls"
    and bwd_Nil: "bwd cur [] = []"
    and bwd_data: "data l \<Longrightarrow> bwd (Some h) (l # ls) = unrow h l # bwd (Some h) ls"
    and bwd_hdr: "\<not> data l \<Longrightarrow> hdr l \<Longrightarrow> data m \<Longrightarrow> bwd cur (l # m # ls) = bwd (Some l) (m # ls)"
    and bwd_pass: "\<not> data l \<Longrightarrow> ls = [] \<or> \<not> data (hd ls) \<Longrightarrow> bwd cur (l # ls) = l # bwd None ls"
    and row_ok: "row l = Some (h, r) \<Longrightarrow> ok l \<Longrightarrow> data r \<and> unrow h r = l \<and> hdr h \<and> \<not> data h"
    and pass_ok: "row l = None \<Longrightarrow> ok l \<Longrightarrow> \<not> data l"
    and row_line_ok: "row l = Some (h, r) \<Longrightarrow> line_ok l \<Longrightarrow> line_ok h \<and> line_ok r"
    and row_nonempty: "row l = Some (h, r) \<Longrightarrow> r \<noteq> []"
begin

lemma fwd_eq_Nil: "fwd cur ls = [] \<longleftrightarrow> ls = []"
proof (cases ls)
  case (Cons l m)
  then show ?thesis by (cases "row l") (auto simp: fwd_row fwd_pass)
qed (simp add: fwd_Nil)

lemma fwd_fresh_hd: "list_all ok ls \<Longrightarrow> fwd None ls = [] \<or> \<not> data (hd (fwd None ls))"
proof (cases ls)
  case (Cons l m)
  moreover assume "list_all ok ls"
  ultimately show ?thesis by (cases "row l") (auto simp: fwd_row fwd_pass row_ok pass_ok)
qed (simp add: fwd_Nil)

lemma bwd_fwd: "list_all ok ls \<Longrightarrow> bwd cur (fwd cur ls) = ls"
proof (induction ls arbitrary: cur)
  case Nil
  show ?case by (simp add: fwd_Nil bwd_Nil)
next
  case (Cons l ls)
  show ?case
  proof (cases "row l")
    case None
    with Cons show ?thesis
      using bwd_pass [of l "fwd None ls" cur] fwd_fresh_hd [of ls] pass_ok [of l] by (simp add: fwd_pass)
  next
    case (Some x)
    then obtain h r where x: "row l = Some (h, r)" by (cases x) simp
    with Cons show ?thesis
      using row_ok [of l h r] by (cases "Some h = cur") (auto simp: fwd_row bwd_data bwd_hdr)
  qed
qed

lemma fwd_line_ok: "list_all line_ok ls \<Longrightarrow> list_all line_ok (fwd cur ls)"
proof (induction ls arbitrary: cur)
  case (Cons l ls)
  then show ?case
    using row_line_ok [of l] by (cases "row l") (auto simp: fwd_row fwd_pass)
qed (simp add: fwd_Nil)

lemma fwd_last: "ls \<noteq> [] \<Longrightarrow> last ls \<noteq> [] \<Longrightarrow> last (fwd cur ls) \<noteq> []"
proof (induction ls arbitrary: cur)
  case (Cons l ls)
  show ?case
  proof (cases "row l")
    case None
    with Cons show ?thesis by (cases "ls = []") (auto simp: fwd_pass fwd_Nil fwd_eq_Nil)
  next
    case (Some x)
    then obtain h r where x: "row l = Some (h, r)" by (cases x) simp
    with Cons show ?thesis using row_nonempty [of l h r] by (cases "ls = []") (auto simp: fwd_row fwd_Nil fwd_eq_Nil)
  qed
qed simp

end

sublocale heading_codec \<subseteq> lc: line_codec "fwd None" "\<lambda>ls. Inr (bwd None ls)" "list_all ok"
  by unfold_locales (simp_all add: bwd_fwd fwd_eq_Nil fwd_line_ok fwd_last)

lemma HEADING_ROW_Some:
  "HEADING_ROW_RE l = Some (ds, c) \<longleftrightarrow> l = ds @ CHR '':'' # c \<and> list_all is_digit ds \<and> ds \<noteq> []"
proof
  assume "HEADING_ROW_RE l = Some (ds, c)"
  then show "l = ds @ CHR '':'' # c \<and> list_all is_digit ds \<and> ds \<noteq> []"
    by (auto simp: HEADING_ROW_RE_def split: option.splits list.splits if_splits dest!: digits_then_Some)
next
  assume a: "l = ds @ CHR '':'' # c \<and> list_all is_digit ds \<and> ds \<noteq> []"
  then have "digits_then l = Some (ds, CHR '':'' # c)"
    using digits_then_append [of ds "CHR '':'' # c"] by (simp add: is_digit_def)
  then show "HEADING_ROW_RE l = Some (ds, c)" by (simp add: HEADING_ROW_RE_def)
qed

lemma HEADING_ROW_colon: "HEADING_ROW_RE l \<noteq> None \<Longrightarrow> CHR '':'' \<in> set l"
  by (cases "HEADING_ROW_RE l") (auto simp: HEADING_ROW_Some)

lemma colon_takeWhile: "CHR '':'' \<notin> set p \<Longrightarrow>
    takeWhile (\<lambda>c. c \<noteq> CHR '':'') (p @ CHR '':'' # r) = p \<and> dropWhile (\<lambda>c. c \<noteq> CHR '':'') (p @ CHR '':'' # r) = CHR '':'' # r"
  by (induction p) auto

lemma GREP_ROW_Some:
  "GREP_ROW_RE l = Some (p, ds, c) \<longleftrightarrow>
     (\<exists>r. l = p @ CHR '':'' # r \<and> HEADING_ROW_RE r = Some (ds, c)) \<and> p \<noteq> [] \<and> CHR '':'' \<notin> set p"
proof
  let ?P = "\<lambda>c. c \<noteq> CHR '':''"
  assume a: "GREP_ROW_RE l = Some (p, ds, c)"
  then obtain x r where d: "dropWhile ?P l = x # r" "HEADING_ROW_RE r = Some (ds, c)" "p = takeWhile ?P l" "p \<noteq> []"
    by (auto simp: GREP_ROW_RE_def Let_def split: if_splits list.splits option.splits)
  have "x = CHR '':''" using hd_dropWhile [of ?P l] d(1) by simp
  moreover have "l = p @ x # r" using d(1,3) by (metis takeWhile_dropWhile_id)
  moreover have "CHR '':'' \<notin> set p" using d(3) by (auto dest: set_takeWhileD)
  ultimately show "(\<exists>r. l = p @ CHR '':'' # r \<and> HEADING_ROW_RE r = Some (ds, c)) \<and> p \<noteq> [] \<and> CHR '':'' \<notin> set p"
    using d by blast
qed (auto simp: GREP_ROW_RE_def Let_def colon_takeWhile)

lemma GREP_ROW_colon: "GREP_ROW_RE l \<noteq> None \<Longrightarrow> CHR '':'' \<in> set l"
  by (cases "GREP_ROW_RE l") (auto simp: GREP_ROW_Some)

subsection \<open>By file\<close>

definition search_row :: "string \<Rightarrow> (string \<times> string) option" where
  "search_row l = (case GREP_ROW_RE l of None \<Rightarrow> None | Some (p, ds, c) \<Rightarrow> Some (p, ds @ '':'' @ c))"

definition heading_ok :: "string \<Rightarrow> bool" where
  "heading_ok l = (HEADING_ROW_RE l = None)"

lemma search_row_Some:
  "search_row l = Some (h, r) \<Longrightarrow> l = h @ '':'' @ r \<and> HEADING_ROW_RE r \<noteq> None \<and> CHR '':'' \<notin> set h \<and> r \<noteq> []"
  by (auto simp: search_row_def GREP_ROW_Some HEADING_ROW_Some split: option.splits)

interpretation files: heading_codec search_heading_loop search_unheading_loop search_row
  "\<lambda>h r. h @ '':'' @ r" "\<lambda>l. HEADING_ROW_RE l \<noteq> None" "\<lambda>_. True" heading_ok
proof
  fix cur :: "string option" and l h r m :: string and ls :: "string list"
  show "search_heading_loop cur (l # ls) = (if Some h \<noteq> cur then [h] else []) @ [r] @ search_heading_loop (Some h) ls"
    if "search_row l = Some (h, r)"
    using that by (auto simp: search_row_def split: option.splits)
  show "search_heading_loop cur (l # ls) = l # search_heading_loop None ls" if "search_row l = None"
    using that by (auto simp: search_row_def split: option.splits)
  show "search_unheading_loop (Some h) (l # ls) = (h @ '':'' @ l) # search_unheading_loop (Some h) ls"
    if "HEADING_ROW_RE l \<noteq> None"
  proof -
    from that obtain ds c where "HEADING_ROW_RE l = Some (ds, c)" by auto
    then show ?thesis using HEADING_ROW_Some [of l ds c] by simp
  qed
  show "HEADING_ROW_RE r \<noteq> None \<and> h @ '':'' @ r = l \<and> True \<and> \<not> HEADING_ROW_RE h \<noteq> None"
    if "search_row l = Some (h, r)"
    using search_row_Some [OF that] HEADING_ROW_colon [of h] by auto
  show "line_ok h \<and> line_ok r" if "search_row l = Some (h, r)" "line_ok l"
    using search_row_Some [OF that(1)] that(2) by (auto simp: line_ok_def)
  show "r \<noteq> []" if "search_row l = Some (h, r)"
    using search_row_Some [OF that] by simp
qed (auto simp: heading_ok_def split: option.splits)

subsection \<open>By directory\<close>

lemma rsplit_dir_facts:
  assumes "rsplit_dir p = (d, b)"
  shows "p = d @ b" "CHR ''/'' \<notin> set b" "CHR ''/'' \<in> set p \<Longrightarrow> endswith d ''/''"
    "b = [] \<Longrightarrow> CHR ''/'' \<in> set p \<Longrightarrow> endswith p ''/''"
proof -
  let ?P = "\<lambda>c. c \<noteq> CHR ''/''"
  have b: "b = rev (takeWhile ?P (rev p))" and "d = take (length p - length b) p"
    using assms by (auto simp: rsplit_dir_def Let_def)
  moreover have p: "p = rev (dropWhile ?P (rev p)) @ b"
    by (metis b rev_append rev_rev_ident takeWhile_dropWhile_id)
  ultimately have d: "d = rev (dropWhile ?P (rev p))"
    by (metis append_eq_conv_conj diff_add_inverse2 length_append)
  show p': "p = d @ b" using p d by simp
  show "CHR ''/'' \<notin> set b" by (auto simp: b dest: set_takeWhileD)
  show e: "endswith d ''/''" if "CHR ''/'' \<in> set p"
  proof -
    have ne: "dropWhile ?P (rev p) \<noteq> []" using that by (auto simp: dropWhile_eq_Nil_conv)
    then have "hd (dropWhile ?P (rev p)) = CHR ''/''" using hd_dropWhile by blast
    with ne show ?thesis by (simp add: d endswith_single_iff last_rev)
  qed
  show "endswith p ''/''" if "b = []" "CHR ''/'' \<in> set p"
    using e [OF that(2)] p' that(1) by simp
qed

definition dir_row :: "string \<Rightarrow> (string \<times> string) option" where
  "dir_row l = (case GREP_ROW_RE l of None \<Rightarrow> None | Some (p, ds, c) \<Rightarrow>
     if CHR ''/'' \<in> set p then (case rsplit_dir p of (d, b) \<Rightarrow> Some (d, b @ '':'' @ ds @ '':'' @ c)) else None)"

definition dir_heading_ok :: "string \<Rightarrow> bool" where
  "dir_heading_ok l =
     (case GREP_ROW_RE l of None \<Rightarrow> True | Some (p, ds, c) \<Rightarrow> CHR ''/'' \<in> set p \<and> \<not> endswith p ''/'')"

lemma dir_row_Some:
  assumes "dir_row l = Some (h, r)"
  shows "l = h @ r" "endswith h ''/''" "CHR '':'' \<notin> set h" "r \<noteq> []" "dir_heading_ok l \<Longrightarrow> DIR_DATA_RE r"
proof -
  obtain p ds c d b where g: "GREP_ROW_RE l = Some (p, ds, c)" and s: "CHR ''/'' \<in> set p"
    and rs: "rsplit_dir p = (d, b)" and hr: "h = d" "r = b @ '':'' @ ds @ '':'' @ c"
    using assms by (auto simp: dir_row_def split: option.splits if_splits prod.splits)
  note f = rsplit_dir_facts [OF rs]
  obtain x where x: "l = p @ CHR '':'' # x" "HEADING_ROW_RE x = Some (ds, c)" "CHR '':'' \<notin> set p"
    using g by (auto simp: GREP_ROW_Some)
  then have x2: "x = ds @ '':'' @ c" by (simp add: HEADING_ROW_Some)
  show "l = h @ r" by (simp add: x hr f(1) x2)
  show "endswith h ''/''" using f(3) s hr by simp
  show "CHR '':'' \<notin> set h" using x(3) f(1) hr by simp
  show "r \<noteq> []" by (simp add: hr)
  show "DIR_DATA_RE r" if "dir_heading_ok l"
  proof -
    have "b \<noteq> []" using that f(4) s by (auto simp: dir_heading_ok_def g)
    then have "GREP_ROW_RE r = Some (b, ds, c)"
      using x x2 f(1) by (auto simp: GREP_ROW_Some hr)
    then show ?thesis using f(2) by (simp add: DIR_DATA_RE_def)
  qed
qed

lemma DIR_DATA_colon: "DIR_DATA_RE l \<Longrightarrow> CHR '':'' \<in> set l"
  using GREP_ROW_colon [of l] by (auto simp: DIR_DATA_RE_def split: option.splits)

interpretation dirs: heading_codec search_dir_heading_loop search_dir_unheading_loop dir_row
  "\<lambda>h r. h @ r" DIR_DATA_RE "\<lambda>l. endswith l ''/''" dir_heading_ok
proof
  fix cur :: "string option" and l h r m :: string and ls :: "string list"
  show "search_dir_heading_loop cur (l # ls) = (if Some h \<noteq> cur then [h] else []) @ [r] @ search_dir_heading_loop (Some h) ls"
    if "dir_row l = Some (h, r)"
    using that by (auto simp: dir_row_def split: option.splits if_splits prod.splits)
  show "search_dir_heading_loop cur (l # ls) = l # search_dir_heading_loop None ls" if "dir_row l = None"
    using that by (auto simp: dir_row_def split: option.splits if_splits prod.splits)
  show "DIR_DATA_RE r \<and> h @ r = l \<and> endswith h ''/'' \<and> \<not> DIR_DATA_RE h"
    if "dir_row l = Some (h, r)" "dir_heading_ok l"
    using dir_row_Some [OF that(1)] that(2) DIR_DATA_colon [of h] by blast
  show "\<not> DIR_DATA_RE l" if "dir_row l = None" "dir_heading_ok l"
    using that by (auto simp: dir_row_def dir_heading_ok_def DIR_DATA_RE_def split: option.splits if_splits prod.splits)
  show "line_ok h \<and> line_ok r" if "dir_row l = Some (h, r)" "line_ok l"
    using dir_row_Some [OF that(1)] that(2) by simp
  show "r \<noteq> []" if "dir_row l = Some (h, r)"
    using dir_row_Some [OF that] by simp
qed auto

subsection \<open>Path listings\<close>

definition path_ok :: "string \<Rightarrow> bool" where
  "path_ok l = (l = [] \<or> CHR ''/'' \<in> set l)"

lemma PATH_ROW_Some:
  assumes "PATH_ROW_RE l = Some (h, r)"
  shows "l = h @ r" "endswith h ''/''" "is_base r"
proof -
  let ?segs = "split_on (CHR ''/'') l"
  have d: "butlast ?segs \<noteq> []" "last ?segs \<noteq> []" "h = join_with ''/'' (butlast ?segs) @ ''/''" "r = last ?segs"
    using assms by (auto simp: PATH_ROW_RE_def Let_def split: if_splits)
  have "join_with ''/'' (butlast ?segs @ [last ?segs]) = l"
    by (simp only: append_butlast_last_id [OF split_on_nonempty] join_split)
  then show "l = h @ r" using join_with_snoc [OF d(1), of "''/''" "last ?segs"] d(3,4) by simp
  show "endswith h ''/''" by (simp add: d(3))
  have "CHR ''/'' \<notin> set r" using split_on_no_sep [of r "CHR ''/''" l] d(4) by simp
  with d(2,4) show "is_base r" by (simp add: is_base_def)
qed

interpretation listing: heading_codec path_heading_loop path_unheading_loop PATH_ROW_RE
  "\<lambda>h r. h @ r" is_base "\<lambda>l. endswith l ''/''" path_ok
proof
  fix cur :: "string option" and l h r m :: string and ls :: "string list"
  show "is_base r \<and> h @ r = l \<and> endswith h ''/'' \<and> \<not> is_base h" if "PATH_ROW_RE l = Some (h, r)"
    using PATH_ROW_Some [OF that] last_in_set [of h] by (auto simp: is_base_def endswith_single_iff)
  show "line_ok h \<and> line_ok r" if "PATH_ROW_RE l = Some (h, r)" "line_ok l"
    using PATH_ROW_Some [OF that(1)] that(2) by simp
  show "r \<noteq> []" if "PATH_ROW_RE l = Some (h, r)"
    using PATH_ROW_Some [OF that] by (simp add: is_base_def)
qed (auto simp: path_ok_def is_base_def)

definition path_lines :: "string list \<Rightarrow> string list" where
  "path_lines ls = (if length (filter (\<lambda>ln. PATH_ROW_RE ln \<noteq> None) ls) < 2 then ls else path_heading_loop None ls)"

lemma path_unheading_plain: "list_all path_ok ls \<Longrightarrow> path_unheading_loop None ls = ls"
proof (induction ls)
  case (Cons l ls)
  then show ?case by (cases ls) (auto simp: path_ok_def is_base_def)
qed simp

interpretation paths: line_codec path_lines "\<lambda>ls. Inr (path_unheading_loop None ls)" "list_all path_ok"
  using listing.lc.line_codec_axioms
  by (simp add: line_codec_def path_lines_def path_unheading_plain)

lemma path_heading_eq: "path_heading text = on_lines path_lines text"
proof -
  obtain ls tr where s: "split_keep_trailing text = (ls, tr)" by fastforce
  with on_lines_eq_text [OF s] show ?thesis
    by (auto simp: path_heading_def on_lines_def path_lines_def)
qed

section \<open>Properties\<close>

abbreviation lines_of :: "string \<Rightarrow> string list" where
  "lines_of s \<equiv> fst (split_keep_trailing s)"

lemma runs_roundtrip_aux: "no_run_marker (lines_of s) \<Longrightarrow> expand_runs (collapse_runs s) = Inr s"
  unfolding expand_runs_def collapse_runs_def by (rule runs.text_roundtrip)

lemma lines_collapse_runs: "lines_of (collapse_runs s) = collapse_loop (lines_of s)"
proof (cases "s = []")
  case False
  obtain ls tr where s: "split_keep_trailing s = (ls, tr)" by fastforce
  with runs.split_enc [OF s False] split_keep_trailing_facts(1) [OF False s] show ?thesis
    by (simp add: collapse_runs_def on_lines_def)
qed (simp add: collapse_runs_def on_lines_def)

lemma run_marker_no_block: "BLOCK_MARKER_RE (run_marker n) = None"
  by (simp add: BLOCK_MARKER_RE_def run_marker_def after_def startswith_def)

lemma no_block_marker_collapse: "no_block_marker ls \<Longrightarrow> no_block_marker (collapse_loop ls)"
  using run_marker_no_block by (auto simp: no_block_marker_def list_all_iff dest!: collapse_loop_elems)

definition sample_log :: string where
  "sample_log = join_with [NL] [''a'', ''a'', ''a'', ''b'', []]"

lemma sample_log_lines: "split_keep_trailing sample_log = ([''a'', ''a'', ''a'', ''b''], True)"
  by (simp add: sample_log_def split_keep_trailing_def str_eval)

text \<open>\<open>expand_runs\<close> is the exact inverse of \<open>collapse_runs\<close>: on every text none of whose lines is itself
  a run marker (and with fewer lines than a 4300-digit number, beyond which \<open>int\<close> refuses the
  count) expanding the collapsed text succeeds and gives the text back, character for character,
  with or without a final newline.\<close>
theorem runs_roundtrip:
  assumes "list_all (\<lambda>l. RUN_MARKER_RE l = None) (fst (split_keep_trailing content))"
    and "length (fst (split_keep_trailing content)) < 10 ^ INT_MAX_STR_DIGITS"
  shows "expand_runs (collapse_runs content) = Inr content"
  using assms by (intro runs_roundtrip_aux) (simp add: no_run_marker_def)

theorem runs_roundtrip_witness: "expand_runs (collapse_runs sample_log) = Inr sample_log"
  using FOLD_MAX_LINES_small [of 4]
  by (intro runs_roundtrip) (simp_all add: sample_log_lines RUN_MARKER_RE_def after_def str_eval FOLD_MAX_LINES_def)

text \<open>C19: folding repeated blocks is undone exactly by unfolding: on every text none of whose lines is a
  block marker, whatever blocks the search finds (any anchor it remembers, any length from 3 to 64),
  \<open>unfold_repeated_blocks\<close> after \<open>fold_repeated_blocks\<close> succeeds and restores the text.\<close>
theorem blocks_roundtrip:
  assumes "list_all (\<lambda>l. BLOCK_MARKER_RE l = None) (fst (split_keep_trailing content))"
  shows "unfold_repeated_blocks (fold_repeated_blocks content) = Inr content"
  unfolding fold_repeated_blocks_eq unfold_repeated_blocks_def
  using assms by (intro blocks.text_roundtrip) (simp add: no_block_marker_def)

theorem blocks_roundtrip_witness: "unfold_repeated_blocks (fold_repeated_blocks sample_log) = Inr sample_log"
  by (rule blocks_roundtrip) (simp add: sample_log_lines BLOCK_MARKER_RE_def after_def str_eval)

text \<open>the three heading folds are undone exactly by their inverses, on texts of the shape they are
  for: the file fold when no line reads \<open>digits:content\<close>; the directory fold when every grep row has a
  path with a directory and a file name; the path-list fold when every line is blank or has a slash.\<close>
theorem headings_roundtrip:
  "(list_all (\<lambda>l. HEADING_ROW_RE l = None) (fst (split_keep_trailing content)) \<longrightarrow>
      search_unheading (search_heading content) = content)
   \<and> (list_all dir_heading_ok (fst (split_keep_trailing content)) \<longrightarrow>
      search_dir_unheading (search_dir_heading content) = content)
   \<and> (list_all (\<lambda>l. l = [] \<or> CHR ''/'' \<in> set l) (fst (split_keep_trailing content)) \<longrightarrow>
      path_unheading (path_heading content) = content)"
proof (intro conjI impI)
  assume "list_all (\<lambda>l. HEADING_ROW_RE l = None) (lines_of content)"
  then show "search_unheading (search_heading content) = content"
    using files.lc.text_roundtrip [of content]
    by (simp add: search_heading_def search_unheading_def on_lines_pure heading_ok_def [abs_def])
next
  assume "list_all dir_heading_ok (lines_of content)"
  then show "search_dir_unheading (search_dir_heading content) = content"
    using dirs.lc.text_roundtrip [of content]
    by (simp add: search_dir_heading_def search_dir_unheading_def on_lines_pure)
next
  assume "list_all (\<lambda>l. l = [] \<or> CHR ''/'' \<in> set l) (lines_of content)"
  then show "path_unheading (path_heading content) = content"
    using paths.text_roundtrip [of content]
    by (simp add: path_heading_eq path_unheading_def on_lines_pure path_ok_def [abs_def])
qed

theorem headings_roundtrip_witness:
  "path_unheading (path_heading (''src/a'' @ [NL] @ ''src/b'')) = ''src/a'' @ [NL] @ ''src/b''"
  using headings_roundtrip [of "''src/a'' @ [NL] @ ''src/b''"]
  by (simp add: split_keep_trailing_def str_eval)

text \<open>for every content and every kind, \<open>compact_lossless\<close> returns (it never raises, over-long counts
  in forged markers included) either the content or a strictly shorter text from which the kind's
  inverse recovers it: exactly for \<open>search\<close>, \<open>paths\<close>, \<open>text\<close> and \<open>config\<close>, up to the colour codes
  for \<open>log\<close>; for \<open>diff\<close> the result is the diff without its \<open>index\<close> lines. Unknown kinds pass through.\<close>
theorem compact_lossless_recoverable:
  "let r = compact_lossless content kind in
     r = content
     \<or> length r < length content
       \<and> (kind = ''log'' \<and> expand_runs r = Inr (strip_ansi content)
          \<or> kind = ''search'' \<and> (search_unheading r = content \<or> search_dir_unheading r = content)
          \<or> kind = ''paths'' \<and> path_unheading r = content
          \<or> kind = ''diff'' \<and> r = diff_strip_index content
          \<or> kind = ''text'' \<and> expand_runs r = Inr content
          \<or> kind = ''config'' \<and> (\<exists>u. unfold_repeated_blocks r = Inr u \<and> expand_runs u = Inr content))"
  by (auto simp: compact_lossless_def Let_def smaller_def split: sum.splits if_splits)

text \<open>the self-check never discards a compaction needlessly: on content without marker-like lines the
  \<open>text\<close> kind yields the collapsed runs, and the \<open>config\<close> kind the block fold of the collapsed
  runs, whenever that is shorter than the content.\<close>
theorem compact_lossless_applies:
  assumes "list_all (\<lambda>l. RUN_MARKER_RE l = None \<and> BLOCK_MARKER_RE l = None) (fst (split_keep_trailing content))"
    and "length (fst (split_keep_trailing content)) < 10 ^ INT_MAX_STR_DIGITS"
  shows "compact_lossless content ''text'' =
      (if length (collapse_runs content) < length content then collapse_runs content else content)
    \<and> compact_lossless content ''config'' =
      (if length (fold_repeated_blocks (collapse_runs content)) < length content
       then fold_repeated_blocks (collapse_runs content) else content)"
proof -
  have "no_run_marker (lines_of content)" "no_block_marker (lines_of content)"
    using assms by (auto simp: no_run_marker_def no_block_marker_def list_all_iff)
  then have "expand_runs (collapse_runs content) = Inr content"
    and "no_block_marker (lines_of (collapse_runs content))"
    by (simp_all add: runs_roundtrip_aux lines_collapse_runs no_block_marker_collapse)
  moreover from this(2) have "unfold_repeated_blocks (fold_repeated_blocks (collapse_runs content)) = Inr (collapse_runs content)"
    unfolding fold_repeated_blocks_eq unfold_repeated_blocks_def by (rule blocks.text_roundtrip)
  ultimately show ?thesis
    by (cases "content = []") (simp_all add: compact_lossless_def smaller_def Let_def)
qed

definition sample_line :: string where
  "sample_line = ''connection refused, retrying in a moment''"

definition sample_long_log :: string where
  "sample_long_log = sample_line @ [NL] @ sample_line"

lemma sample_line_facts:
  "line_ok sample_line" "sample_line \<noteq> []" "length sample_line = 40"
  "RUN_MARKER_RE sample_line = None" "BLOCK_MARKER_RE sample_line = None"
  by (simp_all add: sample_line_def line_ok_def NL_def RUN_MARKER_RE_def BLOCK_MARKER_RE_def after_def startswith_def)

lemma sample_long_log_lines: "split_keep_trailing sample_long_log = ([sample_line, sample_line], False)"
  using split_join_lines [of "[sample_line, sample_line]" False] sample_line_facts
  by (simp add: sample_long_log_def join_lines_def)

theorem compact_lossless_applies_witness:
  "compact_lossless sample_long_log ''text'' = sample_line @ [NL] @ ''... (repeated 2 times)''"
proof -
  have "collapse_runs sample_long_log = sample_line @ [NL] @ ''... (repeated 2 times)''"
    by (simp add: collapse_runs_def on_lines_def sample_long_log_lines join_lines_def run_marker_def
        nat_dec.simps digit_char_def char_of_eq_iff)
  moreover have "length sample_long_log = 81"
    by (simp add: sample_long_log_def sample_line_facts)
  ultimately show ?thesis
    using compact_lossless_applies [of sample_long_log] FOLD_MAX_LINES_small [of 2]
    by (simp add: sample_long_log_lines sample_line_facts FOLD_MAX_LINES_def numeral_2_eq_2)
qed

end
