(* ===== verification/Cross_Turn_Dedup.thy ===== *)
theory Cross_Turn_Dedup
  imports Py_Text
begin

text \<open>
  Cross-turn de-duplication (\<open>headroom/transforms/cross_turn_dedup.py\<close>): spans of a later tool
  output that occur, up to a uniform shift of leading line numbers, in an earlier one become
  pointers to it.

  A loop over a line index is a recursion over the remaining lines. The inner loop of
  \<open>dedup_blocks\<close> appends to \<open>out\<close> and \<open>verbatim\<close> in step; here it produces one list of items
  (\<open>Keep\<close> a line, \<open>Fold\<close> a span), and \<open>item_out\<close> and \<open>item_verbatim\<close> give what the code appends
  for each. \<open>int(digits)\<close> raises \<open>ValueError\<close> above CPython's limit of 4300 digits, which the
  handler in \<open>dedup_blocks\<close> turns into the unchanged input. The arrow U+2191 of a pointer, beyond the
  range of \<open>char\<close>, is \<open>CHR 0x18\<close>.
\<close>

section \<open>Line numbers\<close>

text \<open>\<open>_LINENO_RE\<close>: a numeral without leading zero, then a colon or a tab.\<close>

definition LINENO_RE :: "string \<Rightarrow> (string \<times> string) option" where
  "LINENO_RE line =
     (let ds = takeWhile is_digit line; r = dropWhile is_digit line
      in if ds \<noteq> [] \<and> hd ds \<noteq> CHR ''0'' \<and> r \<noteq> [] \<and> (hd r = CHR '':'' \<or> hd r = TAB) then Some (ds, r) else None)"

definition num_and_key :: "string \<Rightarrow> py_error + (nat option \<times> string \<times> string)" where
  "num_and_key line =
     (case LINENO_RE line of
        None \<Rightarrow> Inr (None, line, line)
      | Some (ds, r) \<Rightarrow> (case int_of_digits ds of Inl e \<Rightarrow> Inl e | Inr n \<Rightarrow> Inr (Some n, r, tl r)))"

record DedupBlock =
  db_text :: string
  db_turn :: int
  db_protected :: bool

definition DEFAULT_MIN_LINES :: int where
  "DEFAULT_MIN_LINES = 3"

definition DEFAULT_MIN_CHARS :: int where
  "DEFAULT_MIN_CHARS = 40"

definition MAX_ANCHOR_CANDIDATES :: nat where
  "MAX_ANCHOR_CANDIDATES = 16"

definition is_trivial :: "string \<Rightarrow> bool" where
  "is_trivial line =
     (let s = strip line
      in length s < 4
         \<or> s \<in> set [''return'', ''pass'', ''else:'', ''try:'', ''except:'', ''finally:'', ''break'', ''continue'',
                    ''});'', ''})'', ''],'', ''),'', replicate 3 (CHR 0x22), replicate 3 (CHR 0x27), ''...''])"

section \<open>Pointers\<close>

text \<open>\<open>repr\<close> of a string.\<close>

definition repr_char :: "char \<Rightarrow> char \<Rightarrow> string" where
  "repr_char q c =
     (let n = code_point c
      in if c = q \<or> c = CHR 0x5C then [CHR 0x5C, c]
         else if n = 9 then [CHR 0x5C, CHR ''t'']
         else if n = 10 then [CHR 0x5C, CHR ''n'']
         else if n = 13 then [CHR 0x5C, CHR ''r'']
         else if n < 32 \<or> 127 \<le> n \<and> n \<le> 160 \<or> n = 173
              then [CHR 0x5C, CHR ''x'', hex_digit (n div 16), hex_digit (n mod 16)]
         else [c])"

definition py_repr :: "string \<Rightarrow> string" where
  "py_repr s =
     (let q = (if CHR 0x27 \<in> set s \<and> CHR 0x22 \<notin> set s then CHR 0x22 else CHR 0x27)
      in [q] @ concat (map (repr_char q) s) @ [q])"

definition signed_dec :: "int \<Rightarrow> string" where
  "signed_dec d = (if d < 0 then int_dec d else ''+'' @ int_dec d)"

fun first_anchor :: "string list \<Rightarrow> py_error + string" where
  "first_anchor [] = Inr []"
| "first_anchor (lne # lns) =
     (if strip lne = [] then first_anchor lns
      else case num_and_key lne of Inl e \<Rightarrow> Inl e | Inr (_, _, content) \<Rightarrow> Inr (strip content))"

definition pointer :: "string list \<Rightarrow> int \<Rightarrow> int \<Rightarrow> py_error + string" where
  "pointer lspan ref_turn delta =
     (case first_anchor lspan of
        Inl e \<Rightarrow> Inl e
      | Inr anchor0 \<Rightarrow>
         (let anchor = (if 20 < length anchor0 then take 17 anchor0 @ ''...'' else anchor0)
          in Inr ([CHR ''['', CHR 0x18] @ nat_dec (length lspan) @ ''L same as msg '' @ int_dec ref_turn @
                  (if delta \<noteq> 0 then '' '' @ signed_dec delta @ ''L'' else []) @ '': '' @ py_repr anchor @ '']'')))"

section \<open>Matching\<close>

type_synonym anchors = "(string, (nat \<times> nat) list) pydict"

fun index_lines_from :: "nat \<Rightarrow> string option list \<Rightarrow> nat \<Rightarrow> anchors \<Rightarrow> py_error + anchors" where
  "index_lines_from li [] block_pos idx = Inr idx"
| "index_lines_from li (None # lns) block_pos idx = index_lines_from (Suc li) lns block_pos idx"
| "index_lines_from li (Some lne # lns) block_pos idx =
     (case num_and_key lne of
        Inl e \<Rightarrow> Inl e
      | Inr (_, key, content) \<Rightarrow>
         index_lines_from (Suc li) lns block_pos
           (if is_trivial content then idx
            else (let bucket = dict_get_default idx key []
                  in dict_set key (if length bucket < MAX_ANCHOR_CANDIDATES then bucket @ [(block_pos, li)] else bucket) idx)))"

definition index_lines :: "string option list \<Rightarrow> nat \<Rightarrow> anchors \<Rightarrow> py_error + anchors" where
  "index_lines lines block_pos idx = index_lines_from 0 lines block_pos idx"

text \<open>The run from one anchor: how many lines match, and their common shift.\<close>

fun match_run :: "string list \<Rightarrow> string option list \<Rightarrow> int option \<Rightarrow> py_error + nat \<times> int option" where
  "match_run (ca # cur) (Some cb # block_lines) delta =
     (case num_and_key ca of Inl e \<Rightarrow> Inl e | Inr (na, ka, _) \<Rightarrow>
       (case num_and_key cb of Inl e \<Rightarrow> Inl e | Inr (nb, kb, _) \<Rightarrow>
          if ka \<noteq> kb then Inr (0, delta)
          else (case (na, nb) of
                  (Some a, Some b) \<Rightarrow>
                    let d = int a - int b
                    in if delta = None \<or> delta = Some d
                       then (case match_run cur block_lines (Some d) of
                               Inl e \<Rightarrow> Inl e | Inr (k, delta') \<Rightarrow> Inr (Suc k, delta'))
                       else Inr (0, delta)
                | _ \<Rightarrow>
                    if ca \<noteq> cb then Inr (0, delta)
                    else (case match_run cur block_lines delta of
                            Inl e \<Rightarrow> Inl e | Inr (k, delta') \<Rightarrow> Inr (Suc k, delta')))))"
| "match_run _ _ delta = Inr (0, delta)"

text \<open>A match: length, block, line in the block, shift.\<close>

type_synonym match = "nat \<times> nat \<times> nat \<times> int"

fun best_run :: "string list \<Rightarrow> string option list list \<Rightarrow> (nat \<times> nat) list \<Rightarrow> match \<Rightarrow> py_error + match" where
  "best_run cur corpus [] best = Inr best"
| "best_run cur corpus ((bp, li) # cands) best =
     (case match_run cur (drop li (corpus ! bp)) None of
        Inl e \<Rightarrow> Inl e
      | Inr (k, delta) \<Rightarrow>
         best_run cur corpus cands
           (if fst best < k then (k, bp, li, (case delta of None \<Rightarrow> 0 | Some d \<Rightarrow> d)) else best))"

definition longest_match :: "string list \<Rightarrow> anchors \<Rightarrow> string option list list \<Rightarrow> py_error + match option" where
  "longest_match cur idx corpus =
     (case num_and_key (hd cur) of
        Inl e \<Rightarrow> Inl e
      | Inr (_, anchor_key, _) \<Rightarrow>
         (case dict_get_default idx anchor_key [] of
            [] \<Rightarrow> Inr None
          | cands \<Rightarrow>
             (case best_run cur corpus cands (0, 0, 0, 0) of
                Inl e \<Rightarrow> Inl e
              | Inr m \<Rightarrow> if fst m = 0 then Inr None else Inr (Some m))))"

section \<open>Rewriting\<close>

datatype item =
    Keep string
  | Fold "string list" nat nat int string

fun item_out :: "item \<Rightarrow> string" where
  "item_out (Keep l) = l"
| "item_out (Fold lspan bp li delta ptr) = ptr"

fun item_verbatim :: "item \<Rightarrow> string option list" where
  "item_verbatim (Keep l) = [Some l]"
| "item_verbatim (Fold lspan bp li delta ptr) = replicate (length lspan) None"

fun item_lines :: "item \<Rightarrow> string list" where
  "item_lines (Keep l) = [l]"
| "item_lines (Fold lspan bp li delta ptr) = lspan"

lemma best_run_fst_mono: "best_run cur corpus cands best = Inr m \<Longrightarrow> fst best \<le> fst m"
  by (induction cands arbitrary: best) (fastforce split: sum.splits if_splits prod.splits)+

lemma longest_match_pos: "longest_match cur idx corpus = Inr (Some m) \<Longrightarrow> 0 < fst m"
  by (auto simp: longest_match_def split: sum.splits prod.splits list.splits if_splits)

record dedup_cfg =
  dc_min_lines :: int
  dc_min_chars :: int

text \<open>The guarded fold of one position: the match, if it is taken.\<close>

definition fold_at :: "dedup_cfg \<Rightarrow> string list \<Rightarrow> anchors \<Rightarrow> string option list list \<Rightarrow> py_error + match option" where
  "fold_at cfg cur idx corpus =
     (case longest_match cur idx corpus of
        Inl e \<Rightarrow> Inl e
      | Inr None \<Rightarrow> Inr None
      | Inr (Some m) \<Rightarrow>
          if dc_min_lines cfg \<le> int (fst m) \<and> dc_min_chars cfg \<le> int (length (join_with [NL] (take (fst m) cur)))
          then Inr (Some m) else Inr None)"

function dedup_lines ::
  "dedup_cfg \<Rightarrow> (nat \<Rightarrow> int) \<Rightarrow> anchors \<Rightarrow> string option list list \<Rightarrow> string list \<Rightarrow> py_error + item list" where
  "dedup_lines cfg turns idx corpus [] = Inr []"
| "dedup_lines cfg turns idx corpus (l # ls) =
     (case fold_at cfg (l # ls) idx corpus of
        Inl e \<Rightarrow> Inl e
      | Inr None \<Rightarrow>
          (case dedup_lines cfg turns idx corpus ls of Inl e \<Rightarrow> Inl e | Inr items \<Rightarrow> Inr (Keep l # items))
      | Inr (Some (len, bp, li, delta)) \<Rightarrow>
          (let lspan = take len (l # ls)
           in case pointer lspan (turns bp) delta of
                Inl e \<Rightarrow> Inl e
              | Inr ptr \<Rightarrow>
                 (case dedup_lines cfg turns idx corpus (drop len (l # ls)) of
                    Inl e \<Rightarrow> Inl e
                  | Inr items \<Rightarrow> Inr (Fold lspan bp li delta ptr # items))))"
  by pat_completeness auto
termination
  by (relation "measure (\<lambda>(_, _, _, _, ls). length ls)")
     (auto simp: fold_at_def dest!: longest_match_pos split: sum.splits option.splits if_splits)

record dedup_state =
  ds_corpus :: "string option list list"
  ds_index :: anchors
  ds_out :: "DedupBlock list"
  ds_spans :: int
  ds_lines :: int
  ds_chars :: int

definition dedup_init :: dedup_state where
  "dedup_init = \<lparr>ds_corpus = [], ds_index = [], ds_out = [], ds_spans = 0, ds_lines = 0, ds_chars = 0\<rparr>"

fun item_stats :: "item \<Rightarrow> int \<times> int \<times> int" where
  "item_stats (Keep l) = (0, 0, 0)"
| "item_stats (Fold lspan bp li delta ptr) =
     (1, int (length lspan), int (length (join_with [NL] lspan)) - int (length ptr))"

definition add_block ::
  "string option list \<Rightarrow> DedupBlock \<Rightarrow> int \<times> int \<times> int \<Rightarrow> dedup_state \<Rightarrow> py_error + dedup_state" where
  "add_block verbatim out_blk stats st =
     (case index_lines verbatim (length (ds_corpus st)) (ds_index st) of
        Inl e \<Rightarrow> Inl e
      | Inr idx \<Rightarrow>
         (case stats of (a, b, c) \<Rightarrow>
            Inr (st\<lparr>ds_corpus := ds_corpus st @ [verbatim], ds_index := idx, ds_out := ds_out st @ [out_blk],
                    ds_spans := ds_spans st + a, ds_lines := ds_lines st + b, ds_chars := ds_chars st + c\<rparr>)))"

definition items_stats :: "item list \<Rightarrow> int \<times> int \<times> int" where
  "items_stats items =
     (sum_list (map (fst \<circ> item_stats) items), sum_list (map (fst \<circ> snd \<circ> item_stats) items),
      sum_list (map (snd \<circ> snd \<circ> item_stats) items))"

definition dedup_block :: "dedup_cfg \<Rightarrow> (nat \<Rightarrow> int) \<Rightarrow> DedupBlock \<Rightarrow> dedup_state \<Rightarrow> py_error + dedup_state" where
  "dedup_block cfg turns blk st =
     (let lines = split_on NL (db_text blk)
      in if db_protected blk then add_block (map Some lines) blk (0, 0, 0) st
         else case dedup_lines cfg turns (ds_index st) (ds_corpus st) lines of
                Inl e \<Rightarrow> Inl e
              | Inr items \<Rightarrow>
                 add_block (concat (map item_verbatim items))
                   \<lparr>db_text = join_with [NL] (map item_out items), db_turn = db_turn blk, db_protected = False\<rparr>
                   (items_stats items) st)"

fun dedup_loop :: "dedup_cfg \<Rightarrow> (nat \<Rightarrow> int) \<Rightarrow> DedupBlock list \<Rightarrow> dedup_state \<Rightarrow> py_error + dedup_state" where
  "dedup_loop cfg turns [] st = Inr st"
| "dedup_loop cfg turns (b # bs) st =
     (case dedup_block cfg turns b st of Inl e \<Rightarrow> Inl e | Inr st' \<Rightarrow> dedup_loop cfg turns bs st')"

record dedup_stats =
  st_spans_folded :: int
  st_lines_removed :: int
  st_chars_removed :: int
  st_error :: bool

definition dedup_blocks :: "dedup_cfg \<Rightarrow> DedupBlock list \<Rightarrow> DedupBlock list \<times> dedup_stats" where
  "dedup_blocks cfg blocks =
     (case dedup_loop cfg (\<lambda>bp. db_turn (blocks ! bp)) blocks dedup_init of
        Inl e \<Rightarrow> (blocks, \<lparr>st_spans_folded = 0, st_lines_removed = 0, st_chars_removed = 0, st_error = True\<rparr>)
      | Inr st \<Rightarrow> (ds_out st, \<lparr>st_spans_folded = ds_spans st, st_lines_removed = ds_lines st,
                     st_chars_removed = ds_chars st, st_error = False\<rparr>))"

definition is_prefix_monotonic :: "dedup_cfg \<Rightarrow> DedupBlock list \<Rightarrow> bool" where
  "is_prefix_monotonic cfg blocks =
     (let full_text = map db_text (fst (dedup_blocks cfg blocks))
      in list_all (\<lambda>k. map db_text (fst (dedup_blocks cfg (take k blocks))) = take k full_text)
           [1..<length blocks + 1])"

definition default_cfg :: dedup_cfg where
  "default_cfg = \<lparr>dc_min_lines = DEFAULT_MIN_LINES, dc_min_chars = DEFAULT_MIN_CHARS\<rparr>"

section \<open>Matches restore their span\<close>

text \<open>What a reader of a pointer does with a referenced line: shift its number.\<close>

definition renumber :: "int \<Rightarrow> string \<Rightarrow> string" where
  "renumber delta line =
     (case LINENO_RE line of None \<Rightarrow> line | Some (ds, r) \<Rightarrow> int_dec (int (dec_val ds) + delta) @ r)"

definition num_ok :: "string \<Rightarrow> bool" where
  "num_ok line = (case LINENO_RE line of None \<Rightarrow> True | Some (ds, r) \<Rightarrow> length ds \<le> INT_MAX_STR_DIGITS)"

lemma LINENO_Some: "LINENO_RE l = Some (ds, r) \<Longrightarrow> l = ds @ r \<and> plain_numeral ds"
  by (auto simp: LINENO_RE_def Let_def plain_numeral_def list_all_iff dest: set_takeWhileD split: if_splits)

lemma num_and_key_ok: "num_ok l \<longleftrightarrow> (\<exists>x. num_and_key l = Inr x)"
  by (auto simp: num_ok_def num_and_key_def int_of_digits_def split: option.splits)

lemma num_and_key_numbered:
  assumes "num_and_key l = Inr (Some n, k, c)"
  obtains ds where "LINENO_RE l = Some (ds, k)" "l = ds @ k" "n = dec_val ds" "nat_dec n = ds"
proof -
  obtain ds where ds: "LINENO_RE l = Some (ds, k)" "n = dec_val ds"
    using assms by (auto simp: num_and_key_def int_of_digits_def split: option.splits if_splits)
  with LINENO_Some [OF ds(1)] show ?thesis using that nat_dec_dec_val by simp
qed

lemma num_and_key_plain: "num_and_key l = Inr (None, k, c) \<Longrightarrow> LINENO_RE l = None"
  by (auto simp: num_and_key_def split: option.splits sum.splits)

lemma renumber_shift:
  assumes "num_and_key ca = Inr (Some a, k, c)" "num_and_key cb = Inr (Some b, k, c')"
  shows "renumber (int a - int b) cb = ca"
proof -
  obtain da db where "ca = da @ k" "nat_dec a = da" "LINENO_RE cb = Some (db, k)" "b = dec_val db"
    using num_and_key_numbered [OF assms(1)] num_and_key_numbered [OF assms(2)] by metis
  then show ?thesis by (simp add: renumber_def int_dec_def)
qed

lemma renumber_plain:
  assumes "num_and_key l = Inr (na, k, c)" "na = None"
  shows "renumber d l = l"
  using num_and_key_plain assms by (auto simp: renumber_def)

abbreviation shift_of :: "int option \<Rightarrow> int" where
  "shift_of delta \<equiv> (case delta of None \<Rightarrow> 0 | Some d \<Rightarrow> d)"

definition restores :: "int \<Rightarrow> string option list \<Rightarrow> string list \<Rightarrow> nat \<Rightarrow> bool" where
  "restores d bl cur k = (k \<le> length cur \<and> map (map_option (renumber d)) (take k bl) = map Some (take k cur))"

lemma restores_0 [simp]: "restores d bl cur 0"
  by (simp add: restores_def)

lemma restores_Suc:
  "restores d bl cur k \<Longrightarrow> renumber d cb = ca \<Longrightarrow> restores d (Some cb # bl) (ca # cur) (Suc k)"
  by (simp add: restores_def)

lemma match_run_restores:
  "match_run cur bl delta = Inr (k, delta') \<Longrightarrow>
     restores (shift_of delta') bl cur k \<and> (\<forall>d. delta = Some d \<longrightarrow> delta' = Some d)"
proof (induction cur arbitrary: bl delta k)
  case (Cons ca cur)
  show ?case
  proof (cases "\<exists>cb bl'. bl = Some cb # bl'")
    case False
    then have "match_run (ca # cur) bl delta = Inr (0, delta)"
      by (cases bl; cases "hd bl") auto
    with Cons.prems show ?thesis by simp
  next
    case True
    then obtain cb bl' where bl: "bl = Some cb # bl'" by blast
    obtain na ka xa nb kb xb where n: "num_and_key ca = Inr (na, ka, xa)" "num_and_key cb = Inr (nb, kb, xb)"
      using Cons.prems bl by (auto split: sum.splits)
    consider (stop) "k = 0" "delta' = delta"
      | (both) a b k0 where "na = Some a" "nb = Some b" "ka = kb" "k = Suc k0"
          "delta = None \<or> delta = Some (int a - int b)" "match_run cur bl' (Some (int a - int b)) = Inr (k0, delta')"
      | (same) k0 where "na = None \<or> nb = None" "ca = cb" "k = Suc k0" "match_run cur bl' delta = Inr (k0, delta')"
      using Cons.prems bl n by (auto simp: Let_def split: if_splits option.splits sum.splits)
    then show ?thesis
    proof cases
      case stop
      then show ?thesis by simp
    next
      case both
      then show ?thesis
        using Cons.IH [OF both(6)] renumber_shift [of ca a ka xa cb b xb] n bl by (auto intro: restores_Suc)
    next
      case same
      have "na = None" using same n by auto
      then have "renumber (shift_of delta') cb = ca" using same n renumber_plain by metis
      then show ?thesis using Cons.IH [OF same(4)] same bl by (auto intro: restores_Suc)
    qed
  qed
qed simp

definition match_valid :: "string list \<Rightarrow> string option list list \<Rightarrow> (nat \<times> nat) set \<Rightarrow> match \<Rightarrow> bool" where
  "match_valid cur corpus cands m =
     (case m of (len, bp, li, delta) \<Rightarrow> len = 0 \<or> (bp, li) \<in> cands \<and> restores delta (drop li (corpus ! bp)) cur len)"

lemma best_run_valid:
  "best_run cur corpus cands best = Inr m \<Longrightarrow> match_valid cur corpus C best \<Longrightarrow> set cands \<subseteq> C \<Longrightarrow>
     match_valid cur corpus C m"
proof (induction cands arbitrary: best)
  case (Cons x cands)
  obtain bp li where x: "x = (bp, li)" by fastforce
  obtain k delta where r: "match_run cur (drop li (corpus ! bp)) None = Inr (k, delta)"
    using Cons.prems(1) x by (auto split: sum.splits)
  have "match_valid cur corpus C (k, bp, li, shift_of delta)"
    using match_run_restores [OF r] Cons.prems(3) x by (auto simp: match_valid_def)
  with Cons x r show ?case by (auto split: if_splits)
qed simp

lemma longest_match_valid:
  assumes "longest_match cur idx corpus = Inr (Some (len, bp, li, delta))"
  shows "restores delta (drop li (corpus ! bp)) cur len"
    and "\<exists>key. (bp, li) \<in> set (dict_get_default idx key [])" and "0 < len"
proof -
  obtain na key c where key: "num_and_key (hd cur) = Inr (na, key, c)"
    using assms by (auto simp: longest_match_def split: sum.splits)
  then have br: "best_run cur corpus (dict_get_default idx key []) (0, 0, 0, 0) = Inr (len, bp, li, delta)" and "0 < len"
    using assms by (cases "dict_get_default idx key []";
        auto simp del: best_run.simps simp: longest_match_def split: sum.splits if_splits)+
  from br have "match_valid cur corpus (set (dict_get_default idx key [])) (len, bp, li, delta)"
    by (rule best_run_valid) (simp_all add: match_valid_def)
  with \<open>0 < len\<close> show "restores delta (drop li (corpus ! bp)) cur len"
    and "\<exists>key. (bp, li) \<in> set (dict_get_default idx key [])" and "0 < len"
    by (auto simp: match_valid_def)
qed

section \<open>Reading a pointer\<close>

text \<open>What a pointer tells its reader: the number of lines, the turn and the shift.\<close>

definition signed_number :: "string \<Rightarrow> (int \<times> string) option" where
  "signed_number s =
     (case after ''-'' s of
        Some r \<Rightarrow> map_option (apfst (\<lambda>ds. - int (dec_val ds))) (digits_then r)
      | None \<Rightarrow> map_option (apfst (\<lambda>ds. int (dec_val ds))) (digits_then (case after ''+'' s of Some r \<Rightarrow> r | None \<Rightarrow> s)))"

definition read_pointer :: "string \<Rightarrow> (nat \<times> int \<times> int) option" where
  "read_pointer s =
     Option.bind (after [CHR ''['', CHR 0x18] s) (\<lambda>s.
       Option.bind (digits_then s) (\<lambda>(n, s).
         Option.bind (after ''L same as msg '' s) (\<lambda>s.
           Option.bind (signed_number s) (\<lambda>(turn, s).
             case after '': '' s of
               Some _ \<Rightarrow> Some (dec_val n, turn, 0)
             | None \<Rightarrow>
                 Option.bind (after '' '' s) (\<lambda>s.
                   Option.bind (signed_number s) (\<lambda>(delta, s).
                     map_option (\<lambda>_. (dec_val n, turn, delta)) (after ''L: '' s)))))))"

lemma nat_dec_Cons: obtains c ds where "nat_dec n = c # ds" "is_digit c"
proof -
  obtain c ds where "nat_dec n = c # ds" using nat_dec_nonempty [of n] by (cases "nat_dec n") simp_all
  with nat_dec_digits [of n] that show ?thesis by simp
qed

lemma after_single: "after [c] (x # s) = (if x = c then Some s else None)"
  by (simp add: after_def startswith_def)

lemma signed_number_dec:
  assumes "r = [] \<or> \<not> is_digit (hd r)"
  shows "signed_number (int_dec i @ r) = Some (i, r)" "signed_number (signed_dec i @ r) = Some (i, r)"
proof -
  have d: "digits_then (nat_dec n @ r) = Some (nat_dec n, r)" for n
    by (rule digits_then_append) (simp_all add: assms nat_dec_nonempty)
  have none: "after ''-'' (nat_dec n @ r) = None" "after ''+'' (nat_dec n @ r) = None" for n
    by (rule nat_dec_Cons [of n]; auto simp: after_single is_digit_def)+
  show "signed_number (int_dec i @ r) = Some (i, r)"
    by (simp add: signed_number_def int_dec_def after_single none d)
  show "signed_number (signed_dec i @ r) = Some (i, r)"
    by (simp add: signed_number_def signed_dec_def int_dec_def after_single none d)
qed

lemma read_pointer_pointer:
  assumes "pointer lspan turn delta = Inr ptr"
  shows "read_pointer ptr = Some (length lspan, turn, delta)"
proof -
  obtain a where ptr: "ptr = [CHR ''['', CHR 0x18] @ nat_dec (length lspan) @ ''L same as msg '' @ int_dec turn @
      (if delta \<noteq> 0 then '' '' @ signed_dec delta @ ''L: '' @ a else '': '' @ a)"
  proof (cases "first_anchor lspan")
    case (Inr a)
    show ?thesis
      by (rule that [of "py_repr (if 20 < length a then take 17 a @ ''...'' else a) @ '']''"])
        (use assms Inr in \<open>auto simp: pointer_def Let_def\<close>)
  qed (use assms in \<open>simp add: pointer_def\<close>)
  have n: "digits_then (nat_dec (length lspan) @ ''L same as msg '' @ r) = Some (nat_dec (length lspan), ''L same as msg '' @ r)" for r
    by (rule digits_then_append) (simp_all add: nat_dec_nonempty is_digit_def)
  have tail: "signed_number (int_dec turn @ '': '' @ r) = Some (turn, '': '' @ r)"
    "signed_number (int_dec turn @ '' '' @ r) = Some (turn, '' '' @ r)"
    "signed_number (signed_dec delta @ ''L: '' @ r) = Some (delta, ''L: '' @ r)" for r
    by (rule signed_number_dec, simp add: is_digit_def)+
  have no: "after '': '' ('' '' @ r) = None" for r by (simp add: after_def startswith_def)
  show ?thesis
    unfolding read_pointer_def ptr after_append Option.bind.simps n
    by (cases "delta = 0") (simp_all only: after_append Option.bind.simps prod.case tail no dec_val_nat_dec if_True if_False simp_thms
        option.case option.map)
qed

section \<open>Anchors point to earlier blocks\<close>

definition idx_below :: "nat \<Rightarrow> anchors \<Rightarrow> bool" where
  "idx_below n idx = (\<forall>key bp li. (bp, li) \<in> set (dict_get_default idx key []) \<longrightarrow> bp < n)"

lemma dict_get_default_set:
  "dict_get_default (dict_set k v d) j x = (if j = k then v else dict_get_default d j x)"
  by (simp add: dict_get_default_def dict_simps)

lemma index_lines_below:
  "index_lines_from li lns n idx = Inr idx' \<Longrightarrow> idx_below (Suc n) idx \<Longrightarrow> idx_below (Suc n) idx'"
proof (induction li lns n idx arbitrary: idx' rule: index_lines_from.induct)
  case (3 li lne lns n idx)
  obtain na key c where k: "num_and_key lne = Inr (na, key, c)"
    using "3.prems"(1) by (auto split: sum.splits)
  have "idx_below (Suc n) (dict_set key b idx)" if "set b \<subseteq> insert (n, li) (set (dict_get_default idx key []))" for b
    using "3.prems"(2) that by (auto simp: idx_below_def dict_get_default_set split: if_splits)
  then have "idx_below (Suc n) (if is_trivial c then idx else (let bucket = dict_get_default idx key []
      in dict_set key (if length bucket < MAX_ANCHOR_CANDIDATES then bucket @ [(n, li)] else bucket) idx))"
    using "3.prems"(2) by (auto simp: Let_def)
  then show ?case
    using "3.IH" [OF k refl refl, of idx'] "3.prems"(1) k by simp
qed simp_all

lemma idx_below_mono: "idx_below n idx \<Longrightarrow> n \<le> m \<Longrightarrow> idx_below m idx"
  by (meson idx_below_def le_trans not_le)

lemma fold_at_Some:
  assumes "fold_at cfg cur idx corpus = Inr (Some (len, bp, li, delta))" "idx_below (length corpus) idx"
  shows "restores delta (drop li (corpus ! bp)) cur len" "bp < length corpus" "0 < len"
proof -
  have m: "longest_match cur idx corpus = Inr (Some (len, bp, li, delta))"
    using assms(1) by (auto simp: fold_at_def split: sum.splits option.splits if_splits)
  note v = longest_match_valid [OF m]
  show "restores delta (drop li (corpus ! bp)) cur len" "0 < len" by (fact v)+
  show "bp < length corpus" using v(2) assms(2) by (auto simp: idx_below_def)
qed

section \<open>Rewritten blocks\<close>

fun item_valid :: "(nat \<Rightarrow> int) \<Rightarrow> string option list list \<Rightarrow> item \<Rightarrow> bool" where
  "item_valid turns corpus (Keep l) = True"
| "item_valid turns corpus (Fold lspan bp li delta ptr) =
     (bp < length corpus \<and> read_pointer ptr = Some (length lspan, turns bp, delta)
      \<and> map (map_option (renumber delta)) (take (length lspan) (drop li (corpus ! bp))) = map Some lspan)"

lemma dedup_lines_induct [consumes 1, case_names Nil keep fold]:
  assumes "dedup_lines cfg turns idx corpus ls = Inr items"
    and "P [] []"
    and "\<And>l ls items. dedup_lines cfg turns idx corpus ls = Inr items \<Longrightarrow> P ls items \<Longrightarrow> P (l # ls) (Keep l # items)"
    and "\<And>ls len bp li delta ptr items. fold_at cfg ls idx corpus = Inr (Some (len, bp, li, delta)) \<Longrightarrow>
          pointer (take len ls) (turns bp) delta = Inr ptr \<Longrightarrow> P (drop len ls) items \<Longrightarrow>
          P ls (Fold (take len ls) bp li delta ptr # items)"
  shows "P ls items"
  using assms(1)
proof (induction ls arbitrary: items rule: measure_induct_rule [of length])
  case (less ls)
  show ?case
  proof (cases ls)
    case Nil
    with less.prems assms(2) show ?thesis by simp
  next
    case (Cons l ls')
    consider (keep) its where "dedup_lines cfg turns idx corpus ls' = Inr its" "items = Keep l # its"
      | (fold) len bp li delta ptr its where "fold_at cfg ls idx corpus = Inr (Some (len, bp, li, delta))"
          "pointer (take len ls) (turns bp) delta = Inr ptr"
          "dedup_lines cfg turns idx corpus (drop len ls) = Inr its" "items = Fold (take len ls) bp li delta ptr # its"
      using less.prems Cons by (auto simp: Let_def split: sum.splits option.splits prod.splits)
    then show ?thesis
    proof cases
      case keep
      then show ?thesis using less.IH [of ls'] Cons assms(3) by simp
    next
      case fold
      have "0 < len" using fold(1) longest_match_pos
        by (fastforce simp: fold_at_def split: sum.splits option.splits if_splits)
      then have "length (drop len ls) < length ls" using Cons by simp
      then show ?thesis using less.IH [of "drop len ls"] assms(4) [OF fold(1,2)] fold by simp
    qed
  qed
qed

lemma dedup_lines_facts:
  assumes "dedup_lines cfg turns idx corpus ls = Inr items" "idx_below (length corpus) idx"
  shows "concat (map item_lines items) = ls \<and> list_all (item_valid turns corpus) items"
  using assms(1)
proof (induction rule: dedup_lines_induct)
  case (fold ls len bp li delta ptr items)
  note f = fold_at_Some [OF fold(1) assms(2)]
  then have "length (take len ls) = len" by (simp add: restores_def)
  with fold f read_pointer_pointer [OF fold(2)] show ?case by (auto simp: restores_def)
qed simp_all

lemma item_verbatim_Some: "Some l \<in> set (item_verbatim it) \<Longrightarrow> it = Keep l"
  by (cases it) auto

lemma item_verbatim_lines:
  "concat (map item_verbatim items) ! j = Some l \<Longrightarrow> j < length (concat (map item_verbatim items)) \<Longrightarrow> Keep l \<in> set items"
proof -
  assume "concat (map item_verbatim items) ! j = Some l" "j < length (concat (map item_verbatim items))"
  then have "Some l \<in> set (concat (map item_verbatim items))" by (metis nth_mem)
  then obtain it where "it \<in> set items" "Some l \<in> set (item_verbatim it)" by auto
  then show ?thesis using item_verbatim_Some by blast
qed

definition verbatim_of :: "item list \<Rightarrow> string option list" where
  "verbatim_of items = concat (map item_verbatim items)"

text \<open>
  The items \<open>its\<close> account for the blocks processed so far: they render to the output, they list the
  original lines, and every fold restores its span from the verbatim lines of an earlier block.
\<close>

definition accounts :: "(nat \<Rightarrow> int) \<Rightarrow> DedupBlock \<Rightarrow> string option list list \<Rightarrow> DedupBlock \<Rightarrow> item list \<Rightarrow> bool" where
  "accounts turns blk corpus out_blk items =
     (db_text out_blk = join_with [NL] (map item_out items)
      \<and> db_turn out_blk = db_turn blk
      \<and> concat (map item_lines items) = split_on NL (db_text blk)
      \<and> list_all (item_valid turns corpus) items)"

definition dedup_inv :: "(nat \<Rightarrow> int) \<Rightarrow> DedupBlock list \<Rightarrow> dedup_state \<Rightarrow> item list list \<Rightarrow> bool" where
  "dedup_inv turns blocks st its =
     (length its = length blocks \<and> ds_corpus st = map verbatim_of its \<and> length (ds_out st) = length blocks
      \<and> idx_below (length (ds_corpus st)) (ds_index st)
      \<and> (\<forall>p < length blocks. accounts turns (blocks ! p) (take p (ds_corpus st)) (ds_out st ! p) (its ! p)))"

lemma keep_all: "concat (map item_lines (map Keep ls)) = ls" "map item_out (map Keep ls) = ls"
  "verbatim_of (map Keep ls) = map Some ls" "list_all (item_valid turns corpus) (map Keep ls)"
  by (induction ls) (simp_all add: verbatim_of_def)

lemma dedup_block_cases:
  assumes "dedup_block cfg turns b st = Inr st'" "idx_below (length (ds_corpus st)) (ds_index st)"
  obtains out_blk items where "accounts turns b (ds_corpus st) out_blk items"
    "ds_corpus st' = ds_corpus st @ [verbatim_of items]" "ds_out st' = ds_out st @ [out_blk]"
    "idx_below (length (ds_corpus st')) (ds_index st')"
proof -
  let ?lines = "split_on NL (db_text b)"
  have idx: "idx_below (Suc (length (ds_corpus st))) (ds_index st)" using assms(2) idx_below_mono by fastforce
  have add: "ds_corpus st' = ds_corpus st @ [v] \<and> ds_out st' = ds_out st @ [ob]
      \<and> idx_below (length (ds_corpus st')) (ds_index st')" if "add_block v ob s st = Inr st'" for v ob s
    using that index_lines_below [OF _ idx]
    by (auto simp: add_block_def index_lines_def split: sum.splits prod.splits)
  show ?thesis
  proof (cases "db_protected b")
    case True
    then have "add_block (map Some ?lines) b (0, 0, 0) st = Inr st'"
      using assms(1) by (simp add: dedup_block_def Let_def)
    note a = add [OF this]
    have "accounts turns b (ds_corpus st) b (map Keep ?lines)"
      unfolding accounts_def keep_all(1-3) using keep_all(4) by simp
    then show ?thesis using that a keep_all(3) [of ?lines] by metis
  next
    case False
    then obtain items where i: "dedup_lines cfg turns (ds_index st) (ds_corpus st) ?lines = Inr items"
      and a: "add_block (verbatim_of items)
          \<lparr>db_text = join_with [NL] (map item_out items), db_turn = db_turn b, db_protected = False\<rparr> (items_stats items) st = Inr st'"
      using assms(1) by (auto simp: dedup_block_def verbatim_of_def Let_def split: sum.splits)
    have "accounts turns b (ds_corpus st)
        \<lparr>db_text = join_with [NL] (map item_out items), db_turn = db_turn b, db_protected = False\<rparr> items"
      using dedup_lines_facts [OF i assms(2)] by (simp add: accounts_def)
    then show ?thesis using that add [OF a] by metis
  qed
qed

lemma dedup_inv_step:
  assumes "dedup_inv turns blocks st its" "dedup_block cfg turns b st = Inr st'"
  shows "\<exists>items. dedup_inv turns (blocks @ [b]) st' (its @ [items])"
proof -
  have i: "idx_below (length (ds_corpus st)) (ds_index st)" using assms(1) unfolding dedup_inv_def by blast
  obtain ob items where r: "accounts turns b (ds_corpus st) ob items"
    "ds_corpus st' = ds_corpus st @ [verbatim_of items]" "ds_out st' = ds_out st @ [ob]"
    "idx_below (length (ds_corpus st')) (ds_index st')"
    using dedup_block_cases [OF assms(2) i] by blast
  have "dedup_inv turns (blocks @ [b]) st' (its @ [items])"
    using assms(1) r unfolding dedup_inv_def by (auto simp: nth_append less_Suc_eq)
  then show ?thesis ..
qed

lemma dedup_inv_loop:
  "dedup_loop cfg turns bs st = Inr st' \<Longrightarrow> dedup_inv turns blocks st its \<Longrightarrow>
     \<exists>its'. dedup_inv turns (blocks @ bs) st' (its @ its')"
proof (induction bs arbitrary: st blocks its)
  case Nil
  then show ?case by (intro exI [of _ "[]"]) simp
next
  case (Cons b bs)
  obtain st1 where s: "dedup_block cfg turns b st = Inr st1" "dedup_loop cfg turns bs st1 = Inr st'"
    using Cons.prems(1) by (auto split: sum.splits)
  obtain items where "dedup_inv turns (blocks @ [b]) st1 (its @ [items])"
    using dedup_inv_step [OF Cons.prems(2) s(1)] ..
  from Cons.IH [OF s(2) this] show ?case by auto
qed

lemma dedup_inv_init: "dedup_inv turns [] dedup_init []"
  by (simp add: dedup_inv_def dedup_init_def idx_below_def dict_get_default_def)

section \<open>Turns of later blocks do not matter\<close>

lemma dedup_lines_cong:
  assumes "idx_below (length corpus) idx" "\<And>bp. bp < length corpus \<Longrightarrow> t bp = t' bp"
  shows "dedup_lines cfg t idx corpus ls = dedup_lines cfg t' idx corpus ls"
proof (induction ls rule: measure_induct_rule [of length])
  case (less ls)
  show ?case
  proof (cases ls)
    case (Cons l ls')
    have "t bp = t' bp \<and> 0 < len" if "fold_at cfg ls idx corpus = Inr (Some (len, bp, li, delta))" for len bp li delta
      using fold_at_Some [OF that assms(1)] assms(2) by simp
    then show ?thesis
      using less.IH Cons by (auto simp: Let_def split: sum.splits option.splits)
  qed simp
qed

lemma dedup_loop_cong:
  assumes "\<And>bp. bp < length (ds_corpus st) + length bs \<Longrightarrow> t bp = t' bp"
    and "idx_below (length (ds_corpus st)) (ds_index st)"
  shows "dedup_loop cfg t bs st = dedup_loop cfg t' bs st"
  using assms
proof (induction bs arbitrary: st)
  case (Cons b bs)
  have eq: "dedup_block cfg t b st = dedup_block cfg t' b st"
    using Cons.prems dedup_lines_cong [of "ds_corpus st" "ds_index st" t t' cfg] by (simp add: dedup_block_def Let_def)
  show ?case
  proof (cases "dedup_block cfg t' b st")
    case (Inr st')
    obtain ob items where "ds_corpus st' = ds_corpus st @ [verbatim_of items]"
      "idx_below (length (ds_corpus st')) (ds_index st')"
      using dedup_block_cases [OF Inr Cons.prems(2)] by blast
    with Cons.IH [of st'] Cons.prems(1) Inr eq show ?thesis by simp
  qed (simp add: eq)
qed simp

lemma dedup_loop_append:
  "dedup_loop cfg t (xs @ ys) st = (case dedup_loop cfg t xs st of Inl e \<Rightarrow> Inl e | Inr st' \<Rightarrow> dedup_loop cfg t ys st')"
  by (induction xs arbitrary: st) (simp_all split: sum.splits)

lemma dedup_loop_out:
  "dedup_loop cfg t bs st = Inr st' \<Longrightarrow> \<exists>more. ds_out st' = ds_out st @ more \<and> length more = length bs"
proof (induction bs arbitrary: st)
  case (Cons b bs)
  then obtain st1 where s: "dedup_block cfg t b st = Inr st1" "dedup_loop cfg t bs st1 = Inr st'"
    by (auto split: sum.splits)
  have "\<exists>ob. ds_out st1 = ds_out st @ [ob]"
    using s(1) by (auto simp: dedup_block_def add_block_def Let_def split: if_splits sum.splits prod.splits)
  with Cons.IH [OF s(2)] show ?case by fastforce
qed simp

section \<open>Short numbers never raise\<close>

definition lines_ok :: "string option list \<Rightarrow> bool" where
  "lines_ok bl = list_all (case_option True num_ok) bl"

lemma match_run_ok: "list_all num_ok cur \<Longrightarrow> lines_ok bl \<Longrightarrow> \<exists>r. match_run cur bl delta = Inr r"
proof (induction cur arbitrary: bl delta)
  case (Cons ca cur)
  show ?case
  proof (cases "\<exists>cb bl'. bl = Some cb # bl'")
    case True
    then obtain cb bl' where bl: "bl = Some cb # bl'" by blast
    then obtain x y where "num_and_key ca = Inr x" "num_and_key cb = Inr y"
      using Cons.prems by (auto simp: lines_ok_def num_and_key_ok)
    moreover have "\<exists>r. match_run cur bl' d = Inr r" for d
      using Cons bl by (simp add: lines_ok_def)
    then obtain r where "\<And>d. match_run cur bl' d = Inr (r d)" by metis
    ultimately show ?thesis
      by (cases x; cases y) (auto simp: bl Let_def split: option.splits prod.splits)
  next
    case False
    then show ?thesis by (cases bl; cases "hd bl") auto
  qed
qed simp

lemma lines_ok_drop: "lines_ok bl \<Longrightarrow> lines_ok (drop n bl)"
  by (auto simp: lines_ok_def list_all_iff dest: in_set_dropD)

lemma best_run_ok:
  "list_all num_ok cur \<Longrightarrow> list_all lines_ok corpus \<Longrightarrow> \<forall>(bp, li) \<in> set cands. bp < length corpus \<Longrightarrow>
     \<exists>m. best_run cur corpus cands best = Inr m"
proof (induction cands arbitrary: best)
  case (Cons x cands)
  obtain bp li where x: "x = (bp, li)" by fastforce
  with Cons.prems have "lines_ok (drop li (corpus ! bp))" by (simp add: lines_ok_drop list_all_length)
  then obtain r where "match_run cur (drop li (corpus ! bp)) None = Inr r"
    using match_run_ok Cons.prems(1) by blast
  with Cons x show ?case by (cases r) simp
qed (metis best_run.simps(1))

lemma fold_at_ok:
  assumes "cur \<noteq> []" "list_all num_ok cur" "list_all lines_ok corpus" "idx_below (length corpus) idx"
  shows "\<exists>m. fold_at cfg cur idx corpus = Inr m"
proof -
  obtain na key c where k: "num_and_key (hd cur) = Inr (na, key, c)"
    using assms(1,2) by (cases cur) (auto simp: num_and_key_ok)
  have "\<forall>(bp, li) \<in> set (dict_get_default idx key []). bp < length corpus"
    using assms(4) by (auto simp: idx_below_def)
  then obtain m where "best_run cur corpus (dict_get_default idx key []) (0, 0, 0, 0) = Inr m"
    using best_run_ok assms by blast
  with k show ?thesis
    by (auto simp del: best_run.simps simp: fold_at_def longest_match_def split: list.splits sum.splits)
qed

lemma pointer_ok: "list_all num_ok lspan \<Longrightarrow> \<exists>p. pointer lspan t d = Inr p"
proof -
  assume "list_all num_ok lspan"
  then have "\<exists>a. first_anchor lspan = Inr a"
    by (induction lspan) (auto simp: num_and_key_ok)
  then show ?thesis by (auto simp: pointer_def Let_def)
qed

lemma dedup_lines_ok:
  assumes "list_all num_ok ls" "list_all lines_ok corpus" "idx_below (length corpus) idx"
  shows "\<exists>items. dedup_lines cfg t idx corpus ls = Inr items"
  using assms(1)
proof (induction ls rule: measure_induct_rule [of length])
  case (less ls)
  show ?case
  proof (cases ls)
    case (Cons l ls')
    obtain m where m: "fold_at cfg (l # ls') idx corpus = Inr m"
      using fold_at_ok [of ls] Cons less.prems assms by blast
    show ?thesis
    proof (cases m)
      case None
      obtain items where "dedup_lines cfg t idx corpus ls' = Inr items"
        using less.IH [of ls'] less.prems Cons by auto
      with Cons m None show ?thesis by simp
    next
      case (Some x)
      obtain len bp li d where x: "x = (len, bp, li, d)" by (cases x) auto
      have "0 < len" using fold_at_Some [OF _ assms(3)] m Some x by blast
      then have "length (drop len (l # ls')) < length ls" using Cons by simp
      moreover have "list_all num_ok (drop len (l # ls'))"
        using less.prems Cons by (metis in_set_dropD list_all_iff)
      ultimately obtain items where "dedup_lines cfg t idx corpus (drop len (l # ls')) = Inr items"
        using less.IH by blast
      moreover have "list_all num_ok (take len (l # ls'))"
        using less.prems Cons by (metis in_set_takeD list_all_iff)
      then obtain ptr where "pointer (take len (l # ls')) (t bp) d = Inr ptr" using pointer_ok by blast
      ultimately show ?thesis using Cons m Some x by (simp add: Let_def)
    qed
  qed simp
qed

lemma index_lines_ok: "lines_ok lns \<Longrightarrow> \<exists>idx'. index_lines_from li lns n idx = Inr idx'"
proof (induction li lns n idx rule: index_lines_from.induct)
  case (3 li lne lns n idx)
  then obtain na key c where "num_and_key lne = Inr (na, key, c)" by (auto simp: lines_ok_def num_and_key_ok)
  with 3 show ?case by (simp add: lines_ok_def)
qed (simp_all add: lines_ok_def)

lemma verbatim_ok: "list_all num_ok (concat (map item_lines items)) \<Longrightarrow> lines_ok (verbatim_of items)"
proof (induction items)
  case (Cons it items)
  then show ?case by (cases it) (auto simp: verbatim_of_def lines_ok_def list_all_iff)
qed (simp add: verbatim_of_def lines_ok_def)

definition block_ok :: "DedupBlock \<Rightarrow> bool" where
  "block_ok b = list_all num_ok (split_on NL (db_text b))"

lemma dedup_block_ok:
  assumes "block_ok b" "list_all lines_ok (ds_corpus st)" "idx_below (length (ds_corpus st)) (ds_index st)"
  shows "\<exists>st'. dedup_block cfg t b st = Inr st'"
proof -
  let ?lines = "split_on NL (db_text b)"
  have add: "\<exists>st'. add_block v ob s st = Inr st'" if "lines_ok v" for v ob s
    using index_lines_ok [OF that, of 0 "length (ds_corpus st)" "ds_index st"]
    by (cases s) (auto simp: add_block_def index_lines_def)
  show ?thesis
  proof (cases "db_protected b")
    case True
    have "lines_ok (map Some ?lines)" using assms(1) by (simp add: block_ok_def lines_ok_def list_all_iff)
    then show ?thesis using True add by (simp add: dedup_block_def Let_def)
  next
    case False
    obtain items where i: "dedup_lines cfg t (ds_index st) (ds_corpus st) ?lines = Inr items"
      using dedup_lines_ok assms unfolding block_ok_def by blast
    have "lines_ok (verbatim_of items)"
      using dedup_lines_facts [OF i assms(3)] assms(1) by (intro verbatim_ok) (simp add: block_ok_def)
    then show ?thesis using False i add by (simp add: dedup_block_def Let_def verbatim_of_def)
  qed
qed

lemma dedup_loop_ok:
  assumes "list_all block_ok bs" "list_all lines_ok (ds_corpus st)" "idx_below (length (ds_corpus st)) (ds_index st)"
  shows "\<exists>st'. dedup_loop cfg t bs st = Inr st'"
  using assms
proof (induction bs arbitrary: st)
  case (Cons b bs)
  obtain st1 where s: "dedup_block cfg t b st = Inr st1" using dedup_block_ok [of b st] Cons.prems by auto
  obtain ob items where r: "accounts t b (ds_corpus st) ob items"
    "ds_corpus st1 = ds_corpus st @ [verbatim_of items]" "idx_below (length (ds_corpus st1)) (ds_index st1)"
    using dedup_block_cases [OF s Cons.prems(3)] by blast
  have "lines_ok (verbatim_of items)"
    using r(1) Cons.prems(1) by (intro verbatim_ok) (simp add: accounts_def block_ok_def)
  with r Cons.IH [of st1] Cons.prems s show ?case by simp
qed simp

lemma dedup_init_ok: "list_all lines_ok (ds_corpus dedup_init)" "idx_below (length (ds_corpus dedup_init)) (ds_index dedup_init)"
  by (simp_all add: dedup_init_def idx_below_def dict_get_default_def)

lemma dedup_take:
  assumes "list_all block_ok blocks"
  shows "fst (dedup_blocks cfg (take k blocks)) = take k (fst (dedup_blocks cfg blocks))"
proof -
  let ?t = "\<lambda>bp. db_turn (blocks ! bp)" and ?tk = "\<lambda>bp. db_turn (take k blocks ! bp)"
  have eq: "dedup_loop cfg ?tk (take k blocks) dedup_init = dedup_loop cfg ?t (take k blocks) dedup_init"
    by (rule dedup_loop_cong) (simp_all add: dedup_init_ok, simp add: dedup_init_def)
  obtain st where st: "dedup_loop cfg ?t blocks dedup_init = Inr st"
    using dedup_loop_ok [OF assms dedup_init_ok] by blast
  then obtain st1 where s: "dedup_loop cfg ?t (take k blocks) dedup_init = Inr st1" "dedup_loop cfg ?t (drop k blocks) st1 = Inr st"
    using dedup_loop_append [of cfg ?t "take k blocks" "drop k blocks" dedup_init] by (auto split: sum.splits)
  obtain more where m: "ds_out st = ds_out st1 @ more" using dedup_loop_out [OF s(2)] by blast
  obtain m1 where "ds_out st1 = ds_out dedup_init @ m1" "length m1 = length (take k blocks)"
    using dedup_loop_out [OF s(1)] by blast
  then have "length (ds_out st1) = min (length blocks) k" by (simp add: dedup_init_def)
  moreover have "k \<ge> length blocks \<longrightarrow> more = []"
    using dedup_loop_out [OF s(2)] m by auto
  ultimately have "take k (ds_out st) = ds_out st1" by (auto simp: m min_def split: if_splits)
  with eq s st show ?thesis by (simp add: dedup_blocks_def)
qed

section \<open>Properties\<close>

text \<open>C21: appending turns never changes what earlier turns were rewritten to, so the prompt-cache prefix is
  stable: the check \<open>is_prefix_monotonic\<close> of the code holds of every conversation whose lines
  do not start with a number of more than 4300 digits, for all thresholds.\<close>
theorem dedup_prefix_monotonic:
  assumes "list_all (\<lambda>b. list_all num_ok (split_on NL (db_text b))) blocks"
  shows "is_prefix_monotonic cfg blocks"
  using assms dedup_take [of blocks cfg] unfolding block_ok_def [abs_def]
  by (simp add: is_prefix_monotonic_def list_all_iff take_map Let_def)

definition sample_blocks :: "DedupBlock list" where
  "sample_blocks =
     (let lines = [''12:def compute_total(items, rate):'', ''13:    return sum(items)'', ''14:'', ''15:def other(self):'']
      in [\<lparr>db_text = join_with [NL] lines, db_turn = 4, db_protected = False\<rparr>,
          \<lparr>db_text = join_with [NL] lines, db_turn = 8, db_protected = False\<rparr>])"

theorem dedup_prefix_monotonic_witness: "is_prefix_monotonic default_cfg sample_blocks"
  by (rule dedup_prefix_monotonic)
     (simp add: sample_blocks_def Let_def split_on_append num_ok_def LINENO_RE_def INT_MAX_STR_DIGITS_def str_eval)

text \<open>C4: no information leaves the window. For every run that succeeds there is an account of each
  block, item by item, that renders to the block's output text and lists its original lines; and
  in place of every folded span stands a pointer from which its length, the turn of a strictly earlier block and
  a shift can be read, and somewhere in what that block's output kept verbatim are as many lines from which the
  span is restored, line for line, by adding that shift to their numbers.\<close>
theorem dedup_recoverable:
  assumes "\<not> st_error (snd (dedup_blocks cfg blocks))"
  shows "\<exists>its. length its = length blocks \<and>
    (\<forall>p < length blocks.
       db_text (fst (dedup_blocks cfg blocks) ! p) = join_with [NL] (map item_out (its ! p))
       \<and> concat (map item_lines (its ! p)) = split_on NL (db_text (blocks ! p))
       \<and> (\<forall>lspan bp li delta ptr. Fold lspan bp li delta ptr \<in> set (its ! p) \<longrightarrow>
            bp < p \<and> read_pointer ptr = Some (length lspan, db_turn (blocks ! bp), delta) \<and>
            map (map_option (renumber delta))
                (take (length lspan) (drop li (concat (map item_verbatim (its ! bp))))) = map Some lspan))"
proof -
  obtain st where st: "dedup_loop cfg (\<lambda>bp. db_turn (blocks ! bp)) blocks dedup_init = Inr st"
    and out: "fst (dedup_blocks cfg blocks) = ds_out st"
    using assms by (auto simp: dedup_blocks_def split: sum.splits)
  let ?turns = "\<lambda>bp. db_turn (blocks ! bp)"
  obtain its where "dedup_inv ?turns blocks st its"
    using dedup_inv_loop [OF st dedup_inv_init] by auto
  then have its: "length its = length blocks" "ds_corpus st = map verbatim_of its"
    and acc: "\<And>p. p < length blocks \<Longrightarrow> accounts ?turns (blocks ! p) (take p (ds_corpus st)) (ds_out st ! p) (its ! p)"
    by (auto simp: dedup_inv_def)
  have "bp < p \<and> read_pointer ptr = Some (length lspan, db_turn (blocks ! bp), delta) \<and>
      map (map_option (renumber delta)) (take (length lspan) (drop li (concat (map item_verbatim (its ! bp))))) = map Some lspan"
    if p: "p < length blocks" and f: "Fold lspan bp li delta ptr \<in> set (its ! p)" for p lspan bp li delta ptr
  proof -
    have "item_valid ?turns (take p (ds_corpus st)) (Fold lspan bp li delta ptr)"
      using acc [OF p] f by (auto simp: accounts_def list_all_iff simp del: item_valid.simps)
    then show ?thesis using p its by (auto simp: verbatim_of_def)
  qed
  with its(1) acc out show ?thesis by (intro exI [of _ its]) (auto simp: accounts_def)
qed

lemma sample_blocks_ok: "\<not> st_error (snd (dedup_blocks cfg sample_blocks))"
proof -
  have "list_all block_ok sample_blocks"
    by (simp add: block_ok_def sample_blocks_def Let_def split_on_append num_ok_def LINENO_RE_def INT_MAX_STR_DIGITS_def str_eval)
  from dedup_loop_ok [OF this dedup_init_ok] show ?thesis
    by (metis (no_types, lifting) dedup_blocks_def dedup_stats.select_convs(4) snd_conv sum.case(2))
qed

theorem dedup_recoverable_witness:
  "\<exists>its. length its = 2 \<and> concat (map item_lines (its ! 1)) = split_on NL (db_text (sample_blocks ! 1)) \<and>
    (\<forall>lspan bp li delta ptr. Fold lspan bp li delta ptr \<in> set (its ! 1) \<longrightarrow>
       bp = 0 \<and> read_pointer ptr = Some (length lspan, 4, delta))"
proof -
  have "length sample_blocks = 2" by (simp add: sample_blocks_def Let_def)
  moreover have "db_turn (sample_blocks ! 0) = 4" by (simp add: sample_blocks_def Let_def)
  moreover obtain its where "length its = length sample_blocks"
    "\<forall>p < length sample_blocks. concat (map item_lines (its ! p)) = split_on NL (db_text (sample_blocks ! p))
       \<and> (\<forall>lspan bp li delta ptr. Fold lspan bp li delta ptr \<in> set (its ! p) \<longrightarrow>
            bp < p \<and> read_pointer ptr = Some (length lspan, db_turn (sample_blocks ! bp), delta))"
    using dedup_recoverable [OF sample_blocks_ok [of default_cfg]] by blast
  ultimately show ?thesis by (intro exI [of _ its]) (metis less_one one_less_numeral_iff semiring_norm(76))
qed

text \<open>the handler for errors breaks that stability. When a block whose first line starts with a number of
  more than 4300 digits, without leading zero and followed by a colon or a tab, is appended, the
  whole call raises inside and returns every block unrewritten, whatever earlier turns had been
  folded to before.\<close>
theorem overlong_number_unfolds:
  assumes "LINENO_RE (hd (split_on NL (db_text b))) = Some (ds, r)" and "INT_MAX_STR_DIGITS < length ds"
  shows "fst (dedup_blocks cfg (blocks @ [b])) = blocks @ [b]"
proof -
  obtain l ls where l: "split_on NL (db_text b) = l # ls" by (cases "split_on NL (db_text b)") simp_all
  then have e: "num_and_key l = Inl ValueError"
    using assms by (simp add: num_and_key_def int_of_digits_def)
  then have "\<exists>e. dedup_block cfg t b st = Inl e" for t st
    by (auto simp: dedup_block_def l add_block_def index_lines_def fold_at_def longest_match_def Let_def)
  then have "\<exists>e. dedup_loop cfg t (blocks @ [b]) dedup_init = Inl e" for t
    by (cases "dedup_loop cfg t blocks dedup_init") (auto simp: dedup_loop_append split: sum.splits, metis sum.distinct(1))
  then obtain e where "dedup_loop cfg (\<lambda>bp. db_turn ((blocks @ [b]) ! bp)) (blocks @ [b]) dedup_init = Inl e" by blast
  then show ?thesis by (simp add: dedup_blocks_def)
qed

definition overlong_block :: DedupBlock where
  "overlong_block = \<lparr>db_text = replicate 4301 (CHR ''1'') @ '':x'', db_turn = 9, db_protected = False\<rparr>"

theorem overlong_number_unfolds_witness:
  "fst (dedup_blocks default_cfg (sample_blocks @ [overlong_block])) = sample_blocks @ [overlong_block]"
proof (rule overlong_number_unfolds)
  let ?l = "replicate 4301 (CHR ''1'') @ '':x''"
  have "split_on NL ?l = [?l]" by (intro split_on_clean) (auto simp: NL_def)
  moreover have "takeWhile is_digit ?l = replicate 4301 (CHR ''1'')" "dropWhile is_digit ?l = '':x''"
    by (simp_all add: takeWhile_append dropWhile_append is_digit_def)
  ultimately show "LINENO_RE (hd (split_on NL (db_text overlong_block))) = Some (replicate 4301 (CHR ''1''), '':x'')"
    by (simp add: overlong_block_def LINENO_RE_def)
qed (simp add: INT_MAX_STR_DIGITS_def)

definition loss_blocks :: "DedupBlock list" where
  "loss_blocks =
     (let text = join_with [NL] [''alpha beta gamma delta'', ''epsil'', ''zeta eta th'']
      in [\<lparr>db_text = text, db_turn = 4, db_protected = False\<rparr>, \<lparr>db_text = text, db_turn = 8, db_protected = False\<rparr>])"

text \<open>A fold is not always a saving: at the default thresholds a repeated three-line span of 40
  characters is replaced by a pointer of 43, so \<open>chars_removed\<close> is negative.\<close>
theorem fold_can_lose:
  "st_spans_folded (snd (dedup_blocks default_cfg loss_blocks)) = 1
   \<and> st_chars_removed (snd (dedup_blocks default_cfg loss_blocks)) = - 3"
  by code_simp

end
