(* ===== verification/LRU.thy ===== *)
theory LRU
  imports Py_Base
begin

text \<open>
  \<open>collections.OrderedDict\<close> used as an LRU cache: \<open>move_to_end\<close>, popping the oldest items until there
  is room, and the retention argument the caches share. An ordered dictionary is an association
  list in insertion order, so the oldest item is the head.
\<close>

definition move_to_end :: "'k \<Rightarrow> ('k, 'v) pydict \<Rightarrow> ('k, 'v) pydict" where
  "move_to_end k d = (case dict_get d k of None \<Rightarrow> d | Some v \<Rightarrow> dict_del k d @ [(k, v)])"

text \<open>\<open>while len(d) >= m: d.popitem(last=False)\<close>, with the items popped; \<open>popitem\<close> of an empty dictionary raises.\<close>

fun pop_until :: "int \<Rightarrow> ('k, 'v) pydict \<Rightarrow> py_error + (('k \<times> 'v) list \<times> ('k, 'v) pydict)" where
  "pop_until m [] = (if m \<le> 0 then Inl KeyError else Inr ([], []))"
| "pop_until m (x # d) =
     (if m \<le> int (length (x # d))
      then (case pop_until m d of Inl e \<Rightarrow> Inl e | Inr (popped, rest) \<Rightarrow> Inr (x # popped, rest))
      else Inr ([], x # d))"

lemma pop_until_eq:
  "0 < m \<Longrightarrow> pop_until m d = Inr (take (nat (int (length d) - m + 1)) d, drop (nat (int (length d) - m + 1)) d)"
proof (induction d)
  case (Cons x d)
  show ?case
  proof (cases "m \<le> int (length (x # d))")
    case True
    then have "nat (int (length (x # d)) - m + 1) = Suc (nat (int (length d) - m + 1))" by simp
    with Cons True show ?thesis by (simp del: of_nat_Suc)
  qed simp
qed simp

lemma pop_until_room: "0 < m \<Longrightarrow> pop_until m d = Inr (popped, rest) \<Longrightarrow> int (length rest) < m"
  by (auto simp: pop_until_eq)

section \<open>Retention\<close>

text \<open>The dictionary holds \<open>k\<close> with \<open>v\<close>, and only keys of \<open>T\<close> were used after it.\<close>

definition recent :: "'k \<Rightarrow> 'v \<Rightarrow> 'k set \<Rightarrow> ('k, 'v) pydict \<Rightarrow> bool" where
  "recent k v T d = (dict_ok d \<and> (\<exists>p r. d = p @ (k, v) # r \<and> fst ` set r \<subseteq> T))"

lemma recent_get: "recent k v T d \<Longrightarrow> dict_get d k = Some v"
  by (auto simp: recent_def map_add_def split: option.splits)

lemma recent_mono: "recent k v T d \<Longrightarrow> T \<subseteq> T' \<Longrightarrow> recent k v T' d"
  unfolding recent_def by blast

lemma recent_snoc: "dict_ok d \<Longrightarrow> dict_get d k = None \<Longrightarrow> recent k v {} (d @ [(k, v)])"
  by (auto simp: recent_def dict_get_None_iff)

lemma dict_del_append: "dict_del j (a @ b) = dict_del j a @ dict_del j b"
  by (simp add: AList.delete_eq)

lemma recent_del:
  assumes "recent k v T d" "j \<noteq> k"
  shows "recent k v (T - {j}) (dict_del j d)"
proof -
  obtain p r where d: "d = p @ (k, v) # r" "fst ` set r \<subseteq> T" "dict_ok d"
    using assms(1) by (auto simp: recent_def)
  have "dict_del j d = dict_del j p @ (k, v) # dict_del j r"
    using assms(2) by (simp add: d(1) dict_del_append)
  moreover have "fst ` set (dict_del j r) \<subseteq> T - {j}" using d(2) by (auto simp: AList.delete_eq)
  ultimately show ?thesis using d(3) dict_ok_del [of d j] by (auto simp: recent_def)
qed

lemma recent_append:
  assumes "recent k v T d" "dict_get d j = None"
  shows "recent k v (insert j T) (d @ [(j, w)])"
proof -
  have "dict_ok (d @ [(j, w)])"
    using assms by (auto simp: recent_def dict_get_None_iff)
  then show ?thesis using assms(1) by (fastforce simp: recent_def)
qed

lemma recent_move:
  assumes "recent k v T d" "j \<noteq> k"
  shows "recent k v (insert j T) (move_to_end j d)"
proof (cases "dict_get d j")
  case None
  then show ?thesis using recent_mono [OF assms(1)] by (auto simp: move_to_end_def)
next
  case (Some w)
  then show ?thesis
    using recent_append [OF recent_del [OF assms], of j w] by (simp add: move_to_end_def dict_simps)
qed

lemma recent_update:
  assumes "recent k v T d" "dict_get d j \<noteq> None" "j \<noteq> k"
  shows "recent k v T (dict_set j w d)"
proof -
  obtain p r where d: "d = p @ (k, v) # r" "fst ` set r \<subseteq> T" "dict_ok d"
    using assms(1) by (auto simp: recent_def)
  have "dict_set j w d = dict_set j w p @ (k, v) # r \<or> dict_set j w d = p @ (k, v) # dict_set j w r"
    unfolding d(1) using assms(3) by (induction p) auto
  moreover have "fst ` set (dict_set j w r) \<subseteq> T \<or> dict_set j w d = dict_set j w p @ (k, v) # r"
  proof (cases "j \<in> fst ` set p")
    case True
    then have "dict_set j w d = dict_set j w p @ (k, v) # r"
      unfolding d(1) by (induction p) auto
    then show ?thesis ..
  next
    case False
    moreover have "j \<in> fst ` set d" using assms(2) by (metis dict_get_None_iff list.set_map)
    ultimately have "j \<in> fst ` set r" using assms(3) by (auto simp: d(1))
    then show ?thesis using d(2) by (auto simp: dom_update)
  qed
  ultimately show ?thesis using d(2,3) dict_ok_set [of d j w] unfolding recent_def by blast
qed

text \<open>Making room for one more item keeps \<open>k\<close> while fewer than \<open>m\<close> keys were used after it.\<close>

lemma recent_pop:
  assumes "recent k v T d" "finite T" "int (card T) + 1 < m" "pop_until m d = Inr (popped, rest)"
  shows "recent k v T rest"
proof -
  obtain p r where d: "d = p @ (k, v) # r" "fst ` set r \<subseteq> T" "dict_ok d"
    using assms(1) by (auto simp: recent_def)
  have "distinct (map fst r)" using d by simp
  then have "length r = card (fst ` set r)" by (metis distinct_card length_map list.set_map)
  then have r: "length r \<le> card T" using card_mono [OF assms(2) d(2)] by simp
  let ?n = "nat (int (length d) - m + 1)"
  have rest: "rest = drop ?n d" using assms(3,4) pop_until_eq [of m d] by simp
  have "?n \<le> length p" using r assms(3) by (simp add: d(1))
  then have "rest = drop ?n p @ (k, v) # r" by (simp add: rest d(1))
  moreover have "dict_ok rest" using d(3) by (simp add: rest drop_map distinct_drop flip: drop_map)
  ultimately show ?thesis using d(2) by (auto simp: recent_def)
qed

text \<open>
  What an LRU cache promises: an operation that uses keys \<open>U\<close> other than \<open>k\<close> keeps \<open>k\<close> and adds
  \<open>U\<close> to the keys used since, as long as these stay fewer than the capacity. Then \<open>k\<close> survives
  every run that uses fewer distinct keys than the capacity.
\<close>

locale lru_retention =
  fixes step :: "'op \<Rightarrow> 'c \<Rightarrow> 'c"
    and used :: "'op \<Rightarrow> 'k set"
    and cap :: "'c \<Rightarrow> int"
    and held :: "'k \<Rightarrow> 'v \<Rightarrow> 'k set \<Rightarrow> 'c \<Rightarrow> bool"
  assumes held_step: "held k v T c \<Longrightarrow> k \<notin> used op \<Longrightarrow> finite T \<Longrightarrow> int (card (T \<union> used op)) < cap c \<Longrightarrow>
      held k v (T \<union> used op) (step op c)"
    and cap_step: "cap (step op c) = cap c"
    and finite_used: "finite (used op)"
begin

lemma held_run:
  assumes "held k v T c" "finite T" "list_all (\<lambda>op. k \<notin> used op) ops"
    and "int (card (T \<union> \<Union> (used ` set ops))) < cap c"
  shows "held k v (T \<union> \<Union> (used ` set ops)) (fold step ops c)"
  using assms
proof (induction ops arbitrary: T c)
  case (Cons op ops)
  have fin: "finite (T \<union> \<Union> (used ` set (op # ops)))" using Cons.prems(2) finite_used by auto
  have "card (T \<union> used op) \<le> card (T \<union> \<Union> (used ` set (op # ops)))"
    by (rule card_mono [OF fin]) auto
  then have "held k v (T \<union> used op) (step op c)"
    using Cons.prems by (intro held_step) auto
  then show ?case
    using Cons.IH [of "T \<union> used op" "step op c"] Cons.prems finite_used cap_step by (simp add: Un_assoc)
qed simp

end

end
