(* ===== verification/Semantic_Cache.thy ===== *)
theory Semantic_Cache
  imports LRU Py_Text "HOL-Library.List_Lexorder" "HOL-Library.Char_ord"
begin

text \<open>
  The proxy's response cache (\<open>headroom/proxy/semantic_cache.py\<close>) and its key
  (\<open>semantic_cache_key_policy.py\<close>): an \<open>OrderedDict\<close> in LRU order with a TTL per entry. SHA-256 and
  the decimal rendering of floats are arguments; \<open>datetime.now()\<close> is a reading in seconds.
\<close>

section \<open>The key\<close>

fun strip_cache_control :: "json \<Rightarrow> json"
  and strip_list :: "json list \<Rightarrow> json list"
  and strip_items :: "(string \<times> json) list \<Rightarrow> (string \<times> json) list" where
  "strip_cache_control (JDict kvs) = JDict (strip_items kvs)"
| "strip_cache_control (JList xs) = JList (strip_list xs)"
| "strip_cache_control j = j"
| "strip_list [] = []"
| "strip_list (x # xs) = strip_cache_control x # strip_list xs"
| "strip_items [] = []"
| "strip_items ((k, v) # kvs) =
     (if k \<noteq> ''cache_control'' then (k, strip_cache_control v) # strip_items kvs else strip_items kvs)"

text \<open>\<open>json.dumps(..., sort_keys=True)\<close> with the default \<open>ensure_ascii\<close>.\<close>

fun sort_keys :: "json \<Rightarrow> json"
  and sort_keys_list :: "json list \<Rightarrow> json list"
  and sort_keys_items :: "(string \<times> json) list \<Rightarrow> (string \<times> json) list" where
  "sort_keys (JDict kvs) = JDict (sort_keys_items kvs)"
| "sort_keys (JList xs) = JList (sort_keys_list xs)"
| "sort_keys j = j"
| "sort_keys_list [] = []"
| "sort_keys_list (x # xs) = sort_keys x # sort_keys_list xs"
| "sort_keys_items [] = []"
| "sort_keys_items ((k, v) # kvs) = insort_key fst (k, sort_keys v) (sort_keys_items kvs)"

definition ascii_escape :: "string \<Rightarrow> string" where
  "ascii_escape s = concat (map (\<lambda>c.
     if code_point c < 128 then [c]
     else [CHR 0x5C, CHR ''u'', CHR ''0'', CHR ''0'', hex_digit (code_point c div 16), hex_digit (code_point c mod 16)]) s)"

record sem_request =
  sr_messages :: "json list"
  sr_model :: string
  sr_key_fields :: "(string \<times> json) list"

record sem_env =
  se_sha256 :: "string \<Rightarrow> string"
  se_float_repr :: "rat \<Rightarrow> string"

definition compute_semantic_cache_key :: "sem_env \<Rightarrow> sem_request \<Rightarrow> string" where
  "compute_semantic_cache_key env r =
     (let normalized = ascii_escape (json_dumps (se_float_repr env) (sort_keys (JDict
        ([(''model'', JStr (sr_model r)), (''messages'', JList (sr_messages r))]
         @ map (\<lambda>(k, v). (k, strip_cache_control v)) (sr_key_fields r)))))
      in take 32 (se_sha256 env (utf8_encode normalized)))"

section \<open>The cache\<close>

record CacheEntry =
  ce_response_body :: string
  ce_response_headers :: "(string, string) pydict"
  ce_created :: rat
  ce_ttl_seconds :: int
  ce_hit_count :: int
  ce_tokens_saved_per_hit :: int

record sem_cache =
  sc_max_entries :: int
  sc_ttl_seconds :: int
  sc_cache :: "(string, CacheEntry) pydict"

definition sem_init :: "int \<Rightarrow> int \<Rightarrow> sem_cache" where
  "sem_init max_entries ttl_seconds = \<lparr>sc_max_entries = max_entries, sc_ttl_seconds = ttl_seconds, sc_cache = []\<rparr>"

definition sem_get :: "sem_env \<Rightarrow> rat \<Rightarrow> sem_request \<Rightarrow> sem_cache \<Rightarrow> sem_cache \<times> CacheEntry option" where
  "sem_get env now r c =
     (let key = compute_semantic_cache_key env r
      in case dict_get (sc_cache c) key of
           None \<Rightarrow> (c, None)
         | Some entry \<Rightarrow>
            (let age = now - ce_created entry
             in if of_int (ce_ttl_seconds entry) < age then (c\<lparr>sc_cache := dict_del key (sc_cache c)\<rparr>, None)
                else (let entry' = entry\<lparr>ce_hit_count := ce_hit_count entry + 1\<rparr>
                      in (c\<lparr>sc_cache := move_to_end key (dict_set key entry' (sc_cache c))\<rparr>, Some entry'))))"

definition sem_set ::
  "sem_env \<Rightarrow> rat \<Rightarrow> sem_request \<Rightarrow> string \<Rightarrow> (string, string) pydict \<Rightarrow> int \<Rightarrow> sem_cache \<Rightarrow> py_error + sem_cache" where
  "sem_set env now r response_body response_headers tokens_saved c =
     (let key = compute_semantic_cache_key env r;
          d1 = (if dict_get (sc_cache c) key \<noteq> None then dict_del key (sc_cache c) else sc_cache c)
      in case pop_until (sc_max_entries c) d1 of
           Inl e \<Rightarrow> Inl e
         | Inr (popped, d2) \<Rightarrow>
            Inr (c\<lparr>sc_cache := dict_set key
              \<lparr>ce_response_body = response_body, ce_response_headers = response_headers, ce_created = now,
               ce_ttl_seconds = sc_ttl_seconds c, ce_hit_count = 0, ce_tokens_saved_per_hit = tokens_saved\<rparr> d2\<rparr>))"

definition sem_stats :: "sem_cache \<Rightarrow> (string \<times> int) list" where
  "sem_stats c =
     (let total_hits = sum_list (map (\<lambda>(k, e). ce_hit_count e) (sc_cache c))
      in [(''entries'', int (length (sc_cache c))), (''max_entries'', sc_max_entries c),
          (''total_hits'', total_hits), (''ttl_seconds'', sc_ttl_seconds c)])"

definition sem_clear :: "sem_cache \<Rightarrow> sem_cache" where
  "sem_clear c = c\<lparr>sc_cache := []\<rparr>"

section \<open>Lookups and stores\<close>

datatype sem_op =
    SGet rat sem_request
  | SSet rat sem_request string "(string, string) pydict" int

fun sem_step :: "sem_env \<Rightarrow> sem_op \<Rightarrow> sem_cache \<Rightarrow> sem_cache" where
  "sem_step env (SGet now r) c = fst (sem_get env now r c)"
| "sem_step env (SSet now r body hs saved) c =
     (case sem_set env now r body hs saved c of Inl e \<Rightarrow> c | Inr c' \<Rightarrow> c')"

fun sem_used :: "sem_env \<Rightarrow> sem_op \<Rightarrow> string set" where
  "sem_used env (SGet now r) = {compute_semantic_cache_key env r}"
| "sem_used env (SSet now r body hs saved) = {compute_semantic_cache_key env r}"

lemma sem_set_eq:
  assumes "0 < sc_max_entries c" "dict_ok (sc_cache c)"
  shows "\<exists>popped rest e. pop_until (sc_max_entries c) (dict_del (compute_semantic_cache_key env r) (sc_cache c)) = Inr (popped, rest)
    \<and> dict_get rest (compute_semantic_cache_key env r) = None \<and> dict_ok rest
    \<and> ce_response_body e = body \<and> ce_response_headers e = hs \<and> ce_created e = now \<and> ce_ttl_seconds e = sc_ttl_seconds c
    \<and> sem_set env now r body hs saved c = Inr (c\<lparr>sc_cache := rest @ [(compute_semantic_cache_key env r, e)]\<rparr>)"
proof -
  let ?k = "compute_semantic_cache_key env r"
  let ?d = "dict_del ?k (sc_cache c)"
  let ?n = "nat (int (length ?d) - sc_max_entries c + 1)"
  let ?e = "\<lparr>ce_response_body = body, ce_response_headers = hs, ce_created = now,
               ce_ttl_seconds = sc_ttl_seconds c, ce_hit_count = 0, ce_tokens_saved_per_hit = saved\<rparr>"
  have d1: "(if dict_get (sc_cache c) ?k \<noteq> None then ?d else sc_cache c) = ?d"
    by (auto simp: dict_del_absent)
  have p: "pop_until (sc_max_entries c) ?d = Inr (take ?n ?d, drop ?n ?d)"
    using assms(1) by (rule pop_until_eq)
  have "?k \<notin> set (map fst ?d)" using dict_get_None_iff [of ?d ?k] by (simp add: dict_simps)
  then have n: "dict_get (drop ?n ?d) ?k = None"
    by (metis dict_get_None_iff drop_map in_set_dropD)
  have ok: "dict_ok (drop ?n ?d)" using dict_ok_del [OF assms(2), of ?k] by (simp add: drop_map [symmetric])
  have "sem_set env now r body hs saved c = Inr (c\<lparr>sc_cache := drop ?n ?d @ [(?k, ?e)]\<rparr>)"
    unfolding sem_set_def Let_def d1 p using n by (simp add: dict_set_new)
  with p n ok show ?thesis
    by (intro exI [of _ "take ?n ?d"] exI [of _ "drop ?n ?d"] exI [of _ ?e] conjI) simp_all
qed

lemma sem_set_step:
  assumes "0 < sc_max_entries c" "dict_ok (sc_cache c)"
  shows "dict_ok (sc_cache (sem_step env (SSet now r body hs saved) c))"
    and "int (length (sc_cache (sem_step env (SSet now r body hs saved) c))) \<le> sc_max_entries c"
proof -
  obtain popped rest e where s: "pop_until (sc_max_entries c) (dict_del (compute_semantic_cache_key env r) (sc_cache c)) = Inr (popped, rest)"
    "dict_get rest (compute_semantic_cache_key env r) = None" "dict_ok rest"
    "sem_set env now r body hs saved c = Inr (c\<lparr>sc_cache := rest @ [(compute_semantic_cache_key env r, e)]\<rparr>)"
    using sem_set_eq [OF assms, of env r body hs now saved] by blast
  show "dict_ok (sc_cache (sem_step env (SSet now r body hs saved) c))"
    using s by (auto simp: dict_get_None_iff)
  show "int (length (sc_cache (sem_step env (SSet now r body hs saved) c))) \<le> sc_max_entries c"
    using s pop_until_room [OF assms(1) s(1)] by simp
qed

lemma dict_ok_move: "dict_ok d \<Longrightarrow> dict_ok (move_to_end k d)"
  by (auto simp: move_to_end_def AList.delete_eq distinct_map_filter split: option.splits)

lemma length_move: "dict_ok d \<Longrightarrow> length (move_to_end k d) = length d"
  using length_pos_if_in_set [OF map_of_SomeD, of d k]
  by (auto simp: move_to_end_def dict_simps split: option.splits)

lemma sem_step_ok:
  assumes "0 < sc_max_entries c" "dict_ok (sc_cache c)" "int (length (sc_cache c)) \<le> sc_max_entries c"
  shows "dict_ok (sc_cache (sem_step env op c)) \<and> int (length (sc_cache (sem_step env op c))) \<le> sc_max_entries c"
proof (cases op)
  case (SGet now r)
  then show ?thesis
    using assms by (auto simp: sem_get_def Let_def dict_ok_move length_move dict_simps split: option.splits)
next
  case (SSet now r body hs saved)
  then show ?thesis using sem_set_step [OF assms(1,2)] by blast
qed

lemma sem_step_cap [simp]: "sc_max_entries (sem_step env op c) = sc_max_entries c" "sc_ttl_seconds (sem_step env op c) = sc_ttl_seconds c"
  by (cases op; auto simp: sem_get_def sem_set_def Let_def split: option.splits sum.splits)+

lemma sem_run_ok:
  "0 < sc_max_entries c \<Longrightarrow> dict_ok (sc_cache c) \<Longrightarrow> int (length (sc_cache c)) \<le> sc_max_entries c \<Longrightarrow>
     dict_ok (sc_cache (fold (sem_step env) ops c)) \<and> int (length (sc_cache (fold (sem_step env) ops c))) \<le> sc_max_entries c
     \<and> sc_max_entries (fold (sem_step env) ops c) = sc_max_entries c \<and> sc_ttl_seconds (fold (sem_step env) ops c) = sc_ttl_seconds c"
proof (induction ops arbitrary: c)
  case (Cons op ops)
  then show ?case using sem_step_ok [of c env op] Cons.IH [of "sem_step env op c"] by simp
qed simp

definition sem_held :: "string \<Rightarrow> CacheEntry \<Rightarrow> string set \<Rightarrow> sem_cache \<Rightarrow> bool" where
  "sem_held k e T c = recent k e T (sc_cache c)"

lemma sem_held_step:
  assumes h: "sem_held k e T c" and k: "k \<notin> sem_used env op" and T: "finite T"
    and cap: "int (card (T \<union> sem_used env op)) < sc_max_entries c"
  shows "sem_held k e (T \<union> sem_used env op) (sem_step env op c)"
proof (cases op)
  case (SGet now r)
  let ?j = "compute_semantic_cache_key env r"
  have j: "?j \<noteq> k" using k SGet by simp
  have r: "recent k e T (sc_cache c)" using h by (simp add: sem_held_def)
  show ?thesis
  proof (cases "dict_get (sc_cache c) ?j")
    case None
    then show ?thesis using SGet recent_mono [OF r] by (auto simp: sem_held_def sem_get_def)
  next
    case (Some x)
    have "recent k e (insert ?j T) (dict_del ?j (sc_cache c))"
      using recent_mono [OF recent_del [OF r j]] by blast
    moreover have "recent k e (insert ?j T) (move_to_end ?j (dict_set ?j y (sc_cache c)))" for y
      using recent_move [OF recent_update [OF r _ j] j] Some by simp
    ultimately show ?thesis using SGet Some by (simp add: sem_held_def sem_get_def Let_def)
  qed
next
  case (SSet now r body hs saved)
  let ?j = "compute_semantic_cache_key env r"
  have j: "?j \<noteq> k" using k SSet by simp
  have r: "recent k e T (sc_cache c)" using h by (simp add: sem_held_def)
  have c0: "0 < sc_max_entries c" using cap by linarith
  have ok: "dict_ok (sc_cache c)" using r by (simp add: recent_def)
  obtain popped rest x where s: "pop_until (sc_max_entries c) (dict_del ?j (sc_cache c)) = Inr (popped, rest)"
    "dict_get rest ?j = None" "sem_set env now r body hs saved c = Inr (c\<lparr>sc_cache := rest @ [(?j, x)]\<rparr>)"
    using sem_set_eq [OF c0 ok, of env r body hs now saved] by blast
  have "card (insert ?j T) = card (T - {?j}) + 1" using T by (simp add: card_insert_if card_Diff_singleton_if) (metis card_gt_0_iff Suc_pred empty_iff)
  then have "recent k e (T - {?j}) rest"
    using recent_pop [OF recent_del [OF r j] _ _ s(1)] T cap SSet by simp
  then have "recent k e (insert ?j (T - {?j})) (rest @ [(?j, x)])" using s(2) by (rule recent_append)
  then show ?thesis using SSet s(3) by (simp add: sem_held_def)
qed

interpretation sem: lru_retention "sem_step env" "sem_used env" sc_max_entries sem_held
proof
  show "finite (sem_used env op)" for op by (cases op) simp_all
qed (simp_all add: sem_held_step)

section \<open>Properties\<close>

lemma strip_idem:
  "strip_cache_control (strip_cache_control j) = strip_cache_control j"
  "strip_list (strip_list xs) = strip_list xs"
  "strip_items (strip_items kvs) = strip_items kvs"
  by (induction j and xs and kvs rule: strip_cache_control_strip_list_strip_items.induct) simp_all

text \<open>the response cache keeps an entry for as long as LRU promises. After any history of lookups and
  stores, a response stored at \<open>t0\<close> is returned by a lookup of the same request at \<open>now\<close>, no later
  than the TTL after \<open>t0\<close>, whenever the requests looked up or stored in between have other keys
  and fewer than \<open>max_entries\<close> distinct ones.\<close>
theorem semantic_cache_retains:
  assumes "0 < m"
    and "c = fold (sem_step env) history (sem_init m ttl)"
    and "list_all (\<lambda>op. compute_semantic_cache_key env r \<notin> sem_used env op) ops"
    and "int (card (\<Union> (sem_used env ` set ops))) < m"
    and "now - t0 \<le> of_int ttl"
  shows "\<exists>c' e. sem_set env t0 r body hs saved c = Inr c'
    \<and> snd (sem_get env now r (fold (sem_step env) ops c')) = Some e
    \<and> ce_response_body e = body \<and> ce_response_headers e = hs"
proof -
  let ?k = "compute_semantic_cache_key env r"
  have ok: "dict_ok (sc_cache c)" "sc_max_entries c = m" "sc_ttl_seconds c = ttl"
    using sem_run_ok [of "sem_init m ttl" env history] assms(1,2) by (simp_all add: sem_init_def)
  obtain rest e where s: "dict_get rest ?k = None" "dict_ok rest"
    "ce_response_body e = body" "ce_response_headers e = hs" "ce_created e = t0" "ce_ttl_seconds e = ttl"
    "sem_set env t0 r body hs saved c = Inr (c\<lparr>sc_cache := rest @ [(?k, e)]\<rparr>)"
    using sem_set_eq [of c env r body hs t0 saved] ok assms(1) by metis
  let ?c = "c\<lparr>sc_cache := rest @ [(?k, e)]\<rparr>"
  have "sem_held ?k e {} ?c" using recent_snoc [OF s(2,1)] by (simp add: sem_held_def)
  then have "sem_held ?k e ({} \<union> \<Union> (sem_used env ` set ops)) (fold (sem_step env) ops ?c)"
    using assms(3,4) ok by (intro sem.held_run) simp_all
  then have "dict_get (sc_cache (fold (sem_step env) ops ?c)) ?k = Some e"
    by (auto simp: sem_held_def dest: recent_get)
  then have "snd (sem_get env now r (fold (sem_step env) ops ?c)) = Some (e\<lparr>ce_hit_count := ce_hit_count e + 1\<rparr>)"
    using assms(5) s(5,6) by (simp add: sem_get_def Let_def)
  then show ?thesis using s(3,4,7)
    by (intro exI [of _ ?c] exI [of _ "e\<lparr>ce_hit_count := ce_hit_count e + 1\<rparr>"]) simp
qed

definition sem_sample_env :: sem_env where
  "sem_sample_env = \<lparr>se_sha256 = (\<lambda>s. s), se_float_repr = (\<lambda>_. [])\<rparr>"

definition sample_request :: "string \<Rightarrow> sem_request" where
  "sample_request m = \<lparr>sr_messages = [], sr_model = m, sr_key_fields = [(''system'', JStr ''x'')]\<rparr>"

theorem semantic_cache_retains_witness:
  "\<exists>c' e. sem_set sem_sample_env 0 (sample_request ''a'') ''body'' [] 0 (sem_init 2 60) = Inr c'
    \<and> snd (sem_get sem_sample_env 5 (sample_request ''a'') (fold (sem_step sem_sample_env) [SSet 1 (sample_request ''b'') ''other'' [] 0] c')) = Some e
    \<and> ce_response_body e = ''body'' \<and> ce_response_headers e = []"
proof (rule semantic_cache_retains [where history = "[]" and m = 2 and ttl = 60])
  have "compute_semantic_cache_key sem_sample_env (sample_request ''a'') \<noteq> compute_semantic_cache_key sem_sample_env (sample_request ''b'')"
    by code_simp
  then show "list_all (\<lambda>op. compute_semantic_cache_key sem_sample_env (sample_request ''a'') \<notin> sem_used sem_sample_env op)
      [SSet 1 (sample_request ''b'') ''other'' [] 0]" by simp
qed simp_all

text \<open>the cache never holds more than \<open>max_entries\<close> responses nor two under one key, after any
  history of lookups and stores; and annotating a shaping field with \<open>cache_control\<close>, at any depth,
  does not change the key.\<close>
theorem semantic_cache_capacity:
  assumes "0 < m"
  shows "int (length (sc_cache (fold (sem_step env) history (sem_init m ttl)))) \<le> m
    \<and> distinct (map fst (sc_cache (fold (sem_step env) history (sem_init m ttl))))
    \<and> compute_semantic_cache_key env (r\<lparr>sr_key_fields := map (\<lambda>(k, v). (k, strip_cache_control v)) (sr_key_fields r)\<rparr>)
      = compute_semantic_cache_key env r"
proof -
  let ?strip = "\<lambda>(k :: string, v). (k, strip_cache_control v)"
  have "map ?strip (map ?strip kvs) = map ?strip kvs" for kvs
    by (induction kvs) (auto simp: strip_idem)
  then have "compute_semantic_cache_key env (r\<lparr>sr_key_fields := map ?strip (sr_key_fields r)\<rparr>)
      = compute_semantic_cache_key env r"
    unfolding compute_semantic_cache_key_def
    by (cases r) (simp only: sem_request.select_convs sem_request.update_convs)
  then show ?thesis
    using sem_run_ok [of "sem_init m ttl" env history] assms by (simp add: sem_init_def)
qed

theorem semantic_cache_capacity_witness:
  "int (length (sc_cache (fold (sem_step sem_sample_env) [SSet 1 (sample_request ''a'') ''x'' [] 0, SSet 1 (sample_request ''b'') ''y'' [] 0]
      (sem_init 1 60)))) \<le> 1"
  by (rule conjunct1 [OF semantic_cache_capacity]) simp

end
