(* ===== verification/Compression_Cache.thy ===== *)
theory Compression_Cache
  imports Semantic_Cache
begin

text \<open>
  The content-addressed compression cache of token mode (\<open>headroom/cache/compression_cache.py\<close>): an
  LRU map from the hash of a tool result to its compressed text, and the functions that find and
  swap tool results in messages. A message is the item list of its dictionary. MD5 is an argument.
  The list form of \<open>content_hash\<close> has no caller here and is left out.
\<close>

section \<open>Tool results in messages\<close>

type_synonym msg = "(string \<times> json) list"

definition is_type :: "string \<Rightarrow> json \<Rightarrow> bool" where
  "is_type t block = (case block of JDict kvs \<Rightarrow> jget kvs ''type'' = Some (JStr t) | _ \<Rightarrow> False)"

definition is_tool_result_message :: "msg \<Rightarrow> bool" where
  "is_tool_result_message m =
     (jget m ''role'' = Some (JStr ''tool'')
      \<or> (case jget m ''content'' of Some (JList blocks) \<Rightarrow> list_ex (is_type ''tool_result'') blocks | _ \<Rightarrow> False))"

text \<open>\<open>b.get("text", "")\<close> of the text blocks; joining raises \<open>TypeError\<close> on one that is not a string.\<close>

fun block_texts :: "json list \<Rightarrow> py_error + string list" where
  "block_texts [] = Inr []"
| "block_texts (b # bs) =
     (case block_texts bs of
        Inl e \<Rightarrow> Inl e
      | Inr ts \<Rightarrow>
         (case b of
            JDict kvs \<Rightarrow>
              if is_type ''text'' b then
                (case jget kvs ''text'' of
                   None \<Rightarrow> Inr ts
                 | Some (JStr t) \<Rightarrow> Inr (if t = [] then ts else t # ts)
                 | _ \<Rightarrow> Inl TypeError)
              else Inr ts
          | _ \<Rightarrow> Inr ts))"

definition extract_text_from_blocks :: "json list \<Rightarrow> py_error + string option" where
  "extract_text_from_blocks blocks =
     (case block_texts blocks of
        Inl e \<Rightarrow> Inl e
      | Inr ts \<Rightarrow> Inr (let s = join_with [NL] ts in if s = [] then None else Some s))"

fun first_result_text :: "json list \<Rightarrow> py_error + string option" where
  "first_result_text [] = Inr None"
| "first_result_text (b # bs) =
     (if is_type ''tool_result'' b then
        (case b of
           JDict kvs \<Rightarrow>
             (case jget kvs ''content'' of
                Some (JStr s) \<Rightarrow> Inr (Some s)
              | Some (JList inner) \<Rightarrow> extract_text_from_blocks inner
              | _ \<Rightarrow> first_result_text bs)
         | _ \<Rightarrow> first_result_text bs)
      else first_result_text bs)"

definition extract_tool_result_content :: "msg \<Rightarrow> py_error + string option" where
  "extract_tool_result_content m =
     (if jget m ''role'' = Some (JStr ''tool'') then
        (case jget m ''content'' of
           Some (JStr s) \<Rightarrow> Inr (Some s)
         | Some (JList blocks) \<Rightarrow> extract_text_from_blocks blocks
         | _ \<Rightarrow> Inr None)
      else (case jget m ''content'' of
              Some (JList blocks) \<Rightarrow> first_result_text blocks
            | _ \<Rightarrow> Inr None))"

fun swap_first_result :: "string \<Rightarrow> json list \<Rightarrow> json list" where
  "swap_first_result new_content [] = []"
| "swap_first_result new_content (b # bs) =
     (if is_type ''tool_result'' b then
        (case b of
           JDict kvs \<Rightarrow>
             (case jget kvs ''content'' of
                Some (JList inner) \<Rightarrow>
                  JDict (dict_set ''content'' (JList [JDict [(''type'', JStr ''text''), (''text'', JStr new_content)]]) kvs) # bs
              | _ \<Rightarrow> JDict (dict_set ''content'' (JStr new_content) kvs) # bs)
         | _ \<Rightarrow> b # swap_first_result new_content bs)
      else b # swap_first_result new_content bs)"

definition swap_tool_result_content :: "msg \<Rightarrow> string \<Rightarrow> msg" where
  "swap_tool_result_content m new_content =
     (if jget m ''role'' = Some (JStr ''tool'') then dict_set ''content'' (JStr new_content) m
      else (case jget m ''content'' of
              Some (JList blocks) \<Rightarrow> dict_set ''content'' (JList (swap_first_result new_content blocks)) m
            | _ \<Rightarrow> m))"

section \<open>The cache\<close>

record cc_entry =
  cc_compressed :: string
  cc_tokens_saved :: int

record comp_cache =
  cc_max_entries :: int
  cc_cache :: "(string, cc_entry) pydict"
  cc_stable_hashes :: "string list"
  cc_first_seen :: "(string, rat) pydict"
  cc_hits :: int
  cc_misses :: int
  cc_total_tokens_saved :: int

definition cc_init :: "int \<Rightarrow> comp_cache" where
  "cc_init max_entries =
     \<lparr>cc_max_entries = max_entries, cc_cache = [], cc_stable_hashes = [], cc_first_seen = [], cc_hits = 0,
      cc_misses = 0, cc_total_tokens_saved = 0\<rparr>"

definition get_compressed :: "string \<Rightarrow> comp_cache \<Rightarrow> comp_cache \<times> string option" where
  "get_compressed h c =
     (case dict_get (cc_cache c) h of
        None \<Rightarrow> (c\<lparr>cc_misses := cc_misses c + 1\<rparr>, None)
      | Some entry \<Rightarrow>
         (c\<lparr>cc_hits := cc_hits c + 1, cc_cache := move_to_end h (cc_cache c)\<rparr>, Some (cc_compressed entry)))"

text \<open>\<open>while len > max_entries: popitem\<close> is \<open>pop_until\<close> at one more.\<close>

definition store_compressed :: "string \<Rightarrow> string \<Rightarrow> int \<Rightarrow> comp_cache \<Rightarrow> py_error + comp_cache" where
  "store_compressed h compressed tokens_saved c =
     (let c1 = (case dict_get (cc_cache c) h of
            None \<Rightarrow> c
          | Some old \<Rightarrow> c\<lparr>cc_total_tokens_saved := cc_total_tokens_saved c - cc_tokens_saved old,
                          cc_cache := dict_del h (cc_cache c)\<rparr>);
          c2 = c1\<lparr>cc_cache := dict_set h \<lparr>cc_compressed = compressed, cc_tokens_saved = tokens_saved\<rparr> (cc_cache c1),
                  cc_total_tokens_saved := cc_total_tokens_saved c1 + tokens_saved\<rparr>
      in case pop_until (cc_max_entries c2 + 1) (cc_cache c2) of
           Inl e \<Rightarrow> Inl e
         | Inr (evicted, rest) \<Rightarrow>
            Inr (c2\<lparr>cc_cache := rest,
                    cc_total_tokens_saved := cc_total_tokens_saved c2 - sum_list (map (cc_tokens_saved \<circ> snd) evicted)\<rparr>))"

definition mark_stable :: "string \<Rightarrow> comp_cache \<Rightarrow> comp_cache" where
  "mark_stable h c = c\<lparr>cc_stable_hashes := List.insert h (cc_stable_hashes c)\<rparr>"

definition content_hash :: "(string \<Rightarrow> string) \<Rightarrow> string \<Rightarrow> string" where
  "content_hash md5 content = take 16 (md5 (utf8_encode content))"

fun mark_stable_loop :: "(string \<Rightarrow> string) \<Rightarrow> msg list \<Rightarrow> comp_cache \<Rightarrow> py_error + comp_cache" where
  "mark_stable_loop md5 [] c = Inr c"
| "mark_stable_loop md5 (m # ms) c =
     (if is_tool_result_message m then
        (case extract_tool_result_content m of
           Inl e \<Rightarrow> Inl e
         | Inr None \<Rightarrow> mark_stable_loop md5 ms c
         | Inr (Some content) \<Rightarrow> mark_stable_loop md5 ms (mark_stable (content_hash md5 content) c))
      else mark_stable_loop md5 ms c)"

definition mark_stable_from_messages :: "(string \<Rightarrow> string) \<Rightarrow> msg list \<Rightarrow> nat \<Rightarrow> comp_cache \<Rightarrow> py_error + comp_cache" where
  "mark_stable_from_messages md5 messages up_to c = mark_stable_loop md5 (take up_to messages) c"

definition should_defer_compression :: "rat \<Rightarrow> rat \<Rightarrow> rat \<Rightarrow> string \<Rightarrow> comp_cache \<Rightarrow> comp_cache \<times> bool" where
  "should_defer_compression now ttl_seconds batch_window h c =
     (case dict_get (cc_first_seen c) h of
        None \<Rightarrow> (c\<lparr>cc_first_seen := dict_set h now (cc_first_seen c)\<rparr>, False)
      | Some first_seen \<Rightarrow>
         (let age = now - first_seen in if ttl_seconds - batch_window \<le> age then (c, False) else (c, True)))"

definition cc_get_stats :: "comp_cache \<Rightarrow> (string \<times> int) list" where
  "cc_get_stats c =
     [(''entries'', int (length (cc_cache c))), (''stable_hashes'', int (length (cc_stable_hashes c))),
      (''hits'', cc_hits c), (''misses'', cc_misses c), (''tokens_saved'', cc_total_tokens_saved c)]"

fun frozen_loop :: "(string \<Rightarrow> string) \<Rightarrow> comp_cache \<Rightarrow> msg list \<Rightarrow> py_error + nat" where
  "frozen_loop md5 c [] = Inr 0"
| "frozen_loop md5 c (m # ms) =
     (let go_on = (case frozen_loop md5 c ms of Inl e \<Rightarrow> Inl e | Inr n \<Rightarrow> Inr (Suc n))
      in if is_tool_result_message m then
           (case extract_tool_result_content m of
              Inl e \<Rightarrow> Inl e
            | Inr None \<Rightarrow> Inr 0
            | Inr (Some content) \<Rightarrow>
               (let h = content_hash md5 content
                in if dict_get (cc_cache c) h = None \<and> h \<notin> set (cc_stable_hashes c) then Inr 0 else go_on))
         else go_on)"

definition compute_frozen_count :: "(string \<Rightarrow> string) \<Rightarrow> msg list \<Rightarrow> comp_cache \<Rightarrow> py_error + nat" where
  "compute_frozen_count md5 messages c =
     (case frozen_loop md5 c messages of Inl e \<Rightarrow> Inl e | Inr count \<Rightarrow> Inr (min count (length messages - 1)))"

fun apply_cached :: "(string \<Rightarrow> string) \<Rightarrow> msg list \<Rightarrow> comp_cache \<Rightarrow> py_error + (comp_cache \<times> msg list)" where
  "apply_cached md5 [] c = Inr (c, [])"
| "apply_cached md5 (m # ms) c =
     (let cont = (\<lambda>m' c'. case apply_cached md5 ms c' of Inl e \<Rightarrow> Inl e | Inr (c'', out) \<Rightarrow> Inr (c'', m' # out))
      in if is_tool_result_message m then
           (case extract_tool_result_content m of
              Inl e \<Rightarrow> Inl e
            | Inr None \<Rightarrow> cont m c
            | Inr (Some content) \<Rightarrow>
               (case get_compressed (content_hash md5 content) c of
                  (c', Some compressed) \<Rightarrow> cont (swap_tool_result_content m compressed) c'
                | (c', None) \<Rightarrow> cont m c'))
         else cont m c)"

fun update_loop :: "(string \<Rightarrow> string) \<Rightarrow> (msg \<times> msg) list \<Rightarrow> comp_cache \<Rightarrow> py_error + comp_cache" where
  "update_loop md5 [] c = Inr c"
| "update_loop md5 ((orig, cmp) # ps) c =
     (case extract_tool_result_content orig of Inl e \<Rightarrow> Inl e | Inr oc \<Rightarrow>
       (case extract_tool_result_content cmp of Inl e \<Rightarrow> Inl e | Inr cc \<Rightarrow>
         (case (oc, cc) of
            (Some orig_content, Some comp_content) \<Rightarrow>
              if orig_content = comp_content then update_loop md5 ps (mark_stable (content_hash md5 orig_content) c)
              else (let h = content_hash md5 orig_content;
                        tokens_saved = int (length orig_content div 4) - int (length comp_content div 4)
                    in case store_compressed h comp_content (max tokens_saved 0) c of
                         Inl e \<Rightarrow> Inl e | Inr c' \<Rightarrow> update_loop md5 ps c')
          | _ \<Rightarrow> update_loop md5 ps c)))"

definition update_from_result :: "(string \<Rightarrow> string) \<Rightarrow> msg list \<Rightarrow> msg list \<Rightarrow> comp_cache \<Rightarrow> py_error + comp_cache" where
  "update_from_result md5 originals compressed c =
     (if length originals \<noteq> length compressed then Inr c else update_loop md5 (zip originals compressed) c)"

section \<open>Runs\<close>

datatype cc_op =
    CGet string
  | CStore string string int
  | CMark string
  | CDefer rat rat rat string

fun cc_step :: "cc_op \<Rightarrow> comp_cache \<Rightarrow> comp_cache" where
  "cc_step (CGet h) c = fst (get_compressed h c)"
| "cc_step (CStore h s n) c = (case store_compressed h s n c of Inl e \<Rightarrow> c | Inr c' \<Rightarrow> c')"
| "cc_step (CMark h) c = mark_stable h c"
| "cc_step (CDefer now ttl w h) c = fst (should_defer_compression now ttl w h c)"

definition saved :: "(string, cc_entry) pydict \<Rightarrow> int" where
  "saved d = sum_list (map (cc_tokens_saved \<circ> snd) d)"

definition cc_ok :: "comp_cache \<Rightarrow> bool" where
  "cc_ok c = (dict_ok (cc_cache c) \<and> int (length (cc_cache c)) \<le> cc_max_entries c
     \<and> cc_total_tokens_saved c = saved (cc_cache c))"

lemma saved_append [simp]: "saved (a @ b) = saved a + saved b"
  by (simp add: saved_def)

lemma saved_single [simp]: "saved [(k, e)] = cc_tokens_saved e"
  by (simp add: saved_def)

lemma saved_del: "dict_ok d \<Longrightarrow> dict_get d k = Some e \<Longrightarrow> saved (dict_del k d) = saved d - cc_tokens_saved e"
  using sum_dict_del [of d k e "cc_tokens_saved \<circ> snd"] by (simp add: saved_def comp_def)

lemma saved_move: "dict_ok d \<Longrightarrow> saved (move_to_end k d) = saved d"
  by (auto simp: move_to_end_def saved_del split: option.splits)

text \<open>The dictionary as it is before eviction: the old entry gone, the new one last.\<close>

lemma store_compressed_eq:
  fixes h s :: string and n :: int
  assumes "dict_ok (cc_cache c)" "0 \<le> cc_max_entries c"
  defines "d \<equiv> dict_del h (cc_cache c) @ [(h, \<lparr>cc_compressed = s, cc_tokens_saved = n\<rparr>)]"
  shows "\<exists>evicted rest. pop_until (cc_max_entries c + 1) d = Inr (evicted, rest) \<and> d = evicted @ rest
    \<and> store_compressed h s n c = Inr (c\<lparr>cc_cache := rest,
        cc_total_tokens_saved := cc_total_tokens_saved c
          - (case dict_get (cc_cache c) h of None \<Rightarrow> 0 | Some old \<Rightarrow> cc_tokens_saved old) + n - saved evicted\<rparr>)"
proof -
  let ?k = "nat (int (length d) - (cc_max_entries c + 1) + 1)"
  have p: "pop_until (cc_max_entries c + 1) d = Inr (take ?k d, drop ?k d)"
    using assms(2) by (intro pop_until_eq) simp
  have "dict_set h e (dict_del h (cc_cache c)) = dict_del h (cc_cache c) @ [(h, e)]" for e
    by (rule dict_set_new) (simp add: dict_simps)
  moreover have "dict_get (cc_cache c) h = None \<Longrightarrow> dict_set h e (cc_cache c) = dict_del h (cc_cache c) @ [(h, e)]" for e
    by (simp add: dict_set_new dict_del_absent)
  ultimately have "store_compressed h s n c = Inr (c\<lparr>cc_cache := drop ?k d,
        cc_total_tokens_saved := cc_total_tokens_saved c
          - (case dict_get (cc_cache c) h of None \<Rightarrow> 0 | Some old \<Rightarrow> cc_tokens_saved old) + n - saved (take ?k d)\<rparr>)"
    using p by (auto simp: store_compressed_def Let_def d_def saved_def split: option.splits)
  with p show ?thesis by (intro exI [of _ "take ?k d"] exI [of _ "drop ?k d"]) simp
qed

lemma cc_ok_store:
  assumes "cc_ok c" "0 \<le> cc_max_entries c"
  shows "cc_ok (cc_step (CStore h s n) c) \<and> cc_max_entries (cc_step (CStore h s n) c) = cc_max_entries c"
proof -
  let ?d = "dict_del h (cc_cache c) @ [(h, \<lparr>cc_compressed = s, cc_tokens_saved = n\<rparr>)]"
  have ok: "dict_ok (cc_cache c)" using assms(1) by (simp add: cc_ok_def)
  obtain ev rest where r: "pop_until (cc_max_entries c + 1) ?d = Inr (ev, rest)" "?d = ev @ rest"
    "store_compressed h s n c = Inr (c\<lparr>cc_cache := rest, cc_total_tokens_saved := cc_total_tokens_saved c
        - (case dict_get (cc_cache c) h of None \<Rightarrow> 0 | Some old \<Rightarrow> cc_tokens_saved old) + n - saved ev\<rparr>)"
    using store_compressed_eq [OF ok assms(2), of h s n] by blast
  have "dict_ok ?d" using ok by (auto simp: AList.delete_eq distinct_map_filter)
  then have "dict_ok rest" unfolding r(2) by simp
  moreover have "int (length rest) \<le> cc_max_entries c" using pop_until_room [OF _ r(1)] assms(2) by simp
  moreover have "saved (dict_del h (cc_cache c)) + n = saved ev + saved rest"
    using arg_cong [OF r(2), of saved] by simp
  ultimately show ?thesis
    using assms(1) r(3) saved_del [OF ok, of h]
    by (cases "dict_get (cc_cache c) h") (simp_all add: cc_ok_def dict_del_absent)
qed

lemma cc_ok_step:
  "cc_ok c \<Longrightarrow> 0 \<le> cc_max_entries c \<Longrightarrow> cc_ok (cc_step op c) \<and> cc_max_entries (cc_step op c) = cc_max_entries c"
proof (cases op)
  case (CGet h)
  assume "cc_ok c"
  with CGet show ?thesis
    by (auto simp: cc_ok_def get_compressed_def dict_ok_move length_move saved_move split: option.splits)
next
  case (CStore h s n)
  assume "cc_ok c" "0 \<le> cc_max_entries c"
  with CStore cc_ok_store show ?thesis by blast
qed (auto simp: cc_ok_def mark_stable_def should_defer_compression_def Let_def split: option.splits)

section \<open>Properties\<close>

text \<open>the compression cache is bounded and its accounting exact: after any sequence of lookups, stores,
  stability marks and deferral queries it holds at most \<open>max_entries\<close> entries, and
  \<open>_total_tokens_saved\<close> is the sum of the savings of the entries it holds, overwrites and
  evictions included.\<close>
theorem compression_cache_accounting:
  assumes "0 \<le> m" and "c = fold cc_step ops (cc_init m)"
  shows "int (length (cc_cache c)) \<le> m
    \<and> cc_total_tokens_saved c = sum_list (map (\<lambda>(h, e). cc_tokens_saved e) (cc_cache c))"
proof -
  have "cc_ok (fold cc_step ops c0) \<and> cc_max_entries (fold cc_step ops c0) = m"
    if "cc_ok c0" "cc_max_entries c0 = m" for c0
    using that assms(1)
  proof (induction ops arbitrary: c0)
    case (Cons op ops)
    then show ?case using cc_ok_step [of c0 op] by simp
  qed simp
  moreover have "cc_ok (cc_init m)" "cc_max_entries (cc_init m) = m"
    using assms(1) by (simp_all add: cc_ok_def cc_init_def saved_def)
  ultimately have "cc_ok c \<and> cc_max_entries c = m" unfolding assms(2) by blast
  then show ?thesis by (auto simp: cc_ok_def saved_def comp_def case_prod_unfold)
qed

theorem compression_cache_accounting_witness:
  "int (length (cc_cache (fold cc_step [CStore ''a'' ''x'' 3, CStore ''b'' ''y'' 4, CStore ''a'' ''z'' 5, CGet ''b'', CStore ''c'' ''w'' 1]
      (cc_init 2)))) \<le> 2"
  by (rule conjunct1 [OF compression_cache_accounting [OF _ refl]]) simp

lemma find_first_result:
  assumes "find (is_type ''tool_result'') blocks = Some (JDict kvs)"
    and "jget kvs ''content'' = Some (JStr t) \<or> jget kvs ''content'' = Some (JList inner)" and "s \<noteq> []"
  shows "first_result_text (swap_first_result s blocks) = Inr (Some s)"
  using assms(1)
proof (induction blocks)
  case (Cons b bs)
  show ?case
  proof (cases "is_type ''tool_result'' b")
    case True
    with Cons.prems have b: "b = JDict kvs" by simp
    from True have "jget kvs ''type'' = Some (JStr ''tool_result'')" by (simp add: b is_type_def)
    then have "is_type ''tool_result'' (JDict (dict_set ''content'' v kvs))" for v
      by (simp add: is_type_def dict_simps)
    with True assms(2,3) show ?thesis
      by (auto simp: b dict_simps extract_text_from_blocks_def is_type_def)
  next
    case False
    with Cons show ?thesis by simp
  qed
qed simp

text \<open>what is swapped in is what is read back. For a tool message of either format, if the tool result that
  would be read carries text (a string, or a list of blocks, in the first result block of an
  Anthropic message), then after swapping in a non-empty text, extraction returns exactly that
  text, and the message is still a tool result.\<close>
theorem swap_then_extract:
  assumes "s \<noteq> []"
    and "jget m ''role'' = Some (JStr ''tool'')
      \<or> (\<exists>blocks kvs t inner. jget m ''content'' = Some (JList blocks)
           \<and> find (is_type ''tool_result'') blocks = Some (JDict kvs)
           \<and> (jget kvs ''content'' = Some (JStr t) \<or> jget kvs ''content'' = Some (JList inner)))"
  shows "extract_tool_result_content (swap_tool_result_content m s) = Inr (Some s)"
proof (cases "jget m ''role'' = Some (JStr ''tool'')")
  case True
  then show ?thesis by (simp add: swap_tool_result_content_def extract_tool_result_content_def dict_simps)
next
  case False
  with assms obtain blocks kvs t inner where "jget m ''content'' = Some (JList blocks)"
    "find (is_type ''tool_result'') blocks = Some (JDict kvs)"
    "jget kvs ''content'' = Some (JStr t) \<or> jget kvs ''content'' = Some (JList inner)" by blast
  with False find_first_result assms(1) show ?thesis
    by (simp add: swap_tool_result_content_def extract_tool_result_content_def dict_simps)
qed

theorem swap_then_extract_witness:
  "extract_tool_result_content (swap_tool_result_content [(''role'', JStr ''tool''), (''content'', JStr ''long'')] ''s'') = Inr (Some ''s'')"
  by (rule swap_then_extract) simp_all

text \<open>A message with two tool results, the first with the given items.\<close>

definition two_results :: "(string \<times> json) list \<Rightarrow> string \<Rightarrow> msg" where
  "two_results first t =
     [(''role'', JStr ''user''), (''content'', JList
        [JDict ([(''type'', JStr ''tool_result''), (''tool_use_id'', JStr ''a'')] @ first),
         JDict [(''type'', JStr ''tool_result''), (''tool_use_id'', JStr ''b''), (''content'', JStr t)]])]"

text \<open>with parallel tool calls the swap can hit the wrong result. In a message whose first tool result
  has no content and whose second has the text \<open>t\<close>, extraction reads \<open>t\<close>, but swapping writes the
  compressed text into the first result and leaves the second as it was.\<close>
theorem swap_hits_wrong_result:
  "extract_tool_result_content (two_results [] t) = Inr (Some t)
   \<and> swap_tool_result_content (two_results [] t) s = two_results [(''content'', JStr s)] t"
  by (simp add: two_results_def extract_tool_result_content_def swap_tool_result_content_def is_type_def)

end
