(* ===== verification/TTL_Stores.thy ===== *)
theory TTL_Stores
  imports Semantic_Cache
begin

text \<open>
  Three small stores with a time to live: \<open>SharedContext\<close> (\<open>headroom/shared_context.py\<close>),
  \<open>BatchContextStore\<close> (\<open>headroom/ccr/batch_store.py\<close>) and \<open>AdminSessionStore\<close>
  (\<open>headroom/admin/session.py\<close>). The compression pipeline \<open>headroom.compress.compress\<close> and the
  random session token are arguments. Rounded percentages and byte-size estimates are left out.
\<close>

section \<open>Shared context\<close>

record ContextEntry =
  cx_key :: string
  cx_original :: string
  cx_compressed :: string
  cx_original_tokens :: int
  cx_compressed_tokens :: int
  cx_agent :: "string option"
  cx_timestamp :: rat
  cx_transforms :: "string list"

record shared_context =
  sx_ttl :: int
  sx_max_entries :: int
  sx_entries :: "(string, ContextEntry) pydict"

definition shared_init :: "int \<Rightarrow> int \<Rightarrow> shared_context" where
  "shared_init ttl max_entries = \<lparr>sx_ttl = ttl, sx_max_entries = max_entries, sx_entries = []\<rparr>"

text \<open>\<open>min(d, key=...)\<close>: the first key with the least value.\<close>

fun oldest_key :: "(string, ContextEntry) pydict \<Rightarrow> string" where
  "oldest_key [] = []"
| "oldest_key [(k, e)] = k"
| "oldest_key ((k, e) # (k', e') # d) =
     (if cx_timestamp e' < cx_timestamp e then oldest_key ((k', e') # d) else oldest_key ((k, e) # d))"

lemma oldest_key_in: "d \<noteq> [] \<Longrightarrow> \<exists>e. (oldest_key d, e) \<in> set d \<and> (\<forall>(k, e') \<in> set d. cx_timestamp e \<le> cx_timestamp e')"
proof (induction d rule: oldest_key.induct)
  case (3 k e k' e' d)
  show ?case
  proof (cases "cx_timestamp e' < cx_timestamp e")
    case True
    obtain x where "(oldest_key ((k', e') # d), x) \<in> set ((k', e') # d)"
      "\<forall>(i, y) \<in> set ((k', e') # d). cx_timestamp x \<le> cx_timestamp y"
      using "3.IH"(1) [OF True] by blast
    with True show ?thesis by (intro exI [of _ x]) auto
  next
    case False
    obtain x where "(oldest_key ((k, e) # d), x) \<in> set ((k, e) # d)"
      "\<forall>(i, y) \<in> set ((k, e) # d). cx_timestamp x \<le> cx_timestamp y"
      using "3.IH"(2) [OF False] by blast
    with False show ?thesis by (intro exI [of _ x]) auto
  qed
qed simp_all

lemma oldest_key_shorter: "d \<noteq> [] \<Longrightarrow> length (dict_del (oldest_key d) d) < length d"
  using oldest_key_in [of d] unfolding AList.delete_eq by (auto intro: length_filter_less)

text \<open>\<open>min\<close> of an empty dictionary raises \<open>ValueError\<close>; the loop reaches it when \<open>max_entries\<close> is not positive.\<close>

function evict_oldest :: "int \<Rightarrow> (string, ContextEntry) pydict \<Rightarrow> py_error + (string, ContextEntry) pydict" where
  "evict_oldest m d =
     (if m \<le> int (length d) then
        (if d = [] then Inl ValueError else evict_oldest m (dict_del (oldest_key d) d))
      else Inr d)"
  by pat_completeness auto
termination
  by (relation "measure (length \<circ> snd)") (simp_all add: oldest_key_shorter)

declare evict_oldest.simps [simp del]

definition cx_expired :: "rat \<Rightarrow> int \<Rightarrow> ContextEntry \<Rightarrow> bool" where
  "cx_expired now ttl e = (of_int ttl < now - cx_timestamp e)"

definition shared_evict_if_needed :: "rat \<Rightarrow> string \<Rightarrow> shared_context \<Rightarrow> py_error + shared_context" where
  "shared_evict_if_needed now incoming_key c =
     (let expired = map fst (filter (\<lambda>(k, e). cx_expired now (sx_ttl c) e) (sx_entries c));
          d1 = dict_del_all expired (sx_entries c)
      in if dict_get d1 incoming_key \<noteq> None then Inr (c\<lparr>sx_entries := d1\<rparr>)
         else case evict_oldest (sx_max_entries c) d1 of Inl e \<Rightarrow> Inl e | Inr d2 \<Rightarrow> Inr (c\<lparr>sx_entries := d2\<rparr>))"

text \<open>What the pipeline returns for one tool message: its content, the token counts, the transforms.\<close>

record compress_result =
  cr_content :: json
  cr_tokens_before :: int
  cr_tokens_after :: int
  cr_transforms :: "string list"

definition shared_put ::
  "(rat \<Rightarrow> string) \<Rightarrow> (string \<Rightarrow> compress_result) \<Rightarrow> rat \<Rightarrow> rat \<Rightarrow> string \<Rightarrow> string \<Rightarrow> string option \<Rightarrow> shared_context
     \<Rightarrow> py_error + (shared_context \<times> ContextEntry)" where
  "shared_put frepr compress now now_evict key content agent c =
     (let result = compress content;
          compressed = (case cr_content result of JStr s \<Rightarrow> s | j \<Rightarrow> ascii_escape (json_dumps frepr j));
          entry = \<lparr>cx_key = key, cx_original = content, cx_compressed = compressed,
                   cx_original_tokens = cr_tokens_before result, cx_compressed_tokens = cr_tokens_after result,
                   cx_agent = agent, cx_timestamp = now, cx_transforms = cr_transforms result\<rparr>
      in case shared_evict_if_needed now_evict key c of
           Inl e \<Rightarrow> Inl e
         | Inr c1 \<Rightarrow> Inr (c1\<lparr>sx_entries := dict_set key entry (sx_entries c1)\<rparr>, entry))"

definition shared_get_entry :: "rat \<Rightarrow> string \<Rightarrow> shared_context \<Rightarrow> shared_context \<times> ContextEntry option" where
  "shared_get_entry now key c =
     (case dict_get (sx_entries c) key of
        None \<Rightarrow> (c, None)
      | Some e \<Rightarrow>
         if cx_expired now (sx_ttl c) e then (c\<lparr>sx_entries := dict_del key (sx_entries c)\<rparr>, None) else (c, Some e))"

definition shared_get :: "rat \<Rightarrow> string \<Rightarrow> bool \<Rightarrow> shared_context \<Rightarrow> shared_context \<times> string option" where
  "shared_get now key full c =
     (case dict_get (sx_entries c) key of
        None \<Rightarrow> (c, None)
      | Some e \<Rightarrow>
         if cx_expired now (sx_ttl c) e then (c\<lparr>sx_entries := dict_del key (sx_entries c)\<rparr>, None)
         else (c, Some (if full then cx_original e else cx_compressed e)))"

definition shared_keys :: "rat \<Rightarrow> shared_context \<Rightarrow> string list" where
  "shared_keys now c = map fst (filter (\<lambda>(k, e). now - cx_timestamp e \<le> of_int (sx_ttl c)) (sx_entries c))"

definition shared_clear :: "shared_context \<Rightarrow> shared_context" where
  "shared_clear c = c\<lparr>sx_entries := []\<rparr>"

section \<open>Batch contexts\<close>

definition DEFAULT_BATCH_CONTEXT_TTL :: int where
  "DEFAULT_BATCH_CONTEXT_TTL = 86400"

definition MAX_BATCH_CONTEXTS :: int where
  "MAX_BATCH_CONTEXTS = 10000"

record BatchRequestContext =
  brc_custom_id :: string
  brc_messages :: "json list"
  brc_tools :: "json list option"
  brc_model :: string
  brc_system_instruction :: "string option"
  brc_extras :: "(string, json) pydict"

record BatchContext =
  bc_batch_id :: string
  bc_provider :: string
  bc_created_at :: rat
  bc_expires_at :: rat
  bc_requests :: "(string, BatchRequestContext) pydict"
  bc_api_key :: "string option"
  bc_api_base_url :: "string option"

definition new_batch :: "string \<Rightarrow> string \<Rightarrow> rat \<Rightarrow> rat \<Rightarrow> BatchContext" where
  "new_batch batch_id provider created_at expires_at =
     \<lparr>bc_batch_id = batch_id, bc_provider = provider, bc_created_at = created_at,
      bc_expires_at = (if expires_at = 0 then created_at + of_int DEFAULT_BATCH_CONTEXT_TTL else expires_at),
      bc_requests = [], bc_api_key = None, bc_api_base_url = None\<rparr>"

definition batch_is_expired :: "rat \<Rightarrow> BatchContext \<Rightarrow> bool" where
  "batch_is_expired now b = (bc_expires_at b < now)"

definition add_request :: "BatchRequestContext \<Rightarrow> BatchContext \<Rightarrow> BatchContext" where
  "add_request r b = b\<lparr>bc_requests := dict_set (brc_custom_id r) r (bc_requests b)\<rparr>"

definition get_request :: "string \<Rightarrow> BatchContext \<Rightarrow> BatchRequestContext option" where
  "get_request custom_id b = dict_get (bc_requests b) custom_id"

record batch_store =
  bs_contexts :: "(string, BatchContext) pydict"
  bs_ttl :: int
  bs_max_contexts :: int

definition batch_init :: "int \<Rightarrow> int \<Rightarrow> batch_store" where
  "batch_init ttl max_contexts = \<lparr>bs_contexts = [], bs_ttl = ttl, bs_max_contexts = max_contexts\<rparr>"

definition cleanup_oldest :: "(string, BatchContext) pydict \<Rightarrow> (string, BatchContext) pydict" where
  "cleanup_oldest d =
     (if d = [] then d
      else (let sorted_entries = sort_key (bc_created_at \<circ> snd) d;
                to_remove = max 1 (length sorted_entries div 10)
            in dict_del_all (map fst (take to_remove sorted_entries)) d))"

definition batch_store_put :: "rat \<Rightarrow> BatchContext \<Rightarrow> batch_store \<Rightarrow> batch_store" where
  "batch_store_put now ctx s =
     (let d1 = (if bs_max_contexts s \<le> int (length (bs_contexts s)) then cleanup_oldest (bs_contexts s) else bs_contexts s)
      in s\<lparr>bs_contexts := dict_set (bc_batch_id ctx) (ctx\<lparr>bc_expires_at := now + of_int (bs_ttl s)\<rparr>) d1\<rparr>)"

definition batch_get :: "rat \<Rightarrow> string \<Rightarrow> batch_store \<Rightarrow> batch_store \<times> BatchContext option" where
  "batch_get now batch_id s =
     (case dict_get (bs_contexts s) batch_id of
        None \<Rightarrow> (s, None)
      | Some ctx \<Rightarrow>
         if batch_is_expired now ctx then (s\<lparr>bs_contexts := dict_del batch_id (bs_contexts s)\<rparr>, None) else (s, Some ctx))"

definition batch_remove :: "string \<Rightarrow> batch_store \<Rightarrow> batch_store \<times> bool" where
  "batch_remove batch_id s =
     (if dict_get (bs_contexts s) batch_id \<noteq> None
      then (s\<lparr>bs_contexts := dict_del batch_id (bs_contexts s)\<rparr>, True) else (s, False))"

definition batch_cleanup_expired :: "rat \<Rightarrow> batch_store \<Rightarrow> batch_store \<times> nat" where
  "batch_cleanup_expired now s =
     (let expired = map fst (filter (\<lambda>(k, ctx). bc_expires_at ctx < now) (bs_contexts s))
      in (s\<lparr>bs_contexts := dict_del_all expired (bs_contexts s)\<rparr>, length expired))"

definition count_by_provider :: "batch_store \<Rightarrow> (string, int) pydict" where
  "count_by_provider s =
     fold (\<lambda>(k, ctx) counts. dict_set (bc_provider ctx) (dict_get_default counts (bc_provider ctx) 0 + 1) counts) (bs_contexts s) []"

section \<open>Administrator sessions\<close>

record 'a session_store =
  ss_ttl :: int
  ss_sessions :: "(string, rat \<times> 'a) pydict"

definition session_init :: "int \<Rightarrow> 'a session_store" where
  "session_init ttl = \<lparr>ss_ttl = ttl, ss_sessions = []\<rparr>"

definition session_create :: "rat \<Rightarrow> string \<Rightarrow> 'a \<Rightarrow> 'a session_store \<Rightarrow> 'a session_store \<times> string" where
  "session_create now token data s =
     (s\<lparr>ss_sessions := dict_set token (now + of_int (ss_ttl s), data) (ss_sessions s)\<rparr>, token)"

definition session_get :: "rat \<Rightarrow> string \<Rightarrow> 'a session_store \<Rightarrow> 'a session_store \<times> 'a option" where
  "session_get now sid s =
     (case dict_get (ss_sessions s) sid of
        None \<Rightarrow> (s, None)
      | Some (expires_at, data) \<Rightarrow>
         if expires_at \<le> now then (s\<lparr>ss_sessions := dict_del sid (ss_sessions s)\<rparr>, None) else (s, Some data))"

definition session_delete :: "string \<Rightarrow> 'a session_store \<Rightarrow> 'a session_store \<times> bool" where
  "session_delete sid s =
     (if dict_get (ss_sessions s) sid \<noteq> None
      then (s\<lparr>ss_sessions := dict_del sid (ss_sessions s)\<rparr>, True) else (s, False))"

definition session_clean_expired :: "rat \<Rightarrow> 'a session_store \<Rightarrow> 'a session_store \<times> nat" where
  "session_clean_expired now s =
     (let expired = map fst (filter (\<lambda>(sid, expires_at, _). expires_at \<le> now) (ss_sessions s))
      in (s\<lparr>ss_sessions := dict_del_all expired (ss_sessions s)\<rparr>, length expired))"

definition active_count :: "'a session_store \<Rightarrow> nat" where
  "active_count s = length (ss_sessions s)"

section \<open>Facts\<close>

lemma evict_oldest_facts:
  assumes "0 < m" "dict_ok d"
  shows "\<exists>d'. evict_oldest m d = Inr d' \<and> int (length d') < m \<and> dict_ok d' \<and> set d' \<subseteq> set d
    \<and> (\<forall>(j, e) \<in> set d - set d'. \<forall>(i, e2) \<in> set d'. cx_timestamp e \<le> cx_timestamp e2)"
  using assms(2)
proof (induction d rule: measure_induct_rule [of length])
  case (less d)
  show ?case
  proof (cases "m \<le> int (length d)")
    case False
    then show ?thesis using less.prems by (subst evict_oldest.simps) simp
  next
    case True
    then have ne: "d \<noteq> []" using assms(1) by auto
    let ?k = "oldest_key d"
    obtain e where e: "(?k, e) \<in> set d" "\<forall>(k, e') \<in> set d. cx_timestamp e \<le> cx_timestamp e'"
      using oldest_key_in [OF ne] by blast
    have eq: "evict_oldest m d = evict_oldest m (dict_del ?k d)" using True ne by (subst evict_oldest.simps) simp
    obtain d' where d': "evict_oldest m (dict_del ?k d) = Inr d'" "int (length d') < m" "dict_ok d'"
      "set d' \<subseteq> set (dict_del ?k d)"
      "\<forall>(j, e) \<in> set (dict_del ?k d) - set d'. \<forall>(i, e2) \<in> set d'. cx_timestamp e \<le> cx_timestamp e2"
      using less.IH [OF oldest_key_shorter [OF ne]] less.prems by auto
    have sub: "set d' \<subseteq> set d" using d'(4) by (auto simp: AList.delete_eq)
    have "cx_timestamp x \<le> cx_timestamp e2" if "(j, x) \<in> set d - set d'" "(i, e2) \<in> set d'" for j x i e2
    proof (cases "j = ?k")
      case True
      then have "x = e" using that(1) e(1) less.prems by (metis DiffD1 eq_key_imp_eq_value)
      then show ?thesis using e(2) that(2) sub by auto
    next
      case False
      then have "(j, x) \<in> set (dict_del ?k d) - set d'" using that(1) by (simp add: AList.delete_eq)
      then show ?thesis using d'(5) that(2) by fastforce
    qed
    with d' sub eq show ?thesis by auto
  qed
qed

definition shared_ok :: "shared_context \<Rightarrow> bool" where
  "shared_ok c = (dict_ok (sx_entries c) \<and> int (length (sx_entries c)) \<le> sx_max_entries c)"

text \<open>Eviction for an incoming key: only expired and, if the key is new, oldest entries go.\<close>

lemma shared_evict_facts:
  assumes "0 < sx_max_entries c" "shared_ok c"
  shows "\<exists>d. shared_evict_if_needed now k c = Inr (c\<lparr>sx_entries := d\<rparr>) \<and> dict_ok d
    \<and> int (length (dict_set k v d)) \<le> sx_max_entries c
    \<and> (\<forall>j e. dict_get (sx_entries c) j = Some e \<longrightarrow> \<not> cx_expired now (sx_ttl c) e \<longrightarrow> dict_get d j \<noteq> Some e \<longrightarrow>
         (\<forall>e0. dict_get (sx_entries c) k = Some e0 \<longrightarrow> cx_expired now (sx_ttl c) e0)
         \<and> (\<forall>i e2. dict_get d i = Some e2 \<longrightarrow> cx_timestamp e \<le> cx_timestamp e2))"
proof -
  let ?ks = "map fst (filter (\<lambda>(k, e). cx_expired now (sx_ttl c) e) (sx_entries c))"
  let ?d = "dict_del_all ?ks (sx_entries c)"
  have ok: "dict_ok (sx_entries c)" "int (length (sx_entries c)) \<le> sx_max_entries c" using assms(2) by (simp_all add: shared_ok_def)
  have okd: "dict_ok ?d" using ok(1) by simp
  have keep: "dict_get ?d j = Some e" if "dict_get (sx_entries c) j = Some e" "\<not> cx_expired now (sx_ttl c) e" for j e
  proof -
    have "j \<notin> set ?ks" using that ok(1) by (auto dest: eq_key_imp_eq_value map_of_SomeD)
    then show ?thesis using that(1) by (simp only: dict_simps if_False)
  qed
  show ?thesis
  proof (cases "dict_get ?d k")
    case (Some e0)
    have "length (dict_set k v ?d) \<le> length (sx_entries c)"
      using length_dict_del_all_le [of ?ks "sx_entries c"] Some by (simp add: length_dict_set)
    with Some ok keep okd show ?thesis
      by (intro exI [of _ ?d]) (auto simp: shared_evict_if_needed_def Let_def)
  next
    case None
    obtain d' where d': "evict_oldest (sx_max_entries c) ?d = Inr d'" "int (length d') < sx_max_entries c" "dict_ok d'"
      "set d' \<subseteq> set ?d" "\<forall>(j, e) \<in> set ?d - set d'. \<forall>(i, e2) \<in> set d'. cx_timestamp e \<le> cx_timestamp e2"
      using evict_oldest_facts [OF assms(1) okd] by blast
    have "cx_timestamp e \<le> cx_timestamp e2"
      if "dict_get (sx_entries c) j = Some e" "\<not> cx_expired now (sx_ttl c) e" "dict_get d' j \<noteq> Some e" "dict_get d' i = Some e2"
      for j e i e2
    proof -
      have "(j, e) \<in> set ?d" using keep [OF that(1,2)] by (rule map_of_SomeD)
      moreover have "(j, e) \<notin> set d'" using that(3) d'(3) by auto
      moreover have "(i, e2) \<in> set d'" using that(4) by (rule map_of_SomeD)
      ultimately show ?thesis using d'(5) by fastforce
    qed
    moreover have "int (length (dict_set k v d')) \<le> sx_max_entries c" using d'(2) by (simp add: length_dict_set)
    moreover have "cx_expired now (sx_ttl c) e0" if "dict_get (sx_entries c) k = Some e0" for e0
      using keep [OF that] None by auto
    ultimately show ?thesis
      using None d'(1,3) by (intro exI [of _ d']) (auto simp: shared_evict_if_needed_def Let_def)
  qed
qed

lemma session_lifecycle:
  "snd (session_get now tok (fst (session_create t tok data s))) = (if now < t + of_int (ss_ttl s) then Some data else None)"
  "snd (session_get now tok (fst (session_delete tok s'))) = None"
  by (auto simp: session_get_def session_create_def session_delete_def dict_simps not_le split: option.splits)

lemma session_clean_expired_live:
  assumes "dict_ok (ss_sessions s)"
  shows "snd (session_get now sid (fst (session_clean_expired now s))) = snd (session_get now sid s)"
proof -
  let ?ks = "map fst (filter (\<lambda>(sid, expires_at, _). expires_at \<le> now) (ss_sessions s))"
  have "sid \<in> set ?ks \<longleftrightarrow> (\<exists>x d. dict_get (ss_sessions s) sid = Some (x, d) \<and> x \<le> now)"
    using assms by force
  then show ?thesis
    by (auto simp: session_get_def session_clean_expired_def Let_def dict_get_del_all simp del: set_map split: option.splits)
qed

section \<open>Properties\<close>

text \<open>sharing context keeps its promises. From any store within its capacity, a \<open>put\<close> succeeds and
  stays within it; the full text is readable until the TTL ends; and another agent's unexpired
  entry is only given up when the key is not already there unexpired, and then before any newer
  one: whatever remains, the new entry apart, is at least as recent.\<close>
theorem shared_put_keeps:
  assumes "0 < sx_max_entries c" and "dict_ok (sx_entries c)" and "int (length (sx_entries c)) \<le> sx_max_entries c"
  shows "\<exists>c' entry. shared_put frepr compress now now_evict k content agent c = Inr (c', entry)
    \<and> dict_ok (sx_entries c') \<and> int (length (sx_entries c')) \<le> sx_max_entries c' \<and> sx_max_entries c' = sx_max_entries c
    \<and> (\<forall>t. t - now \<le> of_int (sx_ttl c) \<longrightarrow> snd (shared_get t k True c') = Some content)
    \<and> (\<forall>j e. j \<noteq> k \<longrightarrow> dict_get (sx_entries c) j = Some e \<longrightarrow> \<not> cx_expired now_evict (sx_ttl c) e \<longrightarrow>
         dict_get (sx_entries c') j \<noteq> Some e \<longrightarrow>
         (\<forall>e0. dict_get (sx_entries c) k = Some e0 \<longrightarrow> cx_expired now_evict (sx_ttl c) e0)
         \<and> (\<forall>i e2. i \<noteq> k \<longrightarrow> dict_get (sx_entries c') i = Some e2 \<longrightarrow> cx_timestamp e \<le> cx_timestamp e2))"
proof -
  define entry where "entry = \<lparr>cx_key = k, cx_original = content,
      cx_compressed = (case cr_content (compress content) of JStr s \<Rightarrow> s | j \<Rightarrow> ascii_escape (json_dumps frepr j)),
      cx_original_tokens = cr_tokens_before (compress content), cx_compressed_tokens = cr_tokens_after (compress content),
      cx_agent = agent, cx_timestamp = now, cx_transforms = cr_transforms (compress content)\<rparr>"
  have so: "shared_ok c" using assms by (simp add: shared_ok_def)
  obtain d where d: "shared_evict_if_needed now_evict k c = Inr (c\<lparr>sx_entries := d\<rparr>)" "dict_ok d"
    "int (length (dict_set k entry d)) \<le> sx_max_entries c"
    "\<And>j e. dict_get (sx_entries c) j = Some e \<Longrightarrow> \<not> cx_expired now_evict (sx_ttl c) e \<Longrightarrow> dict_get d j \<noteq> Some e \<Longrightarrow>
         (\<forall>e0. dict_get (sx_entries c) k = Some e0 \<longrightarrow> cx_expired now_evict (sx_ttl c) e0)
         \<and> (\<forall>i e2. dict_get d i = Some e2 \<longrightarrow> cx_timestamp e \<le> cx_timestamp e2)"
    using shared_evict_facts [OF assms(1) so, of now_evict k entry] by blast
  let ?c = "c\<lparr>sx_entries := dict_set k entry d\<rparr>"
  have put: "shared_put frepr compress now now_evict k content agent c = Inr (?c, entry)"
    by (simp add: shared_put_def d(1) Let_def entry_def)
  have get: "snd (shared_get t k True ?c) = Some content" if "t - now \<le> of_int (sx_ttl c)" for t
    using that by (simp add: shared_get_def dict_simps cx_expired_def entry_def)
  have g: "dict_get (sx_entries ?c) j = (if j = k then Some entry else dict_get d j)" for j
    by (simp add: dict_simps)
  show ?thesis
  proof (intro exI [of _ ?c] exI [of _ entry] conjI)
    show "\<forall>j e. j \<noteq> k \<longrightarrow> dict_get (sx_entries c) j = Some e \<longrightarrow> \<not> cx_expired now_evict (sx_ttl c) e \<longrightarrow>
         dict_get (sx_entries ?c) j \<noteq> Some e \<longrightarrow>
         (\<forall>e0. dict_get (sx_entries c) k = Some e0 \<longrightarrow> cx_expired now_evict (sx_ttl c) e0)
         \<and> (\<forall>i e2. i \<noteq> k \<longrightarrow> dict_get (sx_entries ?c) i = Some e2 \<longrightarrow> cx_timestamp e \<le> cx_timestamp e2)"
      unfolding g using d(4) by presburger
  qed (use put get d(2,3) in simp_all)
qed

theorem shared_put_keeps_witness:
  "\<exists>c' entry. shared_put (\<lambda>_. []) (\<lambda>s. \<lparr>cr_content = JStr ''short'', cr_tokens_before = 9, cr_tokens_after = 1, cr_transforms = []\<rparr>)
      5 5 ''plan'' ''the whole plan'' None (shared_init 60 1) = Inr (c', entry)
    \<and> snd (shared_get 65 ''plan'' True c') = Some ''the whole plan''"
proof -
  have "0 < sx_max_entries (shared_init 60 1)" "dict_ok (sx_entries (shared_init 60 1))"
    "int (length (sx_entries (shared_init 60 1))) \<le> sx_max_entries (shared_init 60 1)" "sx_ttl (shared_init 60 1) = 60"
    by (simp_all add: shared_init_def)
  from shared_put_keeps [OF this(1-3), of "\<lambda>_. []"
      "\<lambda>s. \<lparr>cr_content = JStr ''short'', cr_tokens_before = 9, cr_tokens_after = 1, cr_transforms = []\<rparr>" 5 5 "''plan''" "''the whole plan''" None]
    this(4) show ?thesis by fastforce
qed

lemma take_sorted_hd: "d \<noteq> [] \<Longrightarrow> hd (sort_key f d) \<in> set (take (max 1 n) (sort_key f d))"
  by (cases "sort_key f d") (auto simp: take_Cons' max_def, metis length_0_conv length_sort list.size(3))

text \<open>storing a batch context again costs another batch its context. When the store is full, storing under
  an id that is already there still removes the oldest contexts first, although the number of
  contexts would not grow: the oldest other batch is then no longer found.\<close>
theorem batch_restore_drops_other:
  assumes "dict_ok (bs_contexts s)" and "bs_max_contexts s \<le> int (length (bs_contexts s))"
    and "dict_get (bs_contexts s) (bc_batch_id ctx) \<noteq> None"
    and "hd (sort_key (bc_created_at \<circ> snd) (bs_contexts s)) = (j, old)" and "j \<noteq> bc_batch_id ctx"
  shows "dict_get (bs_contexts s) j = Some old \<and> dict_get (bs_contexts (batch_store_put now ctx s)) j = None"
proof -
  let ?d = "bs_contexts s" and ?f = "bc_created_at \<circ> snd"
  have ne: "?d \<noteq> []" using assms(3) by auto
  have "(j, old) \<in> set (sort_key ?f ?d)" using ne assms(4) by (metis hd_in_set length_0_conv length_sort)
  then have "dict_get ?d j = Some old" using assms(1) by simp
  moreover have "j \<in> set (map fst (take (max 1 (length (sort_key ?f ?d) div 10)) (sort_key ?f ?d)))"
    using take_sorted_hd [OF ne, of ?f "length (sort_key ?f ?d) div 10"] assms(4) by (force simp: image_iff)
  then have "dict_get (cleanup_oldest ?d) j = None"
    using ne unfolding cleanup_oldest_def Let_def by (simp only: dict_get_del_all if_True if_False)
  ultimately show ?thesis
    using assms(2,5) by (simp add: batch_store_put_def Let_def dict_simps)
qed

definition sample_batches :: batch_store where
  "sample_batches = \<lparr>bs_contexts = [(''b1'', new_batch ''b1'' ''openai'' 1 9), (''b2'', new_batch ''b2'' ''openai'' 2 9)],
     bs_ttl = 60, bs_max_contexts = 2\<rparr>"

theorem batch_restore_drops_other_witness:
  "dict_get (bs_contexts (batch_store_put 5 (new_batch ''b2'' ''openai'' 2 9) sample_batches)) ''b1'' = None"
  by (rule conjunct2 [OF batch_restore_drops_other [where old = "new_batch ''b1'' ''openai'' 1 9"]])
     (simp_all add: sample_batches_def new_batch_def)

end
