(* ===== verification/CCR_Tool_Calls.thy ===== *)
theory CCR_Tool_Calls
  imports Py_Text
begin

text \<open>
  Calls of the retrieval tool in model responses: \<open>headroom/ccr/tool_calls.py\<close> and
  \<open>parse_tool_call\<close> of \<open>headroom/ccr/tool_injection.py\<close>. A response is a decoded JSON object; a tool
  call is any JSON value, since OpenAI's list is passed on unfiltered, and \<open>.get\<close> on a value that
  is no object raises. \<open>json.loads\<close> is a parameter \<open>loads\<close> (\<open>JSONDecodeError\<close> apart from its other
  errors, which the code does not catch), as is the \<open>repr\<close> of floats, lists and objects, \<open>rp\<close>.
\<close>

section \<open>Extraction\<close>

definition CCR_TOOL_NAME :: string where
  "CCR_TOOL_NAME = ''headroom_retrieve''"

definition has_type :: "string \<Rightarrow> json \<Rightarrow> bool" where
  "has_type ty block = (case block of JDict d \<Rightarrow> jget d ''type'' = Some (JStr ty) | _ \<Rightarrow> False)"

definition extract_tool_calls :: "(string, json) pydict \<Rightarrow> string \<Rightarrow> json list" where
  "extract_tool_calls response provider =
     (if provider = ''anthropic'' then
        (case dict_get_default response ''content'' (JList []) of
           JList content \<Rightarrow> filter (has_type ''tool_use'') content
         | _ \<Rightarrow> [])
      else if provider = ''openai'' then
        (case dict_get_default response ''choices'' (JList []) of
           JList (JDict first_choice # _) \<Rightarrow>
             (case dict_get_default first_choice ''message'' (JDict []) of
                JDict message \<Rightarrow>
                  (case dict_get_default message ''tool_calls'' (JList []) of JList tool_calls \<Rightarrow> tool_calls | _ \<Rightarrow> [])
              | _ \<Rightarrow> [])
         | _ \<Rightarrow> [])
      else if provider = ''google'' then
        (case dict_get_default response ''candidates'' (JList []) of
           JList (JDict first_candidate # _) \<Rightarrow>
             (case dict_get_default first_candidate ''content'' (JDict []) of
                JDict content \<Rightarrow>
                  (case dict_get_default content ''parts'' (JList []) of
                     JList parts \<Rightarrow>
                       filter (\<lambda>part. case part of JDict d \<Rightarrow> jget d ''functionCall'' \<noteq> None | _ \<Rightarrow> False) parts
                   | _ \<Rightarrow> [])
              | _ \<Rightarrow> [])
         | _ \<Rightarrow> [])
      else if provider = ''openai_responses'' then
        (case dict_get_default response ''output'' (JList []) of
           JList output \<Rightarrow> filter (has_type ''function_call'') output
         | _ \<Rightarrow> [])
      else [])"

text \<open>\<open>tool_call.get(k) or {}\<close>.\<close>

definition get_or_empty :: "json \<Rightarrow> string \<Rightarrow> py_error + json" where
  "get_or_empty tool_call k =
     and_then (json_get tool_call k JNull) (\<lambda>v. Inr (if truthy v then v else JDict []))"

definition names_ccr :: "json \<Rightarrow> py_error + bool" where
  "names_ccr v = and_then (json_get v ''name'' JNull) (\<lambda>n. Inr (n = JStr CCR_TOOL_NAME))"

definition is_ccr_tool_call :: "json \<Rightarrow> py_error + bool" where
  "is_ccr_tool_call tool_call =
     and_then (names_ccr tool_call) (\<lambda>b. if b then Inr True else
       and_then (and_then (get_or_empty tool_call ''function'') names_ccr) (\<lambda>b. if b then Inr True else
         and_then (get_or_empty tool_call ''functionCall'') names_ccr))"

primrec any_ccr :: "json list \<Rightarrow> py_error + bool" where
  "any_ccr [] = Inr False"
| "any_ccr (c # cs) = and_then (is_ccr_tool_call c) (\<lambda>b. if b then Inr True else any_ccr cs)"

definition has_ccr_tool_calls :: "(string, json) pydict \<Rightarrow> string \<Rightarrow> py_error + bool" where
  "has_ccr_tool_calls response provider = any_ccr (extract_tool_calls response provider)"

definition tool_call_id_for_provider :: "(json \<Rightarrow> string) \<Rightarrow> json \<Rightarrow> string \<Rightarrow> py_error + string" where
  "tool_call_id_for_provider rp tool_call provider =
     (if provider = ''google'' then
        and_then (json_get tool_call ''functionCall'' (JDict []))
          (\<lambda>f. Inr (case f of JDict d \<Rightarrow> py_str rp (dict_get_default d ''name'' (JStr CCR_TOOL_NAME)) | _ \<Rightarrow> CCR_TOOL_NAME))
      else if provider = ''openai_responses'' then
        and_then (json_get tool_call ''id'' (JStr []))
          (\<lambda>i. and_then (json_get tool_call ''call_id'' i) (\<lambda>c. Inr (py_str rp c)))
      else and_then (json_get tool_call ''id'' (JStr [])) (\<lambda>i. Inr (py_str rp i)))"

section \<open>Parsing one call\<close>

datatype loads_error = JSONDecodeError | LoadsError py_error

type_synonym json_loads = "string \<Rightarrow> loads_error + json"

text \<open>The arguments of a call are a JSON text; anything \<open>json.loads\<close> takes no offence at is a value.\<close>

definition decode_arguments :: "json_loads \<Rightarrow> json \<Rightarrow> py_error + json" where
  "decode_arguments loads args_str =
     (case args_str of
        JStr s \<Rightarrow>
          (case loads s of
             Inl JSONDecodeError \<Rightarrow> Inr (JDict [])
           | Inl (LoadsError e) \<Rightarrow> if e = TypeError then Inr (JDict []) else Inl e
           | Inr v \<Rightarrow> Inr v)
      | _ \<Rightarrow> Inr (JDict []))"

definition name_and_input :: "json_loads \<Rightarrow> json \<Rightarrow> string \<Rightarrow> py_error + json \<times> json" where
  "name_and_input loads tool_call provider =
     (if provider = ''anthropic'' then
        and_then (json_get tool_call ''name'' JNull) (\<lambda>name.
          and_then (json_get tool_call ''input'' (JDict [])) (\<lambda>input. Inr (name, input)))
      else if provider = ''openai'' then
        and_then (get_or_empty tool_call ''function'') (\<lambda>f.
          and_then (json_get f ''name'' JNull) (\<lambda>name.
            and_then (json_get f ''arguments'' (JStr ''{}'')) (\<lambda>args.
              and_then (decode_arguments loads args) (\<lambda>input. Inr (name, input)))))
      else if provider = ''google'' then
        and_then (get_or_empty tool_call ''functionCall'') (\<lambda>f.
          and_then (json_get f ''name'' JNull) (\<lambda>name.
            and_then (json_get f ''args'' (JDict [])) (\<lambda>input. Inr (name, input))))
      else if provider = ''openai_responses'' then
        and_then (json_get tool_call ''name'' JNull) (\<lambda>name.
          and_then (json_get tool_call ''arguments'' (JStr ''{}'')) (\<lambda>args.
            and_then (decode_arguments loads args) (\<lambda>input. Inr (name, input))))
      else
        and_then (json_get tool_call ''name'' JNull) (\<lambda>name.
          and_then (json_get tool_call ''args'' (JDict [])) (\<lambda>args.
            and_then (json_get tool_call ''input'' args) (\<lambda>input. Inr (name, input)))))"

definition lower_hex :: string where
  "lower_hex = ''0123456789abcdef''"

definition valid_hash :: "json option \<Rightarrow> string option" where
  "valid_hash hash_key =
     (case hash_key of
        Some (JStr h) \<Rightarrow>
          if length h \<noteq> 12 \<and> length h \<noteq> 24 then None
          else if \<not> list_all (\<lambda>c. c \<in> set lower_hex) (str_lower h) then None
          else Some (str_lower h)
      | _ \<Rightarrow> None)"

definition parse_tool_call :: "json_loads \<Rightarrow> json \<Rightarrow> string \<Rightarrow> py_error + string option" where
  "parse_tool_call loads tool_call provider =
     and_then (name_and_input loads tool_call provider) (\<lambda>(name, input_data).
       Inr (if name \<noteq> JStr CCR_TOOL_NAME then None
            else case input_data of JDict d \<Rightarrow> valid_hash (jget d ''hash'') | _ \<Rightarrow> None))"

section \<open>Splitting a response\<close>

record CCRToolCall =
  tc_tool_call_id :: string
  tc_hash_key :: string

fun split_calls :: "json_loads \<Rightarrow> (json \<Rightarrow> string) \<Rightarrow> string \<Rightarrow> json list \<Rightarrow> py_error + CCRToolCall list \<times> json list" where
  "split_calls loads rp provider [] = Inr ([], [])"
| "split_calls loads rp provider (tool_call # rest) =
     (case parse_tool_call loads tool_call provider of
        Inl e \<Rightarrow> Inl e
      | Inr None \<Rightarrow>
          and_then (split_calls loads rp provider rest) (\<lambda>(ccr, other). Inr (ccr, tool_call # other))
      | Inr (Some h) \<Rightarrow>
          and_then (tool_call_id_for_provider rp tool_call provider) (\<lambda>i.
            and_then (split_calls loads rp provider rest)
              (\<lambda>(ccr, other). Inr (\<lparr>tc_tool_call_id = i, tc_hash_key = h\<rparr> # ccr, other))))"

definition parse_ccr_tool_calls ::
  "json_loads \<Rightarrow> (json \<Rightarrow> string) \<Rightarrow> (string, json) pydict \<Rightarrow> string \<Rightarrow> py_error + CCRToolCall list \<times> json list" where
  "parse_ccr_tool_calls loads rp response provider = split_calls loads rp provider (extract_tool_calls response provider)"

section \<open>Lemmas\<close>

text \<open>A key the parser may hand to the store, and the well-formed call for each provider.\<close>

definition canonical_hash :: "string \<Rightarrow> bool" where
  "canonical_hash h = ((length h = 12 \<or> length h = 24) \<and> list_all (\<lambda>c. c \<in> set lower_hex) h)"

definition ccr_call :: "(json \<Rightarrow> string) \<Rightarrow> string \<Rightarrow> string \<Rightarrow> string \<Rightarrow> json" where
  "ccr_call dumps provider i h =
     (let name = (''name'', JStr CCR_TOOL_NAME); args = JDict [(''hash'', JStr h)]
      in if provider = ''openai'' then
           JDict [(''id'', JStr i), (''type'', JStr ''function''),
                  (''function'', JDict [name, (''arguments'', JStr (dumps args))])]
         else if provider = ''google'' then JDict [(''functionCall'', JDict [name, (''args'', args)])]
         else if provider = ''openai_responses'' then
           JDict [(''type'', JStr ''function_call''), (''call_id'', JStr i), name, (''arguments'', JStr (dumps args))]
         else JDict [(''type'', JStr ''tool_use''), (''id'', JStr i), name, (''input'', args)])"

lemma str_lower_hex: "list_all (\<lambda>c. c \<in> set lower_hex) h \<Longrightarrow> str_lower h = h"
proof -
  have "list_all (\<lambda>c. char_lower c = c) lower_hex"
    by code_simp
  then show "list_all (\<lambda>c. c \<in> set lower_hex) h \<Longrightarrow> str_lower h = h"
    by (auto simp: str_lower_def list_all_iff intro: map_idI)
qed

lemma valid_hash_canonical: "valid_hash v = Some h \<Longrightarrow> canonical_hash h \<and> str_lower h = h"
  by (auto simp: valid_hash_def canonical_hash_def split: option.splits json.splits if_splits)

lemma valid_hash_any_case: "canonical_hash (str_lower h) \<Longrightarrow> valid_hash (Some (JStr h)) = Some (str_lower h)"
  by (auto simp: valid_hash_def canonical_hash_def)

lemma parse_ccr_call:
  assumes "loads (dumps (JDict [(''hash'', JStr h)])) = Inr (JDict [(''hash'', JStr h)])"
    and "canonical_hash (str_lower h)"
  shows "parse_tool_call loads (ccr_call dumps provider i h) provider = Inr (Some (str_lower h))"
  using assms valid_hash_any_case [OF assms(2)]
  by (auto simp: parse_tool_call_def name_and_input_def get_or_empty_def ccr_call_def decode_arguments_def
      dict_get_default_def Let_def)

lemma parse_canonical: "parse_tool_call loads c provider = Inr (Some h) \<Longrightarrow> canonical_hash h \<and> str_lower h = h"
  by (auto simp: parse_tool_call_def and_then_Inr_iff dest!: valid_hash_canonical split: if_splits json.splits)

lemma split_calls_Inr:
  "split_calls loads rp provider calls = Inr (ccr, other) \<Longrightarrow>
     other = filter (\<lambda>c. parse_tool_call loads c provider = Inr None) calls
     \<and> list_all2 (\<lambda>c r. parse_tool_call loads c provider = Inr (Some (tc_hash_key r))
                        \<and> tool_call_id_for_provider rp c provider = Inr (tc_tool_call_id r))
         (filter (\<lambda>c. parse_tool_call loads c provider \<noteq> Inr None) calls) ccr"
proof (induction calls arbitrary: ccr other)
  case (Cons c calls)
  then show ?case
    by (cases "parse_tool_call loads c provider") (auto simp: and_then_Inr_iff split: option.splits)
qed simp

lemma is_dict_has_type: "has_type ty c \<Longrightarrow> \<exists>d. c = JDict d"
  by (cases c) (auto simp: has_type_def)

lemma split_calls_dicts:
  "list_all (has_type ''tool_use'') calls \<Longrightarrow> \<exists>r. split_calls loads rp ''anthropic'' calls = Inr r"
proof (induction calls)
  case (Cons c calls)
  then obtain d r where "c = JDict d" "split_calls loads rp ''anthropic'' calls = Inr r"
    using is_dict_has_type by fastforce
  then show ?case
    by (cases r) (auto simp: parse_tool_call_def name_and_input_def tool_call_id_for_provider_def split: option.splits)
qed simp

section \<open>Properties\<close>

text \<open>splitting a response loses and invents no call: the calls handed on as other tools are exactly those
  that do not parse as retrievals, in their order, and the retrievals are the remaining calls, in
  their order, each with its own identifier and the key that was parsed from it. Every such key is
  12 or 24 lower-case hexadecimal digits. For Anthropic responses the split never raises.\<close>
theorem ccr_calls_split:
  "(\<exists>r. parse_ccr_tool_calls loads rp response ''anthropic'' = Inr r)
   \<and> (parse_ccr_tool_calls loads rp response provider = Inr (ccr, other) \<longrightarrow>
        other = filter (\<lambda>c. parse_tool_call loads c provider = Inr None) (extract_tool_calls response provider)
        \<and> list_all2 (\<lambda>c r. parse_tool_call loads c provider = Inr (Some (tc_hash_key r))
                           \<and> tool_call_id_for_provider rp c provider = Inr (tc_tool_call_id r))
            (filter (\<lambda>c. parse_tool_call loads c provider \<noteq> Inr None) (extract_tool_calls response provider)) ccr
        \<and> list_all (\<lambda>r. canonical_hash (tc_hash_key r)) ccr)"
proof (intro conjI impI)
  have "list_all (has_type ''tool_use'') (extract_tool_calls response ''anthropic'')"
    by (auto simp: extract_tool_calls_def list_all_iff split: json.splits)
  then show "\<exists>r. parse_ccr_tool_calls loads rp response ''anthropic'' = Inr r"
    unfolding parse_ccr_tool_calls_def by (rule split_calls_dicts)
next
  assume r: "parse_ccr_tool_calls loads rp response provider = Inr (ccr, other)"
  note s = split_calls_Inr [OF r [unfolded parse_ccr_tool_calls_def]]
  show "other = filter (\<lambda>c. parse_tool_call loads c provider = Inr None) (extract_tool_calls response provider)"
    and l: "list_all2 (\<lambda>c r. parse_tool_call loads c provider = Inr (Some (tc_hash_key r))
                           \<and> tool_call_id_for_provider rp c provider = Inr (tc_tool_call_id r))
            (filter (\<lambda>c. parse_tool_call loads c provider \<noteq> Inr None) (extract_tool_calls response provider)) ccr"
    using s by simp_all
  show "list_all (\<lambda>r. canonical_hash (tc_hash_key r)) ccr"
    using l parse_canonical by (fastforce simp: list_all_iff list_all2_conv_all_nth in_set_conv_nth)
qed

definition sample_response :: "(string, json) pydict" where
  "sample_response =
     [(''content'', JList [JDict [(''type'', JStr ''text'')],
        JDict [(''type'', JStr ''tool_use''), (''id'', JStr ''t1''), (''name'', JStr ''Bash''), (''input'', JDict [])],
        ccr_call (\<lambda>_. []) ''anthropic'' ''t2'' ''ABCDEF012345''])]"

lemma sample_response_split:
  "parse_ccr_tool_calls loads rp sample_response ''anthropic'' =
     Inr ([\<lparr>tc_tool_call_id = ''t2'', tc_hash_key = ''abcdef012345''\<rparr>],
       [JDict [(''type'', JStr ''tool_use''), (''id'', JStr ''t1''), (''name'', JStr ''Bash''), (''input'', JDict [])]])"
proof -
  have "canonical_hash (str_lower ''ABCDEF012345'')" "str_lower ''ABCDEF012345'' = ''abcdef012345''"
    by code_simp+
  from valid_hash_any_case [OF this(1)] this(2) show ?thesis
    by (simp add: parse_ccr_tool_calls_def extract_tool_calls_def sample_response_def has_type_def ccr_call_def
        parse_tool_call_def name_and_input_def tool_call_id_for_provider_def dict_get_default_def CCR_TOOL_NAME_def)
qed

theorem ccr_calls_split_witness:
  "list_all (\<lambda>r. canonical_hash (tc_hash_key r)) [\<lparr>tc_tool_call_id = ''t2'', tc_hash_key = ''abcdef012345''\<rparr>]"
  using ccr_calls_split [of "\<lambda>_. Inl JSONDecodeError" "\<lambda>_. []" sample_response "''anthropic''"] sample_response_split
  by blast

end
