(* ===== verification/CCR_Tool_Injection.thy ===== *)
theory CCR_Tool_Injection
  imports CCR_Tool_Calls "HOL-Library.Monad_Syntax"
begin

text \<open>
  Injection of the retrieval tool into requests (\<open>headroom/ccr/tool_injection.py\<close>): the tool
  definitions, the system instructions, the marker patterns and the class \<open>CCRToolInjector\<close>.
  Messages are decoded JSON objects, tools any JSON values. A regular expression is a parser that
  matches at the start of a text and returns the hash group and the rest; \<open>findall\<close> tries it at
  every position and goes on behind a match. An exception discards the whole request, so the hashes
  collected before it are not kept.
\<close>

section \<open>Tool definition and instructions\<close>

definition hash_schema :: "string \<Rightarrow> json" where
  "hash_schema description =
     JDict [(''type'', JStr ''object''),
            (''properties'', JDict [(''hash'', JDict [(''type'', JStr ''string''), (''description'', JStr description)])]),
            (''required'', JList [JStr ''hash''])]"

definition create_ccr_tool_definition :: "string \<Rightarrow> json" where
  "create_ccr_tool_definition provider =
     (let d1 = ''Retrieve original uncompressed content that was compressed to save tokens. ''
               @ ''Use this when you need more data than what's shown in compressed tool results.'';
          d2 = d1 @ '' The hash is provided in compression markers like [N items compressed... hash=abc123].'';
          long = hash_schema ''Hash key from the compression marker (e.g., 'abc123' from hash=abc123)''
      in if provider = ''anthropic'' then
           JDict [(''name'', JStr CCR_TOOL_NAME), (''description'', JStr d2), (''input_schema'', long)]
         else if provider = ''google'' then
           JDict [(''name'', JStr CCR_TOOL_NAME), (''description'', JStr d1),
                  (''parameters'', hash_schema ''Hash key from the compression marker'')]
         else
           JDict [(''type'', JStr ''function''),
                  (''function'', JDict [(''name'', JStr CCR_TOOL_NAME), (''description'', JStr d2), (''parameters'', long)])])"

definition CONTEXT_PHRASE :: string where
  "CONTEXT_PHRASE = ''Compressed Context Available''"

text \<open>The endpoint is accepted and not used.\<close>

definition create_system_instructions :: "string list \<Rightarrow> string \<Rightarrow> string" where
  "create_system_instructions hashes retrieval_endpoint =
     (let hash_list = (if length hashes \<le> 5 then join_with '', '' hashes else join_with '', '' (take 5 hashes) @ '' ...'');
          q = [CHR 0x22]
      in join_with [NL]
          [[], ''## '' @ CONTEXT_PHRASE, [],
           ''Some tool outputs have been compressed to reduce context size. If you need'',
           ''the full uncompressed data, you can retrieve it using the `'' @ CCR_TOOL_NAME @ ''` tool.'', [],
           ''**How to retrieve:**'',
           ''- Call `'' @ CCR_TOOL_NAME @ ''(hash='' @ q @ ''<hash>'' @ q @ '')` to get the full original content back'', [],
           ''**Available hashes:** '' @ hash_list, [],
           ''Look for markers like `[N items compressed to M. Retrieve more: hash=abc123]`'',
           ''in tool results to find the hash for each compressed output.'', []])"

section \<open>Marker patterns\<close>

text \<open>\<open>\w\<close> on code points up to 255: letters, digits, other numerals and the underscore.\<close>

definition is_word :: "char \<Rightarrow> bool" where
  "is_word c =
     (let n = code_point c
      in 48 \<le> n \<and> n \<le> 57 \<or> 65 \<le> n \<and> n \<le> 90 \<or> 97 \<le> n \<and> n \<le> 122 \<or> n = 95
         \<or> n \<in> {170, 178, 179, 181, 185, 186, 188, 189, 190} \<or> 192 \<le> n \<and> n \<noteq> 215 \<and> n \<noteq> 247)"

definition word_then :: "string \<Rightarrow> (string \<times> string) option" where
  "word_then s = (let w = takeWhile is_word s in if w = [] then None else Some (w, dropWhile is_word s))"

definition is_lower_hex :: "char \<Rightarrow> bool" where
  "is_lower_hex c = (c \<in> set lower_hex)"

text \<open>Exactly \<open>n\<close> characters of a class.\<close>

definition exactly :: "nat \<Rightarrow> (char \<Rightarrow> bool) \<Rightarrow> string \<Rightarrow> (string \<times> string) option" where
  "exactly n P s = (if n \<le> length s \<and> list_all P (take n s) then Some (take n s, drop n s) else None)"

type_synonym matcher = "string \<Rightarrow> (string \<times> string) option"

definition MARKER_STANDARD :: matcher where
  "MARKER_STANDARD s = do {
     s \<leftarrow> after ''['' s; (_, s) \<leftarrow> digits_then s; s \<leftarrow> after '' '' s; (_, s) \<leftarrow> word_then s;
     s \<leftarrow> after '' compressed to '' s; (_, s) \<leftarrow> digits_then s; s \<leftarrow> after ''. Retrieve more: hash='' s;
     (h, s) \<leftarrow> exactly 24 is_lower_hex s; s \<leftarrow> after '']'' s; Some (h, s) }"

definition MARKER_LEGACY :: matcher where
  "MARKER_LEGACY s = do {
     s \<leftarrow> after ''['' s; (_, s) \<leftarrow> digits_then s; s \<leftarrow> after '' '' s; (_, s) \<leftarrow> word_then s;
     s \<leftarrow> after '' compressed. hash='' s; (h, s) \<leftarrow> exactly 24 is_lower_hex s; s \<leftarrow> after '']'' s; Some (h, s) }"

text \<open>The generic pattern ignores case; \<open>.*?\<close> skips as little as possible and no line break.\<close>

definition after_ci :: "string \<Rightarrow> string \<Rightarrow> string option" where
  "after_ci p s = (if bytes_lower (take (length p) s) = p then Some (drop (length p) s) else None)"

definition generic_hash :: matcher where
  "generic_hash s = do {
     s \<leftarrow> after_ci ''hash='' s; (h, s) \<leftarrow> exactly 24 (\<lambda>c. is_lower_hex (byte_lower c)) s; s \<leftarrow> after '']'' s; Some (h, s) }"

fun lazily :: "matcher \<Rightarrow> matcher" where
  "lazily m [] = m []"
| "lazily m (c # s) =
     (case m (c # s) of
        Some r \<Rightarrow> Some r
      | None \<Rightarrow> if c = NL then None else lazily m s)"

definition MARKER_GENERIC :: matcher where
  "MARKER_GENERIC s = do {
     s \<leftarrow> after ''['' s;
     lazily (\<lambda>s. do { s \<leftarrow> after_ci ''compressed'' s; lazily generic_hash s }) s }"

text \<open>
  \<open>[a-f0-9]{12,24}\b\<close>: a shorter match would be followed by a hexadecimal digit, which is a word
  character, so only the whole run of digits can end at a word boundary.
\<close>

definition MARKER_CCR :: matcher where
  "MARKER_CCR s = do {
     s \<leftarrow> after ''<<ccr:'' s;
     let h = takeWhile is_lower_hex s; r = dropWhile is_lower_hex s
     in if 12 \<le> length h \<and> length h \<le> 24 \<and> (r = [] \<or> \<not> is_word (hd r)) then Some (h, r) else None }"

definition MARKER_READ :: matcher where
  "MARKER_READ s = do {
     s \<leftarrow> after ''Retrieve original: hash='' s;
     let h = take 24 (takeWhile is_lower_hex s)
     in if 12 \<le> length h then Some (h, drop (length h) s) else None }"

definition marker_patterns :: "matcher list" where
  "marker_patterns = [MARKER_STANDARD, MARKER_LEGACY, MARKER_GENERIC, MARKER_CCR, MARKER_READ]"

fun findall :: "matcher \<Rightarrow> string \<Rightarrow> string list" where
  "findall m [] = []"
| "findall m (c # s) =
     (case m (c # s) of
        None \<Rightarrow> findall m s
      | Some (h, rest) \<Rightarrow> h # findall m (drop (length s - length rest) s))"

section \<open>The injector\<close>

record ccr_injector =
  ti_provider :: string
  ti_inject_tool :: bool
  ti_inject_system_instructions :: bool
  ti_retrieval_endpoint :: string
  ti_detected_hashes :: "string list"

definition injector_init :: "string \<Rightarrow> bool \<Rightarrow> bool \<Rightarrow> string \<Rightarrow> ccr_injector" where
  "injector_init provider inject_tool inject_system endpoint =
     \<lparr>ti_provider = provider, ti_inject_tool = inject_tool, ti_inject_system_instructions = inject_system,
      ti_retrieval_endpoint = endpoint, ti_detected_hashes = []\<rparr>"

definition has_compressed_content :: "ccr_injector \<Rightarrow> bool" where
  "has_compressed_content ci = (0 < length (ti_detected_hashes ci))"

definition add_hash :: "string \<Rightarrow> string list \<Rightarrow> string list" where
  "add_hash h detected = (if h \<noteq> [] \<and> h \<notin> set detected then detected @ [h] else detected)"

definition scan_str :: "string \<Rightarrow> string list \<Rightarrow> string list" where
  "scan_str s detected = fold (\<lambda>pattern. fold add_hash (findall pattern s)) marker_patterns detected"

definition scan_text :: "json \<Rightarrow> string list \<Rightarrow> py_error + string list" where
  "scan_text t detected = (case t of JStr s \<Rightarrow> Inr (scan_str s detected) | _ \<Rightarrow> Inl TypeError)"

text \<open>A loop whose body may raise.\<close>

definition scan_item :: "json \<Rightarrow> string list \<Rightarrow> py_error + string list" where
  "scan_item item detected =
     (if has_type ''text'' item then and_then (json_get item ''text'' (JStr [])) (\<lambda>t. scan_text t detected) else Inr detected)"

definition scan_block :: "json \<Rightarrow> string list \<Rightarrow> py_error + string list" where
  "scan_block block detected =
     (if has_type ''text'' block then and_then (json_get block ''text'' (JStr [])) (\<lambda>t. scan_text t detected)
      else if has_type ''tool_result'' block then
        and_then (json_get block ''content'' (JStr [])) (\<lambda>c.
          case c of
            JStr s \<Rightarrow> Inr (scan_str s detected)
          | JList items \<Rightarrow> fold_err scan_item items detected
          | _ \<Rightarrow> Inr detected)
      else Inr detected)"

definition scan_part :: "json \<Rightarrow> string list \<Rightarrow> py_error + string list" where
  "scan_part part detected =
     (case part of
        JDict d \<Rightarrow>
          (case jget d ''text'' of
             Some t \<Rightarrow> scan_text t detected
           | None \<Rightarrow>
               (case jget d ''functionResponse'' of
                  None \<Rightarrow> Inr detected
                | Some f \<Rightarrow>
                    and_then (json_get f ''response'' (JDict [])) (\<lambda>response.
                      case response of
                        JStr s \<Rightarrow> Inr (scan_str s detected)
                      | JDict kvs \<Rightarrow>
                          Inr (fold (\<lambda>(k, v) det. case v of JStr s \<Rightarrow> scan_str s det | _ \<Rightarrow> det) kvs detected)
                      | _ \<Rightarrow> Inr detected)))
      | _ \<Rightarrow> Inr detected)"

definition scan_content :: "json \<Rightarrow> string list \<Rightarrow> py_error + string list" where
  "scan_content content detected =
     (case content of
        JStr s \<Rightarrow> Inr (scan_str s detected)
      | JList blocks \<Rightarrow> fold_err scan_block blocks detected
      | _ \<Rightarrow> Inr detected)"

definition scan_message :: "(string, json) pydict \<Rightarrow> string list \<Rightarrow> py_error + string list" where
  "scan_message message detected =
     and_then (scan_content (dict_get_default message ''content'' (JStr [])) detected) (\<lambda>detected.
       case dict_get_default message ''parts'' (JList []) of
         JList parts \<Rightarrow> fold_err scan_part parts detected
       | _ \<Rightarrow> Inr detected)"

definition scan_for_markers :: "(string, json) pydict list \<Rightarrow> ccr_injector \<Rightarrow> py_error + ccr_injector" where
  "scan_for_markers messages ci =
     and_then (fold_err scan_message messages []) (\<lambda>detected. Inr (ci\<lparr>ti_detected_hashes := detected\<rparr>))"

text \<open>\<open>tool.get("name") or tool.get("function", {}).get("name")\<close>, and the loop that looks for the tool.\<close>

definition tool_name :: "json \<Rightarrow> py_error + json" where
  "tool_name tool =
     and_then (json_get tool ''name'' JNull) (\<lambda>n. if truthy n then Inr n else
       and_then (json_get tool ''function'' (JDict [])) (\<lambda>f. json_get f ''name'' JNull))"

primrec tool_present :: "json list \<Rightarrow> py_error + bool" where
  "tool_present [] = Inr False"
| "tool_present (t # ts) = and_then (tool_name t) (\<lambda>n. if n = JStr CCR_TOOL_NAME then Inr True else tool_present ts)"

definition tools_or_empty :: "json list option \<Rightarrow> json list" where
  "tools_or_empty tools = (case tools of None \<Rightarrow> [] | Some ts \<Rightarrow> ts)"

definition inject_tool_definition :: "json list option \<Rightarrow> bool \<Rightarrow> ccr_injector \<Rightarrow> py_error + json list \<times> bool" where
  "inject_tool_definition tools session_has_done_ccr ci =
     (let ts = tools_or_empty tools
      in if \<not> ti_inject_tool ci then Inr (ts, False)
         else if \<not> (session_has_done_ccr \<or> has_compressed_content ci) then Inr (ts, False)
         else and_then (tool_present ts) (\<lambda>present.
           if present then Inr (ts, False) else Inr (ts @ [create_ccr_tool_definition (ti_provider ci)], True)))"

text \<open>\<open>sub in content\<close>: a substring, a list element or a key; other values are not containers.\<close>

fun contains_str :: "string \<Rightarrow> string \<Rightarrow> bool" where
  "contains_str sub [] = (sub = [])"
| "contains_str sub (c # s) = (startswith (c # s) sub \<or> contains_str sub s)"

fun in_content :: "string \<Rightarrow> json \<Rightarrow> py_error + bool" where
  "in_content sub (JStr s) = Inr (contains_str sub s)"
| "in_content sub (JList xs) = Inr (JStr sub \<in> set xs)"
| "in_content sub (JDict d) = Inr (jget d sub \<noteq> None)"
| "in_content sub _ = Inl TypeError"

definition is_system :: "(string, json) pydict \<Rightarrow> bool" where
  "is_system message = (jget message ''role'' = Some (JStr ''system''))"

definition update_system :: "string \<Rightarrow> (string, json) pydict \<Rightarrow> py_error + (string, json) pydict" where
  "update_system instructions message =
     (let content = dict_get_default message ''content'' (JStr [])
      in and_then (in_content CONTEXT_PHRASE content) (\<lambda>present.
           if present then Inr message
           else case content of
                  JStr s \<Rightarrow> Inr (dict_set ''content'' (JStr (s @ instructions)) message)
                | _ \<Rightarrow> Inr message))"

text \<open>The loop over the messages, up to the first system message; \<open>None\<close> when there is none.\<close>

fun update_first_system ::
  "string \<Rightarrow> (string, json) pydict list \<Rightarrow> py_error + (string, json) pydict list option" where
  "update_first_system instructions [] = Inr None"
| "update_first_system instructions (m # ms) =
     (if is_system m then and_then (update_system instructions m) (\<lambda>m'. Inr (Some (m' # ms)))
      else and_then (update_first_system instructions ms) (\<lambda>r. Inr (map_option ((#) m) r)))"

definition inject_into_system_message ::
  "(string, json) pydict list \<Rightarrow> ccr_injector \<Rightarrow> py_error + (string, json) pydict list" where
  "inject_into_system_message messages ci =
     (if \<not> ti_inject_system_instructions ci \<or> \<not> has_compressed_content ci then Inr messages
      else
        let instructions = create_system_instructions (ti_detected_hashes ci) (ti_retrieval_endpoint ci)
        in and_then (update_first_system instructions messages) (\<lambda>r.
             Inr (case r of
                    Some ms \<Rightarrow> ms
                  | None \<Rightarrow> [(''role'', JStr ''system''), (''content'', JStr (strip instructions))] # messages)))"

definition process_request ::
  "(string, json) pydict list \<Rightarrow> json list option \<Rightarrow> bool \<Rightarrow> ccr_injector \<Rightarrow>
   py_error + ccr_injector \<times> (string, json) pydict list \<times> json list option \<times> bool" where
  "process_request messages tools session_has_done_ccr ci =
     and_then (scan_for_markers messages ci) (\<lambda>ci.
       if \<not> (has_compressed_content ci \<or> session_has_done_ccr) then Inr (ci, messages, tools, False)
       else
         and_then (inject_tool_definition tools session_has_done_ccr ci) (\<lambda>(updated_tools, was_injected).
           and_then (inject_into_system_message messages ci) (\<lambda>updated_messages.
             Inr (ci, updated_messages, (if updated_tools \<noteq> [] then Some updated_tools else None), was_injected))))"

section \<open>No marker is missed\<close>

text \<open>
  What a marker pattern promises: a match takes a non-empty piece of text; a well-formed marker
  (\<open>good marker hash following_text\<close>) matches where it stands; and a match that begins before the
  marker returns the marker's hash or ends before the marker. Then \<open>findall\<close> finds the marker's
  hash in any surroundings.
\<close>

locale marker_pattern =
  fixes m :: matcher and good :: "string \<Rightarrow> string \<Rightarrow> string \<Rightarrow> bool"
  assumes consumes: "m s = Some (h, r) \<Longrightarrow> \<exists>u. u \<noteq> [] \<and> s = u @ r"
    and matches: "good mk h post \<Longrightarrow> \<exists>r. m (mk @ post) = Some (h, r)"
    and no_overrun: "good mk h post \<Longrightarrow> q \<noteq> [] \<Longrightarrow> m (q @ mk @ post) = Some (h', r) \<Longrightarrow>
      h' = h \<or> (\<exists>q'. r = q' @ mk @ post)"
begin

lemma findall_step: "m (c # s) = Some (h, r) \<Longrightarrow> findall m (c # s) = h # findall m r"
  using consumes [of "c # s" h r] by (auto simp: neq_Nil_conv)

lemma found:
  assumes "good mk h post"
  shows "h \<in> set (findall m (pre @ mk @ post))"
proof (induction "length pre" arbitrary: pre rule: less_induct)
  case less
  show ?case
  proof (cases pre)
    case Nil
    obtain r where r: "m (mk @ post) = Some (h, r)"
      using matches [OF assms] by blast
    then obtain c s where "mk @ post = c # s"
      using consumes by (metis append_is_Nil_conv neq_Nil_conv)
    with r Nil findall_step show ?thesis by fastforce
  next
    case (Cons c q)
    show ?thesis
    proof (cases "m (pre @ mk @ post)")
      case None
      with Cons less show ?thesis by simp
    next
      case (Some hr)
      obtain h' r where hr: "hr = (h', r)" by fastforce
      have split: "findall m (pre @ mk @ post) = h' # findall m r"
        using findall_step [of c "q @ mk @ post" h' r] Some hr Cons by simp
      consider "h' = h" | q' where "r = q' @ mk @ post"
        using no_overrun [OF assms, of pre h' r] Some hr Cons by auto
      then show ?thesis
      proof cases
        case 1
        with split show ?thesis by simp
      next
        case (2 q')
        obtain u where "u \<noteq> []" "pre @ mk @ post = u @ r"
          using consumes Some hr by blast
        then have "length q' < length pre"
          using 2 by (auto dest: arg_cong [where f = length])
        with less have "h \<in> set (findall m r)" using 2 by simp
        with split show ?thesis by simp
      qed
    qed
  qed
qed

end

lemma overrun_head:
  assumes "q \<noteq> []" "q @ c # x = u @ r" "c \<notin> set (tl u)"
  shows "\<exists>q'. r = q' @ c # x"
proof -
  consider us where "q @ us = u" "c # x = us @ r" | us where "q = u @ us" "us @ c # x = r"
    using assms(2) by (auto simp: append_eq_append_conv2)
  then show ?thesis
  proof cases
    case 1
    with assms(1,3) show ?thesis by (cases us) (auto simp: neq_Nil_conv)
  next
    case 2
    then show ?thesis by blast
  qed
qed

lemma overrun_end: "c @ x # post = v @ x # r \<Longrightarrow> x \<notin> set c \<Longrightarrow> length r \<le> length post"
proof (induction c arbitrary: v)
  case (Cons d c)
  then show ?case by (cases v) auto
qed (auto simp: Cons_eq_append_conv)

lemma word_then_append:
  assumes "list_all is_word w" "w \<noteq> []" "r = [] \<or> \<not> is_word (hd r)"
  shows "word_then (w @ r) = Some (w, r)"
proof -
  have "takeWhile is_word (w @ r) = w" "dropWhile is_word (w @ r) = r"
    using assms by (cases r; auto simp: list_all_iff takeWhile_append dropWhile_append)+
  with assms(2) show ?thesis by (simp add: word_then_def Let_def)
qed

lemma word_then_Some: "word_then s = Some (w, r) \<Longrightarrow> s = w @ r \<and> list_all is_word w"
  by (auto simp: word_then_def Let_def list_all_iff dest: set_takeWhileD split: if_splits)

lemma exactly_Some: "exactly n P s = Some (h, r) \<longleftrightarrow> s = h @ r \<and> length h = n \<and> list_all P h"
  by (auto simp: exactly_def append_eq_conv_conj min_def)

lemma exactly_append: "length h = n \<Longrightarrow> list_all P h \<Longrightarrow> exactly n P (h @ r) = Some (h, r)"
  by (simp add: exactly_Some)

lemma hex_run:
  assumes "list_all is_lower_hex h" "r = [] \<or> \<not> is_lower_hex (hd r)"
  shows "takeWhile is_lower_hex (h @ r) = h \<and> dropWhile is_lower_hex (h @ r) = r"
  using assms by (cases r) (auto simp: list_all_iff takeWhile_append dropWhile_append)

lemma class_facts:
  "is_word c \<Longrightarrow> c \<noteq> CHR ''[''" "is_digit c \<Longrightarrow> c \<noteq> CHR ''[''" "is_lower_hex c \<Longrightarrow> c \<noteq> CHR ''[''"
  "is_lower_hex c \<Longrightarrow> c \<noteq> CHR ''R''" "is_lower_hex c \<Longrightarrow> c \<noteq> CHR ''<''"
  by (auto simp: is_word_def is_digit_def is_lower_hex_def lower_hex_def)

lemma lower_hex_word: "is_lower_hex c \<Longrightarrow> is_word c"
proof -
  have "list_all is_word lower_hex" by code_simp
  then show "is_lower_hex c \<Longrightarrow> is_word c" by (auto simp: is_lower_hex_def list_all_iff)
qed

text \<open>The markers the compressors write: text, hash, and what may follow.\<close>

definition count_ok :: "string \<Rightarrow> bool" where
  "count_ok n = (n \<noteq> [] \<and> list_all is_digit n)"

definition standard_marker :: "string \<Rightarrow> string \<Rightarrow> string \<Rightarrow> bool" where
  "standard_marker mk h post \<longleftrightarrow> length h = 24 \<and> list_all is_lower_hex h \<and>
     (\<exists>n ty k. mk = ''['' @ n @ '' '' @ ty @ '' compressed to '' @ k @ ''. Retrieve more: hash='' @ h @ '']''
        \<and> count_ok n \<and> count_ok k \<and> ty \<noteq> [] \<and> list_all is_word ty)"

definition legacy_marker :: "string \<Rightarrow> string \<Rightarrow> string \<Rightarrow> bool" where
  "legacy_marker mk h post \<longleftrightarrow> length h = 24 \<and> list_all is_lower_hex h \<and>
     (\<exists>n ty. mk = ''['' @ n @ '' '' @ ty @ '' compressed. hash='' @ h @ '']''
        \<and> count_ok n \<and> ty \<noteq> [] \<and> list_all is_word ty)"

text \<open>Any other bracket marker on one line; the diff compressor's is one.\<close>

definition bracket_marker :: "string \<Rightarrow> string \<Rightarrow> string \<Rightarrow> bool" where
  "bracket_marker mk h post \<longleftrightarrow> length h = 24 \<and> list_all is_lower_hex h \<and>
     (\<exists>a b. mk = ''['' @ a @ ''compressed'' @ b @ ''hash='' @ h @ '']''
        \<and> NL \<notin> set (a @ b) \<and> CHR '']'' \<notin> set (a @ b))"

definition ccr_marker :: "string \<Rightarrow> string \<Rightarrow> string \<Rightarrow> bool" where
  "ccr_marker mk h post \<longleftrightarrow> mk = ''<<ccr:'' @ h \<and> 12 \<le> length h \<and> length h \<le> 24 \<and> list_all is_lower_hex h
     \<and> (post = [] \<or> \<not> is_word (hd post))"

definition read_marker :: "string \<Rightarrow> string \<Rightarrow> string \<Rightarrow> bool" where
  "read_marker mk h post \<longleftrightarrow> mk = ''Retrieve original: hash='' @ h \<and> 12 \<le> length h \<and> length h \<le> 24
     \<and> list_all is_lower_hex h \<and> (length h = 24 \<or> post = [] \<or> \<not> is_lower_hex (hd post))"

definition is_marker :: "string \<Rightarrow> string \<Rightarrow> string \<Rightarrow> bool" where
  "is_marker mk h post \<longleftrightarrow> standard_marker mk h post \<or> legacy_marker mk h post \<or> bracket_marker mk h post
     \<or> ccr_marker mk h post \<or> read_marker mk h post"

text \<open>What each pattern consumes.\<close>

lemma bracket_free:
  "list_all is_word w \<Longrightarrow> CHR ''['' \<notin> set w" "list_all is_digit w \<Longrightarrow> CHR ''['' \<notin> set w"
  "list_all is_lower_hex w \<Longrightarrow> CHR ''['' \<notin> set w"
  by (auto simp: list_all_iff dest: class_facts)

lemma MARKER_STANDARD_Some:
  assumes "MARKER_STANDARD s = Some (h, r)"
  shows "\<exists>u. s = CHR ''['' # u @ r \<and> CHR ''['' \<notin> set u"
proof -
  obtain n ty k where
    "s = ''['' @ n @ '' '' @ ty @ '' compressed to '' @ k @ ''. Retrieve more: hash='' @ h @ '']'' @ r"
    "list_all is_digit n" "list_all is_word ty" "list_all is_digit k" "list_all is_lower_hex h"
    using assms
    by (fastforce simp: MARKER_STANDARD_def after_Some_iff exactly_Some bind_eq_Some_conv
        dest!: digits_then_Some word_then_Some)
  then show ?thesis
    by (intro exI [of _ "n @ '' '' @ ty @ '' compressed to '' @ k @ ''. Retrieve more: hash='' @ h @ '']''"])
      (simp add: bracket_free)
qed

lemma MARKER_LEGACY_Some:
  assumes "MARKER_LEGACY s = Some (h, r)"
  shows "\<exists>u. s = CHR ''['' # u @ r \<and> CHR ''['' \<notin> set u"
proof -
  obtain n ty where "s = ''['' @ n @ '' '' @ ty @ '' compressed. hash='' @ h @ '']'' @ r"
    "list_all is_digit n" "list_all is_word ty" "list_all is_lower_hex h"
    using assms
    by (fastforce simp: MARKER_LEGACY_def after_Some_iff exactly_Some bind_eq_Some_conv
        dest!: digits_then_Some word_then_Some)
  then show ?thesis
    by (intro exI [of _ "n @ '' '' @ ty @ '' compressed. hash='' @ h @ '']''"]) (simp add: bracket_free)
qed

lemma MARKER_READ_Some:
  "MARKER_READ s = Some (h, r) \<Longrightarrow> \<exists>u. s = CHR ''R'' # u @ r \<and> CHR ''R'' \<notin> set u"
proof -
  assume "MARKER_READ s = Some (h, r)"
  then obtain t where t: "s = ''Retrieve original: hash='' @ t" "h = take 24 (takeWhile is_lower_hex t)" "r = drop (length h) t"
    by (auto simp: MARKER_READ_def after_Some_iff bind_eq_Some_conv Let_def split: if_splits)
  have "h = take (length h) t"
    using t(2) by (metis append_eq_conv_conj append_take_drop_id length_take min.cobounded2 take_take takeWhile_dropWhile_id take_append)
  then have "t = h @ r" using t(3) by (metis append_take_drop_id)
  moreover have "CHR ''R'' \<notin> set h"
    using t(2) class_facts(4) by (auto dest!: in_set_takeD set_takeWhileD)
  ultimately show ?thesis
    using t(1) by (intro exI [of _ "''etrieve original: hash='' @ h"]) simp
qed

lemma MARKER_CCR_Some:
  "MARKER_CCR s = Some (h, r) \<Longrightarrow> s = ''<<ccr:'' @ h @ r \<and> CHR ''<'' \<notin> set h \<and> h \<noteq> []"
  using class_facts(5)
  by (auto simp: MARKER_CCR_def after_Some_iff bind_eq_Some_conv Let_def dest!: set_takeWhileD split: if_splits)

interpretation std: marker_pattern MARKER_STANDARD standard_marker
proof
  fix s h r mk post q h' r'
  show "MARKER_STANDARD s = Some (h, r) \<Longrightarrow> \<exists>u. u \<noteq> [] \<and> s = u @ r"
    using MARKER_STANDARD_Some by fastforce
  assume mk: "standard_marker mk h post"
  then obtain n ty k where e: "mk = ''['' @ n @ '' '' @ ty @ '' compressed to '' @ k @ ''. Retrieve more: hash='' @ h @ '']''"
    and ok: "length h = 24" "list_all is_lower_hex h" "count_ok n" "count_ok k" "ty \<noteq> []" "list_all is_word ty"
    by (auto simp: standard_marker_def)
  show "\<exists>r. MARKER_STANDARD (mk @ post) = Some (h, r)"
    using ok
    by (simp add: MARKER_STANDARD_def e after_def startswith_def
        digits_then_append word_then_append exactly_append count_ok_def is_digit_def is_word_def)
  show "q \<noteq> [] \<Longrightarrow> MARKER_STANDARD (q @ mk @ post) = Some (h', r') \<Longrightarrow> h' = h \<or> (\<exists>q'. r' = q' @ mk @ post)"
    using MARKER_STANDARD_Some [of "q @ mk @ post" h' r'] e overrun_head [of q "CHR ''[''"] by fastforce
qed

interpretation leg: marker_pattern MARKER_LEGACY legacy_marker
proof
  fix s h r mk post q h' r'
  show "MARKER_LEGACY s = Some (h, r) \<Longrightarrow> \<exists>u. u \<noteq> [] \<and> s = u @ r"
    using MARKER_LEGACY_Some by fastforce
  assume mk: "legacy_marker mk h post"
  then obtain n ty where e: "mk = ''['' @ n @ '' '' @ ty @ '' compressed. hash='' @ h @ '']''"
    and ok: "length h = 24" "list_all is_lower_hex h" "count_ok n" "ty \<noteq> []" "list_all is_word ty"
    by (auto simp: legacy_marker_def)
  show "\<exists>r. MARKER_LEGACY (mk @ post) = Some (h, r)"
    using ok
    by (simp add: MARKER_LEGACY_def e after_def startswith_def
        digits_then_append word_then_append exactly_append count_ok_def is_digit_def is_word_def)
  show "q \<noteq> [] \<Longrightarrow> MARKER_LEGACY (q @ mk @ post) = Some (h', r') \<Longrightarrow> h' = h \<or> (\<exists>q'. r' = q' @ mk @ post)"
    using MARKER_LEGACY_Some [of "q @ mk @ post" h' r'] e overrun_head [of q "CHR ''[''"] by fastforce
qed

interpretation rd: marker_pattern MARKER_READ read_marker
proof
  fix s h r mk post q h' r'
  show "MARKER_READ s = Some (h, r) \<Longrightarrow> \<exists>u. u \<noteq> [] \<and> s = u @ r"
    using MARKER_READ_Some by fastforce
  assume mk: "read_marker mk h post"
  then have e: "mk = ''Retrieve original: hash='' @ h" and ok: "12 \<le> length h" "length h \<le> 24" "list_all is_lower_hex h"
    by (simp_all add: read_marker_def)
  have "take 24 (takeWhile is_lower_hex (h @ post)) = h"
    using mk hex_run [of h post] by (auto simp: read_marker_def takeWhile_append list_all_iff)
  moreover from this have "length h \<le> length (takeWhile is_lower_hex (h @ post))"
    by (metis length_take min.cobounded1)
  ultimately show "\<exists>r. MARKER_READ (mk @ post) = Some (h, r)"
    using ok by (simp add: MARKER_READ_def e after_def startswith_def Let_def)
  show "q \<noteq> [] \<Longrightarrow> MARKER_READ (q @ mk @ post) = Some (h', r') \<Longrightarrow> h' = h \<or> (\<exists>q'. r' = q' @ mk @ post)"
    using MARKER_READ_Some [of "q @ mk @ post" h' r'] e overrun_head [of q "CHR ''R''"] by fastforce
qed

interpretation cc: marker_pattern MARKER_CCR ccr_marker
proof
  fix s h r mk post q h' r'
  show "MARKER_CCR s = Some (h, r) \<Longrightarrow> \<exists>u. u \<noteq> [] \<and> s = u @ r"
    using MARKER_CCR_Some by fastforce
  assume mk: "ccr_marker mk h post"
  then have e: "mk = ''<<ccr:'' @ h" and ok: "12 \<le> length h" "length h \<le> 24" "list_all is_lower_hex h"
    and post: "post = [] \<or> \<not> is_word (hd post)"
    by (simp_all add: ccr_marker_def)
  have "takeWhile is_lower_hex (h @ post) = h \<and> dropWhile is_lower_hex (h @ post) = post"
    using hex_run ok(3) post lower_hex_word by blast
  then show "\<exists>r. MARKER_CCR (mk @ post) = Some (h, r)"
    using ok post by (simp add: MARKER_CCR_def e after_def startswith_def Let_def del: dropWhile_eq_Nil_conv)
  assume q: "q \<noteq> []" and m: "MARKER_CCR (q @ mk @ post) = Some (h', r')"
  have u: "q @ mk @ post = ''<<ccr:'' @ h' @ r'" "CHR ''<'' \<notin> set h'"
    using MARKER_CCR_Some [OF m] by auto
  have "\<exists>q'. r' = q' @ mk @ post"
  proof (cases "\<exists>a. q = [a]")
    case True
    with u(1) e show ?thesis by auto
  next
    case False
    then obtain a b q2 where "q = a # b # q2"
      using q by (metis neq_Nil_conv)
    then have "(b # q2) @ CHR ''<'' # tl mk @ post = (b # ''ccr:'' @ h') @ r'"
      using u(1) e by auto
    from overrun_head [OF _ this] u(2) e show ?thesis by auto
  qed
  then show "h' = h \<or> (\<exists>q'. r' = q' @ mk @ post)" ..
qed

text \<open>The generic pattern: a lazy search finds a match whenever one can be reached on the line.\<close>

lemma lazily_found:
  assumes "m s \<noteq> None" "NL \<notin> set q"
  shows "lazily m (q @ s) \<noteq> None"
  using assms by (induction q) (cases s; auto split: option.splits)+

lemma lazily_split:
  assumes "lazily m s = Some x"
  shows "\<exists>a b. s = a @ b \<and> m b = Some x \<and> NL \<notin> set a"
  using assms
proof (induction s)
  case (Cons c s)
  show ?case
  proof (cases "m (c # s)")
    case None
    with Cons.prems have "c \<noteq> NL" "lazily m s = Some x"
      by (auto split: if_splits)
    with Cons.IH obtain a b where "s = a @ b" "m b = Some x" "NL \<notin> set a" by blast
    with \<open>c \<noteq> NL\<close> show ?thesis by (intro exI [of _ "c # a"] exI [of _ b]) auto
  qed (use Cons.prems in \<open>auto intro: exI [of _ "[]"]\<close>)
qed simp

lemma lazily_split_before:
  assumes "m s \<noteq> None" "lazily m (q @ s) = Some x" "NL \<notin> set q"
  shows "\<exists>a b. q = a @ b \<and> m (b @ s) = Some x"
  using assms
proof (induction q)
  case Nil
  then show ?case by (cases s) auto
next
  case (Cons c q)
  show ?case
  proof (cases "m (c # q @ s)")
    case None
    with Cons obtain a b where "q = a @ b" "m (b @ s) = Some x" by auto
    then show ?thesis by (intro exI [of _ "c # a"] exI [of _ b]) auto
  qed (use Cons.prems in \<open>auto intro: exI [of _ "[]"]\<close>)
qed

lemma after_ci_Some: "after_ci p s = Some r \<Longrightarrow> \<exists>u. s = u @ r \<and> bytes_lower u = p"
  by (auto simp: after_ci_def intro: exI [of _ "take (length p) s"] split: if_splits)

lemma generic_hash_Some:
  assumes "generic_hash s = Some (h, r)"
  shows "\<exists>u. s = u @ h @ '']'' @ r \<and> bytes_lower u = ''hash='' \<and> length h = 24 \<and> list_all (\<lambda>c. is_lower_hex (byte_lower c)) h"
  using assms by (fastforce simp: generic_hash_def after_Some_iff exactly_Some bind_eq_Some_conv dest!: after_ci_Some)

lemma byte_lower_NL: "byte_lower NL = NL" "\<not> is_lower_hex NL"
  by code_simp+

lemma NL_free:
  "bytes_lower u = p \<Longrightarrow> NL \<notin> set p \<Longrightarrow> NL \<notin> set u"
  "list_all (\<lambda>c. is_lower_hex (byte_lower c)) h \<Longrightarrow> NL \<notin> set h"
  using byte_lower_NL by (metis bytes_lower_def imageI list.set_map) (metis byte_lower_NL list_all_iff)

lemma MARKER_GENERIC_Some:
  assumes "MARKER_GENERIC s = Some (h, r)"
  shows "\<exists>u. s = ''['' @ u @ '']'' @ r \<and> NL \<notin> set u"
proof -
  obtain s1 where s1: "s = ''['' @ s1"
    and l: "lazily (\<lambda>s. Option.bind (after_ci ''compressed'' s) (lazily generic_hash)) s1 = Some (h, r)"
    using assms by (auto simp: MARKER_GENERIC_def after_Some_iff bind_eq_Some_conv)
  obtain a b where ab: "s1 = a @ b" "NL \<notin> set a"
    and "Option.bind (after_ci ''compressed'' b) (lazily generic_hash) = Some (h, r)"
    using lazily_split [OF l] by blast
  then obtain c where c: "after_ci ''compressed'' b = Some c" "lazily generic_hash c = Some (h, r)"
    by (auto simp: bind_eq_Some_conv)
  obtain w where w: "b = w @ c" "bytes_lower w = ''compressed''"
    using after_ci_Some [OF c(1)] by blast
  obtain d e where de: "c = d @ e" "NL \<notin> set d" "generic_hash e = Some (h, r)"
    using lazily_split [OF c(2)] by blast
  obtain v where v: "e = v @ h @ '']'' @ r" "bytes_lower v = ''hash=''" "list_all (\<lambda>c. is_lower_hex (byte_lower c)) h"
    using generic_hash_Some [OF de(3)] by blast
  have "s = ''['' @ (a @ w @ d @ v @ h) @ '']'' @ r"
    using s1 ab(1) w(1) de(1) v(1) by simp
  moreover have "NL \<notin> set (a @ w @ d @ v @ h)"
    using ab(2) de(2) NL_free(1) [OF w(2)] NL_free(1) [OF v(2)] NL_free(2) [OF v(3)] by (simp add: NL_def)
  ultimately show ?thesis by blast
qed

lemma after_ci_append: "bytes_lower p = p \<Longrightarrow> after_ci p (p @ s) = Some s"
  by (simp add: after_ci_def)

lemma generic_hash_marker:
  assumes "length h = 24" "list_all is_lower_hex h"
  shows "generic_hash (''hash='' @ h @ '']'' @ post) = Some (h, post)"
proof -
  have "byte_lower c = c" if "is_lower_hex c" for c
  proof -
    have "list_all (\<lambda>c. byte_lower c = c) lower_hex" by code_simp
    with that show ?thesis by (simp add: list_all_iff is_lower_hex_def)
  qed
  with assms have "exactly 24 (\<lambda>c. is_lower_hex (byte_lower c)) (h @ '']'' @ post) = Some (h, '']'' @ post)"
    by (auto simp: list_all_iff intro!: exactly_append)
  moreover have "bytes_lower ''hash='' = ''hash=''" by code_simp
  ultimately show ?thesis
    using after_ci_append [of "''hash=''" "h @ '']'' @ post"] by (simp add: generic_hash_def after_def startswith_def)
qed

text \<open>From any bracket before the marker on its line, the match takes the marker's hash or ends before the marker does.\<close>

lemma generic_reaches:
  assumes "length h = 24" "list_all is_lower_hex h" "NL \<notin> set a" "NL \<notin> set b"
  shows "\<exists>h' r. MARKER_GENERIC (''['' @ a @ ''compressed'' @ b @ ''hash='' @ h @ '']'' @ post) = Some (h', r)
    \<and> (h' = h \<or> length post < length r)"
proof -
  define p where "p = ''compressed''"
  define s2 where "s2 = ''hash='' @ h @ '']'' @ post"
  define m1 where "m1 = (\<lambda>s. Option.bind (after_ci p s) (lazily generic_hash))"
  have g: "generic_hash s2 = Some (h, post)"
    using generic_hash_marker [OF assms(1,2)] by (simp add: s2_def)
  have p: "bytes_lower p = p" "NL \<notin> set p"
    unfolding p_def by code_simp+
  have "lazily generic_hash (b @ s2) \<noteq> None"
    using lazily_found assms(4) g by (metis option.distinct(1))
  then have m1: "m1 (p @ b @ s2) \<noteq> None"
    using after_ci_append [OF p(1)] by (simp add: m1_def)
  then obtain h' r where r: "lazily m1 (a @ p @ b @ s2) = Some (h', r)"
    using lazily_found [OF _ assms(3)] by (metis option.exhaust surj_pair)
  then obtain x q where q: "a = x @ q" "m1 (q @ p @ b @ s2) = Some (h', r)"
    using lazily_split_before [of m1 "p @ b @ s2" a] m1 r assms(3) by blast
  then obtain t where t: "after_ci p (q @ p @ b @ s2) = Some t" "lazily generic_hash t = Some (h', r)"
    by (auto simp: m1_def bind_eq_Some_conv)
  define d where "d = drop (length p) (q @ p @ b)"
  have "t = d @ s2"
    using t(1) by (auto simp: after_ci_def d_def split: if_splits)
  moreover have "NL \<notin> set d"
    using assms(3,4) q(1) p(2) by (auto simp: d_def dest!: in_set_dropD)
  ultimately obtain y where y: "generic_hash (y @ s2) = Some (h', r)"
    using lazily_split_before [of generic_hash s2 d] t(2) g by auto
  then have "h' = h \<or> length post < length r"
  proof (cases y)
    case (Cons c y')
    obtain u where "y @ s2 = u @ h' @ '']'' @ r" "bytes_lower u = ''hash=''" "length h' = 24"
      using generic_hash_Some [OF y] by blast
    moreover from this have "length u = 5"
      by (auto simp: bytes_lower_def dest!: arg_cong [where f = length])
    ultimately have "length (y @ s2) = 30 + length r" by simp
    with Cons assms(1) show ?thesis by (simp add: s2_def)
  qed (use g in simp)
  moreover have "MARKER_GENERIC (''['' @ a @ p @ b @ s2) = lazily m1 (a @ p @ b @ s2)"
    by (simp add: MARKER_GENERIC_def m1_def p_def after_def startswith_def)
  ultimately show ?thesis using r unfolding p_def s2_def by (metis append_assoc)
qed

interpretation gen: marker_pattern MARKER_GENERIC bracket_marker
proof
  fix s h r mk post q h' r'
  show "MARKER_GENERIC s = Some (h, r) \<Longrightarrow> \<exists>u. u \<noteq> [] \<and> s = u @ r"
    using MARKER_GENERIC_Some [of s h r] by fastforce
  assume mk: "bracket_marker mk h post"
  then obtain a b where ab: "mk = ''['' @ a @ ''compressed'' @ b @ ''hash='' @ h @ '']''" "NL \<notin> set (a @ b)" "CHR '']'' \<notin> set (a @ b)"
    and h: "length h = 24" "list_all is_lower_hex h"
    by (auto simp: bracket_marker_def)
  define c where "c = ''['' @ a @ ''compressed'' @ b @ ''hash='' @ h"
  have "\<not> is_lower_hex (CHR '']'')" by code_simp
  then have "CHR '']'' \<notin> set h"
    using h(2) by (auto simp: list_all_iff)
  then have c: "mk = c @ '']''" "CHR '']'' \<notin> set c"
    using ab(1,3) by (simp_all add: c_def)
  obtain mk' where c_head: "mk = CHR ''['' # mk'"
    using ab(1) by simp
  have early: "\<exists>q'. r' = q' @ mk @ post"
    if m: "MARKER_GENERIC (q @ mk @ post) = Some (h', r')" and longer: "length post < length r'" for q h' r'
  proof -
    obtain u where u: "q @ mk @ post = u @ CHR '']'' # r'"
      using MARKER_GENERIC_Some [OF m] by (metis append_assoc append_Cons append_Nil)
    then obtain v where "q = u @ v \<and> v @ mk @ post = CHR '']'' # r' \<or> mk @ post = v @ CHR '']'' # r'"
      by (metis append_eq_append_conv2)
    then consider "q = u @ v" "v @ mk @ post = CHR '']'' # r'" | "mk @ post = v @ CHR '']'' # r'"
      by blast
    then show ?thesis
    proof cases
      case 1
      with c_head show ?thesis by (cases v) auto
    next
      case 2
      then have "c @ CHR '']'' # post = v @ CHR '']'' # r'"
        using c(1) by simp
      with overrun_end [OF _ c(2)] longer show ?thesis by fastforce
    qed
  qed
  have reach: "\<exists>h' r. MARKER_GENERIC (''['' @ x @ mk @ post) = Some (h', r) \<and> (h' = h \<or> length post < length r)"
    if "NL \<notin> set x" for x
    using generic_reaches [OF h, of "x @ ''['' @ a" b post] that ab by (simp add: NL_def)
  show "\<exists>r. MARKER_GENERIC (mk @ post) = Some (h, r)"
  proof -
    obtain h' r where hr: "MARKER_GENERIC (mk @ post) = Some (h', r)" "h' = h \<or> length post < length r"
      using generic_reaches [OF h, of a b post] ab by (auto simp: NL_def)
    moreover have "\<not> length post < length r"
    proof
      assume "length post < length r"
      then obtain q' where "r = q' @ mk @ post"
        using early [of "[]" h' r] hr(1) by auto
      with MARKER_GENERIC_Some [OF hr(1)] show False
        by (auto dest: arg_cong [where f = length])
    qed
    ultimately show ?thesis by blast
  qed
  assume q: "q \<noteq> []" and m: "MARKER_GENERIC (q @ mk @ post) = Some (h', r')"
  obtain u where u: "q @ mk @ post = ''['' @ u @ '']'' @ r'" "NL \<notin> set u"
    using MARKER_GENERIC_Some [OF m] by blast
  then obtain x where x: "q = ''['' @ x"
    using q by (cases q) auto
  show "h' = h \<or> (\<exists>q'. r' = q' @ mk @ post)"
  proof (cases "NL \<in> set x")
    case True
    then obtain y z where yz: "x = y @ NL # z" by (meson split_list)
    have "(''['' @ y) @ NL # z @ mk @ post = (''['' @ u @ '']'') @ r'"
      using u(1) x yz by simp
    from overrun_head [OF _ this] u(2) obtain q' where "r' = q' @ NL # z @ mk @ post" by (auto simp: NL_def)
    then show ?thesis by (metis append_Cons append_assoc)
  next
    case False
    with reach [of x] m x early [OF m] show ?thesis by auto
  qed
qed

lemma marker_found:
  assumes "is_marker mk h post"
  shows "\<exists>p \<in> set marker_patterns. h \<in> set (findall p (pre @ mk @ post))"
  using assms std.found leg.found gen.found cc.found rd.found by (auto simp: is_marker_def marker_patterns_def)

lemma diff_marker:
  assumes "count_ok n" "count_ok k" "length h = 24" "list_all is_lower_hex h"
  shows "is_marker (''['' @ n @ '' lines compressed to '' @ k @ ''. Retrieve full diff: hash='' @ h @ '']'') h post"
proof -
  have digit: "x \<noteq> NL \<and> x \<noteq> CHR '']''" if "is_digit x" for x
    using that by (auto simp: is_digit_def NL_def)
  define a where "a = n @ '' lines ''"
  define b where "b = '' to '' @ k @ ''. Retrieve full diff: ''"
  have ab: "NL \<notin> set (a @ b)" "CHR '']'' \<notin> set (a @ b)"
    using assms(1,2) digit by (auto simp: a_def b_def count_ok_def list_all_iff NL_def)
  have "bracket_marker (''['' @ a @ ''compressed'' @ b @ ''hash='' @ h @ '']'') h post"
    unfolding bracket_marker_def by (intro conjI exI [of _ a] exI [of _ b] refl assms ab)
  then show ?thesis by (simp add: is_marker_def a_def b_def)
qed

text \<open>
  Two markers that are written but that no pattern knows: the code compressor's
  (\<open>headroom/transforms/code_compressor.py\<close>) and the diff-noise offload's
  (\<open>crates/headroom-core/src/transforms/pipeline/offloads/diff_noise.rs\<close>).
\<close>

lemma unrecognised_markers:
  "scan_str ''# [120 tokens compressed. Retrieve more: hash=0123456789abcdef01234567. Expires in 30m.]'' [] = []"
  "scan_str ''[diff_noise CCR: hash=0123456789abcdef01234567]'' [] = []"
  by code_simp+

lemma marker_nonempty: "is_marker mk h post \<Longrightarrow> h \<noteq> []"
  by (auto simp: is_marker_def standard_marker_def legacy_marker_def bracket_marker_def ccr_marker_def read_marker_def)

section \<open>What a scan collects\<close>

text \<open>The texts of a message that reach the model, provider by provider.\<close>

definition str_of :: "json \<Rightarrow> string list" where
  "str_of v = (case v of JStr s \<Rightarrow> [s] | _ \<Rightarrow> [])"

definition field_of :: "json \<Rightarrow> string \<Rightarrow> json \<Rightarrow> json" where
  "field_of v k dflt = (case v of JDict d \<Rightarrow> dict_get_default d k dflt | _ \<Rightarrow> dflt)"

definition item_texts :: "json \<Rightarrow> string list" where
  "item_texts item = (if has_type ''text'' item then str_of (field_of item ''text'' (JStr [])) else [])"

definition block_texts_of :: "json \<Rightarrow> string list" where
  "block_texts_of block =
     (if has_type ''text'' block then str_of (field_of block ''text'' (JStr []))
      else if has_type ''tool_result'' block then
        (case field_of block ''content'' (JStr []) of JList items \<Rightarrow> concat (map item_texts items) | c \<Rightarrow> str_of c)
      else [])"

definition part_texts :: "json \<Rightarrow> string list" where
  "part_texts part =
     (case part of
        JDict d \<Rightarrow>
          (case (jget d ''text'', jget d ''functionResponse'') of
             (Some t, _) \<Rightarrow> str_of t
           | (None, Some f) \<Rightarrow>
               (case field_of f ''response'' (JDict []) of
                  JDict kvs \<Rightarrow> concat (map (str_of \<circ> snd) kvs)
                | v \<Rightarrow> str_of v)
           | (None, None) \<Rightarrow> [])
      | _ \<Rightarrow> [])"

definition message_texts :: "(string, json) pydict \<Rightarrow> string list" where
  "message_texts message =
     (case dict_get_default message ''content'' (JStr []) of JList blocks \<Rightarrow> concat (map block_texts_of blocks) | c \<Rightarrow> str_of c)
     @ (case dict_get_default message ''parts'' (JList []) of JList parts \<Rightarrow> concat (map part_texts parts) | _ \<Rightarrow> [])"

lemma scan_text_eq: "scan_text t d = Inr d' \<Longrightarrow> d' = fold scan_str (str_of t) d"
  by (auto simp: scan_text_def str_of_def split: json.splits)

lemma json_get_Inr: "json_get v k dflt = Inr x \<Longrightarrow> x = field_of v k dflt"
  by (cases v) (auto simp: field_of_def)

lemma fold_err_eq:
  assumes "\<And>x d d'. f x d = Inr d' \<Longrightarrow> d' = fold scan_str (tx x) d"
  shows "fold_err f xs d = Inr d' \<Longrightarrow> d' = fold scan_str (concat (map tx xs)) d"
  by (induction xs arbitrary: d) (auto simp: and_then_Inr_iff dest!: assms)

lemma scan_item_eq: "scan_item t d = Inr d' \<Longrightarrow> d' = fold scan_str (item_texts t) d"
  by (auto simp: scan_item_def item_texts_def and_then_Inr_iff dest!: json_get_Inr scan_text_eq split: if_splits)

lemma scan_items_eq: "fold_err scan_item xs d = Inr d' \<Longrightarrow> d' = fold scan_str (concat (map item_texts xs)) d"
  by (rule fold_err_eq [of scan_item], rule scan_item_eq)

lemma scan_block_eq: "scan_block t d = Inr d' \<Longrightarrow> d' = fold scan_str (block_texts_of t) d"
proof (cases "has_type ''text'' t")
  case True
  then show "scan_block t d = Inr d' \<Longrightarrow> ?thesis"
    by (auto simp: scan_block_def block_texts_of_def and_then_Inr_iff dest!: json_get_Inr scan_text_eq)
next
  case False
  assume "scan_block t d = Inr d'"
  with False show ?thesis
    by (cases "field_of t ''content'' (JStr [])")
      (auto simp: scan_block_def block_texts_of_def and_then_Inr_iff str_of_def
        dest!: json_get_Inr scan_items_eq split: if_splits)
qed

lemma scan_blocks_eq: "fold_err scan_block xs d = Inr d' \<Longrightarrow> d' = fold scan_str (concat (map block_texts_of xs)) d"
  by (rule fold_err_eq [of scan_block], rule scan_block_eq)

lemma fold_values_eq:
  "fold (\<lambda>(k, v) det. case v of JStr s \<Rightarrow> scan_str s det | _ \<Rightarrow> det) kvs d = fold scan_str (concat (map (str_of \<circ> snd) kvs)) d"
  by (induction kvs arbitrary: d) (auto simp: str_of_def split: json.splits)

lemma scan_part_eq: "scan_part t d = Inr d' \<Longrightarrow> d' = fold scan_str (part_texts t) d"
proof (cases t)
  case (JDict p)
  assume r: "scan_part t d = Inr d'"
  show ?thesis
  proof (cases "jget p ''text''")
    case None
    then show ?thesis
    proof (cases "jget p ''functionResponse''")
      case (Some f)
      with None r JDict show ?thesis
        by (cases "field_of f ''response'' (JDict [])")
          (auto simp: scan_part_def part_texts_def and_then_Inr_iff str_of_def fold_values_eq comp_def dest!: json_get_Inr)
    qed (use None r JDict in \<open>simp add: scan_part_def part_texts_def\<close>)
  qed (use r JDict in \<open>auto simp: scan_part_def part_texts_def dest!: scan_text_eq split: option.splits\<close>)
qed (simp_all add: scan_part_def part_texts_def)

lemma scan_parts_eq: "fold_err scan_part xs d = Inr d' \<Longrightarrow> d' = fold scan_str (concat (map part_texts xs)) d"
  by (rule fold_err_eq [of scan_part], rule scan_part_eq)

lemma scan_content_eq:
  "scan_content t d = Inr d' \<Longrightarrow> d' = fold scan_str (case t of JList blocks \<Rightarrow> concat (map block_texts_of blocks) | c \<Rightarrow> str_of c) d"
  by (cases t) (auto simp: scan_content_def str_of_def dest!: scan_blocks_eq)

lemma scan_message_eq: "scan_message m d = Inr d' \<Longrightarrow> d' = fold scan_str (message_texts m) d"
  by (cases "dict_get_default m ''parts'' (JList [])")
    (auto simp: scan_message_def message_texts_def and_then_Inr_iff dest!: scan_content_eq scan_parts_eq)

lemma scan_messages_eq: "fold_err scan_message xs d = Inr d' \<Longrightarrow> d' = fold scan_str (concat (map message_texts xs)) d"
  by (rule fold_err_eq [of scan_message], rule scan_message_eq)

lemma scan_for_markers_eq:
  "scan_for_markers ms ci = Inr ci' \<Longrightarrow> ci' = ci\<lparr>ti_detected_hashes := fold scan_str (concat (map message_texts ms)) []\<rparr>"
  by (auto simp: scan_for_markers_def and_then_Inr_iff dest!: scan_messages_eq)

lemma set_add_hash: "set (fold add_hash hs d) = set d \<union> (set hs - {[]})"
  by (induction hs arbitrary: d) (auto simp: add_hash_def)

lemma set_scan_str: "set (scan_str s d) = set d \<union> ((\<Union>p\<in>set marker_patterns. set (findall p s)) - {[]})"
proof -
  have "set (fold (\<lambda>p. fold add_hash (findall p s)) ps d) = set d \<union> ((\<Union>p\<in>set ps. set (findall p s)) - {[]})" for ps
    by (induction ps arbitrary: d) (auto simp: set_add_hash)
  then show ?thesis by (simp add: scan_str_def)
qed

lemma set_scan_strs: "set (fold scan_str ts d) = set d \<union> (\<Union>t\<in>set ts. set (scan_str t []))"
  by (induction ts arbitrary: d) (auto simp: set_scan_str)

section \<open>Injection\<close>

lemma tool_name_definition [simp]: "tool_name (create_ccr_tool_definition provider) = Inr (JStr CCR_TOOL_NAME)"
  by (simp add: create_ccr_tool_definition_def tool_name_def dict_get_default_def CCR_TOOL_NAME_def Let_def)

lemma tool_present_snoc: "tool_present ts = Inr False \<Longrightarrow> tool_present (ts @ [create_ccr_tool_definition provider]) = Inr True"
  by (induction ts) (auto simp: and_then_Inr_iff split: if_splits)

lemma inject_tool_cases:
  assumes "inject_tool_definition tools sess ci = Inr (ts, b)"
  shows "ts = tools_or_empty tools @ (if b then [create_ccr_tool_definition (ti_provider ci)] else [])"
    and "ti_inject_tool ci \<Longrightarrow> sess \<or> has_compressed_content ci \<Longrightarrow> tool_present ts = Inr True"
    and "inject_tool_definition (Some ts) sess ci = Inr (ts, False)"
proof -
  have *: "ts = tools_or_empty tools @ (if b then [create_ccr_tool_definition (ti_provider ci)] else [])
    \<and> (ti_inject_tool ci \<and> (sess \<or> has_compressed_content ci) \<longrightarrow> tool_present ts = Inr True)"
  proof (cases "ti_inject_tool ci \<and> (sess \<or> has_compressed_content ci)")
    case True
    then obtain p where p: "tool_present (tools_or_empty tools) = Inr p"
      using assms by (auto simp: inject_tool_definition_def Let_def and_then_Inr_iff)
    with True assms tool_present_snoc show ?thesis
      by (cases p) (auto simp: inject_tool_definition_def Let_def)
  qed (use assms in \<open>auto simp: inject_tool_definition_def Let_def split: if_splits\<close>)
  then show "ts = tools_or_empty tools @ (if b then [create_ccr_tool_definition (ti_provider ci)] else [])"
    and "ti_inject_tool ci \<Longrightarrow> sess \<or> has_compressed_content ci \<Longrightarrow> tool_present ts = Inr True"
    by blast+
  from * have "ti_inject_tool ci \<and> (sess \<or> has_compressed_content ci) \<longrightarrow> tool_present ts = Inr True"
    by blast
  then show "inject_tool_definition (Some ts) sess ci = Inr (ts, False)"
    by (auto simp: inject_tool_definition_def tools_or_empty_def Let_def)
qed

lemma contains_str_append: "contains_str sub (a @ sub @ b)"
proof (induction a)
  case Nil
  have "startswith (sub @ b) sub" by simp
  then show ?case by (cases "sub @ b") (auto simp del: startswith_append)
qed simp

lemma rstrip_append:
  assumes "p \<noteq> []" "\<not> is_space (last p)"
  shows "rstrip (p @ r) = p @ rstrip r"
proof (cases "list_all is_space r")
  case True
  then have "dropWhile is_space (rev r @ rev p) = dropWhile is_space (rev p)" "dropWhile is_space (rev r) = []"
    by (auto simp: list_all_iff dropWhile_append)
  moreover have "dropWhile is_space (rev p) = rev p"
    using assms by (cases p rule: rev_cases) auto
  ultimately show ?thesis by (simp add: rstrip_def)
next
  case False
  then obtain x where "x \<in> set (rev r)" "\<not> is_space x"
    by (auto simp: list_all_iff)
  then show ?thesis
    by (simp add: rstrip_def dropWhile_append1)
qed

lemma instructions_shape:
  "\<exists>r. create_system_instructions hashes endpoint = NL # (''## '' @ CONTEXT_PHRASE) @ r"
  by (simp add: create_system_instructions_def Let_def)

lemma instructions_phrase:
  "contains_str CONTEXT_PHRASE (s @ create_system_instructions hashes endpoint)"
  "contains_str CONTEXT_PHRASE (strip (create_system_instructions hashes endpoint))"
proof -
  obtain r where r: "create_system_instructions hashes endpoint = NL # (''## '' @ CONTEXT_PHRASE) @ r"
    using instructions_shape by blast
  show "contains_str CONTEXT_PHRASE (s @ create_system_instructions hashes endpoint)"
    using contains_str_append [of CONTEXT_PHRASE "s @ NL # ''## ''" r] r by simp
  have "lstrip (create_system_instructions hashes endpoint) = (''## '' @ CONTEXT_PHRASE) @ r"
    using r by (simp add: lstrip_def is_space_def NL_def)
  then have "strip (create_system_instructions hashes endpoint) = (''## '' @ CONTEXT_PHRASE) @ rstrip r"
    using rstrip_append [of "''## '' @ CONTEXT_PHRASE" r]
    by (simp only: strip_def) (simp add: CONTEXT_PHRASE_def is_space_def)
  then show "contains_str CONTEXT_PHRASE (strip (create_system_instructions hashes endpoint))"
    using contains_str_append [of CONTEXT_PHRASE "''## ''" "rstrip r"] by simp
qed

lemma update_system_settled:
  assumes "update_system (create_system_instructions hs ep) m = Inr m'"
  shows "update_system (create_system_instructions hs ep) m' = Inr m'" and "is_system m' \<longleftrightarrow> is_system m"
proof -
  let ?i = "create_system_instructions hs ep"
  obtain p where p: "in_content CONTEXT_PHRASE (dict_get_default m ''content'' (JStr [])) = Inr p"
    using assms by (auto simp: update_system_def Let_def and_then_Inr_iff)
  consider "m' = m" | s where "m' = dict_set ''content'' (JStr (s @ ?i)) m"
    using assms p by (cases p; cases "dict_get_default m ''content'' (JStr [])") (auto simp: update_system_def)
  then have "update_system ?i m' = Inr m' \<and> (is_system m' \<longleftrightarrow> is_system m)"
  proof cases
    case 1
    with assms show ?thesis by simp
  next
    case (2 s)
    then have "dict_get_default m' ''content'' (JStr []) = JStr (s @ ?i)" "is_system m' = is_system m"
      by (simp_all add: dict_get_default_def is_system_def dict_simps)
    then show ?thesis by (simp add: update_system_def instructions_phrase(1))
  qed
  then show "update_system ?i m' = Inr m'" "is_system m' \<longleftrightarrow> is_system m" by blast+
qed

lemma update_first_system_settled:
  "update_first_system (create_system_instructions hs ep) ms = Inr (Some ms') \<Longrightarrow>
     update_first_system (create_system_instructions hs ep) ms' = Inr (Some ms') \<and> length ms' = length ms"
proof (induction ms arbitrary: ms')
  case (Cons m ms)
  show ?case
  proof (cases "is_system m")
    case True
    with Cons.prems obtain m' where "update_system (create_system_instructions hs ep) m = Inr m'" "ms' = m' # ms"
      by (auto simp: and_then_Inr_iff)
    with True update_system_settled show ?thesis by fastforce
  next
    case False
    with Cons show ?thesis by (auto simp: and_then_Inr_iff)
  qed
qed simp

lemma inject_system_settled:
  assumes "inject_into_system_message ms ci = Inr ms'"
  shows "inject_into_system_message ms' ci = Inr ms' \<and> length ms' \<le> Suc (length ms)"
proof (cases "ti_inject_system_instructions ci \<and> has_compressed_content ci")
  case True
  let ?i = "create_system_instructions (ti_detected_hashes ci) (ti_retrieval_endpoint ci)"
  obtain r where r: "update_first_system ?i ms = Inr r"
    using True assms by (auto simp: inject_into_system_message_def Let_def and_then_Inr_iff)
  have "update_first_system ?i ms' = Inr (Some ms') \<and> length ms' \<le> Suc (length ms)"
  proof (cases r)
    case None
    then have "ms' = [(''role'', JStr ''system''), (''content'', JStr (strip ?i))] # ms"
      using True assms r by (simp add: inject_into_system_message_def)
    then show ?thesis
      by (simp add: is_system_def update_system_def dict_get_default_def instructions_phrase(2))
  next
    case (Some x)
    then show ?thesis
      using True assms r update_first_system_settled by (fastforce simp: inject_into_system_message_def)
  qed
  with True show ?thesis by (simp add: inject_into_system_message_def)
qed (use assms in \<open>auto simp: inject_into_system_message_def\<close>)

section \<open>Properties\<close>

lemma marker_detected:
  assumes "scan_for_markers ms ci = Inr c" and "m \<in> set ms" "pre @ mk @ post \<in> set (message_texts m)" "is_marker mk h post"
  shows "h \<in> set (ti_detected_hashes c)"
  using marker_found [OF assms(4), of pre] marker_nonempty [OF assms(4)] assms(2,3) scan_for_markers_eq [OF assms(1)]
  by (fastforce simp: set_scan_strs set_scan_str)

text \<open>C37: the model can redeem a marker it sees: let the injector be configured to offer the tool
  (\<open>inject_tool\<close>) and let it process a request without an exception. When any text of the request
  (string content, text and tool-result blocks, Gemini parts and function responses) contains,
  anywhere, a marker of one of these forms: \<open>[N type compressed to M. Retrieve more: hash=H]\<close>,
  \<open>[N type compressed. hash=H]\<close>, any other \<open>[... compressed ... hash=H]\<close> on one line without a
  further closing bracket (the diff compressor's), all with 24 lower-case hexadecimal digits;
  \<open><<ccr:H\<close> with 12 to 24 digits and no word character behind them, or \<open>Retrieve original: hash=H\<close>
  with 12 to 24 digits, all there are up to 24; then \<open>H\<close> is among the detected hashes and the
  request that goes out offers the retrieval tool. Two forms that are also written are not among
  these and are not detected (\<open>unrecognised_markers\<close>): the code compressor's, which has text between
  the hash and the bracket, and the diff-noise offload's, which does not say \<open>compressed\<close>.\<close>
theorem marker_injects_tool:
  assumes "process_request ms tools sess ci = Inr (ci', ms', tools', injected)" and "ti_inject_tool ci"
    and "m \<in> set ms" "pre @ mk @ post \<in> set (message_texts m)" "is_marker mk h post"
  shows "h \<in> set (ti_detected_hashes ci') \<and> (\<exists>ts. tools' = Some ts \<and> tool_present ts = Inr True)"
proof -
  obtain c where c: "scan_for_markers ms ci = Inr c"
    using assms(1) by (auto simp: process_request_def and_then_Inr_iff)
  note ceq = scan_for_markers_eq [OF c]
  have h: "h \<in> set (ti_detected_hashes c)"
    by (rule marker_detected [OF c assms(3,4,5)])
  then have "has_compressed_content c"
    by (auto simp: has_compressed_content_def)
  with assms(1) c obtain ts where "inject_tool_definition tools sess c = Inr (ts, injected)"
    "tools' = (if ts \<noteq> [] then Some ts else None)" "ci' = c"
    by (auto simp: process_request_def and_then_Inr_iff)
  moreover from this have "tool_present ts = Inr True"
    using inject_tool_cases(2) \<open>has_compressed_content c\<close> assms(2) ceq by auto
  ultimately show ?thesis using h by auto
qed

text \<open>injection is stable over a session: the client's tools stay in place and at most the retrieval tool is
  appended; whenever the session has used retrieval or the request has a marker, the tool is there
  afterwards; and injecting into the result again, or instructing the result's system message
  again, changes nothing, so repeated requests keep the cached prefix.\<close>
theorem injection_stable:
  assumes "inject_tool_definition tools sess ci = Inr (ts, b)" and "inject_into_system_message ms ci = Inr ms'"
  shows "ts = tools_or_empty tools @ (if b then [create_ccr_tool_definition (ti_provider ci)] else [])
    \<and> (ti_inject_tool ci \<and> (sess \<or> has_compressed_content ci) \<longrightarrow> tool_present ts = Inr True)
    \<and> inject_tool_definition (Some ts) sess ci = Inr (ts, False)
    \<and> inject_into_system_message ms' ci = Inr ms' \<and> length ms' \<le> Suc (length ms)"
  using inject_tool_cases [OF assms(1)] inject_system_settled [OF assms(2)] by blast

definition sample_injector :: ccr_injector where
  "sample_injector = injector_init ''openai'' True True ''/v1/retrieve''"

definition sample_text :: string where
  "sample_text = ''x '' @ ''<<ccr:abcdef012345'' @ '' 9_rows_offloaded>>''"

definition sample_messages :: "(string, json) pydict list" where
  "sample_messages = [[(''role'', JStr ''user''), (''content'', JList [JDict [(''type'', JStr ''text''), (''text'', JStr sample_text)]])]]"

lemma sample_scan: "scan_for_markers sample_messages sample_injector = Inr (sample_injector\<lparr>ti_detected_hashes := [''abcdef012345'']\<rparr>)"
proof -
  have "scan_str sample_text [] = [''abcdef012345'']"
    by code_simp
  then show ?thesis
    by (simp add: scan_for_markers_def sample_messages_def scan_message_def scan_content_def scan_block_def has_type_def
        scan_text_def dict_get_default_def)
qed

definition sample_instructed :: "(string, json) pydict list" where
  "sample_instructed =
     [(''role'', JStr ''system''), (''content'', JStr (strip (create_system_instructions [''abcdef012345''] ''/v1/retrieve'')))]
     # sample_messages"

lemma sample_steps:
  "inject_tool_definition None False (sample_injector\<lparr>ti_detected_hashes := [''abcdef012345'']\<rparr>)
     = Inr ([create_ccr_tool_definition ''openai''], True)"
  "inject_into_system_message sample_messages (sample_injector\<lparr>ti_detected_hashes := [''abcdef012345'']\<rparr>) = Inr sample_instructed"
  by (simp_all add: inject_tool_definition_def inject_into_system_message_def sample_injector_def injector_init_def
      has_compressed_content_def tools_or_empty_def sample_messages_def sample_instructed_def is_system_def)

lemma sample_process:
  "process_request sample_messages None False sample_injector =
     Inr (sample_injector\<lparr>ti_detected_hashes := [''abcdef012345'']\<rparr>, sample_instructed, Some [create_ccr_tool_definition ''openai''], True)"
  by (simp add: process_request_def sample_scan sample_steps has_compressed_content_def)

theorem marker_injects_tool_witness:
  "''abcdef012345'' \<in> set (ti_detected_hashes (sample_injector\<lparr>ti_detected_hashes := [''abcdef012345'']\<rparr>))
   \<and> (\<exists>ts. Some [create_ccr_tool_definition ''openai''] = Some ts \<and> tool_present ts = Inr True)"
proof (rule marker_injects_tool [OF sample_process, where m = "hd sample_messages"])
  show "ti_inject_tool sample_injector" by (simp add: sample_injector_def injector_init_def)
  show "hd sample_messages \<in> set sample_messages" by (simp add: sample_messages_def)
  show "''x '' @ ''<<ccr:abcdef012345'' @ '' 9_rows_offloaded>>'' \<in> set (message_texts (hd sample_messages))"
    by (simp add: sample_messages_def message_texts_def block_texts_of_def has_type_def field_of_def str_of_def
        dict_get_default_def sample_text_def)
  have "list_all is_lower_hex ''abcdef012345''" by code_simp
  then show "is_marker ''<<ccr:abcdef012345'' ''abcdef012345'' '' 9_rows_offloaded>>''"
    by (simp add: is_marker_def ccr_marker_def is_word_def)
qed

theorem injection_stable_witness:
  "inject_tool_definition (Some [create_ccr_tool_definition ''openai'']) False (sample_injector\<lparr>ti_detected_hashes := [''abcdef012345'']\<rparr>)
     = Inr ([create_ccr_tool_definition ''openai''], False)
   \<and> inject_into_system_message sample_instructed (sample_injector\<lparr>ti_detected_hashes := [''abcdef012345'']\<rparr>) = Inr sample_instructed"
  using injection_stable [OF sample_steps] by blast

end
