(* ===== verification/WS_Registry.thy ===== *)
theory WS_Registry
  imports Py_Base
begin

text \<open>
  The WebSocket session registry (\<open>headroom/proxy/ws_session_registry.py\<close>). The handler keeps a
  reference to the handle it registers, and the registry mutates that same object, so handles
  live in an explicit store (\<open>ws_store\<close>, an address is an index) and the registry maps session
  ids to addresses. Relay tasks are asyncio objects: a type variable, with \<open>get_name\<close> as a
  parameter of the snapshot. Every \<open>time.perf_counter()\<close> reading is an argument.

  The registry counts tasks separately from the handles so that the gauge is O(1); the lemmas
  show that this counter is the sum over the registered handles after any sequence of calls.
\<close>

section \<open>Handles\<close>

datatype TerminationCause =
    client_disconnect | upstream_disconnect | upstream_error | client_error
  | client_cancel | response_completed | client_timeout | unknown

record 't WSSessionHandle =
  h_session_id :: string
  h_request_id :: string
  h_client_addr :: "string option"
  h_upstream_url :: "string option"
  h_started_at :: rat
  h_last_activity_at :: rat
  h_relay_tasks :: "'t list"
  h_termination_cause :: "TerminationCause option"

definition mark_activity :: "rat \<Rightarrow> 't WSSessionHandle \<Rightarrow> 't WSSessionHandle" where
  "mark_activity now h = h\<lparr>h_last_activity_at := now\<rparr>"

definition age_seconds :: "rat \<Rightarrow> 't WSSessionHandle \<Rightarrow> rat" where
  "age_seconds now h = max 0 (now - h_started_at h)"

record ws_snapshot =
  sn_session_id :: string
  sn_request_id :: string
  sn_client_addr :: "string option"
  sn_upstream_url :: "string option"
  sn_age_seconds :: rat
  sn_idle_seconds :: rat
  sn_relay_task_count :: nat
  sn_relay_task_names :: "string list"
  sn_termination_cause :: "TerminationCause option"

text \<open>The two clock readings of one call are \<open>now\<close> (in \<open>age_seconds\<close>) and \<open>now'\<close>.\<close>

definition to_snapshot_dict :: "('t \<Rightarrow> string) \<Rightarrow> rat \<Rightarrow> rat \<Rightarrow> 't WSSessionHandle \<Rightarrow> ws_snapshot" where
  "to_snapshot_dict get_name now now' h =
     \<lparr>sn_session_id = h_session_id h, sn_request_id = h_request_id h,
      sn_client_addr = h_client_addr h, sn_upstream_url = h_upstream_url h,
      sn_age_seconds = age_seconds now h,
      sn_idle_seconds = max 0 (now' - h_last_activity_at h),
      sn_relay_task_count = length (h_relay_tasks h),
      sn_relay_task_names = map get_name (h_relay_tasks h),
      sn_termination_cause = h_termination_cause h\<rparr>"

section \<open>The registry\<close>

record 't ws_registry =
  ws_store :: "'t WSSessionHandle list"
  ws_sessions :: "(string, nat) pydict"
  ws_active_relay_tasks :: int

definition ws_init :: "'t ws_registry" where
  "ws_init = \<lparr>ws_store = [], ws_sessions = [], ws_active_relay_tasks = 0\<rparr>"

abbreviation handle_at :: "'t ws_registry \<Rightarrow> nat \<Rightarrow> 't WSSessionHandle" where
  "handle_at s a \<equiv> ws_store s ! a"

definition upd_handle :: "nat \<Rightarrow> ('t WSSessionHandle \<Rightarrow> 't WSSessionHandle) \<Rightarrow> 't ws_registry \<Rightarrow> 't ws_registry" where
  "upd_handle a f s = s\<lparr>ws_store := (ws_store s)[a := f (handle_at s a)]\<rparr>"

text \<open>A constructor call allocates the object; the registry is not told.\<close>

definition new_handle :: "'t WSSessionHandle \<Rightarrow> 't ws_registry \<Rightarrow> 't ws_registry" where
  "new_handle h s = s\<lparr>ws_store := ws_store s @ [h]\<rparr>"

definition register :: "nat \<Rightarrow> 't ws_registry \<Rightarrow> 't ws_registry" where
  "register a s =
     (let sid = h_session_id (handle_at s a);
          s1 = (case dict_get (ws_sessions s) sid of
                  None \<Rightarrow> s
                | Some existing \<Rightarrow>
                    upd_handle existing (\<lambda>h. h\<lparr>h_relay_tasks := []\<rparr>)
                      (s\<lparr>ws_active_relay_tasks :=
                           ws_active_relay_tasks s - int (length (h_relay_tasks (handle_at s existing)))\<rparr>));
          s2 = s1\<lparr>ws_sessions := dict_set sid a (ws_sessions s1)\<rparr>
      in s2\<lparr>ws_active_relay_tasks := ws_active_relay_tasks s2 + int (length (h_relay_tasks (handle_at s2 a)))\<rparr>)"

definition deregister_internal ::
  "string \<Rightarrow> TerminationCause \<Rightarrow> 't ws_registry \<Rightarrow> (nat option \<times> nat) \<times> 't ws_registry" where
  "deregister_internal sid cause s =
     (case dict_get (ws_sessions s) sid of
        None \<Rightarrow> ((None, 0), s)
      | Some a \<Rightarrow>
          let s1 = upd_handle a (\<lambda>h. h\<lparr>h_termination_cause := Some cause\<rparr>)
                     (s\<lparr>ws_sessions := dict_del sid (ws_sessions s)\<rparr>);
              released = length (h_relay_tasks (handle_at s1 a));
              s2 = s1\<lparr>ws_active_relay_tasks := max 0 (ws_active_relay_tasks s1 - int released)\<rparr>
          in ((Some a, released), upd_handle a (\<lambda>h. h\<lparr>h_relay_tasks := []\<rparr>) s2))"

definition deregister :: "string \<Rightarrow> TerminationCause \<Rightarrow> 't ws_registry \<Rightarrow> nat option \<times> 't ws_registry" where
  "deregister sid cause s = (let ((h, _), s') = deregister_internal sid cause s in (h, s'))"

definition deregister_and_count ::
  "string \<Rightarrow> TerminationCause \<Rightarrow> 't ws_registry \<Rightarrow> (nat option \<times> nat) \<times> 't ws_registry" where
  "deregister_and_count sid cause s = deregister_internal sid cause s"

definition attach_tasks :: "rat \<Rightarrow> string \<Rightarrow> 't list \<Rightarrow> 't ws_registry \<Rightarrow> 't ws_registry" where
  "attach_tasks now sid tasks s =
     (case dict_get (ws_sessions s) sid of
        None \<Rightarrow> s
      | Some a \<Rightarrow>
          let s1 = upd_handle a (\<lambda>h. h\<lparr>h_relay_tasks := h_relay_tasks h @ tasks\<rparr>) s;
              s2 = s1\<lparr>ws_active_relay_tasks := ws_active_relay_tasks s1 + int (length tasks)\<rparr>
          in upd_handle a (mark_activity now) s2)"

definition ws_get :: "'t ws_registry \<Rightarrow> string \<Rightarrow> nat option" where
  "ws_get s sid = dict_get (ws_sessions s) sid"

definition ws_active_count :: "'t ws_registry \<Rightarrow> nat" where
  "ws_active_count s = length (ws_sessions s)"

definition active_relay_task_count :: "'t ws_registry \<Rightarrow> int" where
  "active_relay_task_count s = ws_active_relay_tasks s"

text \<open>The clock readings of the snapshot are indexed by the session they are taken for.\<close>

definition ws_snapshot_list ::
  "('t \<Rightarrow> string) \<Rightarrow> (string \<Rightarrow> rat \<times> rat) \<Rightarrow> 't ws_registry \<Rightarrow> ws_snapshot list" where
  "ws_snapshot_list get_name clock s =
     map (\<lambda>(sid, a). to_snapshot_dict get_name (fst (clock sid)) (snd (clock sid)) (handle_at s a)) (ws_sessions s)"

definition ws_contains :: "string \<Rightarrow> 't ws_registry \<Rightarrow> bool" where
  "ws_contains sid s = (sid \<in> set (dict_keys (ws_sessions s)))"

section \<open>Runs\<close>

text \<open>
  What the handlers do: construct a handle, register one they hold, attach tasks, deregister.
  A handler only holds references to objects that exist.
\<close>

datatype 't ws_op =
    WNew "'t WSSessionHandle"
  | WRegister nat
  | WAttach rat string "'t list"
  | WDeregister string TerminationCause

primrec ws_step :: "'t ws_op \<Rightarrow> 't ws_registry \<Rightarrow> 't ws_registry" where
  "ws_step (WNew h) s = new_handle h s"
| "ws_step (WRegister a) s = (if a < length (ws_store s) then register a s else s)"
| "ws_step (WAttach now sid tasks) s = attach_tasks now sid tasks s"
| "ws_step (WDeregister sid cause) s = snd (deregister_and_count sid cause s)"

definition ws_run :: "'t ws_op list \<Rightarrow> 't ws_registry" where
  "ws_run ops = fold ws_step ops ws_init"

section \<open>The invariant\<close>

text \<open>The tasks of the registered handles, counted one handle at a time.\<close>

definition tasks_at :: "'t WSSessionHandle list \<Rightarrow> string \<times> nat \<Rightarrow> int" where
  "tasks_at st p = int (length (h_relay_tasks (st ! snd p)))"

definition registered_tasks :: "'t ws_registry \<Rightarrow> int" where
  "registered_tasks s = (\<Sum>p\<leftarrow>ws_sessions s. tasks_at (ws_store s) p)"

definition ws_inv :: "'t ws_registry \<Rightarrow> bool" where
  "ws_inv s \<longleftrightarrow>
     dict_ok (ws_sessions s)
     \<and> (\<forall>(sid, a) \<in> set (ws_sessions s). a < length (ws_store s) \<and> h_session_id (handle_at s a) = sid)
     \<and> ws_active_relay_tasks s = registered_tasks s"

lemma ws_inv_ok: "ws_inv s \<Longrightarrow> dict_ok (ws_sessions s)"
  by (simp add: ws_inv_def)

lemma ws_inv_get:
  "ws_inv s \<Longrightarrow> dict_get (ws_sessions s) sid = Some a \<Longrightarrow> a < length (ws_store s) \<and> h_session_id (handle_at s a) = sid"
  by (auto simp: ws_inv_def dest: dict_get_Some_in)

lemma ws_inv_active: "ws_inv s \<Longrightarrow> ws_active_relay_tasks s = registered_tasks s"
  by (simp add: ws_inv_def)

lemma registered_tasks_nonneg: "0 \<le> registered_tasks s"
  by (auto simp: registered_tasks_def tasks_at_def intro!: sum_list_nonneg)

text \<open>The tasks of every session but one; a change to that one session's handle leaves it alone.\<close>

definition other_tasks :: "string \<Rightarrow> 't WSSessionHandle list \<Rightarrow> (string, nat) pydict \<Rightarrow> int" where
  "other_tasks sid st d = (\<Sum>p\<leftarrow>dict_del sid d. tasks_at st p)"

lemma registered_tasks_split:
  assumes "dict_ok (ws_sessions s)"
  shows "registered_tasks s =
    (case dict_get (ws_sessions s) sid of None \<Rightarrow> 0 | Some a \<Rightarrow> int (length (h_relay_tasks (handle_at s a))))
    + other_tasks sid (ws_store s) (ws_sessions s)"
  using assms sum_dict_del [of "ws_sessions s" sid _ "tasks_at (ws_store s)"]
  by (auto simp: registered_tasks_def other_tasks_def tasks_at_def dict_del_absent split: option.splits)

lemma other_tasks_update:
  assumes "\<forall>(k, b) \<in> set d. h_session_id (st ! b) = k" "h_session_id (st ! a) = sid"
  shows "other_tasks sid (st[a := h]) d = other_tasks sid st d"
proof -
  have "a \<noteq> snd p" if "p \<in> set (dict_del sid d)" for p
    using that assms by (auto simp: AList.delete_eq)
  then show ?thesis
    unfolding other_tasks_def
    by (intro arg_cong [where f = sum_list] map_cong) (auto simp: tasks_at_def)
qed

text \<open>
  Every operation writes handles of one session only and leaves that session's entry at an
  address \<open>a\<close> or gone; the invariant then follows from the count of that one session.
\<close>

lemma ws_inv_frame:
  assumes inv: "ws_inv s"
    and st: "ws_store s' = st'" "length st' = length (ws_store s)" "map h_session_id st' = map h_session_id (ws_store s)"
    and d: "ws_sessions s' = (case r of None \<Rightarrow> dict_del sid (ws_sessions s) | Some a \<Rightarrow> dict_set sid a (ws_sessions s))"
    and a: "\<And>a. r = Some a \<Longrightarrow> a < length st' \<and> h_session_id (st' ! a) = sid"
    and o: "other_tasks sid st' (ws_sessions s) = other_tasks sid (ws_store s) (ws_sessions s)"
    and n: "ws_active_relay_tasks s' =
      (case r of None \<Rightarrow> 0 | Some a \<Rightarrow> int (length (h_relay_tasks (st' ! a)))) + other_tasks sid (ws_store s) (ws_sessions s)"
  shows "ws_inv s'"
proof -
  have sid': "h_session_id (st' ! b) = h_session_id (handle_at s b)" if "b < length (ws_store s)" for b
    using st that by (metis nth_map)
  have ok: "dict_ok (ws_sessions s')"
    using ws_inv_ok [OF inv] d by (auto split: option.splits)
  have get: "dict_get (ws_sessions s') k = (if k = sid then r else dict_get (ws_sessions s) k)" for k
    using d by (auto simp: dict_simps split: option.splits)
  have "b < length st' \<and> h_session_id (st' ! b) = k" if "(k, b) \<in> set (ws_sessions s')" for k b
  proof -
    from that ok get have "(if k = sid then r else dict_get (ws_sessions s) k) = Some b"
      by (metis dict_in_get)
    with a ws_inv_get [OF inv] sid' st show ?thesis
      by (auto split: if_splits)
  qed
  moreover have "other_tasks sid st' (ws_sessions s') = other_tasks sid st' (ws_sessions s)"
    using d by (auto simp: other_tasks_def delete_update_same delete_idem split: option.splits)
  ultimately show ?thesis
    using ok n o st get registered_tasks_split [OF ok, of sid] by (auto simp: ws_inv_def)
qed

lemma handle_ids_update: "h_session_id h = h_session_id (st ! a) \<Longrightarrow> map h_session_id (st[a := h]) = map h_session_id st"
  by (cases "a < length st") (simp_all add: map_update list_update_same_conv list_update_beyond)

lemma ws_inv_register:
  assumes inv: "ws_inv s" and a: "a < length (ws_store s)"
  shows "ws_inv (register a s)"
proof -
  let ?sid = "h_session_id (handle_at s a)"
  have keys: "\<forall>(k, b) \<in> set (ws_sessions s). h_session_id (handle_at s b) = k"
    using inv by (auto simp: ws_inv_def)
  note split = registered_tasks_split [OF ws_inv_ok [OF inv], of ?sid]
  show ?thesis
  proof (cases "dict_get (ws_sessions s) ?sid")
    case None
    with split ws_inv_active [OF inv] a show ?thesis
      by (intro ws_inv_frame [OF inv, where r = "Some a" and sid = ?sid and st' = "ws_store s"])
        (simp_all add: register_def Let_def)
  next
    case (Some e)
    have e: "h_session_id (handle_at s e) = ?sid"
      using ws_inv_get [OF inv Some] by simp
    let ?st = "(ws_store s)[e := (handle_at s e)\<lparr>h_relay_tasks := []\<rparr>]"
    have "h_session_id (?st ! a) = ?sid"
      using a e by (cases "e = a") simp_all
    with Some split ws_inv_active [OF inv] a e show ?thesis
      by (intro ws_inv_frame [OF inv, where r = "Some a" and sid = ?sid and st' = ?st])
        (simp_all add: register_def Let_def upd_handle_def handle_ids_update other_tasks_update [OF keys e])
  qed
qed

lemma ws_inv_deregister:
  assumes inv: "ws_inv s" and get: "dict_get (ws_sessions s) sid = Some a"
  shows "ws_inv (snd (deregister_and_count sid cause s))"
    and "fst (deregister_and_count sid cause s) = (Some a, length (h_relay_tasks (handle_at s a)))"
    and "ws_active_relay_tasks (snd (deregister_and_count sid cause s))
           = ws_active_relay_tasks s - int (length (h_relay_tasks (handle_at s a)))"
    and "handle_at (snd (deregister_and_count sid cause s)) a
           = (handle_at s a)\<lparr>h_termination_cause := Some cause, h_relay_tasks := []\<rparr>"
proof -
  have keys: "\<forall>(k, b) \<in> set (ws_sessions s). h_session_id (handle_at s b) = k"
    using inv by (auto simp: ws_inv_def)
  note a = ws_inv_get [OF inv get]
  note split = registered_tasks_split [OF ws_inv_ok [OF inv], of sid] ws_inv_active [OF inv]
  have nonneg: "0 \<le> other_tasks sid (ws_store s) (ws_sessions s)"
    by (auto simp: other_tasks_def tasks_at_def intro!: sum_list_nonneg)
  let ?h = "(handle_at s a)\<lparr>h_termination_cause := Some cause, h_relay_tasks := []\<rparr>"
  have st: "ws_store (snd (deregister_and_count sid cause s)) = (ws_store s)[a := ?h]"
    using get a by (simp add: deregister_and_count_def deregister_internal_def upd_handle_def Let_def)
  show act: "ws_active_relay_tasks (snd (deregister_and_count sid cause s))
           = ws_active_relay_tasks s - int (length (h_relay_tasks (handle_at s a)))"
    using get a split nonneg by (simp add: deregister_and_count_def deregister_internal_def upd_handle_def Let_def)
  show "ws_inv (snd (deregister_and_count sid cause s))"
    using get split act a
    by (intro ws_inv_frame [OF inv st, where r = None and sid = sid])
      (simp_all add: handle_ids_update other_tasks_update [OF keys]
        deregister_and_count_def deregister_internal_def upd_handle_def Let_def)
  show "fst (deregister_and_count sid cause s) = (Some a, length (h_relay_tasks (handle_at s a)))"
    using get a by (simp add: deregister_and_count_def deregister_internal_def upd_handle_def Let_def)
  show "handle_at (snd (deregister_and_count sid cause s)) a = ?h"
    using st a by simp
qed

lemma ws_inv_attach:
  assumes inv: "ws_inv s"
  shows "ws_inv (attach_tasks now sid tasks s)"
proof (cases "dict_get (ws_sessions s) sid")
  case None
  with inv show ?thesis by (simp add: attach_tasks_def)
next
  case (Some a)
  have keys: "\<forall>(k, b) \<in> set (ws_sessions s). h_session_id (handle_at s b) = k"
    using inv by (auto simp: ws_inv_def)
  note a = ws_inv_get [OF inv Some]
  let ?h = "(handle_at s a)\<lparr>h_relay_tasks := h_relay_tasks (handle_at s a) @ tasks, h_last_activity_at := now\<rparr>"
  have st: "ws_store (attach_tasks now sid tasks s) = (ws_store s)[a := ?h]"
    using Some a by (simp add: attach_tasks_def upd_handle_def mark_activity_def Let_def)
  show ?thesis
    using Some a registered_tasks_split [OF ws_inv_ok [OF inv], of sid] ws_inv_active [OF inv]
    by (intro ws_inv_frame [OF inv st, where r = "Some a" and sid = sid])
      (simp_all add: handle_ids_update other_tasks_update [OF keys] update_triv attach_tasks_def upd_handle_def Let_def)
qed

lemma ws_inv_new: "ws_inv s \<Longrightarrow> ws_inv (new_handle h s)"
proof -
  assume inv: "ws_inv s"
  have "registered_tasks (new_handle h s) = registered_tasks s"
    using inv unfolding registered_tasks_def
    by (intro arg_cong [where f = sum_list] map_cong)
      (auto simp: new_handle_def ws_inv_def tasks_at_def nth_append)
  with inv show ?thesis
    by (auto simp: ws_inv_def new_handle_def nth_append)
qed

lemma deregister_absent:
  "dict_get (ws_sessions s) sid = None \<Longrightarrow> deregister_and_count sid cause s = ((None, 0), s)"
  by (simp add: deregister_and_count_def deregister_internal_def)

lemma ws_inv_step: "ws_inv s \<Longrightarrow> ws_inv (ws_step op s)"
proof (cases op)
  case (WDeregister sid cause)
  assume "ws_inv s"
  with WDeregister ws_inv_deregister(1) deregister_absent show ?thesis
    by (cases "dict_get (ws_sessions s) sid") fastforce+
qed (auto simp: ws_inv_new ws_inv_register ws_inv_attach)

lemma ws_inv_run: "ws_inv (ws_run ops)"
proof -
  have "ws_inv (fold ws_step ops s)" if "ws_inv s" for s :: "'a ws_registry"
    using that by (induction ops arbitrary: s) (simp_all add: ws_inv_step)
  then show ?thesis
    by (simp add: ws_run_def ws_init_def ws_inv_def registered_tasks_def)
qed

lemma snapshot_task_counts:
  "map (int \<circ> sn_relay_task_count) (ws_snapshot_list get_name clock s) = map (tasks_at (ws_store s)) (ws_sessions s)"
  by (auto simp: ws_snapshot_list_def to_snapshot_dict_def tasks_at_def)

lemma length_snapshot: "length (ws_snapshot_list get_name clock s) = length (ws_sessions s)"
  by (simp add: ws_snapshot_list_def)

lemma snapshot_ids:
  "ws_inv s \<Longrightarrow> map sn_session_id (ws_snapshot_list get_name clock s) = map fst (ws_sessions s)"
  by (auto simp: ws_snapshot_list_def to_snapshot_dict_def ws_inv_def)

section \<open>Properties\<close>

text \<open>After any sequence of constructions, registrations (also of a handle that is already registered, or
  under a session id already in use), attachments and deregistrations, the registry's two gauges
  agree with its snapshot: the separately kept task counter is the sum of the task counts of the
  listed sessions, the session gauge is their number, and no session is listed twice.\<close>
theorem registry_gauges_exact:
  "active_relay_task_count (ws_run ops) = (\<Sum>e\<leftarrow>ws_snapshot_list get_name clock (ws_run ops). int (sn_relay_task_count e))
   \<and> ws_active_count (ws_run ops) = length (ws_snapshot_list get_name clock (ws_run ops))
   \<and> distinct (map sn_session_id (ws_snapshot_list get_name clock (ws_run ops)))"
proof -
  note inv = ws_inv_run [of ops]
  have "active_relay_task_count (ws_run ops) = registered_tasks (ws_run ops)"
    using ws_inv_active [OF inv] by (simp add: active_relay_task_count_def)
  moreover have "\<dots> = (\<Sum>e\<leftarrow>ws_snapshot_list get_name clock (ws_run ops). int (sn_relay_task_count e))"
    using snapshot_task_counts [of get_name clock "ws_run ops"]
    by (simp add: registered_tasks_def comp_def)
  ultimately show ?thesis
    using ws_inv_ok [OF inv] snapshot_ids [OF inv]
    by (simp add: ws_active_count_def length_snapshot)
qed

text \<open>Deregistering a registered session on any reachable registry returns its handle with the number of
  tasks it had, takes exactly that number off the gauge (the clamp at zero never engages), records
  the cause and drops every task reference, removes that session and no other, and a second call
  returns \<open>(None, 0)\<close> and changes nothing.\<close>
theorem deregister_releases:
  assumes "ws_get (ws_run ops) sid = Some a"
  shows "case deregister_and_count sid cause (ws_run ops) of ((h, released), s') \<Rightarrow>
      h = Some a \<and> released = length (h_relay_tasks (handle_at (ws_run ops) a))
      \<and> active_relay_task_count s' = active_relay_task_count (ws_run ops) - int released
      \<and> handle_at s' a = (handle_at (ws_run ops) a)\<lparr>h_termination_cause := Some cause, h_relay_tasks := []\<rparr>
      \<and> ws_get s' = (ws_get (ws_run ops))(sid := None)
      \<and> deregister_and_count sid cause' s' = ((None, 0), s')"
proof -
  have get: "dict_get (ws_sessions (ws_run ops)) sid = Some a"
    using assms by (simp add: ws_get_def)
  obtain h n s' where r: "deregister_and_count sid cause (ws_run ops) = ((h, n), s')"
    by (metis prod.exhaust)
  have "ws_sessions s' = dict_del sid (ws_sessions (ws_run ops))"
    using r get by (auto simp: deregister_and_count_def deregister_internal_def upd_handle_def Let_def)
  then have gone: "ws_get s' = (ws_get (ws_run ops))(sid := None)"
    by (auto simp: ws_get_def dict_simps)
  then have "deregister_and_count sid cause' s' = ((None, 0), s')"
    by (intro deregister_absent) (metis fun_upd_same ws_get_def)
  with r gone ws_inv_deregister [OF ws_inv_run get, of cause] show ?thesis
    by (simp add: active_relay_task_count_def)
qed

definition sample_handle :: "string WSSessionHandle" where
  "sample_handle = \<lparr>h_session_id = ''s1'', h_request_id = ''r1'', h_client_addr = None, h_upstream_url = None,
     h_started_at = 0, h_last_activity_at = 0, h_relay_tasks = [], h_termination_cause = None\<rparr>"

definition sample_session :: "string ws_op list" where
  "sample_session = [WNew sample_handle, WRegister 0, WAttach 5 ''s1'' [''client'', ''upstream'']]"

lemma sample_session_run:
  "ws_run sample_session =
     \<lparr>ws_store = [sample_handle\<lparr>h_relay_tasks := [''client'', ''upstream''], h_last_activity_at := 5\<rparr>],
      ws_sessions = [(''s1'', 0)], ws_active_relay_tasks = 2\<rparr>"
  by (simp add: ws_run_def sample_session_def ws_init_def new_handle_def register_def attach_tasks_def
      upd_handle_def mark_activity_def sample_handle_def Let_def)

theorem deregister_releases_witness:
  "active_relay_task_count (snd (deregister_and_count ''s1'' client_disconnect (ws_run sample_session))) = 0
   \<and> snd (fst (deregister_and_count ''s1'' client_disconnect (ws_run sample_session))) = 2"
  using deregister_releases [of sample_session "''s1''" 0 client_disconnect unknown]
  by (auto simp: sample_session_run ws_get_def active_relay_task_count_def split: prod.splits)

text \<open>
  \<open>register\<close> is documented as idempotent by session id. Registering a registered handle again
  clears the tasks of that same handle: the references are dropped and the gauge falls.
\<close>

theorem reregister_drops_tasks:
  assumes "ws_get (ws_run ops) sid = Some a"
  shows "h_relay_tasks (handle_at (register a (ws_run ops)) a) = []
    \<and> active_relay_task_count (register a (ws_run ops))
        = active_relay_task_count (ws_run ops) - int (length (h_relay_tasks (handle_at (ws_run ops) a)))"
  using assms ws_inv_get [OF ws_inv_run, of ops sid a]
  by (auto simp: ws_get_def register_def upd_handle_def active_relay_task_count_def Let_def)

end
