(* ===== verification/Memory_Graph.thy ===== *)
theory Memory_Graph
  imports Py_Text
begin

text \<open>
  The in-memory knowledge graph (\<open>headroom/memory/adapters/graph.py\<close>, data of
  \<open>graph_models.py\<close>): entities and relationships by id, and four secondary indexes kept beside
  them. Every method holds the store's lock, so a method is atomic. A Python set of ids is a list
  without repetition; the order in which Python iterates over a set is unspecified, so every loop
  over one goes through a parameter \<open>it\<close>, and the lemmas only use that \<open>it\<close> keeps the elements.
  Entities are values: a caller that changes an entity it already added is not modelled.

  \<open>idx_exact\<close> states what an index is: the inverse image of a key of the primary dictionary. The
  lemmas about it are shared by the user, source and target indexes.
\<close>

section \<open>Entities and relationships\<close>

datatype RelationshipDirection = OUTGOING | INCOMING | BOTH

record Entity =
  ge_id :: string
  ge_user_id :: string
  ge_name :: string
  ge_entity_type :: string
  ge_description :: "string option"
  ge_properties :: "(string, json) pydict"
  ge_created_at :: rat
  ge_updated_at :: rat
  ge_metadata :: "(string, json) pydict"

record Relationship =
  gr_id :: string
  gr_user_id :: string
  gr_source_id :: string
  gr_target_id :: string
  gr_relation_type :: string
  gr_weight :: rat
  gr_properties :: "(string, json) pydict"
  gr_created_at :: rat
  gr_metadata :: "(string, json) pydict"

record Subgraph =
  sg_entities :: "Entity list"
  sg_relationships :: "Relationship list"
  sg_root_entity_ids :: "string list"

definition sg_get_entity :: "Subgraph \<Rightarrow> string \<Rightarrow> Entity option" where
  "sg_get_entity sg eid = find (\<lambda>e. ge_id e = eid) (sg_entities sg)"

definition sg_neighbor_id :: "string \<Rightarrow> Relationship \<Rightarrow> string list" where
  "sg_neighbor_id eid r =
     (if gr_source_id r = eid then [gr_target_id r] else if gr_target_id r = eid then [gr_source_id r] else [])"

definition sg_get_neighbors :: "Subgraph \<Rightarrow> string \<Rightarrow> Entity list" where
  "sg_get_neighbors sg eid =
     (let neighbor_ids = concat (map (sg_neighbor_id eid) (sg_relationships sg))
      in filter (\<lambda>e. ge_id e \<in> set neighbor_ids) (sg_entities sg))"

section \<open>Sets and indexes\<close>

definition set_add :: "'a \<Rightarrow> 'a list \<Rightarrow> 'a list" where
  "set_add x xs = (if x \<in> set xs then xs else xs @ [x])"

definition set_update :: "'a list \<Rightarrow> 'a list \<Rightarrow> 'a list" where
  "set_update ys xs = fold set_add ys xs"

definition set_discard :: "'a \<Rightarrow> 'a list \<Rightarrow> 'a list" where
  "set_discard x xs = filter (\<lambda>y. y \<noteq> x) xs"

type_synonym index = "(string, string list) pydict"

text \<open>\<open>if k not in d: d[k] = set()\<close>, then \<open>d[k].add(x)\<close>; and the removal that drops an empty set.\<close>

definition idx_add :: "string \<Rightarrow> string \<Rightarrow> index \<Rightarrow> index" where
  "idx_add k x d = dict_set k (set_add x (dict_get_default d k [])) d"

definition idx_discard :: "string \<Rightarrow> string \<Rightarrow> index \<Rightarrow> index" where
  "idx_discard k x d =
     (case dict_get d k of
        None \<Rightarrow> d
      | Some xs \<Rightarrow>
          let ys = set_discard x xs
          in if ys = [] then dict_del k d else dict_set k ys d)"

abbreviation idx_get :: "index \<Rightarrow> string \<Rightarrow> string list" where
  "idx_get d k \<equiv> dict_get_default d k []"

section \<open>The store\<close>

record graph_store =
  g_entities :: "(string, Entity) pydict"
  g_relationships :: "(string, Relationship) pydict"
  g_by_user :: index
  g_by_name :: "(string, (string, string) pydict) pydict"
  g_by_source :: index
  g_by_target :: index

definition graph_init :: graph_store where
  "graph_init = \<lparr>g_entities = [], g_relationships = [], g_by_user = [], g_by_name = [], g_by_source = [], g_by_target = []\<rparr>"

definition name_discard :: "Entity \<Rightarrow> (string, (string, string) pydict) pydict \<Rightarrow> (string, (string, string) pydict) pydict" where
  "name_discard e d =
     (case dict_get d (ge_user_id e) of
        None \<Rightarrow> d
      | Some user_names \<Rightarrow>
          let name_lower = str_lower (ge_name e);
              names = (if dict_get user_names name_lower = Some (ge_id e) then dict_del name_lower user_names else user_names)
          in if names = [] then dict_del (ge_user_id e) d else dict_set (ge_user_id e) names d)"

definition remove_entity_from_indexes :: "Entity \<Rightarrow> graph_store \<Rightarrow> graph_store" where
  "remove_entity_from_indexes e g =
     g\<lparr>g_by_user := idx_discard (ge_user_id e) (ge_id e) (g_by_user g), g_by_name := name_discard e (g_by_name g)\<rparr>"

definition add_entity :: "Entity \<Rightarrow> graph_store \<Rightarrow> graph_store" where
  "add_entity e g =
     (let g1 = (case dict_get (g_entities g) (ge_id e) of
                  None \<Rightarrow> g
                | Some old \<Rightarrow> remove_entity_from_indexes old g);
          names = dict_get_default (g_by_name g1) (ge_user_id e) []
      in g1\<lparr>g_entities := dict_set (ge_id e) e (g_entities g1),
            g_by_user := idx_add (ge_user_id e) (ge_id e) (g_by_user g1),
            g_by_name := dict_set (ge_user_id e) (dict_set (str_lower (ge_name e)) (ge_id e) names) (g_by_name g1)\<rparr>)"

definition get_entity :: "graph_store \<Rightarrow> string \<Rightarrow> Entity option" where
  "get_entity g eid = dict_get (g_entities g) eid"

definition get_entity_by_name :: "graph_store \<Rightarrow> string \<Rightarrow> string \<Rightarrow> Entity option" where
  "get_entity_by_name g user_id name =
     (case dict_get (g_by_name g) user_id of
        None \<Rightarrow> None
      | Some user_names \<Rightarrow>
          (case dict_get user_names (str_lower name) of
             None \<Rightarrow> None
           | Some eid \<Rightarrow> dict_get (g_entities g) eid))"

definition remove_relationship_from_indexes :: "Relationship \<Rightarrow> graph_store \<Rightarrow> graph_store" where
  "remove_relationship_from_indexes r g =
     g\<lparr>g_by_source := idx_discard (gr_source_id r) (gr_id r) (g_by_source g),
       g_by_target := idx_discard (gr_target_id r) (gr_id r) (g_by_target g)\<rparr>"

definition remove_relationship_internal :: "string \<Rightarrow> graph_store \<Rightarrow> graph_store \<times> bool" where
  "remove_relationship_internal rid g =
     (case dict_get (g_relationships g) rid of
        None \<Rightarrow> (g, False)
      | Some r \<Rightarrow>
          let g1 = remove_relationship_from_indexes r g
          in (g1\<lparr>g_relationships := dict_del rid (g_relationships g1)\<rparr>, True))"

definition delete_relationship :: "string \<Rightarrow> graph_store \<Rightarrow> graph_store \<times> bool" where
  "delete_relationship rid g = remove_relationship_internal rid g"

definition add_relationship :: "Relationship \<Rightarrow> graph_store \<Rightarrow> graph_store" where
  "add_relationship r g =
     (let g1 = (case dict_get (g_relationships g) (gr_id r) of
                  None \<Rightarrow> g
                | Some old \<Rightarrow> remove_relationship_from_indexes old g)
      in g1\<lparr>g_relationships := dict_set (gr_id r) r (g_relationships g1),
            g_by_source := idx_add (gr_source_id r) (gr_id r) (g_by_source g1),
            g_by_target := idx_add (gr_target_id r) (gr_id r) (g_by_target g1)\<rparr>)"

type_synonym set_order = "string list \<Rightarrow> string list"

definition remove_all_relationships :: "string list \<Rightarrow> graph_store \<Rightarrow> graph_store" where
  "remove_all_relationships rids g = fold (\<lambda>rid g. fst (remove_relationship_internal rid g)) rids g"

definition remove_entity :: "Entity \<Rightarrow> string \<Rightarrow> graph_store \<Rightarrow> graph_store" where
  "remove_entity e eid g =
     (let g1 = remove_entity_from_indexes e g in g1\<lparr>g_entities := dict_del eid (g_entities g1)\<rparr>)"

definition delete_entity :: "set_order \<Rightarrow> string \<Rightarrow> graph_store \<Rightarrow> graph_store \<times> bool" where
  "delete_entity it eid g =
     (case dict_get (g_entities g) eid of
        None \<Rightarrow> (g, False)
      | Some e \<Rightarrow>
          let to_delete = set_update (idx_get (g_by_target g) eid) (set_update (idx_get (g_by_source g) eid) []);
              g1 = remove_all_relationships (it to_delete) g
          in (remove_entity e eid g1, True))"

text \<open>The ids that a query looks at, by direction.\<close>

definition rel_ids :: "graph_store \<Rightarrow> RelationshipDirection \<Rightarrow> string \<Rightarrow> string list" where
  "rel_ids g direction eid =
     (let out = (if direction \<in> {OUTGOING, BOTH} then set_update (idx_get (g_by_source g) eid) [] else [])
      in if direction \<in> {INCOMING, BOTH} then set_update (idx_get (g_by_target g) eid) out else out)"

definition get_relationships ::
  "set_order \<Rightarrow> graph_store \<Rightarrow> string \<Rightarrow> RelationshipDirection \<Rightarrow> string option \<Rightarrow> Relationship list" where
  "get_relationships it g eid direction relation_type =
     filter (\<lambda>r. case relation_type of None \<Rightarrow> True | Some t \<Rightarrow> gr_relation_type r = t)
       (List.map_filter (dict_get (g_relationships g)) (it (rel_ids g direction eid)))"

section \<open>Clearing\<close>

fun count_removed :: "string list \<Rightarrow> graph_store \<times> nat \<Rightarrow> graph_store \<times> nat" where
  "count_removed [] (g, n) = (g, n)"
| "count_removed (rid # rids) (g, n) =
     (case remove_relationship_internal rid g of (g1, removed) \<Rightarrow> count_removed rids (g1, if removed then Suc n else n))"

fun clear_entities :: "set_order \<Rightarrow> string list \<Rightarrow> graph_store \<times> nat \<times> nat \<Rightarrow> graph_store \<times> nat \<times> nat" where
  "clear_entities it [] (g, ne, nr) = (g, ne, nr)"
| "clear_entities it (eid # eids) (g, ne, nr) =
     (case dict_get (g_entities g) eid of
        None \<Rightarrow> clear_entities it eids (g, ne, nr)
      | Some e \<Rightarrow>
          let rids = set_update (idx_get (g_by_target g) eid) (set_update (idx_get (g_by_source g) eid) []);
              (g1, nr1) = count_removed (it rids) (g, nr)
          in clear_entities it eids (remove_entity e eid g1, Suc ne, nr1))"

definition clear_user :: "set_order \<Rightarrow> string \<Rightarrow> graph_store \<Rightarrow> graph_store \<times> nat \<times> nat" where
  "clear_user it user_id g = clear_entities it (it (idx_get (g_by_user g) user_id)) (g, 0, 0)"

definition get_entities_for_user :: "set_order \<Rightarrow> graph_store \<Rightarrow> string \<Rightarrow> Entity list" where
  "get_entities_for_user it g user_id =
     List.map_filter (dict_get (g_entities g)) (it (idx_get (g_by_user g) user_id))"

definition graph_clear :: "graph_store \<Rightarrow> graph_store" where
  "graph_clear g = graph_init"

definition entity_count :: "graph_store \<Rightarrow> nat" where
  "entity_count g = length (g_entities g)"

definition relationship_count :: "graph_store \<Rightarrow> nat" where
  "relationship_count g = length (g_relationships g)"

record graph_stats =
  gs_entity_count :: nat
  gs_relationship_count :: nat
  gs_users_count :: nat
  gs_source_index_size :: nat
  gs_target_index_size :: nat

definition graph_stats_of :: "graph_store \<Rightarrow> graph_stats" where
  "graph_stats_of g =
     \<lparr>gs_entity_count = length (g_entities g), gs_relationship_count = length (g_relationships g),
      gs_users_count = length (g_by_user g), gs_source_index_size = length (g_by_source g),
      gs_target_index_size = length (g_by_target g)\<rparr>"

section \<open>Exact indexes\<close>

lemma set_set_add [simp]: "set (set_add x xs) = insert x (set xs)"
  by (auto simp: set_add_def)

lemma set_set_update [simp]: "set (set_update ys xs) = set xs \<union> set ys"
proof -
  have "set (fold set_add ys xs) = set xs \<union> set ys"
    by (induction ys arbitrary: xs) auto
  then show ?thesis by (simp add: set_update_def)
qed

definition idx_exact :: "('v \<Rightarrow> string) \<Rightarrow> index \<Rightarrow> (string, 'v) pydict \<Rightarrow> bool" where
  "idx_exact key d prim \<longleftrightarrow>
     dict_ok d \<and> (\<forall>k. dict_get d k \<noteq> Some [])
     \<and> (\<forall>k x. x \<in> set (idx_get d k) \<longleftrightarrow> (\<exists>v. dict_get prim x = Some v \<and> key v = k))"

lemma idx_exact_mem: "idx_exact key d prim \<Longrightarrow> x \<in> set (idx_get d k) \<longleftrightarrow> (\<exists>v. dict_get prim x = Some v \<and> key v = k)"
  by (simp add: idx_exact_def)

lemma idx_get_add: "x \<in> set (idx_get (idx_add k a d) k') \<longleftrightarrow> x \<in> set (idx_get d k') \<or> k' = k \<and> x = a"
  by (auto simp: idx_add_def dict_get_default_def dict_simps split: if_splits option.splits)

lemma idx_get_discard: "x \<in> set (idx_get (idx_discard k a d) k') \<longleftrightarrow> x \<in> set (idx_get d k') \<and> \<not> (k' = k \<and> x = a)"
proof (cases "dict_get d k")
  case (Some xs)
  show ?thesis
  proof (cases "set_discard a xs = []")
    case True
    with Some have "idx_discard k a d = dict_del k d" "\<And>y. y \<in> set xs \<Longrightarrow> y = a"
      by (auto simp: idx_discard_def set_discard_def filter_empty_conv)
    with Some show ?thesis
      by (auto simp: dict_get_default_def dict_simps)
  next
    case False
    with Some have "idx_discard k a d = dict_set k (set_discard a xs) d"
      by (simp add: idx_discard_def)
    with Some show ?thesis
      by (auto simp: dict_get_default_def dict_simps set_discard_def)
  qed
qed (auto simp: idx_discard_def dict_get_default_def)

lemma idx_add_shape:
  assumes "dict_ok d" "\<forall>k. dict_get d k \<noteq> Some []"
  shows "dict_ok (idx_add k a d) \<and> (\<forall>k'. dict_get (idx_add k a d) k' \<noteq> Some [])"
  using assms by (auto simp: idx_add_def dict_simps set_add_def)

lemma idx_discard_shape:
  assumes "dict_ok d" "\<forall>k. dict_get d k \<noteq> Some []"
  shows "dict_ok (idx_discard k a d) \<and> (\<forall>k'. dict_get (idx_discard k a d) k' \<noteq> Some [])"
  using assms by (auto simp: idx_discard_def Let_def dict_simps simp del: map_of_eq_Some_iff split: option.splits)

lemma idx_exact_empty: "idx_exact key [] []"
  by (simp add: idx_exact_def dict_get_default_def)

lemma idx_exact_add:
  assumes "idx_exact key d prim" "dict_get prim x = None"
  shows "idx_exact key (idx_add (key v) x d) (dict_set x v prim)"
  using assms idx_add_shape [of d] unfolding idx_exact_def idx_get_add by (auto simp: dict_simps)

lemma idx_exact_discard:
  assumes "idx_exact key d prim" "dict_get prim x = Some v"
  shows "idx_exact key (idx_discard (key v) x d) (dict_del x prim)"
  using assms idx_discard_shape [of d] unfolding idx_exact_def idx_get_discard by (auto simp: dict_simps)

lemma idx_exact_cong: "idx_exact key d prim \<Longrightarrow> dict_get prim = dict_get prim' \<Longrightarrow> idx_exact key d prim'"
  by (simp add: idx_exact_def)

lemma idx_exact_replace:
  assumes "idx_exact key d prim" "dict_get prim x = Some old"
  shows "idx_exact key (idx_add (key v) x (idx_discard (key old) x d)) (dict_set x v prim)"
proof -
  have "idx_exact key (idx_add (key v) x (idx_discard (key old) x d)) (dict_set x v (dict_del x prim))"
    using idx_exact_discard [OF assms] by (intro idx_exact_add) (auto simp: dict_simps)
  then show ?thesis
    by (rule idx_exact_cong) (auto simp: dict_simps)
qed

section \<open>The invariant\<close>

definition name_lookup :: "(string, (string, string) pydict) pydict \<Rightarrow> string \<Rightarrow> string \<Rightarrow> string option" where
  "name_lookup d u n = (case dict_get d u of None \<Rightarrow> None | Some names \<Rightarrow> dict_get names n)"

definition names_sound :: "(string, (string, string) pydict) pydict \<Rightarrow> (string, Entity) pydict \<Rightarrow> bool" where
  "names_sound d es \<longleftrightarrow>
     (\<forall>u n eid. name_lookup d u n = Some eid \<longrightarrow>
        (\<exists>e. dict_get es eid = Some e \<and> ge_user_id e = u \<and> str_lower (ge_name e) = n))"

definition ids_ok :: "('v \<Rightarrow> string) \<Rightarrow> (string, 'v) pydict \<Rightarrow> bool" where
  "ids_ok idf d \<longleftrightarrow> dict_ok d \<and> (\<forall>k v. dict_get d k = Some v \<longrightarrow> idf v = k)"

definition graph_inv :: "graph_store \<Rightarrow> bool" where
  "graph_inv g \<longleftrightarrow>
     ids_ok ge_id (g_entities g) \<and> ids_ok gr_id (g_relationships g)
     \<and> idx_exact ge_user_id (g_by_user g) (g_entities g)
     \<and> idx_exact gr_source_id (g_by_source g) (g_relationships g)
     \<and> idx_exact gr_target_id (g_by_target g) (g_relationships g)
     \<and> names_sound (g_by_name g) (g_entities g)"

lemma graph_invD:
  assumes "graph_inv g"
  shows "ids_ok ge_id (g_entities g)" "ids_ok gr_id (g_relationships g)"
    "idx_exact ge_user_id (g_by_user g) (g_entities g)"
    "idx_exact gr_source_id (g_by_source g) (g_relationships g)"
    "idx_exact gr_target_id (g_by_target g) (g_relationships g)"
    "names_sound (g_by_name g) (g_entities g)"
  using assms by (simp_all add: graph_inv_def)

lemma ids_ok_set: "ids_ok idf d \<Longrightarrow> ids_ok idf (dict_set (idf v) v d)"
  by (auto simp: ids_ok_def dict_simps)

lemma ids_ok_del: "ids_ok idf d \<Longrightarrow> ids_ok idf (dict_del k d)"
  by (auto simp: ids_ok_def dict_simps)

lemma ids_okD: "ids_ok idf d \<Longrightarrow> dict_get d k = Some v \<Longrightarrow> idf v = k"
  by (simp add: ids_ok_def)

lemma dict_del_Nil: "dict_del k d = [] \<Longrightarrow> n \<noteq> k \<Longrightarrow> dict_get d n = None"
  by (metis dict_get_del map_of.simps(1))

lemma name_lookup_discard:
  "name_lookup (name_discard e d) u n =
     (if u = ge_user_id e \<and> n = str_lower (ge_name e) \<and> name_lookup d u n = Some (ge_id e) then None else name_lookup d u n)"
  by (auto simp: name_lookup_def name_discard_def Let_def dict_simps dict_del_Nil split: option.splits if_splits)

lemma name_lookup_set:
  "name_lookup (dict_set u (dict_set n x (dict_get_default d u [])) d) u' n' =
     (if u' = u \<and> n' = n then Some x else name_lookup d u' n')"
  by (auto simp: name_lookup_def dict_get_default_def dict_simps split: option.splits)

lemma graph_inv_init: "graph_inv graph_init"
  by (simp add: graph_inv_def graph_init_def ids_ok_def idx_exact_empty names_sound_def name_lookup_def)

lemma graph_inv_add_entity:
  assumes inv: "graph_inv g"
  shows "graph_inv (add_entity e g)"
proof -
  note d = graph_invD [OF inv]
  obtain g1 where g1: "g1 = (case dict_get (g_entities g) (ge_id e) of None \<Rightarrow> g | Some old \<Rightarrow> remove_entity_from_indexes old g)"
    by blast
  have frame: "g_entities g1 = g_entities g" "g_relationships g1 = g_relationships g"
    "g_by_source g1 = g_by_source g" "g_by_target g1 = g_by_target g"
    by (simp_all add: g1 remove_entity_from_indexes_def split: option.splits)
  have user: "idx_exact ge_user_id (idx_add (ge_user_id e) (ge_id e) (g_by_user g1)) (dict_set (ge_id e) e (g_entities g))"
    using d(3) idx_exact_add [of ge_user_id "g_by_user g" "g_entities g" "ge_id e" e]
      idx_exact_replace [of ge_user_id "g_by_user g" "g_entities g" "ge_id e" _ e] ids_okD [OF d(1)]
    by (auto simp: g1 remove_entity_from_indexes_def split: option.splits)
  have "name_lookup (g_by_name g1) u n = Some eid \<Longrightarrow>
      eid \<noteq> ge_id e \<and> (\<exists>x. dict_get (g_entities g) eid = Some x \<and> ge_user_id x = u \<and> str_lower (ge_name x) = n)" for u n eid
    using d(6) ids_okD [OF d(1)]
    by (fastforce simp: g1 remove_entity_from_indexes_def names_sound_def name_lookup_discard split: option.splits if_splits)
  then have "names_sound (dict_set (ge_user_id e) (dict_set (str_lower (ge_name e)) (ge_id e) (dict_get_default (g_by_name g1) (ge_user_id e) []))
      (g_by_name g1)) (dict_set (ge_id e) e (g_entities g))"
    unfolding names_sound_def name_lookup_set by (auto simp: dict_simps)
  with d user frame show ?thesis
    by (simp add: graph_inv_def add_entity_def g1 [symmetric] ids_ok_set)
qed

lemma graph_inv_add_relationship:
  assumes inv: "graph_inv g"
  shows "graph_inv (add_relationship r g)"
proof (cases "dict_get (g_relationships g) (gr_id r)")
  case None
  with graph_invD [OF inv] show ?thesis
    by (simp add: graph_inv_def add_relationship_def ids_ok_set idx_exact_add)
next
  case (Some old)
  with graph_invD [OF inv] ids_okD [OF graph_invD(2) [OF inv] Some] show ?thesis
    using idx_exact_replace [of gr_source_id _ _ "gr_id r" old r] idx_exact_replace [of gr_target_id _ _ "gr_id r" old r]
    by (simp add: graph_inv_def add_relationship_def remove_relationship_from_indexes_def ids_ok_set)
qed

lemma graph_inv_remove_relationship:
  assumes inv: "graph_inv g"
  shows "graph_inv (fst (remove_relationship_internal rid g))"
proof (cases "dict_get (g_relationships g) rid")
  case None
  with inv show ?thesis by (simp add: remove_relationship_internal_def)
next
  case (Some r)
  with graph_invD [OF inv] ids_okD [OF graph_invD(2) [OF inv] Some] show ?thesis
    using idx_exact_discard [of gr_source_id _ _ rid r] idx_exact_discard [of gr_target_id _ _ rid r]
    by (simp add: graph_inv_def remove_relationship_internal_def remove_relationship_from_indexes_def ids_ok_del)
qed

lemma remove_relationship_frame:
  "g_entities (fst (remove_relationship_internal rid g)) = g_entities g"
  "g_relationships (fst (remove_relationship_internal rid g)) = dict_del rid (g_relationships g)"
  by (auto simp: remove_relationship_internal_def remove_relationship_from_indexes_def dict_del_absent split: option.splits)

lemma remove_all_relationships_facts:
  "graph_inv g \<Longrightarrow> graph_inv (remove_all_relationships rids g)"
  "g_entities (remove_all_relationships rids g) = g_entities g"
  "g_relationships (remove_all_relationships rids g) = dict_del_all rids (g_relationships g)"
proof -
  show "graph_inv g \<Longrightarrow> graph_inv (remove_all_relationships rids g)"
    unfolding remove_all_relationships_def
    by (induction rids arbitrary: g) (simp_all add: graph_inv_remove_relationship)
  show "g_entities (remove_all_relationships rids g) = g_entities g"
    unfolding remove_all_relationships_def
    by (induction rids arbitrary: g) (simp_all add: remove_relationship_frame)
  show "g_relationships (remove_all_relationships rids g) = dict_del_all rids (g_relationships g)"
    unfolding remove_all_relationships_def
    by (induction rids arbitrary: g) (simp_all add: remove_relationship_frame)
qed

lemma graph_inv_remove_entity:
  assumes inv: "graph_inv g" and e: "dict_get (g_entities g) eid = Some e"
  shows "graph_inv (remove_entity e eid g)"
proof -
  note d = graph_invD [OF inv]
  have id: "ge_id e = eid" using ids_okD [OF d(1) e] .
  have "name_lookup (name_discard e (g_by_name g)) u n = Some i \<Longrightarrow>
      i \<noteq> eid \<and> (\<exists>x. dict_get (g_entities g) i = Some x \<and> ge_user_id x = u \<and> str_lower (ge_name x) = n)" for u n i
    using d(6) e id by (fastforce simp: names_sound_def name_lookup_discard split: if_splits)
  then have "names_sound (name_discard e (g_by_name g)) (dict_del eid (g_entities g))"
    by (auto simp: names_sound_def dict_simps)
  with d e id show ?thesis
    using idx_exact_discard [of ge_user_id _ _ eid e]
    by (simp add: graph_inv_def remove_entity_def remove_entity_from_indexes_def ids_ok_del)
qed

lemma graph_inv_delete_entity: "graph_inv g \<Longrightarrow> graph_inv (fst (delete_entity it eid g))"
  by (auto simp: delete_entity_def Let_def remove_all_relationships_facts intro!: graph_inv_remove_entity split: option.splits)

lemma count_removed_fst: "fst (count_removed rids (g, n)) = remove_all_relationships rids g"
  by (induction rids arbitrary: g n) (auto simp: remove_all_relationships_def split: prod.splits)

lemma clear_entities_step:
  assumes "dict_get (g_entities g) eid = Some e"
  shows "\<exists>nr'. clear_entities it (eid # eids) (g, ne, nr) = clear_entities it eids (fst (delete_entity it eid g), Suc ne, nr')"
  using assms count_removed_fst
  by (simp add: delete_entity_def Let_def) (metis (no_types, lifting) case_prod_beta' fst_conv prod.collapse)

lemma graph_inv_clear_entities: "graph_inv g \<Longrightarrow> graph_inv (fst (clear_entities it eids (g, ne, nr)))"
proof (induction eids arbitrary: g ne nr)
  case (Cons eid eids)
  show ?case
  proof (cases "dict_get (g_entities g) eid")
    case (Some e)
    with clear_entities_step obtain nr' where
      "clear_entities it (eid # eids) (g, ne, nr) = clear_entities it eids (fst (delete_entity it eid g), Suc ne, nr')"
      by blast
    with Cons graph_inv_delete_entity show ?thesis by simp
  qed (use Cons in simp)
qed simp

section \<open>Runs\<close>

datatype g_op =
    AddEntity Entity
  | DeleteEntity set_order string
  | AddRelationship Relationship
  | DeleteRelationship string
  | ClearUser set_order string
  | ClearGraph

primrec g_step :: "g_op \<Rightarrow> graph_store \<Rightarrow> graph_store" where
  "g_step (AddEntity e) g = add_entity e g"
| "g_step (DeleteEntity it eid) g = fst (delete_entity it eid g)"
| "g_step (AddRelationship r) g = add_relationship r g"
| "g_step (DeleteRelationship rid) g = fst (delete_relationship rid g)"
| "g_step (ClearUser it u) g = fst (clear_user it u g)"
| "g_step ClearGraph g = graph_clear g"

definition graph_run :: "g_op list \<Rightarrow> graph_store" where
  "graph_run ops = fold g_step ops graph_init"

lemma graph_inv_step: "graph_inv g \<Longrightarrow> graph_inv (g_step op g)"
  by (cases op)
    (simp_all add: graph_inv_add_entity graph_inv_delete_entity graph_inv_add_relationship delete_relationship_def
      graph_inv_remove_relationship clear_user_def graph_inv_clear_entities graph_clear_def graph_inv_init)

lemma graph_inv_run: "graph_inv (graph_run ops)"
proof -
  have "graph_inv (fold g_step ops g)" if "graph_inv g" for g
    using that by (induction ops arbitrary: g) (simp_all add: graph_inv_step)
  then show ?thesis by (simp add: graph_run_def graph_inv_init)
qed

text \<open>Which relationships a direction selects at an entity.\<close>

definition touches :: "RelationshipDirection \<Rightarrow> string \<Rightarrow> Relationship \<Rightarrow> bool" where
  "touches direction eid r =
     (direction \<in> {OUTGOING, BOTH} \<and> gr_source_id r = eid \<or> direction \<in> {INCOMING, BOTH} \<and> gr_target_id r = eid)"

lemma set_rel_ids:
  assumes "graph_inv g"
  shows "x \<in> set (rel_ids g direction eid) \<longleftrightarrow> (\<exists>r. dict_get (g_relationships g) x = Some r \<and> touches direction eid r)"
  using idx_exact_mem [OF graph_invD(4) [OF assms]] idx_exact_mem [OF graph_invD(5) [OF assms]]
  by (cases direction) (auto simp: rel_ids_def touches_def Let_def)

lemma set_map_filter_get:
  "y \<in> set (List.map_filter (dict_get d) xs) \<longleftrightarrow> (\<exists>x \<in> set xs. dict_get d x = Some y)"
  by (force simp: List.map_filter_def)

lemma mem_get_relationships:
  assumes inv: "graph_inv g" and it: "\<And>xs. set (it xs) = set xs"
  shows "r \<in> set (get_relationships it g eid direction relation_type) \<longleftrightarrow>
    dict_get (g_relationships g) (gr_id r) = Some r \<and> touches direction eid r
    \<and> (relation_type = None \<or> relation_type = Some (gr_relation_type r))"
proof -
  have "r \<in> set (get_relationships it g eid direction relation_type) \<longleftrightarrow>
      (\<exists>x. dict_get (g_relationships g) x = Some r) \<and> touches direction eid r
      \<and> (relation_type = None \<or> relation_type = Some (gr_relation_type r))"
    unfolding get_relationships_def set_filter mem_Collect_eq set_map_filter_get it Bex_def set_rel_ids [OF inv]
    by (cases relation_type) auto
  moreover have "(\<exists>x. dict_get (g_relationships g) x = Some r) \<longleftrightarrow> dict_get (g_relationships g) (gr_id r) = Some r"
    using ids_okD [OF graph_invD(2) [OF inv]] by blast
  ultimately show ?thesis by simp
qed

lemma delete_entity_gone:
  assumes "graph_inv g" and it: "\<And>xs. set (it xs) = set xs" and e: "dict_get (g_entities g) eid = Some e"
    and r: "dict_get (g_relationships (fst (delete_entity it eid g))) rid = Some r"
  shows "gr_source_id r \<noteq> eid \<and> gr_target_id r \<noteq> eid"
proof -
  let ?del = "set_update (idx_get (g_by_target g) eid) (set_update (idx_get (g_by_source g) eid) [])"
  have "dict_get (dict_del_all (it ?del) (g_relationships g)) rid = Some r"
    using r e by (simp add: delete_entity_def remove_entity_def remove_entity_from_indexes_def Let_def remove_all_relationships_facts)
  then show ?thesis
    using idx_exact_mem [OF graph_invD(4) [OF assms(1)]] idx_exact_mem [OF graph_invD(5) [OF assms(1)]]
    by (auto simp: dict_simps it split: if_splits)
qed

section \<open>Properties\<close>

text \<open>the four secondary indexes never drift from the data: after any sequence of additions, replacements,
  deletions and clears, and for every order in which Python may iterate over a set, the
  relationships listed for an entity are exactly the stored ones that touch it in that direction and
  have the requested type, the entities listed for a user are exactly the stored ones the user owns,
  an entity found by name is stored, belongs to the user and has that name up to case, and deleting
  an entity leaves no relationship that mentions it.\<close>
theorem graph_queries_exact:
  assumes it: "\<And>xs. set (it xs) = set xs" and g: "g = graph_run ops"
  shows "set (get_relationships it g eid direction relation_type) =
      {r. dict_get (g_relationships g) (gr_id r) = Some r \<and> touches direction eid r
          \<and> (relation_type = None \<or> relation_type = Some (gr_relation_type r))}
    \<and> set (get_entities_for_user it g u) = {e. get_entity g (ge_id e) = Some e \<and> ge_user_id e = u}
    \<and> (get_entity_by_name g u name = Some e \<longrightarrow>
         get_entity g (ge_id e) = Some e \<and> ge_user_id e = u \<and> str_lower (ge_name e) = str_lower name)
    \<and> (get_entity g eid \<noteq> None \<longrightarrow>
         (\<forall>r \<in> set (map snd (g_relationships (fst (delete_entity it eid g)))). gr_source_id r \<noteq> eid \<and> gr_target_id r \<noteq> eid))"
proof (intro conjI impI ballI)
  have inv: "graph_inv g" using graph_inv_run g by simp
  note ids = ids_okD [OF graph_invD(1) [OF inv]] ids_okD [OF graph_invD(2) [OF inv]]
  show "set (get_relationships it g eid direction relation_type) =
      {r. dict_get (g_relationships g) (gr_id r) = Some r \<and> touches direction eid r
          \<and> (relation_type = None \<or> relation_type = Some (gr_relation_type r))}"
    using mem_get_relationships [OF inv it] by blast
  show "set (get_entities_for_user it g u) = {e. get_entity g (ge_id e) = Some e \<and> ge_user_id e = u}"
    using ids(1) idx_exact_mem [OF graph_invD(3) [OF inv], of _ u]
    by (fastforce simp: get_entities_for_user_def set_map_filter_get it get_entity_def Bex_def)
  assume "get_entity_by_name g u name = Some e"
  then obtain eid where "name_lookup (g_by_name g) u (str_lower name) = Some eid" "dict_get (g_entities g) eid = Some e"
    by (auto simp: get_entity_by_name_def name_lookup_def split: option.splits)
  then show "get_entity g (ge_id e) = Some e" "ge_user_id e = u" "str_lower (ge_name e) = str_lower name"
    using graph_invD(6) [OF inv] ids(1) by (fastforce simp: names_sound_def get_entity_def)+
next
  fix r
  have inv: "graph_inv g" "graph_inv (fst (delete_entity it eid g))"
    using graph_inv_run g graph_inv_delete_entity by auto
  assume e: "get_entity g eid \<noteq> None" and r: "r \<in> set (map snd (g_relationships (fst (delete_entity it eid g))))"
  have "dict_ok (g_relationships (fst (delete_entity it eid g)))"
    using graph_invD(2) [OF inv(2)] by (simp add: ids_ok_def)
  then obtain rid where "dict_get (g_relationships (fst (delete_entity it eid g))) rid = Some r"
    using r by (auto intro: dict_in_get)
  with delete_entity_gone [OF inv(1) it] e show "gr_source_id r \<noteq> eid" "gr_target_id r \<noteq> eid"
    by (auto simp: get_entity_def)
qed

definition sample_entity :: "string \<Rightarrow> string \<Rightarrow> Entity" where
  "sample_entity i name =
     \<lparr>ge_id = i, ge_user_id = ''u'', ge_name = name, ge_entity_type = ''concept'', ge_description = None, ge_properties = [],
      ge_created_at = 0, ge_updated_at = 0, ge_metadata = []\<rparr>"

definition sample_rel :: "string \<Rightarrow> string \<Rightarrow> string \<Rightarrow> Relationship" where
  "sample_rel i a b =
     \<lparr>gr_id = i, gr_user_id = ''u'', gr_source_id = a, gr_target_id = b, gr_relation_type = ''knows'', gr_weight = 1,
      gr_properties = [], gr_created_at = 0, gr_metadata = []\<rparr>"

lemmas graph_eval = graph_run_def graph_init_def add_entity_def add_relationship_def sample_entity_def sample_rel_def
  idx_add_def set_add_def dict_get_default_def Let_def

lemma add_frame:
  "g_entities (add_entity e g) = dict_set (ge_id e) e (g_entities g)" "g_relationships (add_entity e g) = g_relationships g"
  "g_entities (add_relationship r g) = g_entities g" "g_relationships (add_relationship r g) = dict_set (gr_id r) r (g_relationships g)"
  by (auto simp: add_entity_def add_relationship_def remove_entity_from_indexes_def remove_relationship_from_indexes_def Let_def
      split: option.splits)

definition sample_graph :: "g_op list" where
  "sample_graph = [AddEntity (sample_entity ''a'' ''A''), AddEntity (sample_entity ''b'' ''B''), AddRelationship (sample_rel ''r'' ''a'' ''b'')]"

theorem graph_queries_exact_witness:
  "set (get_relationships rev (graph_run sample_graph) ''b'' INCOMING None) = {sample_rel ''r'' ''a'' ''b''}"
proof -
  have "dict_get (g_relationships (graph_run sample_graph)) x = (if x = ''r'' then Some (sample_rel ''r'' ''a'' ''b'') else None)" for x
    by (simp add: sample_graph_def graph_run_def add_frame graph_init_def sample_rel_def)
  then show ?thesis
    using graph_queries_exact [of rev "graph_run sample_graph" sample_graph "''b''" INCOMING None "''u''" "[]" "sample_entity [] []"]
    by (auto simp: touches_def sample_rel_def)
qed

text \<open>
  The name index is sound, not complete: it holds one id per name, and deleting the entity it points
  to does not bring back another entity of the same name.
\<close>

lemma shadowed_name_lost:
  fixes it :: set_order
  defines "g \<equiv> graph_run [AddEntity (sample_entity ''a'' ''Plan''), AddEntity (sample_entity ''b'' ''plan''), DeleteEntity it ''b'']"
  assumes "\<And>xs. set (it xs) = set xs"
  shows "get_entity g ''a'' = Some (sample_entity ''a'' ''Plan'') \<and> get_entity_by_name g ''u'' ''Plan'' = None"
proof -
  have "it [] = []" using assms(2) [of "[]"] by simp
  moreover have "str_lower ''Plan'' = ''plan''" "str_lower ''plan'' = ''plan''" by code_simp+
  ultimately show ?thesis
    by (simp add: g_def graph_eval delete_entity_def remove_all_relationships_def remove_entity_def set_update_def
        remove_entity_from_indexes_def name_discard_def idx_discard_def set_discard_def get_entity_def get_entity_by_name_def)
qed

end
