(* ===== verification/Graph_Traversal.thy ===== *)
theory Graph_Traversal
  imports Memory_Graph
begin

text \<open>
  Breadth-first traversal of the knowledge graph: \<open>query_subgraph\<close> and \<open>find_path\<close> of
  \<open>headroom/memory/adapters/graph.py\<close>. Both loops run over a queue; their termination is proved by
  the weight twice the nodes not yet visited plus the length of the queue. The correctness of both
  rests on one lemma about layers (\<open>layered\<close>): a set that contains the start and is closed under
  the successors of its nodes below depth \<open>n\<close> contains everything within \<open>n\<close> steps, at its distance.
\<close>

section \<open>Operations\<close>

definition neighbor :: "RelationshipDirection \<Rightarrow> string \<Rightarrow> Relationship \<Rightarrow> string option" where
  "neighbor direction current_id r =
     (case direction of
        OUTGOING \<Rightarrow> if gr_source_id r = current_id then Some (gr_target_id r) else None
      | INCOMING \<Rightarrow> if gr_target_id r = current_id then Some (gr_source_id r) else None
      | BOTH \<Rightarrow> if gr_source_id r = current_id then Some (gr_target_id r)
                else if gr_target_id r = current_id then Some (gr_source_id r) else None)"

definition type_ok :: "string list option \<Rightarrow> Relationship \<Rightarrow> bool" where
  "type_ok relation_types r = (case relation_types of None \<Rightarrow> True | Some ts \<Rightarrow> gr_relation_type r \<in> set ts)"

record bfs =
  b_queue :: "(string \<times> nat) list"
  b_visited :: "string list"
  b_entities :: "(string, Entity) pydict"
  b_relationships :: "(string, Relationship) pydict"

definition bfs_start :: "graph_store \<Rightarrow> string \<Rightarrow> bfs \<Rightarrow> bfs" where
  "bfs_start g eid s =
     (case dict_get (g_entities g) eid of
        None \<Rightarrow> s
      | Some e \<Rightarrow> s\<lparr>b_queue := b_queue s @ [(eid, 0)], b_visited := set_add eid (b_visited s),
                    b_entities := dict_set eid e (b_entities s)\<rparr>)"

definition visit_rel ::
  "graph_store \<Rightarrow> RelationshipDirection \<Rightarrow> string list option \<Rightarrow> string \<Rightarrow> nat \<Rightarrow> string \<Rightarrow> bfs \<Rightarrow> bfs" where
  "visit_rel g direction relation_types current_id depth rid s =
     (case dict_get (g_relationships g) rid of
        None \<Rightarrow> s
      | Some r \<Rightarrow>
          if \<not> type_ok relation_types r then s
          else
            let s1 = s\<lparr>b_relationships := dict_set rid r (b_relationships s)\<rparr>
            in case neighbor direction current_id r of
                 None \<Rightarrow> s1
               | Some n \<Rightarrow>
                   if n \<in> set (b_visited s1) then s1
                   else case dict_get (g_entities g) n of
                          None \<Rightarrow> s1
                        | Some e \<Rightarrow>
                            s1\<lparr>b_visited := set_add n (b_visited s1), b_entities := dict_set n e (b_entities s1),
                               b_queue := b_queue s1 @ [(n, depth + 1)]\<rparr>)"

definition expand ::
  "set_order \<Rightarrow> graph_store \<Rightarrow> RelationshipDirection \<Rightarrow> string list option \<Rightarrow> int \<Rightarrow> string \<Rightarrow> nat \<Rightarrow> bfs \<Rightarrow> bfs" where
  "expand it g direction relation_types max_hops current_id depth s =
     (if max_hops \<le> int depth then s
      else fold (visit_rel g direction relation_types current_id depth) (it (rel_ids g direction current_id)) s)"

definition unvisited :: "string list \<Rightarrow> string list \<Rightarrow> nat" where
  "unvisited universe visited = length (filter (\<lambda>k. k \<notin> set visited) universe)"

definition bfs_weight :: "graph_store \<Rightarrow> bfs \<Rightarrow> nat" where
  "bfs_weight g s = 2 * unvisited (map fst (g_entities g)) (b_visited s) + length (b_queue s)"

lemma unvisited_add:
  assumes "x \<in> set universe" "x \<notin> set visited"
  shows "Suc (unvisited universe (set_add x visited)) \<le> unvisited universe visited"
proof -
  have "filter (\<lambda>k. k \<notin> set (set_add x visited)) universe = filter (\<lambda>k. k \<noteq> x) (filter (\<lambda>k. k \<notin> set visited) universe)"
    by (auto intro: filter_cong)
  moreover have "length (filter (\<lambda>k. k \<noteq> x) (filter (\<lambda>k. k \<notin> set visited) universe)) < length (filter (\<lambda>k. k \<notin> set visited) universe)"
    using assms by (intro length_filter_less) auto
  ultimately show ?thesis by (simp add: unvisited_def)
qed

lemma visit_rel_weight: "bfs_weight g (visit_rel g direction types cur depth rid s) \<le> bfs_weight g s"
proof -
  have "2 * unvisited (map fst (g_entities g)) (set_add n (b_visited s)) + Suc (length (b_queue s))
      \<le> 2 * unvisited (map fst (g_entities g)) (b_visited s) + length (b_queue s)"
    if "dict_get (g_entities g) n = Some e" "n \<notin> set (b_visited s)" for n e
    using unvisited_add [of n "map fst (g_entities g)" "b_visited s"] that dict_get_Some_in [OF that(1)] by force
  then show ?thesis
    by (auto simp: visit_rel_def bfs_weight_def Let_def split: option.splits)
qed

lemma expand_weight: "bfs_weight g (expand it g direction types hops cur depth s) \<le> bfs_weight g s"
proof -
  have "bfs_weight g (fold (visit_rel g direction types cur depth) rids s) \<le> bfs_weight g s" for rids
    by (induction rids arbitrary: s) (auto intro: order_trans visit_rel_weight)
  then show ?thesis by (simp add: expand_def)
qed

function bfs_loop ::
  "set_order \<Rightarrow> graph_store \<Rightarrow> RelationshipDirection \<Rightarrow> string list option \<Rightarrow> int \<Rightarrow> bfs \<Rightarrow> bfs" where
  "bfs_loop it g direction relation_types max_hops s =
     (case b_queue s of
        [] \<Rightarrow> s
      | (current_id, depth) # q \<Rightarrow>
          bfs_loop it g direction relation_types max_hops
            (expand it g direction relation_types max_hops current_id depth (s\<lparr>b_queue := q\<rparr>)))"
  by auto

termination
proof (relation "measure (\<lambda>(it, g, direction, types, hops, s). bfs_weight g s)", goal_cases)
  case (2 it g direction types hops s p q cur depth)
  then have "bfs_weight g (s\<lparr>b_queue := q\<rparr>) < bfs_weight g s"
    by (simp add: bfs_weight_def)
  with expand_weight show ?case
    by (metis (no_types, lifting) case_prod_conv in_measure le_less_trans)
qed simp

declare bfs_loop.simps [simp del]

definition query_subgraph ::
  "set_order \<Rightarrow> graph_store \<Rightarrow> string list \<Rightarrow> int \<Rightarrow> RelationshipDirection \<Rightarrow> string list option \<Rightarrow> Subgraph" where
  "query_subgraph it g entity_ids max_hops direction relation_types =
     (let s0 = fold (bfs_start g) entity_ids \<lparr>b_queue = [], b_visited = [], b_entities = [], b_relationships = []\<rparr>;
          s = bfs_loop it g direction relation_types max_hops s0
      in \<lparr>sg_entities = map snd (b_entities s), sg_relationships = map snd (b_relationships s),
          sg_root_entity_ids = entity_ids\<rparr>)"

text \<open>The loop over the relationships of one node in \<open>find_path\<close>: \<open>Inl\<close> is the early return.\<close>

type_synonym fp_state = "(string \<times> string list) list \<times> string list"

fun fp_rels ::
  "graph_store \<Rightarrow> RelationshipDirection \<Rightarrow> string \<Rightarrow> int \<Rightarrow> string \<Rightarrow> string list \<Rightarrow> string list \<Rightarrow> fp_state \<Rightarrow> string list + fp_state" where
  "fp_rels g direction target_id max_depth current_id path [] s = Inr s"
| "fp_rels g direction target_id max_depth current_id path (rid # rids) (queue, visited) =
     (case dict_get (g_relationships g) rid of
        None \<Rightarrow> fp_rels g direction target_id max_depth current_id path rids (queue, visited)
      | Some r \<Rightarrow>
          (case neighbor direction current_id r of
             None \<Rightarrow> fp_rels g direction target_id max_depth current_id path rids (queue, visited)
           | Some n \<Rightarrow>
               if n \<in> set visited then fp_rels g direction target_id max_depth current_id path rids (queue, visited)
               else
                 let new_path = path @ [n]
                 in if n = target_id then Inl new_path
                    else if int (length new_path) \<le> max_depth
                    then fp_rels g direction target_id max_depth current_id path rids (queue @ [(n, new_path)], set_add n visited)
                    else fp_rels g direction target_id max_depth current_id path rids (queue, visited)))"

definition endpoints :: "graph_store \<Rightarrow> string list" where
  "endpoints g = concat (map (\<lambda>(i, r). [gr_source_id r, gr_target_id r]) (g_relationships g))"

definition fp_weight :: "graph_store \<Rightarrow> fp_state \<Rightarrow> nat" where
  "fp_weight g s = 2 * unvisited (endpoints g) (snd s) + length (fst s)"

lemma neighbor_endpoint:
  "dict_get (g_relationships g) rid = Some r \<Longrightarrow> neighbor direction cur r = Some n \<Longrightarrow> n \<in> set (endpoints g)"
  by (force simp: endpoints_def neighbor_def dest!: dict_get_Some_in split: RelationshipDirection.splits if_splits)

lemma fp_rels_weight: "fp_rels g direction t md cur path rids s = Inr s' \<Longrightarrow> fp_weight g s' \<le> fp_weight g s"
proof (induction rids arbitrary: s)
  case (Cons rid rids)
  obtain q vis where s: "s = (q, vis)" by fastforce
  have "fp_weight g (q @ [(n, p)], set_add n vis) \<le> fp_weight g (q, vis)"
    if "n \<in> set (endpoints g)" "n \<notin> set vis" for n p
    using unvisited_add [OF that] by (simp add: fp_weight_def)
  then have push: "fp_weight g s' \<le> fp_weight g (q, vis)"
    if "fp_weight g s' \<le> fp_weight g (q @ [(n, p)], set_add n vis)" "n \<in> set (endpoints g)" "n \<notin> set vis" for n p
    using that order_trans by blast
  from Cons.prems s show ?case
    by (auto simp: Let_def split: option.splits if_splits dest!: Cons.IH intro: push neighbor_endpoint)
qed simp

function fp_loop ::
  "set_order \<Rightarrow> graph_store \<Rightarrow> RelationshipDirection \<Rightarrow> string \<Rightarrow> int \<Rightarrow> fp_state \<Rightarrow> string list option" where
  "fp_loop it g direction target_id max_depth s =
     (case fst s of
        [] \<Rightarrow> None
      | (current_id, path) # q \<Rightarrow>
          if max_depth < int (length path) then fp_loop it g direction target_id max_depth (q, snd s)
          else
            case fp_rels g direction target_id max_depth current_id path (it (rel_ids g direction current_id)) (q, snd s) of
              Inl new_path \<Rightarrow> Some new_path
            | Inr s' \<Rightarrow> fp_loop it g direction target_id max_depth s')"
  by auto

termination
proof (relation "measure (\<lambda>(it, g, direction, t, md, s). fp_weight g s)", goal_cases)
  case (3 it g direction t md s p q cur path s')
  then show ?case
    using fp_rels_weight [of g direction t md cur path "it (rel_ids g direction cur)" "(q, snd s)" s']
    by (simp add: fp_weight_def)
qed (simp_all add: fp_weight_def)

declare fp_loop.simps [simp del]

definition find_path ::
  "set_order \<Rightarrow> graph_store \<Rightarrow> string \<Rightarrow> string \<Rightarrow> int \<Rightarrow> RelationshipDirection \<Rightarrow> string list option" where
  "find_path it g source_id target_id max_depth direction =
     (if source_id = target_id then (if get_entity g source_id \<noteq> None then Some [source_id] else None)
      else if get_entity g source_id = None \<or> get_entity g target_id = None then None
      else fp_loop it g direction target_id max_depth ([(source_id, [source_id])], [source_id]))"

section \<open>Layers\<close>

lemma layered:
  assumes start: "a \<in> V" "dep a = 0"
    and closed: "\<And>u w. u \<in> V \<Longrightarrow> dep u < D \<Longrightarrow> (u, w) \<in> A \<Longrightarrow> w \<in> V \<and> dep w \<le> Suc (dep u)"
  shows "(a, x) \<in> A ^^ n \<Longrightarrow> n \<le> D \<Longrightarrow> x \<in> V \<and> dep x \<le> n"
proof (induction n arbitrary: x)
  case (Suc n)
  then obtain y where "(a, y) \<in> A ^^ n" "(y, x) \<in> A" by auto
  with Suc closed [of y x] show ?case by fastforce
qed (use start in auto)

section \<open>Subgraphs\<close>

text \<open>One step of the traversal: a stored relationship of a wanted type to a stored entity.\<close>

definition adj :: "graph_store \<Rightarrow> RelationshipDirection \<Rightarrow> string list option \<Rightarrow> (string \<times> string) set" where
  "adj g direction types =
     {(a, b). \<exists>rid r. dict_get (g_relationships g) rid = Some r \<and> type_ok types r \<and> neighbor direction a r = Some b
                      \<and> dict_get (g_entities g) b \<noteq> None}"

lemma neighbor_touches: "neighbor direction a r = Some b \<Longrightarrow> touches direction a r"
  by (auto simp: neighbor_def touches_def split: RelationshipDirection.splits if_splits)

text \<open>What one relationship, and a list of them, adds to the state.\<close>

definition new_nodes :: "graph_store \<Rightarrow> RelationshipDirection \<Rightarrow> string list option \<Rightarrow> string \<Rightarrow> string set \<Rightarrow> string set" where
  "new_nodes g direction types cur rids =
     {n. \<exists>rid \<in> rids. \<exists>r. dict_get (g_relationships g) rid = Some r \<and> type_ok types r \<and> neighbor direction cur r = Some n
                        \<and> dict_get (g_entities g) n \<noteq> None}"

definition wanted_rels :: "graph_store \<Rightarrow> string list option \<Rightarrow> string set \<Rightarrow> string set" where
  "wanted_rels g types rids = {rid \<in> rids. \<exists>r. dict_get (g_relationships g) rid = Some r \<and> type_ok types r}"

definition adds :: "graph_store \<Rightarrow> nat \<Rightarrow> string set \<Rightarrow> string set \<Rightarrow> bfs \<Rightarrow> bfs \<Rightarrow> bool" where
  "adds g depth nodes rels s s' \<longleftrightarrow>
     (\<exists>new. set new = nodes - set (b_visited s) \<and> b_queue s' = b_queue s @ map (\<lambda>n. (n, Suc depth)) new
        \<and> set (b_visited s') = set (b_visited s) \<union> nodes
        \<and> (\<forall>k. dict_get (b_entities s') k = (if k \<in> set new then dict_get (g_entities g) k else dict_get (b_entities s) k))
        \<and> (\<forall>k. dict_get (b_relationships s') k = (if k \<in> rels then dict_get (g_relationships g) k else dict_get (b_relationships s) k)))"

lemma adds_refl: "adds g depth {} {} s s"
  by (simp add: adds_def)

lemma adds_trans:
  assumes "adds g depth N1 R1 s s1" "adds g depth N2 R2 s1 s2"
  shows "adds g depth (N1 \<union> N2) (R1 \<union> R2) s s2"
proof -
  obtain n1 where "set n1 = N1 - set (b_visited s)" "b_queue s1 = b_queue s @ map (\<lambda>n. (n, Suc depth)) n1"
    "set (b_visited s1) = set (b_visited s) \<union> N1"
    "\<forall>k. dict_get (b_entities s1) k = (if k \<in> set n1 then dict_get (g_entities g) k else dict_get (b_entities s) k)"
    "\<forall>k. dict_get (b_relationships s1) k = (if k \<in> R1 then dict_get (g_relationships g) k else dict_get (b_relationships s) k)"
    using assms(1) by (auto simp: adds_def)
  moreover obtain n2 where "set n2 = N2 - set (b_visited s1)" "b_queue s2 = b_queue s1 @ map (\<lambda>n. (n, Suc depth)) n2"
    "set (b_visited s2) = set (b_visited s1) \<union> N2"
    "\<forall>k. dict_get (b_entities s2) k = (if k \<in> set n2 then dict_get (g_entities g) k else dict_get (b_entities s1) k)"
    "\<forall>k. dict_get (b_relationships s2) k = (if k \<in> R2 then dict_get (g_relationships g) k else dict_get (b_relationships s1) k)"
    using assms(2) by (auto simp: adds_def)
  ultimately show ?thesis
    unfolding adds_def by (intro exI [of _ "n1 @ n2"]) auto
qed

lemma visit_rel_adds:
  "adds g depth (new_nodes g direction types cur {rid}) (wanted_rels g types {rid}) s (visit_rel g direction types cur depth rid s)"
proof (cases "\<exists>r. dict_get (g_relationships g) rid = Some r \<and> type_ok types r")
  case False
  then have "new_nodes g direction types cur {rid} = {}" "wanted_rels g types {rid} = {}" "visit_rel g direction types cur depth rid s = s"
    by (auto simp: new_nodes_def wanted_rels_def visit_rel_def split: option.splits)
  then show ?thesis by (simp add: adds_refl)
next
  case True
  then obtain r where r: "dict_get (g_relationships g) rid = Some r" "type_ok types r" by blast
  then have w: "wanted_rels g types {rid} = {rid}" by (auto simp: wanted_rels_def)
  show ?thesis
  proof (cases "\<exists>n e. neighbor direction cur r = Some n \<and> dict_get (g_entities g) n = Some e")
    case False
    with r have "new_nodes g direction types cur {rid} = {}"
      "visit_rel g direction types cur depth rid s = s\<lparr>b_relationships := dict_set rid r (b_relationships s)\<rparr>"
      by (auto simp: new_nodes_def visit_rel_def Let_def split: option.splits)
    with w r show ?thesis by (simp add: adds_def dict_simps)
  next
    case True
    then obtain n e where n: "neighbor direction cur r = Some n" "dict_get (g_entities g) n = Some e" by blast
    with r have "new_nodes g direction types cur {rid} = {n}"
      by (auto simp: new_nodes_def)
    with w r n show ?thesis
      unfolding adds_def
      by (intro exI [of _ "if n \<in> set (b_visited s) then [] else [n]"]) (auto simp: visit_rel_def Let_def dict_simps)
  qed
qed

lemma visit_rels_adds:
  "adds g depth (new_nodes g direction types cur (set rids)) (wanted_rels g types (set rids)) s
     (fold (visit_rel g direction types cur depth) rids s)"
proof (induction rids arbitrary: s)
  case Nil
  show ?case by (simp add: new_nodes_def wanted_rels_def adds_refl)
next
  case (Cons rid rids)
  have "new_nodes g direction types cur (set (rid # rids)) = new_nodes g direction types cur {rid} \<union> new_nodes g direction types cur (set rids)"
    "wanted_rels g types (set (rid # rids)) = wanted_rels g types {rid} \<union> wanted_rels g types (set rids)"
    by (auto simp: new_nodes_def wanted_rels_def)
  with adds_trans [OF visit_rel_adds Cons.IH] show ?case by simp
qed

lemma new_nodes_adj:
  assumes "graph_inv g" "\<And>xs. set (it xs) = set xs"
  shows "new_nodes g direction types cur (set (it (rel_ids g direction cur))) = {n. (cur, n) \<in> adj g direction types}"
  using neighbor_touches by (fastforce simp: new_nodes_def adj_def assms(2) Bex_def set_rel_ids [OF assms(1)])

lemma wanted_rels_touches:
  assumes "graph_inv g" "\<And>xs. set (it xs) = set xs"
  shows "wanted_rels g types (set (it (rel_ids g direction cur)))
    = {rid. \<exists>r. dict_get (g_relationships g) rid = Some r \<and> type_ok types r \<and> touches direction cur r}"
  by (auto simp: wanted_rels_def assms(2) set_rel_ids [OF assms(1)])

text \<open>
  The invariant of the traversal: \<open>P\<close> is the set of nodes taken from the queue, \<open>dep\<close> the depth at
  which a node was queued, \<open>R\<close> the stored roots and \<open>H\<close> the number of hops.
\<close>

definition bfs_inv ::
  "graph_store \<Rightarrow> RelationshipDirection \<Rightarrow> string list option \<Rightarrow> nat \<Rightarrow> string set \<Rightarrow> (string \<Rightarrow> nat) \<Rightarrow> string set \<Rightarrow> bfs \<Rightarrow> bool" where
  "bfs_inv g direction types H R dep P s \<longleftrightarrow>
     set (b_visited s) = P \<union> fst ` set (b_queue s)
     \<and> (\<forall>(u, d) \<in> set (b_queue s). dep u = d) \<and> sorted (map snd (b_queue s))
     \<and> (\<forall>u \<in> set (b_visited s). \<forall>(v, d) \<in> set (b_queue s). dep u \<le> Suc d)
     \<and> (\<forall>u \<in> set (b_visited s). dep u \<le> H \<and> (\<exists>a \<in> R. (a, u) \<in> adj g direction types ^^ dep u))
     \<and> (\<forall>a \<in> R. a \<in> set (b_visited s) \<and> dep a = 0)
     \<and> (\<forall>u \<in> P. dep u < H \<longrightarrow> (\<forall>w. (u, w) \<in> adj g direction types \<longrightarrow> w \<in> set (b_visited s) \<and> dep w \<le> Suc (dep u)))
     \<and> (\<forall>k. dict_get (b_entities s) k = (if k \<in> set (b_visited s) then dict_get (g_entities g) k else None))
     \<and> (\<forall>k. dict_get (b_relationships s) k =
          (if \<exists>r u. dict_get (g_relationships g) k = Some r \<and> type_ok types r \<and> u \<in> P \<and> dep u < H \<and> touches direction u r
           then dict_get (g_relationships g) k else None))"

lemma bfs_invD:
  assumes "bfs_inv g direction types H R dep P s"
  shows "set (b_visited s) = P \<union> fst ` set (b_queue s)"
    and "(u, d) \<in> set (b_queue s) \<Longrightarrow> dep u = d"
    and "sorted (map snd (b_queue s))"
    and "u \<in> set (b_visited s) \<Longrightarrow> (v, d) \<in> set (b_queue s) \<Longrightarrow> dep u \<le> Suc d"
    and "u \<in> set (b_visited s) \<Longrightarrow> dep u \<le> H \<and> (\<exists>a \<in> R. (a, u) \<in> adj g direction types ^^ dep u)"
    and "a \<in> R \<Longrightarrow> a \<in> set (b_visited s) \<and> dep a = 0"
    and "u \<in> P \<Longrightarrow> dep u < H \<Longrightarrow> (u, w) \<in> adj g direction types \<Longrightarrow> w \<in> set (b_visited s) \<and> dep w \<le> Suc (dep u)"
    and "dict_get (b_entities s) k = (if k \<in> set (b_visited s) then dict_get (g_entities g) k else None)"
    and "dict_get (b_relationships s) k =
          (if \<exists>r u. dict_get (g_relationships g) k = Some r \<and> type_ok types r \<and> u \<in> P \<and> dep u < H \<and> touches direction u r
           then dict_get (g_relationships g) k else None)"
proof -
  show "set (b_visited s) = P \<union> fst ` set (b_queue s)"
    using assms [unfolded bfs_inv_def, THEN conjunct1] by blast
  show "(u, d) \<in> set (b_queue s) \<Longrightarrow> dep u = d"
    using assms [unfolded bfs_inv_def, THEN conjunct2, THEN conjunct1] by auto
  show "sorted (map snd (b_queue s))"
    using assms [unfolded bfs_inv_def, THEN conjunct2, THEN conjunct2, THEN conjunct1] by blast
  show "u \<in> set (b_visited s) \<Longrightarrow> (v, d) \<in> set (b_queue s) \<Longrightarrow> dep u \<le> Suc d"
    using assms [unfolded bfs_inv_def, THEN conjunct2, THEN conjunct2, THEN conjunct2, THEN conjunct1] by auto
  show "u \<in> set (b_visited s) \<Longrightarrow> dep u \<le> H \<and> (\<exists>a \<in> R. (a, u) \<in> adj g direction types ^^ dep u)"
    using assms [unfolded bfs_inv_def, THEN conjunct2, THEN conjunct2, THEN conjunct2, THEN conjunct2, THEN conjunct1] by blast
  show "a \<in> R \<Longrightarrow> a \<in> set (b_visited s) \<and> dep a = 0"
    using assms [unfolded bfs_inv_def, THEN conjunct2, THEN conjunct2, THEN conjunct2, THEN conjunct2, THEN conjunct2, THEN conjunct1] by blast
  show "u \<in> P \<Longrightarrow> dep u < H \<Longrightarrow> (u, w) \<in> adj g direction types \<Longrightarrow> w \<in> set (b_visited s) \<and> dep w \<le> Suc (dep u)"
    using assms [unfolded bfs_inv_def, THEN conjunct2, THEN conjunct2, THEN conjunct2, THEN conjunct2, THEN conjunct2, THEN conjunct2, THEN conjunct1] by blast
  show "dict_get (b_entities s) k = (if k \<in> set (b_visited s) then dict_get (g_entities g) k else None)"
    using assms [unfolded bfs_inv_def, THEN conjunct2, THEN conjunct2, THEN conjunct2, THEN conjunct2, THEN conjunct2, THEN conjunct2, THEN conjunct2, THEN conjunct1] by (rule spec)
  show "dict_get (b_relationships s) k =
          (if \<exists>r u. dict_get (g_relationships g) k = Some r \<and> type_ok types r \<and> u \<in> P \<and> dep u < H \<and> touches direction u r
           then dict_get (g_relationships g) k else None)"
    using assms [unfolded bfs_inv_def, THEN conjunct2, THEN conjunct2, THEN conjunct2, THEN conjunct2, THEN conjunct2, THEN conjunct2, THEN conjunct2, THEN conjunct2] by (rule spec)
qed

lemma bfs_inv_pop:
  assumes inv: "bfs_inv g direction types H R dep P s" and q: "b_queue s = (cur, d) # q" and d: "H \<le> d"
  shows "bfs_inv g direction types H R dep (insert cur P) (s\<lparr>b_queue := q\<rparr>)"
proof -
  have cur: "cur \<in> set (b_visited s)" "dep cur = d" "dep cur = H"
    using inv q d by (auto simp: bfs_inv_def)
  have rel: "(\<exists>r u. dict_get (g_relationships g) k = Some r \<and> type_ok types r \<and> u \<in> insert cur P \<and> dep u < H \<and> touches direction u r)
      \<longleftrightarrow> (\<exists>r u. dict_get (g_relationships g) k = Some r \<and> type_ok types r \<and> u \<in> P \<and> dep u < H \<and> touches direction u r)" for k
    using cur(3) by auto
  show ?thesis
    using inv q cur unfolding bfs_inv_def rel by auto
qed

lemma if_either: "x' = (if A then y else x) \<Longrightarrow> x = (if B then y else z) \<Longrightarrow> x' = (if A \<or> B then y else z)"
  by simp

lemma bfs_inv_expand:
  assumes inv: "bfs_inv g direction types H R dep P s" and q: "b_queue s = (cur, d) # q" and d: "d < H"
    and new: "set new = {n. (cur, n) \<in> adj g direction types} - set (b_visited s)"
    and s': "b_queue s' = q @ map (\<lambda>n. (n, Suc d)) new" "set (b_visited s') = set (b_visited s) \<union> {n. (cur, n) \<in> adj g direction types}"
      "\<forall>k. dict_get (b_entities s') k = (if k \<in> set new then dict_get (g_entities g) k else dict_get (b_entities s) k)"
      "\<forall>k. dict_get (b_relationships s') k =
         (if \<exists>r. dict_get (g_relationships g) k = Some r \<and> type_ok types r \<and> touches direction cur r
          then dict_get (g_relationships g) k else dict_get (b_relationships s) k)"
  shows "bfs_inv g direction types H R (\<lambda>n. if n \<in> set new then Suc d else dep n) (insert cur P) s'"
proof -
  let ?A = "adj g direction types" and ?dep = "\<lambda>n. if n \<in> set new then Suc d else dep n"
  note i = bfs_invD [OF inv]
  have vis: "set (b_visited s) = P \<union> {cur} \<union> fst ` set q"
    using i(1) q by auto
  have cur: "cur \<in> set (b_visited s)" "dep cur = d"
    using vis i(2) [of cur d] q by auto
  have le: "u \<in> set (b_visited s) \<Longrightarrow> dep u \<le> Suc d" for u
    using i(4) [of u cur d] q by simp
  have srt: "sorted (map snd q)" "v \<in> set q \<Longrightarrow> d \<le> snd v" for v
    using i(3) q by auto
  have dq: "dep u = d' \<and> d \<le> d' \<and> d' \<le> Suc d" if "(u, d') \<in> set q" for u d'
    using that i(2) [of u d'] srt(2) [OF that] le [of u] vis q by force
  have vis': "set (b_visited s') = set (b_visited s) \<union> set new"
    using s'(2) new by auto
  have old: "u \<in> set (b_visited s) \<Longrightarrow> ?dep u = dep u" for u
    using new by auto
  have inq: "(u, d') \<in> set (b_queue s') \<longleftrightarrow> (u, d') \<in> set q \<or> u \<in> set new \<and> d' = Suc d" for u d'
    using s'(1) by auto
  have c1: "set (b_visited s') = insert cur P \<union> fst ` set (b_queue s')"
    using vis vis' s'(1) by (auto simp: image_image image_Un)
  have c2: "\<forall>(u, d') \<in> set (b_queue s'). ?dep u = d'"
  proof (clarsimp simp: inq)
    fix u d' assume "(u, d') \<in> set q \<or> u \<in> set new \<and> d' = Suc d"
    moreover have "(u, d') \<in> set q \<Longrightarrow> u \<in> set (b_visited s)" using vis by force
    ultimately show "(u \<in> set new \<longrightarrow> Suc d = d') \<and> (u \<notin> set new \<longrightarrow> dep u = d')"
      using dq new by auto
  qed
  have c3: "sorted (map snd (b_queue s'))"
    using srt(1) dq s'(1) by (auto simp: sorted_append comp_def map_replicate_const)
  have "?dep u \<le> Suc d'" if "u \<in> set (b_visited s')" "(v, d') \<in> set (b_queue s')" for u v d'
    using that dq [of v d'] le [of u] by (auto simp: inq vis')
  then have c4: "\<forall>u \<in> set (b_visited s'). \<forall>(v, d') \<in> set (b_queue s'). ?dep u \<le> Suc d'"
    by blast
  have c5: "?dep u \<le> H \<and> (\<exists>a \<in> R. (a, u) \<in> ?A ^^ ?dep u)" if "u \<in> set (b_visited s')" for u
  proof (cases "u \<in> set new")
    case True
    obtain a where "a \<in> R" "(a, cur) \<in> ?A ^^ d" using i(5) [OF cur(1)] cur(2) by blast
    with True new d show ?thesis by auto
  next
    case False
    with that vis' i(5) [of u] show ?thesis by auto
  qed
  have c6: "\<forall>a \<in> R. a \<in> set (b_visited s') \<and> ?dep a = 0"
    using i(6) vis' new by auto
  have c7: "w \<in> set (b_visited s') \<and> ?dep w \<le> Suc (?dep u)" if "u \<in> insert cur P" "?dep u < H" "(u, w) \<in> ?A" for u w
  proof (cases "u = cur")
    case True
    with that cur old [of cur] s'(2) le [of w] new show ?thesis by auto
  next
    case False
    with that have u: "u \<in> P" "u \<in> set (b_visited s)" using vis by auto
    with that i(7) [of u w] old [of u] have "w \<in> set (b_visited s)" "dep w \<le> Suc (dep u)" by auto
    with old [of u] old [of w] u vis' show ?thesis by auto
  qed
  have c8: "\<forall>k. dict_get (b_entities s') k = (if k \<in> set (b_visited s') then dict_get (g_entities g) k else None)"
    using i(8) s'(3) vis' by auto
  have c9: "(\<exists>r u. dict_get (g_relationships g) k = Some r \<and> type_ok types r \<and> u \<in> insert cur P \<and> ?dep u < H \<and> touches direction u r)
      \<longleftrightarrow> (\<exists>r. dict_get (g_relationships g) k = Some r \<and> type_ok types r \<and> touches direction cur r)
        \<or> (\<exists>r u. dict_get (g_relationships g) k = Some r \<and> type_ok types r \<and> u \<in> P \<and> dep u < H \<and> touches direction u r)" for k
  proof -
    have dP: "u \<in> insert cur P \<Longrightarrow> ?dep u = dep u" for u
      using old vis by blast
    have "(\<exists>r u. dict_get (g_relationships g) k = Some r \<and> type_ok types r \<and> u \<in> insert cur P \<and> ?dep u < H \<and> touches direction u r)
        \<longleftrightarrow> (\<exists>r u. dict_get (g_relationships g) k = Some r \<and> type_ok types r \<and> u \<in> insert cur P \<and> dep u < H \<and> touches direction u r)"
      by (intro iff_exI conj_cong refl) (simp only: dP)
    then show ?thesis using cur d by blast
  qed
  have c10: "\<forall>k. dict_get (b_relationships s') k =
      (if \<exists>r u. dict_get (g_relationships g) k = Some r \<and> type_ok types r \<and> u \<in> insert cur P \<and> ?dep u < H \<and> touches direction u r
       then dict_get (g_relationships g) k else None)"
    unfolding c9 using if_either [OF spec [OF s'(4)] i(9)] by blast
  show ?thesis
    unfolding bfs_inv_def by (intro conjI c1 c2 c3 c4 c6 c8 c10) (use c5 c7 in blast)+
qed

lemma expand_adds:
  assumes "graph_inv g" "\<And>xs. set (it xs) = set xs" "\<not> hops \<le> int d"
    and s': "s' = expand it g direction types hops cur d (s\<lparr>b_queue := q\<rparr>)"
  shows "\<exists>new. set new = {n. (cur, n) \<in> adj g direction types} - set (b_visited s)
    \<and> b_queue s' = q @ map (\<lambda>n. (n, Suc d)) new
    \<and> set (b_visited s') = set (b_visited s) \<union> {n. (cur, n) \<in> adj g direction types}
    \<and> (\<forall>k. dict_get (b_entities s') k = (if k \<in> set new then dict_get (g_entities g) k else dict_get (b_entities s) k))
    \<and> (\<forall>k. dict_get (b_relationships s') k =
         (if \<exists>r. dict_get (g_relationships g) k = Some r \<and> type_ok types r \<and> touches direction cur r
          then dict_get (g_relationships g) k else dict_get (b_relationships s) k))"
proof -
  have "s' = fold (visit_rel g direction types cur d) (it (rel_ids g direction cur)) (s\<lparr>b_queue := q\<rparr>)"
    using assms(3) by (simp add: s' expand_def)
  then have "adds g d {n. (cur, n) \<in> adj g direction types}
      {rid. \<exists>r. dict_get (g_relationships g) rid = Some r \<and> type_ok types r \<and> touches direction cur r} (s\<lparr>b_queue := q\<rparr>) s'"
    using visit_rels_adds [of g d direction types cur "it (rel_ids g direction cur)" "s\<lparr>b_queue := q\<rparr>"]
    unfolding new_nodes_adj [OF assms(1,2)] wanted_rels_touches [OF assms(1,2)] by simp
  then show ?thesis by (simp add: adds_def cong: if_cong)
qed

lemma bfs_loop_inv:
  assumes "graph_inv g" "\<And>xs. set (it xs) = set xs"
  shows "bfs_inv g direction types (nat hops) R dep P s \<Longrightarrow>
    \<exists>dep' P'. bfs_inv g direction types (nat hops) R dep' P' (bfs_loop it g direction types hops s)
      \<and> b_queue (bfs_loop it g direction types hops s) = []"
  using assms
proof (induction it g direction types hops s arbitrary: dep P rule: bfs_loop.induct)
  case (1 it g direction types hops s)
  show ?case
  proof (cases "b_queue s")
    case Nil
    with 1 show ?thesis by (subst (1 2) bfs_loop.simps) auto
  next
    case (Cons x q)
    obtain cur d where x: "x = (cur, d)" by fastforce
    let ?s = "expand it g direction types hops cur d (s\<lparr>b_queue := q\<rparr>)"
    have "\<exists>dep'. bfs_inv g direction types (nat hops) R dep' (insert cur P) ?s"
    proof (cases "hops \<le> int d")
      case True
      then have "nat hops \<le> d" by (simp add: nat_le_iff)
      with True bfs_inv_pop [OF "1.prems"(1), of cur d q] Cons x show ?thesis by (auto simp: expand_def)
    next
      case False
      then have d: "d < nat hops" by simp
      obtain new where "set new = {n. (cur, n) \<in> adj g direction types} - set (b_visited s)"
        "b_queue ?s = q @ map (\<lambda>n. (n, Suc d)) new" "set (b_visited ?s) = set (b_visited s) \<union> {n. (cur, n) \<in> adj g direction types}"
        "\<forall>k. dict_get (b_entities ?s) k = (if k \<in> set new then dict_get (g_entities g) k else dict_get (b_entities s) k)"
        "\<forall>k. dict_get (b_relationships ?s) k =
           (if \<exists>r. dict_get (g_relationships g) k = Some r \<and> type_ok types r \<and> touches direction cur r
            then dict_get (g_relationships g) k else dict_get (b_relationships s) k)"
        using expand_adds [OF "1.prems"(2,3) False refl, of cur direction types s q] by (elim exE conjE) (rule that; assumption)
      from bfs_inv_expand [OF "1.prems"(1) Cons [unfolded x] d this] show ?thesis by blast
    qed
    then obtain dep' where "bfs_inv g direction types (nat hops) R dep' (insert cur P) ?s" by blast
    from "1.IH" [OF Cons x [symmetric] this "1.prems"(2,3)] Cons x show ?thesis
      by (subst (1 2) bfs_loop.simps) auto
  qed
qed

definition stored_ids :: "graph_store \<Rightarrow> string list \<Rightarrow> string set" where
  "stored_ids g ids = {i \<in> set ids. get_entity g i \<noteq> None}"

lemma bfs_start_facts:
  "set (b_visited (fold (bfs_start g) ids s)) = set (b_visited s) \<union> stored_ids g ids"
  "b_queue (fold (bfs_start g) ids s) = b_queue s @ map (\<lambda>i. (i, 0)) (filter (\<lambda>i. get_entity g i \<noteq> None) ids)"
  "dict_get (b_entities (fold (bfs_start g) ids s)) k
     = (if k \<in> stored_ids g ids then dict_get (g_entities g) k else dict_get (b_entities s) k)"
  "b_relationships (fold (bfs_start g) ids s) = b_relationships s"
  "dict_ok (b_entities s) \<Longrightarrow> dict_ok (b_entities (fold (bfs_start g) ids s))"
  by (induction ids arbitrary: s)
    (auto simp: bfs_start_def stored_ids_def get_entity_def dict_simps split: option.splits)

lemma bfs_inv_start:
  "bfs_inv g direction types H (stored_ids g ids) (\<lambda>_. 0) {}
     (fold (bfs_start g) ids \<lparr>b_queue = [], b_visited = [], b_entities = [], b_relationships = []\<rparr>)"
  unfolding bfs_inv_def bfs_start_facts
  by (auto simp: stored_ids_def sorted_wrt_map sorted_wrt_iff_nth_less image_image)

definition bfs_dicts_ok :: "bfs \<Rightarrow> bool" where
  "bfs_dicts_ok s \<longleftrightarrow> dict_ok (b_entities s) \<and> dict_ok (b_relationships s)"

lemma expand_dicts_ok: "bfs_dicts_ok s \<Longrightarrow> bfs_dicts_ok (expand it g direction types hops cur d s)"
proof -
  have "bfs_dicts_ok s \<Longrightarrow> bfs_dicts_ok (visit_rel g direction types cur d rid s)" for rid s
    by (auto simp: visit_rel_def bfs_dicts_ok_def Let_def split: option.splits)
  then have "bfs_dicts_ok s \<Longrightarrow> bfs_dicts_ok (fold (visit_rel g direction types cur d) rids s)" for rids
    by (induction rids arbitrary: s) auto
  then show "bfs_dicts_ok s \<Longrightarrow> ?thesis" by (simp add: expand_def)
qed

lemma bfs_loop_dicts_ok: "bfs_dicts_ok s \<Longrightarrow> bfs_dicts_ok (bfs_loop it g direction types hops s)"
proof (induction it g direction types hops s rule: bfs_loop.induct)
  case (1 it g direction types hops s)
  have "bfs_dicts_ok (s\<lparr>b_queue := q\<rparr>)" for q using 1 by (simp add: bfs_dicts_ok_def)
  with 1 expand_dicts_ok show ?case
    by (subst bfs_loop.simps) (auto split: list.splits)
qed

text \<open>The reference: \<open>x\<close> is \<open>k\<close> steps away from a stored root.\<close>

definition reach :: "graph_store \<Rightarrow> RelationshipDirection \<Rightarrow> string list option \<Rightarrow> string list \<Rightarrow> nat \<Rightarrow> string \<Rightarrow> bool" where
  "reach g direction types roots k x \<longleftrightarrow> (\<exists>a \<in> set roots. get_entity g a \<noteq> None \<and> (a, x) \<in> adj g direction types ^^ k)"

lemma bfs_inv_done:
  assumes inv: "bfs_inv g direction types H (stored_ids g roots) dep P s" and q: "b_queue s = []"
  shows "x \<in> set (b_visited s) \<longleftrightarrow> (\<exists>k \<le> H. reach g direction types roots k x)"
    and "x \<in> P \<and> dep x < H \<longleftrightarrow> (\<exists>k < H. reach g direction types roots k x)"
proof -
  note i = bfs_invD [OF inv]
  have P: "set (b_visited s) = P" using i(1) q by simp
  have to: "x \<in> P \<and> dep x \<le> k" if r: "reach g direction types roots k x" and k: "k \<le> H" for k x
  proof -
    obtain a where a: "a \<in> stored_ids g roots" "(a, x) \<in> adj g direction types ^^ k"
      using r by (auto simp: reach_def stored_ids_def)
    show ?thesis
      by (rule layered [where a = a and D = H, OF _ _ _ a(2) k]) (use i(6) [OF a(1)] i(7) P in auto)
  qed
  have back_: "reach g direction types roots (dep x) x \<and> dep x \<le> H" if "x \<in> P" for x
    using i(5) [of x] that P by (auto simp: reach_def stored_ids_def)
  show "x \<in> set (b_visited s) \<longleftrightarrow> (\<exists>k \<le> H. reach g direction types roots k x)"
    using to back_ P by blast
  show "x \<in> P \<and> dep x < H \<longleftrightarrow> (\<exists>k < H. reach g direction types roots k x)"
    using to back_ by (metis le_less_trans less_imp_le)
qed

lemma set_map_snd: "dict_ok d \<Longrightarrow> v \<in> set (map snd d) \<longleftrightarrow> (\<exists>k. dict_get d k = Some v)"
  by force

lemma distinct_ids:
  assumes "dict_ok d" "\<And>k v. dict_get d k = Some v \<Longrightarrow> idf v = k"
  shows "distinct (map idf (map snd d))"
proof -
  have "map idf (map snd d) = map fst d"
    using assms by (auto intro!: map_cong simp: dict_in_get)
  then show ?thesis using assms(1) by (simp only:)
qed

lemma query_subgraph_facts:
  assumes inv: "graph_inv g" and it: "\<And>xs. set (it xs) = set xs"
    and sg: "sg = query_subgraph it g roots hops direction types"
  shows "e \<in> set (sg_entities sg) \<longleftrightarrow>
      get_entity g (ge_id e) = Some e \<and> (\<exists>k \<le> nat hops. reach g direction types roots k (ge_id e))"
    and "distinct (map ge_id (sg_entities sg))"
    and "r \<in> set (sg_relationships sg) \<longleftrightarrow>
      dict_get (g_relationships g) (gr_id r) = Some r \<and> type_ok types r
      \<and> (\<exists>u. touches direction u r \<and> (\<exists>k < nat hops. reach g direction types roots k u))"
    and "distinct (map gr_id (sg_relationships sg))"
proof -
  let ?init = "fold (bfs_start g) roots \<lparr>b_queue = [], b_visited = [], b_entities = [], b_relationships = []\<rparr>"
  let ?s = "bfs_loop it g direction types hops ?init"
  obtain dep P where b: "bfs_inv g direction types (nat hops) (stored_ids g roots) dep P ?s" "b_queue ?s = []"
    using bfs_loop_inv [OF inv it bfs_inv_start] by blast
  have ok: "dict_ok (b_entities ?s)" "dict_ok (b_relationships ?s)"
    using bfs_loop_dicts_ok [of ?init] by (simp_all add: bfs_dicts_ok_def bfs_start_facts)
  note i = bfs_invD [OF b(1)] and ids = ids_okD [OF graph_invD(1) [OF inv]] ids_okD [OF graph_invD(2) [OF inv]]
  have ents: "dict_get (b_entities ?s) k = Some e \<longleftrightarrow>
      get_entity g k = Some e \<and> (\<exists>n \<le> nat hops. reach g direction types roots n k)" for k e
    using i(8) [of k] bfs_inv_done(1) [OF b, of k] by (auto simp: get_entity_def)
  have near: "(\<exists>u. touches direction u r \<and> (\<exists>k < nat hops. reach g direction types roots k u))
      \<longleftrightarrow> (\<exists>u. u \<in> P \<and> dep u < nat hops \<and> touches direction u r)" for r
    using bfs_inv_done(2) [OF b] by blast
  have rels: "dict_get (b_relationships ?s) k = Some r \<longleftrightarrow>
      dict_get (g_relationships g) k = Some r \<and> type_ok types r
      \<and> (\<exists>u. touches direction u r \<and> (\<exists>k < nat hops. reach g direction types roots k u))" for k r
    unfolding near using i(9) [of k] by auto
  show "e \<in> set (sg_entities sg) \<longleftrightarrow>
      get_entity g (ge_id e) = Some e \<and> (\<exists>k \<le> nat hops. reach g direction types roots k (ge_id e))"
    using set_map_snd [OF ok(1)] ents ids(1) by (auto simp: sg query_subgraph_def Let_def get_entity_def)
  show "r \<in> set (sg_relationships sg) \<longleftrightarrow>
      dict_get (g_relationships g) (gr_id r) = Some r \<and> type_ok types r
      \<and> (\<exists>u. touches direction u r \<and> (\<exists>k < nat hops. reach g direction types roots k u))"
    using set_map_snd [OF ok(2)] rels ids(2) by (auto simp: sg query_subgraph_def Let_def)
  show "distinct (map ge_id (sg_entities sg))" "distinct (map gr_id (sg_relationships sg))"
    using distinct_ids [OF ok(1), of ge_id] distinct_ids [OF ok(2), of gr_id] ents rels ids
    by (simp_all add: sg query_subgraph_def Let_def get_entity_def)
qed

section \<open>Shortest paths\<close>

text \<open>A step of \<open>find_path\<close>: any stored relationship; the node it leads to need not be stored.\<close>

definition edge :: "graph_store \<Rightarrow> RelationshipDirection \<Rightarrow> (string \<times> string) set" where
  "edge g direction = {(a, b). \<exists>rid r. dict_get (g_relationships g) rid = Some r \<and> neighbor direction a r = Some b}"

definition path_of :: "(string \<times> string) set \<Rightarrow> string \<Rightarrow> string \<Rightarrow> string list \<Rightarrow> bool" where
  "path_of A a b p \<longleftrightarrow> p \<noteq> [] \<and> hd p = a \<and> last p = b \<and> successively (\<lambda>x y. (x, y) \<in> A) p"

lemma path_of_snoc: "path_of A a b p \<Longrightarrow> (b, c) \<in> A \<Longrightarrow> path_of A a c (p @ [c])"
  by (auto simp: path_of_def successively_append_iff)

lemma path_of_relpow: "path_of A a b p \<Longrightarrow> (a, b) \<in> A ^^ (length p - 1)"
proof (induction p arbitrary: b rule: rev_induct)
  case (snoc x p)
  show ?case
  proof (cases "p = []")
    case False
    with snoc.prems have "path_of A a (last p) p" "(last p, b) \<in> A" "x = b"
      by (auto simp: path_of_def successively_append_iff)
    with snoc.IH False show ?thesis by (cases p) auto
  qed (use snoc.prems in \<open>auto simp: path_of_def\<close>)
qed (simp add: path_of_def)

definition fp_nodes :: "graph_store \<Rightarrow> RelationshipDirection \<Rightarrow> string \<Rightarrow> string set \<Rightarrow> string set" where
  "fp_nodes g direction cur rids = {n. \<exists>rid \<in> rids. \<exists>r. dict_get (g_relationships g) rid = Some r \<and> neighbor direction cur r = Some n}"

lemma fp_nodes_edge:
  assumes "graph_inv g" "\<And>xs. set (it xs) = set xs"
  shows "fp_nodes g direction cur (set (it (rel_ids g direction cur))) = {n. (cur, n) \<in> edge g direction}"
  using neighbor_touches by (fastforce simp: fp_nodes_def edge_def assms(2) Bex_def set_rel_ids [OF assms(1)])

text \<open>The loop over one node's relationships: the target is returned, or the new nodes are queued.\<close>

lemma fp_rels_Inl:
  "fp_rels g direction t md cur path rids s = Inl p \<Longrightarrow> p = path @ [t] \<and> t \<in> fp_nodes g direction cur (set rids)"
proof (induction rids arbitrary: s)
  case (Cons rid rids)
  obtain q vis where s: "s = (q, vis)" by fastforce
  have mono: "t \<in> fp_nodes g direction cur (set rids) \<Longrightarrow> t \<in> fp_nodes g direction cur (set (rid # rids))"
    by (auto simp: fp_nodes_def)
  from Cons.prems s show ?case
    by (auto simp: Let_def split: option.splits if_splits dest!: Cons.IH intro: mono) (auto simp: fp_nodes_def)
qed simp

lemma fp_rels_Inr:
  "fp_rels g direction t md cur path rids (q, vis) = Inr (q', vis') \<Longrightarrow> t \<notin> set vis \<Longrightarrow>
     t \<notin> fp_nodes g direction cur (set rids)
     \<and> (\<exists>new. set new = (if int (length path) < md then fp_nodes g direction cur (set rids) - set vis else {})
          \<and> q' = q @ map (\<lambda>n. (n, path @ [n])) new \<and> set vis' = set vis \<union> set new)"
proof (induction rids arbitrary: q vis)
  case Nil
  then show ?case by (simp add: fp_nodes_def)
next
  case (Cons rid rids)
  show ?case
  proof (cases "\<exists>r n. dict_get (g_relationships g) rid = Some r \<and> neighbor direction cur r = Some n")
    case False
    then have nodes: "fp_nodes g direction cur (set (rid # rids)) = fp_nodes g direction cur (set rids)"
      by (auto simp: fp_nodes_def)
    from False Cons.prems(1) have "fp_rels g direction t md cur path rids (q, vis) = Inr (q', vis')"
      by (auto split: option.splits)
    from Cons.IH [OF this Cons.prems(2)] show ?thesis unfolding nodes .
  next
    case True
    then obtain r n where r: "dict_get (g_relationships g) rid = Some r" "neighbor direction cur r = Some n" by blast
    then have nodes: "fp_nodes g direction cur (set (rid # rids)) = insert n (fp_nodes g direction cur (set rids))"
      by (auto simp: fp_nodes_def)
    consider "n \<in> set vis" | "n \<notin> set vis" "n \<noteq> t" "int (length path) < md" | "n \<notin> set vis" "n \<noteq> t" "\<not> int (length path) < md"
      using Cons.prems r by (auto simp: Let_def split: if_splits)
    then show ?thesis
    proof cases
      case 1
      with Cons r nodes show ?thesis by (auto split: if_splits)
    next
      case 2
      with Cons.prems(1) r have rest: "fp_rels g direction t md cur path rids (q @ [(n, path @ [n])], set_add n vis) = Inr (q', vis')"
        by simp
      have "t \<notin> set (set_add n vis)" using Cons.prems(2) 2 by simp
      from Cons.IH [OF rest this] 2 obtain new where t: "t \<notin> fp_nodes g direction cur (set rids)"
        and new: "set new = fp_nodes g direction cur (set rids) - insert n (set vis)"
          "q' = (q @ [(n, path @ [n])]) @ map (\<lambda>n. (n, path @ [n])) new" "set vis' = insert n (set vis) \<union> set new"
        by (simp only: set_set_add if_True) blast
      have "set (n # new) = fp_nodes g direction cur (set (rid # rids)) - set vis"
        using nodes new(1) 2 by auto
      moreover have "q' = q @ map (\<lambda>n. (n, path @ [n])) (n # new)" "set vis' = set vis \<union> set (n # new)"
        using new(2,3) by simp_all
      ultimately show ?thesis using nodes t 2 by (simp only: if_True) blast
    next
      case 3
      with Cons r nodes show ?thesis by auto
    qed
  qed
qed

definition fp_inv ::
  "graph_store \<Rightarrow> RelationshipDirection \<Rightarrow> string \<Rightarrow> string \<Rightarrow> int \<Rightarrow> (string \<Rightarrow> nat) \<Rightarrow> string set \<Rightarrow> (string \<times> string list) list \<Rightarrow> string set \<Rightarrow> bool" where
  "fp_inv g direction src t md dep P q V \<longleftrightarrow>
     (V = P \<union> fst ` set q \<and> src \<in> V \<and> dep src = 0 \<and> t \<notin> V)
     \<and> (\<forall>u p. (u, p) \<in> set q \<longrightarrow> length p = Suc (dep u) \<and> path_of (edge g direction) src u p)
     \<and> sorted (map (length \<circ> snd) q)
     \<and> (\<forall>u v p. u \<in> V \<longrightarrow> (v, p) \<in> set q \<longrightarrow> dep u \<le> length p)
     \<and> (\<forall>u w. u \<in> P \<longrightarrow> int (dep u) < md \<longrightarrow> (u, w) \<in> edge g direction \<longrightarrow>
          w \<noteq> t \<and> (int (dep u) + 1 < md \<longrightarrow> w \<in> V \<and> dep w \<le> Suc (dep u)))"

lemma fp_invD:
  assumes "fp_inv g direction src t md dep P q V"
  shows "V = P \<union> fst ` set q" "src \<in> V" "dep src = 0" "t \<notin> V"
    and "(u, p) \<in> set q \<Longrightarrow> length p = Suc (dep u) \<and> path_of (edge g direction) src u p"
    and "sorted (map (length \<circ> snd) q)"
    and "u \<in> V \<Longrightarrow> (v, p) \<in> set q \<Longrightarrow> dep u \<le> length p"
    and "u \<in> P \<Longrightarrow> int (dep u) < md \<Longrightarrow> (u, w) \<in> edge g direction \<Longrightarrow> w \<noteq> t"
    and "u \<in> P \<Longrightarrow> int (dep u) + 1 < md \<Longrightarrow> (u, w) \<in> edge g direction \<Longrightarrow> w \<in> V \<and> dep w \<le> Suc (dep u)"
proof -
  note c = assms [unfolded fp_inv_def]
  show "V = P \<union> fst ` set q" "src \<in> V" "dep src = 0" "t \<notin> V"
    using c [THEN conjunct1] by auto
  show "(u, p) \<in> set q \<Longrightarrow> length p = Suc (dep u) \<and> path_of (edge g direction) src u p"
    using c [THEN conjunct2, THEN conjunct1] by blast
  show "sorted (map (length \<circ> snd) q)"
    using c [THEN conjunct2, THEN conjunct2, THEN conjunct1] .
  show "u \<in> V \<Longrightarrow> (v, p) \<in> set q \<Longrightarrow> dep u \<le> length p"
    using c [THEN conjunct2, THEN conjunct2, THEN conjunct2, THEN conjunct1] by blast
  note l = c [THEN conjunct2, THEN conjunct2, THEN conjunct2, THEN conjunct2]
  show "u \<in> P \<Longrightarrow> int (dep u) < md \<Longrightarrow> (u, w) \<in> edge g direction \<Longrightarrow> w \<noteq> t"
    using l by blast
  show "u \<in> P \<Longrightarrow> int (dep u) + 1 < md \<Longrightarrow> (u, w) \<in> edge g direction \<Longrightarrow> w \<in> V \<and> dep w \<le> Suc (dep u)"
    using l by (metis add_lessD1 of_nat_1 of_nat_add of_nat_less_iff zless_add1_eq less_trans)
qed

lemma fp_unreached:
  assumes inv: "fp_inv g direction src t md dep P q V" and n: "(src, t) \<in> edge g direction ^^ n" "int n \<le> md"
    and seen: "\<And>u. u \<in> V \<Longrightarrow> dep u < n \<Longrightarrow> u \<in> P"
  shows False
proof -
  note i = fp_invD [OF inv]
  obtain m where m: "n = Suc m" using n(1) i(2,4) by (cases n) auto
  then obtain y where y: "(src, y) \<in> edge g direction ^^ m" "(y, t) \<in> edge g direction" using n(1) by auto
  have "y \<in> V \<and> dep y \<le> m"
  proof (rule layered [where D = m and dep = dep and V = V and A = "edge g direction" and n = m, OF i(2) i(3) _ y(1)])
    fix u w assume "u \<in> V" "dep u < m" "(u, w) \<in> edge g direction"
    with seen [of u] m n(2) i(9) [of u w] show "w \<in> V \<and> dep w \<le> Suc (dep u)" by auto
  qed simp
  with seen [of y] m n(2) i(8) [of y t] y(2) show False by auto
qed

lemma fp_inv_pop:
  assumes inv: "fp_inv g direction src t md dep P ((cur, p) # q) V" and md: "md \<le> int (dep cur)"
  shows "fp_inv g direction src t md dep (insert cur P) q V"
proof -
  note i = fp_invD [OF inv]
  have c: "V = insert cur P \<union> fst ` set q" "sorted (map (length \<circ> snd) q)"
    using i(1,6) by auto
  have "w \<noteq> t \<and> (int (dep u) + 1 < md \<longrightarrow> w \<in> V \<and> dep w \<le> Suc (dep u))"
    if "u \<in> insert cur P" "int (dep u) < md" "(u, w) \<in> edge g direction" for u w
    using that md i(8) [of u w] i(9) [of u w] by auto
  moreover have "length p' = Suc (dep u) \<and> path_of (edge g direction) src u p'" if "(u, p') \<in> set q" for u p'
    using that by (intro i(5)) simp
  moreover have "dep u \<le> length p'" if "u \<in> V" "(v, p') \<in> set q" for u v p'
    using that by (intro i(7) [of u v]) simp_all
  ultimately show ?thesis
    unfolding fp_inv_def by (intro conjI c i(2,3,4)) blast+
qed

lemma fp_inv_expand:
  assumes inv: "fp_inv g direction src t md dep P ((cur, p) # q) V" and md: "int (dep cur) < md"
    and t: "(cur, t) \<notin> edge g direction"
    and new: "set new = (if int (length p) < md then {n. (cur, n) \<in> edge g direction} - V else {})"
  shows "fp_inv g direction src t md (\<lambda>n. if n \<in> set new then Suc (dep cur) else dep n) (insert cur P)
    (q @ map (\<lambda>n. (n, p @ [n])) new) (V \<union> set new)"
proof -
  let ?dep = "\<lambda>n. if n \<in> set new then Suc (dep cur) else dep n" and ?q = "q @ map (\<lambda>n. (n, p @ [n])) new"
  note i = fp_invD [OF inv]
  have p: "length p = Suc (dep cur)" "path_of (edge g direction) src cur p" using i(5) [of cur p] by auto
  have cur: "cur \<in> V" using i(1) by auto
  have old: "u \<in> V \<Longrightarrow> ?dep u = dep u" for u using new by (auto split: if_splits)
  have e: "n \<in> set new \<Longrightarrow> (cur, n) \<in> edge g direction" for n using new by (auto split: if_splits)
  have le: "u \<in> V \<Longrightarrow> dep u \<le> length p" for u using i(7) [of u cur p] by simp
  have ge: "(v, p') \<in> set q \<Longrightarrow> length p \<le> length p'" for v p' using i(6) by auto
  have inq: "(u, p') \<in> set ?q \<longleftrightarrow> (u, p') \<in> set q \<or> u \<in> set new \<and> p' = p @ [u]" for u p' by auto
  have qV: "(u, p') \<in> set q \<Longrightarrow> u \<in> V" for u p' using i(1) by force
  have c1: "V \<union> set new = insert cur P \<union> fst ` set ?q" "src \<in> V \<union> set new" "?dep src = 0" "t \<notin> V \<union> set new"
    using i(1-4) old [OF i(2)] e t by (auto simp: image_Un image_image)
  have c2: "length p' = Suc (?dep u) \<and> path_of (edge g direction) src u p'" if "(u, p') \<in> set ?q" for u p'
  proof (cases "(u, p') \<in> set q")
    case True
    with i(5) [of u p'] old [OF qV [OF True]] show ?thesis by simp
  next
    case False
    with that have "u \<in> set new" "p' = p @ [u]" using inq by blast+
    with p e path_of_snoc show ?thesis by simp
  qed
  have len: "length p' \<le> Suc (length p)" if "(v, p') \<in> set q" for v p'
    using i(5) [of v p'] that le [OF qV [OF that]] by simp
  then have c3: "sorted (map (length \<circ> snd) ?q)"
    using i(6) by (auto simp: sorted_append comp_def map_replicate_const)
  have c4: "?dep u \<le> length p'" if "u \<in> V \<union> set new" "(v, p') \<in> set ?q" for u v p'
    using that le [of u] ge [of v p'] p(1) by (auto simp: inq)
  have c5: "w \<noteq> t \<and> (int (?dep u) + 1 < md \<longrightarrow> w \<in> V \<union> set new \<and> ?dep w \<le> Suc (?dep u))"
    if u: "u \<in> insert cur P" "int (?dep u) < md" and w: "(u, w) \<in> edge g direction" for u w
  proof (cases "u = cur")
    case True
    with t w old [OF cur] p(1) le [of w] new show ?thesis by (auto split: if_splits)
  next
    case False
    with u i(1) have P: "u \<in> P" "u \<in> V" by auto
    with u w old [OF P(2)] i(8) [of u w] i(9) [of u w] old [of w] show ?thesis by auto
  qed
  show ?thesis
    unfolding fp_inv_def by (intro conjI c1 c3) (use c2 c4 c5 in blast)+
qed

text \<open>What a result means: a shortest path within the bound, or that there is none within it.\<close>

definition fp_result :: "graph_store \<Rightarrow> RelationshipDirection \<Rightarrow> string \<Rightarrow> string \<Rightarrow> int \<Rightarrow> string list option \<Rightarrow> bool" where
  "fp_result g direction src t md r =
     (case r of
        Some p \<Rightarrow> path_of (edge g direction) src t p \<and> int (length p - 1) \<le> md
                  \<and> (\<forall>n. (src, t) \<in> edge g direction ^^ n \<longrightarrow> length p - 1 \<le> n)
      | None \<Rightarrow> (\<forall>n. int n \<le> md \<longrightarrow> (src, t) \<notin> edge g direction ^^ n))"

lemma fp_found:
  assumes inv: "fp_inv g direction src t md dep P ((cur, p) # q) V" and md: "int (dep cur) < md"
    and t: "(cur, t) \<in> edge g direction"
  shows "fp_result g direction src t md (Some (p @ [t]))"
proof -
  note i = fp_invD [OF inv]
  have p: "length p = Suc (dep cur)" "path_of (edge g direction) src cur p" using i(5) [of cur p] by auto
  have "Suc (dep cur) \<le> n" if n: "(src, t) \<in> edge g direction ^^ n" for n
  proof (rule ccontr)
    assume "\<not> Suc (dep cur) \<le> n"
    moreover have "dep cur \<le> dep u" if "(u, p') \<in> set ((cur, p) # q)" for u p'
      using that i(5) [of u p'] i(6) p(1) by auto
    ultimately have "u \<in> V \<Longrightarrow> dep u < n \<Longrightarrow> u \<in> P" for u
      using i(1) by fastforce
    with fp_unreached [OF inv n] \<open>\<not> Suc (dep cur) \<le> n\<close> md show False by force
  qed
  with p md path_of_snoc [OF p(2) t] show ?thesis by (simp add: fp_result_def)
qed

lemma fp_loop_correct:
  assumes "graph_inv g" "\<And>xs. set (it xs) = set xs"
  shows "fp_inv g direction src t md dep P (fst s) (set (snd s)) \<Longrightarrow>
    fp_result g direction src t md (fp_loop it g direction t md s)"
  using assms
proof (induction it g direction t md s arbitrary: dep P rule: fp_loop.induct)
  case (1 it g direction t md s)
  note inv = "1.prems"(1)
  show ?case
  proof (cases "fst s")
    case Nil
    have "(src, t) \<notin> edge g direction ^^ n" if "int n \<le> md" for n
      using fp_unreached [OF inv _ that] fp_invD(1) [OF inv] Nil by auto
    with Nil show ?thesis by (simp add: fp_loop.simps fp_result_def)
  next
    case (Cons x q)
    obtain cur p where x: "x = (cur, p)" by fastforce
    note inv' = inv [unfolded Cons x]
    have len: "length p = Suc (dep cur)" using fp_invD(5) [OF inv', of cur p] by simp
    show ?thesis
    proof (cases "md < int (length p)")
      case True
      with len have "md \<le> int (dep cur)" by simp
      from fp_inv_pop [OF inv' this] "1.IH"(1) [OF Cons x [symmetric] True _ "1.prems"(2,3)] True Cons x
      show ?thesis by (subst fp_loop.simps) simp
    next
      case False
      with len have md: "int (dep cur) < md" by simp
      let ?rids = "it (rel_ids g direction cur)"
      note nodes = fp_nodes_edge [OF "1.prems"(2,3), of direction cur]
      show ?thesis
      proof (cases "fp_rels g direction t md cur p ?rids (q, snd s)")
        case (Inl p')
        with fp_rels_Inl [OF Inl] nodes have "p' = p @ [t]" "(cur, t) \<in> edge g direction" by auto
        with fp_found [OF inv' md] Inl False Cons x show ?thesis by (subst fp_loop.simps) simp
      next
        case (Inr s')
        obtain q' vis' where s': "s' = (q', vis')" by fastforce
        from fp_rels_Inr [OF Inr [unfolded s'] fp_invD(4) [OF inv], unfolded nodes mem_Collect_eq] obtain new where
          t: "(cur, t) \<notin> edge g direction" and
          new: "set new = (if int (length p) < md then {n. (cur, n) \<in> edge g direction} - set (snd s) else {})"
          "q' = q @ map (\<lambda>n. (n, p @ [n])) new" "set vis' = set (snd s) \<union> set new" by blast
        from fp_inv_expand [OF inv' md t new(1)] new(2,3) s'
        have "fp_inv g direction src t md (\<lambda>n. if n \<in> set new then Suc (dep cur) else dep n) (insert cur P) (fst s') (set (snd s'))"
          by simp
        from "1.IH"(2) [OF Cons x [symmetric] False Inr this "1.prems"(2,3)] Inr False Cons x
        show ?thesis by (subst fp_loop.simps) simp
      qed
    qed
  qed
qed

section \<open>Properties\<close>

text \<open>C38: the breadth-first query computes its specification: for every store a sequence of operations builds and
  every order of set iteration, the entities returned are exactly the stored ones that some path of
  at most \<open>max_hops\<close> relationships of the wanted types and direction connects to a stored root, and
  the relationships returned are exactly the wanted ones that touch an entity fewer than \<open>max_hops\<close>
  steps away; nothing is returned twice.\<close>
theorem query_subgraph_exact:
  assumes it: "\<And>xs. set (it xs) = set xs" and g: "g = graph_run ops"
    and sg: "sg = query_subgraph it g roots max_hops direction types"
  shows "set (sg_entities sg) =
      {e. get_entity g (ge_id e) = Some e \<and> (\<exists>k \<le> nat max_hops. reach g direction types roots k (ge_id e))}
    \<and> set (sg_relationships sg) =
      {r. dict_get (g_relationships g) (gr_id r) = Some r \<and> type_ok types r
          \<and> (\<exists>u. touches direction u r \<and> (\<exists>k < nat max_hops. reach g direction types roots k u))}
    \<and> distinct (map ge_id (sg_entities sg)) \<and> distinct (map gr_id (sg_relationships sg))"
proof -
  have inv: "graph_inv g" using graph_inv_run g by simp
  note f = query_subgraph_facts [OF inv it sg]
  show ?thesis using f by blast
qed

text \<open>\<open>find_path\<close> is correct and complete between two different stored entities: a path it returns runs from the
  source to the target along stored relationships in the given direction, has at most \<open>max_depth\<close>
  steps, and no connection is shorter; when it returns nothing, there is no connection of at most
  \<open>max_depth\<close> steps.\<close>
theorem find_path_shortest:
  assumes it: "\<And>xs. set (it xs) = set xs" and g: "g = graph_run ops"
    and ends: "get_entity g src \<noteq> None" "get_entity g t \<noteq> None" "src \<noteq> t"
  shows "case find_path it g src t max_depth direction of
      Some p \<Rightarrow> path_of (edge g direction) src t p \<and> int (length p - 1) \<le> max_depth
                \<and> (\<forall>n. (src, t) \<in> edge g direction ^^ n \<longrightarrow> length p - 1 \<le> n)
    | None \<Rightarrow> (\<forall>n. int n \<le> max_depth \<longrightarrow> (src, t) \<notin> edge g direction ^^ n)"
proof -
  have inv: "graph_inv g" using graph_inv_run g by simp
  have "fp_inv g direction src t max_depth (\<lambda>_. 0) {} [(src, [src])] {src}"
    using ends by (simp add: fp_inv_def path_of_def)
  with fp_loop_correct [OF inv it, of direction src t max_depth "\<lambda>_. 0" "{}" "([(src, [src])], [src])"] ends
  show ?thesis by (auto simp: find_path_def fp_result_def)
qed

definition chain_graph :: "g_op list" where
  "chain_graph = [AddEntity (sample_entity ''a'' ''A''), AddEntity (sample_entity ''b'' ''B''),
     AddRelationship (sample_rel ''r1'' ''a'' ''x''), AddRelationship (sample_rel ''r2'' ''x'' ''b'')]"

lemma chain_graph_facts:
  "get_entity (graph_run chain_graph) k =
     (if k = ''a'' then Some (sample_entity ''a'' ''A'') else if k = ''b'' then Some (sample_entity ''b'' ''B'') else None)"
  "dict_get (g_relationships (graph_run chain_graph)) k =
     (if k = ''r1'' then Some (sample_rel ''r1'' ''a'' ''x'') else if k = ''r2'' then Some (sample_rel ''r2'' ''x'' ''b'') else None)"
  by (simp_all add: chain_graph_def graph_run_def add_frame graph_init_def get_entity_def sample_entity_def sample_rel_def)

lemma chain_edges: "edge (graph_run chain_graph) OUTGOING = {(''a'', ''x''), (''x'', ''b'')}"
proof -
  have d: "dict_get (g_relationships (graph_run chain_graph)) k = Some r \<longleftrightarrow>
      k = ''r1'' \<and> r = sample_rel ''r1'' ''a'' ''x'' \<or> k = ''r2'' \<and> r = sample_rel ''r2'' ''x'' ''b''" for k r
    unfolding chain_graph_facts by auto
  have n: "neighbor OUTGOING a (sample_rel i b c) = Some d \<longleftrightarrow> a = b \<and> d = c" for a i b c d
    by (auto simp: neighbor_def sample_rel_def)
  have "(a, b) \<in> edge (graph_run chain_graph) OUTGOING \<longleftrightarrow>
      neighbor OUTGOING a (sample_rel ''r1'' ''a'' ''x'') = Some b \<or> neighbor OUTGOING a (sample_rel ''r2'' ''x'' ''b'') = Some b" for a b
    unfolding edge_def mem_Collect_eq prod.case d by metis
  then have "(a, b) \<in> edge (graph_run chain_graph) OUTGOING \<longleftrightarrow> (a, b) = (''a'', ''x'') \<or> (a, b) = (''x'', ''b'')" for a b
    unfolding n by (simp only: prod.inject)
  then show ?thesis by (intro set_eqI) (simp only: insert_iff empty_iff split_paired_all simp_thms)
qed

theorem query_subgraph_exact_witness:
  "set (sg_entities (query_subgraph rev (graph_run chain_graph) [''a''] 0 BOTH None)) =
     {e. get_entity (graph_run chain_graph) (ge_id e) = Some e
         \<and> (\<exists>k \<le> nat 0. reach (graph_run chain_graph) BOTH None [''a''] k (ge_id e))}"
  using query_subgraph_exact [of rev _ chain_graph _ "[''a'']" 0 BOTH None, OF _ refl refl] by simp

text \<open>
  \<open>find_path\<close> passes through ids that are no entities, here \<open>x\<close>: relationships may be added before
  or without their entities. \<open>query_subgraph\<close> stops there.
\<close>

theorem find_path_shortest_witness:
  "\<exists>p. find_path rev (graph_run chain_graph) ''a'' ''b'' 2 OUTGOING = Some p
     \<and> path_of (edge (graph_run chain_graph) OUTGOING) ''a'' ''b'' p \<and> int (length p - 1) \<le> 2"
proof -
  have "(''a'', ''b'') \<in> edge (graph_run chain_graph) OUTGOING ^^ 2"
    unfolding chain_edges by (auto simp: numeral_2_eq_2 relcomp_unfold)
  with find_path_shortest [OF _ refl, of rev chain_graph "''a''" "''b''" 2 OUTGOING] show ?thesis
    by (cases "find_path rev (graph_run chain_graph) ''a'' ''b'' 2 OUTGOING") (force simp: chain_graph_facts)+
qed

lemma path_through_missing_entity:
  "path_of (edge (graph_run chain_graph) OUTGOING) ''a'' ''b'' p \<Longrightarrow> ''x'' \<in> set p \<and> get_entity (graph_run chain_graph) ''x'' = None"
proof -
  assume p: "path_of (edge (graph_run chain_graph) OUTGOING) ''a'' ''b'' p"
  then obtain y q where "p = ''a'' # y # q" "(''a'', y) \<in> edge (graph_run chain_graph) OUTGOING"
    by (cases p; cases "tl p") (auto simp: path_of_def)
  then show ?thesis by (auto simp: chain_edges chain_graph_facts)
qed

end
