(* ===== verification/Read_Lifecycle.thy ===== *)
theory Read_Lifecycle
  imports CCR_Tool_Injection CCR_Store
begin

text \<open>
  The read lifecycle, \<open>headroom/transforms/read_lifecycle.py\<close>: file reads of a conversation that a
  later edit made stale, or a later read superseded, are replaced by markers; their text goes to the
  compression store. Messages are decoded JSON objects. Tool-call identifiers, tool names and paths
  are JSON values, compared structurally (the coincidences \<open>1 == True == 1.0\<close> of Python keys are not
  modelled), and an unhashable one raises where the code hashes it. Offsets and limits are added
  and compared as numbers or as strings; two lists in their place are not modelled.
  \<open>loads\<close> is \<open>json.loads\<close>, \<open>rp\<close> the \<open>repr\<close> of floats, \<open>sha\<close> the hexadecimal SHA-256 and \<open>clk n\<close> the two
  clock readings of the store call of the \<open>n\<close>-th replacement. The dash of the marker texts, U+2014,
  is outside the range of \<open>char\<close>; \<open>EM_DASH\<close> stands for it, and its third byte is counted. When an
  exception leaves \<open>apply\<close> its result is the exception; what was stored before stays in the store
  and is not part of the model. Log output is not modelled.
\<close>

section \<open>Configuration and data\<close>

definition READ_TOOL_NAMES :: "string list" where
  "READ_TOOL_NAMES = [''Read'', ''read'']"

definition MUTATING_TOOL_NAMES :: "string list" where
  "MUTATING_TOOL_NAMES = [''Edit'', ''edit'', ''Write'', ''write'']"

record ReadLifecycleConfig =
  lc_enabled :: bool
  lc_compress_stale :: bool
  lc_compress_superseded :: bool
  lc_min_size_bytes :: int

definition default_lifecycle_config :: ReadLifecycleConfig where
  "default_lifecycle_config =
     \<lparr>lc_enabled = True, lc_compress_stale = True, lc_compress_superseded = False, lc_min_size_bytes = 512\<rparr>"

datatype ReadState = FRESH | STALE | SUPERSEDED

fun state_value :: "ReadState \<Rightarrow> string" where
  "state_value FRESH = ''fresh''"
| "state_value STALE = ''stale''"
| "state_value SUPERSEDED = ''superseded''"

record FileOperation =
  fo_msg_index :: nat
  fo_tool_call_id :: json
  fo_tool_name :: json
  fo_file_path :: json
  fo_operation :: string
  fo_content_size :: int
  fo_read_offset :: json
  fo_read_limit :: json

record ReadClassification =
  rc_msg_index :: nat
  rc_tool_call_id :: json
  rc_file_path :: json
  rc_state :: ReadState
  rc_content_size :: int

record ReadLifecycleResult =
  lr_messages :: "message list"
  lr_reads_total :: nat
  lr_reads_stale :: nat
  lr_reads_superseded :: nat
  lr_reads_fresh :: nat
  lr_bytes_before :: nat
  lr_bytes_after :: nat
  lr_transforms_applied :: "string list"
  lr_ccr_hashes :: "string list"

definition untouched_result :: "message list \<Rightarrow> ReadLifecycleResult" where
  "untouched_result messages =
     \<lparr>lr_messages = messages, lr_reads_total = 0, lr_reads_stale = 0, lr_reads_superseded = 0, lr_reads_fresh = 0,
      lr_bytes_before = 0, lr_bytes_after = 0, lr_transforms_applied = [], lr_ccr_hashes = []\<rparr>"

definition format_read_lifecycle_transform :: "(json \<Rightarrow> string) \<Rightarrow> ReadClassification \<Rightarrow> string" where
  "format_read_lifecycle_transform rp c =
     ''read_lifecycle:'' @ state_value (rc_state c) @ '':'' @ py_str rp (py_or (rc_file_path c) (JStr []))"

section \<open>Tool metadata\<close>

definition tool_calls_of :: "message \<Rightarrow> py_error + json list" where
  "tool_calls_of msg = (let v = dict_get_default msg ''tool_calls'' JNull in if truthy v then py_iter v else Inr [])"

definition is_assistant :: "message \<Rightarrow> bool" where
  "is_assistant msg = (dict_get_default msg ''role'' JNull = JStr ''assistant'')"

text \<open>Name, path, offset and limit of a tool call.\<close>

type_synonym tool_meta = "json \<times> json \<times> json \<times> json"

definition path_offset_limit :: "(string, json) pydict \<Rightarrow> json \<times> json \<times> json" where
  "path_offset_limit args =
     (py_or (dict_get_default args ''file_path'' JNull) (dict_get_default args ''path'' JNull),
      dict_get_default args ''offset'' JNull, dict_get_default args ''limit'' JNull)"

definition call_arguments :: "json_loads \<Rightarrow> json \<Rightarrow> py_error + json \<times> json \<times> json" where
  "call_arguments loads arguments =
     (case arguments of
        JStr s \<Rightarrow>
          (case loads s of
             Inl JSONDecodeError \<Rightarrow> Inr (JNull, JNull, JNull)
           | Inl (LoadsError e) \<Rightarrow> if e = TypeError then Inr (JNull, JNull, JNull) else Inl e
           | Inr (JDict args) \<Rightarrow> Inr (path_offset_limit args)
           | Inr _ \<Rightarrow> Inl AttributeError)
      | _ \<Rightarrow> Inr (JNull, JNull, JNull))"

definition set_meta :: "json \<Rightarrow> tool_meta \<Rightarrow> (json, tool_meta) pydict \<Rightarrow> py_error + (json, tool_meta) pydict" where
  "set_meta tc_id m metadata = (if hashable tc_id then Inr (dict_set tc_id m metadata) else Inl TypeError)"

definition openai_call :: "json_loads \<Rightarrow> json \<Rightarrow> (json, tool_meta) pydict \<Rightarrow> py_error + (json, tool_meta) pydict" where
  "openai_call loads tc metadata =
     (case tc of
        JDict d \<Rightarrow>
          let tc_id = dict_get_default d ''id'' (JStr []); func = dict_get_default d ''function'' (JDict [])
          in and_then (json_get func ''name'' (JStr [])) (\<lambda>name.
               if \<not> truthy tc_id \<or> \<not> truthy name then Inr metadata
               else and_then (json_get func ''arguments'' (JStr ''{}'')) (\<lambda>arguments.
                 and_then (call_arguments loads arguments) (\<lambda>pol. set_meta tc_id (name, pol) metadata)))
      | _ \<Rightarrow> Inr metadata)"

definition anthropic_call :: "json \<Rightarrow> (json, tool_meta) pydict \<Rightarrow> py_error + (json, tool_meta) pydict" where
  "anthropic_call block metadata =
     (case block of
        JDict d \<Rightarrow>
          if jget d ''type'' \<noteq> Some (JStr ''tool_use'') then Inr metadata
          else
            let tc_id = dict_get_default d ''id'' (JStr []); name = dict_get_default d ''name'' (JStr [])
            in if \<not> truthy tc_id \<or> \<not> truthy name then Inr metadata
               else set_meta tc_id
                 (name, case dict_get_default d ''input'' (JDict []) of
                          JDict inp \<Rightarrow> path_offset_limit inp
                        | _ \<Rightarrow> (JNull, JNull, JNull)) metadata
      | _ \<Rightarrow> Inr metadata)"

definition message_calls :: "json_loads \<Rightarrow> message \<Rightarrow> (json, tool_meta) pydict \<Rightarrow> py_error + (json, tool_meta) pydict" where
  "message_calls loads msg metadata =
     (if \<not> is_assistant msg then Inr metadata
      else and_then (tool_calls_of msg) (\<lambda>tcs.
        and_then (fold_err (openai_call loads) tcs metadata) (\<lambda>metadata.
          case dict_get_default msg ''content'' (JList []) of
            JList content \<Rightarrow> fold_err anthropic_call content metadata
          | _ \<Rightarrow> Inr metadata)))"

definition build_tool_metadata :: "json_loads \<Rightarrow> message list \<Rightarrow> py_error + (json, tool_meta) pydict" where
  "build_tool_metadata loads messages = fold_err (message_calls loads) messages []"

section \<open>File operations\<close>

definition has_id :: "json \<Rightarrow> json \<Rightarrow> bool" where
  "has_id tool_call_id tc = (case tc of JDict d \<Rightarrow> dict_get_default d ''id'' JNull = tool_call_id | _ \<Rightarrow> False)"

definition calls_id :: "json \<Rightarrow> message \<Rightarrow> py_error + bool" where
  "calls_id tool_call_id msg =
     (if \<not> is_assistant msg then Inr False
      else and_then (tool_calls_of msg) (\<lambda>tcs.
        Inr (list_ex (has_id tool_call_id) tcs \<or>
          (case dict_get_default msg ''content'' (JList []) of
             JList content \<Rightarrow> list_ex (\<lambda>block. has_type ''tool_use'' block \<and> has_id tool_call_id block) content
           | _ \<Rightarrow> False))))"

fun find_from :: "json \<Rightarrow> nat \<Rightarrow> message list \<Rightarrow> py_error + nat option" where
  "find_from tool_call_id i [] = Inr None"
| "find_from tool_call_id i (msg # messages) =
     and_then (calls_id tool_call_id msg) (\<lambda>found.
       if found then Inr (Some i) else find_from tool_call_id (i + 1) messages)"

definition find_tool_call_msg_index :: "message list \<Rightarrow> json \<Rightarrow> py_error + nat option" where
  "find_tool_call_msg_index messages tool_call_id = find_from tool_call_id 0 messages"

definition operation_of :: "json \<Rightarrow> py_error + string option" where
  "operation_of name =
     (if \<not> hashable name then Inl TypeError
      else Inr (case name of
                  JStr n \<Rightarrow> if n \<in> set READ_TOOL_NAMES then Some ''read''
                            else if n \<in> set MUTATING_TOOL_NAMES then Some ''edit'' else None
                | _ \<Rightarrow> None))"

definition index_call ::
  "message list \<Rightarrow> json \<times> tool_meta \<Rightarrow> (json, FileOperation list) pydict \<Rightarrow> py_error + (json, FileOperation list) pydict" where
  "index_call messages call file_ops =
     (case call of (tc_id, name, file_path, offset, limit) \<Rightarrow>
        if \<not> truthy file_path then Inr file_ops
        else and_then (operation_of name) (\<lambda>op.
          case op of
            None \<Rightarrow> Inr file_ops
          | Some operation \<Rightarrow>
              and_then (find_tool_call_msg_index messages tc_id) (\<lambda>idx.
                case idx of
                  None \<Rightarrow> Inr file_ops
                | Some msg_idx \<Rightarrow>
                    if \<not> hashable file_path then Inl TypeError
                    else Inr (dict_set file_path (dict_get_default file_ops file_path [] @
                      [\<lparr>fo_msg_index = msg_idx, fo_tool_call_id = tc_id, fo_tool_name = name, fo_file_path = file_path,
                        fo_operation = operation, fo_content_size = 0,
                        fo_read_offset = (if operation = ''read'' then offset else JNull),
                        fo_read_limit = (if operation = ''read'' then limit else JNull)\<rparr>]) file_ops))))"

definition build_file_operation_index ::
  "message list \<Rightarrow> (json, tool_meta) pydict \<Rightarrow> py_error + (json, FileOperation list) pydict" where
  "build_file_operation_index messages tool_metadata = fold_err (index_call messages) tool_metadata []"

section \<open>Classification\<close>

text \<open>\<open>x + y\<close> and \<open>x <= y\<close> on numbers and strings.\<close>

definition py_add :: "json \<Rightarrow> json \<Rightarrow> py_error + json" where
  "py_add x y =
     (case (x, y) of
        (JStr a, JStr b) \<Rightarrow> Inr (JStr (a @ b))
      | _ \<Rightarrow> (case (int_of_json x, int_of_json y) of
                (Some a, Some b) \<Rightarrow> Inr (JInt (a + b))
              | _ \<Rightarrow> (case (num_of_json x, num_of_json y) of
                        (Some a, Some b) \<Rightarrow> Inr (JFloat (a + b))
                      | _ \<Rightarrow> Inl TypeError)))"

fun str_le :: "string \<Rightarrow> string \<Rightarrow> bool" where
  "str_le [] t = True"
| "str_le (a # s) [] = False"
| "str_le (a # s) (b # t) = (code_point a < code_point b \<or> a = b \<and> str_le s t)"

definition py_le :: "json \<Rightarrow> json \<Rightarrow> py_error + bool" where
  "py_le x y =
     (case (x, y) of
        (JStr a, JStr b) \<Rightarrow> Inr (str_le a b)
      | _ \<Rightarrow> (case (num_of_json x, num_of_json y) of
                (Some a, Some b) \<Rightarrow> Inr (a \<le> b)
              | _ \<Rightarrow> Inl TypeError))"

definition read_covers :: "FileOperation \<Rightarrow> FileOperation \<Rightarrow> py_error + bool" where
  "read_covers later earlier =
     (if fo_read_offset later = JNull \<and> fo_read_limit later = JNull then Inr True
      else if fo_read_offset earlier = JNull \<and> fo_read_limit earlier = JNull then Inr False
      else
        let later_start = py_or (fo_read_offset later) (JInt 0)
        in and_then (py_add later_start (py_or (fo_read_limit later) (JInt 2000))) (\<lambda>later_end.
          let earlier_start = py_or (fo_read_offset earlier) (JInt 0)
          in and_then (py_add earlier_start (py_or (fo_read_limit earlier) (JInt 2000))) (\<lambda>earlier_end.
            and_then (py_le later_start earlier_start) (\<lambda>starts.
              if starts then py_le earlier_end later_end else Inr False))))"

primrec any_err :: "('a \<Rightarrow> py_error + bool) \<Rightarrow> 'a list \<Rightarrow> py_error + bool" where
  "any_err p [] = Inr False"
| "any_err p (x # xs) = and_then (p x) (\<lambda>b. if b then Inr True else any_err p xs)"

definition classify_read ::
  "ReadLifecycleConfig \<Rightarrow> json \<Rightarrow> FileOperation list \<Rightarrow> FileOperation list \<Rightarrow> FileOperation
     \<Rightarrow> ReadClassification list \<Rightarrow> py_error + ReadClassification list" where
  "classify_read cfg file_path reads edits this_read classifications =
     (let is_stale = (lc_compress_stale cfg \<and> list_ex (\<lambda>e. fo_msg_index this_read < fo_msg_index e) edits)
      in and_then
           (if lc_compress_superseded cfg
            then any_err (\<lambda>r. if fo_msg_index this_read < fo_msg_index r then read_covers r this_read else Inr False) reads
            else Inr False) (\<lambda>is_superseded.
         Inr (classifications @
           [\<lparr>rc_msg_index = fo_msg_index this_read, rc_tool_call_id = fo_tool_call_id this_read, rc_file_path = file_path,
             rc_state = (if is_stale then STALE else if is_superseded then SUPERSEDED else FRESH),
             rc_content_size = fo_content_size this_read\<rparr>])))"

definition classify_file ::
  "ReadLifecycleConfig \<Rightarrow> json \<times> FileOperation list \<Rightarrow> ReadClassification list \<Rightarrow> py_error + ReadClassification list" where
  "classify_file cfg file classifications =
     (case file of (file_path, ops) \<Rightarrow>
        let reads = filter (\<lambda>op. fo_operation op = ''read'') ops; edits = filter (\<lambda>op. fo_operation op = ''edit'') ops
        in if reads = [] then Inr classifications
           else fold_err (classify_read cfg file_path reads edits) reads classifications)"

definition classify_reads ::
  "ReadLifecycleConfig \<Rightarrow> (json, FileOperation list) pydict \<Rightarrow> py_error + ReadClassification list" where
  "classify_reads cfg file_ops = fold_err (classify_file cfg) file_ops []"

section \<open>Replacement\<close>

definition EM_DASH :: string where
  "EM_DASH = [CHR 0x97]"

definition lifecycle_marker :: "(json \<Rightarrow> string) \<Rightarrow> ReadClassification \<Rightarrow> string \<Rightarrow> string" where
  "lifecycle_marker rp c ccr_hash =
     (let file_display = py_str rp (py_or (rc_file_path c) (JStr ''unknown''))
      in if rc_state c = STALE
         then ''[Read content stale: '' @ file_display @ '' was modified after this read '' @ EM_DASH @
              '' re-read the file for current content. '' @ ''Retrieve original: hash='' @ ccr_hash @ '']''
         else ''[Read content superseded: '' @ file_display @ '' was re-read later '' @ EM_DASH @
              '' re-read the file if needed. '' @ ''Retrieve original: hash='' @ ccr_hash @ '']'')"

definition marker_bytes :: "string \<Rightarrow> nat" where
  "marker_bytes marker = length (utf8_encode marker) + 1"

definition lifecycle_store_args :: "string \<Rightarrow> ReadClassification \<Rightarrow> string \<Rightarrow> store_args" where
  "lifecycle_store_args content c ccr_hash =
     \<lparr>sa_original = content, sa_compressed = [], sa_original_tokens = 0, sa_compressed_tokens = 0,
      sa_original_item_count = 0, sa_compressed_item_count = 0, sa_tool_name = Some ''Read'',
      sa_tool_call_id = (case rc_tool_call_id c of JStr i \<Rightarrow> Some i | _ \<Rightarrow> None), sa_query_context = None,
      sa_tool_signature_hash = None, sa_compression_strategy = Some (''read_lifecycle:'' @ state_value (rc_state c)),
      sa_ttl = None, sa_explicit_hash = Some ccr_hash\<rparr>"

definition replace_content ::
  "(string \<Rightarrow> string) \<Rightarrow> (json \<Rightarrow> string) \<Rightarrow> ReadLifecycleConfig \<Rightarrow> rat \<times> rat \<Rightarrow> string \<Rightarrow> ReadClassification
     \<Rightarrow> ccr_store option \<Rightarrow> ccr_store option \<times> (string \<times> string) option" where
  "replace_content sha rp cfg now content c st =
     (if int (length (utf8_encode content)) < lc_min_size_bytes cfg then (st, None)
      else
        let ccr_hash = take 24 (sha (utf8_encode content));
            (st', ccr_hash') =
              (case st of
                 None \<Rightarrow> (None, ccr_hash)
               | Some s \<Rightarrow>
                   (case store sha (fst now) (snd now) (lifecycle_store_args content c ccr_hash) s of
                      (s', Inr h) \<Rightarrow> (Some s', h)
                    | (s', Inl e) \<Rightarrow> (Some s', ccr_hash)))
        in (st', Some (lifecycle_marker rp c ccr_hash', ccr_hash')))"

text \<open>What the loop over the messages accumulates.\<close>

record lifecycle_acc =
  la_messages :: "message list"
  la_transforms :: "string list"
  la_hashes :: "string list"
  la_before :: nat
  la_after :: nat
  la_store :: "ccr_store option"

text \<open>The counters of a replacement: its transform tag, and its hash unless that is empty.\<close>

definition note_replacement :: "(json \<Rightarrow> string) \<Rightarrow> ReadClassification \<Rightarrow> string \<Rightarrow> lifecycle_acc \<Rightarrow> lifecycle_acc" where
  "note_replacement rp c ccr_hash a =
     a\<lparr>la_transforms := la_transforms a @ [format_read_lifecycle_transform rp c],
       la_hashes := (if ccr_hash \<noteq> [] then la_hashes a @ [ccr_hash] else la_hashes a)\<rparr>"

text \<open>\<open>replacements.get(tc_id)\<close>.\<close>

definition lookup_id :: "(json, ReadClassification) pydict \<Rightarrow> json \<Rightarrow> py_error + ReadClassification option" where
  "lookup_id replacements tc_id = (if hashable tc_id then Inr (dict_get replacements tc_id) else Inl TypeError)"

definition process_block ::
  "(string \<Rightarrow> string) \<Rightarrow> (json \<Rightarrow> string) \<Rightarrow> ReadLifecycleConfig \<Rightarrow> (nat \<Rightarrow> rat \<times> rat) \<Rightarrow> (json, ReadClassification) pydict
     \<Rightarrow> json \<Rightarrow> json list \<times> bool \<times> lifecycle_acc \<Rightarrow> py_error + json list \<times> bool \<times> lifecycle_acc" where
  "process_block sha rp cfg clk replacements block state =
     (case state of (new_blocks, any_replaced, a) \<Rightarrow>
        (case block of
           JDict d \<Rightarrow>
             if jget d ''type'' \<noteq> Some (JStr ''tool_result'') then Inr (new_blocks @ [block], any_replaced, a)
             else and_then (lookup_id replacements (dict_get_default d ''tool_use_id'' (JStr []))) (\<lambda>classification.
               case (classification, dict_get_default d ''content'' (JStr [])) of
                 (Some c, JStr tool_content) \<Rightarrow>
                   (case replace_content sha rp cfg (clk (length (la_transforms a))) tool_content c (la_store a) of
                      (st, Some (marker, ccr_hash)) \<Rightarrow>
                        Inr (new_blocks @ [JDict (dict_set ''content'' (JStr marker) d)], True,
                             note_replacement rp c ccr_hash (a\<lparr>la_store := st\<rparr>))
                    | (st, None) \<Rightarrow> Inr (new_blocks @ [block], any_replaced, a\<lparr>la_store := st\<rparr>))
               | _ \<Rightarrow> Inr (new_blocks @ [block], any_replaced, a))
         | _ \<Rightarrow> Inr (new_blocks @ [block], any_replaced, a)))"

definition process_anthropic_blocks ::
  "(string \<Rightarrow> string) \<Rightarrow> (json \<Rightarrow> string) \<Rightarrow> ReadLifecycleConfig \<Rightarrow> (nat \<Rightarrow> rat \<times> rat) \<Rightarrow> (json, ReadClassification) pydict
     \<Rightarrow> json list \<Rightarrow> lifecycle_acc \<Rightarrow> py_error + json list \<times> bool \<times> lifecycle_acc" where
  "process_anthropic_blocks sha rp cfg clk replacements content_blocks a =
     fold_err (process_block sha rp cfg clk replacements) content_blocks ([], False, a)"

definition put_message :: "message \<Rightarrow> lifecycle_acc \<Rightarrow> lifecycle_acc" where
  "put_message msg a = a\<lparr>la_messages := la_messages a @ [msg]\<rparr>"

text \<open>The second half of the loop body, for contents that are lists of blocks.\<close>

definition process_blocks_message ::
  "(string \<Rightarrow> string) \<Rightarrow> (json \<Rightarrow> string) \<Rightarrow> ReadLifecycleConfig \<Rightarrow> (nat \<Rightarrow> rat \<times> rat) \<Rightarrow> (json, ReadClassification) pydict
     \<Rightarrow> message \<Rightarrow> lifecycle_acc \<Rightarrow> py_error + lifecycle_acc" where
  "process_blocks_message sha rp cfg clk replacements msg a =
     (case dict_get_default msg ''content'' (JStr []) of
        JList content \<Rightarrow>
          and_then (process_anthropic_blocks sha rp cfg clk replacements content a) (\<lambda>(new_blocks, block_replaced, a').
            Inr (put_message (if block_replaced then dict_set ''content'' (JList new_blocks) msg else msg) a'))
      | _ \<Rightarrow> Inr (put_message msg a))"

definition process_message ::
  "(string \<Rightarrow> string) \<Rightarrow> (json \<Rightarrow> string) \<Rightarrow> ReadLifecycleConfig \<Rightarrow> (nat \<Rightarrow> rat \<times> rat) \<Rightarrow> (json, ReadClassification) pydict
     \<Rightarrow> message \<Rightarrow> lifecycle_acc \<Rightarrow> py_error + lifecycle_acc" where
  "process_message sha rp cfg clk replacements msg a =
     (if dict_get_default msg ''role'' (JStr []) = JStr ''tool'' then
        and_then (lookup_id replacements (dict_get_default msg ''tool_call_id'' (JStr []))) (\<lambda>classification.
          case (classification, dict_get_default msg ''content'' (JStr [])) of
            (Some c, JStr content) \<Rightarrow>
              (case replace_content sha rp cfg (clk (length (la_transforms a))) content c (la_store a) of
                 (st, Some (marker, ccr_hash)) \<Rightarrow>
                   (let a' = note_replacement rp c ccr_hash (a\<lparr>la_store := st\<rparr>)
                    in Inr (put_message (dict_set ''content'' (JStr marker) msg)
                         (a'\<lparr>la_before := la_before a' + length (utf8_encode content),
                             la_after := la_after a' + marker_bytes marker\<rparr>)))
               | (st, None) \<Rightarrow> process_blocks_message sha rp cfg clk replacements msg (a\<lparr>la_store := st\<rparr>))
          | _ \<Rightarrow> process_blocks_message sha rp cfg clk replacements msg a)
      else process_blocks_message sha rp cfg clk replacements msg a)"

definition replacements_of :: "ReadClassification list \<Rightarrow> (json, ReadClassification) pydict" where
  "replacements_of classifications =
     fold (\<lambda>c. dict_set (rc_tool_call_id c) c) (filter (\<lambda>c. rc_state c \<noteq> FRESH) classifications) []"

definition count_state :: "ReadState \<Rightarrow> ReadClassification list \<Rightarrow> nat" where
  "count_state state classifications = length (filter (\<lambda>c. rc_state c = state) classifications)"

definition apply_lifecycle ::
  "(string \<Rightarrow> string) \<Rightarrow> (json \<Rightarrow> string) \<Rightarrow> ReadLifecycleConfig \<Rightarrow> (nat \<Rightarrow> rat \<times> rat) \<Rightarrow> message list
     \<Rightarrow> ReadClassification list \<Rightarrow> ccr_store option \<Rightarrow> py_error + ReadLifecycleResult \<times> ccr_store option" where
  "apply_lifecycle sha rp cfg clk messages classifications st =
     (let replacements = replacements_of classifications
      in if replacements = []
         then Inr ((untouched_result messages)\<lparr>lr_reads_total := length classifications,
                     lr_reads_fresh := length classifications\<rparr>, st)
         else and_then (fold_err (process_message sha rp cfg clk replacements) messages
                  \<lparr>la_messages = [], la_transforms = [], la_hashes = [], la_before = 0, la_after = 0, la_store = st\<rparr>) (\<lambda>a.
           Inr (\<lparr>lr_messages = la_messages a, lr_reads_total = length classifications,
                 lr_reads_stale = count_state STALE classifications,
                 lr_reads_superseded = count_state SUPERSEDED classifications,
                 lr_reads_fresh = count_state FRESH classifications,
                 lr_bytes_before = la_before a, lr_bytes_after = la_after a,
                 lr_transforms_applied = la_transforms a, lr_ccr_hashes = la_hashes a\<rparr>, la_store a)))"

text \<open>Reads in the frozen prefix count as fresh.\<close>

definition freeze_prefix :: "int \<Rightarrow> ReadClassification list \<Rightarrow> ReadClassification list" where
  "freeze_prefix frozen_message_count classifications =
     (if 0 < frozen_message_count
      then map (\<lambda>c. if int (rc_msg_index c) < frozen_message_count \<and> rc_state c \<noteq> FRESH
                    then c\<lparr>rc_state := FRESH\<rparr> else c) classifications
      else classifications)"

definition apply_read_lifecycle ::
  "json_loads \<Rightarrow> (string \<Rightarrow> string) \<Rightarrow> (json \<Rightarrow> string) \<Rightarrow> (nat \<Rightarrow> rat \<times> rat) \<Rightarrow> ReadLifecycleConfig \<Rightarrow> message list \<Rightarrow> int
     \<Rightarrow> ccr_store option \<Rightarrow> py_error + ReadLifecycleResult \<times> ccr_store option" where
  "apply_read_lifecycle loads sha rp clk cfg messages frozen_message_count st =
     (if \<not> lc_enabled cfg then Inr (untouched_result messages, st)
      else and_then (build_tool_metadata loads messages) (\<lambda>tool_metadata.
        and_then (build_file_operation_index messages tool_metadata) (\<lambda>file_ops.
          and_then (classify_reads cfg file_ops) (\<lambda>classifications.
            if classifications = [] then Inr (untouched_result messages, st)
            else apply_lifecycle sha rp cfg clk messages (freeze_prefix frozen_message_count classifications) st))))"

section \<open>Reference definitions\<close>

text \<open>Rewriting the tool results of a message by a function of identifier and text.\<close>

definition rewrite_block :: "(json \<Rightarrow> string \<Rightarrow> string option) \<Rightarrow> json \<Rightarrow> json" where
  "rewrite_block f block =
     (case block of
        JDict d \<Rightarrow>
          (if jget d ''type'' = Some (JStr ''tool_result'') then
             (case dict_get_default d ''content'' (JStr []) of
                JStr s \<Rightarrow> (case f (dict_get_default d ''tool_use_id'' (JStr [])) s of
                             Some m \<Rightarrow> JDict (dict_set ''content'' (JStr m) d) | None \<Rightarrow> block)
              | _ \<Rightarrow> block)
           else block)
      | _ \<Rightarrow> block)"

definition rewrite_message :: "(json \<Rightarrow> string \<Rightarrow> string option) \<Rightarrow> message \<Rightarrow> message" where
  "rewrite_message f msg =
     (case dict_get_default msg ''content'' (JStr []) of
        JStr s \<Rightarrow>
          (if dict_get_default msg ''role'' (JStr []) = JStr ''tool'' then
             (case f (dict_get_default msg ''tool_call_id'' (JStr [])) s of
                Some m \<Rightarrow> dict_set ''content'' (JStr m) msg | None \<Rightarrow> msg)
           else msg)
      | JList blocks \<Rightarrow> dict_set ''content'' (JList (map (rewrite_block f) blocks)) msg
      | _ \<Rightarrow> msg)"

definition marker_for ::
  "(string \<Rightarrow> string) \<Rightarrow> (json \<Rightarrow> string) \<Rightarrow> ReadLifecycleConfig \<Rightarrow> (json \<Rightarrow> ReadClassification option) \<Rightarrow> json \<Rightarrow> string \<Rightarrow> string option" where
  "marker_for sha rp cfg fate tc_id s =
     (case fate tc_id of
        None \<Rightarrow> None
      | Some c \<Rightarrow> if int (length (utf8_encode s)) < lc_min_size_bytes cfg then None
                  else Some (lifecycle_marker rp c (take 24 (sha (utf8_encode s)))))"

text \<open>The file operation a call stands for, and the fate of a read, without grouping by file.\<close>

definition call_operation :: "message list \<Rightarrow> json \<times> tool_meta \<Rightarrow> FileOperation option" where
  "call_operation messages call =
     (case call of (tc_id, name, file_path, offset, limit) \<Rightarrow>
        if \<not> truthy file_path then None
        else case (operation_of name, find_tool_call_msg_index messages tc_id) of
               (Inr (Some operation), Inr (Some i)) \<Rightarrow>
                 Some \<lparr>fo_msg_index = i, fo_tool_call_id = tc_id, fo_tool_name = name, fo_file_path = file_path,
                        fo_operation = operation, fo_content_size = 0,
                        fo_read_offset = (if operation = ''read'' then offset else JNull),
                        fo_read_limit = (if operation = ''read'' then limit else JNull)\<rparr>
             | _ \<Rightarrow> None)"

definition operations :: "message list \<Rightarrow> (json, tool_meta) pydict \<Rightarrow> FileOperation list" where
  "operations messages metadata = List.map_filter (call_operation messages) metadata"

definition read_state :: "ReadLifecycleConfig \<Rightarrow> FileOperation list \<Rightarrow> FileOperation \<Rightarrow> ReadState" where
  "read_state cfg ops r =
     (if lc_compress_stale cfg \<and>
         (\<exists>e \<in> set ops. fo_operation e = ''edit'' \<and> fo_file_path e = fo_file_path r \<and> fo_msg_index r < fo_msg_index e)
      then STALE
      else if lc_compress_superseded cfg \<and>
         (\<exists>l \<in> set ops. fo_operation l = ''read'' \<and> fo_file_path l = fo_file_path r \<and> fo_msg_index r < fo_msg_index l
            \<and> read_covers l r = Inr True)
      then SUPERSEDED else FRESH)"

definition read_fate ::
  "ReadLifecycleConfig \<Rightarrow> message list \<Rightarrow> (json, tool_meta) pydict \<Rightarrow> int \<Rightarrow> json \<Rightarrow> ReadClassification option" where
  "read_fate cfg messages metadata frozen tc_id =
     (case dict_get metadata tc_id of
        None \<Rightarrow> None
      | Some m \<Rightarrow>
          (case call_operation messages (tc_id, m) of
             None \<Rightarrow> None
           | Some r \<Rightarrow>
               (let state = read_state cfg (operations messages metadata) r
                in if fo_operation r = ''read'' \<and> state \<noteq> FRESH \<and> frozen \<le> int (fo_msg_index r)
                   then Some \<lparr>rc_msg_index = fo_msg_index r, rc_tool_call_id = tc_id, rc_file_path = fo_file_path r,
                              rc_state = state, rc_content_size = 0\<rparr>
                   else None)))"

section \<open>Replacing is rewriting\<close>

lemma hex_lower_fixed: "list_all (\<lambda>c. c \<in> set lower_hex) h \<Longrightarrow> list_all (\<lambda>c. c \<in> set hex_chars) h \<and> str_lower h = h"
proof -
  have "set lower_hex \<subseteq> set hex_chars" by (simp add: lower_hex_def hex_chars_def)
  then show "list_all (\<lambda>c. c \<in> set lower_hex) h \<Longrightarrow> list_all (\<lambda>c. c \<in> set hex_chars) h \<and> str_lower h = h"
    using str_lower_hex [of h] by (auto simp: list_all_iff)
qed

definition sha_shape :: "(string \<Rightarrow> string) \<Rightarrow> bool" where
  "sha_shape sha \<longleftrightarrow> (\<forall>x. length (sha x) = 64 \<and> list_all (\<lambda>c. c \<in> set lower_hex) (sha x))"

lemma sha_shape_key:
  "sha_shape sha \<Longrightarrow> length (take 24 (sha x)) = 24 \<and> list_all (\<lambda>c. c \<in> set lower_hex) (take 24 (sha x))"
  by (auto simp: sha_shape_def list_all_iff dest: in_set_takeD)

lemma lifecycle_store_key:
  assumes "sha_shape sha"
  shows "store_key sha (lifecycle_store_args s c (take 24 (sha x))) = Inr (take 24 (sha x))"
  using sha_shape_key [OF assms, of x] hex_lower_fixed [of "take 24 (sha x)"]
  by (auto simp: store_key_def lifecycle_store_args_def)

definition stored :: "(string \<Rightarrow> string) \<Rightarrow> rat \<times> rat \<Rightarrow> string \<Rightarrow> ReadClassification \<Rightarrow> ccr_store \<Rightarrow> ccr_store" where
  "stored sha now s c st = fst (store sha (fst now) (snd now) (lifecycle_store_args s c (take 24 (sha (utf8_encode s)))) st)"

lemma replace_content_eq:
  assumes "sha_shape sha"
  shows "replace_content sha rp cfg now s c st =
    (if int (length (utf8_encode s)) < lc_min_size_bytes cfg then (st, None)
     else (map_option (stored sha now s c) st,
           Some (lifecycle_marker rp c (take 24 (sha (utf8_encode s))), take 24 (sha (utf8_encode s)))))"
  by (simp add: replace_content_def stored_def store_eq [OF lifecycle_store_key [OF assms]] Let_def split: option.splits)

text \<open>The tool results of a message, those among them that are replaced, and what each replacement records.\<close>

definition block_results :: "json \<Rightarrow> (json \<times> string) list" where
  "block_results block =
     (case block of
        JDict d \<Rightarrow>
          (if jget d ''type'' = Some (JStr ''tool_result'') then
             map (Pair (dict_get_default d ''tool_use_id'' (JStr []))) (str_of (dict_get_default d ''content'' (JStr [])))
           else [])
      | _ \<Rightarrow> [])"

definition result_texts :: "message \<Rightarrow> (json \<times> string) list" where
  "result_texts msg =
     (case dict_get_default msg ''content'' (JStr []) of
        JStr s \<Rightarrow> (if dict_get_default msg ''role'' (JStr []) = JStr ''tool''
                   then [(dict_get_default msg ''tool_call_id'' (JStr []), s)] else [])
      | JList blocks \<Rightarrow> concat (map block_results blocks)
      | _ \<Rightarrow> [])"

definition replaced ::
  "ReadLifecycleConfig \<Rightarrow> (json \<Rightarrow> ReadClassification option) \<Rightarrow> (json \<times> string) list \<Rightarrow> (string \<times> ReadClassification) list" where
  "replaced cfg fate results =
     List.map_filter (\<lambda>(i, s). case fate i of
        None \<Rightarrow> None
      | Some c \<Rightarrow> if int (length (utf8_encode s)) < lc_min_size_bytes cfg then None else Some (s, c)) results"

type_synonym recorded = "string list \<times> string list \<times> ccr_store option"

definition recorded :: "lifecycle_acc \<Rightarrow> recorded" where
  "recorded a = (la_transforms a, la_hashes a, la_store a)"

fun record_one ::
  "(string \<Rightarrow> string) \<Rightarrow> (json \<Rightarrow> string) \<Rightarrow> (nat \<Rightarrow> rat \<times> rat) \<Rightarrow> string \<times> ReadClassification \<Rightarrow> recorded \<Rightarrow> recorded" where
  "record_one sha rp clk (s, c) (ts, hs, st) =
     (ts @ [format_read_lifecycle_transform rp c], hs @ [take 24 (sha (utf8_encode s))],
      map_option (stored sha (clk (length ts)) s c) st)"

lemma replaced_simps [simp]:
  "replaced cfg fate [] = []" "replaced cfg fate (xs @ ys) = replaced cfg fate xs @ replaced cfg fate ys"
  by (simp_all add: replaced_def map_filter_def)

lemma recorded_note:
  assumes "sha_shape sha"
  shows "recorded (note_replacement rp c (take 24 (sha (utf8_encode s)))
     (a\<lparr>la_store := map_option (stored sha (clk (length (la_transforms a))) s c) (la_store a)\<rparr>)) = record_one sha rp clk (s, c) (recorded a)"
proof -
  have "take 24 (sha (utf8_encode s)) \<noteq> []" using sha_shape_key [OF assms, of "utf8_encode s"] by auto
  then show ?thesis by (simp add: recorded_def note_replacement_def)
qed

lemma recorded_frame [simp]:
  "recorded (a\<lparr>la_messages := ms\<rparr>) = recorded a" "recorded (a\<lparr>la_before := x\<rparr>) = recorded a"
  "recorded (a\<lparr>la_after := y\<rparr>) = recorded a" "recorded (put_message m a) = recorded a"
  by (simp_all add: recorded_def put_message_def)

lemma la_messages_frame [simp]:
  "la_messages (put_message m a) = la_messages a @ [m]" "la_messages (note_replacement rp c h a) = la_messages a"
  by (simp_all add: put_message_def note_replacement_def)

lemma process_block_Inr:
  assumes "sha_shape sha" "process_block sha rp cfg clk repl b (nb, any, a) = Inr (nb', any', a')"
  defines "f \<equiv> marker_for sha rp cfg (dict_get repl)"
  shows "nb' = nb @ [rewrite_block f b]" "any \<Longrightarrow> any'" "\<not> any' \<Longrightarrow> rewrite_block f b = b"
    "la_messages a' = la_messages a"
    "recorded a' = fold (record_one sha rp clk) (replaced cfg (dict_get repl) (block_results b)) (recorded a)"
  using assms(2) recorded_note [OF assms(1)]
  by (auto simp: process_block_def rewrite_block_def block_results_def lookup_id_def and_then_Inr_iff str_of_def
      replace_content_eq [OF assms(1)] replaced_def map_filter_def
      f_def marker_for_def split: json.splits if_splits option.splits)

lemma process_blocks_Inr:
  assumes "sha_shape sha"
  shows "fold_err (process_block sha rp cfg clk repl) bs (nb, any, a) = Inr (nb', any', a') \<Longrightarrow>
    nb' = nb @ map (rewrite_block (marker_for sha rp cfg (dict_get repl))) bs \<and> (any \<longrightarrow> any') \<and> (\<not> any' \<longrightarrow> map (rewrite_block (marker_for sha rp cfg (dict_get repl))) bs = bs)
    \<and> la_messages a' = la_messages a
    \<and> recorded a' = fold (record_one sha rp clk) (replaced cfg (dict_get repl) (concat (map block_results bs))) (recorded a)"
proof (induction bs arbitrary: nb any a)
  case (Cons b bs)
  then obtain nb1 any1 a1 where 1: "process_block sha rp cfg clk repl b (nb, any, a) = Inr (nb1, any1, a1)"
    and 2: "fold_err (process_block sha rp cfg clk repl) bs (nb1, any1, a1) = Inr (nb', any', a')"
    by (auto simp: and_then_Inr_iff)
  show ?case
    using process_block_Inr [OF assms(1) 1] Cons.IH [OF 2] by auto
qed simp

lemma process_blocks_message_Inr:
  assumes "sha_shape sha" "process_blocks_message sha rp cfg clk repl msg a = Inr a'"
    and "\<And>s. dict_get_default msg ''content'' (JStr []) = JStr s \<Longrightarrow> result_texts msg = [] \<or>
       rewrite_message (marker_for sha rp cfg (dict_get repl)) msg = msg \<and> replaced cfg (dict_get repl) (result_texts msg) = []"
  shows "la_messages a' = la_messages a @ [rewrite_message (marker_for sha rp cfg (dict_get repl)) msg]"
    "recorded a' = fold (record_one sha rp clk) (replaced cfg (dict_get repl) (result_texts msg)) (recorded a)"
proof -
  have *: "la_messages a' = la_messages a @ [rewrite_message (marker_for sha rp cfg (dict_get repl)) msg]
    \<and> recorded a' = fold (record_one sha rp clk) (replaced cfg (dict_get repl) (result_texts msg)) (recorded a)"
  proof (cases "\<exists>bs. dict_get_default msg ''content'' (JStr []) = JList bs")
    case True
    then obtain bs where bs: "dict_get_default msg ''content'' (JStr []) = JList bs" by blast
    then have get: "dict_get msg ''content'' = Some (JList bs)"
      by (auto simp: dict_get_default_def split: option.splits)
    obtain nb any a1 where p: "fold_err (process_block sha rp cfg clk repl) bs ([], False, a) = Inr (nb, any, a1)"
      and a': "a' = put_message (if any then dict_set ''content'' (JList nb) msg else msg) a1"
      using assms(2) bs by (auto simp: process_blocks_message_def process_anthropic_blocks_def and_then_Inr_iff)
    show ?thesis
      using process_blocks_Inr [OF assms(1) p] dict_set_same [OF get]
      by (auto simp: a' bs rewrite_message_def result_texts_def)
  next
    case False
    then show ?thesis
      using assms(2,3)
      by (cases "dict_get_default msg ''content'' (JStr [])")
        (auto simp: process_blocks_message_def rewrite_message_def result_texts_def)
  qed
  then show "la_messages a' = la_messages a @ [rewrite_message (marker_for sha rp cfg (dict_get repl)) msg]"
    "recorded a' = fold (record_one sha rp clk) (replaced cfg (dict_get repl) (result_texts msg)) (recorded a)"
    by simp_all
qed

lemma process_message_Inr:
  assumes sh: "sha_shape sha" and p: "process_message sha rp cfg clk repl msg a = Inr a'"
  shows "la_messages a' = la_messages a @ [rewrite_message (marker_for sha rp cfg (dict_get repl)) msg]"
    "recorded a' = fold (record_one sha rp clk) (replaced cfg (dict_get repl) (result_texts msg)) (recorded a)"
proof -
  let ?f = "marker_for sha rp cfg (dict_get repl)"
  have *: "la_messages a' = la_messages a @ [rewrite_message ?f msg]
    \<and> recorded a' = fold (record_one sha rp clk) (replaced cfg (dict_get repl) (result_texts msg)) (recorded a)"
  proof (cases "\<exists>s m. dict_get_default msg ''role'' (JStr []) = JStr ''tool'' \<and> dict_get_default msg ''content'' (JStr []) = JStr s
      \<and> ?f (dict_get_default msg ''tool_call_id'' (JStr [])) s = Some m")
    case True
    then obtain s m where "dict_get_default msg ''role'' (JStr []) = JStr ''tool''"
      and "dict_get_default msg ''content'' (JStr []) = JStr s"
      and "?f (dict_get_default msg ''tool_call_id'' (JStr [])) s = Some m" by blast
    with p show ?thesis
      using recorded_note [OF sh]
      by (auto simp: process_message_def lookup_id_def marker_for_def replace_content_eq [OF sh] and_then_Inr_iff Let_def
          rewrite_message_def result_texts_def replaced_def map_filter_def split: option.splits if_splits)
  next
    case False
    then have "process_blocks_message sha rp cfg clk repl msg a = Inr a'"
      using p
      by (cases "dict_get_default msg ''content'' (JStr [])"; cases "dict_get repl (dict_get_default msg ''tool_call_id'' (JStr []))")
        (auto simp: process_message_def lookup_id_def marker_for_def replace_content_eq [OF sh] and_then_Inr_iff split: if_splits)
    moreover have "result_texts msg = [] \<or> rewrite_message ?f msg = msg \<and> replaced cfg (dict_get repl) (result_texts msg) = []"
      if "dict_get_default msg ''content'' (JStr []) = JStr s" for s
      using False that
      by (auto simp: result_texts_def rewrite_message_def replaced_def map_filter_def marker_for_def split: option.splits if_splits)
    ultimately show ?thesis
      using process_blocks_message_Inr [OF sh] by blast
  qed
  then show "la_messages a' = la_messages a @ [rewrite_message ?f msg]"
    "recorded a' = fold (record_one sha rp clk) (replaced cfg (dict_get repl) (result_texts msg)) (recorded a)"
    by simp_all
qed

lemma process_messages_Inr:
  assumes sh: "sha_shape sha"
  shows "fold_err (process_message sha rp cfg clk repl) msgs a = Inr a' \<Longrightarrow>
    la_messages a' = la_messages a @ map (rewrite_message (marker_for sha rp cfg (dict_get repl))) msgs
    \<and> recorded a' = fold (record_one sha rp clk) (replaced cfg (dict_get repl) (concat (map result_texts msgs))) (recorded a)"
proof (induction msgs arbitrary: a)
  case (Cons m msgs)
  then obtain a1 where 1: "process_message sha rp cfg clk repl m a = Inr a1"
    and 2: "fold_err (process_message sha rp cfg clk repl) msgs a1 = Inr a'"
    by (auto simp: and_then_Inr_iff)
  show ?case using process_message_Inr [OF sh 1] Cons.IH [OF 2] by simp
qed simp

lemma rewrite_block_none_on: "(\<And>i s. (i, s) \<in> set (block_results b) \<Longrightarrow> f i s = None) \<Longrightarrow> rewrite_block f b = b"
  by (auto simp: rewrite_block_def block_results_def str_of_def split: json.splits)

lemma rewrite_message_none_on:
  assumes "\<And>i s. (i, s) \<in> set (result_texts msg) \<Longrightarrow> f i s = None"
  shows "rewrite_message f msg = msg"
proof (cases "dict_get_default msg ''content'' (JStr [])")
  case (JList bs)
  then have "dict_get msg ''content'' = Some (JList bs)"
    by (auto simp: dict_get_default_def split: option.splits)
  moreover have "map (rewrite_block f) bs = bs"
    using assms JList by (intro map_idI rewrite_block_none_on) (auto simp: result_texts_def)
  ultimately show ?thesis using JList by (simp add: rewrite_message_def dict_set_same)
qed (use assms in \<open>auto simp: rewrite_message_def result_texts_def split: if_splits\<close>)

section \<open>Grouping by file does not matter\<close>

lemma index_call_Inr:
  "index_call messages call ops = Inr ops' \<Longrightarrow>
     ops' = (case call_operation messages call of
               None \<Rightarrow> ops
             | Some o' \<Rightarrow> dict_set (fo_file_path o') (dict_get_default ops (fo_file_path o') [] @ [o']) ops)"
proof -
  assume ix: "index_call messages call ops = Inr ops'"
  obtain i name p off lim where call: "call = (i, name, p, off, lim)" by (cases call)
  show ?thesis
  proof (cases "truthy p \<and> operation_of name \<noteq> Inr None")
    case True
    with ix call obtain operation idx where "operation_of name = Inr (Some operation)" "find_tool_call_msg_index messages i = Inr idx"
      by (auto simp: index_call_def and_then_Inr_iff split: option.splits)
    with ix call True show ?thesis
      by (cases idx) (auto simp: index_call_def call_operation_def split: if_splits)
  qed (use ix call in \<open>auto simp: index_call_def call_operation_def\<close>)
qed

lemma index_calls_Inr:
  "fold_err (index_call messages) calls ops = Inr ops' \<Longrightarrow> dict_ok ops \<Longrightarrow>
     dict_ok ops' \<and> (\<forall>p. dict_get_default ops' p [] =
       dict_get_default ops p [] @ filter (\<lambda>x. fo_file_path x = p) (operations messages calls))"
proof (induction calls arbitrary: ops)
  case (Cons call calls)
  then obtain ops1 where 1: "index_call messages call ops = Inr ops1"
    and 2: "fold_err (index_call messages) calls ops1 = Inr ops'"
    by (auto simp: and_then_Inr_iff)
  have "dict_ok ops1" using index_call_Inr [OF 1] Cons.prems(2) by (simp split: option.splits)
  from Cons.IH [OF 2 this] show ?case
    using index_call_Inr [OF 1]
    by (auto simp: operations_def map_filter_def dict_get_default_def dict_simps split: option.splits)
qed (simp add: operations_def map_filter_def)

definition classified :: "ReadLifecycleConfig \<Rightarrow> FileOperation list \<Rightarrow> FileOperation \<Rightarrow> ReadClassification" where
  "classified cfg ops r =
     \<lparr>rc_msg_index = fo_msg_index r, rc_tool_call_id = fo_tool_call_id r, rc_file_path = fo_file_path r,
      rc_state = read_state cfg ops r, rc_content_size = fo_content_size r\<rparr>"

lemma any_err_Inr: "any_err p xs = Inr b \<Longrightarrow> b = (\<exists>x \<in> set xs. p x = Inr True)"
  by (induction xs) (auto simp: and_then_Inr_iff split: if_splits)

lemma classify_read_Inr:
  assumes "\<And>x. x \<in> set ops \<Longrightarrow> fo_file_path x = p" and "r \<in> set ops"
    and "classify_read cfg p (filter (\<lambda>x. fo_operation x = ''read'') ops) (filter (\<lambda>x. fo_operation x = ''edit'') ops) r cls = Inr cls'"
  shows "cls' = cls @ [classified cfg ops r]"
  using assms
  by (auto simp: classify_read_def classified_def read_state_def Let_def and_then_Inr_iff list_ex_iff
      dest!: any_err_Inr split: if_splits)

lemma classify_reads_Inr:
  assumes "\<And>x. x \<in> set ops \<Longrightarrow> fo_file_path x = p" and "set rs \<subseteq> set ops"
  shows "fold_err (classify_read cfg p (filter (\<lambda>x. fo_operation x = ''read'') ops) (filter (\<lambda>x. fo_operation x = ''edit'') ops)) rs cls = Inr cls'
    \<Longrightarrow> cls' = cls @ map (classified cfg ops) rs"
  using assms(2)
proof (induction rs arbitrary: cls)
  case (Cons r rs)
  let ?step = "classify_read cfg p (filter (\<lambda>x. fo_operation x = ''read'') ops) (filter (\<lambda>x. fo_operation x = ''edit'') ops)"
  obtain cls1 where 1: "?step r cls = Inr cls1" and 2: "fold_err ?step rs cls1 = Inr cls'"
    using Cons.prems(1) by (auto simp: and_then_Inr_iff)
  have "cls1 = cls @ [classified cfg ops r]"
    using Cons.prems(2) by (intro classify_read_Inr [OF assms(1) _ 1]) simp_all
  with Cons.IH [OF 2] Cons.prems(2) show ?case by simp
qed simp

lemma classify_file_Inr:
  assumes "\<And>x. x \<in> set ops \<Longrightarrow> fo_file_path x = p" and "classify_file cfg (p, ops) cls = Inr cls'"
  shows "cls' = cls @ map (classified cfg ops) (filter (\<lambda>x. fo_operation x = ''read'') ops)"
  using assms(2) classify_reads_Inr [OF assms(1), of ops "filter (\<lambda>x. fo_operation x = ''read'') ops" cfg cls cls']
  by (auto simp: classify_file_def Let_def split: if_splits)

lemma classify_files_Inr:
  assumes "\<And>p ops x. (p, ops) \<in> set files \<Longrightarrow> x \<in> set ops \<Longrightarrow> fo_file_path x = p"
  shows "fold_err (classify_file cfg) files cls = Inr cls' \<Longrightarrow>
    cls' = cls @ concat (map (\<lambda>(p, ops). map (classified cfg ops) (filter (\<lambda>x. fo_operation x = ''read'') ops)) files)"
  using assms
proof (induction files arbitrary: cls)
  case (Cons f files)
  obtain p ops where f: "f = (p, ops)" by (cases f)
  obtain cls1 where 1: "classify_file cfg (p, ops) cls = Inr cls1" and 2: "fold_err (classify_file cfg) files cls1 = Inr cls'"
    using Cons.prems(1) f by (auto simp: and_then_Inr_iff)
  have "cls1 = cls @ map (classified cfg ops) (filter (\<lambda>x. fo_operation x = ''read'') ops)"
    using classify_file_Inr [OF _ 1] Cons.prems(2) f by (metis list.set_intros(1))
  with Cons.IH [OF 2] Cons.prems(2) f show ?case by fastforce
qed simp

text \<open>The classifications, over all operations instead of those of one file.\<close>

lemma classifications_set:
  assumes "build_file_operation_index messages metadata = Inr files" and "classify_reads cfg files = Inr cls"
  shows "set cls = classified cfg (operations messages metadata) ` {r \<in> set (operations messages metadata). fo_operation r = ''read''}"
proof -
  let ?ops = "operations messages metadata"
  note ix = index_calls_Inr [OF assms(1) [unfolded build_file_operation_index_def]]
  have ok: "dict_ok files" and look: "dict_get_default files p [] = filter (\<lambda>x. fo_file_path x = p) ?ops" for p
    using ix by (auto simp: dict_get_default_def)
  have mem: "ops = filter (\<lambda>x. fo_file_path x = p) ?ops" if "(p, ops) \<in> set files" for p ops
    using look [of p] dict_in_get [OF ok that] by (simp add: dict_get_default_def)
  have path: "fo_file_path x = p" if "(p, ops) \<in> set files" "x \<in> set ops" for p ops x
  proof -
    have "x \<in> set (filter (\<lambda>x. fo_file_path x = p) ?ops)" using mem [OF that(1)] that(2) by simp
    then show ?thesis by simp
  qed
  have cl: "classified cfg (filter (\<lambda>x. fo_file_path x = fo_file_path r) ?ops) r = classified cfg ?ops r" for r
    by (auto simp: classified_def read_state_def)
  have "cls = concat (map (\<lambda>(p, ops). map (classified cfg ops) (filter (\<lambda>x. fo_operation x = ''read'') ops)) files)"
    using classify_files_Inr [of files cfg "[]" cls] path assms(2) by (simp add: classify_reads_def)
  then have "set cls = (\<Union>(p, ops) \<in> set files. classified cfg ops ` {r \<in> set ops. fo_operation r = ''read''})"
    by auto
  also have "\<dots> = classified cfg ?ops ` {r \<in> set ?ops. fo_operation r = ''read''}"
  proof (intro equalityI subsetI)
    fix c assume "c \<in> (\<Union>(p, ops) \<in> set files. classified cfg ops ` {r \<in> set ops. fo_operation r = ''read''})"
    then obtain p ops r where "(p, ops) \<in> set files" "r \<in> set ops" "fo_operation r = ''read''" "c = classified cfg ops r"
      by auto
    with mem [of p ops] cl [of r] show "c \<in> classified cfg ?ops ` {r \<in> set ?ops. fo_operation r = ''read''}" by auto
  next
    fix c assume "c \<in> classified cfg ?ops ` {r \<in> set ?ops. fo_operation r = ''read''}"
    then obtain r where r: "r \<in> set ?ops" "fo_operation r = ''read''" "c = classified cfg ?ops r" by auto
    then have "filter (\<lambda>x. fo_file_path x = fo_file_path r) ?ops \<noteq> []" by (auto simp: filter_empty_conv)
    with look [of "fo_file_path r"] obtain ops where "dict_get files (fo_file_path r) = Some ops"
      and ops: "ops = filter (\<lambda>x. fo_file_path x = fo_file_path r) ?ops"
      by (cases "dict_get files (fo_file_path r)") (auto simp: dict_get_default_def)
    then have "(fo_file_path r, ops) \<in> set files" by (auto intro: dict_get_Some_in)
    then show "c \<in> (\<Union>(p, ops) \<in> set files. classified cfg ops ` {r \<in> set ops. fo_operation r = ''read''})"
    proof (rule UN_I)
      have "c = classified cfg ops r" "r \<in> set ops" using r cl [of r] ops by simp_all
      with r(2) show "c \<in> (case (fo_file_path r, ops) of (p, ops) \<Rightarrow> classified cfg ops ` {r \<in> set ops. fo_operation r = ''read''})"
        by auto
    qed
  qed
  finally show ?thesis .
qed

lemma option_eqI: "(\<And>c. x = Some c \<longleftrightarrow> y = Some c) \<Longrightarrow> x = y"
  by (cases x; cases y) auto

lemma dict_get_fold_set:
  assumes "\<And>x y. x \<in> set cs \<Longrightarrow> y \<in> set cs \<Longrightarrow> key x = key y \<Longrightarrow> x = y"
  shows "dict_get (fold (\<lambda>c. dict_set (key c) c) cs []) i = Some c \<longleftrightarrow> c \<in> set cs \<and> key c = i"
  using assms
proof (induction cs arbitrary: c rule: rev_induct)
  case (snoc x cs)
  then show ?case by (auto simp: dict_simps)
qed simp

lemma call_operation_id: "call_operation messages (i, m) = Some r \<Longrightarrow> fo_tool_call_id r = i \<and> fo_content_size r = 0"
  by (auto simp: call_operation_def split: prod.splits if_splits sum.splits option.splits)

lemma replacements_are_fates:
  assumes "dict_ok metadata"
    and "build_file_operation_index messages metadata = Inr files" and "classify_reads cfg files = Inr cls"
  shows "dict_get (replacements_of (freeze_prefix frozen cls)) = read_fate cfg messages metadata frozen"
proof -
  let ?ops = "operations messages metadata"
  have ops: "r \<in> set ?ops \<longleftrightarrow> (\<exists>i m. dict_get metadata i = Some m \<and> call_operation messages (i, m) = Some r)" for r
  proof
    assume "r \<in> set ?ops"
    then obtain i m where "(i, m) \<in> set metadata" "call_operation messages (i, m) = Some r"
      by (auto simp: operations_def map_filter_def)
    then show "\<exists>i m. dict_get metadata i = Some m \<and> call_operation messages (i, m) = Some r"
      using dict_in_get [OF assms(1)] by blast
  next
    assume "\<exists>i m. dict_get metadata i = Some m \<and> call_operation messages (i, m) = Some r"
    then obtain i m where "(i, m) \<in> set metadata" "call_operation messages (i, m) = Some r"
      using dict_get_Some_in by fast
    then show "r \<in> set ?ops" by (force simp: operations_def map_filter_def)
  qed
  let ?P = "\<lambda>c. \<exists>r. r \<in> set ?ops \<and> fo_operation r = ''read'' \<and> read_state cfg ?ops r \<noteq> FRESH \<and> frozen \<le> int (fo_msg_index r)
      \<and> c = classified cfg ?ops r"
  have nonfresh: "c \<in> set (filter (\<lambda>c. rc_state c \<noteq> FRESH) (freeze_prefix frozen cls)) \<longleftrightarrow> ?P c" for c
    using classifications_set [OF assms(2,3)]
    by (auto simp: freeze_prefix_def classified_def split: if_splits)
  have uniq: "r = r'" if "r \<in> set ?ops" "r' \<in> set ?ops" "fo_tool_call_id r = fo_tool_call_id r'" for r r'
    using that ops call_operation_id by (metis option.inject)
  have rep: "dict_get (replacements_of (freeze_prefix frozen cls)) i = Some c \<longleftrightarrow> ?P c \<and> rc_tool_call_id c = i" for i c
    unfolding replacements_of_def nonfresh [symmetric]
  proof (rule dict_get_fold_set)
    fix x y
    assume "x \<in> set (filter (\<lambda>c. rc_state c \<noteq> FRESH) (freeze_prefix frozen cls))"
      and "y \<in> set (filter (\<lambda>c. rc_state c \<noteq> FRESH) (freeze_prefix frozen cls))" and k: "rc_tool_call_id x = rc_tool_call_id y"
    then obtain r r' where "r \<in> set ?ops" "x = classified cfg ?ops r" "r' \<in> set ?ops" "y = classified cfg ?ops r'"
      unfolding nonfresh by blast
    moreover from this k have "r = r'" by (intro uniq) (simp_all add: classified_def)
    ultimately show "x = y" by simp
  qed
  have fate: "read_fate cfg messages metadata frozen i = Some c \<longleftrightarrow> ?P c \<and> rc_tool_call_id c = i" for i c
  proof
    assume "read_fate cfg messages metadata frozen i = Some c"
    then obtain m r where m: "dict_get metadata i = Some m" "call_operation messages (i, m) = Some r"
      and r: "fo_operation r = ''read''" "read_state cfg ?ops r \<noteq> FRESH" "frozen \<le> int (fo_msg_index r)"
      "c = \<lparr>rc_msg_index = fo_msg_index r, rc_tool_call_id = i, rc_file_path = fo_file_path r,
            rc_state = read_state cfg ?ops r, rc_content_size = 0\<rparr>"
      by (auto simp: read_fate_def Let_def split: option.splits if_splits)
    from m have "r \<in> set ?ops" using ops by blast
    with r call_operation_id [OF m(2)] show "?P c \<and> rc_tool_call_id c = i" by (auto simp: classified_def)
  next
    assume P: "?P c \<and> rc_tool_call_id c = i"
    then obtain r where r: "r \<in> set ?ops" "fo_operation r = ''read''" "read_state cfg ?ops r \<noteq> FRESH"
      "frozen \<le> int (fo_msg_index r)" "c = classified cfg ?ops r" by blast
    with P have "fo_tool_call_id r = i" by (simp add: classified_def)
    with r(1) ops obtain m where "dict_get metadata i = Some m" "call_operation messages (i, m) = Some r"
      using call_operation_id by metis
    with r(2-) call_operation_id [of messages i m r] show "read_fate cfg messages metadata frozen i = Some c"
      by (simp add: read_fate_def Let_def classified_def)
  qed
  have "dict_get (replacements_of (freeze_prefix frozen cls)) i = Some c \<longleftrightarrow> read_fate cfg messages metadata frozen i = Some c" for i c
    unfolding rep fate ..
  then show ?thesis by (intro ext option_eqI) simp
qed

lemma set_meta_ok: "set_meta i m d = Inr d' \<Longrightarrow> dict_ok d \<Longrightarrow> dict_ok d'"
  by (auto simp: set_meta_def split: if_splits)

lemma fold_err_keeps:
  assumes "\<And>x s s'. f x s = Inr s' \<Longrightarrow> P s \<Longrightarrow> P s'"
  shows "fold_err f xs s = Inr s' \<Longrightarrow> P s \<Longrightarrow> P s'"
  by (induction xs arbitrary: s) (auto simp: and_then_Inr_iff dest: assms)

lemma openai_call_ok: "openai_call loads tc d = Inr d' \<Longrightarrow> dict_ok d \<Longrightarrow> dict_ok d'"
  by (auto simp: openai_call_def Let_def and_then_Inr_iff dest: set_meta_ok split: json.splits if_splits)

lemma anthropic_call_ok: "anthropic_call b d = Inr d' \<Longrightarrow> dict_ok d \<Longrightarrow> dict_ok d'"
  by (auto simp: anthropic_call_def Let_def dest: set_meta_ok split: json.splits if_splits)

lemma call_folds_ok:
  "fold_err (openai_call loads) tcs d = Inr d' \<Longrightarrow> dict_ok d \<Longrightarrow> dict_ok d'"
  "fold_err anthropic_call bs d = Inr d' \<Longrightarrow> dict_ok d \<Longrightarrow> dict_ok d'"
  by (erule fold_err_keeps [rotated], assumption, erule openai_call_ok, assumption)
    (erule fold_err_keeps [rotated], assumption, erule anthropic_call_ok, assumption)

lemma message_calls_ok:
  assumes "message_calls loads msg d = Inr d'" "dict_ok d"
  shows "dict_ok d'"
proof (cases "is_assistant msg")
  case True
  then obtain tcs d1 where "fold_err (openai_call loads) tcs d = Inr d1"
    and d': "(case dict_get_default msg ''content'' (JList []) of
            JList content \<Rightarrow> fold_err anthropic_call content d1 | _ \<Rightarrow> Inr d1) = Inr d'"
    using assms(1) by (auto simp: message_calls_def and_then_Inr_iff)
  then have "dict_ok d1" using assms(2) call_folds_ok(1) by blast
  with d' show ?thesis by (auto split: json.splits dest: call_folds_ok(2))
qed (use assms in \<open>simp add: message_calls_def\<close>)

lemma build_tool_metadata_ok: "build_tool_metadata loads messages = Inr d \<Longrightarrow> dict_ok d"
  using fold_err_keeps [of "message_calls loads" dict_ok messages "[]" d] message_calls_ok [of loads]
  by (auto simp: build_tool_metadata_def)

text \<open>A successful run, in terms of the reference definitions.\<close>

lemma apply_read_lifecycle_Inr:
  assumes sh: "sha_shape sha" and en: "lc_enabled cfg"
    and run: "apply_read_lifecycle loads sha rp clk cfg messages frozen st = Inr (r, st')"
  obtains metadata where "build_tool_metadata loads messages = Inr metadata"
    and "lr_messages r = map (rewrite_message (marker_for sha rp cfg (read_fate cfg messages metadata frozen))) messages"
    and "(lr_transforms_applied r, lr_ccr_hashes r, st') =
      fold (record_one sha rp clk) (replaced cfg (read_fate cfg messages metadata frozen) (concat (map result_texts messages))) ([], [], st)"
    and "lr_reads_total r = lr_reads_stale r + lr_reads_superseded r + lr_reads_fresh r"
proof -
  obtain metadata files cls where md: "build_tool_metadata loads messages = Inr metadata"
    and fl: "build_file_operation_index messages metadata = Inr files" and cl: "classify_reads cfg files = Inr cls"
    and res: "(if cls = [] then Inr (untouched_result messages, st)
               else apply_lifecycle sha rp cfg clk messages (freeze_prefix frozen cls) st) = Inr (r, st')"
    using run en by (auto simp: apply_read_lifecycle_def and_then_Inr_iff)
  let ?fate = "read_fate cfg messages metadata frozen"
  let ?cls = "freeze_prefix frozen cls"
  have fate: "dict_get (replacements_of ?cls) = ?fate"
    by (rule replacements_are_fates [OF build_tool_metadata_ok [OF md] fl cl])
  have "lr_messages r = map (rewrite_message (marker_for sha rp cfg ?fate)) messages
    \<and> (lr_transforms_applied r, lr_ccr_hashes r, st') =
      fold (record_one sha rp clk) (replaced cfg ?fate (concat (map result_texts messages))) ([], [], st)
    \<and> lr_reads_total r = lr_reads_stale r + lr_reads_superseded r + lr_reads_fresh r"
  proof (cases "replacements_of ?cls = []")
    case True
    then have "?fate i = None" for i using fate by (metis map_of.simps(1))
    then have none: "map (rewrite_message (marker_for sha rp cfg ?fate)) messages = messages"
      "replaced cfg ?fate xs = []" for xs
      by (auto simp: rewrite_message_none_on marker_for_def map_idI replaced_def map_filter_def filter_empty_conv)
    show ?thesis
      using res True by (auto simp: none apply_lifecycle_def untouched_result_def split: if_splits)
  next
    case False
    then have ne: "cls \<noteq> []" by (auto simp: replacements_of_def freeze_prefix_def split: if_splits)
    obtain a where a: "fold_err (process_message sha rp cfg clk (replacements_of ?cls)) messages
        \<lparr>la_messages = [], la_transforms = [], la_hashes = [], la_before = 0, la_after = 0, la_store = st\<rparr> = Inr a"
      and r: "lr_messages r = la_messages a" "lr_transforms_applied r = la_transforms a" "lr_ccr_hashes r = la_hashes a"
        "st' = la_store a" "lr_reads_total r = length ?cls" "lr_reads_stale r = count_state STALE ?cls"
        "lr_reads_superseded r = count_state SUPERSEDED ?cls" "lr_reads_fresh r = count_state FRESH ?cls"
      using res ne False by (auto simp: apply_lifecycle_def Let_def and_then_Inr_iff)
    have "length cs = count_state STALE cs + count_state SUPERSEDED cs + count_state FRESH cs" for cs
    proof (induction cs)
      case (Cons c cs)
      then show ?case by (cases "rc_state c") (simp_all add: count_state_def)
    qed (simp add: count_state_def)
    with process_messages_Inr [OF sh a] r show ?thesis by (simp add: fate recorded_def)
  qed
  with md that show ?thesis by blast
qed

section \<open>Properties\<close>

definition results_follow_calls :: "message list \<Rightarrow> bool" where
  "results_follow_calls messages \<longleftrightarrow>
     (\<forall>j < length messages. \<forall>(i, s) \<in> set (result_texts (messages ! j)).
        (\<exists>k < length messages. calls_id i (messages ! k) = Inr True) \<longrightarrow> (\<exists>k < j. calls_id i (messages ! k) = Inr True))"

lemma results_follow_callsD:
  assumes "results_follow_calls messages" "j < length messages" "(i, s) \<in> set (result_texts (messages ! j))"
    and "\<exists>k < length messages. calls_id i (messages ! k) = Inr True"
  shows "\<exists>k < j. calls_id i (messages ! k) = Inr True"
proof -
  have "\<forall>(i, s) \<in> set (result_texts (messages ! j)).
        (\<exists>k < length messages. calls_id i (messages ! k) = Inr True) \<longrightarrow> (\<exists>k < j. calls_id i (messages ! k) = Inr True)"
    using assms(1,2) by (simp add: results_follow_calls_def)
  from bspec [OF this assms(3)] assms(4) show ?thesis by simp
qed

lemma find_from_Some:
  "find_from i n ms = Inr (Some k) \<Longrightarrow>
     n \<le> k \<and> k - n < length ms \<and> calls_id i (ms ! (k - n)) = Inr True \<and> (\<forall>l < k - n. calls_id i (ms ! l) = Inr False)"
proof (induction ms arbitrary: n)
  case (Cons m ms)
  then obtain b where b: "calls_id i m = Inr b" and r: "(if b then Inr (Some n) else find_from i (n + 1) ms) = Inr (Some k)"
    by (auto simp: and_then_Inr_iff)
  show ?case
  proof (cases b)
    case True
    with b r show ?thesis by simp
  next
    case False
    with r have "find_from i (n + 1) ms = Inr (Some k)" by simp
    from Cons.IH [OF this] b False show ?thesis
      by (auto simp: nth_Cons less_Suc_eq_0_disj split: nat.splits) (metis Suc_diff_Suc Suc_le_lessD diff_Suc_Suc old.nat.inject)+
  qed
qed simp

text \<open>C14: the read lifecycle does what it says. A run that returns leaves the conversation as it is except for the
  tool results of reads that are stale (the same file was edited by a call of a later message) or,
  where enabled, superseded (a later read covers them), whose call is not in the frozen prefix and
  whose text is at least the minimal size: each of these is replaced by the marker of its state, its
  path and the hash of its text. Every other message, result and field is unchanged, the counters add up, and tags
  and hashes are listed in conversation order.\<close>
theorem lifecycle_exact:
  assumes "sha_shape sha" and "lc_enabled cfg"
    and "apply_read_lifecycle loads sha rp clk cfg messages frozen st = Inr (r, st')"
  shows "\<exists>metadata. build_tool_metadata loads messages = Inr metadata
    \<and> lr_messages r = map (rewrite_message (marker_for sha rp cfg (read_fate cfg messages metadata frozen))) messages
    \<and> lr_ccr_hashes r = map (\<lambda>(s, c). take 24 (sha (utf8_encode s)))
        (replaced cfg (read_fate cfg messages metadata frozen) (concat (map result_texts messages)))
    \<and> lr_transforms_applied r = map (\<lambda>(s, c). format_read_lifecycle_transform rp c)
        (replaced cfg (read_fate cfg messages metadata frozen) (concat (map result_texts messages)))
    \<and> lr_reads_total r = lr_reads_stale r + lr_reads_superseded r + lr_reads_fresh r"
proof -
  have rec: "fold (record_one sha rp clk) evs (ts, hs, st) = (ts', hs', st') \<Longrightarrow>
      ts' = ts @ map (\<lambda>(s, c). format_read_lifecycle_transform rp c) evs \<and> hs' = hs @ map (\<lambda>(s, c). take 24 (sha (utf8_encode s))) evs"
    for evs ts hs st ts' hs' st'
  proof (induction evs arbitrary: ts hs st)
    case (Cons e evs)
    obtain s c where e: "e = (s, c)" by (cases e)
    from Cons.IH [of "ts @ [format_read_lifecycle_transform rp c]" "hs @ [take 24 (sha (utf8_encode s))]"] Cons.prems
    show ?case by (simp add: e)
  qed simp
  obtain metadata where m: "build_tool_metadata loads messages = Inr metadata"
    "lr_messages r = map (rewrite_message (marker_for sha rp cfg (read_fate cfg messages metadata frozen))) messages"
    "(lr_transforms_applied r, lr_ccr_hashes r, st') =
      fold (record_one sha rp clk) (replaced cfg (read_fate cfg messages metadata frozen) (concat (map result_texts messages))) ([], [], st)"
    "lr_reads_total r = lr_reads_stale r + lr_reads_superseded r + lr_reads_fresh r"
    using apply_read_lifecycle_Inr [OF assms] .
  from rec [OF m(3) [symmetric]] m show ?thesis by auto
qed

text \<open>C16: the provider's cached prefix is never rewritten: in a conversation whose tool results follow their
  calls, the first \<open>frozen_message_count\<close> messages of the result are the messages of the request.\<close>
theorem frozen_prefix_untouched:
  assumes "sha_shape sha" and "results_follow_calls messages"
    and run: "apply_read_lifecycle loads sha rp clk cfg messages frozen st = Inr (r, st')"
  shows "take (nat frozen) (lr_messages r) = take (nat frozen) messages"
proof (cases "lc_enabled cfg")
  case True
  obtain metadata where lr: "lr_messages r = map (rewrite_message (marker_for sha rp cfg (read_fate cfg messages metadata frozen))) messages"
    using apply_read_lifecycle_Inr [OF assms(1) True run] .
  have "rewrite_message (marker_for sha rp cfg (read_fate cfg messages metadata frozen)) (messages ! j) = messages ! j"
    if j: "j < nat frozen" "j < length messages" for j
  proof (rule rewrite_message_none_on)
    fix i s assume res: "(i, s) \<in> set (result_texts (messages ! j))"
    have "read_fate cfg messages metadata frozen i = None"
    proof (rule ccontr)
      assume "read_fate cfg messages metadata frozen i \<noteq> None"
      then obtain k where k: "find_from i 0 messages = Inr (Some k)" "frozen \<le> int k"
        by (auto simp: read_fate_def call_operation_def find_tool_call_msg_index_def Let_def split: option.splits if_splits sum.splits)
      note f = find_from_Some [OF k(1)]
      then have "\<exists>k < length messages. calls_id i (messages ! k) = Inr True" by auto
      then obtain l where "l < j" "calls_id i (messages ! l) = Inr True"
        using results_follow_callsD [OF assms(2) j(2) res] by blast
      then have "\<not> l < k" using f by auto
      with \<open>l < j\<close> k(2) j(1) show False by simp
    qed
    then show "marker_for sha rp cfg (read_fate cfg messages metadata frozen) i s = None"
      by (simp add: marker_for_def)
  qed
  then show ?thesis by (auto simp: lr intro: nth_equalityI)
next
  case False
  with run show ?thesis by (auto simp: apply_read_lifecycle_def untouched_result_def)
qed

definition sample_conversation :: "message list" where
  "sample_conversation =
     [[(''role'', JStr ''assistant''), (''content'', JList [JDict [(''type'', JStr ''tool_use''), (''id'', JStr ''r1''),
         (''name'', JStr ''Read''), (''input'', JDict [(''file_path'', JStr ''a.py'')])]])],
      [(''role'', JStr ''user''), (''content'', JList [JDict [(''type'', JStr ''tool_result''), (''tool_use_id'', JStr ''r1''),
         (''content'', JStr ''import os'')]])],
      [(''role'', JStr ''assistant''), (''content'', JNull), (''tool_calls'', JList [JDict [(''id'', JStr ''e1''),
         (''function'', JDict [(''name'', JStr ''Edit''), (''arguments'', JStr ''-'')])]])]]"

definition sample_loads :: json_loads where
  "sample_loads s = Inr (JDict [(''file_path'', JStr ''a.py'')])"

definition sample_hex :: "string \<Rightarrow> string" where
  "sample_hex s = replicate 64 (CHR ''0'')"

definition sample_lifecycle :: "int \<Rightarrow> py_error + ReadLifecycleResult \<times> ccr_store option" where
  "sample_lifecycle frozen = apply_read_lifecycle sample_loads sample_hex (\<lambda>_. []) (\<lambda>n. (5, 5))
     (default_lifecycle_config\<lparr>lc_min_size_bytes := 4\<rparr>) sample_conversation frozen (Some (ccr_init 10 60 True mb_init))"

lemma sample_hex_shape: "sha_shape sample_hex"
  by (auto simp: sha_shape_def sample_hex_def lower_hex_def list_all_iff)

lemma sample_lifecycle_runs:
  "\<exists>r st. sample_lifecycle 0 = Inr (r, st) \<and> length (lr_transforms_applied r) = 1"
  "\<exists>r st. sample_lifecycle 2 = Inr (r, st)"
proof -
  have "case sample_lifecycle 0 of Inr (r, st) \<Rightarrow> length (lr_transforms_applied r) = 1 | Inl _ \<Rightarrow> False" by code_simp
  then show "\<exists>r st. sample_lifecycle 0 = Inr (r, st) \<and> length (lr_transforms_applied r) = 1" by (auto split: sum.splits)
  have "\<not> isl (sample_lifecycle 2)" by code_simp
  then show "\<exists>r st. sample_lifecycle 2 = Inr (r, st)" by (cases "sample_lifecycle 2") auto
qed

theorem lifecycle_exact_witness:
  "\<exists>r st metadata. sample_lifecycle 0 = Inr (r, st) \<and> length (lr_transforms_applied r) = 1
     \<and> lr_messages r = map (rewrite_message (marker_for sample_hex (\<lambda>_. []) (default_lifecycle_config\<lparr>lc_min_size_bytes := 4\<rparr>)
        (read_fate (default_lifecycle_config\<lparr>lc_min_size_bytes := 4\<rparr>) sample_conversation metadata 0))) sample_conversation"
proof -
  obtain r st where r: "sample_lifecycle 0 = Inr (r, st)" "length (lr_transforms_applied r) = 1"
    using sample_lifecycle_runs(1) by blast
  have "lc_enabled (default_lifecycle_config\<lparr>lc_min_size_bytes := 4\<rparr>)"
    by (simp add: default_lifecycle_config_def)
  from lifecycle_exact [OF sample_hex_shape this r(1) [unfolded sample_lifecycle_def]] r show ?thesis by blast
qed

lemma sample_follows: "results_follow_calls sample_conversation"
proof -
  have "length sample_conversation = 3" by (simp add: sample_conversation_def)
  moreover have "result_texts (sample_conversation ! 0) = []" "result_texts (sample_conversation ! 2) = []"
    "result_texts (sample_conversation ! 1) = [(JStr ''r1'', ''import os'')]" "calls_id (JStr ''r1'') (sample_conversation ! 0) = Inr True"
    by code_simp+
  ultimately show ?thesis
    by (auto simp: results_follow_calls_def numeral_3_eq_3 numeral_2_eq_2 less_Suc_eq)
qed

theorem frozen_prefix_untouched_witness:
  "\<exists>r st. sample_lifecycle 2 = Inr (r, st) \<and> take 2 (lr_messages r) = take 2 sample_conversation"
  using sample_lifecycle_runs(2) frozen_prefix_untouched [OF sample_hex_shape sample_follows, of sample_loads "\<lambda>_. []" "\<lambda>n. (5, 5)"
      "default_lifecycle_config\<lparr>lc_min_size_bytes := 4\<rparr>" 2]
  by (auto simp: sample_lifecycle_def)

end
