(* ===== verification/Read_Redemption.thy ===== *)
theory Read_Redemption
  imports Read_Lifecycle
begin

text \<open>
  The read lifecycle beside the compression store and the tool injector: which conversations it
  takes without raising, which it does not, and that what it replaces can be fetched back.
\<close>

section \<open>Well-typed conversations\<close>

text \<open>
  The conversations meant here: identifiers and names are strings or absent, calls are objects, paths
  are strings, offsets and limits numbers, where present. The annotations say no more of a call's
  arguments than that they are a string; required of it here is that it is no JSON at all or that
  it decodes to an object. (Without that the pass may raise, see \<open>null_arguments_raise\<close> below.)
\<close>

definition opt_str :: "json \<Rightarrow> bool" where
  "opt_str v = (case v of JNull \<Rightarrow> True | JStr s \<Rightarrow> True | _ \<Rightarrow> False)"

definition opt_num :: "json \<Rightarrow> bool" where
  "opt_num v = (v = JNull \<or> num_of_json v \<noteq> None)"

definition args_typed :: "json \<times> json \<times> json \<Rightarrow> bool" where
  "args_typed pol = (case pol of (p, off, lmt) \<Rightarrow> opt_str p \<and> opt_num off \<and> opt_num lmt)"

definition call_typed :: "json_loads \<Rightarrow> json \<Rightarrow> bool" where
  "call_typed loads tc =
     (case tc of
        JDict d \<Rightarrow>
          opt_str (dict_get_default d ''id'' (JStr [])) \<and>
          (case dict_get_default d ''function'' (JDict []) of
             JDict f \<Rightarrow>
               opt_str (dict_get_default f ''name'' (JStr [])) \<and>
               (case dict_get_default f ''arguments'' (JStr ''{}'') of
                  JStr s \<Rightarrow> (case loads s of
                               Inl e \<Rightarrow> e = JSONDecodeError
                             | Inr (JDict args) \<Rightarrow> args_typed (path_offset_limit args)
                             | Inr _ \<Rightarrow> False)
                | _ \<Rightarrow> True)
           | _ \<Rightarrow> False)
      | _ \<Rightarrow> True)"

definition block_typed :: "json \<Rightarrow> bool" where
  "block_typed b =
     (case b of
        JDict d \<Rightarrow>
          (jget d ''type'' = Some (JStr ''tool_use'') \<longrightarrow>
             opt_str (dict_get_default d ''id'' (JStr [])) \<and> opt_str (dict_get_default d ''name'' (JStr [])) \<and>
             (case dict_get_default d ''input'' (JDict []) of JDict inp \<Rightarrow> args_typed (path_offset_limit inp) | _ \<Rightarrow> True)) \<and>
          (jget d ''type'' = Some (JStr ''tool_result'') \<longrightarrow> opt_str (dict_get_default d ''tool_use_id'' (JStr [])))
      | _ \<Rightarrow> True)"

definition message_typed :: "json_loads \<Rightarrow> message \<Rightarrow> bool" where
  "message_typed loads msg =
     ((case dict_get_default msg ''tool_calls'' JNull of
         JNull \<Rightarrow> True | JList tcs \<Rightarrow> list_all (call_typed loads) tcs | _ \<Rightarrow> False) \<and>
      opt_str (dict_get_default msg ''tool_call_id'' (JStr [])) \<and>
      (case dict_get_default msg ''content'' JNull of JList bs \<Rightarrow> list_all block_typed bs | _ \<Rightarrow> True))"

lemma fold_err_total:
  assumes "\<And>x s. x \<in> set xs \<Longrightarrow> P s \<Longrightarrow> \<exists>s'. f x s = Inr s' \<and> P s'"
  shows "P s \<Longrightarrow> \<exists>s'. fold_err f xs s = Inr s' \<and> P s'"
  using assms
proof (induction xs arbitrary: s)
  case (Cons x xs)
  obtain s1 where "f x s = Inr s1" "P s1" using Cons.prems by (meson list.set_intros(1))
  with Cons show ?case by (metis and_then.simps(2) fold_err.simps(2) list.set_intros(2))
qed simp

lemma fold_err_returns: "(\<And>x s. x \<in> set xs \<Longrightarrow> \<exists>s'. f x s = Inr s') \<Longrightarrow> \<exists>s'. fold_err f xs s = Inr s'"
  using fold_err_total [of xs "\<lambda>_. True" f s] by blast

lemma opt_str_hashable: "opt_str v \<Longrightarrow> hashable v"
  by (cases v) (simp_all add: opt_str_def)

definition meta_typed :: "json \<times> tool_meta \<Rightarrow> bool" where
  "meta_typed call = (case call of (tc_id, name, pol) \<Rightarrow> opt_str name \<and> args_typed pol)"

abbreviation metadata_typed :: "(json, tool_meta) pydict \<Rightarrow> bool" where
  "metadata_typed metadata \<equiv> list_all meta_typed metadata"

lemma args_typed_none [simp]: "args_typed (JNull, JNull, JNull)"
  by (simp add: args_typed_def opt_str_def opt_num_def)

lemma list_all_dict_set:
  "list_all P d \<Longrightarrow> P (k, v) \<Longrightarrow> list_all P (dict_set k v d)"
  by (induction d) auto

lemma set_meta_typed:
  "opt_str i \<Longrightarrow> opt_str name \<Longrightarrow> args_typed pol \<Longrightarrow> metadata_typed d \<Longrightarrow>
     \<exists>d'. set_meta i (name, pol) d = Inr d' \<and> metadata_typed d'"
  by (simp add: set_meta_def opt_str_hashable list_all_dict_set meta_typed_def)

lemma call_arguments_typed:
  "(case v of
      JStr s \<Rightarrow> (case loads s of Inl e \<Rightarrow> e = JSONDecodeError | Inr (JDict args) \<Rightarrow> args_typed (path_offset_limit args) | Inr _ \<Rightarrow> False)
    | _ \<Rightarrow> True) \<Longrightarrow> \<exists>pol. call_arguments loads v = Inr pol \<and> args_typed pol"
  by (auto simp: call_arguments_def split: json.splits sum.splits) (metis prod_cases3)

lemma openai_call_typed:
  assumes "call_typed loads tc" "metadata_typed d"
  shows "\<exists>d'. openai_call loads tc d = Inr d' \<and> metadata_typed d'"
proof (cases tc)
  case (JDict t)
  then obtain f where f: "dict_get_default t ''function'' (JDict []) = JDict f"
    using assms(1) by (auto simp: call_typed_def split: json.splits)
  obtain pol where "call_arguments loads (dict_get_default f ''arguments'' (JStr ''{}'')) = Inr pol" "args_typed pol"
    using assms(1) JDict f call_arguments_typed [of loads "dict_get_default f ''arguments'' (JStr ''{}'')"]
    by (auto simp: call_typed_def)
  with assms JDict f show ?thesis
    by (auto simp: openai_call_def call_typed_def Let_def intro!: set_meta_typed)
qed (use assms in \<open>simp_all add: openai_call_def\<close>)

lemma anthropic_call_typed:
  assumes "block_typed b" "metadata_typed d"
  shows "\<exists>d'. anthropic_call b d = Inr d' \<and> metadata_typed d'"
  using assms by (auto simp: anthropic_call_def block_typed_def Let_def split: json.splits intro!: set_meta_typed)

lemma tool_calls_typed:
  assumes "message_typed loads msg"
  shows "\<exists>tcs. tool_calls_of msg = Inr tcs \<and> list_all (call_typed loads) tcs"
  using assms by (auto simp: message_typed_def tool_calls_of_def Let_def split: json.splits)

lemma content_typed:
  "message_typed loads msg \<Longrightarrow> dict_get_default msg ''content'' dflt = JList bs \<Longrightarrow> dflt = JList [] \<or> dflt = JStr [] \<Longrightarrow> list_all block_typed bs"
  by (auto simp: message_typed_def dict_get_default_def split: option.splits)

lemma metadata_total:
  assumes "list_all (message_typed loads) messages"
  shows "\<exists>d. build_tool_metadata loads messages = Inr d \<and> metadata_typed d"
  unfolding build_tool_metadata_def
proof (rule fold_err_total)
  fix msg d assume msg: "msg \<in> set messages" and d: "metadata_typed d"
  then have t: "message_typed loads msg" using assms by (simp add: list_all_iff)
  obtain tcs where tcs: "tool_calls_of msg = Inr tcs" "list_all (call_typed loads) tcs"
    using tool_calls_typed [OF t] by blast
  obtain d1 where d1: "fold_err (openai_call loads) tcs d = Inr d1" "metadata_typed d1"
    using fold_err_total [of tcs metadata_typed "openai_call loads", OF openai_call_typed d] tcs(2) by (auto simp: list_all_iff)
  have "\<exists>d2. fold_err anthropic_call bs d1 = Inr d2 \<and> metadata_typed d2"
    if "dict_get_default msg ''content'' (JList []) = JList bs" for bs
    using fold_err_total [of bs metadata_typed anthropic_call, OF anthropic_call_typed d1(2)] content_typed [OF t that]
    by (auto simp: list_all_iff)
  then show "\<exists>d'. message_calls loads msg d = Inr d' \<and> metadata_typed d'"
    using d d1 tcs by (auto simp: message_calls_def split: json.splits)
qed simp

lemma calls_id_total:
  assumes "message_typed loads msg"
  shows "\<exists>b. calls_id i msg = Inr b"
  using tool_calls_typed [OF assms] by (auto simp: calls_id_def)

lemma find_from_total: "list_all (message_typed loads) messages \<Longrightarrow> \<exists>k. find_from i n messages = Inr k"
proof (induction messages arbitrary: n)
  case (Cons m messages)
  then show ?case using calls_id_total [of loads m i] by auto
qed simp

text \<open>Operations whose offsets and limits are numbers, by file.\<close>

definition ops_typed :: "FileOperation list \<Rightarrow> bool" where
  "ops_typed ops = list_all (\<lambda>x. opt_num (fo_read_offset x) \<and> opt_num (fo_read_limit x)) ops"

abbreviation files_typed :: "(json, FileOperation list) pydict \<Rightarrow> bool" where
  "files_typed files \<equiv> list_all (\<lambda>(p, ops). ops_typed ops) files"

lemma files_typed_get: "files_typed files \<Longrightarrow> ops_typed (dict_get_default files p [])"
proof (cases "dict_get files p")
  case (Some ops)
  assume "files_typed files"
  then show ?thesis using dict_get_Some_in [OF Some] Some by (auto simp: dict_get_default_def list_all_iff)
qed (simp add: dict_get_default_def ops_typed_def)

lemma index_call_typed:
  assumes ms: "list_all (message_typed loads) messages" and call: "meta_typed call" and fl: "files_typed files"
  shows "\<exists>files'. index_call messages call files = Inr files' \<and> files_typed files'"
proof -
  obtain i name p off lmt where c: "call = (i, name, p, off, lmt)" by (cases call)
  have t: "opt_str name" "opt_str p" "opt_num off" "opt_num lmt"
    using call by (auto simp: c meta_typed_def args_typed_def)
  obtain k where k: "find_tool_call_msg_index messages i = Inr k"
    using find_from_total [OF ms] by (auto simp: find_tool_call_msg_index_def)
  obtain op where op: "operation_of name = Inr op"
    using opt_str_hashable [OF t(1)] by (auto simp: operation_of_def)
  have "ops_typed (dict_get_default files p [] @ [x])" if "opt_num (fo_read_offset x)" "opt_num (fo_read_limit x)" for x
    using files_typed_get [OF fl, of p] that by (simp add: ops_typed_def)
  then show ?thesis
    using fl t opt_str_hashable [OF t(2)]
    by (cases op; cases k) (auto simp: index_call_def c k op opt_num_def intro!: list_all_dict_set)
qed

lemma py_numbers:
  assumes "opt_num x" "opt_num y"
  shows "num_of_json (py_or x (JInt i)) \<noteq> None" "\<exists>z. py_add (py_or x (JInt i)) (py_or y (JInt j)) = Inr z \<and> num_of_json z \<noteq> None"
proof -
  have n: "num_of_json (py_or v (JInt i)) \<noteq> None" if "opt_num v" for v i
    using that by (auto simp: py_or_def opt_num_def)
  then show "num_of_json (py_or x (JInt i)) \<noteq> None" using assms by blast
  have add: "\<exists>z. py_add a b = Inr z \<and> num_of_json z \<noteq> None" if "num_of_json a \<noteq> None" "num_of_json b \<noteq> None" for a b
    using that by (cases a; cases b) (auto simp: py_add_def)
  show "\<exists>z. py_add (py_or x (JInt i)) (py_or y (JInt j)) = Inr z \<and> num_of_json z \<noteq> None"
    using add n assms by blast
qed

lemma py_le_total: "num_of_json a \<noteq> None \<Longrightarrow> num_of_json b \<noteq> None \<Longrightarrow> \<exists>c. py_le a b = Inr c"
  by (cases a; cases b) (auto simp: py_le_def)

lemma read_covers_total:
  assumes "opt_num (fo_read_offset l)" "opt_num (fo_read_limit l)" "opt_num (fo_read_offset e)" "opt_num (fo_read_limit e)"
  shows "\<exists>b. read_covers l e = Inr b"
proof -
  obtain le ee where a: "py_add (py_or (fo_read_offset l) (JInt 0)) (py_or (fo_read_limit l) (JInt 2000)) = Inr le"
    "py_add (py_or (fo_read_offset e) (JInt 0)) (py_or (fo_read_limit e) (JInt 2000)) = Inr ee"
    "num_of_json le \<noteq> None" "num_of_json ee \<noteq> None"
    using py_numbers(2) assms by metis
  obtain b1 b2 where "py_le (py_or (fo_read_offset l) (JInt 0)) (py_or (fo_read_offset e) (JInt 0)) = Inr b1" "py_le ee le = Inr b2"
    using py_le_total a(3,4) py_numbers(1) assms by metis
  with a show ?thesis by (auto simp: read_covers_def Let_def)
qed

lemma any_err_total: "(\<And>x. x \<in> set xs \<Longrightarrow> \<exists>b. p x = Inr b) \<Longrightarrow> \<exists>b. any_err p xs = Inr b"
proof (induction xs)
  case (Cons x xs)
  obtain b c where "p x = Inr b" "any_err p xs = Inr c" using Cons by (meson list.set_intros)
  then show ?case by auto
next
  case Nil
  show ?case by (rule exI [of _ False]) simp
qed

lemma classify_file_total:
  assumes "ops_typed ops"
  shows "\<exists>cls'. classify_file cfg (p, ops) cls = Inr cls'"
proof -
  let ?reads = "filter (\<lambda>x. fo_operation x = ''read'') ops" and ?edits = "filter (\<lambda>x. fo_operation x = ''edit'') ops"
  have covers: "\<exists>b. read_covers l e = Inr b" if "l \<in> set ops" "e \<in> set ops" for l e
    using assms that by (intro read_covers_total) (auto simp: ops_typed_def list_all_iff)
  have "\<exists>cls'. classify_read cfg p ?reads ?edits r cls = Inr cls'" if r: "r \<in> set ?reads" for r cls
  proof -
    obtain b where "any_err (\<lambda>x. if fo_msg_index r < fo_msg_index x then read_covers x r else Inr False) ?reads = Inr b"
    proof (rule exE [OF any_err_total])
      fix x assume "x \<in> set ?reads"
      with covers [of x r] r show "\<exists>b. (if fo_msg_index r < fo_msg_index x then read_covers x r else Inr False) = Inr b" by auto
    qed
    then show ?thesis by (simp add: classify_read_def Let_def)
  qed
  then have "\<exists>cls'. fold_err (classify_read cfg p ?reads ?edits) ?reads cls = Inr cls'"
    by (intro fold_err_returns)
  then show ?thesis by (auto simp: classify_file_def Let_def)
qed

lemma classify_reads_total: "files_typed files \<Longrightarrow> \<exists>cls. classify_reads cfg files = Inr cls"
  unfolding classify_reads_def by (rule fold_err_returns) (auto simp: list_all_iff intro: classify_file_total)

lemma process_block_total: "block_typed b \<Longrightarrow> \<exists>s'. process_block sha rp cfg clk repl b s = Inr s'"
  by (cases s)
    (auto simp: process_block_def lookup_id_def block_typed_def opt_str_hashable split: json.splits option.splits prod.splits)

lemma process_blocks_message_total:
  assumes "message_typed loads msg"
  shows "\<exists>a'. process_blocks_message sha rp cfg clk repl msg a = Inr a'"
proof -
  have *: "\<exists>s'. fold_err (process_block sha rp cfg clk repl) bs s = Inr s'" if "list_all block_typed bs" for bs s
    using that by (intro fold_err_returns process_block_total) (simp add: list_all_iff)
  show ?thesis
  proof (cases "dict_get_default msg ''content'' (JStr [])")
    case (JList bs)
    with content_typed [OF assms this] obtain x where "fold_err (process_block sha rp cfg clk repl) bs ([], False, a) = Inr x"
      using * by blast
    with JList show ?thesis by (cases x) (simp add: process_blocks_message_def process_anthropic_blocks_def)
  qed (simp_all add: process_blocks_message_def)
qed

lemma process_message_total:
  assumes "message_typed loads msg"
  shows "\<exists>a'. process_message sha rp cfg clk repl msg a = Inr a'"
proof -
  have "hashable (dict_get_default msg ''tool_call_id'' (JStr []))"
    using assms opt_str_hashable by (auto simp: message_typed_def)
  with process_blocks_message_total [OF assms] show ?thesis
    by (auto simp: process_message_def lookup_id_def Let_def split: json.splits option.splits prod.splits)
qed

text \<open>C39: the read lifecycle does not raise on the following conversations, whatever the configuration, the
  frozen prefix and the store: \<open>tool_calls\<close> is absent, null or a list; a call that is an object has an
  object \<open>function\<close> (or none), its identifiers and names are strings, null or absent, and its
  \<open>arguments\<close>, where they are a string, either do not decode or decode to an object (a hypothesis on
  the data: arguments that decode to anything else, such as the text \<open>null\<close>, make the pass raise
  \<open>AttributeError\<close>, lemma \<open>null_arguments_raise\<close>); in such objects, and in the \<open>input\<close> of a tool_use
  block, the path is a string and offset and limit are numbers, or null or absent; the identifiers
  of tool_use and tool_result blocks are strings, null or absent. The pass returns a result, with as
  many messages as the conversation.\<close>
theorem well_typed_lifecycle_returns:
  assumes ms: "list_all (message_typed loads) messages" and "sha_shape sha"
  shows "\<exists>r st'. apply_read_lifecycle loads sha rp clk cfg messages frozen st = Inr (r, st') \<and> length (lr_messages r) = length messages"
proof -
  obtain metadata where md: "build_tool_metadata loads messages = Inr metadata" "metadata_typed metadata"
    using metadata_total [OF ms] by blast
  obtain files where fl: "build_file_operation_index messages metadata = Inr files" "files_typed files"
    using fold_err_total [of metadata files_typed "index_call messages" "[]"] index_call_typed [OF ms] md(2)
    by (auto simp: build_file_operation_index_def list_all_iff)
  obtain cls where cl: "classify_reads cfg files = Inr cls"
    using classify_reads_total [OF fl(2)] by blast
  have loop: "\<exists>a'. fold_err (process_message sha rp cfg clk repl) messages a = Inr a'" for repl a
    using ms by (intro fold_err_returns process_message_total [of loads]) (simp add: list_all_iff)
  have "\<exists>x. apply_lifecycle sha rp cfg clk messages cs st = Inr x" for cs
    using loop [of "replacements_of cs" "\<lparr>la_messages = [], la_transforms = [], la_hashes = [], la_before = 0, la_after = 0, la_store = st\<rparr>"]
    by (auto simp: apply_lifecycle_def Let_def)
  then obtain r st' where run: "apply_read_lifecycle loads sha rp clk cfg messages frozen st = Inr (r, st')"
    by (fastforce simp: apply_read_lifecycle_def md fl cl)
  moreover have "length (lr_messages r) = length messages"
  proof (cases "lc_enabled cfg")
    case True
    then show ?thesis by (rule apply_read_lifecycle_Inr [OF assms(2) _ run]) simp
  next
    case False
    with run show ?thesis by (auto simp: apply_read_lifecycle_def untouched_result_def)
  qed
  ultimately show ?thesis by blast
qed

section \<open>Redeeming a replaced read\<close>

lemma lifecycle_store_args_fields [simp]:
  "sa_original (lifecycle_store_args s c h) = s" "sa_ttl (lifecycle_store_args s c h) = None"
  by (simp_all add: lifecycle_store_args_def)

lemma record_holds:
  assumes sh: "sha_shape sha"
    and inj: "\<And>x y. x \<in> set X \<union> fst ` set evs \<Longrightarrow> y \<in> set X \<union> fst ` set evs \<Longrightarrow>
      take 24 (sha (utf8_encode x)) = take 24 (sha (utf8_encode y)) \<Longrightarrow> x = y"
    and clk: "\<And>n. n < length ts + length evs \<Longrightarrow> snd (clk n) \<le> t \<and> t \<le> fst (clk n) + of_int ttl"
    and s: "ccr_ok m s" "0 < m" "cs_default_ttl s = ttl" "int (mb_count (cs_backend s)) + int (length evs) \<le> m"
    and X: "\<And>x. x \<in> set X \<Longrightarrow> holds_until (take 24 (sha (utf8_encode x))) x t s"
  shows "\<exists>ts' hs' s'. fold (record_one sha rp clk) evs (ts, hs, Some s) = (ts', hs', Some s') \<and> ccr_ok m s'
    \<and> (\<forall>x \<in> set X \<union> fst ` set evs. holds_until (take 24 (sha (utf8_encode x))) x t s')"
  using inj clk s X
proof (induction evs arbitrary: X ts hs s)
  case Nil
  then show ?case by simp
next
  case (Cons e evs)
  obtain x c where e: "e = (x, c)" by (cases e)
  let ?k = "take 24 (sha (utf8_encode x))" and ?s = "stored sha (clk (length ts)) x c s"
  note key = lifecycle_store_key [OF sh, of x c "utf8_encode x"]
  have room: "ccr_inv s" "int (mb_count (cs_backend s)) < cs_max_entries s"
    using Cons.prems(3,6) by (auto simp: ccr_ok_def)
  have now: "snd (clk (length ts)) \<le> t" "t \<le> fst (clk (length ts)) + of_int ttl"
    using Cons.prems(2) [of "length ts"] by auto
  have ok: "ccr_ok m ?s"
    using ccr_ok_step [OF Cons.prems(3,4), of sha "Store (fst (clk (length ts))) (snd (clk (length ts))) (lifecycle_store_args x c ?k)"]
    by (simp add: stored_def)
  have ttl: "cs_default_ttl ?s = ttl"
    using evict_if_needed_facts(3) [of "flushed s"] room(1) Cons.prems(5)
    by (simp add: stored_def store_eq [OF key] split: option.splits)
  have few: "int (mb_count (cs_backend ?s)) + int (length evs) \<le> m"
    using store_with_room(2) [OF room(1) key room(2), of "fst (clk (length ts))" "snd (clk (length ts))"] Cons.prems(6)
    by (simp add: stored_def)
  have new: "holds_until ?k x t ?s"
    using now(2) Cons.prems(5) by (auto simp: stored_def store_eq [OF key] holds_until_def)
  have X': "holds_until (take 24 (sha (utf8_encode y))) y t ?s" if y: "y \<in> set (x # X)" for y
  proof (cases "y = x")
    case False
    then have "y \<in> set X" using y by simp
    moreover from this have "take 24 (sha (utf8_encode y)) \<noteq> ?k" using Cons.prems(1) [of y x] False e by auto
    ultimately show ?thesis
      using store_with_room(1) [OF room(1) key room(2)] Cons.prems(7) now(1) by (simp add: stored_def)
  qed (use new in simp)
  have inj': "u = v" if "u \<in> set (x # X) \<union> fst ` set evs" "v \<in> set (x # X) \<union> fst ` set evs"
    "take 24 (sha (utf8_encode u)) = take 24 (sha (utf8_encode v))" for u v
    using Cons.prems(1) [of u v] that e by auto
  let ?ts = "ts @ [format_read_lifecycle_transform rp c]"
  have clk': "snd (clk n) \<le> t \<and> t \<le> fst (clk n) + of_int ttl" if "n < length ?ts + length evs" for n
    using Cons.prems(2) [of n] that by simp
  have "\<exists>ts' hs' s'. fold (record_one sha rp clk) evs (?ts, hs @ [?k], Some ?s) = (ts', hs', Some s') \<and> ccr_ok m s'
    \<and> (\<forall>x \<in> set (x # X) \<union> fst ` set evs. holds_until (take 24 (sha (utf8_encode x))) x t s')"
    by (rule Cons.IH [OF inj' clk' ok Cons.prems(4) ttl few X'])
  then show ?case by (simp add: e)
qed

lemma block_marker_visible:
  assumes "(i, s) \<in> set (block_results b)" "f i s = Some mk"
  shows "mk \<in> set (block_texts_of (rewrite_block f b))"
proof -
  obtain d where d: "b = JDict d" "jget d ''type'' = Some (JStr ''tool_result'')" "i = dict_get_default d ''tool_use_id'' (JStr [])"
    "dict_get_default d ''content'' (JStr []) = JStr s"
    using assms(1) by (auto simp: block_results_def str_of_def split: json.splits if_splits)
  then have "rewrite_block f b = JDict (dict_set ''content'' (JStr mk) d)"
    using assms(2) by (simp add: rewrite_block_def)
  moreover have "jget (dict_set ''content'' (JStr mk) d) ''type'' = Some (JStr ''tool_result'')"
    "dict_get_default (dict_set ''content'' (JStr mk) d) ''content'' (JStr []) = JStr mk"
    using d(2) by (simp_all add: dict_simps dict_get_default_def)
  ultimately show ?thesis by (simp add: block_texts_of_def has_type_def field_of_def str_of_def)
qed

lemma marker_visible:
  assumes "(i, s) \<in> set (result_texts msg)" "f i s = Some mk"
  shows "mk \<in> set (message_texts (rewrite_message f msg))"
proof (cases "dict_get_default msg ''content'' (JStr [])")
  case (JList bs)
  then obtain b where "b \<in> set bs" "(i, s) \<in> set (block_results b)"
    using assms(1) by (auto simp: result_texts_def)
  moreover from this have "mk \<in> set (block_texts_of (rewrite_block f b))"
    using block_marker_visible assms(2) by blast
  ultimately show ?thesis
    using JList by (auto simp: rewrite_message_def message_texts_def dict_get_default_def dict_simps)
qed (use assms in \<open>auto simp: result_texts_def rewrite_message_def message_texts_def str_of_def dict_get_default_def dict_simps split: if_splits\<close>)

lemma lifecycle_marker_is_marker:
  assumes "sha_shape sha"
  shows "\<exists>pre mk post. lifecycle_marker rp c (take 24 (sha x)) = pre @ mk @ post \<and> is_marker mk (take 24 (sha x)) post"
proof -
  have "read_marker (''Retrieve original: hash='' @ take 24 (sha x)) (take 24 (sha x)) '']''"
    using sha_shape_key [OF assms, of x] by (auto simp: read_marker_def is_lower_hex_def list_all_iff)
  then have m: "is_marker (''Retrieve original: hash='' @ take 24 (sha x)) (take 24 (sha x)) '']''"
    by (simp add: is_marker_def)
  have "\<exists>pre. lifecycle_marker rp c (take 24 (sha x)) = pre @ (''Retrieve original: hash='' @ take 24 (sha x)) @ '']''"
    unfolding lifecycle_marker_def Let_def by (simp only: append_assoc [symmetric] split: if_split) blast
  with m show ?thesis by blast
qed

lemma record_lengths:
  "fold (record_one sha rp clk) evs (ts, hs, st) = (ts', hs', st') \<Longrightarrow> length ts' = length ts + length evs"
proof (induction evs arbitrary: ts hs st)
  case (Cons e evs)
  obtain s c where e: "e = (s, c)" by (cases e)
  from Cons.IH [of "ts @ [format_read_lifecycle_transform rp c]" "hs @ [take 24 (sha (utf8_encode s))]"] Cons.prems
  show ?case by (simp add: e)
qed simp

lemma replaced_iff:
  "(s, c) \<in> set (replaced cfg fate results) \<longleftrightarrow>
     (\<exists>i. (i, s) \<in> set results \<and> fate i = Some c \<and> \<not> int (length (utf8_encode s)) < lc_min_size_bytes cfg)"
  by (force simp: replaced_def map_filter_def split: option.splits if_splits)

text \<open>C15: what the lifecycle takes out of the conversation can be fetched back, as long as the store has room for
  this run's replacements and until the entries expire at \<open>t\<close>: for each replaced text the next scan of the
  rewritten conversation detects its hash, and looking that hash up, after any reads of the store,
  returns exactly the text that was replaced. (Replaced texts are assumed not to collide in the 96
  bits of their hashes.)\<close>
theorem replaced_reads_redeemable:
  assumes sh: "sha_shape sha" and en: "lc_enabled cfg" and m: "0 < m"
    and s0: "s0 = ccr_run sha ops (ccr_init m ttl fb mb_init)"
    and run: "apply_read_lifecycle loads sha rp clk cfg messages frozen (Some s0) = Inr (r, st)"
    and md: "build_tool_metadata loads messages = Inr metadata"
    and room: "int (mb_count (cs_backend s0)) + int (length (lr_transforms_applied r)) \<le> m"
    and clk: "\<And>n. n < length (lr_transforms_applied r) \<Longrightarrow> snd (clk n) \<le> t \<and> t \<le> fst (clk n) + of_int (cs_default_ttl s0)"
    and inj: "inj_on (\<lambda>x. take 24 (sha (utf8_encode x))) (set (map snd (concat (map result_texts messages))))"
    and scan: "scan_for_markers (lr_messages r) ci = Inr ci'"
    and reads: "list_all (read_op t) reads" and now': "now' \<le> t"
    and e: "(s, c) \<in> set (replaced cfg (read_fate cfg messages metadata frozen) (concat (map result_texts messages)))"
  shows "take 24 (sha (utf8_encode s)) \<in> set (ti_detected_hashes ci')
    \<and> (\<exists>s1. st = Some s1 \<and> map_option ce_original_content
          (snd (retrieve now' na nl (take 24 (sha (utf8_encode s))) q (ccr_run sha reads s1))) = Some s)"
proof -
  let ?fate = "read_fate cfg messages metadata frozen" and ?h = "take 24 (sha (utf8_encode s))"
  let ?evs = "replaced cfg ?fate (concat (map result_texts messages))"
  obtain lr: "lr_messages r = map (rewrite_message (marker_for sha rp cfg ?fate)) messages"
    and rec: "(lr_transforms_applied r, lr_ccr_hashes r, st) = fold (record_one sha rp clk) ?evs ([], [], Some s0)"
    using apply_read_lifecycle_Inr [OF sh en run] md by (metis sum.inject(2))
  have len: "length (lr_transforms_applied r) = length ?evs"
    using record_lengths [OF rec [symmetric]] by simp
  have texts: "fst ` set ?evs \<subseteq> set (map snd (concat (map result_texts messages)))"
  proof
    fix x assume "x \<in> fst ` set ?evs"
    then obtain c where "(x, c) \<in> set ?evs" by auto
    then obtain i where "(i, x) \<in> set (concat (map result_texts messages))" unfolding replaced_iff by blast
    then have "snd (i, x) \<in> snd ` set (concat (map result_texts messages))" by (rule imageI)
    then show "x \<in> set (map snd (concat (map result_texts messages)))" by (simp only: set_map snd_conv)
  qed
  have ok: "ccr_ok m s0" using ccr_reachable_ok [OF m] s0 by simp
  obtain s1 where st: "st = Some s1" "ccr_ok m s1" "holds_until ?h s t s1"
  proof -
    have "\<exists>ts' hs' s'. fold (record_one sha rp clk) ?evs ([], [], Some s0) = (ts', hs', Some s') \<and> ccr_ok m s'
        \<and> (\<forall>x \<in> set [] \<union> fst ` set ?evs. holds_until (take 24 (sha (utf8_encode x))) x t s')"
    proof (rule record_holds [OF sh _ _ ok m refl])
      show "x = y" if "x \<in> set [] \<union> fst ` set ?evs" "y \<in> set [] \<union> fst ` set ?evs"
        "take 24 (sha (utf8_encode x)) = take 24 (sha (utf8_encode y))" for x y
      proof -
        have "x \<in> fst ` set ?evs" "y \<in> fst ` set ?evs" using that(1,2) by (simp_all only: list.set(1) Un_empty_left)
        from inj_onD [OF inj that(3) subsetD [OF texts this(1)] subsetD [OF texts this(2)]] show ?thesis .
      qed
    qed (use clk room len in simp_all)
    then obtain ts' hs' s' where f: "fold (record_one sha rp clk) ?evs ([], [], Some s0) = (ts', hs', Some s')" "ccr_ok m s'"
      "\<forall>x \<in> set [] \<union> fst ` set ?evs. holds_until (take 24 (sha (utf8_encode x))) x t s'" by blast
    have "s \<in> set [] \<union> fst ` set ?evs" using imageI [OF e, of fst] by (simp only: fst_conv UnI2)
    with f(3) have "holds_until ?h s t s'" by (rule bspec)
    moreover have "st = Some s'" using rec unfolding f(1) by (simp only: prod.inject)
    ultimately show ?thesis using f(2) that by blast
  qed
  have h: "holds_until ?h s t (ccr_run sha reads s1)"
    using holds_until_run [OF st(2) m st(3) reads] .
  have "map_option ce_original_content (snd (retrieve now' na nl ?h q (ccr_run sha reads s1))) = Some s"
    using h now' by (cases rule: retrieve_cases [of "ccr_run sha reads s1" ?h now' na nl q]) (auto simp: holds_until_def not_expired_until)
  moreover have "?h \<in> set (ti_detected_hashes ci')"
  proof -
    obtain i msg where i: "msg \<in> set messages" "(i, s) \<in> set (result_texts msg)" "marker_for sha rp cfg ?fate i s = Some (lifecycle_marker rp c ?h)"
      using e by (auto simp: replaced_iff marker_for_def)
    obtain pre mk post where mk: "lifecycle_marker rp c ?h = pre @ mk @ post" "is_marker mk ?h post"
      using lifecycle_marker_is_marker [OF sh] by blast
    have "pre @ mk @ post \<in> set (message_texts (rewrite_message (marker_for sha rp cfg ?fate) msg))"
      using marker_visible [of i s msg "marker_for sha rp cfg ?fate"] i(2,3) mk(1) by simp
    then show ?thesis
      using marker_detected [OF scan _ _ mk(2)] i(1) lr by auto
  qed
  ultimately show ?thesis using st(1) by blast
qed

section \<open>Witnesses\<close>

theorem well_typed_lifecycle_returns_witness:
  "\<exists>r st. sample_lifecycle 1 = Inr (r, st) \<and> length (lr_messages r) = length sample_conversation"
proof -
  have "list_all (message_typed sample_loads) sample_conversation" by code_simp
  from well_typed_lifecycle_returns [OF this sample_hex_shape] show ?thesis
    by (simp add: sample_lifecycle_def)
qed

definition sample_cfg :: ReadLifecycleConfig where
  "sample_cfg = default_lifecycle_config\<lparr>lc_min_size_bytes := 4\<rparr>"

definition sample_metadata :: "(json, tool_meta) pydict" where
  "sample_metadata =
     [(JStr ''r1'', JStr ''Read'', JStr ''a.py'', JNull, JNull), (JStr ''e1'', JStr ''Edit'', JStr ''a.py'', JNull, JNull)]"

definition sample_stale :: ReadClassification where
  "sample_stale = \<lparr>rc_msg_index = 0, rc_tool_call_id = JStr ''r1'', rc_file_path = JStr ''a.py'', rc_state = STALE, rc_content_size = 0\<rparr>"

lemma sample_facts:
  "build_tool_metadata sample_loads sample_conversation = Inr sample_metadata"
  "replaced sample_cfg (read_fate sample_cfg sample_conversation sample_metadata 0) (concat (map result_texts sample_conversation))
     = [(''import os'', sample_stale)]"
  "map snd (concat (map result_texts sample_conversation)) = [''import os'']"
  "take 24 (sample_hex (utf8_encode ''import os'')) = replicate 24 (CHR ''0'')"
  "\<exists>r st ci. sample_lifecycle 0 = Inr (r, st) \<and> length (lr_transforms_applied r) = 1 \<and> scan_for_markers (lr_messages r) sample_injector = Inr ci"
proof -
  show "build_tool_metadata sample_loads sample_conversation = Inr sample_metadata" by code_simp
  show "replaced sample_cfg (read_fate sample_cfg sample_conversation sample_metadata 0) (concat (map result_texts sample_conversation))
     = [(''import os'', sample_stale)]" by code_simp
  show "map snd (concat (map result_texts sample_conversation)) = [''import os'']" by code_simp
  show "take 24 (sample_hex (utf8_encode ''import os'')) = replicate 24 (CHR ''0'')" by code_simp
  have "case sample_lifecycle 0 of
      Inr (r, st) \<Rightarrow> length (lr_transforms_applied r) = 1 \<and> \<not> isl (scan_for_markers (lr_messages r) sample_injector) | Inl _ \<Rightarrow> False"
    by code_simp
  then show "\<exists>r st ci. sample_lifecycle 0 = Inr (r, st) \<and> length (lr_transforms_applied r) = 1 \<and> scan_for_markers (lr_messages r) sample_injector = Inr ci"
    by (auto split: sum.splits simp: isl_def) (metis sum.exhaust)
qed

theorem replaced_reads_redeemable_witness:
  "\<exists>r s1 ci. sample_lifecycle 0 = Inr (r, Some s1) \<and> scan_for_markers (lr_messages r) sample_injector = Inr ci
     \<and> replicate 24 (CHR ''0'') \<in> set (ti_detected_hashes ci)
     \<and> map_option ce_original_content (snd (retrieve 50 50 50 (replicate 24 (CHR ''0'')) None (ccr_run sample_hex [Stats 40] s1))) = Some ''import os''"
proof -
  obtain r st ci where r: "sample_lifecycle 0 = Inr (r, st)" "length (lr_transforms_applied r) = 1"
    "scan_for_markers (lr_messages r) sample_injector = Inr ci" using sample_facts(5) by blast
  let ?s0 = "ccr_run sample_hex [] (ccr_init 10 60 True mb_init)"
  have run: "apply_read_lifecycle sample_loads sample_hex (\<lambda>_. []) (\<lambda>n. (5, 5)) sample_cfg sample_conversation 0 (Some ?s0) = Inr (r, st)"
    using r(1) by (simp add: sample_lifecycle_def sample_cfg_def ccr_run_def)
  have s0: "int (mb_count (cs_backend ?s0)) = 0" "cs_default_ttl ?s0 = 60"
    by (simp_all add: ccr_run_def ccr_init_def mb_count_def mb_init_def)
  have "take 24 (sample_hex (utf8_encode ''import os'')) \<in> set (ti_detected_hashes ci)
    \<and> (\<exists>s1. st = Some s1 \<and> map_option ce_original_content
          (snd (retrieve 50 50 50 (take 24 (sample_hex (utf8_encode ''import os''))) None (ccr_run sample_hex [Stats 40] s1))) = Some ''import os'')"
    by (rule replaced_reads_redeemable [OF sample_hex_shape _ _ refl run sample_facts(1) _ _ _ r(3), where t = 50 and c = sample_stale])
      (simp_all only: sample_facts(2,3) s0 r(2), simp_all add: sample_cfg_def default_lifecycle_config_def)
  with r show ?thesis unfolding sample_facts(4) by blast
qed

section \<open>Where the code falls short\<close>

definition null_call :: "message" where
  "null_call = [(''role'', JStr ''assistant''), (''tool_calls'', JList [JDict [(''id'', JStr ''t1''),
     (''function'', JDict [(''name'', JStr ''list_files''), (''arguments'', JStr ''null'')])]])]"

text \<open>Arguments that decode to no object raise: the handler around the decoding catches decoding errors and
  \<open>TypeError\<close>, not the \<open>AttributeError\<close> of \<open>args.get\<close>. One call without arguments, of any tool, ends
  the whole pass.\<close>
lemma null_arguments_raise:
  assumes "loads ''null'' = Inr JNull" "lc_enabled cfg"
  shows "apply_read_lifecycle loads sha rp clk cfg [null_call] frozen st = Inl AttributeError"
  using assms by (simp add: apply_read_lifecycle_def build_tool_metadata_def message_calls_def null_call_def is_assistant_def
      dict_get_default_def tool_calls_of_def openai_call_def call_arguments_def Let_def)

text \<open>Offsets given as text are concatenated to the limits instead of added, and mixed with numbers they raise.\<close>
lemma text_offsets:
  "py_add (JStr ''100'') (JStr ''50'') = Inr (JStr ''10050'')"
  "fo_read_offset l = JStr ''100'' \<Longrightarrow> fo_read_limit l = JNull \<Longrightarrow> fo_read_offset e = JInt 1 \<Longrightarrow> read_covers l e = Inl TypeError"
  by (simp_all add: py_add_def read_covers_def py_or_def)

text \<open>The byte counters see OpenAI-style tool messages only: a pass that replaces results in content blocks reports
  no bytes.\<close>
lemma block_bytes_uncounted:
  "case sample_lifecycle 0 of
     Inr (r, st) \<Rightarrow> lr_reads_stale r = 1 \<and> length (lr_ccr_hashes r) = 1 \<and> lr_bytes_before r = 0 \<and> lr_bytes_after r = 0
   | Inl _ \<Rightarrow> False"
  by code_simp

end
