(* ===== verification/Py_IPAddress.thy ===== *)
theory Py_IPAddress
  imports Py_Text "HOL-Library.Word"
begin

unbundle bit_operations_syntax

text \<open>
  The part of Python's \<open>ipaddress\<close> module that the network guards use: textual IPv4 and IPv6
  addresses, networks in CIDR, netmask and hostmask notation with \<open>strict=False\<close>, membership, IPv4-mapped
  addresses and loopback. Addresses are words of 32 and 128 bits. A scope identifier is checked and
  dropped: nothing here looks at it. The two facts the guards rest on are \<open>in_network_prefix\<close>
  (membership is agreement on the leading bits) and \<open>parse_ipv4_quad\<close>.
\<close>

section \<open>Addresses\<close>

datatype ip_address = IPv4Address "32 word" | IPv6Address "128 word"

definition parse_octet :: "string \<Rightarrow> nat option" where
  "parse_octet s =
     (if s = [] \<or> \<not> list_all is_digit s \<or> 3 < length s \<or> (s \<noteq> ''0'' \<and> hd s = CHR ''0'') \<or> 255 < dec_val s
      then None else Some (dec_val s))"

fun all_some :: "'a option list \<Rightarrow> 'a list option" where
  "all_some [] = Some []"
| "all_some (None # xs) = None"
| "all_some (Some x # xs) = map_option (Cons x) (all_some xs)"

definition ipv4_int_from_string :: "string \<Rightarrow> int option" where
  "ipv4_int_from_string s =
     (let octets = split_on (CHR ''.'') s
      in if length octets \<noteq> 4 then None
         else map_option (foldl (\<lambda>a b. 256 * a + int b) 0) (all_some (map parse_octet octets)))"

definition parse_ipv4 :: "string \<Rightarrow> 32 word option" where
  "parse_ipv4 s = map_option of_int (ipv4_int_from_string s)"

definition hex_val :: "char \<Rightarrow> nat option" where
  "hex_val c =
     (let n = code_point c
      in if 48 \<le> n \<and> n \<le> 57 then Some (n - 48)
         else if 97 \<le> n \<and> n \<le> 102 then Some (n - 87)
         else if 65 \<le> n \<and> n \<le> 70 then Some (n - 55) else None)"

definition parse_hextet :: "string \<Rightarrow> int option" where
  "parse_hextet s =
     (if s = [] \<or> 4 < length s then None
      else map_option (foldl (\<lambda>a b. 16 * a + int b) 0) (all_some (map hex_val s)))"

function int_hex :: "int \<Rightarrow> string" where
  "int_hex n = (if n < 16 then [hex_digit (nat n)] else int_hex (n div 16) @ [hex_digit (nat (n mod 16))])"
  by auto
termination
  by (relation "measure nat") auto

declare int_hex.simps [simp del]

text \<open>An IPv4-style suffix becomes two groups; then one \<open>::\<close>, not touching other empty parts, stands for zeroes.\<close>

definition expand_suffix :: "string list \<Rightarrow> string list option" where
  "expand_suffix parts =
     (if CHR ''.'' \<in> set (last parts)
      then map_option (\<lambda>v. butlast parts @ [int_hex (v div 65536), int_hex (v mod 65536)]) (ipv4_int_from_string (last parts))
      else Some parts)"

definition split_groups :: "string list \<Rightarrow> (nat \<times> nat \<times> nat) option" where
  "split_groups parts =
     (case filter (\<lambda>i. parts ! i = []) [1..<length parts - 1] of
        [] \<Rightarrow> if length parts \<noteq> 8 \<or> hd parts = [] \<or> last parts = [] then None else Some (8, 0, 0)
      | [skip_index] \<Rightarrow>
          (let hi = skip_index; lo = length parts - skip_index - 1;
               parts_hi = (if hd parts = [] then hi - 1 else hi); parts_lo = (if last parts = [] then lo - 1 else lo)
           in if hd parts = [] \<and> parts_hi \<noteq> 0 \<or> last parts = [] \<and> parts_lo \<noteq> 0 \<or> 8 \<le> parts_hi + parts_lo then None
              else Some (parts_hi, 8 - (parts_hi + parts_lo), parts_lo))
      | _ \<Rightarrow> None)"

definition ipv6_int_from_string :: "string \<Rightarrow> int option" where
  "ipv6_int_from_string s =
     (let parts = split_on (CHR '':'') s
      in if length parts < 3 then None
         else case expand_suffix parts of
                None \<Rightarrow> None
              | Some parts \<Rightarrow>
                  if 9 < length parts then None
                  else case split_groups parts of
                         None \<Rightarrow> None
                       | Some (parts_hi, parts_skipped, parts_lo) \<Rightarrow>
                           (case (all_some (map parse_hextet (take parts_hi parts)),
                                  all_some (map parse_hextet (drop (length parts - parts_lo) parts))) of
                              (Some hi, Some lo) \<Rightarrow>
                                Some (foldl (\<lambda>a b. 65536 * a + b) (foldl (\<lambda>a b. 65536 * a + b) 0 hi * 65536 ^ parts_skipped) lo)
                            | _ \<Rightarrow> None))"

definition parse_ipv6 :: "string \<Rightarrow> 128 word option" where
  "parse_ipv6 s =
     (if CHR ''/'' \<in> set s then None
      else case split_on (CHR ''%'') s of
             [addr] \<Rightarrow> map_option of_int (ipv6_int_from_string addr)
           | [addr, scope_id] \<Rightarrow> if scope_id = [] then None else map_option of_int (ipv6_int_from_string addr)
           | _ \<Rightarrow> None)"

text \<open>\<open>ipaddress.ip_address\<close>; \<open>None\<close> is its \<open>ValueError\<close>.\<close>

definition ip_address :: "string \<Rightarrow> ip_address option" where
  "ip_address s = (case parse_ipv4 s of Some a \<Rightarrow> Some (IPv4Address a) | None \<Rightarrow> map_option IPv6Address (parse_ipv6 s))"

definition ipv4_mapped :: "128 word \<Rightarrow> 32 word option" where
  "ipv4_mapped a = (if drop_bit 32 a \<noteq> 0xFFFF then None else Some (ucast a))"

section \<open>Networks\<close>

datatype ip_network = IPv4Network "32 word" nat | IPv6Network "128 word" nat

definition netmask :: "nat \<Rightarrow> 'a::len word" where
  "netmask prefixlen = (- 1) XOR drop_bit prefixlen (- 1)"

definition prefix_from_prefix_string :: "nat \<Rightarrow> string \<Rightarrow> nat option" where
  "prefix_from_prefix_string max_prefixlen s =
     (if s = [] \<or> \<not> list_all is_digit s then None
      else case int_of_digits s of
             Inl e \<Rightarrow> None
           | Inr n \<Rightarrow> if n \<le> max_prefixlen then Some n else None)"

definition prefix_from_ip_int :: "32 word \<Rightarrow> nat option" where
  "prefix_from_ip_int w =
     (let trailing_zeroes = length (takeWhile (\<lambda>i. \<not> bit w i) [0..<32]); prefixlen = 32 - trailing_zeroes
      in if drop_bit trailing_zeroes w \<noteq> mask prefixlen then None else Some prefixlen)"

definition prefix_from_ip_string :: "string \<Rightarrow> nat option" where
  "prefix_from_ip_string s =
     (case parse_ipv4 s of
        None \<Rightarrow> None
      | Some w \<Rightarrow> (case prefix_from_ip_int w of Some p \<Rightarrow> Some p | None \<Rightarrow> prefix_from_ip_int (w XOR (- 1))))"

definition ipv4_prefix :: "string \<Rightarrow> nat option" where
  "ipv4_prefix m = (case prefix_from_prefix_string 32 m of Some p \<Rightarrow> Some p | None \<Rightarrow> prefix_from_ip_string m)"

definition make_ipv4_network :: "string \<Rightarrow> nat option \<Rightarrow> ip_network option" where
  "make_ipv4_network addr prefixlen =
     (case (parse_ipv4 addr, prefixlen) of
        (Some a, Some p) \<Rightarrow> Some (IPv4Network (a AND netmask p) p)
      | _ \<Rightarrow> None)"

definition make_ipv6_network :: "string \<Rightarrow> nat option \<Rightarrow> ip_network option" where
  "make_ipv6_network addr prefixlen =
     (case (parse_ipv6 addr, prefixlen) of
        (Some a, Some p) \<Rightarrow> Some (IPv6Network (a AND netmask p) p)
      | _ \<Rightarrow> None)"

text \<open>\<open>ipaddress.ip_network(s, strict=False)\<close>: IPv4 first; an IPv6 mask is a prefix length only.\<close>

definition ip_network :: "string \<Rightarrow> py_error + ip_network" where
  "ip_network s =
     (let (v4, v6) =
        (case split_on (CHR ''/'') s of
           [addr] \<Rightarrow> (make_ipv4_network addr (Some 32), make_ipv6_network addr (Some 128))
         | [addr, m] \<Rightarrow> (make_ipv4_network addr (ipv4_prefix m), make_ipv6_network addr (prefix_from_prefix_string 128 m))
         | _ \<Rightarrow> (None, None))
      in case v4 of
           Some n \<Rightarrow> Inr n
         | None \<Rightarrow> (case v6 of Some n \<Rightarrow> Inr n | None \<Rightarrow> Inl ValueError))"

fun in_network :: "ip_address \<Rightarrow> ip_network \<Rightarrow> bool" where
  "in_network (IPv4Address a) (IPv4Network n p) = (a AND netmask p = n)"
| "in_network (IPv6Address a) (IPv6Network n p) = (a AND netmask p = n)"
| "in_network _ _ = False"

text \<open>\<open>is_loopback\<close>: 127.0.0.0/8, and ::1.\<close>

fun is_loopback :: "ip_address \<Rightarrow> bool" where
  "is_loopback (IPv4Address a) = in_network (IPv4Address a) (IPv4Network 0x7F000000 8)"
| "is_loopback (IPv6Address a) = (a = 1)"

section \<open>Facts\<close>

lemma bit_netmask:
  "bit (netmask p :: 'a::len word) i \<longleftrightarrow> i < LENGTH('a) \<and> LENGTH('a) \<le> i + p"
  by (auto simp: netmask_def bit_not_iff bit_mask_iff)

lemma netmask_prefix:
  fixes a b :: "'a::len word"
  shows "a AND netmask p = b AND netmask p \<longleftrightarrow> drop_bit (LENGTH('a) - p) a = drop_bit (LENGTH('a) - p) b"
proof
  assume l: "a AND netmask p = b AND netmask p"
  show "drop_bit (LENGTH('a) - p) a = drop_bit (LENGTH('a) - p) b"
  proof (rule bit_word_eqI)
    fix n assume "n < LENGTH('a)"
    from l have "bit (a AND netmask p) (LENGTH('a) - p + n) = bit (b AND netmask p) (LENGTH('a) - p + n)" by simp
    then show "bit (drop_bit (LENGTH('a) - p) a) n = bit (drop_bit (LENGTH('a) - p) b) n"
      by (auto simp: bit_and_iff bit_netmask bit_drop_bit_eq dest: bit_imp_le_length)
  qed
next
  assume r: "drop_bit (LENGTH('a) - p) a = drop_bit (LENGTH('a) - p) b"
  show "a AND netmask p = b AND netmask p"
  proof (rule bit_word_eqI)
    fix n assume n: "n < LENGTH('a)"
    from r have "bit (drop_bit (LENGTH('a) - p) a) (n - (LENGTH('a) - p)) = bit (drop_bit (LENGTH('a) - p) b) (n - (LENGTH('a) - p))"
      by simp
    then show "bit (a AND netmask p) n = bit (b AND netmask p) n"
      using n by (auto simp: bit_and_iff bit_netmask bit_drop_bit_eq)
  qed
qed

text \<open>Agreement of two addresses on the leading \<open>p\<close> bits, in one version.\<close>

fun same_prefix :: "nat \<Rightarrow> ip_address \<Rightarrow> ip_address \<Rightarrow> bool" where
  "same_prefix p (IPv4Address a) (IPv4Address b) = (drop_bit (32 - p) a = drop_bit (32 - p) b)"
| "same_prefix p (IPv6Address a) (IPv6Address b) = (drop_bit (128 - p) a = drop_bit (128 - p) b)"
| "same_prefix p _ _ = False"

text \<open>The prefix length of an entry, by the version of its address.\<close>

definition entry_prefix :: "ip_address \<Rightarrow> string list \<Rightarrow> nat option" where
  "entry_prefix a msk =
     (case (a, msk) of
        (IPv4Address _, []) \<Rightarrow> Some 32
      | (IPv6Address _, []) \<Rightarrow> Some 128
      | (IPv4Address _, [m]) \<Rightarrow> ipv4_prefix m
      | (IPv6Address _, [m]) \<Rightarrow> prefix_from_prefix_string 128 m
      | _ \<Rightarrow> None)"

lemma all_some_Some: "all_some xs = Some ys \<Longrightarrow> xs = map Some ys"
  by (induction xs arbitrary: ys rule: all_some.induct) auto

lemma set_join_with: "set (join_with sep ls) \<subseteq> set sep \<union> (\<Union>l \<in> set ls. set l)"
  by (induction sep ls rule: join_with.induct) auto

lemma parse_ipv4_chars:
  assumes "parse_ipv4 s = Some a" "c \<in> set s"
  shows "is_digit c \<or> c = CHR ''.''"
proof -
  obtain ns where ns: "all_some (map parse_octet (split_on (CHR ''.'') s)) = Some ns"
    using assms(1) by (auto simp: parse_ipv4_def ipv4_int_from_string_def Let_def split: if_splits)
  have "list_all is_digit l" if "l \<in> set (split_on (CHR ''.'') s)" for l
  proof -
    from that have "parse_octet l \<in> set (map Some ns)" using all_some_Some [OF ns] by (metis imageI set_map)
    then show ?thesis by (auto simp: parse_octet_def split: if_splits)
  qed
  moreover have "c \<in> set ''.'' \<union> (\<Union>l \<in> set (split_on (CHR ''.'') s). set l)"
    using set_join_with [of "''.''" "split_on (CHR ''.'') s"] assms(2) by auto
  ultimately show ?thesis by (auto simp: list_all_iff)
qed

lemma parse_ipv4_not_ipv6:
  assumes "parse_ipv4 s = Some a" shows "parse_ipv6 s = None"
proof -
  have "c \<notin> set s" if "c \<in> {CHR '':'', CHR ''%''}" for c
    using parse_ipv4_chars [OF assms, of c] that by (auto simp: is_digit_def)
  then have "split_on (CHR ''%'') s = [s]" "split_on (CHR '':'') s = [s]"
    by (simp_all add: split_on_clean)
  then show ?thesis by (simp add: parse_ipv6_def ipv6_int_from_string_def)
qed

lemma in_network_v4: "in_network x (IPv4Network (b AND netmask p) p) \<longleftrightarrow> same_prefix p x (IPv4Address b)"
  using netmask_prefix [where 'a = 32] by (cases x) auto

lemma in_network_v6: "in_network x (IPv6Network (b AND netmask p) p) \<longleftrightarrow> same_prefix p x (IPv6Address b)"
  using netmask_prefix [where 'a = 128] by (cases x) auto

text \<open>What a list entry denotes: address and prefix length.\<close>

definition entry_range :: "string \<Rightarrow> (ip_address \<times> nat) option" where
  "entry_range s =
     (case split_on (CHR ''/'') s of
        [] \<Rightarrow> None
      | addr # m \<Rightarrow> (case ip_address addr of
                       None \<Rightarrow> None
                     | Some b \<Rightarrow> map_option (Pair b) (entry_prefix b m)))"

lemma ip_network_range:
  "ip_network s = Inr net \<longleftrightarrow>
     (\<exists>b p. entry_range s = Some (b, p) \<and>
        net = (case b of IPv4Address a \<Rightarrow> IPv4Network (a AND netmask p) p | IPv6Address a \<Rightarrow> IPv6Network (a AND netmask p) p))"
proof (cases "split_on (CHR ''/'') s" rule: list.exhaust)
  case (Cons addr m)
  show ?thesis
  proof (cases "parse_ipv4 addr")
    case (Some a)
    then show ?thesis
      using parse_ipv4_not_ipv6 [OF Some] Cons
      by (cases m; cases "tl m")
        (auto simp: ip_network_def entry_range_def entry_prefix_def ip_address_def make_ipv4_network_def make_ipv6_network_def
          split: option.splits)
  next
    case None
    then show ?thesis
      using Cons
      by (cases m; cases "tl m"; cases "parse_ipv6 addr")
        (auto simp: ip_network_def entry_range_def entry_prefix_def ip_address_def make_ipv4_network_def make_ipv6_network_def
          split: option.splits)
  qed
qed simp

lemma in_network_prefix:
  assumes "ip_network s = Inr net"
  shows "in_network a net \<longleftrightarrow> (\<exists>b p. entry_range s = Some (b, p) \<and> same_prefix p a b)"
proof -
  obtain b p where "entry_range s = Some (b, p)"
    and "net = (case b of IPv4Address a \<Rightarrow> IPv4Network (a AND netmask p) p | IPv6Address a \<Rightarrow> IPv6Network (a AND netmask p) p)"
    using assms unfolding ip_network_range by blast
  then show ?thesis by (cases b) (simp_all add: in_network_v4 in_network_v6)
qed

text \<open>Printed IPv4 addresses are read back.\<close>

lemma hd_nat_dec: "0 < n \<Longrightarrow> hd (nat_dec n) \<noteq> CHR ''0''"
proof (induction n rule: nat_dec.induct)
  case (1 n)
  show ?case
  proof (cases "n < 10")
    case True
    with 1 have "digit_val (digit_char n) \<noteq> digit_val (CHR ''0'')" by (auto simp: digit_val_def code_point_digit_char)
    then have "digit_char n \<noteq> CHR ''0''" by metis
    then show ?thesis using True by (simp add: nat_dec.simps [of n])
  next
    case False
    with 1 show ?thesis by (simp add: nat_dec.simps [of n])
  qed
qed

lemma parse_octet_nat_dec: "n < 256 \<Longrightarrow> parse_octet (nat_dec n) = Some n"
proof -
  assume n: "n < 256"
  have "length (nat_dec n) \<le> 3" using n by (intro length_nat_dec) simp_all
  moreover have "nat_dec n = ''0'' \<or> hd (nat_dec n) \<noteq> CHR ''0''"
    using hd_nat_dec [of n] by (cases "n = 0") (simp_all add: nat_dec.simps digit_char_def)
  ultimately show ?thesis using n by (auto simp: parse_octet_def)
qed

lemma parse_ipv4_quad:
  assumes "a < 256" "b < 256" "c < 256" "d < 256"
  shows "parse_ipv4 (join_with ''.'' (map nat_dec [a, b, c, d])) = Some (of_nat (((a * 256 + b) * 256 + c) * 256 + d))"
proof -
  have "CHR ''.'' \<notin> set (nat_dec n)" for n
    using nat_dec_digits [of n] by (auto simp: list_all_iff is_digit_def)
  then have "split_on (CHR ''.'') (join_with ''.'' (map nat_dec [a, b, c, d])) = map nat_dec [a, b, c, d]"
    by (intro split_join) auto
  then show ?thesis
    using assms by (simp add: parse_ipv4_def ipv4_int_from_string_def parse_octet_nat_dec ac_simps del: join_with.simps)
qed

end
