(* ===== verification/Network_Guard.thy ===== *)
theory Network_Guard
  imports Py_IPAddress
begin

text \<open>
  Who may speak for whom on the network: \<open>headroom/proxy/forwarded_policy.py\<close> and
  \<open>forwarded_headers.py\<close> (which peers may set \<open>X-Forwarded-*\<close>), \<open>loopback_guard.py\<close> (debug and admin
  routes are for local callers) and \<open>_request_is_loopback\<close> of \<open>server.py\<close>. A request is a record of what the code
  reads of it: the peer's host if any, the headers and the per-request state. The header mapping of
  the web framework is a function from the name asked for to the value; a request without
  headers, or with headers that have no \<open>get\<close>, is possible, as the code provides for both. The
  environment variables are arguments.
\<close>

section \<open>Policy\<close>

record ForwardedHeaderInputs =
  fi_peer_host :: string
  fi_forwarded_for :: string
  fi_forwarded_proto :: string
  fi_forwarded_host :: string

definition has_forwarded_headers :: "ForwardedHeaderInputs \<Rightarrow> bool" where
  "has_forwarded_headers i = (fi_forwarded_for i \<noteq> [] \<or> fi_forwarded_proto i \<noteq> [] \<or> fi_forwarded_host i \<noteq> [])"

type_synonym forwarded = "(string, string) pydict"

record ForwardedHeaderResolution =
  fr_client_ip :: string
  fr_forwarded :: forwarded
  fr_trusted :: bool
  fr_rejected :: bool

fun parse_entries :: "string list \<Rightarrow> py_error + ip_network list" where
  "parse_entries [] = Inr []"
| "parse_entries (chunk # chunks) =
     (let entry = strip chunk
      in if entry = [] then parse_entries chunks
         else and_then (ip_network entry) (\<lambda>net. and_then (parse_entries chunks) (\<lambda>nets. Inr (net # nets))))"

definition parse_cidr_list :: "string \<Rightarrow> py_error + ip_network list" where
  "parse_cidr_list raw = (if strip raw = [] then Inr [] else parse_entries (split_on (CHR '','') raw))"

definition normalize_ip :: "string \<Rightarrow> ip_address option" where
  "normalize_ip host =
     (case ip_address host of
        None \<Rightarrow> None
      | Some (IPv6Address a) \<Rightarrow> (case ipv4_mapped a of Some b \<Rightarrow> Some (IPv4Address b) | None \<Rightarrow> Some (IPv6Address a))
      | Some addr \<Rightarrow> Some addr)"

fun same_version :: "ip_address \<Rightarrow> ip_network \<Rightarrow> bool" where
  "same_version (IPv4Address a) (IPv6Network n p) = False"
| "same_version (IPv6Address a) (IPv4Network n p) = False"
| "same_version _ _ = True"

definition peer_is_trusted_gateway :: "string option \<Rightarrow> ip_network list \<Rightarrow> bool" where
  "peer_is_trusted_gateway peer_host cidrs =
     (case peer_host of
        None \<Rightarrow> False
      | Some host \<Rightarrow>
          if cidrs = [] then False
          else case normalize_ip host of
                 None \<Rightarrow> False
               | Some addr \<Rightarrow> list_ex (\<lambda>net. same_version addr net \<and> in_network addr net) cidrs)"

definition header_first :: "string \<Rightarrow> string" where
  "header_first value = strip (takeWhile (\<lambda>c. c \<noteq> CHR '','') value)"

definition no_forwarded :: forwarded where
  "no_forwarded = [(''for'', []), (''proto'', []), (''host'', [])]"

text \<open>\<open>s or None\<close>.\<close>

definition str_or_none :: "string \<Rightarrow> string option" where
  "str_or_none s = (if s = [] then None else Some s)"

definition resolve_forwarded_headers :: "ForwardedHeaderInputs \<Rightarrow> ip_network list \<Rightarrow> ForwardedHeaderResolution" where
  "resolve_forwarded_headers inputs cidrs =
     (if peer_is_trusted_gateway (str_or_none (fi_peer_host inputs)) cidrs
      then let forwarded_for = header_first (fi_forwarded_for inputs)
           in \<lparr>fr_client_ip = (if forwarded_for \<noteq> [] then forwarded_for else fi_peer_host inputs),
               fr_forwarded = [(''for'', forwarded_for), (''proto'', strip (fi_forwarded_proto inputs)),
                               (''host'', strip (fi_forwarded_host inputs))],
               fr_trusted = True, fr_rejected = False\<rparr>
      else \<lparr>fr_client_ip = fi_peer_host inputs, fr_forwarded = no_forwarded, fr_trusted = False,
            fr_rejected = has_forwarded_headers inputs\<rparr>)"

section \<open>Requests\<close>

datatype header_value = HStr string | HBytes string

datatype http_headers = NoHeaders | NoGet | Headers "string \<Rightarrow> header_value option"

text \<open>The \<open>state\<close> of a request: absent, or with the two cached attributes; some stand-ins cannot be written.\<close>

record request_state =
  rs_client_ip :: "string option"
  rs_forwarded :: "forwarded option"
  rs_writable :: bool

record http_request =
  rq_client_host :: "string option"
  rq_headers :: http_headers
  rq_state :: "request_state option"

definition peer_host :: "http_request \<Rightarrow> string option" where
  "peer_host rq = rq_client_host rq"

definition read_header :: "http_request \<Rightarrow> string \<Rightarrow> string" where
  "read_header rq name =
     (case rq_headers rq of
        NoHeaders \<Rightarrow> []
      | NoGet \<Rightarrow> []
      | Headers get \<Rightarrow> (case get name of None \<Rightarrow> [] | Some (HBytes b) \<Rightarrow> b | Some (HStr s) \<Rightarrow> s))"

text \<open>\<open>os.environ.get(NAME, "")\<close> unless the caller passes the text.\<close>

definition load_trusted_gateway_cidrs :: "string option \<Rightarrow> string option \<Rightarrow> py_error + ip_network list" where
  "load_trusted_gateway_cidrs env raw =
     parse_cidr_list (case raw of Some r \<Rightarrow> r | None \<Rightarrow> (case env of Some e \<Rightarrow> e | None \<Rightarrow> []))"

text \<open>The \<open>ValueError\<close> is raised again with the variable's name in its text.\<close>

definition load_trusted_dashboard_client_cidrs :: "string option \<Rightarrow> string option \<Rightarrow> py_error + ip_network list" where
  "load_trusted_dashboard_client_cidrs env raw =
     parse_cidr_list (case raw of Some r \<Rightarrow> r | None \<Rightarrow> (case env of Some e \<Rightarrow> e | None \<Rightarrow> []))"

text \<open>The warning \<open>forwarded_headers_rejected\<close>: peer, for, proto, host.\<close>

type_synonym rejection = "string \<times> string \<times> string \<times> string"

definition emit_rejection_event :: "string option \<Rightarrow> string \<Rightarrow> string \<Rightarrow> string \<Rightarrow> rejection" where
  "emit_rejection_event peer fwd_for fwd_proto fwd_host =
     (case peer of None \<Rightarrow> [] | Some p \<Rightarrow> p, fwd_for, fwd_proto, fwd_host)"

definition forwarded_inputs :: "http_request \<Rightarrow> ForwardedHeaderInputs" where
  "forwarded_inputs rq =
     \<lparr>fi_peer_host = (case peer_host rq of None \<Rightarrow> [] | Some h \<Rightarrow> h),
      fi_forwarded_for = read_header rq ''x-forwarded-for'', fi_forwarded_proto = read_header rq ''x-forwarded-proto'',
      fi_forwarded_host = read_header rq ''x-forwarded-host''\<rparr>"

definition cached :: "http_request \<Rightarrow> (string \<times> forwarded) option" where
  "cached rq =
     (case rq_state rq of
        None \<Rightarrow> None
      | Some st \<Rightarrow> (case (rs_client_ip st, rs_forwarded st) of (Some ip, Some fwd) \<Rightarrow> Some (ip, fwd) | _ \<Rightarrow> None))"

definition resolve_request ::
  "string option \<Rightarrow> http_request \<Rightarrow> py_error + (string \<times> forwarded) \<times> http_request \<times> rejection list" where
  "resolve_request env rq =
     (case cached rq of
        Some r \<Rightarrow> Inr (r, rq, [])
      | None \<Rightarrow>
          (let inputs = forwarded_inputs rq
           in and_then (load_trusted_gateway_cidrs env None) (\<lambda>cidrs.
                let resolution = resolve_forwarded_headers inputs cidrs;
                    events = (if fr_rejected resolution
                              then [emit_rejection_event (str_or_none (fi_peer_host inputs)) (fi_forwarded_for inputs)
                                      (fi_forwarded_proto inputs) (fi_forwarded_host inputs)] else []);
                    state = map_option (\<lambda>st. if rs_writable st
                              then st\<lparr>rs_client_ip := Some (fr_client_ip resolution), rs_forwarded := Some (fr_forwarded resolution)\<rparr>
                              else st) (rq_state rq)
                in Inr ((fr_client_ip resolution, fr_forwarded resolution), rq\<lparr>rq_state := state\<rparr>, events))))"

definition resolve_client_ip :: "string option \<Rightarrow> http_request \<Rightarrow> py_error + string \<times> http_request \<times> rejection list" where
  "resolve_client_ip env rq = and_then (resolve_request env rq) (\<lambda>((ip, fwd), rq', ev). Inr (ip, rq', ev))"

definition trusted_forwarded_headers :: "string option \<Rightarrow> http_request \<Rightarrow> py_error + forwarded \<times> http_request \<times> rejection list" where
  "trusted_forwarded_headers env rq = and_then (resolve_request env rq) (\<lambda>((ip, fwd), rq', ev). Inr (fwd, rq', ev))"

section \<open>Loopback\<close>

definition is_loopback_host :: "string option \<Rightarrow> bool" where
  "is_loopback_host host =
     (case host of
        None \<Rightarrow> True
      | Some h \<Rightarrow>
          if str_lower h = ''localhost'' then True
          else case ip_address h of
                 None \<Rightarrow> False
               | Some (IPv6Address a) \<Rightarrow>
                   (case ipv4_mapped a of Some b \<Rightarrow> is_loopback (IPv4Address b) | None \<Rightarrow> is_loopback (IPv6Address a))
               | Some addr \<Rightarrow> is_loopback addr)"

text \<open>\<open>s.find("]")\<close> and \<open>s[1:closing]\<close>; \<open>s.rsplit(":", 1)\<close> on a text with one colon.\<close>

definition bracket_part :: "string \<Rightarrow> string option" where
  "bracket_part candidate = (if CHR '']'' \<notin> set candidate then None else Some (drop 1 (takeWhile (\<lambda>c. c \<noteq> CHR '']'') candidate)))"

definition before_colon :: "string \<Rightarrow> string" where
  "before_colon s = takeWhile (\<lambda>c. c \<noteq> CHR '':'') s"

definition after_colon :: "string \<Rightarrow> string" where
  "after_colon s = drop 1 (dropWhile (\<lambda>c. c \<noteq> CHR '':'') s)"

definition is_loopback_host_header :: "string option \<Rightarrow> bool" where
  "is_loopback_host_header header_value =
     (case header_value of
        None \<Rightarrow> False
      | Some v \<Rightarrow>
          (let candidate = strip v
           in if candidate = [] then False
              else if startswith candidate ''['' then
                (case bracket_part candidate of None \<Rightarrow> False | Some host_part \<Rightarrow> is_loopback_host (Some host_part))
              else if count_list candidate (CHR '':'') = 1 then is_loopback_host (Some (before_colon candidate))
              else is_loopback_host (Some candidate)))"

text \<open>\<open>str.isdigit()\<close>: also the superscript digits.\<close>

definition str_isdigit :: "string \<Rightarrow> bool" where
  "str_isdigit s = (s \<noteq> [] \<and> list_all (\<lambda>c. is_digit c \<or> code_point c \<in> {178, 179, 185}) s)"

definition is_ip_literal_host_header :: "string option \<Rightarrow> bool" where
  "is_ip_literal_host_header header_value =
     (case header_value of
        None \<Rightarrow> False
      | Some v \<Rightarrow>
          (let candidate = strip v
           in if candidate = [] \<or> CHR ''/'' \<in> set candidate \<or> CHR ''@'' \<in> set candidate then False
              else if startswith candidate ''['' then
                (if CHR '']'' \<notin> set candidate \<or> count_list candidate (CHR ''['') \<noteq> 1 \<or> count_list candidate (CHR '']'') \<noteq> 1 then False
                 else
                   let host_part = drop 1 (takeWhile (\<lambda>c. c \<noteq> CHR '']'') candidate);
                       suffix = drop 1 (dropWhile (\<lambda>c. c \<noteq> CHR '']'') candidate)
                   in if suffix \<noteq> [] \<and> (\<not> startswith suffix '':'' \<or> \<not> str_isdigit (drop 1 suffix)) then False
                      else case ip_address host_part of Some (IPv6Address a) \<Rightarrow> True | _ \<Rightarrow> False)
              else if count_list candidate (CHR '':'') = 1 \<and> \<not> str_isdigit (after_colon candidate) then False
              else
                let host_part = (if count_list candidate (CHR '':'') = 1 then before_colon candidate else candidate)
                in case ip_address host_part of Some (IPv4Address a) \<Rightarrow> True | _ \<Rightarrow> False))"

text \<open>A guard passes or raises an HTTP error with a status. It takes the \<open>Host\<close> and \<open>Origin\<close> values as the
  texts that the framework decodes header bytes to.\<close>

definition header_text :: "http_headers \<Rightarrow> string \<Rightarrow> string option" where
  "header_text h name =
     (case h of
        Headers get \<Rightarrow> (case get name of Some (HStr s) \<Rightarrow> Some s | Some (HBytes s) \<Rightarrow> Some s | None \<Rightarrow> None)
      | _ \<Rightarrow> None)"

definition require_loopback :: "http_request \<Rightarrow> nat + unit" where
  "require_loopback rq =
     (if \<not> is_loopback_host (peer_host rq) then Inl 404
      else case rq_headers rq of
             NoHeaders \<Rightarrow> Inr ()
           | h \<Rightarrow> if \<not> is_loopback_host_header (header_text h ''host'') then Inl 404 else Inr ())"

text \<open>\<open>origin.split("://", 1)[-1]\<close>: what follows the first separator, or everything.\<close>

fun after_scheme :: "string \<Rightarrow> string option" where
  "after_scheme [] = None"
| "after_scheme (c # s) = (case after ''://'' (c # s) of Some r \<Rightarrow> Some r | None \<Rightarrow> after_scheme s)"

definition origin_host :: "string \<Rightarrow> string" where
  "origin_host origin =
     takeWhile (\<lambda>c. c \<noteq> CHR ''/'') (case after_scheme origin of Some r \<Rightarrow> r | None \<Rightarrow> origin)"

text \<open>Headers without \<open>get\<close> raise here, where \<open>require_loopback\<close> catches.\<close>

datatype guard_error = HTTPException nat | Raised py_error

definition require_same_origin :: "http_request \<Rightarrow> guard_error + unit" where
  "require_same_origin rq =
     (case rq_headers rq of
        NoGet \<Rightarrow> Inl (Raised AttributeError)
      | h \<Rightarrow>
          (case header_text h ''origin'' of
             None \<Rightarrow> Inr ()
           | Some origin \<Rightarrow>
               if origin = [] then Inr ()
               else if origin = ''null'' then Inl (HTTPException 403)
               else if \<not> is_loopback_host_header (Some (origin_host origin)) then Inl (HTTPException 403)
               else Inr ()))"

definition request_is_loopback :: "string option \<Rightarrow> http_request \<Rightarrow> py_error + bool" where
  "request_is_loopback env rq =
     (if \<not> is_loopback_host_header (header_text (rq_headers rq) ''host'') then Inr False
      else if is_loopback_host (peer_host rq) then Inr True
      else and_then (load_trusted_gateway_cidrs env None) (\<lambda>cidrs. Inr (peer_is_trusted_gateway (peer_host rq) cidrs)))"

section \<open>Trusted gateways\<close>

text \<open>The entries of a list, and what it means that they cover an address.\<close>

definition list_entries :: "string \<Rightarrow> string list" where
  "list_entries raw = filter (\<lambda>e. e \<noteq> []) (map strip (split_on (CHR '','') raw))"

definition covered_by :: "string \<Rightarrow> string \<Rightarrow> bool" where
  "covered_by raw host \<longleftrightarrow>
     (\<exists>e a b p. e \<in> set (list_entries raw) \<and> normalize_ip host = Some a \<and> entry_range e = Some (b, p) \<and> same_prefix p a b)"

lemma strip_Nil_iff: "strip s = [] \<longleftrightarrow> list_all is_space s"
proof -
  let ?d = "dropWhile is_space s"
  have "strip s = [] \<longleftrightarrow> (\<forall>c \<in> set ?d. is_space c)"
    by (simp add: strip_def rstrip_def lstrip_def)
  also have "\<dots> \<longleftrightarrow> ?d = []"
    using hd_dropWhile [of is_space s] hd_in_set [of ?d] by (metis empty_iff list.set(1))
  also have "\<dots> \<longleftrightarrow> list_all is_space s"
    by (simp add: list_all_iff)
  finally show ?thesis .
qed

lemma list_entries_blank: "strip raw = [] \<Longrightarrow> list_entries raw = []"
proof -
  assume blank: "strip raw = []"
  then have "CHR '','' \<notin> set raw"
    by (auto simp: strip_Nil_iff list_all_iff is_space_def)
  with blank show ?thesis by (simp add: list_entries_def split_on_clean)
qed

lemma parse_entries_Inr:
  "parse_entries chunks = Inr nets \<Longrightarrow> list_all2 (\<lambda>e n. ip_network e = Inr n) (filter (\<lambda>e. e \<noteq> []) (map strip chunks)) nets"
  by (induction chunks arbitrary: nets) (auto simp: Let_def and_then_Inr_iff split: if_splits)

lemma parse_entries_Inl:
  "parse_entries chunks = Inl err \<Longrightarrow> err = ValueError \<and> (\<exists>e \<in> set (filter (\<lambda>e. e \<noteq> []) (map strip chunks)). ip_network e = Inl ValueError)"
proof (induction chunks)
  case (Cons c chunks)
  have only: "e = ValueError" if "ip_network s = Inl e" for s e
    using that by (auto simp: ip_network_def Let_def split: prod.splits option.splits)
  show ?case
  proof (cases "strip c = [] \<or> isl (ip_network (strip c))")
    case True
    then show ?thesis using Cons only [of "strip c"] by (auto simp: Let_def isl_def)
  next
    case False
    then obtain net where "ip_network (strip c) = Inr net" by (cases "ip_network (strip c)") auto
    with False Cons show ?thesis by (cases "parse_entries chunks") (auto simp: Let_def)
  qed
qed simp

lemma ip_network_malformed: "ip_network s = Inl ValueError \<longleftrightarrow> entry_range s = None"
proof (cases "ip_network s")
  case (Inl e)
  have "entry_range s = None"
  proof (rule ccontr)
    assume "entry_range s \<noteq> None"
    then obtain b p where "entry_range s = Some (b, p)" by auto
    then have "\<exists>net. ip_network s = Inr net" unfolding ip_network_range by blast
    with Inl show False by simp
  qed
  moreover have "e = ValueError"
    using Inl by (auto simp: ip_network_def Let_def split: prod.splits option.splits)
  ultimately show ?thesis using Inl by simp
next
  case (Inr net)
  then show ?thesis using ip_network_range [of s net] by auto
qed

lemma list_all2_in: "list_all2 P xs ys \<Longrightarrow> x \<in> set xs \<Longrightarrow> \<exists>y \<in> set ys. P x y"
  by (induction rule: list_all2_induct) auto

lemma parse_cidr_list_Inr:
  assumes "parse_cidr_list raw = Inr nets"
  shows "list_all2 (\<lambda>e n. ip_network e = Inr n) (list_entries raw) nets"
  using assms parse_entries_Inr [of "split_on (CHR '','') raw" nets] list_entries_blank [of raw]
  by (auto simp: parse_cidr_list_def list_entries_def split: if_splits)

lemma parse_cidr_list_Inl:
  "parse_cidr_list raw = Inl err \<longleftrightarrow> err = ValueError \<and> (\<exists>e \<in> set (list_entries raw). entry_range e = None)"
proof
  assume "parse_cidr_list raw = Inl err"
  then have "parse_entries (split_on (CHR '','') raw) = Inl err" by (simp add: parse_cidr_list_def split: if_splits)
  from parse_entries_Inl [OF this] show "err = ValueError \<and> (\<exists>e \<in> set (list_entries raw). entry_range e = None)"
    unfolding list_entries_def using ip_network_malformed by blast
next
  assume r: "err = ValueError \<and> (\<exists>e \<in> set (list_entries raw). entry_range e = None)"
  then obtain e where e: "e \<in> set (list_entries raw)" "ip_network e = Inl ValueError"
    using ip_network_malformed by blast
  show "parse_cidr_list raw = Inl err"
  proof (cases "parse_cidr_list raw")
    case (Inl err')
    then have "parse_entries (split_on (CHR '','') raw) = Inl err'" by (simp add: parse_cidr_list_def split: if_splits)
    with parse_entries_Inl r Inl show ?thesis by blast
  next
    case (Inr nets)
    from list_all2_in [OF parse_cidr_list_Inr [OF this] e(1)] e(2) show ?thesis by auto
  qed
qed

lemma trusted_iff_covered:
  assumes "parse_cidr_list raw = Inr nets"
  shows "peer_is_trusted_gateway (str_or_none host) nets \<longleftrightarrow> covered_by raw host"
proof -
  note nets = parse_cidr_list_Inr [OF assms]
  have empty: "normalize_ip [] = None" by code_simp
  have version: "in_network a n \<Longrightarrow> same_version a n" for a n by (cases a; cases n) auto
  have "(\<exists>n \<in> set nets. in_network a n) \<longleftrightarrow> (\<exists>e \<in> set (list_entries raw). \<exists>b p. entry_range e = Some (b, p) \<and> same_prefix p a b)" for a
    using nets
  proof (induction rule: list_all2_induct)
    case (Cons e es n ns)
    then show ?case using in_network_prefix [of e n a] by auto
  qed simp
  then have "(\<exists>n \<in> set nets. same_version a n \<and> in_network a n)
      \<longleftrightarrow> (\<exists>e \<in> set (list_entries raw). \<exists>b p. entry_range e = Some (b, p) \<and> same_prefix p a b)" for a
    using version by blast
  moreover have "peer_is_trusted_gateway (str_or_none host) nets
      \<longleftrightarrow> (\<exists>a. normalize_ip host = Some a \<and> (\<exists>n \<in> set nets. same_version a n \<and> in_network a n))"
    using empty by (auto simp: peer_is_trusted_gateway_def str_or_none_def list_ex_iff split: option.splits)
  ultimately show ?thesis unfolding covered_by_def by blast
qed

lemma load_gateway: "load_trusted_gateway_cidrs (Some raw) None = parse_cidr_list raw"
  by (simp add: load_trusted_gateway_cidrs_def)

text \<open>C17: forwarded headers count only from a trusted gateway. On the first resolution of a request, whose peer is
  \<open>peer\<close>, under an allow-list \<open>raw\<close>: if an entry does not denote a range, \<open>ValueError\<close> is raised. Otherwise, when the peer's address, with
  IPv4-mapped addresses taken as IPv4, shares the prefix of some entry, the client address is the
  first element of X-Forwarded-For (the peer if that is empty) and nothing is reported. When it does
  not, the client address is the peer, every forwarded value is empty whatever the headers say, and a
  rejection is reported exactly if a header was sent.\<close>
theorem forwarded_trust_exact:
  assumes "cached rq = None" and peer: "rq_client_host rq = Some peer"
  shows "resolve_request (Some raw) rq =
    (if \<exists>e \<in> set (list_entries raw). entry_range e = None then Inl ValueError
     else
       let ff = read_header rq ''x-forwarded-for''; fp = read_header rq ''x-forwarded-proto''; fh = read_header rq ''x-forwarded-host'';
           ip = (if covered_by raw peer \<and> header_first ff \<noteq> [] then header_first ff else peer);
           fwd = (if covered_by raw peer then [(''for'', header_first ff), (''proto'', strip fp), (''host'', strip fh)] else no_forwarded);
           events = (if \<not> covered_by raw peer \<and> \<not> (ff = [] \<and> fp = [] \<and> fh = []) then [(peer, ff, fp, fh)] else [])
       in Inr ((ip, fwd),
            rq\<lparr>rq_state := map_option (\<lambda>st. if rs_writable st then st\<lparr>rs_client_ip := Some ip, rs_forwarded := Some fwd\<rparr> else st) (rq_state rq)\<rparr>,
            events))"
proof (cases "parse_cidr_list raw")
  case (Inl e)
  then show ?thesis
    using assms parse_cidr_list_Inl [of raw e] by (simp add: resolve_request_def load_gateway Let_def)
next
  case (Inr nets)
  have none: "\<not> (\<exists>e \<in> set (list_entries raw). entry_range e = None)"
    using parse_cidr_list_Inl [of raw ValueError] Inr by auto
  have pr: "emit_rejection_event (str_or_none peer) a b c = (peer, a, b, c)" for a b c
    by (simp add: emit_rejection_event_def str_or_none_def)
  show ?thesis
    using assms none trusted_iff_covered [OF Inr, of peer]
    by (simp add: resolve_request_def load_gateway Inr resolve_forwarded_headers_def forwarded_inputs_def peer_host_def pr
        has_forwarded_headers_def Let_def cong: if_cong)
qed

definition sample_request :: http_request where
  "sample_request =
     \<lparr>rq_client_host = Some ''10.1.2.3'',
      rq_headers = Headers (\<lambda>k. if k = ''x-forwarded-for'' then Some (HStr ''7.7.7.7, 10.1.2.3'') else None),
      rq_state = None\<rparr>"

lemma sample_ranges:
  "list_entries ''10.0.0.0/8'' = [''10.0.0.0/8'']" "entry_range ''10.0.0.0/8'' = Some (IPv4Address 0x0A000000, 8)"
  "normalize_ip ''10.1.2.3'' = Some (IPv4Address 0x0A010203)" "same_prefix 8 (IPv4Address 0x0A010203) (IPv4Address 0x0A000000)"
  by code_simp+

theorem forwarded_trust_exact_witness:
  "resolve_request (Some ''10.0.0.0/8'') sample_request =
     Inr ((''7.7.7.7'', [(''for'', ''7.7.7.7''), (''proto'', []), (''host'', [])]), sample_request, [])"
proof -
  have "covered_by ''10.0.0.0/8'' ''10.1.2.3''" using sample_ranges by (auto simp: covered_by_def)
  moreover have "read_header sample_request ''x-forwarded-for'' = ''7.7.7.7, 10.1.2.3''" "header_first ''7.7.7.7, 10.1.2.3'' = ''7.7.7.7''"
    "read_header sample_request ''x-forwarded-proto'' = []" "read_header sample_request ''x-forwarded-host'' = []" "strip [] = []"
    by (code_simp | simp add: sample_request_def read_header_def)+
  moreover have "cached sample_request = None" "rq_client_host sample_request = Some ''10.1.2.3''"
    "rq_state sample_request = None" "sample_request\<lparr>rq_state := None\<rparr> = sample_request"
    by (simp_all add: sample_request_def cached_def)
  ultimately show ?thesis
    using forwarded_trust_exact [of sample_request "''10.1.2.3''" "''10.0.0.0/8''"] sample_ranges by (simp add: Let_def)
qed

text \<open>A request that keeps state is resolved once: later calls repeat the answer, whatever the
  environment has become, and report nothing.\<close>
lemma resolution_is_sticky:
  assumes "resolve_request env rq = Inr (r, rq', ev)" "rq_state rq = Some st" "rs_writable st"
  shows "resolve_request env' rq' = Inr (r, rq', [])"
proof (cases "cached rq")
  case None
  with assms have "cached rq' = Some r"
    by (auto simp: resolve_request_def and_then_Inr_iff Let_def cached_def)
  then show ?thesis by (simp add: resolve_request_def)
next
  case (Some c)
  with assms show ?thesis by (simp add: resolve_request_def)
qed

section \<open>The loopback guard\<close>

text \<open>The texts that name the local machine.\<close>

definition names_loopback :: "string \<Rightarrow> bool" where
  "names_loopback h \<longleftrightarrow> str_lower h = ''localhost'' \<or>
     (case ip_address h of
        Some (IPv4Address a) \<Rightarrow> drop_bit 24 a = 127
      | Some (IPv6Address a) \<Rightarrow> a = 1 \<or> drop_bit 32 a = 0xFFFF \<and> drop_bit 24 (ucast a :: 32 word) = 127
      | None \<Rightarrow> False)"

text \<open>The forms of a \<open>Host\<close> header: a name, or an IPv6 literal in brackets, with or without a port.\<close>

definition host_text :: "bool \<Rightarrow> string \<Rightarrow> nat option \<Rightarrow> string" where
  "host_text bracketed name port =
     (if bracketed then ''['' @ name @ '']'' else name) @ (case port of None \<Rightarrow> [] | Some n \<Rightarrow> CHR '':'' # nat_dec n)"

definition host_ok :: "bool \<Rightarrow> string \<Rightarrow> bool" where
  "host_ok bracketed name \<longleftrightarrow> name \<noteq> [] \<and> list_all (\<lambda>c. \<not> is_space c) name \<and>
     (if bracketed then CHR '']'' \<notin> set name else CHR '':'' \<notin> set name \<and> hd name \<noteq> CHR ''['')"

lemma loopback_v4: "is_loopback (IPv4Address a) \<longleftrightarrow> drop_bit 24 a = 127"
proof -
  have m: "(0x7F000000 :: 32 word) = 0x7F000000 AND netmask 8" "drop_bit 24 (0x7F000000 :: 32 word) = 127"
    by code_simp+
  have "is_loopback (IPv4Address a) \<longleftrightarrow> a AND netmask 8 = 0x7F000000 AND netmask 8"
    using m(1) by simp
  then show ?thesis using netmask_prefix [of a 8 "0x7F000000"] m(2) by simp
qed

lemma is_loopback_host_iff: "is_loopback_host (Some h) \<longleftrightarrow> names_loopback h"
proof -
  have one: "ipv4_mapped (1 :: 128 word) = None" by code_simp
  show ?thesis
    using one
    by (auto simp: is_loopback_host_def names_loopback_def loopback_v4 ipv4_mapped_def simp del: is_loopback.simps(1)
        split: option.splits ip_address.splits)
qed

lemma strip_clean:
  assumes "s \<noteq> []" "\<not> is_space (hd s)" "\<not> is_space (last s)"
  shows "strip s = s"
proof -
  have "dropWhile is_space s = s" using assms by (cases s) auto
  moreover have "dropWhile is_space (rev s) = rev s" using assms by (cases s rule: rev_cases) auto
  ultimately show ?thesis by (simp add: strip_def lstrip_def rstrip_def)
qed

lemma digit_no_space: "is_digit c \<Longrightarrow> \<not> is_space c"
  by (auto simp: is_digit_def is_space_def)

lemma host_text_strip:
  assumes "host_ok b name"
  shows "strip (host_text b name port) = host_text b name port"
proof (rule strip_clean)
  have sp: "\<not> is_space (CHR ''['')" "\<not> is_space (CHR '']'')" by code_simp+
  have name: "name \<noteq> []" "\<not> is_space (hd name)" "\<not> is_space (last name)"
    using assms by (auto simp: host_ok_def list_all_iff)
  have dig: "\<not> is_space (last (nat_dec n))" for n
    using nat_dec_digits [of n] nat_dec_nonempty [of n] digit_no_space by (auto simp: list_all_iff)
  show "host_text b name port \<noteq> []" using name by (auto simp: host_text_def)
  show "\<not> is_space (hd (host_text b name port))" using name sp by (auto simp: host_text_def)
  show "\<not> is_space (last (host_text b name port))"
    using name sp dig by (auto simp: host_text_def split: option.splits)
qed

lemma host_header_iff:
  assumes "host_ok b name"
  shows "is_loopback_host_header (Some (host_text b name port)) \<longleftrightarrow> names_loopback name"
proof -
  have ne: "host_text b name port \<noteq> []" using assms by (auto simp: host_ok_def host_text_def)
  have nocolon: "CHR '':'' \<notin> set (nat_dec n)" for n
    using nat_dec_digits [of n] by (auto simp: list_all_iff is_digit_def)
  have cnt: "c \<notin> set xs \<Longrightarrow> count_list xs c = 0" for c and xs :: string by (simp add: count_list_0_iff)
  show ?thesis
  proof (cases b)
    case True
    let ?s = "host_text b name port"
    have "takeWhile (\<lambda>c. c \<noteq> CHR '']'') ?s = CHR ''['' # name"
      using True assms by (auto simp: host_text_def host_ok_def takeWhile_append)
    then have "bracket_part ?s = Some name" using True by (simp add: bracket_part_def host_text_def)
    moreover have "startswith ?s ''[''" using True by (simp add: host_text_def startswith_def)
    ultimately show ?thesis
      using ne host_text_strip [OF assms, of port]
      by (simp add: is_loopback_host_header_def Let_def is_loopback_host_iff)
  next
    case False
    let ?s = "host_text b name port"
    have ns: "\<not> startswith ?s ''[''" using False assms by (cases name) (auto simp: host_text_def startswith_def host_ok_def)
    have "(if count_list ?s (CHR '':'') = 1 then before_colon ?s else ?s) = name"
      using False assms nocolon
      by (auto simp: host_text_def host_ok_def before_colon_def cnt takeWhile_append split: option.splits)
    with ns ne show ?thesis
      using host_text_strip [OF assms, of port]
      by (simp add: is_loopback_host_header_def Let_def is_loopback_host_iff split: if_splits)
  qed
qed

text \<open>C18: the debug and admin routes answer local callers only. For a request with a peer address and a
  \<open>Host\<close> header of a usual form, the guard passes exactly if both the peer and the host named in the header are the
  local machine: \<open>localhost\<close> in any case, an address in 127.0.0.0/8, \<open>::1\<close>, or a mapped form of
  one of those. Anything else, so any other host name resolved to the loopback address by a hostile name server, is
  answered 404.\<close>
theorem loopback_guard_exact:
  assumes "rq_client_host rq = Some peer" and "rq_headers rq = Headers get"
    and "get ''host'' = Some (HStr (host_text bracketed name port))" and "host_ok bracketed name"
  shows "require_loopback rq = (if names_loopback peer \<and> names_loopback name then Inr () else Inl 404)"
  using assms by (simp add: require_loopback_def peer_host_def header_text_def is_loopback_host_iff host_header_iff)

theorem loopback_guard_exact_witness:
  "require_loopback \<lparr>rq_client_host = Some ''127.0.0.1'', rq_headers = Headers (\<lambda>k. Some (HStr ''evil.com:80'')), rq_state = None\<rparr> = Inl 404
   \<and> require_loopback \<lparr>rq_client_host = Some ''127.0.0.1'', rq_headers = Headers (\<lambda>k. Some (HStr ''[::1]:80'')), rq_state = None\<rparr> = Inr ()"
proof -
  have texts: "''evil.com:80'' = host_text False ''evil.com'' (Some 80)" "''[::1]:80'' = host_text True ''::1'' (Some 80)"
    "host_ok False ''evil.com''" "host_ok True ''::1''" "names_loopback ''127.0.0.1''" "\<not> names_loopback ''evil.com''" "names_loopback ''::1''"
    by code_simp+
  show ?thesis
    unfolding texts(1,2)
    by (simp add: texts loopback_guard_exact [OF _ _ _ texts(3)] loopback_guard_exact [OF _ _ _ texts(4)])
qed

text \<open>What follows the closing bracket is not looked at, unlike in \<open>is_ip_literal_host_header\<close>.\<close>
lemma bracket_suffix_ignored:
  "is_loopback_host_header (Some ''[::1].evil.com'') \<and> \<not> is_ip_literal_host_header (Some ''[::1].evil.com'')"
proof -
  have "is_loopback_host_header (Some ''[::1].evil.com'')" "\<not> is_ip_literal_host_header (Some ''[::1].evil.com'')"
    by code_simp+
  then show ?thesis by simp
qed

end
