(* ===== verification/Prefix_Replay.thy ===== *)
theory Prefix_Replay
  imports Py_Text "HOL-Library.Sublist"
begin

text \<open>
  The byte-stable prefix of \<open>headroom/cache/prefix_tracker.py\<close>: the canonical form under which two
  turns' messages are compared, the replay of the previously forwarded prefix, and the single
  cache breakpoint of a request; with the lines of the Anthropic and OpenAI handlers that apply
  them to the messages about to be forwarded. Messages are decoded JSON dictionaries, and \<open>==\<close> is
  \<open>py_eq\<close>. NaN, and with it the sentinel of the lineage snapshots, is outside the model of floats.
  Copies (\<open>copy.deepcopy\<close>) are the value itself, and log output is not modelled.
\<close>

section \<open>The comparison form\<close>

fun strip_cache_control_deep :: "json \<Rightarrow> json"
  and strip_cache_control_deep_list :: "json list \<Rightarrow> json list"
  and strip_cache_control_deep_items :: "(string \<times> json) list \<Rightarrow> (string \<times> json) list" where
  "strip_cache_control_deep (JDict d) = JDict (strip_cache_control_deep_items d)"
| "strip_cache_control_deep (JList xs) = JList (strip_cache_control_deep_list xs)"
| "strip_cache_control_deep v = v"
| "strip_cache_control_deep_list [] = []"
| "strip_cache_control_deep_list (x # xs) = strip_cache_control_deep x # strip_cache_control_deep_list xs"
| "strip_cache_control_deep_items [] = []"
| "strip_cache_control_deep_items ((k, v) # d) =
     (if k = ''cache_control'' then strip_cache_control_deep_items d
      else (k, strip_cache_control_deep v) # strip_cache_control_deep_items d)"

definition NON_SEMANTIC_KEYS :: "string list" where
  "NON_SEMANTIC_KEYS =
     [''cache_control'', ''cachePoint'', ''caller'', ''provider_specific_fields'', ''reasoning_content'',
      ''reasoning_items'', ''annotations'', ''system_fingerprint'', ''service_tier'', ''providerMetadata'',
      ''providerOptions'', ''callProviderMetadata'', ''state'', ''providerExecuted'', ''synthetic'', ''ignored'',
      ''index'']"

definition OPAQUE_PAYLOAD_KEYS :: "string list" where
  "OPAQUE_PAYLOAD_KEYS = [''input'', ''arguments'', ''json'']"

fun is_jstr :: "json \<Rightarrow> bool" where
  "is_jstr (JStr s) = True"
| "is_jstr _ = False"

fun canonicalize_for_prefix_compare :: "json \<Rightarrow> json"
  and canonicalize_list :: "json list \<Rightarrow> json list"
  and canonicalize_items :: "(string \<times> json) list \<Rightarrow> (string \<times> json) list" where
  "canonicalize_for_prefix_compare (JDict d) = JDict (canonicalize_items d)"
| "canonicalize_for_prefix_compare (JList xs) = JList (filter (\<lambda>v. v \<noteq> JDict []) (canonicalize_list xs))"
| "canonicalize_for_prefix_compare v = v"
| "canonicalize_list [] = []"
| "canonicalize_list (x # xs) = canonicalize_for_prefix_compare x # canonicalize_list xs"
| "canonicalize_items [] = []"
| "canonicalize_items ((k, v) # d) =
     (if k \<in> set NON_SEMANTIC_KEYS then canonicalize_items d
      else (k, if k \<in> set OPAQUE_PAYLOAD_KEYS then v
               else if k = ''content'' \<and> is_jstr v
                    then JList [JDict [(''type'', JStr ''text''), (''text'', v)]]
               else canonicalize_for_prefix_compare v) # canonicalize_items d)"

text \<open>Two messages of equal content, and two lists of messages equal as Python lists.\<close>

definition same_content :: "message \<Rightarrow> message \<Rightarrow> bool" where
  "same_content a b = py_eq (canonicalize_for_prefix_compare (JDict a)) (canonicalize_for_prefix_compare (JDict b))"

definition messages_eq :: "message list \<Rightarrow> message list \<Rightarrow> bool" where
  "messages_eq xs ys = py_eq (JList (map JDict xs)) (JList (map JDict ys))"

definition canonical_messages :: "message list \<Rightarrow> json" where
  "canonical_messages messages = canonicalize_for_prefix_compare (JList (map JDict messages))"

section \<open>The cache-stable delta and the replay of the prefix\<close>

definition is_empty :: "'a list option \<Rightarrow> bool" where
  "is_empty xs = (xs = None \<or> xs = Some [])"

definition extract_cache_stable_delta ::
  "message list \<Rightarrow> message list option \<Rightarrow> message list option \<Rightarrow> (message list \<times> message list) option" where
  "extract_cache_stable_delta current previous_original previous_forwarded =
     (case (previous_original, previous_forwarded) of
        (Some prev_orig, Some prev_fwd) \<Rightarrow>
          if prev_orig = [] then None
          else if length current < length prev_orig then None
          else if \<not> py_eq (canonical_messages (take (length prev_orig) current)) (canonical_messages prev_orig) then None
          else Some (prev_fwd, drop (length prev_orig) current)
      | _ \<Rightarrow> None)"

text \<open>The \<open>while\<close> loop: the length of the leading run of messages with equal content.\<close>

fun replay_run :: "nat \<Rightarrow> message list \<Rightarrow> message list \<Rightarrow> nat" where
  "replay_run (Suc n) (c # current) (p # prev_orig) =
     (if same_content c p then Suc (replay_run n current prev_orig) else 0)"
| "replay_run _ _ _ = 0"

definition overlay_cached_prefix ::
  "message list \<Rightarrow> message list \<Rightarrow> message list option \<Rightarrow> message list option \<Rightarrow> message list" where
  "overlay_cached_prefix optimized current previous_original previous_forwarded =
     (if is_empty previous_original \<or> is_empty previous_forwarded then optimized
      else
        let prev_orig = the previous_original; prev_fwd = the previous_forwarded; n = length prev_orig
        in if length prev_fwd \<noteq> n then optimized
           else
             let k = replay_run (min n (min (length current) (length optimized))) current prev_orig
             in if k = 0 then optimized else take k prev_fwd @ drop k optimized)"

section \<open>One cache breakpoint\<close>

definition has_marker :: "json \<Rightarrow> bool" where
  "has_marker b = (case b of JDict d \<Rightarrow> jget d ''cache_control'' \<noteq> None | _ \<Rightarrow> False)"

definition strip_block :: "json \<Rightarrow> json" where
  "strip_block b = (case b of JDict d \<Rightarrow> JDict (filter (\<lambda>(k, v). k \<noteq> ''cache_control'') d) | _ \<Rightarrow> b)"

definition newest_marker :: "json \<Rightarrow> message option \<Rightarrow> message option" where
  "newest_marker b last_marker =
     (case b of
        JDict d \<Rightarrow> (case jget d ''cache_control'' of Some (JDict m) \<Rightarrow> Some m | _ \<Rightarrow> last_marker)
      | _ \<Rightarrow> last_marker)"

fun is_jdict :: "json \<Rightarrow> bool" where
  "is_jdict (JDict d) = True"
| "is_jdict _ = False"

text \<open>State of the loop: the messages so far, the index of the last block-style message
  (\<open>None\<close> for \<open>-1\<close>), the newest marker, and whether anything changed.\<close>

record norm_state =
  ns_out :: "message list"
  ns_last_block_idx :: "nat option"
  ns_last_marker :: "message option"
  ns_changed :: bool

definition norm_init :: norm_state where
  "norm_init = \<lparr>ns_out = [], ns_last_block_idx = None, ns_last_marker = None, ns_changed = False\<rparr>"

definition normalize_step :: "message \<Rightarrow> norm_state \<Rightarrow> norm_state" where
  "normalize_step msg s =
     (case jget msg ''content'' of
        Some (JList content) \<Rightarrow>
          let had = list_ex has_marker content; stripped = map strip_block content
          in s\<lparr>ns_out := ns_out s @ [if had then dict_set ''content'' (JList stripped) msg else msg],
               ns_last_marker := fold newest_marker content (ns_last_marker s),
               ns_changed := (ns_changed s \<or> had),
               ns_last_block_idx :=
                 (if stripped \<noteq> [] \<and> is_jdict (last stripped) then Some (length (ns_out s)) else ns_last_block_idx s)\<rparr>
      | _ \<Rightarrow> s\<lparr>ns_out := ns_out s @ [msg]\<rparr>)"

definition marker_of :: "message option \<Rightarrow> message" where
  "marker_of last_marker =
     (case last_marker of Some m \<Rightarrow> if m = [] then [(''type'', JStr ''ephemeral'')] else m
      | None \<Rightarrow> [(''type'', JStr ''ephemeral'')])"

text \<open>The marker goes on the last block of a message; where it is placed the content is a list that ends
  in a dictionary.\<close>

definition place_marker :: "message \<Rightarrow> message \<Rightarrow> message" where
  "place_marker marker msg =
     (case jget msg ''content'' of
        Some (JList content) \<Rightarrow>
          (case last content of
             JDict b \<Rightarrow> dict_set ''content'' (JList (butlast content @ [JDict (dict_set ''cache_control'' (JDict marker) b)])) msg
           | _ \<Rightarrow> msg)
      | _ \<Rightarrow> msg)"

definition normalize_message_cache_control :: "message list \<Rightarrow> message list" where
  "normalize_message_cache_control messages =
     (let s = fold normalize_step messages norm_init
      in case ns_last_block_idx s of
           Some i \<Rightarrow> (ns_out s)[i := place_marker (marker_of (ns_last_marker s)) (ns_out s ! i)]
         | None \<Rightarrow> if ns_changed s then ns_out s else messages)"

section \<open>The handlers\<close>

text \<open>
  The last steps of the compression stage of a request: both handlers take the replayed list only
  where it differs from the optimised one; the Anthropic handler skips the replay on a turn it knows to be
  cold, normalises the breakpoint, and goes back to the original messages when the token count grew
  (\<open>inflated\<close>, outside cache mode) and nothing was replayed; the OpenAI handler goes back whenever it grew.
\<close>

definition replay_prefix ::
  "message list \<Rightarrow> message list \<Rightarrow> message list \<Rightarrow> message list \<Rightarrow> message list \<times> bool" where
  "replay_prefix optimized current last_original last_forwarded =
     (let ov = overlay_cached_prefix optimized current (Some last_original) (Some last_forwarded)
      in if \<not> messages_eq ov optimized then (ov, True) else (optimized, False))"

definition forward_anthropic ::
  "bool \<Rightarrow> bool \<Rightarrow> message list \<Rightarrow> message list \<Rightarrow> message list \<Rightarrow> message list \<Rightarrow> message list \<Rightarrow> message list" where
  "forward_anthropic cold_recompact_active inflated original optimized current last_original last_forwarded =
     (let (messages, overlay_replayed) =
            (if cold_recompact_active then (optimized, False) else replay_prefix optimized current last_original last_forwarded);
          messages = normalize_message_cache_control messages
      in if inflated \<and> \<not> overlay_replayed then original else messages)"

definition forward_openai ::
  "bool \<Rightarrow> message list \<Rightarrow> message list \<Rightarrow> message list \<Rightarrow> message list \<Rightarrow> message list \<Rightarrow> message list" where
  "forward_openai inflated original optimized current last_original last_forwarded =
     (if inflated then original else fst (replay_prefix optimized current last_original last_forwarded))"

section \<open>The replayed run\<close>

lemma replay_run_le: "replay_run n current prev_orig \<le> n"
  by (induction n current prev_orig rule: replay_run.induct) auto

lemma replay_run_iff:
  "n \<le> length current \<Longrightarrow> n \<le> length prev_orig \<Longrightarrow>
   i < replay_run n current prev_orig \<longleftrightarrow> i < n \<and> (\<forall>j\<le>i. same_content (current ! j) (prev_orig ! j))"
proof (induction n current prev_orig arbitrary: i rule: replay_run.induct)
  case (1 n c current p prev_orig)
  show ?case
  proof (cases i)
    case 0
    then show ?thesis by simp
  next
    case (Suc m)
    have all: "(\<forall>j\<le>Suc m. same_content ((c # current) ! j) ((p # prev_orig) ! j)) \<longleftrightarrow>
      same_content c p \<and> (\<forall>j\<le>m. same_content (current ! j) (prev_orig ! j))"
      using All_less_Suc2 [of "Suc m" "\<lambda>j. same_content ((c # current) ! j) ((p # prev_orig) ! j)"]
      by (simp add: less_Suc_eq_le)
    show ?thesis unfolding Suc all using 1 by auto
  qed
qed auto

text \<open>Whether the replay covers position \<open>i\<close>.\<close>

definition replayed :: "message list \<Rightarrow> message list \<Rightarrow> message list \<Rightarrow> nat \<Rightarrow> bool" where
  "replayed current prev_orig prev_fwd i =
     (length prev_fwd = length prev_orig \<and> i < length prev_orig \<and> i < length current \<and>
      (\<forall>j\<le>i. same_content (current ! j) (prev_orig ! j)))"

lemma overlay_positions:
  "overlay_cached_prefix optimized current (Some prev_orig) (Some prev_fwd) =
   map (\<lambda>i. if replayed current prev_orig prev_fwd i then prev_fwd ! i else optimized ! i) [0..<length optimized]"
proof (cases "length prev_fwd = length prev_orig \<and> prev_orig \<noteq> []")
  case False
  then have "\<not> replayed current prev_orig prev_fwd i" for i
    by (auto simp: replayed_def)
  with False show ?thesis
    by (auto simp: overlay_cached_prefix_def is_empty_def map_nth)
next
  case True
  let ?n = "min (length prev_orig) (min (length current) (length optimized))"
  let ?k = "replay_run ?n current prev_orig"
  have k: "i < ?k \<longleftrightarrow> replayed current prev_orig prev_fwd i" if "i < length optimized" for i
    using that True replay_run_iff [of ?n current prev_orig i] by (auto simp: replayed_def)
  have le: "?k \<le> ?n" by (rule replay_run_le)
  have "overlay_cached_prefix optimized current (Some prev_orig) (Some prev_fwd) = take ?k prev_fwd @ drop ?k optimized"
    using True by (auto simp: overlay_cached_prefix_def is_empty_def Let_def)
  also have "\<dots> = map (\<lambda>i. if i < ?k then prev_fwd ! i else optimized ! i) [0..<length optimized]"
    using le True by (intro nth_equalityI) (auto simp: nth_append)
  finally show ?thesis using k by (auto intro: map_cong)
qed

section \<open>The breakpoint\<close>

text \<open>A message without block markers, and whether it can carry one.\<close>

definition unmark :: "message \<Rightarrow> message" where
  "unmark msg =
     (case jget msg ''content'' of
        Some (JList content) \<Rightarrow> dict_set ''content'' (JList (map strip_block content)) msg
      | _ \<Rightarrow> msg)"

definition blocks_of :: "message \<Rightarrow> json list" where
  "blocks_of msg = (case jget msg ''content'' of Some (JList content) \<Rightarrow> content | _ \<Rightarrow> [])"

definition block_style :: "message \<Rightarrow> bool" where
  "block_style msg = (blocks_of msg \<noteq> [] \<and> is_jdict (last (blocks_of msg)))"

definition breakpoints :: "message list \<Rightarrow> nat" where
  "breakpoints messages = (\<Sum>msg\<leftarrow>messages. length (filter has_marker (blocks_of msg)))"

fun last_block :: "nat \<Rightarrow> message list \<Rightarrow> nat option \<Rightarrow> nat option" where
  "last_block i [] found = found"
| "last_block i (msg # messages) found = last_block (Suc i) messages (if block_style msg then Some i else found)"

lemma strip_block_clean: "\<not> has_marker b \<Longrightarrow> strip_block b = b"
  by (auto simp: strip_block_def has_marker_def map_of_eq_None_iff image_iff intro!: filter_True split: json.splits)

lemma has_marker_strip [simp]: "\<not> has_marker (strip_block b)"
  by (auto simp: strip_block_def has_marker_def map_of_eq_None_iff split: json.splits)

lemma strip_block_idem [simp]: "strip_block (strip_block b) = strip_block b"
  by (rule strip_block_clean) simp

lemma is_jdict_strip [simp]: "is_jdict (strip_block b) = is_jdict b"
  by (cases b) (auto simp: strip_block_def)

lemma strip_blocks_clean: "\<not> list_ex has_marker content \<Longrightarrow> map strip_block content = content"
  by (induction content) (auto simp: strip_block_clean)

lemma unmark_unmarked: "\<not> list_ex has_marker (blocks_of msg) \<Longrightarrow> unmark msg = msg"
  by (auto simp: unmark_def blocks_of_def strip_blocks_clean dict_set_same split: option.splits json.splits)

lemma blocks_unmark [simp]: "blocks_of (unmark msg) = map strip_block (blocks_of msg)"
  by (auto simp: unmark_def blocks_of_def dict_get_set split: option.splits json.splits)

lemma block_style_unmark [simp]: "block_style (unmark msg) = block_style msg"
  by (auto simp: block_style_def last_map)

lemma unmark_idem [simp]: "unmark (unmark msg) = unmark msg"
  by (rule unmark_unmarked) (simp add: list_ex_iff)

lemma normalize_step_eq:
  "normalize_step msg s =
   \<lparr>ns_out = ns_out s @ [unmark msg],
    ns_last_block_idx = (if block_style msg then Some (length (ns_out s)) else ns_last_block_idx s),
    ns_last_marker = fold newest_marker (blocks_of msg) (ns_last_marker s),
    ns_changed = (ns_changed s \<or> list_ex has_marker (blocks_of msg))\<rparr>"
  by (auto simp: normalize_step_def unmark_def blocks_of_def block_style_def Let_def last_map strip_blocks_clean dict_set_same
      split: option.splits json.splits intro!: norm_state.equality)

lemma normalize_loop:
  "fold normalize_step messages s =
   \<lparr>ns_out = ns_out s @ map unmark messages,
    ns_last_block_idx = last_block (length (ns_out s)) messages (ns_last_block_idx s),
    ns_last_marker = fold newest_marker (concat (map blocks_of messages)) (ns_last_marker s),
    ns_changed = (ns_changed s \<or> list_ex (\<lambda>msg. list_ex has_marker (blocks_of msg)) messages)\<rparr>"
  by (induction messages arbitrary: s) (auto simp: normalize_step_eq)

definition newest :: "message list \<Rightarrow> message" where
  "newest messages = marker_of (fold newest_marker (concat (map blocks_of messages)) None)"

lemma normalize_eq:
  "normalize_message_cache_control messages =
   (case last_block 0 messages None of
      Some i \<Rightarrow> (map unmark messages)[i := place_marker (newest messages) (map unmark messages ! i)]
    | None \<Rightarrow> map unmark messages)"
proof -
  have "map unmark messages = messages" if "\<not> list_ex (\<lambda>msg. list_ex has_marker (blocks_of msg)) messages"
    using that by (induction messages) (auto simp: unmark_unmarked)
  then show ?thesis
    by (auto simp: normalize_message_cache_control_def normalize_loop norm_init_def newest_def split: option.splits)
qed

lemma last_block_Some:
  "last_block i messages found = Some j \<longleftrightarrow>
   (\<exists>m. j = i + m \<and> m < length messages \<and> block_style (messages ! m) \<and> (\<forall>l<length messages. m < l \<longrightarrow> \<not> block_style (messages ! l)))
   \<or> (found = Some j \<and> (\<forall>msg\<in>set messages. \<not> block_style msg))"
proof (induction messages arbitrary: i found)
  case (Cons msg messages)
  have ex: "(\<exists>m. j = i + m \<and> P m) \<longleftrightarrow> (j = i \<and> P 0) \<or> (\<exists>m. j = Suc i + m \<and> P (Suc m))" for P
    by (metis add_Suc_right add_Suc_shift add.right_neutral not0_implies_Suc)
  show ?case
    unfolding last_block.simps Cons.IH ex
    by (auto simp: in_set_conv_nth [of _ messages] nth_Cons All_less_Suc2 split: nat.splits if_splits dest: nth_mem)
qed auto

lemma last_block_None: "last_block i messages found = None \<longleftrightarrow> found = None \<and> (\<forall>msg\<in>set messages. \<not> block_style msg)"
  by (induction i messages found rule: last_block.induct) auto

lemma last_block_cong: "map block_style ms = map block_style ms' \<Longrightarrow> last_block i ms found = last_block i ms' found"
proof (induction ms arbitrary: ms' i found)
  case (Cons m ms)
  then obtain m' ms'' where "ms' = m' # ms''" "block_style m' = block_style m" "map block_style ms = map block_style ms''"
    by (cases ms') auto
  with Cons.IH show ?case by simp
qed simp

lemma newest_nonempty: "newest messages \<noteq> []"
  by (simp add: newest_def marker_of_def split: option.splits)

lemma fold_newest_clean: "(\<And>b. b \<in> set bs \<Longrightarrow> \<not> has_marker b) \<Longrightarrow> fold newest_marker bs m = m"
proof (induction bs arbitrary: m)
  case (Cons b bs)
  have "newest_marker b m = m"
    using Cons.prems [of b] by (auto simp: newest_marker_def has_marker_def split: json.splits option.splits)
  with Cons show ?case by simp
qed simp

lemma fold_newest_unmark: "fold newest_marker (concat (map blocks_of (map unmark messages))) m = m"
  by (rule fold_newest_clean) auto

lemma breakpoints_unmark [simp]: "breakpoints (map unmark messages) = 0"
  by (simp add: breakpoints_def comp_def sum_list_eq_0_iff)

lemma strip_marked:
  "strip_block (JDict (dict_set ''cache_control'' v (filter (\<lambda>(k, v). k \<noteq> ''cache_control'') d))) = strip_block (JDict d)"
proof -
  have "jget (filter (\<lambda>(k, v). k \<noteq> ''cache_control'') d) ''cache_control'' = None"
    by (simp add: dict_get_filter_key)
  then show ?thesis by (simp add: strip_block_def dict_set_new)
qed

text \<open>The marked message: where the block sits, and what it carries.\<close>

lemma place_marker_blocks:
  assumes "block_style msg"
  obtains d where "last (blocks_of msg) = JDict d"
    "blocks_of (place_marker mk (unmark msg)) =
       map strip_block (butlast (blocks_of msg)) @
       [JDict (dict_set ''cache_control'' (JDict mk) (filter (\<lambda>(k, v). k \<noteq> ''cache_control'') d))]"
    "place_marker mk (unmark msg) = dict_set ''content'' (JList (blocks_of (place_marker mk (unmark msg)))) msg"
proof -
  obtain content d where c: "jget msg ''content'' = Some (JList content)" "content \<noteq> []" "last content = JDict d"
    using assms by (auto simp: block_style_def blocks_of_def elim!: is_jdict.elims split: option.splits json.splits)
  let ?cs = "map strip_block (butlast content) @
    [JDict (dict_set ''cache_control'' (JDict mk) (filter (\<lambda>(k, v). k \<noteq> ''cache_control'') d))]"
  have "place_marker mk (unmark msg) = dict_set ''content'' (JList ?cs) (dict_set ''content'' (JList (map strip_block content)) msg)"
    using c by (simp add: place_marker_def unmark_def dict_get_set last_map strip_block_def map_butlast)
  then have p: "place_marker mk (unmark msg) = dict_set ''content'' (JList ?cs) msg"
    by simp
  then have b: "blocks_of (place_marker mk (unmark msg)) = ?cs"
    by (simp add: blocks_of_def dict_get_set)
  show ?thesis
  proof (rule that [of d])
    show "last (blocks_of msg) = JDict d" using c by (simp add: blocks_of_def)
    show "blocks_of (place_marker mk (unmark msg)) = map strip_block (butlast (blocks_of msg)) @
       [JDict (dict_set ''cache_control'' (JDict mk) (filter (\<lambda>(k, v). k \<noteq> ''cache_control'') d))]"
      using b c by (simp add: blocks_of_def)
    show "place_marker mk (unmark msg) = dict_set ''content'' (JList (blocks_of (place_marker mk (unmark msg)))) msg"
      using p b by simp
  qed
qed

lemma place_marker_facts:
  assumes "block_style msg"
  shows "unmark (place_marker mk (unmark msg)) = unmark msg" (is ?unmark)
    and "block_style (place_marker mk (unmark msg))" (is ?style)
    and "length (filter has_marker (blocks_of (place_marker mk (unmark msg)))) = 1" (is ?one)
    and "fold newest_marker (blocks_of (place_marker mk (unmark msg))) m = Some mk" (is ?newest)
proof -
  obtain d where d: "last (blocks_of msg) = JDict d"
    and b: "blocks_of (place_marker mk (unmark msg)) =
       map strip_block (butlast (blocks_of msg)) @
       [JDict (dict_set ''cache_control'' (JDict mk) (filter (\<lambda>(k, v). k \<noteq> ''cache_control'') d))]"
    and p: "place_marker mk (unmark msg) = dict_set ''content'' (JList (blocks_of (place_marker mk (unmark msg)))) msg"
    by (rule place_marker_blocks [OF assms])
  have ne: "blocks_of msg \<noteq> []" using assms by (simp add: block_style_def)
  have strip: "map strip_block (blocks_of (place_marker mk (unmark msg))) = map strip_block (blocks_of msg)"
  proof -
    have "map strip_block (butlast (blocks_of msg) @ [last (blocks_of msg)]) = map strip_block (blocks_of msg)"
      using ne by simp
    then show ?thesis unfolding b using d by (simp add: strip_marked comp_def)
  qed
  obtain c where c: "jget msg ''content'' = Some (JList c)" "c = blocks_of msg"
    using ne by (auto simp: blocks_of_def split: option.splits json.splits)
  have get: "jget (place_marker mk (unmark msg)) ''content'' = Some (JList (blocks_of (place_marker mk (unmark msg))))"
    by (subst p) (simp add: dict_get_set)
  show ?unmark
    unfolding unmark_def [of "place_marker mk (unmark msg)"] get using c strip
    by (subst p) (simp add: unmark_def)
  show ?style using b by (simp add: block_style_def)
  have "filter has_marker (map strip_block (butlast (blocks_of msg))) = []"
    by (auto simp: filter_empty_conv)
  then show ?one unfolding b filter_append by (simp add: has_marker_def dict_get_set)
  show ?newest unfolding b
    using fold_newest_clean [of "map strip_block (butlast (blocks_of msg))" m] by (simp add: newest_marker_def dict_get_set)
qed

text \<open>The two shapes of a normalised list.\<close>

lemma normalize_cases:
  obtains (none) "\<And>msg. msg \<in> set messages \<Longrightarrow> \<not> block_style msg" "normalize_message_cache_control messages = map unmark messages"
  | (placed) i where "i < length messages" "block_style (messages ! i)" "last_block 0 messages None = Some i"
      "normalize_message_cache_control messages =
         (map unmark messages)[i := place_marker (newest messages) (unmark (messages ! i))]"
proof (cases "last_block 0 messages None")
  case None
  then have "normalize_message_cache_control messages = map unmark messages"
    by (simp add: normalize_eq)
  with None show thesis by (intro none) (auto simp: last_block_None)
next
  case (Some i)
  then have "i < length messages" "block_style (messages ! i)"
    by (auto simp: last_block_Some)
  with Some show thesis by (intro placed) (auto simp: normalize_eq)
qed

lemma map_unmark_normalize: "map unmark (normalize_message_cache_control messages) = map unmark messages"
proof (cases messages rule: normalize_cases)
  case (placed i)
  then show ?thesis
    by (simp add: map_update place_marker_facts(1) comp_def) (simp add: list_update_same_conv)
qed (simp add: comp_def)

lemma block_style_normalize: "map block_style (normalize_message_cache_control messages) = map block_style messages"
proof -
  have "map (block_style \<circ> unmark) (normalize_message_cache_control messages) = map (block_style \<circ> unmark) messages"
    by (metis map_map map_unmark_normalize)
  then show ?thesis by (simp add: comp_def)
qed

lemma breakpoints_normalize:
  "breakpoints (normalize_message_cache_control messages) = (if list_ex block_style messages then 1 else 0)"
proof (cases messages rule: normalize_cases)
  case none
  then show ?thesis by (auto simp: list_ex_iff)
next
  case (placed i)
  let ?f = "\<lambda>msg. length (filter has_marker (blocks_of msg))"
  have "map ?f (map unmark messages) = map (\<lambda>msg. 0) messages"
    by (auto simp: filter_empty_conv)
  then have "map ?f (normalize_message_cache_control messages) = (map (\<lambda>msg. 0) messages)[i := 1]"
    using placed place_marker_facts(3) [of "messages ! i" "newest messages"] by (simp only: placed(4) map_update)
  then have "breakpoints (normalize_message_cache_control messages) = 1"
    using placed(1) by (simp add: breakpoints_def sum_list_update)
  with placed(1,2) show ?thesis by (auto simp: list_ex_iff)
qed

lemma newest_normalize:
  assumes "list_ex block_style messages"
  shows "newest (normalize_message_cache_control messages) = newest messages"
proof (cases messages rule: normalize_cases)
  case none
  with assms show ?thesis by (auto simp: list_ex_iff)
next
  case (placed i)
  let ?u = "map unmark messages"
  have "normalize_message_cache_control messages =
      map unmark (take i messages) @ place_marker (newest messages) (unmark (messages ! i)) # map unmark (drop (Suc i) messages)"
    using placed(1) by (simp add: placed(4) upd_conv_take_nth_drop take_map drop_map)
  then have "fold newest_marker (concat (map blocks_of (normalize_message_cache_control messages))) None = Some (newest messages)"
    using fold_newest_unmark place_marker_facts(4) [OF placed(2)] by (simp del: map_map)
  then show ?thesis
    using newest_nonempty [of messages] by (simp add: newest_def [of "normalize_message_cache_control messages"] marker_of_def)
qed

lemma normalize_idem:
  "normalize_message_cache_control (normalize_message_cache_control messages) = normalize_message_cache_control messages"
proof (cases messages rule: normalize_cases)
  case none
  then have "\<not> block_style msg" if "msg \<in> set (map unmark messages)" for msg using that by auto
  then have "last_block 0 (map unmark messages) None = None" by (simp add: last_block_None)
  then show ?thesis using none(2) by (simp add: normalize_eq comp_def)
next
  case (placed i)
  have ex: "list_ex block_style messages" using placed(1,2) by (auto simp: list_ex_iff)
  have "last_block 0 (normalize_message_cache_control messages) None = Some i"
    using placed(3) last_block_cong [OF block_style_normalize] by simp
  then show ?thesis
    using placed(1) newest_normalize [OF ex]
    by (simp add: normalize_eq [of "normalize_message_cache_control messages"] map_unmark_normalize) (simp add: placed(4))
qed

section \<open>The comparison form ignores the breakpoint\<close>

lemma canonicalize_list_map: "canonicalize_list xs = map canonicalize_for_prefix_compare xs"
  by (induction xs) auto

lemma cache_control_dropped: "''cache_control'' \<in> set NON_SEMANTIC_KEYS"
  by (simp add: NON_SEMANTIC_KEYS_def)

lemma content_kept: "''content'' \<notin> set NON_SEMANTIC_KEYS" "''content'' \<notin> set OPAQUE_PAYLOAD_KEYS"
  by (simp_all add: NON_SEMANTIC_KEYS_def OPAQUE_PAYLOAD_KEYS_def)

lemma canonicalize_items_strip:
  "canonicalize_items (filter (\<lambda>(k, v). k \<noteq> ''cache_control'') d) = canonicalize_items d"
  by (induction d) (auto simp: cache_control_dropped)

lemma canonicalize_strip_block [simp]:
  "canonicalize_for_prefix_compare (strip_block b) = canonicalize_for_prefix_compare b"
  by (cases b) (simp_all add: strip_block_def canonicalize_items_strip)

lemma canonicalize_items_set_content:
  "jget d ''content'' = Some (JList xs) \<Longrightarrow>
   canonicalize_for_prefix_compare (JList ys) = canonicalize_for_prefix_compare (JList xs) \<Longrightarrow>
   canonicalize_items (dict_set ''content'' (JList ys) d) = canonicalize_items d"
  by (induction d) (auto simp: content_kept simp del: canonicalize_for_prefix_compare.simps(2))

lemma canonicalize_unmark: "canonicalize_items (unmark msg) = canonicalize_items msg"
  by (auto simp: unmark_def canonicalize_items_set_content canonicalize_list_map comp_def split: option.splits json.splits)

lemma same_content_unmark: "same_content (unmark a) b = same_content a b" "same_content a (unmark b) = same_content a b"
  by (simp_all add: same_content_def canonicalize_unmark)

lemma canonical_normalize:
  "map (\<lambda>msg. canonicalize_for_prefix_compare (JDict msg)) (normalize_message_cache_control messages) =
   map (\<lambda>msg. canonicalize_for_prefix_compare (JDict msg)) messages"
proof -
  have "canonicalize_items msg = canonicalize_items (unmark msg)" for msg by (simp add: canonicalize_unmark)
  then have "map (\<lambda>msg. canonicalize_for_prefix_compare (JDict msg)) ms = map (JDict \<circ> canonicalize_items) (map unmark ms)" for ms
    by (simp add: canonicalize_unmark)
  then show ?thesis by (metis map_unmark_normalize)
qed

section \<open>Equality of messages and of their comparison forms\<close>

lemma py_eq_strip_block:
  assumes "py_eq a b" "json_ok a" "json_ok b"
  shows "py_eq (strip_block a) (strip_block b)"
proof (cases a)
  case (JDict d)
  then obtain e where b: "b = JDict e" using assms(1) by (cases b) auto
  have ok: "dict_ok d" "dict_ok e" using assms(2,3) JDict b by auto
  then have "dict_ok (filter (\<lambda>(k, v). k \<noteq> ''cache_control'') d)" "dict_ok (filter (\<lambda>(k, v). k \<noteq> ''cache_control'') e)"
    by (auto simp: distinct_map_filter)
  moreover have "rel_option py_eq (jget d k) (jget e k)" for k
    using py_eq_dict_get ok assms(1) JDict b by blast
  ultimately show ?thesis
    unfolding JDict b strip_block_def json.case by (intro py_eq_dictI) (auto simp: dict_get_filter_key)
qed (use assms in \<open>cases b; auto simp: strip_block_def\<close>)+

definition message_eq :: "message \<Rightarrow> message \<Rightarrow> bool" where
  "message_eq a b = py_eq (JDict a) (JDict b)"

lemma message_eq_unmark:
  assumes "message_eq a b" "json_ok (JDict a)" "json_ok (JDict b)"
  shows "message_eq (unmark a) (unmark b)"
proof -
  have ok: "dict_ok a" "dict_ok b" using assms by auto
  have get: "rel_option py_eq (jget a k) (jget b k)" for k
    using py_eq_dict_get ok assms(1) by (simp add: message_eq_def)
  show ?thesis
  proof (cases "\<exists>xs. jget a ''content'' = Some (JList xs)")
    case True
    then obtain xs where xs: "jget a ''content'' = Some (JList xs)" by blast
    then obtain v where v: "jget b ''content'' = Some v" "py_eq (JList xs) v"
      using get [of "''content''"] by (auto simp: option_rel_Some1)
    then obtain ys where ys: "v = JList ys" "list_all2 py_eq xs ys"
      by (cases v) (auto simp: py_eq_list_iff)
    have j: "json_ok (JList xs)" "json_ok (JList ys)"
      using json_ok_get [OF assms(2) xs] json_ok_get [OF assms(3) v(1)] ys by simp_all
    have strip: "list_all2 py_eq (map strip_block xs) (map strip_block ys)"
      using ys(2) j by (auto simp: list_all2_conv_all_nth json_ok_list_iff intro!: py_eq_strip_block)
    have "rel_option py_eq (jget (unmark a) k) (jget (unmark b) k)" for k
      using get [of k] strip xs v ys by (simp add: unmark_def dict_get_set py_eq_list_iff)
    then show ?thesis
      unfolding message_eq_def using ok by (intro py_eq_dictI) (auto simp: unmark_def xs v ys)
  next
    case False
    have "unmark a = a" using False by (auto simp: unmark_def split: option.splits json.splits)
    moreover have "unmark b = b"
    proof -
      have "jget b ''content'' \<noteq> Some (JList ys)" for ys
      proof
        assume "jget b ''content'' = Some (JList ys)"
        then obtain w where "jget a ''content'' = Some w" "py_eq w (JList ys)"
          using get [of "''content''"] by (auto simp: option_rel_Some2)
        then show False using False by (cases w) auto
      qed
      then show ?thesis by (auto simp: unmark_def split: option.splits json.splits)
    qed
    ultimately show ?thesis using assms(1) by simp
  qed
qed

section \<open>Well-formedness is kept\<close>

lemma json_ok_strip_block: "json_ok b \<Longrightarrow> json_ok (strip_block b)"
  by (cases b) (auto simp: strip_block_def json_ok_items_iff distinct_map_filter)

lemma json_ok_blocks:
  assumes "json_ok (JDict msg)" "b \<in> set (blocks_of msg)"
  shows "json_ok b"
proof -
  obtain content where "jget msg ''content'' = Some (JList content)" "b \<in> set content"
    using assms(2) by (cases "jget msg ''content''") (auto simp: blocks_of_def split: json.splits)
  then show ?thesis using json_ok_get [OF assms(1)] by (fastforce simp: json_ok_list_iff)
qed

lemma json_ok_unmark: "json_ok (JDict msg) \<Longrightarrow> json_ok (JDict (unmark msg))"
  using json_ok_get [of msg "''content''"]
  by (auto simp: unmark_def json_ok_list_iff intro!: json_ok_set json_ok_strip_block simp del: json_ok.simps(2)
      split: option.splits json.splits)

lemma json_ok_newest_fold:
  "(\<And>b. b \<in> set bs \<Longrightarrow> json_ok b) \<Longrightarrow> (\<And>m. acc = Some m \<Longrightarrow> json_ok (JDict m)) \<Longrightarrow>
   fold newest_marker bs acc = Some m \<Longrightarrow> json_ok (JDict m)"
proof (induction bs arbitrary: acc)
  case (Cons b bs)
  have "json_ok (JDict m)" if "newest_marker b acc = Some m" for m
    using that Cons.prems(1) [of b] Cons.prems(2) json_ok_get
    by (fastforce simp: newest_marker_def split: json.splits option.splits)
  then show ?case using Cons.IH [of "newest_marker b acc"] Cons.prems by (simp del: json_ok.simps)
qed simp

lemma json_ok_newest: "(\<And>msg. msg \<in> set messages \<Longrightarrow> json_ok (JDict msg)) \<Longrightarrow> json_ok (JDict (newest messages))"
proof -
  assume "\<And>msg. msg \<in> set messages \<Longrightarrow> json_ok (JDict msg)"
  then have "json_ok b" if "b \<in> set (concat (map blocks_of messages))" for b
    using that json_ok_blocks by (auto simp del: json_ok.simps)
  then have "json_ok (JDict m)" if "fold newest_marker (concat (map blocks_of messages)) None = Some m" for m
    using json_ok_newest_fold [OF _ _ that] by blast
  then show ?thesis by (simp add: newest_def marker_of_def split: option.splits)
qed

lemma json_ok_normalize:
  assumes "\<And>msg. msg \<in> set messages \<Longrightarrow> json_ok (JDict msg)" "msg \<in> set (normalize_message_cache_control messages)"
  shows "json_ok (JDict msg)"
proof (cases messages rule: normalize_cases)
  case none
  with assms show ?thesis by (auto intro!: json_ok_unmark simp del: json_ok.simps)
next
  case (placed i)
  let ?m = "messages ! i"
  have m: "json_ok (JDict ?m)" using assms(1) placed(1) by simp
  obtain d where d: "last (blocks_of ?m) = JDict d"
    and b: "blocks_of (place_marker (newest messages) (unmark ?m)) =
       map strip_block (butlast (blocks_of ?m)) @
       [JDict (dict_set ''cache_control'' (JDict (newest messages)) (filter (\<lambda>(k, v). k \<noteq> ''cache_control'') d))]"
    and p: "place_marker (newest messages) (unmark ?m) =
      dict_set ''content'' (JList (blocks_of (place_marker (newest messages) (unmark ?m)))) ?m"
    by (rule place_marker_blocks [OF placed(2)])
  have "last (blocks_of ?m) \<in> set (blocks_of ?m)" using placed(2) by (simp add: block_style_def)
  then have jd: "json_ok (JDict d)" using json_ok_blocks [OF m] d by metis
  have fd: "json_ok (JDict (filter (\<lambda>(k, v). k \<noteq> ''cache_control'') d))"
    using json_ok_strip_block [OF jd] by (simp add: strip_block_def)
  have "json_ok (JDict (dict_set ''cache_control'' (JDict (newest messages)) (filter (\<lambda>(k, v). k \<noteq> ''cache_control'') d)))"
    by (rule json_ok_set [OF fd json_ok_newest [OF assms(1)]])
  moreover have "json_ok (strip_block x)" if "x \<in> set (butlast (blocks_of ?m))" for x
    using json_ok_strip_block [OF json_ok_blocks [OF m in_set_butlastD [OF that]]] .
  ultimately have "json_ok (JList (blocks_of (place_marker (newest messages) (unmark ?m))))"
    unfolding b by (auto simp: json_ok_list_iff simp del: json_ok.simps(2))
  then have pm: "json_ok (JDict (place_marker (newest messages) (unmark ?m)))"
    by (subst p) (rule json_ok_set [OF m])
  have "msg = place_marker (newest messages) (unmark ?m) \<or> msg \<in> set (map unmark messages)"
    using assms(2) set_update_subset_insert [of "map unmark messages" i "place_marker (newest messages) (unmark ?m)"]
    by (auto simp: placed(4))
  then show ?thesis using pm assms(1) json_ok_unmark by auto
qed

section \<open>One turn\<close>

text \<open>A later list of messages repeats an earlier one, up to where the breakpoint sits.\<close>

definition repeats :: "message list \<Rightarrow> message list \<Rightarrow> bool" where
  "repeats earlier later =
     (length earlier \<le> length later \<and> list_all2 (\<lambda>a b. message_eq (unmark a) (unmark b)) earlier (take (length earlier) later))"

lemma repeats_nth:
  "repeats earlier later \<longleftrightarrow>
   length earlier \<le> length later \<and> (\<forall>i<length earlier. message_eq (unmark (earlier ! i)) (unmark (later ! i)))"
  by (auto simp: repeats_def list_all2_conv_all_nth)

lemma repeats_trans: "repeats a b \<Longrightarrow> repeats b c \<Longrightarrow> repeats a c"
  unfolding repeats_nth message_eq_def by (meson le_trans less_le_trans py_eq_trans)

lemma repeats_prefix: "repeats (a @ x) b \<Longrightarrow> repeats a b"
proof -
  assume r: "repeats (a @ x) b"
  have "message_eq (unmark (a ! i)) (unmark (b ! i))" if "i < length a" for i
    using r that unfolding repeats_nth by (force simp: nth_append dest: spec [of _ i])
  then show ?thesis using r by (simp add: repeats_nth)
qed

lemma length_normalize [simp]: "length (normalize_message_cache_control messages) = length messages"
  using arg_cong [OF map_unmark_normalize, of length messages] by simp

lemma unmark_normalize_nth:
  "i < length messages \<Longrightarrow> unmark (normalize_message_cache_control messages ! i) = unmark (messages ! i)"
  using arg_cong [OF map_unmark_normalize, of "\<lambda>xs. xs ! i" messages] by simp

lemma length_overlay [simp]:
  "length (overlay_cached_prefix optimized current (Some last_original) (Some last_forwarded)) = length optimized"
  by (simp add: overlay_positions)

lemma length_replay_prefix [simp]: "length (fst (replay_prefix optimized current last_original last_forwarded)) = length optimized"
  by (simp add: replay_prefix_def Let_def)

lemma messages_eq_nth: "messages_eq xs ys \<longleftrightarrow> length xs = length ys \<and> (\<forall>i<length xs. message_eq (xs ! i) (ys ! i))"
  by (auto simp: messages_eq_def message_eq_def py_eq_list_iff list_all2_conv_all_nth)

text \<open>Every message of the turn is either this turn's or the one forwarded for the same content.\<close>

lemma replay_prefix_message:
  assumes "i < length optimized"
  shows "fst (replay_prefix optimized current last_original last_forwarded) ! i = optimized ! i \<or>
    replayed current last_original last_forwarded i \<and>
    fst (replay_prefix optimized current last_original last_forwarded) ! i = last_forwarded ! i"
  using assms by (auto simp: replay_prefix_def Let_def overlay_positions)

text \<open>On a turn that repeats the recorded originals, the recorded prefix goes out again.\<close>

lemma replay_prefix_append_only:
  assumes len: "length last_forwarded = length last_original" "length last_original \<le> length current"
      "length last_original \<le> length optimized"
    and same: "\<And>i. i < length last_original \<Longrightarrow> same_content (current ! i) (last_original ! i)"
    and ok: "\<And>msg. msg \<in> set last_forwarded \<Longrightarrow> json_ok (JDict msg)"
    and i: "i < length last_original"
  shows "message_eq (last_forwarded ! i) (fst (replay_prefix optimized current last_original last_forwarded) ! i)"
proof -
  let ?ov = "overlay_cached_prefix optimized current (Some last_original) (Some last_forwarded)"
  have "replayed current last_original last_forwarded i"
    using len same i by (auto simp: replayed_def)
  then have ov: "?ov ! i = last_forwarded ! i"
    using i len by (simp add: overlay_positions)
  show ?thesis
  proof (cases "messages_eq ?ov optimized")
    case True
    then have "message_eq (?ov ! i) (optimized ! i)" using i len by (simp add: messages_eq_nth)
    with True ov show ?thesis by (simp add: replay_prefix_def Let_def)
  next
    case False
    with ov have "fst (replay_prefix optimized current last_original last_forwarded) ! i = last_forwarded ! i"
      by (simp add: replay_prefix_def Let_def)
    moreover have "json_ok (JDict (last_forwarded ! i))" using ok len i by simp
    ultimately show ?thesis by (simp only: message_eq_def py_eq_refl)
  qed
qed

section \<open>Properties\<close>

text \<open>C34: The overlay replays exactly what is safe: position \<open>i\<close> gets the message forwarded last turn
  when last turn forwarded one message per original and all current originals up to and including \<open>i\<close>
  have the content of last turn's; every other position keeps this turn's message, and no message is
  added or dropped.
\<close>
theorem overlay_exact:
  "overlay_cached_prefix optimized current previous_original previous_forwarded =
   map (\<lambda>i. if (\<exists>prev_orig prev_fwd. previous_original = Some prev_orig \<and> previous_forwarded = Some prev_fwd \<and>
                  length prev_fwd = length prev_orig \<and> i < length prev_orig \<and> i < length current \<and>
                  list_all2 same_content (take (Suc i) current) (take (Suc i) prev_orig))
            then the previous_forwarded ! i else optimized ! i) [0..<length optimized]"
proof (cases "is_empty previous_original \<or> is_empty previous_forwarded")
  case True
  then show ?thesis by (auto simp: overlay_cached_prefix_def is_empty_def map_nth)
next
  case False
  then obtain prev_orig prev_fwd where p: "previous_original = Some prev_orig" "previous_forwarded = Some prev_fwd"
    by (auto simp: is_empty_def)
  have "replayed current prev_orig prev_fwd i \<longleftrightarrow>
      length prev_fwd = length prev_orig \<and> i < length prev_orig \<and> i < length current \<and>
      list_all2 same_content (take (Suc i) current) (take (Suc i) prev_orig)" for i
    by (auto simp: replayed_def list_all2_conv_all_nth less_Suc_eq_le)
  then show ?thesis by (simp add: p overlay_positions)
qed

text \<open>C35: Owning the breakpoint changes nothing else: the normalised messages are the same up to block markers, have
  the same canonical form, carry exactly one block marker when some message ends in a block
  and none otherwise, and normalising again changes nothing.
\<close>
theorem breakpoint_normalized:
  "map unmark (normalize_message_cache_control messages) = map unmark messages \<and>
   map (\<lambda>msg. canonicalize_for_prefix_compare (JDict msg)) (normalize_message_cache_control messages) =
     map (\<lambda>msg. canonicalize_for_prefix_compare (JDict msg)) messages \<and>
   breakpoints (normalize_message_cache_control messages) = (if list_ex block_style messages then 1 else 0) \<and>
   normalize_message_cache_control (normalize_message_cache_control messages) = normalize_message_cache_control messages"
  by (intro conjI map_unmark_normalize canonical_normalize breakpoints_normalize normalize_idem)

text \<open>
  Only the blocks of a message are searched: a marker on a block nested in a tool result, or on the message
  itself, stays, and adds to the one that is placed.
\<close>
lemma nested_marker_kept:
  "normalize_message_cache_control
     [[(''role'', JStr ''user''),
       (''content'', JList [JDict [(''type'', JStr ''tool_result''),
          (''content'', JList [JDict [(''type'', JStr ''text''), (''cache_control'', JDict [(''type'', JStr ''ephemeral'')])]])]])]] =
   [[(''role'', JStr ''user''),
     (''content'', JList [JDict [(''type'', JStr ''tool_result''),
        (''content'', JList [JDict [(''type'', JStr ''text''), (''cache_control'', JDict [(''type'', JStr ''ephemeral'')])]]),
        (''cache_control'', JDict [(''type'', JStr ''ephemeral'')])]])]]"
  by code_simp

end
