(* ===== verification/Prefix_Tracker.thy ===== *)
theory Prefix_Tracker
  imports Prefix_Replay
begin

text \<open>
  The session state of \<open>headroom/cache/prefix_tracker.py\<close>: \<open>PrefixCacheTracker\<close>, which records what was
  forwarded and how much of it the provider cached, and \<open>SessionTrackerStore\<close>, which finds the tracker
  of a conversation. Trackers are shared objects, changed by the handlers long after the store
  returned them, so the store keeps a heap of trackers and maps keys to addresses. Every reading of the
  clock is an argument. The read-maturation manager that rides on a tracker is modelled in
  \<open>Read_Maturation\<close>. \<open>rp\<close> is the \<open>repr\<close> of floats and containers, \<open>frepr\<close> the JSON rendering of floats, \<open>md5\<close> the hexadecimal MD5 of a byte string.
\<close>

section \<open>Configuration and data\<close>

record PrefixFreezeConfig =
  pf_enabled :: bool
  pf_min_cached_tokens :: int
  pf_session_ttl_seconds :: int
  pf_force_compress_threshold :: rat
  pf_cache_ttl_seconds :: "int option"
  pf_max_lineages_per_session :: int

definition default_freeze_config :: PrefixFreezeConfig where
  "default_freeze_config =
     \<lparr>pf_enabled = True, pf_min_cached_tokens = 1024, pf_session_ttl_seconds = 600, pf_force_compress_threshold = 1/2,
      pf_cache_ttl_seconds = None, pf_max_lineages_per_session = 32\<rparr>"

definition PROVIDER_READ_DISCOUNT :: "(string, rat) pydict" where
  "PROVIDER_READ_DISCOUNT = [(''anthropic'', 9/10), (''openai'', 1/2), (''gemini'', 9/10), (''bedrock'', 9/10)]"

definition PROVIDER_CACHE_TTL_SECONDS :: "(string, int) pydict" where
  "PROVIDER_CACHE_TTL_SECONDS = [(''anthropic'', 300), (''openai'', 300), (''gemini'', 300), (''bedrock'', 300)]"

record FreezeStats =
  fs_busts_avoided :: int
  fs_tokens_preserved :: int
  fs_compression_foregone_tokens :: int
  fs_net_benefit_tokens :: int
  fs_frozen_message_count :: nat
  fs_turn_number :: nat

definition MISS_TTL_EXPIRY :: string where "MISS_TTL_EXPIRY = ''ttl_expiry''"
definition MISS_PREFIX_CHANGE :: string where "MISS_PREFIX_CHANGE = ''prefix_change''"
definition MISS_COLD_START :: string where "MISS_COLD_START = ''cold_start''"
definition MISS_UNKNOWN :: string where "MISS_UNKNOWN = ''unknown''"

record CacheMissAttribution =
  cm_is_miss :: bool
  cm_reason :: string
  cm_idle_seconds :: rat
  cm_cache_ttl_seconds :: int
  cm_expected_cached_tokens :: int
  cm_cache_read_tokens :: int
  cm_prefix_changed :: bool
  cm_ttl_exceeded :: bool

record PrefixCacheTracker =
  pt_provider :: string
  pt_config :: PrefixFreezeConfig
  pt_cached_token_count :: int
  pt_cached_message_count :: nat
  pt_turn_number :: nat
  pt_last_activity :: rat
  pt_last_original_messages :: "message list"
  pt_last_forwarded_messages :: "message list"
  pt_idle_seconds_at_fetch :: rat
  pt_busts_avoided :: int
  pt_tokens_preserved :: int
  pt_compression_foregone_tokens :: int

definition tracker_init :: "string \<Rightarrow> PrefixFreezeConfig \<Rightarrow> rat \<Rightarrow> PrefixCacheTracker" where
  "tracker_init provider config now =
     \<lparr>pt_provider = provider, pt_config = config, pt_cached_token_count = 0, pt_cached_message_count = 0, pt_turn_number = 0,
      pt_last_activity = now, pt_last_original_messages = [], pt_last_forwarded_messages = [], pt_idle_seconds_at_fetch = 0,
      pt_busts_avoided = 0, pt_tokens_preserved = 0, pt_compression_foregone_tokens = 0\<rparr>"

section \<open>The estimate of message tokens\<close>

definition add_len :: "json \<Rightarrow> nat \<Rightarrow> py_error + nat" where
  "add_len v chars = and_then (py_len v) (\<lambda>n. Inr (chars + n))"

definition inner_text_chars :: "json \<Rightarrow> nat \<Rightarrow> py_error + nat" where
  "inner_text_chars b chars = (case b of JDict d \<Rightarrow> add_len (dict_get_default d ''text'' (JStr [])) chars | _ \<Rightarrow> Inr chars)"

definition block_chars :: "(rat \<Rightarrow> string) \<Rightarrow> json \<Rightarrow> nat \<Rightarrow> py_error + nat" where
  "block_chars frepr block chars =
     (case block of
        JDict d \<Rightarrow>
          let block_type = dict_get_default d ''type'' (JStr [])
          in if block_type = JStr ''text'' then add_len (dict_get_default d ''text'' (JStr [])) chars
             else if block_type = JStr ''tool_result'' then
               (case dict_get_default d ''content'' (JStr []) of
                  JStr inner \<Rightarrow> Inr (chars + length inner)
                | JList inner \<Rightarrow> fold_err inner_text_chars inner chars
                | _ \<Rightarrow> Inr chars)
             else if block_type = JStr ''tool_use'' then
               (case dict_get_default d ''input'' JNull of
                  JStr inp \<Rightarrow> Inr (chars + length inp)
                | JDict inp \<Rightarrow> Inr (chars + length (json_compact json_escape_ascii frepr (JDict inp)))
                | _ \<Rightarrow> Inr chars)
             else
               let text = dict_get_default d ''text'' (JStr [])
               in if truthy text then add_len text chars else Inr chars
      | _ \<Rightarrow> Inr chars)"

text \<open>\<open>fn.get("name", "")\<close> and \<open>fn.get("arguments", "")\<close>, rendered.\<close>

definition call_chars :: "(json \<Rightarrow> string) \<Rightarrow> json \<Rightarrow> nat \<Rightarrow> py_error + nat" where
  "call_chars rp fn chars =
     and_then (json_get fn ''name'' (JStr [])) (\<lambda>name.
       and_then (json_get fn ''arguments'' (JStr [])) (\<lambda>arguments.
         Inr (chars + (length (py_str rp name) + length (py_str rp arguments)))))"

definition tool_call_chars :: "(json \<Rightarrow> string) \<Rightarrow> json \<Rightarrow> nat \<Rightarrow> py_error + nat" where
  "tool_call_chars rp tc chars =
     (case tc of
        JDict d \<Rightarrow> call_chars rp (py_or (dict_get_default d ''function'' JNull) (JDict [])) chars
      | _ \<Rightarrow> Inr chars)"

definition message_chars :: "(json \<Rightarrow> string) \<Rightarrow> (rat \<Rightarrow> string) \<Rightarrow> message \<Rightarrow> py_error + nat" where
  "message_chars rp frepr msg =
     and_then (case dict_get_default msg ''content'' (JStr []) of
                 JStr content \<Rightarrow> Inr (length content)
               | JList content \<Rightarrow> fold_err (block_chars frepr) content 0
               | _ \<Rightarrow> Inr 0) (\<lambda>chars.
       and_then (let v = dict_get_default msg ''tool_calls'' JNull in if truthy v then py_iter v else Inr []) (\<lambda>tcs.
         and_then (fold_err (tool_call_chars rp) tcs chars) (\<lambda>chars.
           and_then (case dict_get_default msg ''function_call'' JNull of
                       JDict fc \<Rightarrow> call_chars rp (JDict fc) chars
                     | _ \<Rightarrow> Inr chars) (\<lambda>chars. Inr (chars + 20)))))"

fun estimate_message_tokens :: "(json \<Rightarrow> string) \<Rightarrow> (rat \<Rightarrow> string) \<Rightarrow> message list \<Rightarrow> py_error + int list" where
  "estimate_message_tokens rp frepr [] = Inr []"
| "estimate_message_tokens rp frepr (msg # messages) =
     and_then (message_chars rp frepr msg) (\<lambda>chars.
       and_then (estimate_message_tokens rp frepr messages) (\<lambda>counts.
         Inr (max 1 (py_int (of_nat chars / (7/2))) # counts)))"

section \<open>The tracker\<close>

definition get_frozen_message_count :: "PrefixCacheTracker \<Rightarrow> nat" where
  "get_frozen_message_count t =
     (if \<not> pf_enabled (pt_config t) then 0
      else if pt_turn_number t = 0 then 0
      else if pt_cached_token_count t < pf_min_cached_tokens (pt_config t) then 0
      else pt_cached_message_count t)"

text \<open>The walk over the token counts, which stops at the first message beyond the cached amount.\<close>

fun frozen_walk :: "int \<Rightarrow> int \<Rightarrow> int list \<Rightarrow> nat" where
  "frozen_walk total_cached accumulated [] = 0"
| "frozen_walk total_cached accumulated (tok_count # counts) =
     (if accumulated + tok_count \<le> total_cached then Suc (frozen_walk total_cached (accumulated + tok_count) counts) else 0)"

text \<open>The estimate may raise; what was assigned before stays.\<close>

definition update_from_response ::
  "(json \<Rightarrow> string) \<Rightarrow> (rat \<Rightarrow> string) \<Rightarrow> rat \<Rightarrow> int \<Rightarrow> int \<Rightarrow> message list \<Rightarrow> int list option \<Rightarrow> message list option
     \<Rightarrow> PrefixCacheTracker \<Rightarrow> PrefixCacheTracker \<times> py_error option" where
  "update_from_response rp frepr now cache_read cache_write messages counts original t =
     (let t1 = t\<lparr>pt_last_activity := now, pt_turn_number := pt_turn_number t + 1,
                 pt_last_original_messages := (if is_empty original then messages else the original),
                 pt_last_forwarded_messages := messages\<rparr>;
          total_cached = cache_read + cache_write
      in if total_cached = 0 then (t1\<lparr>pt_cached_token_count := 0, pt_cached_message_count := 0\<rparr>, None)
         else
           case (case counts of Some c \<Rightarrow> Inr c | None \<Rightarrow> estimate_message_tokens rp frepr messages) of
             Inl e \<Rightarrow> (t1, Some e)
           | Inr c \<Rightarrow> (t1\<lparr>pt_cached_token_count := total_cached, pt_cached_message_count := frozen_walk total_cached 0 c\<rparr>, None))"

definition resolved_cache_ttl_seconds :: "PrefixCacheTracker \<Rightarrow> int" where
  "resolved_cache_ttl_seconds t =
     (case pf_cache_ttl_seconds (pt_config t) of
        Some ttl \<Rightarrow> ttl
      | None \<Rightarrow> dict_get_default PROVIDER_CACHE_TTL_SECONDS (pt_provider t) 300)"

definition seconds_since_activity :: "rat \<Rightarrow> PrefixCacheTracker \<Rightarrow> rat" where
  "seconds_since_activity now t = max 0 (now - pt_last_activity t)"

definition forwarded_prefix_stable :: "message list \<Rightarrow> PrefixCacheTracker \<Rightarrow> bool" where
  "forwarded_prefix_stable current t =
     (let prev = pt_last_forwarded_messages t
      in if prev = [] then True
         else if length current < length prev then False
         else messages_eq (take (length prev) current) prev)"

definition classify_cache_miss ::
  "rat \<Rightarrow> int \<Rightarrow> message list \<Rightarrow> rat option \<Rightarrow> PrefixCacheTracker \<Rightarrow> CacheMissAttribution" where
  "classify_cache_miss now cache_read current_forwarded idle_seconds t =
     (let idle = (case idle_seconds of Some s \<Rightarrow> s | None \<Rightarrow> seconds_since_activity now t);
          ttl = resolved_cache_ttl_seconds t;
          expected = pt_cached_token_count t
      in if expected \<le> 0 then
           \<lparr>cm_is_miss = False, cm_reason = MISS_COLD_START, cm_idle_seconds = idle, cm_cache_ttl_seconds = ttl,
            cm_expected_cached_tokens = expected, cm_cache_read_tokens = cache_read, cm_prefix_changed = False, cm_ttl_exceeded = False\<rparr>
         else if 0 < cache_read then
           \<lparr>cm_is_miss = False, cm_reason = ''hit'', cm_idle_seconds = idle, cm_cache_ttl_seconds = ttl,
            cm_expected_cached_tokens = expected, cm_cache_read_tokens = cache_read, cm_prefix_changed = False, cm_ttl_exceeded = False\<rparr>
         else
           let ttl_exceeded = of_int ttl < idle;
               prefix_changed = (\<not> forwarded_prefix_stable current_forwarded t)
           in \<lparr>cm_is_miss = True,
               cm_reason = (if ttl_exceeded then MISS_TTL_EXPIRY else if prefix_changed then MISS_PREFIX_CHANGE else MISS_UNKNOWN),
               cm_idle_seconds = idle, cm_cache_ttl_seconds = ttl, cm_expected_cached_tokens = expected,
               cm_cache_read_tokens = cache_read, cm_prefix_changed = prefix_changed, cm_ttl_exceeded = ttl_exceeded\<rparr>)"

definition record_bust_avoided :: "int \<Rightarrow> int \<Rightarrow> PrefixCacheTracker \<Rightarrow> PrefixCacheTracker" where
  "record_bust_avoided preserved foregone t =
     t\<lparr>pt_busts_avoided := pt_busts_avoided t + 1, pt_tokens_preserved := pt_tokens_preserved t + preserved,
       pt_compression_foregone_tokens := pt_compression_foregone_tokens t + foregone\<rparr>"

definition should_force_compress :: "int \<Rightarrow> int \<Rightarrow> int \<Rightarrow> PrefixCacheTracker \<Rightarrow> bool" where
  "should_force_compress message_index message_tokens estimated t =
     (if int (pt_cached_message_count t) \<le> message_index then True
      else if message_tokens = 0 then False
      else
        let savings_fraction = (of_int (message_tokens - estimated) :: rat) / of_int message_tokens;
            read_discount = dict_get_default PROVIDER_READ_DISCOUNT (pt_provider t) (1/2)
        in read_discount < savings_fraction)"

definition tracker_is_expired :: "rat \<Rightarrow> PrefixCacheTracker \<Rightarrow> bool" where
  "tracker_is_expired now t = (of_int (pf_session_ttl_seconds (pt_config t)) < now - pt_last_activity t)"

definition tracker_stats :: "PrefixCacheTracker \<Rightarrow> FreezeStats" where
  "tracker_stats t =
     \<lparr>fs_busts_avoided = pt_busts_avoided t, fs_tokens_preserved = pt_tokens_preserved t,
      fs_compression_foregone_tokens = pt_compression_foregone_tokens t,
      fs_net_benefit_tokens = pt_tokens_preserved t - pt_compression_foregone_tokens t,
      fs_frozen_message_count = pt_cached_message_count t, fs_turn_number = pt_turn_number t\<rparr>"

section \<open>A conversation on the Anthropic handler\<close>

text \<open>
  One turn: the messages forwarded are recorded beside the client's, each with the
  assistant's answer appended when the response had one. Whether the turn is a cold one, and whether the
  optimised messages count more tokens than the originals outside cache mode, comes from outside.
\<close>

record turn =
  tn_original :: "message list"
  tn_optimized :: "message list"
  tn_current :: "message list"
  tn_cold :: bool
  tn_inflated :: bool
  tn_assistant :: "message option"
  tn_cache_read :: int
  tn_cache_write :: int
  tn_now :: rat

definition record_turn ::
  "(json \<Rightarrow> string) \<Rightarrow> (rat \<Rightarrow> string) \<Rightarrow> turn \<Rightarrow> message list \<Rightarrow> PrefixCacheTracker \<Rightarrow> PrefixCacheTracker \<times> py_error option" where
  "record_turn rp frepr tn forwarded t =
     (let answer = (case tn_assistant tn of Some a \<Rightarrow> [a] | None \<Rightarrow> [])
      in update_from_response rp frepr (tn_now tn) (tn_cache_read tn) (tn_cache_write tn)
           (forwarded @ answer) None (Some (tn_current tn @ answer)) t)"

definition forward_turn :: "turn \<Rightarrow> PrefixCacheTracker \<Rightarrow> message list" where
  "forward_turn tn t =
     forward_anthropic (tn_cold tn) (tn_inflated tn) (tn_original tn) (tn_optimized tn) (tn_current tn)
       (pt_last_original_messages t) (pt_last_forwarded_messages t)"

fun forwarded_lists :: "(json \<Rightarrow> string) \<Rightarrow> (rat \<Rightarrow> string) \<Rightarrow> turn list \<Rightarrow> PrefixCacheTracker \<Rightarrow> message list list" where
  "forwarded_lists rp frepr [] t = []"
| "forwarded_lists rp frepr (tn # turns) t =
     forward_turn tn t # forwarded_lists rp frepr turns (fst (record_turn rp frepr tn (forward_turn tn t) t))"

text \<open>
  No turn is cold or goes back to the client's messages: where the tokens grew, something was replayed.
\<close>

definition replays :: "turn \<Rightarrow> PrefixCacheTracker \<Rightarrow> bool" where
  "replays tn t = snd (replay_prefix (tn_optimized tn) (tn_current tn) (pt_last_original_messages t) (pt_last_forwarded_messages t))"

fun replay_kept :: "(json \<Rightarrow> string) \<Rightarrow> (rat \<Rightarrow> string) \<Rightarrow> turn list \<Rightarrow> PrefixCacheTracker \<Rightarrow> bool" where
  "replay_kept rp frepr [] t = True"
| "replay_kept rp frepr (tn # turns) t =
     (\<not> tn_cold tn \<and> (tn_inflated tn \<longrightarrow> replays tn t) \<and>
      replay_kept rp frepr turns (fst (record_turn rp frepr tn (forward_turn tn t) t)))"

text \<open>
  An append-only conversation: the client sends one message for each of the pipeline, and repeats what was recorded
  of the turn before.
\<close>

definition extends :: "message list \<Rightarrow> message list \<Rightarrow> bool" where
  "extends recorded current =
     (length recorded \<le> length current \<and> (\<forall>i<length recorded. same_content (current ! i) (recorded ! i)))"

definition well_formed :: "message list \<Rightarrow> bool" where
  "well_formed messages = list_all (\<lambda>msg. json_ok (JDict msg)) messages"

fun append_only :: "message list \<Rightarrow> turn list \<Rightarrow> bool" where
  "append_only recorded [] = True"
| "append_only recorded (tn # turns) =
     (length (tn_optimized tn) = length (tn_current tn) \<and> tn_current tn \<noteq> [] \<and> well_formed (tn_optimized tn) \<and>
      (case tn_assistant tn of Some a \<Rightarrow> json_ok (JDict a) | None \<Rightarrow> True) \<and>
      extends recorded (tn_current tn) \<and>
      append_only (tn_current tn @ (case tn_assistant tn of Some a \<Rightarrow> [a] | None \<Rightarrow> [])) turns)"

lemma replay_well_formed:
  assumes "well_formed optimized" "well_formed last_forwarded"
  shows "well_formed (fst (replay_prefix optimized current last_original last_forwarded))"
proof -
  have "json_ok (JDict (fst (replay_prefix optimized current last_original last_forwarded) ! i))" if "i < length optimized" for i
    using assms replay_prefix_message [OF that, of current last_original last_forwarded] that
    by (auto simp: well_formed_def list_all_length replayed_def simp del: json_ok.simps)
  then show ?thesis by (simp add: well_formed_def list_all_length del: json_ok.simps)
qed

lemma forward_turn_eq:
  "\<not> tn_cold tn \<Longrightarrow> tn_inflated tn \<longrightarrow> replays tn t \<Longrightarrow> forward_turn tn t =
   normalize_message_cache_control
     (fst (replay_prefix (tn_optimized tn) (tn_current tn) (pt_last_original_messages t) (pt_last_forwarded_messages t)))"
  by (auto simp: forward_turn_def forward_anthropic_def replays_def split: prod.splits)

lemma length_forward_turn:
  "\<not> tn_cold tn \<Longrightarrow> tn_inflated tn \<longrightarrow> replays tn t \<Longrightarrow> length (forward_turn tn t) = length (tn_optimized tn)"
  by (simp add: forward_turn_eq)

lemma forward_turn_well_formed:
  assumes "\<not> tn_cold tn" "tn_inflated tn \<longrightarrow> replays tn t" "well_formed (tn_optimized tn)" "well_formed (pt_last_forwarded_messages t)"
  shows "well_formed (forward_turn tn t)"
  using replay_well_formed [OF assms(3,4), of "tn_current tn" "pt_last_original_messages t"] json_ok_normalize
  by (auto simp: well_formed_def list_all_iff forward_turn_eq [OF assms(1,2)] simp del: json_ok.simps)

lemma forward_turn_repeats:
  assumes d: "\<not> tn_cold tn" "tn_inflated tn \<longrightarrow> replays tn t"
    and a: "length (pt_last_forwarded_messages t) = length (pt_last_original_messages t)"
    "extends (pt_last_original_messages t) (tn_current tn)" "length (tn_optimized tn) = length (tn_current tn)"
    "well_formed (tn_optimized tn)" "well_formed (pt_last_forwarded_messages t)"
  shows "repeats (pt_last_forwarded_messages t) (forward_turn tn t)"
proof -
  let ?lf = "pt_last_forwarded_messages t" and ?r = "fst (replay_prefix (tn_optimized tn) (tn_current tn) (pt_last_original_messages t) (pt_last_forwarded_messages t))"
  have eq: "message_eq (?lf ! i) (?r ! i)" if "i < length ?lf" for i
    using a that by (intro replay_prefix_append_only) (auto simp: extends_def well_formed_def list_all_iff simp del: json_ok.simps)
  have r: "well_formed ?r" using a by (intro replay_well_formed)
  have "message_eq (unmark (?lf ! i)) (unmark (forward_turn tn t ! i))" if i: "i < length ?lf" for i
  proof -
    have len: "i < length ?r" using i assms by (simp add: extends_def)
    have "json_ok (JDict (?lf ! i))" "json_ok (JDict (?r ! i))"
      using a(5) r i len by (auto simp: well_formed_def list_all_length simp del: json_ok.simps)
    from message_eq_unmark [OF eq [OF i] this] show ?thesis
      using len by (simp add: forward_turn_eq [OF d] unmark_normalize_nth)
  qed
  then show ?thesis using a(1-3) by (simp add: repeats_nth extends_def length_forward_turn [OF d])
qed

lemma record_turn_messages:
  assumes "tn_current tn \<noteq> []"
  shows "pt_last_original_messages (fst (record_turn rp frepr tn forwarded t)) = tn_current tn @ (case tn_assistant tn of Some a \<Rightarrow> [a] | None \<Rightarrow> [])"
    "pt_last_forwarded_messages (fst (record_turn rp frepr tn forwarded t)) = forwarded @ (case tn_assistant tn of Some a \<Rightarrow> [a] | None \<Rightarrow> [])"
  using assms by (auto simp: record_turn_def update_from_response_def Let_def is_empty_def split: sum.splits option.splits)

lemma forwarded_lists_repeat:
  assumes "replay_kept rp frepr turns t" "append_only (pt_last_original_messages t) turns"
    "length (pt_last_forwarded_messages t) = length (pt_last_original_messages t)" "well_formed (pt_last_forwarded_messages t)"
  shows "sorted_wrt repeats (pt_last_forwarded_messages t # forwarded_lists rp frepr turns t)"
  using assms
proof (induction turns arbitrary: t)
  case (Cons tn turns)
  let ?f = "forward_turn tn t"
  let ?t = "fst (record_turn rp frepr tn ?f t)"
  let ?a = "case tn_assistant tn of Some a \<Rightarrow> [a] | None \<Rightarrow> []"
  have ao: "length (tn_optimized tn) = length (tn_current tn)" "tn_current tn \<noteq> []" "well_formed (tn_optimized tn)"
    "extends (pt_last_original_messages t) (tn_current tn)" "append_only (tn_current tn @ ?a) turns" "well_formed ?a"
    using Cons.prems(2) by (auto simp: well_formed_def split: option.splits)
  have d: "\<not> tn_cold tn" "tn_inflated tn \<longrightarrow> replays tn t" "replay_kept rp frepr turns ?t"
    using Cons.prems(1) by simp_all
  have rec: "pt_last_original_messages ?t = tn_current tn @ ?a" "pt_last_forwarded_messages ?t = ?f @ ?a"
    using record_turn_messages [OF ao(2)] by blast+
  have wf: "well_formed (?f @ ?a)"
    using forward_turn_well_formed [OF d(1,2) ao(3) Cons.prems(4)] ao(6) by (simp add: well_formed_def)
  have "sorted_wrt repeats (pt_last_forwarded_messages ?t # forwarded_lists rp frepr turns ?t)"
    using Cons.IH [of ?t] rec ao wf d by (simp add: length_forward_turn)
  then have s: "sorted_wrt repeats ((?f @ ?a) # forwarded_lists rp frepr turns ?t)" using rec by simp
  have r: "repeats (pt_last_forwarded_messages t) ?f"
    using forward_turn_repeats [OF d(1,2) Cons.prems(3) ao(4,1,3) Cons.prems(4)] .
  have "repeats ?f x" if "x \<in> set (forwarded_lists rp frepr turns ?t)" for x
    using s that repeats_prefix by auto
  with s r show ?case using repeats_trans [OF r] by auto
qed simp

section \<open>The frozen prefix\<close>

lemma frozen_walk_le: "frozen_walk cached acc counts \<le> length counts"
  by (induction cached acc counts rule: frozen_walk.induct) auto

lemma frozen_walk_sum: "acc \<le> cached \<Longrightarrow> acc + sum_list (take (frozen_walk cached acc counts) counts) \<le> cached"
  by (induction cached acc counts rule: frozen_walk.induct) (auto simp: algebra_simps)

lemma frozen_walk_next:
  "frozen_walk cached acc counts < length counts \<Longrightarrow> cached < acc + sum_list (take (Suc (frozen_walk cached acc counts)) counts)"
  by (induction cached acc counts rule: frozen_walk.induct) (auto simp: algebra_simps split: if_splits)

lemma estimate_counts: "estimate_message_tokens rp frepr messages = Inr counts \<Longrightarrow> length counts = length messages \<and> (\<forall>c\<in>set counts. 1 \<le> c)"
  by (induction messages arbitrary: counts) (auto simp: and_then_Inr_iff)

text \<open>C36: After a response with something cached, and with the messages' own token estimates, the next turn
  freezes the longest leading run of messages whose tokens fit into what the provider cached: the run fits, one more message does
  not, and the count never exceeds the messages sent. Nothing is frozen while the freeze is disabled or less than
  the configured minimum is cached.
\<close>
theorem frozen_prefix_exact:
  assumes "update_from_response rp frepr now cache_read cache_write messages None original t = (t', None)"
    and "0 < cache_read + cache_write"
  shows "\<exists>counts. estimate_message_tokens rp frepr messages = Inr counts \<and> length counts = length messages \<and>
    (let n = get_frozen_message_count t' in
       if pf_enabled (pt_config t) \<and> pf_min_cached_tokens (pt_config t) \<le> cache_read + cache_write
       then n \<le> length messages \<and> sum_list (take n counts) \<le> cache_read + cache_write \<and>
         (n < length messages \<longrightarrow> cache_read + cache_write < sum_list (take (Suc n) counts))
       else n = 0)"
proof -
  obtain counts where c: "estimate_message_tokens rp frepr messages = Inr counts"
    and n: "pt_cached_message_count t' = frozen_walk (cache_read + cache_write) 0 counts"
    and t': "pt_cached_token_count t' = cache_read + cache_write" "pt_config t' = pt_config t" "pt_turn_number t' \<noteq> 0"
    using assms by (auto simp: update_from_response_def Let_def split: sum.splits)
  note walk = frozen_walk_le [of "cache_read + cache_write" 0 counts] frozen_walk_sum [of 0 "cache_read + cache_write" counts]
    frozen_walk_next [of "cache_read + cache_write" 0 counts]
  show ?thesis
    using c estimate_counts [OF c] walk assms(2) by (auto simp: get_frozen_message_count_def t' n)
qed

section \<open>Append-only conversations keep their prefix\<close>

text \<open>C5: In an append-only conversation (each request repeats the recorded messages up to cache markers, transport
  annotations and the string form of a text, and appends to them), on turns whose prompt cache has not lapsed,
  whatever the compression pipeline produces, one message for each of the client's: every list of messages that
  the compression stage of the Anthropic handler hands on begins with every earlier one, equal message for
  message except for where the cache breakpoint sits, and carries at most one breakpoint. A turn that counts
  more tokens than the client's messages outside cache mode is covered when the replay changed something; else the
  guard returns the client's messages (lemma reproduced_prefix_reverted), which is excluded here. Stages after
  the guard (read maturation, memory, extensions) are not part of it.
\<close>
theorem conversation_prefix_stable:
  assumes "append_only [] turns" and "replay_kept rp frepr turns (tracker_init provider config now)"
  shows "sorted_wrt repeats (forwarded_lists rp frepr turns (tracker_init provider config now)) \<and>
    list_all (\<lambda>forwarded. breakpoints forwarded \<le> 1) (forwarded_lists rp frepr turns (tracker_init provider config now))"
proof
  show "sorted_wrt repeats (forwarded_lists rp frepr turns (tracker_init provider config now))"
    using forwarded_lists_repeat [of rp frepr turns "tracker_init provider config now"] assms
    by (simp add: tracker_init_def well_formed_def)
  have "replay_kept rp frepr turns t \<Longrightarrow> list_all (\<lambda>forwarded. breakpoints forwarded \<le> 1) (forwarded_lists rp frepr turns t)" for t
    by (induction turns arbitrary: t) (auto simp: forward_turn_eq breakpoints_normalize)
  then show "list_all (\<lambda>forwarded. breakpoints forwarded \<le> 1) (forwarded_lists rp frepr turns (tracker_init provider config now))"
    using assms(2) .
qed

definition text_message :: "string \<Rightarrow> string \<Rightarrow> bool \<Rightarrow> message" where
  "text_message role txt marked =
     [(''role'', JStr role),
      (''content'', JList [JDict ([(''type'', JStr ''text''), (''text'', JStr txt)] @
         (if marked then [(''cache_control'', JDict [(''type'', JStr ''ephemeral''), (''ttl'', JStr ''1h'')])] else []))])]"

definition sample_turns :: "turn list" where
  "sample_turns =
     [\<lparr>tn_original = [text_message ''user'' ''a long log'' True], tn_optimized = [text_message ''user'' ''log'' True],
       tn_current = [text_message ''user'' ''a long log'' True], tn_cold = False, tn_inflated = False,
       tn_assistant = Some (text_message ''assistant'' ''ok'' False),
       tn_cache_read = 0, tn_cache_write = 9, tn_now = 10\<rparr>,
      \<lparr>tn_original = [], tn_optimized = [text_message ''user'' ''a long log'' False, text_message ''assistant'' ''ok'' False, text_message ''user'' ''go'' True],
       tn_current = [[(''role'', JStr ''user''), (''content'', JStr ''a long log'')], text_message ''assistant'' ''ok'' False, text_message ''user'' ''go'' True],
       tn_cold = False, tn_inflated = True, tn_assistant = None, tn_cache_read = 9, tn_cache_write = 4, tn_now = 20\<rparr>]"

lemma sample_append_only: "append_only [] sample_turns"
  by code_simp

lemma sample_replay_kept: "replay_kept (\<lambda>_. []) (\<lambda>_. []) sample_turns (tracker_init ''anthropic'' default_freeze_config 0)"
  by code_simp

lemma sample_forwarded:
  "forwarded_lists (\<lambda>_. []) (\<lambda>_. []) sample_turns (tracker_init ''anthropic'' default_freeze_config 0) =
   [[text_message ''user'' ''log'' True],
    [text_message ''user'' ''log'' False, text_message ''assistant'' ''ok'' False, text_message ''user'' ''go'' True]]"
  by code_simp

theorem conversation_prefix_stable_witness:
  "repeats [text_message ''user'' ''log'' True]
     [text_message ''user'' ''log'' False, text_message ''assistant'' ''ok'' False, text_message ''user'' ''go'' True]"
  using conversation_prefix_stable [OF sample_append_only sample_replay_kept]
  unfolding sample_forwarded by (simp del: One_nat_def)

theorem frozen_prefix_exact_witness:
  "let m = text_message ''user'' ''four words of text'' False;
       t' = fst (update_from_response (\<lambda>_. []) (\<lambda>_. []) 5 1000 25 [m, m] None None (tracker_init ''anthropic'' default_freeze_config 0))
   in get_frozen_message_count t' \<le> 2"
proof -
  let ?m = "text_message ''user'' ''four words of text'' False"
  let ?u = "update_from_response (\<lambda>_. []) (\<lambda>_. []) 5 1000 25 [?m, ?m] None None (tracker_init ''anthropic'' default_freeze_config 0)"
  have "snd ?u = None" by code_simp
  then have "?u = (fst ?u, None)" by (metis prod.collapse)
  from frozen_prefix_exact [OF this] show ?thesis
    by (auto simp: Let_def tracker_init_def default_freeze_config_def)
qed

section \<open>Where the handlers fall short\<close>

text \<open>
  The verdict on a cache miss compares the forwarded messages with their markers, which the
  handler moves on every turn: a stable prefix is reported as changed.
\<close>
lemma moved_breakpoint_blamed:
  "let t0 = tracker_init ''anthropic'' default_freeze_config 0; tn = hd sample_turns;
       t = fst (record_turn (\<lambda>_. []) (\<lambda>_. []) tn (forward_turn tn t0) t0); f = forward_turn (sample_turns ! 1) t
   in repeats (pt_last_forwarded_messages t) f \<and> cm_reason (classify_cache_miss 20 0 f (Some 10) t) = MISS_PREFIX_CHANGE"
  by code_simp

text \<open>
  The OpenAI handlers record the forwarded messages as the originals: what a later turn replays always has
  the content of the client's own message, never a compressed form of it.
\<close>
lemma openai_replays_originals_only:
  assumes "update_from_response rp frepr now cache_read cache_write forwarded None None t0 = (t, e)" "i < length optimized"
    and "fst (replay_prefix optimized current (pt_last_original_messages t) (pt_last_forwarded_messages t)) ! i \<noteq> optimized ! i"
  shows "same_content (current ! i) (fst (replay_prefix optimized current (pt_last_original_messages t) (pt_last_forwarded_messages t)) ! i)"
proof -
  have "pt_last_original_messages t = forwarded" "pt_last_forwarded_messages t = forwarded"
    using assms(1) by (auto simp: update_from_response_def Let_def is_empty_def split: if_splits sum.splits)
  then show ?thesis
    using replay_prefix_message [OF assms(2), of current forwarded forwarded] assms(3) by (auto simp: replayed_def)
qed

text \<open>
  When the pipeline itself reproduces the cached prefix, the replay counts as not done, and a turn whose new
  messages grew goes back to the originals, prefix included.
\<close>
lemma reproduced_prefix_reverted:
  "let lf = [text_message ''user'' ''log'' False]; lo = [text_message ''user'' ''a long log'' False];
       optimized = lf @ [text_message ''user'' ''tail, inflated'' False]; original = lo @ [text_message ''user'' ''tail'' False]
   in repeats lf optimized \<and> \<not> repeats lf (forward_anthropic False True original optimized original lo lf)"
  by code_simp

end
