(* ===== verification/Prefix_Sessions.thy ===== *)
theory Prefix_Sessions
  imports Prefix_Tracker
begin

text \<open>
  \<open>SessionTrackerStore\<close> of \<open>headroom/cache/prefix_tracker.py\<close>: which tracker a request gets. The store maps
  keys to addresses of a heap of trackers, because a handler changes the tracker it was given long after the
  store returned it, even one the store has dropped since. The clock is read several times per
  operation; \<open>fetch_clock\<close> holds the readings of one call of \<open>get_or_create\<close>. The snapshot of a canonical form is the
  form itself, as values carry no NaN.
\<close>

section \<open>The store\<close>

record SessionTrackerStore =
  ss_heap :: "PrefixCacheTracker list"
  ss_trackers :: "(string, nat) pydict"
  ss_default_config :: PrefixFreezeConfig
  ss_last_cleanup :: rat
  ss_cleanup_interval :: rat
  ss_lineages :: "(string, (string, json list) pydict) pydict"
  ss_lineage_counter :: nat

record fetch_clock =
  fc_cleanup :: rat
  fc_expiry :: "string \<Rightarrow> rat"
  fc_idle :: rat
  fc_touch :: rat

definition session_store_init :: "PrefixFreezeConfig \<Rightarrow> rat \<Rightarrow> SessionTrackerStore" where
  "session_store_init config now =
     \<lparr>ss_heap = [], ss_trackers = [], ss_default_config = config, ss_last_cleanup = now, ss_cleanup_interval = 60,
      ss_lineages = [], ss_lineage_counter = 1\<rparr>"

definition maybe_cleanup :: "fetch_clock \<Rightarrow> SessionTrackerStore \<Rightarrow> SessionTrackerStore" where
  "maybe_cleanup clk s =
     (if fc_cleanup clk - ss_last_cleanup s < ss_cleanup_interval s then s
      else
        let expired = map fst (filter (\<lambda>(sid, a). tracker_is_expired (fc_expiry clk sid) (ss_heap s ! a)) (ss_trackers s));
            trackers = dict_del_all expired (ss_trackers s);
            lineages =
              (if expired = [] then ss_lineages s
               else filter (\<lambda>(base, family). family \<noteq> [])
                      (map (\<lambda>(base, family). (base, filter (\<lambda>(k, chain). k \<in> set (dict_keys trackers)) family)) (ss_lineages s)))
        in s\<lparr>ss_trackers := trackers, ss_lineages := lineages, ss_last_cleanup := fc_cleanup clk\<rparr>)"

definition get_or_create :: "fetch_clock \<Rightarrow> string \<Rightarrow> string \<Rightarrow> SessionTrackerStore \<Rightarrow> nat \<times> SessionTrackerStore" where
  "get_or_create clk session_id provider s0 =
     (let s = maybe_cleanup clk s0
      in case dict_get (ss_trackers s) session_id of
           Some a \<Rightarrow>
             (a, s\<lparr>ss_heap := (ss_heap s)[a :=
                    (ss_heap s ! a)\<lparr>pt_idle_seconds_at_fetch := max 0 (fc_idle clk - pt_last_activity (ss_heap s ! a)),
                                     pt_last_activity := fc_touch clk\<rparr>]\<rparr>)
         | None \<Rightarrow>
             (length (ss_heap s),
              s\<lparr>ss_heap := ss_heap s @ [tracker_init provider (ss_default_config s) (fc_touch clk)],
                ss_trackers := dict_set session_id (length (ss_heap s)) (ss_trackers s)\<rparr>))"

section \<open>Lineages\<close>

text \<open>The canonical form of a request, without the messages that are pure directives.\<close>

definition lineage_chain :: "message list \<Rightarrow> json list" where
  "lineage_chain messages = filter (\<lambda>v. v \<noteq> JDict []) (canonicalize_list (map JDict messages))"

text \<open>The search for the longest recorded chain that leads the request; \<open>-1\<close> before any is found.\<close>

definition better_chain :: "json list \<Rightarrow> string \<times> json list \<Rightarrow> string option \<times> int \<Rightarrow> string option \<times> int" where
  "better_chain snap entry best =
     (case (entry, best) of ((key, chain), (best_key, best_len)) \<Rightarrow>
        if length snap < length chain \<or> int (length chain) \<le> best_len then (best_key, best_len)
        else if py_eq_list (take (length chain) snap) chain then (Some key, int (length chain))
        else (best_key, best_len))"

definition best_lineage :: "json list \<Rightarrow> (string, json list) pydict \<Rightarrow> string option" where
  "best_lineage snap family = fst (fold (better_chain snap) family (None, -1))"

definition NUL :: char where
  "NUL = CHR 0x00"

definition overflow_key :: "string \<Rightarrow> string" where
  "overflow_key session_id = session_id @ [NUL] @ ''overflow''"

definition numbered_key :: "string \<Rightarrow> nat \<Rightarrow> string" where
  "numbered_key session_id n = session_id @ [NUL] @ nat_dec n"

definition family_of :: "string \<Rightarrow> SessionTrackerStore \<Rightarrow> (string, json list) pydict" where
  "family_of session_id s = dict_get_default (ss_lineages s) session_id []"

text \<open>
  \<open>family[best_key] = snap\<close>: the dictionary was fetched before the tracker was, so when the fetch
  pruned the session from the index the assignment reaches a dictionary nobody reads.
\<close>

definition stamp_lineage :: "string \<Rightarrow> string \<Rightarrow> json list \<Rightarrow> SessionTrackerStore \<Rightarrow> SessionTrackerStore" where
  "stamp_lineage session_id key snap s =
     (case dict_get (ss_lineages s) session_id of
        Some family \<Rightarrow> s\<lparr>ss_lineages := dict_set session_id (dict_set key snap family) (ss_lineages s)\<rparr>
      | None \<Rightarrow> s)"

text \<open>The whole of \<open>resolve_tracker\<close>; \<open>clk0\<close> holds the readings of its own pruning, \<open>clk\<close> those of the fetch.\<close>

definition resolve_tracker ::
  "fetch_clock \<Rightarrow> fetch_clock \<Rightarrow> string \<Rightarrow> string \<Rightarrow> message list option \<Rightarrow> SessionTrackerStore \<Rightarrow> nat \<times> SessionTrackerStore" where
  "resolve_tracker clk0 clk session_id provider messages s =
     (if is_empty messages \<or> \<not> pf_enabled (ss_default_config s) then get_or_create clk session_id provider s
      else
        let s1 = maybe_cleanup clk0 s; snap = lineage_chain (the messages)
        in if snap = [] then get_or_create clk session_id provider s1
           else
             let family = family_of session_id s1;
                 s2 = s1\<lparr>ss_lineages := (if dict_get (ss_lineages s1) session_id = None
                                          then dict_set session_id [] (ss_lineages s1) else ss_lineages s1)\<rparr>
             in case best_lineage snap family of
                  Some key \<Rightarrow> (let (a, s3) = get_or_create clk key provider s2 in (a, stamp_lineage session_id key snap s3))
                | None \<Rightarrow>
                    if pf_max_lineages_per_session (ss_default_config s) \<le> int (length family)
                    then get_or_create clk (overflow_key session_id) provider s2
                    else if family = []
                    then (let (a, s3) = get_or_create clk session_id provider s2 in (a, stamp_lineage session_id session_id snap s3))
                    else
                      let key = numbered_key session_id (ss_lineage_counter s2);
                          s2' = s2\<lparr>ss_lineage_counter := ss_lineage_counter s2 + 1\<rparr>;
                          (a, s3) = get_or_create clk key provider s2'
                      in (a, stamp_lineage session_id key snap s3))"

definition active_sessions :: "SessionTrackerStore \<Rightarrow> nat" where
  "active_sessions s = length (ss_trackers s)"

section \<open>Session identity\<close>

definition block_text :: "json \<Rightarrow> json list" where
  "block_text block =
     (case block of
        JDict d \<Rightarrow> if dict_get_default d ''type'' JNull = JStr ''text'' then [dict_get_default d ''text'' (JStr [])] else []
      | _ \<Rightarrow> [])"

fun system_parts :: "message list \<Rightarrow> json list" where
  "system_parts [] = []"
| "system_parts (msg # messages) =
     (if dict_get_default msg ''role'' JNull \<noteq> JStr ''system'' then []
      else (case dict_get_default msg ''content'' (JStr []) of
              JStr content \<Rightarrow> [JStr content]
            | JList content \<Rightarrow> concat (map block_text content)
            | _ \<Rightarrow> []) @ system_parts messages)"

definition compute_session_id ::
  "(string \<Rightarrow> string) \<Rightarrow> (rat \<Rightarrow> string) \<Rightarrow> string option \<Rightarrow> string \<Rightarrow> message list \<Rightarrow> string" where
  "compute_session_id md5 frepr session_header model messages =
     (if \<not> is_empty session_header then the session_header
      else take 16 (md5 (utf8_encode (model @ '':'' @ json_compact json_escape_char frepr (JList (system_parts messages))))))"

section \<open>Operations on the store\<close>

text \<open>What happens to the store over time, in any order: requests find their tracker, and responses update the tracker
  they hold.\<close>

datatype store_op =
    Fetch fetch_clock fetch_clock string string "message list option"
  | Update nat "PrefixCacheTracker \<Rightarrow> PrefixCacheTracker"

definition apply_op :: "store_op \<Rightarrow> SessionTrackerStore \<Rightarrow> SessionTrackerStore" where
  "apply_op op s =
     (case op of
        Fetch clk0 clk session_id provider messages \<Rightarrow> snd (resolve_tracker clk0 clk session_id provider messages s)
      | Update a f \<Rightarrow> if a < length (ss_heap s) then s\<lparr>ss_heap := (ss_heap s)[a := f (ss_heap s ! a)]\<rparr> else s)"

section \<open>The invariant\<close>

definition key_shape :: "nat \<Rightarrow> string \<Rightarrow> bool" where
  "key_shape n k =
     (NUL \<notin> set k \<or> (\<exists>b. NUL \<notin> set b \<and> (k = overflow_key b \<or> (\<exists>m<n. k = numbered_key b m))))"

definition lineage_key :: "nat \<Rightarrow> string \<Rightarrow> string \<Rightarrow> bool" where
  "lineage_key n base k = (k = base \<or> (\<exists>m<n. k = numbered_key base m))"

definition family_ok :: "SessionTrackerStore \<Rightarrow> string \<Rightarrow> (string, json list) pydict \<Rightarrow> bool" where
  "family_ok s base family =
     (dict_ok family \<and> int (length family) \<le> max 0 (pf_max_lineages_per_session (ss_default_config s)) \<and>
      (\<forall>(k, chain)\<in>set family. k \<in> set (dict_keys (ss_trackers s)) \<and> chain \<noteq> [] \<and> json_ok_list chain \<and>
         lineage_key (ss_lineage_counter s) base k))"

definition store_ok :: "SessionTrackerStore \<Rightarrow> bool" where
  "store_ok s =
     (dict_ok (ss_trackers s) \<and> distinct (map snd (ss_trackers s)) \<and>
      (\<forall>(k, a)\<in>set (ss_trackers s). a < length (ss_heap s) \<and> key_shape (ss_lineage_counter s) k) \<and>
      dict_ok (ss_lineages s) \<and> (\<forall>(base, family)\<in>set (ss_lineages s). family_ok s base family))"

lemma key_shape_mono: "key_shape m k \<Longrightarrow> m \<le> n \<Longrightarrow> key_shape n k"
  unfolding key_shape_def using order_less_le_trans by blast

lemma lineage_key_mono: "lineage_key m b k \<Longrightarrow> m \<le> n \<Longrightarrow> lineage_key n b k"
  unfolding lineage_key_def using order_less_le_trans by blast

lemma family_ok_mono:
  assumes "family_ok s b f" "set (dict_keys (ss_trackers s)) \<subseteq> set (dict_keys (ss_trackers s'))"
    "ss_default_config s' = ss_default_config s" "ss_lineage_counter s \<le> ss_lineage_counter s'"
  shows "family_ok s' b f"
  using assms(1,2) lineage_key_mono [OF _ assms(4)] by (auto simp: family_ok_def assms(3))

lemma family_of_Some: "dict_get (ss_lineages s) b = Some f \<Longrightarrow> family_of b s = f"
  by (simp add: family_of_def dict_get_default_def)

lemma store_ok_family: "store_ok s \<Longrightarrow> family_ok s b (family_of b s)"
  by (auto simp: family_of_def dict_get_default_def store_ok_def family_ok_def split: option.splits dest!: map_of_SomeD)

subsection \<open>Pruning\<close>

definition due :: "fetch_clock \<Rightarrow> SessionTrackerStore \<Rightarrow> bool" where
  "due clk s = (ss_cleanup_interval s \<le> fc_cleanup clk - ss_last_cleanup s)"

definition kept :: "fetch_clock \<Rightarrow> SessionTrackerStore \<Rightarrow> string \<times> nat \<Rightarrow> bool" where
  "kept clk s = (\<lambda>(k, a). \<not> (due clk s \<and> tracker_is_expired (fc_expiry clk k) (ss_heap s ! a)))"

lemma cleanup_frame [simp]:
  "ss_heap (maybe_cleanup clk s) = ss_heap s" "ss_default_config (maybe_cleanup clk s) = ss_default_config s"
  "ss_lineage_counter (maybe_cleanup clk s) = ss_lineage_counter s"
  by (simp_all add: maybe_cleanup_def Let_def)

lemma cleanup_trackers: "dict_ok (ss_trackers s) \<Longrightarrow> ss_trackers (maybe_cleanup clk s) = filter (kept clk s) (ss_trackers s)"
proof -
  assume ok: "dict_ok (ss_trackers s)"
  have eq: "k \<in> fst ` {p \<in> set (ss_trackers s). tracker_is_expired (fc_expiry clk (fst p)) (ss_heap s ! snd p)} \<longleftrightarrow>
      tracker_is_expired (fc_expiry clk k) (ss_heap s ! a)" if "(k, a) \<in> set (ss_trackers s)" for k a
    using that ok by (force dest: eq_key_imp_eq_value)
  show ?thesis
    by (auto simp: maybe_cleanup_def kept_def due_def Let_def dict_del_all_filter case_prod_beta eq
        intro!: filter_cong filter_True [symmetric] dest: eq_key_imp_eq_value [OF ok])
qed

lemma get_pruned:
  "dict_ok ls \<Longrightarrow>
   dict_get (filter (\<lambda>(base, family). family \<noteq> []) (map (\<lambda>(base, family). (base, filter Q family)) ls)) b =
   (case dict_get ls b of None \<Rightarrow> None | Some f \<Rightarrow> if filter Q f = [] then None else Some (filter Q f))"
proof (induction ls)
  case (Cons p ls)
  obtain b0 f0 where p: "p = (b0, f0)" by (cases p)
  have "dict_get ls b0 = None" using Cons.prems by (simp add: p map_of_eq_None_iff)
  then show ?case using Cons by (cases "b = b0") (auto simp: p)
qed simp

lemma cleanup_families:
  assumes "store_ok s"
  shows "family_of b (maybe_cleanup clk s) = filter (\<lambda>(k, chain). k \<in> set (dict_keys (ss_trackers (maybe_cleanup clk s)))) (family_of b s)"
proof -
  have "k \<in> set (dict_keys (ss_trackers s))" if "(k, chain) \<in> set (family_of b s)" for k chain
    using store_ok_family [OF assms, of b] that by (auto simp: family_ok_def)
  then have same: "filter (\<lambda>(k, chain). k \<in> set (dict_keys (ss_trackers s))) (family_of b s) = family_of b s"
    by (intro filter_True) auto
  have ok: "dict_ok (ss_lineages s)" using assms by (simp add: store_ok_def)
  show ?thesis
  proof (cases "ss_lineages (maybe_cleanup clk s) = ss_lineages s \<and> ss_trackers (maybe_cleanup clk s) = ss_trackers s")
    case True
    then show ?thesis using same by (simp add: family_of_def)
  next
    case False
    then have "ss_lineages (maybe_cleanup clk s) = filter (\<lambda>(base, family). family \<noteq> [])
        (map (\<lambda>(base, family). (base, filter (\<lambda>(k, chain). k \<in> set (dict_keys (ss_trackers (maybe_cleanup clk s)))) family)) (ss_lineages s))"
      by (auto simp: maybe_cleanup_def Let_def split: if_splits)
    then show ?thesis by (simp add: family_of_def dict_get_default_def get_pruned [OF ok] split: option.splits)
  qed
qed

lemma cleanup_lineages_ok: "dict_ok (ss_lineages s) \<Longrightarrow> dict_ok (ss_lineages (maybe_cleanup clk s))"
  by (auto simp: maybe_cleanup_def Let_def distinct_map_filter comp_def case_prod_beta)

lemma store_okI:
  assumes "dict_ok (ss_trackers s)" "distinct (map snd (ss_trackers s))"
    "\<And>k a. (k, a) \<in> set (ss_trackers s) \<Longrightarrow> a < length (ss_heap s) \<and> key_shape (ss_lineage_counter s) k"
    "dict_ok (ss_lineages s)" "\<And>b. family_ok s b (family_of b s)"
  shows "store_ok s"
proof -
  have "family_ok s b f" if "(b, f) \<in> set (ss_lineages s)" for b f
    using assms(5) [of b] dict_in_get [OF assms(4) that] by (simp add: family_of_Some)
  with assms show ?thesis by (auto simp: store_ok_def)
qed

lemma family_ok_filter: "family_ok s b f \<Longrightarrow> family_ok s b (filter P f)"
  by (auto simp: family_ok_def distinct_map_filter intro: order_trans [OF of_nat_mono [OF length_filter_le]])

lemma store_ok_cleanup:
  assumes "store_ok s"
  shows "store_ok (maybe_cleanup clk s)"
proof (rule store_okI)
  have ok: "dict_ok (ss_trackers s)" using assms by (simp add: store_ok_def)
  note tr = cleanup_trackers [OF ok, of clk]
  show "dict_ok (ss_trackers (maybe_cleanup clk s))" "distinct (map snd (ss_trackers (maybe_cleanup clk s)))"
    using assms by (auto simp: tr store_ok_def distinct_map_filter)
  show "a < length (ss_heap (maybe_cleanup clk s)) \<and> key_shape (ss_lineage_counter (maybe_cleanup clk s)) k"
    if "(k, a) \<in> set (ss_trackers (maybe_cleanup clk s))" for k a
    using that assms by (auto simp: tr store_ok_def)
  show "dict_ok (ss_lineages (maybe_cleanup clk s))"
    using assms by (intro cleanup_lineages_ok) (simp add: store_ok_def)
  show "family_ok (maybe_cleanup clk s) b (family_of b (maybe_cleanup clk s))" for b
  proof -
    have "family_ok s b (family_of b (maybe_cleanup clk s))"
      unfolding cleanup_families [OF assms] by (rule family_ok_filter [OF store_ok_family [OF assms]])
    moreover have "k \<in> set (dict_keys (ss_trackers (maybe_cleanup clk s)))" if "(k, c) \<in> set (family_of b (maybe_cleanup clk s))" for k c
      using that unfolding cleanup_families [OF assms] by simp
    ultimately show ?thesis by (auto simp: family_ok_def)
  qed
qed

subsection \<open>Fetching\<close>

lemma fetch_frame [simp]:
  "ss_default_config (snd (get_or_create clk key provider s)) = ss_default_config s"
  "ss_lineage_counter (snd (get_or_create clk key provider s)) = ss_lineage_counter s"
  "ss_lineages (snd (get_or_create clk key provider s)) = ss_lineages (maybe_cleanup clk s)"
  "family_of b (snd (get_or_create clk key provider s)) = family_of b (maybe_cleanup clk s)"
  by (simp_all add: get_or_create_def Let_def family_of_def split: option.splits)

lemma fetch_trackers:
  "dict_get (ss_trackers (snd (get_or_create clk key provider s))) k =
   (if k = key then Some (fst (get_or_create clk key provider s)) else dict_get (ss_trackers (maybe_cleanup clk s)) k)"
  by (auto simp: get_or_create_def Let_def dict_get_set split: option.splits)

lemma fetch_keys:
  "set (dict_keys (ss_trackers (snd (get_or_create clk key provider s)))) =
   insert key (set (dict_keys (ss_trackers (maybe_cleanup clk s))))"
proof -
  have "k \<in> set (dict_keys d) \<longleftrightarrow> dict_get d k \<noteq> None" for k and d :: "(string, nat) pydict"
    by (simp add: dict_keys_def map_of_eq_None_iff)
  then show ?thesis by (auto simp: fetch_trackers split: if_splits)
qed

lemma store_ok_fetch:
  assumes "store_ok s" "key_shape (ss_lineage_counter s) key"
  shows "store_ok (snd (get_or_create clk key provider s))"
proof -
  let ?c = "maybe_cleanup clk s"
  let ?s = "snd (get_or_create clk key provider s)"
  have c: "store_ok ?c" by (rule store_ok_cleanup [OF assms(1)])
  have bound: "a < length (ss_heap ?c)" if "(k, a) \<in> set (ss_trackers ?c)" for k a
    using c that by (auto simp: store_ok_def)
  have fam: "family_ok ?s b (family_of b ?s)" for b
    using store_ok_family [OF c, of b] by (auto simp: family_ok_def fetch_keys simp del: cleanup_frame) (auto simp: fetch_keys)
  show ?thesis
  proof (rule store_okI [OF _ _ _ _ fam])
    show "dict_ok (ss_trackers ?s)" "dict_ok (ss_lineages ?s)"
      using c by (auto simp: get_or_create_def Let_def store_ok_def split: option.splits)
    show "distinct (map snd (ss_trackers ?s))"
      using c bound by (force simp: get_or_create_def Let_def store_ok_def dict_set_new split: option.splits)
    show "a < length (ss_heap ?s) \<and> key_shape (ss_lineage_counter ?s) k" if "(k, a) \<in> set (ss_trackers ?s)" for k a
      using c bound that assms(2) by (fastforce simp: get_or_create_def Let_def store_ok_def dict_set_new split: option.splits)
  qed
qed

subsection \<open>Resolving\<close>

lemma json_ok_canonicalize: "json_ok v \<Longrightarrow> json_ok (canonicalize_for_prefix_compare v)"
  and json_ok_canonicalize_list: "json_ok_list xs \<Longrightarrow> json_ok_list (canonicalize_list xs)"
  and json_ok_canonicalize_items:
    "json_ok_items d \<Longrightarrow> json_ok_items (canonicalize_items d) \<and> set (map fst (canonicalize_items d)) \<subseteq> set (map fst d) \<and>
       (dict_ok d \<longrightarrow> dict_ok (canonicalize_items d))"
  by (induction v and xs and d rule: canonicalize_for_prefix_compare_canonicalize_list_canonicalize_items.induct)
    (auto simp: json_ok_list_iff elim!: is_jstr.elims)

lemma json_ok_chain: "well_formed messages \<Longrightarrow> json_ok_list (lineage_chain messages)"
  using json_ok_canonicalize_list [of "map JDict messages"]
  by (auto simp: lineage_chain_def well_formed_def json_ok_list_iff list_all_iff simp del: json_ok.simps)

text \<open>Two stores that differ in the lineage counter and in empty families only.\<close>

definition agrees :: "SessionTrackerStore \<Rightarrow> SessionTrackerStore \<Rightarrow> bool" where
  "agrees s s' =
     (ss_heap s' = ss_heap s \<and> ss_trackers s' = ss_trackers s \<and> ss_default_config s' = ss_default_config s \<and>
      ss_last_cleanup s' = ss_last_cleanup s \<and> ss_cleanup_interval s' = ss_cleanup_interval s \<and>
      (\<forall>b. family_of b s' = family_of b s) \<and> ss_lineage_counter s \<le> ss_lineage_counter s' \<and>
      (dict_ok (ss_lineages s) \<longrightarrow> dict_ok (ss_lineages s')))"

lemma agrees_refl [simp]: "agrees s s"
  by (simp add: agrees_def)

lemma agrees_store_ok:
  assumes "agrees s s'" "store_ok s"
  shows "store_ok s'"
proof -
  have eq: "ss_heap s' = ss_heap s" "ss_trackers s' = ss_trackers s" "ss_default_config s' = ss_default_config s"
    "\<And>b. family_of b s' = family_of b s" "dict_ok (ss_lineages s')" and le: "ss_lineage_counter s \<le> ss_lineage_counter s'"
    using assms by (auto simp: agrees_def store_ok_def)
  have fam: "family_ok s' b (family_of b s')" for b
    using family_ok_mono [OF store_ok_family [OF assms(2), of b], of s'] eq le by simp
  have shape: "a < length (ss_heap s') \<and> key_shape (ss_lineage_counter s') k" if "(k, a) \<in> set (ss_trackers s')" for k a
    using assms(2) that key_shape_mono [OF _ le] by (auto simp: eq store_ok_def)
  show ?thesis
    using assms(2) by (intro store_okI eq(5) fam shape) (auto simp: eq store_ok_def)
qed

text \<open>The two ways a request is resolved: without a lineage, or on lineage \<open>key\<close>.\<close>

lemma resolve_cases:
  assumes "resolve_tracker clk0 clk sid provider messages s = (a, s')"
  obtains (plain) key base s2 where "key = sid \<or> key = overflow_key sid" "base = s \<or> base = maybe_cleanup clk0 s"
      "agrees base s2" "(a, s') = get_or_create clk key provider s2"
  | (lineage) ms key s2 where "messages = Some ms" "lineage_chain ms \<noteq> []" "agrees (maybe_cleanup clk0 s) s2"
      "a = fst (get_or_create clk key provider s2)"
      "s' = stamp_lineage sid key (lineage_chain ms) (snd (get_or_create clk key provider s2))"
      "best_lineage (lineage_chain ms) (family_of sid s2) = Some key \<or>
       best_lineage (lineage_chain ms) (family_of sid s2) = None \<and>
         int (length (family_of sid s2)) < pf_max_lineages_per_session (ss_default_config s) \<and>
         (family_of sid s2 = [] \<and> key = sid \<or>
          family_of sid s2 \<noteq> [] \<and> key = numbered_key sid (ss_lineage_counter s) \<and> ss_lineage_counter s < ss_lineage_counter s2)"
      "dict_get (ss_lineages s2) sid = Some (family_of sid s2)"
proof -
  let ?s1 = "maybe_cleanup clk0 s"
  show thesis
  proof (cases "is_empty messages \<or> \<not> pf_enabled (ss_default_config s)")
    case True
    then show thesis using assms plain [of sid s s] by (simp add: resolve_tracker_def)
  next
    case False
    then obtain ms where ms: "messages = Some ms" by (auto simp: is_empty_def)
    let ?snap = "lineage_chain ms"
    show thesis
    proof (cases "?snap = []")
      case True
      then show thesis using False ms assms plain [of sid ?s1 ?s1] by (simp add: resolve_tracker_def Let_def)
    next
      case snap: False
      define s2 where "s2 = ?s1\<lparr>ss_lineages := (if dict_get (ss_lineages ?s1) sid = None
          then dict_set sid [] (ss_lineages ?s1) else ss_lineages ?s1)\<rparr>"
      have fam: "family_of b s2 = family_of b ?s1" for b
        by (auto simp: s2_def family_of_def dict_get_default_def dict_get_set)
      have get: "dict_get (ss_lineages s2) sid = Some (family_of sid s2)"
        by (auto simp: s2_def family_of_def dict_get_default_def dict_get_set)
      have ag: "agrees ?s1 s2" "agrees ?s1 (s2\<lparr>ss_lineage_counter := ss_lineage_counter s2 + 1\<rparr>)"
        using fam by (auto simp: agrees_def s2_def family_of_def)
      have cfg: "ss_default_config s2 = ss_default_config s" "ss_lineage_counter s2 = ss_lineage_counter s"
        by (simp_all add: s2_def)
      have fam': "family_of b (s2\<lparr>ss_lineage_counter := n\<rparr>) = family_of b s2" for b n
        by (simp add: family_of_def)
      have r: "resolve_tracker clk0 clk sid provider messages s =
         (case best_lineage ?snap (family_of sid s2) of
            Some key \<Rightarrow> (let (a, s3) = get_or_create clk key provider s2 in (a, stamp_lineage sid key ?snap s3))
          | None \<Rightarrow>
              if pf_max_lineages_per_session (ss_default_config s) \<le> int (length (family_of sid s2))
              then get_or_create clk (overflow_key sid) provider s2
              else if family_of sid s2 = []
              then (let (a, s3) = get_or_create clk sid provider s2 in (a, stamp_lineage sid sid ?snap s3))
              else
                let key = numbered_key sid (ss_lineage_counter s2);
                    s2' = s2\<lparr>ss_lineage_counter := ss_lineage_counter s2 + 1\<rparr>;
                    (a, s3) = get_or_create clk key provider s2'
                in (a, stamp_lineage sid key ?snap s3))"
        using False snap unfolding resolve_tracker_def ms Let_def s2_def [symmetric] fam option.sel by simp
      show thesis
      proof (cases "best_lineage ?snap (family_of sid s2)")
        case (Some key)
        then show thesis
          using r assms lineage [OF ms snap ag(1), of key] get by (simp add: case_prod_beta)
      next
        case None
        show thesis
        proof (cases "pf_max_lineages_per_session (ss_default_config s) \<le> int (length (family_of sid s2))")
          case True
          then show thesis using r assms None plain [OF _ _ ag(1), of "overflow_key sid"] by simp
        next
          case cap: False
          then show thesis
            using r assms None lineage [OF ms snap ag(1), of sid] lineage [OF ms snap ag(2), of "numbered_key sid (ss_lineage_counter s)"] get cfg
            by (cases "family_of sid s2 = []") (simp_all add: case_prod_beta Let_def fam')
        qed
      qed
    qed
  qed
qed

subsection \<open>The longest leading chain\<close>

definition leads :: "json list \<Rightarrow> json list \<Rightarrow> bool" where
  "leads chain snap = (length chain \<le> length snap \<and> py_eq_list (take (length chain) snap) chain)"

lemma fold_better:
  "fold (better_chain snap) family (bk, bl) = (bk', bl') \<Longrightarrow>
   bl \<le> bl' \<and> (\<forall>(k, c)\<in>set family. leads c snap \<longrightarrow> int (length c) \<le> bl') \<and>
   (bk' = bk \<and> bl' = bl \<or> (\<exists>(k, c)\<in>set family. leads c snap \<and> bk' = Some k \<and> bl' = int (length c)))"
proof (induction family arbitrary: bk bl)
  case (Cons p family)
  obtain k c where p: "p = (k, c)" by (cases p)
  obtain bk1 bl1 where b1: "better_chain snap (k, c) (bk, bl) = (bk1, bl1)" by (cases "better_chain snap (k, c) (bk, bl)")
  have step: "bl \<le> bl1" "leads c snap \<Longrightarrow> int (length c) \<le> bl1"
    "bk1 = bk \<and> bl1 = bl \<or> leads c snap \<and> bk1 = Some k \<and> bl1 = int (length c)"
    using b1 by (auto simp: better_chain_def leads_def split: if_splits)
  have "fold (better_chain snap) family (bk1, bl1) = (bk', bl')"
    using Cons.prems by (simp add: p b1)
  from Cons.IH [OF this] step show ?case by (auto simp: p)
qed simp

lemma best_lineage_Some:
  assumes "best_lineage snap family = Some k"
  shows "\<exists>c. (k, c) \<in> set family \<and> leads c snap"
proof -
  obtain bl where "fold (better_chain snap) family (None, -1) = (Some k, bl)"
    using assms by (cases "fold (better_chain snap) family (None, -1)") (simp add: best_lineage_def)
  from fold_better [OF this] show ?thesis by auto
qed

lemma best_lineage_unique:
  assumes "(k, c) \<in> set family" "leads c snap"
    and "\<And>k' c'. (k', c') \<in> set family \<Longrightarrow> leads c' snap \<Longrightarrow> k' = k \<or> length c' < length c"
  shows "best_lineage snap family = Some k"
proof -
  obtain bk bl where f: "fold (better_chain snap) family (None, -1) = (bk, bl)"
    by (cases "fold (better_chain snap) family (None, -1)")
  have le: "int (length c) \<le> bl" using fold_better [OF f] assms(1,2) by auto
  then obtain k' c' where "(k', c') \<in> set family" "leads c' snap" "bk = Some k'" "bl = int (length c')"
    using fold_better [OF f] by auto
  with assms(3) [of k' c'] le show ?thesis by (auto simp: best_lineage_def f)
qed

lemma leads_common:
  assumes "leads a snap" "leads c snap" "length a \<le> length c" "json_ok_list snap" "json_ok_list c"
  shows "leads a c"
proof -
  have len: "length a \<le> length snap" "length c \<le> length snap"
    using assms(1,2) by (simp_all add: leads_def)
  have a: "py_eq (snap ! i) (a ! i)" if "i < length a" for i
    using assms(1) that by (auto simp: leads_def py_eq_list_iff list_all2_conv_all_nth)
  have c: "py_eq (snap ! i) (c ! i)" if "i < length c" for i
    using assms(2) that by (auto simp: leads_def py_eq_list_iff list_all2_conv_all_nth)
  have ok: "json_ok (snap ! i)" "json_ok (c ! i)" if "i < length c" for i
    using assms(4,5) that len by (auto simp: json_ok_list_iff)
  have "py_eq (c ! i) (a ! i)" if i: "i < length a" for i
  proof -
    have ic: "i < length c" using i assms(3) by simp
    show ?thesis by (rule py_eq_trans [OF py_eq_sym [OF ok [OF ic] c [OF ic]] a [OF i]])
  qed
  then show ?thesis using assms(3) by (auto simp: leads_def py_eq_list_iff list_all2_conv_all_nth)
qed

subsection \<open>Every operation keeps the invariant\<close>

lemma stamp_frame [simp]:
  "ss_heap (stamp_lineage sid key snap s) = ss_heap s" "ss_trackers (stamp_lineage sid key snap s) = ss_trackers s"
  "ss_default_config (stamp_lineage sid key snap s) = ss_default_config s"
  "ss_lineage_counter (stamp_lineage sid key snap s) = ss_lineage_counter s"
  by (simp_all add: stamp_lineage_def split: option.splits)

lemma family_stamp:
  "family_of b (stamp_lineage sid key snap s) =
   (if b = sid \<and> dict_get (ss_lineages s) sid \<noteq> None then dict_set key snap (family_of sid s) else family_of b s)"
  by (auto simp: stamp_lineage_def family_of_def dict_get_default_def dict_get_set split: option.splits)

lemma length_refilled:
  fixes f :: "('k, 'v) pydict"
  assumes "(key, v) \<in> set f"
  shows "length (dict_set key w (filter Q f)) \<le> length f"
proof (cases "dict_get (filter Q f) key = None")
  case True
  then have "(key, v) \<notin> set (filter Q f)" by (auto simp: map_of_eq_None_iff rev_image_eqI)
  then have "\<not> Q (key, v)" using assms by simp
  from length_filter_less [of "(key, v)" f Q, OF assms this] show ?thesis using True by (simp add: length_dict_set)
next
  case False
  then have "length (dict_set key w (filter Q f)) = length (filter Q f)" by (simp only: length_dict_set if_False)
  then show ?thesis by simp
qed

lemma store_ok_stamp:
  assumes "store_ok s" "key \<in> set (dict_keys (ss_trackers s))" "lineage_key (ss_lineage_counter s) sid key"
    "snap \<noteq> []" "json_ok_list snap"
    "int (length (dict_set key snap (family_of sid s))) \<le> max 0 (pf_max_lineages_per_session (ss_default_config s))"
  shows "store_ok (stamp_lineage sid key snap s)"
proof (rule store_okI)
  show "dict_ok (ss_trackers (stamp_lineage sid key snap s))" "distinct (map snd (ss_trackers (stamp_lineage sid key snap s)))"
    "dict_ok (ss_lineages (stamp_lineage sid key snap s))"
    using assms(1) by (auto simp: store_ok_def stamp_lineage_def split: option.splits)
  show "a < length (ss_heap (stamp_lineage sid key snap s)) \<and> key_shape (ss_lineage_counter (stamp_lineage sid key snap s)) k"
    if "(k, a) \<in> set (ss_trackers (stamp_lineage sid key snap s))" for k a
    using assms(1) that by (auto simp: store_ok_def)
  have fam: "family_ok s b (family_of b s)" for b by (rule store_ok_family [OF assms(1)])
  have "family_ok s sid (dict_set key snap (family_of sid s))"
  proof -
    have "(k, c) = (key, snap) \<or> (k, c) \<in> set (family_of sid s)" if "(k, c) \<in> set (dict_set key snap (family_of sid s))" for k c
      using that fam [of sid] by (metis dict_get_set dict_in_get dict_get_Some_in dict_ok_set family_ok_def option.inject)
    then show ?thesis using fam [of sid] assms by (fastforce simp: family_ok_def)
  qed
  then have "family_ok s b (family_of b (stamp_lineage sid key snap s))" for b
    using fam [of b] by (simp add: family_stamp)
  then show "family_ok (stamp_lineage sid key snap s) b (family_of b (stamp_lineage sid key snap s))" for b
    by (rule family_ok_mono) simp_all
qed

lemma store_ok_resolve:
  assumes s: "store_ok s" and nul: "NUL \<notin> set sid" and wf: "\<And>ms. messages = Some ms \<Longrightarrow> well_formed ms"
  shows "store_ok (snd (resolve_tracker clk0 clk sid provider messages s))"
proof (cases "resolve_tracker clk0 clk sid provider messages s" rule: prod.exhaust)
  case (Pair a s')
  from Pair show ?thesis
  proof (cases rule: resolve_cases)
    case (plain key base s2)
    have "store_ok s2"
      using plain(2,3) s store_ok_cleanup agrees_store_ok by blast
    moreover have "key_shape (ss_lineage_counter s2) key" using plain(1) nul by (auto simp: key_shape_def)
    ultimately show ?thesis using store_ok_fetch Pair plain(4) by (metis snd_conv)
  next
    case (lineage ms key s2)
    let ?s3 = "snd (get_or_create clk key provider s2)"
    let ?f = "family_of sid s2"
    have s2: "store_ok s2" using lineage(3) s store_ok_cleanup agrees_store_ok by blast
    have f: "family_ok s2 sid ?f" by (rule store_ok_family [OF s2])
    have new: "best_lineage (lineage_chain ms) ?f = Some key \<Longrightarrow> \<exists>c. (key, c) \<in> set ?f"
      using best_lineage_Some by blast
    have key: "lineage_key (ss_lineage_counter s2) sid key"
      using lineage(6) new f by (auto simp: lineage_key_def family_ok_def)
    then have shape: "key_shape (ss_lineage_counter s2) key"
      using nul unfolding lineage_key_def key_shape_def by blast
    have s3: "store_ok ?s3" by (rule store_ok_fetch [OF s2 shape])
    have cfg: "ss_default_config s2 = ss_default_config s" using lineage(3) by (simp add: agrees_def)
    have f3: "family_of sid ?s3 = filter (\<lambda>(k, chain). k \<in> set (dict_keys (ss_trackers (maybe_cleanup clk s2)))) ?f"
      by (simp add: cleanup_families [OF s2])
    have size: "int (length (dict_set key (lineage_chain ms) (family_of sid ?s3))) \<le> max 0 (pf_max_lineages_per_session (ss_default_config ?s3))"
    proof (cases "best_lineage (lineage_chain ms) ?f = Some key")
      case True
      with new obtain c where "(key, c) \<in> set ?f" by blast
      then have "length (dict_set key (lineage_chain ms) (family_of sid ?s3)) \<le> length ?f" unfolding f3 by (rule length_refilled)
      with f show ?thesis by (simp add: family_ok_def)
    next
      case False
      then have "int (length ?f) < pf_max_lineages_per_session (ss_default_config s)" using lineage(6) by blast
      moreover have "length (dict_set key (lineage_chain ms) (family_of sid ?s3)) \<le> Suc (length ?f)"
        unfolding f3 using length_filter_le [of _ ?f] by (auto simp: length_dict_set intro: le_SucI)
      ultimately show ?thesis by (simp add: cfg)
    qed
    have "store_ok (stamp_lineage sid key (lineage_chain ms) ?s3)"
      using s3 key lineage(2) wf [OF lineage(1)] size
      by (intro store_ok_stamp) (auto simp: fetch_keys json_ok_chain)
    then show ?thesis using Pair lineage(5) by simp
  qed
qed

definition op_ok :: "store_op \<Rightarrow> bool" where
  "op_ok op =
     (case op of
        Fetch clk0 clk sid provider messages \<Rightarrow> NUL \<notin> set sid \<and> (case messages of Some ms \<Rightarrow> well_formed ms | None \<Rightarrow> True)
      | Update a f \<Rightarrow> True)"

lemma store_ok_heap: "store_ok s \<Longrightarrow> length h = length (ss_heap s) \<Longrightarrow> store_ok (s\<lparr>ss_heap := h\<rparr>)"
  by (auto simp: store_ok_def family_ok_def)

lemma store_ok_apply: "store_ok s \<Longrightarrow> op_ok op \<Longrightarrow> store_ok (apply_op op s)"
  by (auto simp: apply_op_def op_ok_def intro: store_ok_resolve store_ok_heap split: store_op.splits)

lemma store_ok_run: "store_ok s \<Longrightarrow> list_all op_ok ops \<Longrightarrow> store_ok (fold apply_op ops s)"
  by (induction ops arbitrary: s) (auto intro: store_ok_apply)

lemma store_ok_init: "store_ok (session_store_init config now)"
  by (simp add: store_ok_def session_store_init_def)

section \<open>Isolation of lineages\<close>

text \<open>Lineage \<open>K\<close> of session \<open>sid\<close> has chain \<open>chain\<close> and tracker \<open>r\<close>, and no other lineage continues the chain.\<close>

definition holds_lineage :: "string \<Rightarrow> string \<Rightarrow> json list \<Rightarrow> nat \<Rightarrow> SessionTrackerStore \<Rightarrow> bool" where
  "holds_lineage sid K chain r s =
     (dict_get (family_of sid s) K = Some chain \<and> dict_get (ss_trackers s) K = Some r \<and>
      (\<forall>(k, c)\<in>set (family_of sid s). k \<noteq> K \<longrightarrow> \<not> leads chain c))"

text \<open>An operation of another conversation: it does not continue the chain, and comes before the tracker expires.\<close>

definition unexpired :: "fetch_clock \<Rightarrow> string \<Rightarrow> nat \<Rightarrow> SessionTrackerStore \<Rightarrow> bool" where
  "unexpired clk K r s = (\<not> tracker_is_expired (fc_expiry clk K) (ss_heap s ! r))"

definition undisturbed :: "string \<Rightarrow> string \<Rightarrow> json list \<Rightarrow> nat \<Rightarrow> store_op \<Rightarrow> SessionTrackerStore \<Rightarrow> bool" where
  "undisturbed sid K chain r op s =
     (case op of
        Fetch clk0 clk sid' provider messages \<Rightarrow>
          unexpired clk0 K r s \<and> unexpired clk K r s \<and>
          (sid' = sid \<longrightarrow> (case messages of Some ms \<Rightarrow> \<not> leads chain (lineage_chain ms) | None \<Rightarrow> True))
      | Update a f \<Rightarrow> True)"

fun undisturbed_run :: "string \<Rightarrow> string \<Rightarrow> json list \<Rightarrow> nat \<Rightarrow> store_op list \<Rightarrow> SessionTrackerStore \<Rightarrow> bool" where
  "undisturbed_run sid K chain r [] s = True"
| "undisturbed_run sid K chain r (op # ops) s =
     (undisturbed sid K chain r op s \<and> undisturbed_run sid K chain r ops (apply_op op s))"

lemma holds_cleanup:
  assumes "store_ok s" "holds_lineage sid K chain r s" "unexpired clk K r s"
  shows "holds_lineage sid K chain r (maybe_cleanup clk s)"
proof -
  have ok: "dict_ok (ss_trackers s)" "dict_ok (family_of sid s)"
    using assms(1) store_ok_family [OF assms(1), of sid] by (auto simp: store_ok_def family_ok_def)
  have "(K, r) \<in> set (ss_trackers (maybe_cleanup clk s))"
    using assms(2,3) by (auto simp: cleanup_trackers [OF ok(1)] holds_lineage_def kept_def unexpired_def dest: map_of_SomeD)
  then have tr: "dict_get (ss_trackers (maybe_cleanup clk s)) K = Some r"
    using ok(1) by (intro dict_in_get) (auto simp: cleanup_trackers distinct_map_filter)
  then have "K \<in> set (dict_keys (ss_trackers (maybe_cleanup clk s)))"
    by (force simp: dict_keys_def dest: map_of_SomeD)
  then show ?thesis
    using assms(2) tr by (auto simp: holds_lineage_def cleanup_families [OF assms(1)] dict_get_filter_key)
qed

lemma holds_agrees: "agrees s s' \<Longrightarrow> holds_lineage sid K chain r s \<Longrightarrow> holds_lineage sid K chain r s'"
  by (simp add: agrees_def holds_lineage_def)

lemma unexpired_agrees: "agrees s s' \<Longrightarrow> unexpired clk K r s' = unexpired clk K r s"
  by (simp add: agrees_def unexpired_def)

lemma unexpired_cleanup [simp]: "unexpired clk K r (maybe_cleanup clk' s) = unexpired clk K r s"
  by (simp add: unexpired_def)

lemma holds_fetch:
  assumes "store_ok s" "holds_lineage sid K chain r s" "unexpired clk K r s"
  shows "holds_lineage sid K chain r (snd (get_or_create clk key provider s))"
    and "key = K \<Longrightarrow> fst (get_or_create clk key provider s) = r"
proof -
  have h: "holds_lineage sid K chain r (maybe_cleanup clk s)" by (rule holds_cleanup [OF assms])
  then show r: "key = K \<Longrightarrow> fst (get_or_create clk key provider s) = r"
    by (simp add: get_or_create_def Let_def holds_lineage_def)
  show "holds_lineage sid K chain r (snd (get_or_create clk key provider s))"
    using h r by (auto simp: holds_lineage_def fetch_trackers)
qed

lemma holds_stamp:
  assumes "holds_lineage sid K chain r s" "sid' = sid \<Longrightarrow> key \<noteq> K \<and> \<not> leads chain snap"
    and ok: "dict_ok (family_of sid s)"
  shows "holds_lineage sid K chain r (stamp_lineage sid' key snap s)"
proof (cases "sid' = sid \<and> dict_get (ss_lineages s) sid \<noteq> None")
  case True
  have "(k, c) = (key, snap) \<or> (k, c) \<in> set (family_of sid s)" if "(k, c) \<in> set (dict_set key snap (family_of sid s))" for k c
    using that ok by (metis dict_get_set dict_in_get dict_get_Some_in dict_ok_set option.inject)
  with True assms(1,2) show ?thesis
    by (fastforce simp: holds_lineage_def family_stamp dict_get_set)
next
  case False
  with assms(1) show ?thesis by (auto simp: holds_lineage_def family_stamp)
qed

lemma numbered_fresh: "lineage_key n sid k \<Longrightarrow> k \<noteq> numbered_key sid n"
  by (auto simp: lineage_key_def numbered_key_def)

lemma holds_resolve:
  assumes s: "store_ok s" and h: "holds_lineage sid K chain r s"
    and u: "unexpired clk0 K r s" "unexpired clk K r s"
    and other: "\<And>ms. sid' = sid \<Longrightarrow> messages = Some ms \<Longrightarrow> \<not> leads chain (lineage_chain ms)"
  shows "holds_lineage sid K chain r (snd (resolve_tracker clk0 clk sid' provider messages s))"
proof (cases "resolve_tracker clk0 clk sid' provider messages s" rule: prod.exhaust)
  case (Pair a s')
  have c: "store_ok (maybe_cleanup clk0 s)" "holds_lineage sid K chain r (maybe_cleanup clk0 s)"
    using store_ok_cleanup [OF s] holds_cleanup [OF s h u(1)] .
  from Pair show ?thesis
  proof (cases rule: resolve_cases)
    case (plain key base s2)
    have b: "store_ok base" "holds_lineage sid K chain r base" "unexpired clk K r base"
      using plain(2) s h c u by auto
    have "holds_lineage sid K chain r (snd (get_or_create clk key provider s2))"
      using agrees_store_ok [OF plain(3) b(1)] holds_agrees [OF plain(3) b(2)] unexpired_agrees [OF plain(3)] b(3)
      by (intro holds_fetch(1)) simp_all
    then show ?thesis using Pair plain(4) by (metis snd_conv)
  next
    case (lineage ms key s2)
    let ?s3 = "snd (get_or_create clk key provider s2)"
    have s2: "store_ok s2" "holds_lineage sid K chain r s2" "unexpired clk K r s2"
      using agrees_store_ok [OF lineage(3) c(1)] holds_agrees [OF lineage(3) c(2)] unexpired_agrees [OF lineage(3)] u(2) by simp_all
    have s3: "holds_lineage sid K chain r ?s3" by (rule holds_fetch(1) [OF s2])
    have f2: "family_ok s2 sid (family_of sid s2)" by (rule store_ok_family [OF s2(1)])
    have "key \<noteq> K \<and> \<not> leads chain (lineage_chain ms)" if sid: "sid' = sid"
    proof
      show nl: "\<not> leads chain (lineage_chain ms)" by (rule other [OF sid lineage(1)])
      have K: "(K, chain) \<in> set (family_of sid s2)" using s2(2) by (auto simp: holds_lineage_def dest: map_of_SomeD)
      have "lineage_key (ss_lineage_counter s) sid K"
        using store_ok_family [OF s, of sid] h by (auto simp: family_ok_def holds_lineage_def dest!: map_of_SomeD)
      then have "K \<noteq> numbered_key sid (ss_lineage_counter s)" by (rule numbered_fresh)
      moreover have "best_lineage (lineage_chain ms) (family_of sid s2) \<noteq> Some K"
        using best_lineage_Some [of "lineage_chain ms" "family_of sid s2" K] K nl f2
        by (auto simp: family_ok_def dest: eq_key_imp_eq_value)
      ultimately show "key \<noteq> K" using lineage(6) K by (auto simp: sid)
    qed
    moreover have "dict_ok (family_of sid ?s3)"
      using store_ok_family [OF store_ok_cleanup [OF s2(1), of clk], of sid] by (simp add: family_ok_def)
    ultimately show ?thesis
      using holds_stamp [OF s3, of sid' key "lineage_chain ms"] Pair lineage(5) by simp
  qed
qed

lemma holds_apply:
  "store_ok s \<Longrightarrow> holds_lineage sid K chain r s \<Longrightarrow> undisturbed sid K chain r op s \<Longrightarrow> holds_lineage sid K chain r (apply_op op s)"
proof (cases op)
  case (Update a f)
  then show "holds_lineage sid K chain r s \<Longrightarrow> ?thesis" by (simp add: apply_op_def holds_lineage_def family_of_def)
next
  case (Fetch clk0 clk sid' provider messages)
  then show "store_ok s \<Longrightarrow> holds_lineage sid K chain r s \<Longrightarrow> undisturbed sid K chain r op s \<Longrightarrow> ?thesis"
    by (auto simp: apply_op_def undisturbed_def intro: holds_resolve)
qed

lemma holds_run:
  "store_ok s \<Longrightarrow> list_all op_ok ops \<Longrightarrow> holds_lineage sid K chain r s \<Longrightarrow> undisturbed_run sid K chain r ops s \<Longrightarrow>
   holds_lineage sid K chain r (fold apply_op ops s)"
  by (induction ops arbitrary: s) (auto intro: holds_apply store_ok_apply)

lemma resolve_continues:
  assumes s: "store_ok s" and h: "holds_lineage sid K chain r s"
    and u: "unexpired clk0 K r s" "unexpired clk K r s"
    and e: "pf_enabled (ss_default_config s)" and wf: "well_formed ms" and l: "leads chain (lineage_chain ms)"
  shows "fst (resolve_tracker clk0 clk sid provider (Some ms) s) = r"
proof -
  let ?s1 = "maybe_cleanup clk0 s" and ?snap = "lineage_chain ms"
  have c: "store_ok ?s1" "holds_lineage sid K chain r ?s1"
    using store_ok_cleanup [OF s] holds_cleanup [OF s h u(1)] .
  have f: "family_ok ?s1 sid (family_of sid ?s1)" by (rule store_ok_family [OF c(1)])
  have K: "(K, chain) \<in> set (family_of sid ?s1)" using c(2) by (auto simp: holds_lineage_def dest: map_of_SomeD)
  have best: "best_lineage ?snap (family_of sid ?s1) = Some K"
  proof (rule best_lineage_unique [OF K l])
    fix k c'
    assume c': "(k, c') \<in> set (family_of sid ?s1)" "leads c' ?snap"
    show "k = K \<or> length c' < length chain"
    proof (rule ccontr)
      assume n: "\<not> (k = K \<or> length c' < length chain)"
      have "json_ok_list c'" using f c'(1) by (auto simp: family_ok_def)
      then have "leads chain c'" using leads_common [OF l c'(2)] n json_ok_chain [OF wf] by simp
      then show False using n c(2) c'(1) by (auto simp: holds_lineage_def)
    qed
  qed
  have ne: "?snap \<noteq> []" "ms \<noteq> []"
    using f K l by (auto simp: family_ok_def leads_def lineage_chain_def)
  obtain fam where get: "dict_get (ss_lineages ?s1) sid = Some fam"
    using K by (cases "dict_get (ss_lineages ?s1) sid") (simp_all add: family_of_def dict_get_default_def)
  have "resolve_tracker clk0 clk sid provider (Some ms) s =
      (let (a, s3) = get_or_create clk K provider ?s1 in (a, stamp_lineage sid K ?snap s3))"
    using e ne get best by (simp add: resolve_tracker_def is_empty_def Let_def)
  moreover have "fst (get_or_create clk K provider ?s1) = r"
    using c u(2) by (intro holds_fetch(2)) simp_all
  ultimately show ?thesis by (simp add: case_prod_beta)
qed

section \<open>Properties\<close>

text \<open>In every state the store reaches, by any interleaving of requests and responses, each lineage has its tracker,
  lineages per session stay within the configured cap, different keys have different trackers, and keys have one of the
  three shapes, the numbered ones below the counter.
\<close>
theorem sessions_invariant:
  assumes "list_all op_ok ops"
  shows "store_ok (fold apply_op ops (session_store_init config now))"
  by (rule store_ok_run [OF store_ok_init assms])

text \<open>C6: A conversation keeps its tracker: when its lineage is recorded and no other lineage continues it, then after any
  interleaving of other requests (of any session, as long as none continues this very history) and of responses, its next request,
  which extends the recorded history, gets the same tracker back, unless that expired in between.
\<close>
theorem lineage_isolated:
  assumes "list_all op_ok before" "list_all op_ok ops" "pf_enabled config" "well_formed messages"
    and "holds_lineage sid K chain r (fold apply_op before (session_store_init config now))"
    and "undisturbed_run sid K chain r ops (fold apply_op before (session_store_init config now))"
    and "leads chain (lineage_chain messages)"
    and "unexpired clk0 K r (fold apply_op ops (fold apply_op before (session_store_init config now)))"
    and "unexpired clk K r (fold apply_op ops (fold apply_op before (session_store_init config now)))"
  shows "fst (resolve_tracker clk0 clk sid provider (Some messages)
           (fold apply_op ops (fold apply_op before (session_store_init config now)))) = r"
proof (rule resolve_continues [OF _ _ assms(8,9) _ assms(4,7)])
  let ?s = "fold apply_op before (session_store_init config now)"
  have s: "store_ok ?s" by (rule store_ok_run [OF store_ok_init assms(1)])
  show "store_ok (fold apply_op ops ?s)" by (rule store_ok_run [OF s assms(2)])
  show "holds_lineage sid K chain r (fold apply_op ops ?s)" by (rule holds_run [OF s assms(2,5,6)])
  have "ss_default_config (apply_op op s) = ss_default_config s" for op s
  proof (cases op)
    case (Fetch clk0 clk sid' provider messages)
    obtain a s' where r: "resolve_tracker clk0 clk sid' provider messages s = (a, s')" by fastforce
    then have "ss_default_config s' = ss_default_config s"
    proof (cases rule: resolve_cases)
      case (plain key base s2)
      have "s' = snd (get_or_create clk key provider s2)" using plain(4) by (metis snd_conv)
      then show ?thesis using plain(2,3) by (auto simp: agrees_def)
    next
      case (lineage ms key s2)
      then show ?thesis by (simp add: agrees_def)
    qed
    with r Fetch show ?thesis by (simp add: apply_op_def)
  qed (simp add: apply_op_def)
  then have "ss_default_config (fold apply_op xs s) = ss_default_config s" for xs s
    by (induction xs arbitrary: s) auto
  then show "pf_enabled (ss_default_config (fold apply_op ops ?s))"
    using assms(3) by (simp add: session_store_init_def)
qed

text \<open>The key of a further lineage is new.\<close>

lemma NUL_split: "NUL \<notin> set a \<Longrightarrow> NUL \<notin> set b \<Longrightarrow> a @ NUL # x = b @ NUL # y \<Longrightarrow> a = b \<and> x = y"
proof (induction a arbitrary: b)
  case Nil
  then show ?case by (cases b) auto
next
  case (Cons c a)
  then show ?case by (cases b) auto
qed

lemma numbered_unused:
  assumes "key_shape n k" "NUL \<notin> set sid"
  shows "k \<noteq> numbered_key sid n"
proof
  assume k: "k = numbered_key sid n"
  then obtain b where b: "NUL \<notin> set b" "k = overflow_key b \<or> (\<exists>m<n. k = numbered_key b m)"
    using assms(1) by (auto simp: key_shape_def numbered_key_def)
  have "nat_dec n \<noteq> ''overflow''"
  proof
    assume "nat_dec n = ''overflow''"
    then have "list_all is_digit ''overflow''" by (metis nat_dec_digits)
    then show False by (simp add: is_digit_def)
  qed
  then show False
    using b k NUL_split [OF assms(2) b(1), of "nat_dec n"] by (auto simp: numbered_key_def overflow_key_def)
qed

text \<open>A diverging history never inherits a tracker: when no recorded chain of the session leads the request and the
  cap is not reached, the request gets a tracker that did not exist before, with nothing frozen.
\<close>
theorem new_lineage_fresh:
  assumes "list_all op_ok ops" and s: "s = fold apply_op ops (session_store_init config now)"
    and "NUL \<notin> set sid" "messages \<noteq> []" "pf_enabled (ss_default_config s)" "lineage_chain messages \<noteq> []"
    and "family_of sid (maybe_cleanup clk0 s) \<noteq> []"
    and "best_lineage (lineage_chain messages) (family_of sid (maybe_cleanup clk0 s)) = None"
    and "int (length (family_of sid (maybe_cleanup clk0 s))) < pf_max_lineages_per_session (ss_default_config s)"
  shows "fst (resolve_tracker clk0 clk sid provider (Some messages) s) = length (ss_heap s) \<and>
    get_frozen_message_count (ss_heap (snd (resolve_tracker clk0 clk sid provider (Some messages) s)) ! length (ss_heap s)) = 0"
proof -
  let ?s1 = "maybe_cleanup clk0 s"
  let ?key = "numbered_key sid (ss_lineage_counter s)"
  let ?s2 = "?s1\<lparr>ss_lineage_counter := ss_lineage_counter s + 1\<rparr>"
  let ?c = "maybe_cleanup clk ?s2"
  obtain fam where get: "dict_get (ss_lineages ?s1) sid = Some fam"
    using assms(7) by (cases "dict_get (ss_lineages ?s1) sid") (simp_all add: family_of_def dict_get_default_def)
  have ok: "store_ok s" unfolding s by (rule store_ok_run [OF store_ok_init assms(1)])
  have ok1: "store_ok ?s1" by (rule store_ok_cleanup [OF ok])
  have "agrees ?s1 ?s2" by (simp add: agrees_def family_of_def)
  then have ok2: "store_ok ?s2" using ok1 agrees_store_ok by blast
  have "(?key, a) \<notin> set (ss_trackers ?s1)" for a
    using ok1 numbered_unused [OF _ assms(3)] by (fastforce simp: store_ok_def)
  then have "dict_get (ss_trackers ?c) ?key = None"
    using cleanup_trackers [of ?s2 clk] ok2 by (auto simp: map_of_eq_None_iff store_ok_def)
  then have g: "get_or_create clk ?key provider ?s2 =
      (length (ss_heap s), ?c\<lparr>ss_heap := ss_heap s @ [tracker_init provider (ss_default_config s) (fc_touch clk)],
         ss_trackers := dict_set ?key (length (ss_heap s)) (ss_trackers ?c)\<rparr>)"
    by (simp add: get_or_create_def Let_def)
  have "resolve_tracker clk0 clk sid provider (Some messages) s =
      (let (a, s3) = get_or_create clk ?key provider ?s2 in (a, stamp_lineage sid ?key (lineage_chain messages) s3))"
    using assms(4-9) get by (simp add: resolve_tracker_def is_empty_def Let_def)
  note r = this [unfolded g Let_def prod.case]
  show ?thesis unfolding r by (simp add: tracker_init_def get_frozen_message_count_def)
qed

text \<open>The session id of a conversation does not change as it grows past its leading system messages.\<close>

lemma session_id_stable:
  assumes "dict_get_default u ''role'' JNull \<noteq> JStr ''system''"
  shows "compute_session_id md5 frepr header model (leading @ u # rest) = compute_session_id md5 frepr header model (leading @ u # rest')"
proof -
  have "system_parts (leading @ u # rest) = system_parts (leading @ u # rest')"
    using assms by (induction leading) auto
  then show ?thesis by (simp add: compute_session_id_def)
qed

section \<open>Where the store falls short\<close>

text \<open>
  Fetching a tracker resets its clock, and the handlers classify a miss without passing the idle time the fetch
  saved: a request answered within the cache lifetime is never attributed to an expired cache, however
  long the session was idle before it.
\<close>
lemma fetch_hides_idle_time:
  assumes "dict_get (ss_trackers (maybe_cleanup clk s)) key = Some a" "a < length (ss_heap s)"
    and "now - fc_touch clk \<le> of_int (resolved_cache_ttl_seconds (ss_heap s ! a))" "0 \<le> resolved_cache_ttl_seconds (ss_heap s ! a)"
  shows "cm_reason (classify_cache_miss now cache_read forwarded None (ss_heap (snd (get_or_create clk key provider s)) ! a)) \<noteq> MISS_TTL_EXPIRY"
proof -
  let ?t = "(ss_heap s ! a)\<lparr>pt_idle_seconds_at_fetch := max 0 (fc_idle clk - pt_last_activity (ss_heap s ! a)), pt_last_activity := fc_touch clk\<rparr>"
  have t: "ss_heap (snd (get_or_create clk key provider s)) ! a = ?t"
    using assms(1,2) by (simp add: get_or_create_def Let_def)
  have "resolved_cache_ttl_seconds ?t = resolved_cache_ttl_seconds (ss_heap s ! a)"
    by (simp add: resolved_cache_ttl_seconds_def split: option.split)
  then have "\<not> of_int (resolved_cache_ttl_seconds ?t) < seconds_since_activity now ?t"
    using assms(3,4) by (simp add: seconds_since_activity_def)
  then show ?thesis
    unfolding t
    by (simp add: classify_cache_miss_def Let_def MISS_TTL_EXPIRY_def MISS_COLD_START_def MISS_PREFIX_CHANGE_def MISS_UNKNOWN_def)
qed

text \<open>
  The fetch prunes by a clock reading of its own: when the pruning interval ends between the two readings, the lineage
  that was just matched is pruned, and the history of the request is recorded in a dictionary nobody reads.
\<close>

definition at_time :: "rat \<Rightarrow> fetch_clock" where
  "at_time x = \<lparr>fc_cleanup = x, fc_expiry = (\<lambda>_. x), fc_idle = x, fc_touch = x\<rparr>"

lemma prune_during_fetch:
  "let s0 = session_store_init (default_freeze_config\<lparr>pf_session_ttl_seconds := 10\<rparr>) 0;
       m = text_message ''user'' ''hi'' False;
       s1 = snd (resolve_tracker (at_time 1) (at_time 1) ''s'' ''anthropic'' (Some [m]) s0);
       s2 = snd (resolve_tracker (at_time 59) (at_time 60) ''s'' ''anthropic'' (Some [m, m]) s1)
   in length (family_of ''s'' s1) = 1 \<and> family_of ''s'' s2 = [] \<and> ss_trackers s2 = [(''s'', 1)]"
  by code_simp

section \<open>Witnesses\<close>

definition session_ops :: "store_op list" where
  "session_ops =
     [Fetch (at_time 1) (at_time 1) ''s'' ''anthropic'' (Some [text_message ''user'' ''one'' False]),
      Fetch (at_time 2) (at_time 2) ''s'' ''anthropic'' (Some [text_message ''user'' ''two'' False]),
      Update 0 (\<lambda>t. t\<lparr>pt_last_activity := 3\<rparr>)]"

definition later_ops :: "store_op list" where
  "later_ops =
     [Fetch (at_time 4) (at_time 4) ''s'' ''anthropic'' (Some [text_message ''user'' ''two'' False, text_message ''assistant'' ''b'' False]),
      Fetch (at_time 70) (at_time 70) ''t'' ''anthropic'' None]"

definition sample_sessions :: SessionTrackerStore where
  "sample_sessions = fold apply_op session_ops (session_store_init default_freeze_config 0)"

lemma session_ops_ok: "list_all op_ok session_ops" "list_all op_ok later_ops"
  by code_simp+

lemma sample_holds:
  "holds_lineage ''s'' ''s'' (lineage_chain [text_message ''user'' ''one'' False]) 0 (fold apply_op session_ops (session_store_init default_freeze_config 0))"
  "undisturbed_run ''s'' ''s'' (lineage_chain [text_message ''user'' ''one'' False]) 0 later_ops
     (fold apply_op session_ops (session_store_init default_freeze_config 0))"
  "unexpired (at_time 90) ''s'' 0 (fold apply_op later_ops (fold apply_op session_ops (session_store_init default_freeze_config 0)))"
  by code_simp+

theorem sessions_invariant_witness: "store_ok sample_sessions"
  unfolding sample_sessions_def by (rule sessions_invariant [OF session_ops_ok(1)])

theorem lineage_isolated_witness:
  "fst (resolve_tracker (at_time 90) (at_time 90) ''s'' ''anthropic''
     (Some [[(''role'', JStr ''user''), (''content'', JStr ''one'')], text_message ''assistant'' ''a'' False])
     (fold apply_op later_ops sample_sessions)) = 0"
  unfolding sample_sessions_def
proof (rule lineage_isolated [OF session_ops_ok _ _ sample_holds(1,2) _ sample_holds(3,3)])
  show "pf_enabled default_freeze_config" by (simp add: default_freeze_config_def)
  show "well_formed [[(''role'', JStr ''user''), (''content'', JStr ''one'')], text_message ''assistant'' ''a'' False]" by code_simp
  show "leads (lineage_chain [text_message ''user'' ''one'' False])
     (lineage_chain [[(''role'', JStr ''user''), (''content'', JStr ''one'')], text_message ''assistant'' ''a'' False])" by code_simp
qed

theorem new_lineage_fresh_witness:
  "fst (resolve_tracker (at_time 5) (at_time 5) ''s'' ''anthropic'' (Some [text_message ''user'' ''three'' False]) sample_sessions) = 2"
proof -
  have h: "length (ss_heap sample_sessions) = 2" "pf_enabled (ss_default_config sample_sessions)" "NUL \<notin> set ''s''"
    "lineage_chain [text_message ''user'' ''three'' False] \<noteq> []" "family_of ''s'' (maybe_cleanup (at_time 5) sample_sessions) \<noteq> []"
    "best_lineage (lineage_chain [text_message ''user'' ''three'' False]) (family_of ''s'' (maybe_cleanup (at_time 5) sample_sessions)) = None"
    "int (length (family_of ''s'' (maybe_cleanup (at_time 5) sample_sessions))) < pf_max_lineages_per_session (ss_default_config sample_sessions)"
    by code_simp+
  show ?thesis
    using new_lineage_fresh [OF session_ops_ok(1) sample_sessions_def h(3) _ h(2,4-7), of "at_time 5" "''anthropic''"] h(1) by simp
qed

end
