(* ===== verification/SSE_Buffer.thy ===== *)
theory SSE_Buffer
  imports Py_Base "HOL-Library.Monad_Syntax"
begin

text \<open>
  The server-sent-event splitter, \<open>headroom/proxy/sse_byte_buffer_policy.py\<close>, which every streaming path
  feeds with the bytes of each network read. Here a text is a list of Unicode code points and a
  \<open>bytearray\<close> a list of bytes, both as \<open>int\<close>, because event boundaries are found in bytes and only complete
  events are decoded; \<open>bytes.decode("utf-8")\<close>, \<open>str.splitlines\<close> and \<open>str.lstrip\<close> are modelled on all of
  Unicode. The \<open>while True\<close> loop is a partial function: \<open>None\<close> would be a loop that does not return.
\<close>

section \<open>Bytes and text\<close>

type_synonym bytes = "int list"
type_synonym utext = "int list"

text \<open>The strict UTF-8 decoder: no overlong forms, no surrogates, nothing beyond U+10FFFF.\<close>

definition cont :: "int \<Rightarrow> bool" where
  "cont b = (128 \<le> b \<and> b < 192)"

fun utf8_decode :: "bytes \<Rightarrow> py_error + utext" where
  "utf8_decode [] = Inr []"
| "utf8_decode (b # bs) =
     (if 0 \<le> b \<and> b < 128 then and_then (utf8_decode bs) (\<lambda>t. Inr (b # t))
      else if 194 \<le> b \<and> b < 224 then
        (case bs of
           c1 # rest \<Rightarrow> if cont c1 then and_then (utf8_decode rest) (\<lambda>t. Inr (((b - 192) * 64 + (c1 - 128)) # t)) else Inl UnicodeError
         | _ \<Rightarrow> Inl UnicodeError)
      else if 224 \<le> b \<and> b < 240 then
        (case bs of
           c1 # c2 # rest \<Rightarrow>
             if cont c1 \<and> cont c2 \<and> (b = 224 \<longrightarrow> 160 \<le> c1) \<and> (b = 237 \<longrightarrow> c1 < 160)
             then and_then (utf8_decode rest) (\<lambda>t. Inr (((b - 224) * 4096 + (c1 - 128) * 64 + (c2 - 128)) # t)) else Inl UnicodeError
         | _ \<Rightarrow> Inl UnicodeError)
      else if 240 \<le> b \<and> b < 245 then
        (case bs of
           c1 # c2 # c3 # rest \<Rightarrow>
             if cont c1 \<and> cont c2 \<and> cont c3 \<and> (b = 240 \<longrightarrow> 144 \<le> c1) \<and> (b = 244 \<longrightarrow> c1 < 144)
             then and_then (utf8_decode rest)
                    (\<lambda>t. Inr (((b - 240) * 262144 + (c1 - 128) * 4096 + (c2 - 128) * 64 + (c3 - 128)) # t)) else Inl UnicodeError
         | _ \<Rightarrow> Inl UnicodeError)
      else Inl UnicodeError)"

text \<open>\<open>str.splitlines()\<close>: the characters that end a line, with CR LF as one.\<close>

definition line_break :: "int \<Rightarrow> bool" where
  "line_break c = (c \<in> {10, 11, 12, 13, 28, 29, 30, 133, 8232, 8233})"

fun splitlines :: "utext \<Rightarrow> utext list" where
  "splitlines [] = []"
| "splitlines (c # s) =
     (if line_break c then [] # splitlines (if c = 13 \<and> take 1 s = [10] then drop 1 s else s)
      else (case splitlines s of [] \<Rightarrow> [[c]] | l # ls \<Rightarrow> (c # l) # ls))"

definition is_uspace :: "int \<Rightarrow> bool" where
  "is_uspace c =
     (9 \<le> c \<and> c \<le> 13 \<or> 28 \<le> c \<and> c \<le> 32 \<or> 8192 \<le> c \<and> c \<le> 8202 \<or>
      c \<in> {133, 160, 5760, 8232, 8233, 8239, 8287, 12288})"

definition ulstrip :: "utext \<Rightarrow> utext" where
  "ulstrip s = dropWhile is_uspace s"

definition ustartswith :: "utext \<Rightarrow> utext \<Rightarrow> bool" where
  "ustartswith s p = (take (length p) s = p)"

section \<open>The splitter\<close>

definition SSE_EVENT_TERMINATORS :: "bytes list" where
  "SSE_EVENT_TERMINATORS = [[10, 10], [13, 10, 13, 10]]"

definition SSE_EVENT_LINE_PREFIX :: utext where
  "SSE_EVENT_LINE_PREFIX = [101, 118, 101, 110, 116, 58]"

definition SSE_DATA_LINE_PREFIX :: utext where
  "SSE_DATA_LINE_PREFIX = [100, 97, 116, 97, 58]"

text \<open>\<open>buf.find(sub)\<close>, \<open>None\<close> for \<open>-1\<close>.\<close>

fun find_sub :: "'a list \<Rightarrow> 'a list \<Rightarrow> nat option" where
  "find_sub sub [] = (if sub = [] then Some 0 else None)"
| "find_sub sub (x # xs) = (if take (length sub) (x # xs) = sub then Some 0 else map_option Suc (find_sub sub xs))"

text \<open>\<open>min\<close> with a key returns the first of several minima.\<close>

fun earliest :: "(nat \<times> nat) list \<Rightarrow> (nat \<times> nat) option" where
  "earliest [] = None"
| "earliest (m # ms) = (case earliest ms of None \<Rightarrow> Some m | Some m' \<Rightarrow> if fst m' < fst m then Some m' else Some m)"

definition find_sse_event_terminator :: "bytes \<Rightarrow> (nat \<times> nat) option" where
  "find_sse_event_terminator buf =
     earliest (concat (map (\<lambda>t. case find_sub t buf of Some idx \<Rightarrow> [(idx, length t)] | None \<Rightarrow> []) SSE_EVENT_TERMINATORS))"

type_synonym sse_event = "utext option \<times> utext"

definition event_line :: "utext \<Rightarrow> utext option \<times> utext list \<Rightarrow> utext option \<times> utext list" where
  "event_line line st =
     (case st of (event_name, data_lines) \<Rightarrow>
        if line = [] then st
        else if ustartswith line [58] then st
        else if ustartswith line SSE_EVENT_LINE_PREFIX then (Some (ulstrip (drop (length SSE_EVENT_LINE_PREFIX) line)), data_lines)
        else if ustartswith line SSE_DATA_LINE_PREFIX then (event_name, data_lines @ [ulstrip (drop (length SSE_DATA_LINE_PREFIX) line)])
        else st)"

fun ujoin :: "utext \<Rightarrow> utext list \<Rightarrow> utext" where
  "ujoin sep [] = []"
| "ujoin sep [l] = l"
| "ujoin sep (l # m # ls) = l @ sep @ ujoin sep (m # ls)"

definition event_of_text :: "utext \<Rightarrow> sse_event list" where
  "event_of_text txt =
     (case fold event_line (splitlines txt) (None, []) of
        (event_name, data_lines) \<Rightarrow> if data_lines = [] then [] else [(event_name, ujoin [10] data_lines)])"

text \<open>The loop: the events or the exception, and what is left in the buffer.\<close>

partial_function (option) drain ::
  "sse_event list \<Rightarrow> bytes \<Rightarrow> ((py_error + sse_event list) \<times> bytes) option" where
  "drain events buf =
     (case find_sse_event_terminator buf of
        None \<Rightarrow> Some (Inr events, buf)
      | Some (idx, terminator_len) \<Rightarrow>
          (case utf8_decode (take idx buf) of
             Inl e \<Rightarrow> Some (Inl e, drop (idx + terminator_len) buf)
           | Inr event_text \<Rightarrow> drain (events @ event_of_text event_text) (drop (idx + terminator_len) buf)))"

declare drain.simps [code]

definition parse_sse_events_from_byte_buffer :: "bytes \<Rightarrow> ((py_error + sse_event list) \<times> bytes) option" where
  "parse_sse_events_from_byte_buffer buf = drain [] buf"

text \<open>A stream: every network read is appended to what the last parse left.\<close>

fun parse_reads :: "bytes list \<Rightarrow> bytes \<Rightarrow> ((py_error + sse_event list) \<times> bytes) option" where
  "parse_reads [] buf = Some (Inr [], buf)"
| "parse_reads (chunk # chunks) buf =
     (case parse_sse_events_from_byte_buffer (buf @ chunk) of
        None \<Rightarrow> None
      | Some (Inl e, rest) \<Rightarrow> Some (Inl e, rest)
      | Some (Inr events, rest) \<Rightarrow>
          (case parse_reads chunks rest of
             None \<Rightarrow> None
           | Some (Inl e, rest') \<Rightarrow> Some (Inl e, rest')
           | Some (Inr events', rest') \<Rightarrow> Some (Inr (events @ events'), rest')))"

section \<open>Finding a terminator\<close>

definition occurs :: "'a list \<Rightarrow> 'a list \<Rightarrow> nat \<Rightarrow> bool" where
  "occurs sub xs i = (i + length sub \<le> length xs \<and> take (length sub) (drop i xs) = sub)"

lemma occurs_0: "occurs sub xs 0 \<longleftrightarrow> take (length sub) xs = sub"
proof -
  have "length sub \<le> length xs" if "take (length sub) xs = sub"
    using arg_cong [OF that, of length] by simp
  then show ?thesis by (auto simp: occurs_def)
qed

lemma occurs_Suc: "occurs sub (x # xs) (Suc i) \<longleftrightarrow> occurs sub xs i"
  by (simp add: occurs_def)

lemma find_sub_Some:
  "sub \<noteq> [] \<Longrightarrow> find_sub sub xs = Some i \<longleftrightarrow> occurs sub xs i \<and> (\<forall>j<i. \<not> occurs sub xs j)"
proof (induction xs arbitrary: i)
  case Nil
  then show ?case by (auto simp: occurs_def)
next
  case (Cons x xs)
  show ?case
  proof (cases i)
    case 0
    then show ?thesis by (auto simp: occurs_0)
  next
    case (Suc m)
    then show ?thesis using Cons by (auto simp: occurs_0 occurs_Suc All_less_Suc2)
  qed
qed

lemma find_sub_None: "sub \<noteq> [] \<Longrightarrow> find_sub sub xs = None \<longleftrightarrow> (\<forall>i. \<not> occurs sub xs i)"
proof (induction xs)
  case Nil
  then show ?case by (simp add: occurs_def)
next
  case (Cons x xs)
  have "(\<forall>i. \<not> occurs sub (x # xs) i) \<longleftrightarrow> \<not> occurs sub (x # xs) 0 \<and> (\<forall>i. \<not> occurs sub xs i)"
    by (metis occurs_Suc not0_implies_Suc)
  with Cons show ?case by (simp add: occurs_0)
qed

abbreviation LFLF :: bytes where "LFLF \<equiv> [10, 10]"
abbreviation CRLF2 :: bytes where "CRLF2 \<equiv> [13, 10, 13, 10]"

text \<open>Where an event ends.\<close>

definition ends_at :: "bytes \<Rightarrow> nat \<Rightarrow> nat \<Rightarrow> bool" where
  "ends_at buf i l = (occurs LFLF buf i \<and> l = 2 \<or> occurs CRLF2 buf i \<and> l = 4)"

lemma occurs_apart: "\<not> (occurs LFLF buf i \<and> occurs CRLF2 buf i)"
proof
  assume "occurs LFLF buf i \<and> occurs CRLF2 buf i"
  then have a: "take 2 (drop i buf) = [10, 10]" "take 4 (drop i buf) = [13, 10, 13, 10]"
    by (simp_all add: occurs_def numeral_eq_Suc)
  have "take 2 (take 4 (drop i buf)) = take 2 (drop i buf)" by simp
  with a show False by simp
qed

lemma find_terminator_eq:
  "find_sse_event_terminator buf =
   (case (find_sub LFLF buf, find_sub CRLF2 buf) of
      (None, None) \<Rightarrow> None
    | (Some i, None) \<Rightarrow> Some (i, 2)
    | (None, Some j) \<Rightarrow> Some (j, 4)
    | (Some i, Some j) \<Rightarrow> if j < i then Some (j, 4) else Some (i, 2))"
  by (simp add: find_sse_event_terminator_def SSE_EVENT_TERMINATORS_def split: option.splits)

text \<open>The first of two kinds of positions.\<close>

lemma first_unique: "Q b \<Longrightarrow> \<forall>j<b. \<not> Q j \<Longrightarrow> (Q i \<and> (\<forall>j<i. \<not> Q j)) = (i = (b :: nat))"
  by (metis linorder_neqE_nat)

lemma first_of:
  fixes P Q :: "nat \<Rightarrow> bool"
  assumes "\<And>i. \<not> (P i \<and> Q i)"
    and p: "case p of Some a \<Rightarrow> P a \<and> (\<forall>j<a. \<not> P j) | None \<Rightarrow> (\<forall>j. \<not> P j)"
    and q: "case q of Some b \<Rightarrow> Q b \<and> (\<forall>j<b. \<not> Q j) | None \<Rightarrow> (\<forall>j. \<not> Q j)"
  shows "(case (p, q) of (None, None) \<Rightarrow> None | (Some i, None) \<Rightarrow> Some (i, x) | (None, Some j) \<Rightarrow> Some (j, y)
      | (Some i, Some j) \<Rightarrow> if j < i then Some (j, y) else Some (i, x)) = Some (i, l) \<longleftrightarrow>
    (P i \<and> l = x \<or> Q i \<and> l = y) \<and> (\<forall>j<i. \<not> P j \<and> \<not> Q j)"
proof (cases p; cases q)
  fix b assume "p = None" "q = Some b"
  with p q show ?thesis using first_unique [of Q b i] by auto
next
  fix a assume "p = Some a" "q = None"
  with p q show ?thesis using first_unique [of P a i] by auto
next
  fix a b assume ab: "p = Some a" "q = Some b"
  then have "a \<noteq> b" using p q assms(1) by auto
  then consider "a < b" | "b < a" by linarith
  then show ?thesis
  proof cases
    case 1
    have "(P i \<or> Q i) \<and> (\<forall>j<i. \<not> P j \<and> \<not> Q j) \<longleftrightarrow> i = a"
      using first_unique [of "\<lambda>i. P i \<or> Q i" a i] p q ab 1 by auto
    moreover have "\<not> Q a" "P a" using p q ab 1 by auto
    ultimately show ?thesis using ab 1 by auto
  next
    case 2
    have "(P i \<or> Q i) \<and> (\<forall>j<i. \<not> P j \<and> \<not> Q j) \<longleftrightarrow> i = b"
      using first_unique [of "\<lambda>i. P i \<or> Q i" b i] p q ab 2 by auto
    moreover have "\<not> P b" "Q b" using p q ab 2 by auto
    ultimately show ?thesis using ab 2 by auto
  qed
qed (use p q in auto)

lemma find_terminator_Some:
  "find_sse_event_terminator buf = Some (i, l) \<longleftrightarrow> ends_at buf i l \<and> (\<forall>j<i. \<not> occurs LFLF buf j \<and> \<not> occurs CRLF2 buf j)"
  unfolding find_terminator_eq ends_at_def
proof (rule first_of)
  show "\<not> (occurs LFLF buf i \<and> occurs CRLF2 buf i)" for i by (rule occurs_apart)
  show "case find_sub LFLF buf of Some a \<Rightarrow> occurs LFLF buf a \<and> (\<forall>j<a. \<not> occurs LFLF buf j) | None \<Rightarrow> \<forall>j. \<not> occurs LFLF buf j"
    by (simp add: find_sub_Some find_sub_None split: option.split)
  show "case find_sub CRLF2 buf of Some a \<Rightarrow> occurs CRLF2 buf a \<and> (\<forall>j<a. \<not> occurs CRLF2 buf j) | None \<Rightarrow> \<forall>j. \<not> occurs CRLF2 buf j"
    by (simp add: find_sub_Some find_sub_None split: option.split)
qed

lemma find_terminator_None:
  "find_sse_event_terminator buf = None \<longleftrightarrow> (\<forall>i. \<not> occurs LFLF buf i \<and> \<not> occurs CRLF2 buf i)"
  by (auto simp: find_terminator_eq find_sub_None find_sub_Some split: option.splits if_splits)

lemma terminator_bounds:
  assumes "find_sse_event_terminator buf = Some (i, l)"
  shows "0 < l" "i + l \<le> length buf"
  using assms by (auto simp: find_terminator_Some ends_at_def occurs_def)

section \<open>More bytes do not move a boundary\<close>

lemma occurs_append: "occurs sub xs i \<Longrightarrow> occurs sub (xs @ ys) i"
  by (auto simp: occurs_def)

lemma occurs_appendD: "occurs sub (xs @ ys) i \<Longrightarrow> i + length sub \<le> length xs \<Longrightarrow> occurs sub xs i"
  by (auto simp: occurs_def)

lemma occurs_nth: "occurs sub xs i \<Longrightarrow> k < length sub \<Longrightarrow> xs ! (i + k) = sub ! k"
proof -
  assume "occurs sub xs i" "k < length sub"
  then have "take (length sub) (drop i xs) ! k = sub ! k" "i \<le> length xs" by (simp_all add: occurs_def)
  with \<open>k < length sub\<close> show ?thesis by (simp add: nth_drop)
qed

lemma find_terminator_append:
  assumes "find_sse_event_terminator buf = Some (i, l)"
  shows "find_sse_event_terminator (buf @ more) = Some (i, l)"
proof -
  have f: "ends_at buf i l" "\<And>j. j < i \<Longrightarrow> \<not> occurs LFLF buf j \<and> \<not> occurs CRLF2 buf j"
    using assms by (auto simp: find_terminator_Some)
  have len: "i + l \<le> length buf" by (rule terminator_bounds(2) [OF assms])
  have "ends_at (buf @ more) i l" using f(1) by (auto simp: ends_at_def occurs_append)
  moreover have "\<not> occurs LFLF (buf @ more) j" if j: "j < i" for j
  proof
    assume "occurs LFLF (buf @ more) j"
    moreover have "j + 2 \<le> length buf" using j len f(1) by (auto simp: ends_at_def)
    ultimately show False using f(2) [OF j] occurs_appendD [of LFLF buf more j] by simp
  qed
  moreover have "\<not> occurs CRLF2 (buf @ more) j" if j: "j < i" for j
  proof
    assume o: "occurs CRLF2 (buf @ more) j"
    then have n: "\<not> j + 4 \<le> length buf" using f(2) [OF j] occurs_appendD [of CRLF2 buf more j] by auto
    have l: "occurs LFLF buf i" "l = 2" using f(1) n j len by (auto simp: ends_at_def)
    then have i: "i = Suc j" using n j len by simp
    have "(buf @ more) ! (j + 2) = 13" using occurs_nth [OF o, of 2] by simp
    moreover have "(buf @ more) ! (i + 1) = 10" using occurs_nth [OF occurs_append [OF l(1)], of 1] by simp
    ultimately show False by (simp add: i)
  qed
  ultimately show ?thesis by (simp add: find_terminator_Some)
qed

section \<open>The loop\<close>

text \<open>Events parsed before, put in front of a result.\<close>

definition before :: "sse_event list \<Rightarrow> (py_error + sse_event list) \<times> bytes \<Rightarrow> (py_error + sse_event list) \<times> bytes" where
  "before events r = (case r of (Inl e, rest) \<Rightarrow> (Inl e, rest) | (Inr events', rest) \<Rightarrow> (Inr (events @ events'), rest))"

lemma before_before [simp]: "before a (before b r) = before (a @ b) r"
  by (auto simp: before_def split: prod.splits sum.splits)

lemma before_Nil [simp]: "before [] r = r"
  by (auto simp: before_def split: prod.splits sum.splits)

lemma before_Inr [simp]: "before a (Inr b, rest) = (Inr (a @ b), rest)" "before a (Inl e, rest) = (Inl e, rest)"
  by (simp_all add: before_def)

lemma drain_returns: "\<exists>r. \<forall>events. drain events buf = Some (before events r)"
proof (induction buf rule: length_induct)
  case (1 buf)
  show ?case
  proof (cases "find_sse_event_terminator buf")
    case None
    then have "drain events buf = Some (before events (Inr [], buf))" for events
      by (subst drain.simps) simp
    then show ?thesis by blast
  next
    case (Some m)
    obtain i l where m: "m = (i, l)" by (cases m)
    note b = terminator_bounds [OF Some [unfolded m]]
    have "length (drop (i + l) buf) < length buf" using b by simp
    with 1 obtain r where r: "\<forall>events. drain events (drop (i + l) buf) = Some (before events r)" by blast
    show ?thesis
    proof (cases "utf8_decode (take i buf)")
      case (Inl e)
      then have "drain events buf = Some (before events (Inl e, drop (i + l) buf))" for events
        using Some m by (subst drain.simps) simp
      then show ?thesis by blast
    next
      case (Inr tx)
      then have "drain events buf = Some (before events (before (event_of_text tx) r))" for events
        using Some m r by (subst drain.simps) simp
      then show ?thesis by blast
    qed
  qed
qed

text \<open>The parser as a total function, with its loop unrolled once.\<close>

definition parsed :: "bytes \<Rightarrow> (py_error + sse_event list) \<times> bytes" where
  "parsed buf = the (parse_sse_events_from_byte_buffer buf)"

lemma parse_parsed: "parse_sse_events_from_byte_buffer buf = Some (parsed buf)"
  using drain_returns [of buf] by (auto simp: parsed_def parse_sse_events_from_byte_buffer_def)

lemma drain_parsed: "drain events buf = Some (before events (parsed buf))"
proof -
  obtain r where r: "\<forall>events. drain events buf = Some (before events r)" using drain_returns by blast
  then have "parsed buf = r" by (simp add: parsed_def parse_sse_events_from_byte_buffer_def)
  with r show ?thesis by simp
qed

lemma parsed_unfold:
  "parsed buf =
   (case find_sse_event_terminator buf of
      None \<Rightarrow> (Inr [], buf)
    | Some (i, l) \<Rightarrow>
        (case utf8_decode (take i buf) of
           Inl e \<Rightarrow> (Inl e, drop (i + l) buf)
         | Inr txt \<Rightarrow> before (event_of_text txt) (parsed (drop (i + l) buf))))"
  unfolding parsed_def [of buf] parse_sse_events_from_byte_buffer_def
  by (subst drain.simps) (simp add: drain_parsed split: option.splits prod.splits sum.splits)

lemma parsed_append:
  "parsed (buf @ more) =
   (case parsed buf of (Inl e, rest) \<Rightarrow> (Inl e, rest @ more) | (Inr events, rest) \<Rightarrow> before events (parsed (rest @ more)))"
proof (induction buf rule: length_induct)
  case (1 buf)
  show ?case
  proof (cases "find_sse_event_terminator buf")
    case None
    then have "parsed buf = (Inr [], buf)" by (subst parsed_unfold) simp
    then show ?thesis by simp
  next
    case (Some m)
    obtain i l where m: "m = (i, l)" by (cases m)
    note f = Some [unfolded m]
    note b = terminator_bounds [OF f]
    have IH: "parsed (drop (i + l) buf @ more) =
        (case parsed (drop (i + l) buf) of (Inl e, rest) \<Rightarrow> (Inl e, rest @ more) | (Inr events, rest) \<Rightarrow> before events (parsed (rest @ more)))"
      using 1 b by simp
    have z: "i - length buf = 0" "i + l - length buf = 0" using b by simp_all
    have more: "parsed (buf @ more) =
        (case utf8_decode (take i buf) of
           Inl e \<Rightarrow> (Inl e, drop (i + l) buf @ more)
         | Inr t \<Rightarrow> before (event_of_text t) (parsed (drop (i + l) buf @ more)))"
      by (subst parsed_unfold) (simp add: find_terminator_append [OF f] z split: sum.split)
    have "parsed buf =
        (case utf8_decode (take i buf) of
           Inl e \<Rightarrow> (Inl e, drop (i + l) buf)
         | Inr t \<Rightarrow> before (event_of_text t) (parsed (drop (i + l) buf)))"
      by (subst parsed_unfold) (simp add: f)
    then show ?thesis
      unfolding more IH by (auto simp: before_def split: prod.splits sum.splits)
  qed
qed

lemma parsed_rest: "parsed buf = (Inr events, rest) \<Longrightarrow> find_sse_event_terminator rest = None"
proof (induction buf arbitrary: events rule: length_induct)
  case (1 buf)
  show ?case
  proof (cases "find_sse_event_terminator buf")
    case None
    then show ?thesis using 1 parsed_unfold [of buf] by simp
  next
    case (Some m)
    obtain i l where m: "m = (i, l)" by (cases m)
    note f = Some [unfolded m]
    obtain tx events' where "utf8_decode (take i buf) = Inr tx" "parsed (drop (i + l) buf) = (Inr events', rest)"
      using "1.prems" f parsed_unfold [of buf] by (auto simp: before_def split: sum.splits prod.splits)
    moreover have "length (drop (i + l) buf) < length buf" using terminator_bounds [OF f] by simp
    ultimately show ?thesis using 1 by blast
  qed
qed

lemma parse_reads_eq:
  "(case parsed (buf @ concat chunks) of
      (Inr events, rest) \<Rightarrow> find_sse_event_terminator buf = None \<longrightarrow> parse_reads chunks buf = Some (Inr events, rest)
    | (Inl e, rest) \<Rightarrow> find_sse_event_terminator buf = None \<longrightarrow> (\<exists>rest'. parse_reads chunks buf = Some (Inl e, rest')))"
proof (induction chunks arbitrary: buf)
  case Nil
  have "parsed buf = (Inr [], buf)" if "find_sse_event_terminator buf = None"
    using that by (subst parsed_unfold) simp
  then show ?case
    by (cases "find_sse_event_terminator buf = None"; cases "parsed buf"; cases "fst (parsed buf)") simp_all
next
  case (Cons chunk chunks)
  obtain r rest where p: "parsed (buf @ chunk) = (r, rest)" by (cases "parsed (buf @ chunk)")
  have all: "buf @ concat (chunk # chunks) = (buf @ chunk) @ concat chunks" by simp
  show ?case
  proof (cases r)
    case (Inl e)
    then show ?thesis unfolding all parsed_append [of "buf @ chunk"] p by (simp add: parse_parsed p)
  next
    case (Inr events)
    have "find_sse_event_terminator rest = None" using p Inr parsed_rest by blast
    with Cons.IH [of rest] show ?thesis
      unfolding all parsed_append [of "buf @ chunk"] p
      by (auto simp: Inr parse_parsed p before_def split: prod.splits sum.splits)
  qed
qed

section \<open>Encoding\<close>

text \<open>The other direction, for streams that are well formed: \<open>str.encode("utf-8")\<close> on Unicode scalar values.\<close>

definition scalar :: "int \<Rightarrow> bool" where
  "scalar c = (0 \<le> c \<and> c < 55296 \<or> 57344 \<le> c \<and> c \<le> 1114111)"

definition utf8_bytes :: "int \<Rightarrow> bytes" where
  "utf8_bytes c =
     (if c < 128 then [c]
      else if c < 2048 then [192 + c div 64, 128 + c mod 64]
      else if c < 65536 then [224 + c div 4096, 128 + c div 64 mod 64, 128 + c mod 64]
      else [240 + c div 262144, 128 + c div 4096 mod 64, 128 + c div 64 mod 64, 128 + c mod 64])"

definition utf8_of :: "utext \<Rightarrow> bytes" where
  "utf8_of s = concat (map utf8_bytes s)"

text \<open>A code point in base 64.\<close>

lemma digits64:
  fixes c :: int
  obtains p q a b where "c div 64 = p" "c div 4096 = q" "c mod 64 = a" "p mod 64 = b" "c = 64 * p + a" "p = 64 * q + b"
    "0 \<le> a" "a < 64" "0 \<le> b" "b < 64"
proof -
  have "c div 4096 = c div 64 div 64" using zdiv_zmult2_eq [of 64 c 64] by simp
  then show thesis
    using that [of "c div 64" "c div 4096" "c mod 64" "c div 64 mod 64"] mult_div_mod_eq [of 64 c] mult_div_mod_eq [of 64 "c div 64"] by simp
qed

lemma decode_bytes: "scalar c \<Longrightarrow> utf8_decode (utf8_bytes c @ rest) = and_then (utf8_decode rest) (\<lambda>s. Inr (c # s))"
proof -
  assume c: "scalar c"
  consider (one) "0 \<le> c" "c < 128" | (two) "128 \<le> c" "c < 2048" | (three) "2048 \<le> c" "c < 65536" | (four) "65536 \<le> c" "c \<le> 1114111"
    using c unfolding scalar_def by linarith
  then show ?thesis
  proof cases
    case one
    then show ?thesis by (simp add: utf8_bytes_def)
  next
    case two
    obtain p a where p: "c div 64 = p" "c mod 64 = a" "c = 64 * p + a" "0 \<le> a" "a < 64" by (rule digits64 [of c])
    have "2 \<le> p" "p < 32" using two p(3-5) by linarith+
    then show ?thesis using two p by (simp add: utf8_bytes_def cont_def mult.commute)
  next
    case three
    obtain p q a b where p: "c div 64 = p" "c div 4096 = q" "c mod 64 = a" "p mod 64 = b" "c = 64 * p + a" "p = 64 * q + b"
      "0 \<le> a" "a < 64" "0 \<le> b" "b < 64" by (rule digits64 [of c])
    have "q < 16" "0 \<le> q" "q = 0 \<Longrightarrow> 32 \<le> b" "q = 13 \<Longrightarrow> b < 32"
      using three c p(5-10) unfolding scalar_def by linarith+
    then have "utf8_decode ((224 + q) # (128 + b) # (128 + a) # rest) = and_then (utf8_decode rest) (\<lambda>s. Inr ((4096 * q + 64 * b + a) # s))"
      using p(7-10) by (simp add: cont_def mult.commute)
    moreover have "utf8_bytes c = [224 + q, 128 + b, 128 + a]" using three p(1-4) by (simp add: utf8_bytes_def)
    moreover have "4096 * q + 64 * b + a = c" using p(5,6) by simp
    ultimately show ?thesis by simp
  next
    case four
    obtain p q a b where p: "c div 64 = p" "c div 4096 = q" "c mod 64 = a" "p mod 64 = b" "c = 64 * p + a" "p = 64 * q + b"
      "0 \<le> a" "a < 64" "0 \<le> b" "b < 64" by (rule digits64 [of c])
    obtain r d where r: "q div 64 = r" "q mod 64 = d" "q = 64 * r + d" "0 \<le> d" "d < 64" by (rule digits64 [of q])
    have s: "c div 262144 = r" using zdiv_zmult2_eq [of 64 c 4096] p(2) r(1) by simp
    have "r < 5" "0 \<le> r" "r = 0 \<Longrightarrow> 16 \<le> d" "r = 4 \<Longrightarrow> d < 16"
      using four p(5-10) r(3-5) by linarith+
    then have "utf8_decode ((240 + r) # (128 + d) # (128 + b) # (128 + a) # rest) =
        and_then (utf8_decode rest) (\<lambda>s. Inr ((262144 * r + 4096 * d + 64 * b + a) # s))"
      using p(7-10) r(4,5) by (simp add: cont_def mult.commute)
    moreover have "utf8_bytes c = [240 + r, 128 + d, 128 + b, 128 + a]" using four p(1-4) r(2) s by (simp add: utf8_bytes_def)
    moreover have "262144 * r + 4096 * d + 64 * b + a = c" using p(5,6) r(3) by simp
    ultimately show ?thesis by simp
  qed
qed

lemma decode_encode: "list_all scalar s \<Longrightarrow> utf8_decode (utf8_of s) = Inr s"
  by (induction s) (simp_all add: utf8_of_def decode_bytes)

lemma utf8_bytes_low: "scalar c \<Longrightarrow> b \<in> set (utf8_bytes c) \<Longrightarrow> b < 128 \<Longrightarrow> b = c"
  by (auto simp: utf8_bytes_def scalar_def split: if_splits)

lemma utf8_bytes_nonempty: "utf8_bytes c \<noteq> []"
  by (simp add: utf8_bytes_def)

section \<open>Well-formed events\<close>

text \<open>An event as a provider writes it: an optional name, one or more data lines, an empty line.\<close>

type_synonym event_source = "utext option \<times> utext list"

definition plain_line :: "utext \<Rightarrow> bool" where
  "plain_line s = (list_all scalar s \<and> \<not> list_ex line_break s)"

definition event_lines :: "event_source \<Rightarrow> utext list" where
  "event_lines e =
     (case fst e of Some n \<Rightarrow> [SSE_EVENT_LINE_PREFIX @ 32 # n] | None \<Rightarrow> []) @ map (\<lambda>d. SSE_DATA_LINE_PREFIX @ 32 # d) (snd e)"

definition event_ok :: "event_source \<Rightarrow> bool" where
  "event_ok e = ((case fst e of Some n \<Rightarrow> plain_line n | None \<Rightarrow> True) \<and> list_all plain_line (snd e) \<and> snd e \<noteq> [])"

definition render_event :: "event_source \<Rightarrow> bytes" where
  "render_event e = utf8_of (ujoin [10] (event_lines e)) @ [10, 10]"

text \<open>What is read of it: names and data lines without leading white space.\<close>

definition received :: "event_source \<Rightarrow> utext option \<times> utext" where
  "received e = (map_option (dropWhile is_uspace) (fst e), ujoin [10] (map (dropWhile is_uspace) (snd e)))"

lemma utf8_of_append: "utf8_of (a @ b) = utf8_of a @ utf8_of b"
  by (simp add: utf8_of_def)

lemma utf8_of_join: "utf8_of (ujoin [10] ls) = ujoin [10] (map utf8_of ls)"
  by (induction "[10] :: utext" ls rule: ujoin.induct) (simp_all add: utf8_of_append, simp_all add: utf8_of_def utf8_bytes_def)

lemma find_terminator_skip:
  assumes "x \<noteq> 13" "x = 10 \<Longrightarrow> take 1 s \<noteq> [10]"
  shows "find_sse_event_terminator (x # s) = map_option (\<lambda>(i, l). (Suc i, l)) (find_sse_event_terminator s)"
proof -
  have "take 2 (x # s) \<noteq> [10, 10]" using assms(2) by (cases s) auto
  with assms(1) show ?thesis by (auto simp: find_terminator_eq numeral_2_eq_2 [symmetric] split: option.splits)
qed

lemma find_terminator_skip_line:
  "list_all (\<lambda>b. b \<noteq> 10 \<and> b \<noteq> 13) line \<Longrightarrow>
   find_sse_event_terminator (line @ s) = map_option (\<lambda>(i, l). (length line + i, l)) (find_sse_event_terminator s)"
proof (induction line)
  case Nil
  then show ?case by (cases "find_sse_event_terminator s") auto
next
  case (Cons b line)
  have "find_sse_event_terminator (b # (line @ s)) = map_option (\<lambda>(i, l). (Suc i, l)) (find_sse_event_terminator (line @ s))"
    using Cons.prems by (intro find_terminator_skip) auto
  then show ?case using Cons by (cases "find_sse_event_terminator s") auto
qed

lemma find_terminator_event:
  "lines \<noteq> [] \<Longrightarrow> list_all (\<lambda>line. line \<noteq> [] \<and> list_all (\<lambda>b. b \<noteq> 10 \<and> b \<noteq> 13) line) lines \<Longrightarrow>
   find_sse_event_terminator (ujoin [10] lines @ 10 # 10 # rest) = Some (length (ujoin [10] lines), 2)"
proof (induction "[10] :: bytes" lines rule: ujoin.induct)
  case (2 line)
  have "find_sse_event_terminator (10 # 10 # rest) = Some (0, 2)"
    by (auto simp: find_terminator_eq split: option.splits)
  with 2 show ?case by (simp add: find_terminator_skip_line)
next
  case (3 line line' lines)
  obtain b r where r: "ujoin [10] (line' # lines) @ 10 # 10 # rest = b # r" "b \<noteq> 10"
    using "3.prems" by (cases line'; cases lines) auto
  have "find_sse_event_terminator (10 # ujoin [10] (line' # lines) @ 10 # 10 # rest) = Some (Suc (length (ujoin [10] (line' # lines))), 2)"
    using 3 r by (subst find_terminator_skip) auto
  then show ?case
    using "3.prems" find_terminator_skip_line [of line "10 # ujoin [10] (line' # lines) @ 10 # 10 # rest"] by simp
qed simp

lemma splitlines_line: "\<not> list_ex line_break line \<Longrightarrow> splitlines (line @ 10 # s) = line # splitlines s"
  by (induction line) (auto simp: line_break_def)

lemma splitlines_last: "\<not> list_ex line_break line \<Longrightarrow> line \<noteq> [] \<Longrightarrow> splitlines line = [line]"
proof (induction line)
  case (Cons c line)
  then show ?case by (cases line) auto
qed simp

lemma splitlines_join:
  "list_all (\<lambda>line. line \<noteq> [] \<and> \<not> list_ex line_break line) lines \<Longrightarrow> splitlines (ujoin [10] lines) = lines"
  by (induction "[10] :: utext" lines rule: ujoin.induct) (auto simp: splitlines_line splitlines_last)

lemma ulstrip_space: "ulstrip (32 # s) = dropWhile is_uspace s"
  by (simp add: ulstrip_def is_uspace_def)

lemmas prefix_defs = SSE_EVENT_LINE_PREFIX_def SSE_DATA_LINE_PREFIX_def

lemma event_line_name: "event_line (SSE_EVENT_LINE_PREFIX @ 32 # n) (nm, ds) = (Some (dropWhile is_uspace n), ds)"
  by (simp add: event_line_def prefix_defs ustartswith_def ulstrip_space)

lemma event_line_data: "event_line (SSE_DATA_LINE_PREFIX @ 32 # d) (nm, ds) = (nm, ds @ [dropWhile is_uspace d])"
  by (simp add: event_line_def prefix_defs ustartswith_def ulstrip_space)

lemma fold_data_lines:
  "fold event_line (map (\<lambda>d. SSE_DATA_LINE_PREFIX @ 32 # d) ds) (nm, acc) = (nm, acc @ map (dropWhile is_uspace) ds)"
  by (induction ds arbitrary: acc) (simp_all only: list.map fold_Cons fold_Nil o_apply id_apply event_line_data append_Nil2 append_assoc append_Cons append_Nil)

lemma prefix_facts:
  "list_all scalar SSE_EVENT_LINE_PREFIX" "list_all scalar SSE_DATA_LINE_PREFIX" "scalar 32"
  "\<not> list_ex line_break SSE_EVENT_LINE_PREFIX" "\<not> list_ex line_break SSE_DATA_LINE_PREFIX" "\<not> line_break 32"
  by code_simp+

lemma prefixed_line:
  assumes "plain_line s" "P = SSE_EVENT_LINE_PREFIX \<or> P = SSE_DATA_LINE_PREFIX"
  shows "P @ 32 # s \<noteq> []" "\<not> list_ex line_break (P @ 32 # s)" "list_all scalar (P @ 32 # s)"
  using assms prefix_facts by (auto simp: plain_line_def)

lemma event_lines_facts:
  assumes "event_ok e" "line \<in> set (event_lines e)"
  shows "line \<noteq> []" "\<not> list_ex line_break line" "list_all scalar line"
proof -
  obtain P s where "line = P @ 32 # s" "plain_line s" "P = SSE_EVENT_LINE_PREFIX \<or> P = SSE_DATA_LINE_PREFIX"
    using assms by (auto simp: event_lines_def event_ok_def list_all_iff split: option.splits)
  then show "line \<noteq> []" "\<not> list_ex line_break line" "list_all scalar line"
    using prefixed_line by blast+
qed

lemma event_of_lines:
  assumes "event_ok e"
  shows "event_of_text (ujoin [10] (event_lines e)) = [received e]"
proof -
  have "splitlines (ujoin [10] (event_lines e)) = event_lines e"
    using event_lines_facts [OF assms] by (intro splitlines_join) (auto simp: list_all_iff)
  moreover have "fold event_line (event_lines e) (None, []) = (map_option (dropWhile is_uspace) (fst e), map (dropWhile is_uspace) (snd e))"
    by (cases "fst e") (simp_all add: event_lines_def fold_data_lines event_line_name)
  ultimately show ?thesis using assms by (simp add: event_of_text_def event_ok_def received_def split_beta)
qed

lemma scalar_join: "list_all (list_all scalar) ls \<Longrightarrow> list_all scalar (ujoin [10] ls)"
  by (induction "[10] :: utext" ls rule: ujoin.induct) (auto simp: scalar_def)

lemma parsed_event:
  assumes "event_ok e"
  shows "parsed (render_event e @ rest) = before [received e] (parsed rest)"
proof -
  let ?t = "ujoin [10] (event_lines e)"
  note facts = event_lines_facts [OF assms]
  have "list_all (\<lambda>line. line \<noteq> [] \<and> list_all (\<lambda>b. b \<noteq> 10 \<and> b \<noteq> 13) line) (map utf8_of (event_lines e))"
  proof -
    have "utf8_of line \<noteq> []" if "line \<in> set (event_lines e)" for line
      using facts(1) [OF that] by (cases line) (auto simp: utf8_of_def utf8_bytes_nonempty)
    moreover have "b \<noteq> 10 \<and> b \<noteq> 13" if l: "line \<in> set (event_lines e)" and b: "b \<in> set (utf8_of line)" for b line
    proof -
      obtain c where c: "c \<in> set line" "b \<in> set (utf8_bytes c)" using b by (auto simp: utf8_of_def)
      then have "scalar c" "\<not> line_break c" using facts(2,3) [OF l] by (auto simp: list_all_iff list_ex_iff)
      with utf8_bytes_low [OF _ c(2)] show ?thesis by (auto simp: line_break_def)
    qed
    ultimately show ?thesis by (auto simp: list_all_iff)
  qed
  moreover have "event_lines e \<noteq> []" using assms by (auto simp: event_lines_def event_ok_def)
  ultimately have f: "find_sse_event_terminator (utf8_of ?t @ 10 # 10 # rest) = Some (length (utf8_of ?t), 2)"
    unfolding utf8_of_join by (intro find_terminator_event) auto
  have "utf8_decode (utf8_of ?t) = Inr ?t"
    using facts(3) by (intro decode_encode scalar_join) (auto simp: list_all_iff)
  then show ?thesis
    by (subst parsed_unfold) (simp add: render_event_def f event_of_lines [OF assms])
qed

lemma parsed_stream: "list_all event_ok es \<Longrightarrow> parsed (concat (map render_event es)) = (Inr (map received es), [])"
proof (induction es)
  case Nil
  have "find_sse_event_terminator [] = None" by code_simp
  then show ?case by (subst parsed_unfold) simp
next
  case (Cons e es)
  then show ?case by (simp add: parsed_event)
qed

section \<open>Properties\<close>

lemma parsed_suffix: "\<exists>consumed. buf = consumed @ snd (parsed buf)"
proof (induction buf rule: length_induct)
  case (1 buf)
  show ?case
  proof (cases "find_sse_event_terminator buf")
    case None
    then show ?thesis by (subst parsed_unfold) simp
  next
    case (Some m)
    obtain i l where m: "m = (i, l)" by (cases m)
    have "length (drop (i + l) buf) < length buf" using terminator_bounds [OF Some [unfolded m]] by simp
    with 1 obtain consumed where c: "drop (i + l) buf = consumed @ snd (parsed (drop (i + l) buf))" by blast
    have "snd (parsed buf) = drop (i + l) buf \<or> snd (parsed buf) = snd (parsed (drop (i + l) buf))"
      using Some m by (subst (1 2) parsed_unfold) (auto simp: before_def split: sum.splits prod.splits)
    then show ?thesis using c append_take_drop_id [of "i + l" buf] by (metis append.assoc)
  qed
qed

text \<open>C28: The drain loop ends on every buffer: it returns events or the decoding error, what is left is a suffix of the buffer,
  and unless it raised, no complete event is left in it.
\<close>
theorem sse_loop_terminates:
  "\<exists>result rest. parse_sse_events_from_byte_buffer buf = Some (result, rest) \<and> (\<exists>consumed. buf = consumed @ rest) \<and>
     (isl result \<or> find_sse_event_terminator rest = None)"
proof -
  obtain result rest where p: "parsed buf = (result, rest)" by (cases "parsed buf")
  have "isl result \<or> find_sse_event_terminator rest = None"
    using parsed_rest p by (cases result) auto
  then show ?thesis using parse_parsed [of buf] parsed_suffix [of buf] p by auto
qed

text \<open>C9: Where the network splits a stream does not matter: reading it in any chunks gives the events of reading it
  at once, and the same rest, or the same error, even when a chunk ends inside a character or a terminator.
\<close>
theorem chunking_irrelevant:
  "map_option fst (parse_reads chunks []) = map_option fst (parse_sse_events_from_byte_buffer (concat chunks)) \<and>
   (\<forall>events rest. parse_sse_events_from_byte_buffer (concat chunks) = Some (Inr events, rest) \<longrightarrow>
      parse_reads chunks [] = Some (Inr events, rest))"
proof -
  have none: "find_sse_event_terminator [] = None" by code_simp
  obtain r rest where p: "parsed (concat chunks) = (r, rest)" by (cases "parsed (concat chunks)")
  show ?thesis using parse_reads_eq [of "[]" chunks] none p by (cases r) (auto simp: parse_parsed)
qed

text \<open>C29: What a provider sends arrives, up to leading white space: take a stream of events, each written as an optional line
  \<open>event: \<close> and one or more lines \<open>data: \<close>, ended by newlines and an empty line, whose texts are any Unicode scalar values but those
  \<open>splitlines\<close> takes for line breaks. Cut into reads at any bytes, it yields exactly these events in order, with the white space at
  the start of each name and each data line removed and the data lines of an event joined by newlines, and leaves nothing.
\<close>
theorem sse_stream_roundtrip:
  assumes "list_all event_ok es" "concat chunks = concat (map render_event es)"
  shows "parse_reads chunks [] = Some (Inr (map received es), [])"
proof -
  have none: "find_sse_event_terminator [] = None" by code_simp
  show ?thesis using parse_reads_eq [of "[]" chunks] none parsed_stream [OF assms(1)] assms(2) by simp
qed

theorem chunking_irrelevant_witness:
  "parse_reads [[100, 97, 116, 97, 58, 32, 195], [169, 13, 10, 13], [10, 58]] [] = Some (Inr [(None, [233])], [58])"
proof -
  have "parse_sse_events_from_byte_buffer (concat [[100, 97, 116, 97, 58, 32, 195], [169, 13, 10, 13], [10, 58]]) =
      Some (Inr [(None, [233])], [58])"
    by code_simp
  then show ?thesis using chunking_irrelevant by blast
qed

theorem sse_stream_roundtrip_witness:
  "parse_reads [[101, 118, 101, 110, 116, 58, 32, 109, 10, 100, 97, 116], [97, 58, 32, 226, 130], [172, 10], [10]] [] =
     Some (Inr [(Some [109], [8364])], [])"
proof -
  have "list_all event_ok [(Some [109], [[8364]])]"
    "concat [[101, 118, 101, 110, 116, 58, 32, 109, 10, 100, 97, 116], [97, 58, 32, 226, 130], [172, 10], [10]] =
       concat (map render_event [(Some [109], [[8364]])])"
    by code_simp+
  from sse_stream_roundtrip [OF this] show ?thesis by (simp add: received_def is_uspace_def)
qed

text \<open>
  \<open>splitlines\<close> also cuts at characters that are no line ends of an event stream, and that JSON strings may
  contain as they are (U+2028, U+2029, U+0085): the rest of the data line is dropped, here of \<open>data: "a<U+2028>b"\<close>.
\<close>
lemma line_separator_cuts_data:
  "parse_sse_events_from_byte_buffer ([100, 97, 116, 97, 58, 32, 34, 97] @ utf8_bytes 8232 @ [98, 34, 10, 10]) = Some (Inr [(None, [34, 97])], [])"
  by code_simp

text \<open>An event stream has one space behind the colon; \<open>lstrip\<close> also takes away indentation, here of \<open>data:  x\<close>.\<close>
lemma indentation_lost:
  "parse_sse_events_from_byte_buffer [100, 97, 116, 97, 58, 32, 32, 120, 10, 10] = Some (Inr [(None, [120])], [])"
  by code_simp

end
