(* ===== verification/Context_Tracker.thy ===== *)
theory Context_Tracker
  imports CCR_Tool_Injection CCR_Store
begin

text \<open>
  The context tracker, \<open>headroom/ccr/context_tracker.py\<close>: which compressed texts are worth expanding again
  for a new query, and the block of text that carries them. One tracker serves all projects of a proxy; the
  workspace key of an entry keeps them apart. The two regular expressions of the keyword extraction are a matcher
  with its greedy choice written out; scores are exact rationals. Clock readings are arguments, and the
  store of the originals is \<open>CCR_Store\<close>. Log output is not modelled.
\<close>

section \<open>Summaries of earlier sessions\<close>

text \<open>\<open>sub in s\<close> is \<open>contains_str\<close>.\<close>

definition looks_like_claude_code_compact_summary :: "string option list \<Rightarrow> bool" where
  "looks_like_claude_code_compact_summary texts =
     (let combined = join_with '' '' (map strip (filter (\<lambda>s. strip s \<noteq> []) (concat (map (\<lambda>t. case t of Some s \<Rightarrow> [s] | None \<Rightarrow> []) texts))))
      in if combined = [] then False
         else
           let normalized = join_with '' '' (words (str_lower combined));
               has_summary = (contains_str ''summary'' normalized \<or> contains_str ''summarized'' normalized)
           in if contains_str ''this session is being continued from a previous conversation'' normalized \<and> has_summary then True
              else if contains_str ''conversation is summarized below'' normalized \<and>
                      (contains_str ''ran out of context'' normalized \<or> contains_str ''previous conversation'' normalized) then True
              else contains_str ''/compact'' normalized \<and> contains_str ''claude'' normalized \<and> has_summary \<and>
                   (contains_str ''conversation'' normalized \<or> contains_str ''session'' normalized))"

section \<open>Data\<close>

record CompressedContext =
  cc_hash_key :: string
  cc_turn_number :: int
  cc_timestamp :: rat
  cc_tool_name :: "string option"
  cc_original_item_count :: int
  cc_compressed_item_count :: int
  cc_query_context :: "string option"
  cc_sample_content :: string
  cc_workspace_key :: string

record ExpansionRecommendation =
  er_hash_key :: string
  er_reason :: string
  er_relevance_score :: rat

record ContextTrackerConfig =
  ct_enabled :: bool
  ct_max_tracked_contexts :: int
  ct_relevance_threshold :: rat
  ct_max_context_age_seconds :: rat
  ct_proactive_expansion :: bool
  ct_max_proactive_expansions :: int

definition default_context_config :: ContextTrackerConfig where
  "default_context_config =
     \<lparr>ct_enabled = True, ct_max_tracked_contexts = 100, ct_relevance_threshold = 3/10, ct_max_context_age_seconds = 300,
      ct_proactive_expansion = True, ct_max_proactive_expansions = 2\<rparr>"

record ContextTracker =
  tr_config :: ContextTrackerConfig
  tr_contexts :: "(string, CompressedContext) pydict"
  tr_turn_order :: "string list"
  tr_current_turn :: int

definition context_tracker_init :: "ContextTrackerConfig \<Rightarrow> ContextTracker" where
  "context_tracker_init cfg = \<lparr>tr_config = cfg, tr_contexts = [], tr_turn_order = [], tr_current_turn = 0\<rparr>"

section \<open>Tracking\<close>

text \<open>The eviction loop; popping from an empty list and deleting an absent key raise.\<close>

fun evict_contexts :: "int \<Rightarrow> (string, CompressedContext) pydict \<Rightarrow> string list
    \<Rightarrow> (string, CompressedContext) pydict \<times> string list \<times> py_error option" where
  "evict_contexts max_contexts contexts [] =
     (contexts, [], if max_contexts < int (length contexts) then Some OtherError else None)"
| "evict_contexts max_contexts contexts (oldest # order) =
     (if max_contexts < int (length contexts)
      then if dict_get contexts oldest = None then (contexts, order, Some KeyError)
           else evict_contexts max_contexts (dict_del oldest contexts) order
      else (contexts, oldest # order, None))"

record track_args =
  ta_hash_key :: string
  ta_turn_number :: int
  ta_tool_name :: "string option"
  ta_original_count :: int
  ta_compressed_count :: int
  ta_workspace_key :: string
  ta_query_context :: "string option"
  ta_sample_content :: string

text \<open>\<open>list.remove\<close> takes out the first occurrence and raises when there is none.\<close>

definition track_compression :: "rat \<Rightarrow> track_args \<Rightarrow> ContextTracker \<Rightarrow> ContextTracker \<times> py_error option" where
  "track_compression now a t =
     (if \<not> ct_enabled (tr_config t) then (t, None)
      else if looks_like_claude_code_compact_summary [ta_query_context a, Some (ta_sample_content a)] then (t, None)
      else
        let context = \<lparr>cc_hash_key = ta_hash_key a, cc_turn_number = ta_turn_number a, cc_timestamp = now,
              cc_tool_name = ta_tool_name a, cc_original_item_count = ta_original_count a,
              cc_compressed_item_count = ta_compressed_count a, cc_query_context = ta_query_context a,
              cc_sample_content = take 2000 (ta_sample_content a), cc_workspace_key = ta_workspace_key a\<rparr>;
            known = (dict_get (tr_contexts t) (ta_hash_key a) \<noteq> None)
        in if known \<and> ta_hash_key a \<notin> set (tr_turn_order t) then (t, Some ValueError)
           else
             let order = (if known then remove1 (ta_hash_key a) (tr_turn_order t) else tr_turn_order t) @ [ta_hash_key a];
                 contexts = dict_set (ta_hash_key a) context (tr_contexts t)
             in case evict_contexts (ct_max_tracked_contexts (tr_config t)) contexts order of
                  (contexts', order', Some e) \<Rightarrow> (t\<lparr>tr_contexts := contexts', tr_turn_order := order'\<rparr>, Some e)
                | (contexts', order', None) \<Rightarrow>
                    (t\<lparr>tr_contexts := contexts', tr_turn_order := order',
                       tr_current_turn := max (tr_current_turn t) (ta_turn_number a)\<rparr>, None))"

section \<open>Keywords\<close>

definition is_az :: "char \<Rightarrow> bool" where
  "is_az c = (97 \<le> code_point c \<and> code_point c \<le> 122)"

definition is_az09 :: "char \<Rightarrow> bool" where
  "is_az09 c = (is_az c \<or> is_digit c)"

definition is_inner :: "char \<Rightarrow> bool" where
  "is_inner c = (is_az09 c \<or> c \<in> {CHR ''_'', CHR ''.'', CHR ''-''})"

text \<open>
  Both alternatives at the head of \<open>s\<close>: they begin at a word boundary with a letter, and the longest candidate that
  ends in an allowed character at a word boundary is taken. \<open>prev\<close> says whether the character
  before is a word character.
\<close>

definition boundary_after :: "string \<Rightarrow> bool" where
  "boundary_after r = (r = [] \<or> \<not> is_word (hd r))"

definition longest_keyword :: "nat list \<Rightarrow> (char \<Rightarrow> bool) \<Rightarrow> string \<Rightarrow> nat option" where
  "longest_keyword lengths is_end s = find (\<lambda>n. is_end (s ! (n - 1)) \<and> boundary_after (drop n s)) lengths"

definition keyword_at :: "bool \<Rightarrow> string \<Rightarrow> nat option" where
  "keyword_at prev s =
     (if prev \<or> s = [] \<or> \<not> is_az (hd s) then None
      else
        case longest_keyword (rev [2..<Suc (Suc (length (takeWhile is_inner (tl s))))]) is_az09 s of
          Some n \<Rightarrow> Some n
        | None \<Rightarrow> longest_keyword (rev [2..<Suc (length (takeWhile is_az s))]) is_az s)"

lemma longest_keyword_in: "longest_keyword lengths is_end s = Some n \<Longrightarrow> n \<in> set lengths"
  unfolding longest_keyword_def find_Some_iff by (auto intro: nth_mem)

lemma keyword_at_length: "keyword_at prev s = Some n \<Longrightarrow> 2 \<le> n"
proof -
  assume "keyword_at prev s = Some n"
  then obtain m P where "longest_keyword (rev [2..<m]) P s = Some n"
    unfolding keyword_at_def by (metis (no_types, lifting) option.case_eq_if option.collapse option.distinct(1))
  from longest_keyword_in [OF this] show ?thesis by simp
qed

function findall_keywords :: "bool \<Rightarrow> string \<Rightarrow> string list" where
  "findall_keywords prev s =
     (if s = [] then []
      else case keyword_at prev s of
             None \<Rightarrow> findall_keywords (is_word (hd s)) (tl s)
           | Some n \<Rightarrow> take n s # findall_keywords (is_word (s ! (n - 1))) (drop n s))"
  by auto
termination
  by (relation "measure (length \<circ> snd)") (auto dest: keyword_at_length)

declare findall_keywords.simps [simp del]

definition stop_words :: "string list" where
  "stop_words =
     [''the'', ''a'', ''an'', ''is'', ''are'', ''was'', ''were'', ''be'', ''been'', ''being'', ''have'',
      ''has'', ''had'', ''do'', ''does'', ''did'', ''will'', ''would'', ''could'', ''should'', ''may'',
      ''might'', ''must'', ''shall'', ''can'', ''need'', ''dare'', ''ought'', ''used'', ''to'', ''of'', ''in'',
      ''for'', ''on'', ''with'', ''at'', ''by'', ''from'', ''as'', ''into'', ''through'', ''during'',
      ''before'', ''after'', ''above'', ''below'', ''between'', ''under'', ''again'', ''further'', ''then'',
      ''once'', ''here'', ''there'', ''when'', ''where'', ''why'', ''how'', ''all'', ''each'', ''few'',
      ''more'', ''most'', ''other'', ''some'', ''such'', ''no'', ''nor'', ''not'', ''only'', ''own'', ''same'',
      ''so'', ''than'', ''too'', ''very'', ''just'', ''and'', ''but'', ''if'', ''or'', ''because'', ''until'',
      ''while'', ''this'', ''that'', ''these'', ''those'', ''what'', ''which'', ''who'', ''whom'', ''it'',
      ''its'', ''me'', ''my'', ''i'', ''you'']"

definition extract_keywords :: "string \<Rightarrow> string list" where
  "extract_keywords s = filter (\<lambda>w. w \<notin> set stop_words \<and> 2 \<le> length w) (findall_keywords False s)"

section \<open>Relevance\<close>

text \<open>Sets of words are lists without repetition; only their sizes and members matter.\<close>

definition keyword_set :: "string \<Rightarrow> string list" where
  "keyword_set s = remdups (extract_keywords s)"

definition overlap :: "string list \<Rightarrow> string list \<Rightarrow> nat" where
  "overlap xs ys = length (filter (\<lambda>w. w \<in> set ys) xs)"

definition calculate_relevance :: "string \<Rightarrow> CompressedContext \<Rightarrow> rat" where
  "calculate_relevance query context =
     (let query_lower = str_lower query;
          query_words = keyword_set query_lower
      in if query_words = [] then 0
         else
           let sample_lower = str_lower (cc_sample_content context);
               sample_words = keyword_set sample_lower;
               sample_score =
                 (if sample_words = [] then 0
                  else of_nat (overlap query_words sample_words) / of_nat (length query_words) * (1/2) +
                       of_nat (length (filter (\<lambda>w. 4 \<le> length w \<and> contains_str w sample_lower) query_words)) * (1/5));
               context_score =
                 (case cc_query_context context of
                    None \<Rightarrow> 0
                  | Some q \<Rightarrow>
                      let context_words = keyword_set (str_lower q)
                      in if q = [] \<or> context_words = [] then 0
                         else of_nat (overlap query_words context_words) / of_nat (length query_words) * (3/10));
               tool_score =
                 (case cc_tool_name context of
                    None \<Rightarrow> 0
                  | Some tool \<Rightarrow>
                      if tool \<noteq> [] \<and>
                         list_ex (\<lambda>w. contains_str w (str_lower tool)) [''find'', ''glob'', ''search'', ''grep'', ''ls''] \<and>
                         list_ex (\<lambda>w. contains_str w query_lower) [''file'', ''where'', ''find'', ''show'', ''list'']
                      then 1/10 else 0)
           in min (sample_score + context_score + tool_score) 1)"

definition generate_reason :: "CompressedContext \<Rightarrow> rat \<Rightarrow> string" where
  "generate_reason context relevance =
     join_with '', ''
       ((case cc_tool_name context of Some tool \<Rightarrow> if tool = [] then [] else [''from '' @ tool] | None \<Rightarrow> []) @
        [int_dec (cc_original_item_count context) @ '' items compressed in turn '' @ int_dec (cc_turn_number context),
         if 1/2 < relevance then ''high relevance to current query'' else ''possible relevance to current query''])"

section \<open>Recommendations\<close>

text \<open>One iteration of the loop; the age factor divides by the configured maximal age.\<close>

definition recommend ::
  "ContextTrackerConfig \<Rightarrow> rat \<Rightarrow> string \<Rightarrow> string \<Rightarrow> string \<times> CompressedContext
     \<Rightarrow> ExpansionRecommendation list \<Rightarrow> py_error + ExpansionRecommendation list" where
  "recommend cfg now query workspace_key entry recs =
     (case entry of (hash_key, context) \<Rightarrow>
        if cc_workspace_key context \<noteq> workspace_key then Inr recs
        else
          let age = now - cc_timestamp context
          in if ct_max_context_age_seconds cfg < age then Inr recs
             else if ct_max_context_age_seconds cfg = 0 then Inl ZeroDivisionError
             else
               let age_factor = 1 - age / ct_max_context_age_seconds cfg * (1/2);
                   relevance = calculate_relevance query context * age_factor
               in if ct_relevance_threshold cfg \<le> relevance
                  then Inr (recs @ [\<lparr>er_hash_key = hash_key, er_reason = generate_reason context relevance, er_relevance_score = relevance\<rparr>])
                  else Inr recs)"

text \<open>\<open>xs[:n]\<close>, where a negative \<open>n\<close> cuts from the end.\<close>

definition slice_to :: "int \<Rightarrow> 'a list \<Rightarrow> 'a list" where
  "slice_to n xs = (if 0 \<le> n then take (nat n) xs else take (length xs - nat (- n)) xs)"

definition analyze_query ::
  "rat \<Rightarrow> string \<Rightarrow> int option \<Rightarrow> string \<Rightarrow> ContextTracker \<Rightarrow> ContextTracker \<times> (py_error + ExpansionRecommendation list)" where
  "analyze_query now query current_turn workspace_key t =
     (if \<not> ct_enabled (tr_config t) \<or> \<not> ct_proactive_expansion (tr_config t) then (t, Inr [])
      else if workspace_key = [] then (t, Inr [])
      else
        (t\<lparr>tr_current_turn := (case current_turn of Some n \<Rightarrow> n | None \<Rightarrow> tr_current_turn t)\<rparr>,
         and_then (fold_err (recommend (tr_config t) now query workspace_key) (tr_contexts t) []) (\<lambda>recs.
           Inr (slice_to (ct_max_proactive_expansions (tr_config t)) (sort_key (\<lambda>r. - er_relevance_score r) recs)))))"

section \<open>Expansions\<close>

record expansion =
  ex_hash :: string
  ex_content :: string
  ex_item_count :: int
  ex_reason :: string

text \<open>Retrieval by hash never raises in the model of the store; \<open>clk n\<close> are the clock readings of the \<open>n\<close>-th one.\<close>

fun execute_expansions ::
  "(nat \<Rightarrow> rat \<times> rat \<times> rat) \<Rightarrow> ExpansionRecommendation list \<Rightarrow> ccr_store \<Rightarrow> expansion list \<times> ccr_store" where
  "execute_expansions clk [] s = ([], s)"
| "execute_expansions clk (rec # recs) s =
     (case clk 0 of (now, now_access, now_log) \<Rightarrow>
        case retrieve now now_access now_log (er_hash_key rec) None s of
          (s1, found) \<Rightarrow>
            case execute_expansions (\<lambda>n. clk (Suc n)) recs s1 of
              (results, s2) \<Rightarrow>
                ((case found of
                    Some entry \<Rightarrow> [\<lparr>ex_hash = er_hash_key rec, ex_content = ce_original_content entry,
                                    ex_item_count = ce_original_item_count entry, ex_reason = er_reason rec\<rparr>]
                  | None \<Rightarrow> []) @ results, s2))"

text \<open>\<open>s.replace(old, new)\<close> for a non-empty \<open>old\<close>.\<close>

function str_replace :: "string \<Rightarrow> string \<Rightarrow> string \<Rightarrow> string" where
  "str_replace old new s =
     (if s = [] then []
      else if old \<noteq> [] \<and> startswith s old then new @ str_replace old new (drop (length old) s)
      else hd s # str_replace old new (tl s))"
  by auto
termination
  by (relation "measure (\<lambda>(old, new, s). length s)") auto

declare str_replace.simps [simp del]

definition CLOSE_TAG :: string where
  "CLOSE_TAG = ''</headroom_proactive_expansion>''"

definition ESCAPED_CLOSE_TAG :: string where
  "ESCAPED_CLOSE_TAG = [CHR ''<'', CHR 0x5C] @ ''/headroom_proactive_expansion>''"

definition format_expansions_for_context :: "expansion list \<Rightarrow> string option \<Rightarrow> string" where
  "format_expansions_for_context expansions workspace_label =
     (if expansions = [] then []
      else
        let header = ''[Proactive Context Expansion - relevant to your query'' @
              (case workspace_label of Some l \<Rightarrow> if l = [] then [] else '' | workspace: '' @ l | None \<Rightarrow> []) @ '']'';
            parts = [header] @
              concat (map (\<lambda>e. [[NL] @ ''--- Expanded from earlier ('' @ ex_reason e @ '') ---'', ex_content e]) expansions) @
              [''[End Proactive Expansion]''];
            body = str_replace CLOSE_TAG ESCAPED_CLOSE_TAG (join_with [NL] parts)
        in ''<headroom_proactive_expansion>'' @ [NL] @ body @ [NL] @ CLOSE_TAG)"

definition get_tracked_hashes :: "ContextTracker \<Rightarrow> string list" where
  "get_tracked_hashes t = dict_keys (tr_contexts t)"

definition clear_tracker :: "ContextTracker \<Rightarrow> ContextTracker" where
  "clear_tracker t = t\<lparr>tr_contexts := [], tr_turn_order := [], tr_current_turn := 0\<rparr>"

record tracker_statistics =
  ts_tracked_contexts :: nat
  ts_current_turn :: int
  ts_enabled :: bool
  ts_max_contexts :: int
  ts_relevance_threshold :: rat
  ts_proactive_expansion :: bool
  ts_contexts :: "(string \<times> int \<times> string option \<times> string) list"

definition get_tracker_stats :: "ContextTracker \<Rightarrow> tracker_statistics" where
  "get_tracker_stats t =
     \<lparr>ts_tracked_contexts = length (tr_contexts t), ts_current_turn = tr_current_turn t,
      ts_enabled = ct_enabled (tr_config t), ts_max_contexts = ct_max_tracked_contexts (tr_config t),
      ts_relevance_threshold = ct_relevance_threshold (tr_config t),
      ts_proactive_expansion = ct_proactive_expansion (tr_config t),
      ts_contexts = map (\<lambda>(k, c). (cc_hash_key c, cc_turn_number c, cc_tool_name c,
        int_dec (cc_compressed_item_count c) @ ''/'' @ int_dec (cc_original_item_count c))) (tr_contexts t)\<rparr>"

section \<open>Runs of a tracker\<close>

datatype tracker_op =
    Track rat track_args
  | Analyze rat string "int option" string
  | Clear

fun tracker_step :: "tracker_op \<Rightarrow> ContextTracker \<Rightarrow> ContextTracker" where
  "tracker_step (Track now a) t = fst (track_compression now a t)"
| "tracker_step (Analyze now query turn ws) t = fst (analyze_query now query turn ws t)"
| "tracker_step Clear t = clear_tracker t"

definition tracker_run :: "tracker_op list \<Rightarrow> ContextTracker \<Rightarrow> ContextTracker" where
  "tracker_run ops t = fold tracker_step ops t"

definition context_of :: "rat \<Rightarrow> track_args \<Rightarrow> CompressedContext" where
  "context_of now a =
     \<lparr>cc_hash_key = ta_hash_key a, cc_turn_number = ta_turn_number a, cc_timestamp = now,
      cc_tool_name = ta_tool_name a, cc_original_item_count = ta_original_count a,
      cc_compressed_item_count = ta_compressed_count a, cc_query_context = ta_query_context a,
      cc_sample_content = take 2000 (ta_sample_content a), cc_workspace_key = ta_workspace_key a\<rparr>"

definition is_summary :: "track_args \<Rightarrow> bool" where
  "is_summary a = looks_like_claude_code_compact_summary [ta_query_context a, Some (ta_sample_content a)]"

lemma evict_subset: "evict_contexts m c os = (c', os', e) \<Longrightarrow> dict_get c' k = Some v \<Longrightarrow> dict_get c k = Some v"
  by (induction m c os rule: evict_contexts.induct) (auto simp: dict_get_del split: if_splits)

text \<open>The order list and the dictionary stay in step; without a negative maximum nothing raises.\<close>

definition in_step :: "(string, CompressedContext) pydict \<Rightarrow> string list \<Rightarrow> bool" where
  "in_step c os = (dict_ok c \<and> distinct os \<and> set os = fst ` set c)"

lemma evict_ok:
  assumes "in_step c os" "evict_contexts m c os = (c', os', e)"
  shows "in_step c' os' \<and> (0 \<le> m \<longrightarrow> e = None \<and> int (length c') \<le> m)"
  using assms
proof (induction m c os rule: evict_contexts.induct)
  case (1 m c)
  then show ?case by (auto simp: in_step_def)
next
  case (2 m c h os)
  show ?case
  proof (cases "m < int (length c)")
    case True
    have h: "dict_get c h \<noteq> None" using "2.prems"(1) by (auto simp: in_step_def map_of_eq_None_iff)
    have "in_step (dict_del h c) os" using "2.prems"(1) by (auto simp: in_step_def dict_keys_del)
    moreover have "evict_contexts m (dict_del h c) os = (c', os', e)" using "2.prems"(2) True h by (simp split: if_splits)
    ultimately show ?thesis using 2 True h by blast
  qed (use 2 in auto)
qed

text \<open>An entry is always the context of the last accepted tracking of its hash.\<close>

definition retracks :: "string \<Rightarrow> tracker_op \<Rightarrow> bool" where
  "retracks h op = (case op of Track now a \<Rightarrow> ta_hash_key a = h \<and> \<not> is_summary a | Analyze _ _ _ _ \<Rightarrow> False | Clear \<Rightarrow> True)"

definition last_tracked :: "tracker_op list \<Rightarrow> string \<Rightarrow> rat \<Rightarrow> track_args \<Rightarrow> bool" where
  "last_tracked ops h now a =
     (\<exists>xs ys. ops = xs @ Track now a # ys \<and> ta_hash_key a = h \<and> \<not> is_summary a \<and> list_all (\<lambda>op. \<not> retracks h op) ys)"

definition tracker_ok :: "ContextTracker \<Rightarrow> bool" where
  "tracker_ok t =
     (in_step (tr_contexts t) (tr_turn_order t) \<and> (\<not> ct_enabled (tr_config t) \<longrightarrow> tr_contexts t = []) \<and>
      (0 \<le> ct_max_tracked_contexts (tr_config t) \<longrightarrow> int (length (tr_contexts t)) \<le> ct_max_tracked_contexts (tr_config t)))"

lemma track_frame [simp]: "tr_config (tracker_step op t) = tr_config t"
  by (cases op) (auto simp: track_compression_def analyze_query_def clear_tracker_def Let_def split: prod.splits option.splits)

lemma run_config [simp]: "tr_config (tracker_run ops t) = tr_config t"
  unfolding tracker_run_def by (induction ops arbitrary: t) simp_all

lemma run_snoc: "tracker_run (ops @ [op]) t = tracker_step op (tracker_run ops t)"
  by (simp add: tracker_run_def)

lemma track_effect:
  assumes "tracker_ok t"
  shows "tracker_ok (fst (track_compression now a t)) \<and>
    (0 \<le> ct_max_tracked_contexts (tr_config t) \<longrightarrow> snd (track_compression now a t) = None) \<and>
    (dict_get (tr_contexts (fst (track_compression now a t))) k = Some c \<longrightarrow>
      (if k = ta_hash_key a \<and> \<not> is_summary a then c = context_of now a else dict_get (tr_contexts t) k = Some c))"
proof (cases "ct_enabled (tr_config t) \<and> \<not> is_summary a")
  case False
  then show ?thesis using assms by (auto simp: track_compression_def is_summary_def tracker_ok_def)
next
  case True
  let ?h = "ta_hash_key a"
  let ?known = "dict_get (tr_contexts t) ?h \<noteq> None"
  let ?os = "(if ?known then remove1 ?h (tr_turn_order t) else tr_turn_order t) @ [?h]"
  let ?c = "dict_set ?h (context_of now a) (tr_contexts t)"
  obtain c' os' e where ev: "evict_contexts (ct_max_tracked_contexts (tr_config t)) ?c ?os = (c', os', e)"
    by (cases "evict_contexts (ct_max_tracked_contexts (tr_config t)) ?c ?os" rule: prod_cases3)
  have t: "in_step (tr_contexts t) (tr_turn_order t)" using assms by (simp add: tracker_ok_def)
  have known: "?known \<longleftrightarrow> ?h \<in> set (tr_turn_order t)" using t by (auto simp: in_step_def map_of_eq_None_iff)
  have "in_step ?c ?os" using t known by (auto simp: in_step_def dict_keys_set)
  from evict_ok [OF this ev]
  have ok: "in_step c' os'" "0 \<le> ct_max_tracked_contexts (tr_config t) \<Longrightarrow> e = None \<and> int (length c') \<le> ct_max_tracked_contexts (tr_config t)"
    by auto
  have r: "tr_contexts (fst (track_compression now a t)) = c'" "tr_turn_order (fst (track_compression now a t)) = os'"
    "tr_config (fst (track_compression now a t)) = tr_config t" "snd (track_compression now a t) = e"
    using True ev known
    by (auto simp: track_compression_def Let_def is_summary_def context_of_def [symmetric] split: option.split)
  have "dict_get ?c k = Some c" if "dict_get c' k = Some c" using evict_subset [OF ev that] .
  then show ?thesis using ok True r by (auto simp: tracker_ok_def dict_get_set)
qed

lemma tracker_ok_step: "tracker_ok t \<Longrightarrow> tracker_ok (tracker_step op t)"
  using track_effect by (cases op) (auto simp: analyze_query_def clear_tracker_def tracker_ok_def in_step_def Let_def)

lemma tracker_ok_run: "tracker_ok (tracker_run ops (context_tracker_init cfg))"
proof (induction ops rule: rev_induct)
  case Nil
  then show ?case by (simp add: tracker_run_def context_tracker_init_def tracker_ok_def in_step_def)
next
  case (snoc op ops)
  then show ?case by (simp add: run_snoc tracker_ok_step)
qed

lemma last_tracked_later: "last_tracked ops h now a \<Longrightarrow> \<not> retracks h op \<Longrightarrow> last_tracked (ops @ [op]) h now a"
proof -
  assume "last_tracked ops h now a" and op: "\<not> retracks h op"
  then obtain xs ys where "ops = xs @ Track now a # ys" "ta_hash_key a = h" "\<not> is_summary a" "list_all (\<lambda>op. \<not> retracks h op) ys"
    by (auto simp: last_tracked_def)
  with op show ?thesis unfolding last_tracked_def by (intro exI [of _ xs] exI [of _ "ys @ [op]"]) simp
qed

lemma entry_tracked:
  "dict_get (tr_contexts (tracker_run ops (context_tracker_init cfg))) h = Some c \<Longrightarrow> \<exists>now a. last_tracked ops h now a \<and> c = context_of now a"
proof (induction ops arbitrary: c rule: rev_induct)
  case Nil
  then show ?case by (simp add: tracker_run_def context_tracker_init_def)
next
  case (snoc op ops)
  let ?t = "tracker_run ops (context_tracker_init cfg)"
  have old: "\<exists>now a. last_tracked (ops @ [op]) h now a \<and> c = context_of now a" if "dict_get (tr_contexts ?t) h = Some c" "\<not> retracks h op"
    using snoc.IH [OF that(1)] last_tracked_later [OF _ that(2)] by blast
  show ?case
  proof (cases op)
    case (Track now a)
    have e: "if h = ta_hash_key a \<and> \<not> is_summary a then c = context_of now a else dict_get (tr_contexts ?t) h = Some c"
      using track_effect [OF tracker_ok_run [of ops cfg], of now a h c] snoc.prems by (simp add: run_snoc Track)
    show ?thesis
    proof (cases "h = ta_hash_key a \<and> \<not> is_summary a")
      case True
      then have "last_tracked (ops @ [op]) h now a" unfolding last_tracked_def Track by (intro exI [of _ ops] exI [of _ "[]"]) simp
      with True e show ?thesis by auto
    next
      case False
      with e show ?thesis by (intro old) (auto simp: Track retracks_def)
    qed
  next
    case (Analyze now q n ws)
    then show ?thesis using snoc.prems by (intro old) (auto simp: run_snoc analyze_query_def retracks_def Let_def split: if_splits)
  next
    case Clear
    then show ?thesis using snoc.prems by (simp add: run_snoc clear_tracker_def)
  qed
qed

section \<open>Recommendations\<close>

lemma relevance_bounds: "0 \<le> calculate_relevance query context" "calculate_relevance query context \<le> 1"
  by (auto simp: calculate_relevance_def Let_def intro!: add_nonneg_nonneg mult_nonneg_nonneg divide_nonneg_nonneg split: option.splits)

text \<open>The score of an entry, and which entries the loop takes.\<close>

definition score :: "ContextTrackerConfig \<Rightarrow> rat \<Rightarrow> string \<Rightarrow> CompressedContext \<Rightarrow> rat" where
  "score cfg now query c = calculate_relevance query c * (1 - (now - cc_timestamp c) / ct_max_context_age_seconds cfg * (1/2))"

definition eligible :: "ContextTrackerConfig \<Rightarrow> rat \<Rightarrow> string \<Rightarrow> string \<Rightarrow> CompressedContext \<Rightarrow> bool" where
  "eligible cfg now query ws c =
     (cc_workspace_key c = ws \<and> now - cc_timestamp c \<le> ct_max_context_age_seconds cfg \<and>
      ct_relevance_threshold cfg \<le> score cfg now query c)"

definition recommendation :: "ContextTrackerConfig \<Rightarrow> rat \<Rightarrow> string \<Rightarrow> string \<times> CompressedContext \<Rightarrow> ExpansionRecommendation" where
  "recommendation cfg now query p =
     \<lparr>er_hash_key = fst p, er_reason = generate_reason (snd p) (score cfg now query (snd p)), er_relevance_score = score cfg now query (snd p)\<rparr>"

lemma recommend_eq:
  assumes "recommend cfg now query ws p recs = Inr recs'"
  shows "recs' = recs @ map (recommendation cfg now query) (filter (\<lambda>p. eligible cfg now query ws (snd p)) [p])"
  using assms
  by (cases p) (auto simp: recommend_def Let_def eligible_def recommendation_def score_def split: if_splits)

lemma recommend_all:
  "fold_err (recommend cfg now query ws) ps recs = Inr recs' \<Longrightarrow>
   recs' = recs @ map (recommendation cfg now query) (filter (\<lambda>p. eligible cfg now query ws (snd p)) ps)"
proof (induction ps arbitrary: recs)
  case (Cons p ps)
  then obtain r1 where r: "recommend cfg now query ws p recs = Inr r1" "fold_err (recommend cfg now query ws) ps r1 = Inr recs'"
    by (auto simp: and_then_Inr_iff)
  then show ?case using Cons.IH [OF r(2)] recommend_eq [OF r(1)] by simp
qed simp

lemma analyze_eq:
  assumes "analyze_query now query turn ws t = (t', Inr recs)"
  shows "recs = [] \<or> ws \<noteq> [] \<and> recs = slice_to (ct_max_proactive_expansions (tr_config t)) (sort_key (\<lambda>r. - er_relevance_score r)
    (map (recommendation (tr_config t) now query) (filter (\<lambda>p. eligible (tr_config t) now query ws (snd p)) (tr_contexts t))))"
  using assms recommend_all [of "tr_config t" now query ws "tr_contexts t" "[]"]
  by (auto simp: analyze_query_def and_then_Inr_iff split: if_splits)

lemma set_slice_to: "set (slice_to n xs) \<subseteq> set xs"
  by (auto simp: slice_to_def dest: in_set_takeD)

lemma analyze_members:
  assumes "analyze_query now query turn ws t = (t', Inr recs)" "r \<in> set recs"
  obtains c where "ws \<noteq> []" "(er_hash_key r, c) \<in> set (tr_contexts t)" "eligible (tr_config t) now query ws c"
    "r = recommendation (tr_config t) now query (er_hash_key r, c)"
proof -
  have "ws \<noteq> []" "r \<in> set (map (recommendation (tr_config t) now query) (filter (\<lambda>p. eligible (tr_config t) now query ws (snd p)) (tr_contexts t)))"
    using analyze_eq [OF assms(1)] assms(2) set_slice_to by (fastforce simp del: set_map)+
  then show thesis using that by (auto simp: recommendation_def)
qed

section \<open>Expansions\<close>

lemma retrieve_content:
  assumes "retrieve now na nl k q s = (s', found)"
  shows "found = Some e \<Longrightarrow> \<exists>e0. mb_get (cs_backend s) k = Some e0 \<and> ce_original_content e = ce_original_content e0"
    and "mb_get (cs_backend s') h = Some e' \<Longrightarrow> \<exists>e0. mb_get (cs_backend s) h = Some e0 \<and> ce_original_content e' = ce_original_content e0"
proof -
  note d = retrieve_def drop_entry_def record_access_def log_retrieval_def process_pending_feedback_def mb_get_def mb_set_def mb_delete_def
  show "found = Some e \<Longrightarrow> \<exists>e0. mb_get (cs_backend s) k = Some e0 \<and> ce_original_content e = ce_original_content e0"
    using assms by (auto simp: d Let_def dict_get_set dict_get_del split: option.splits if_splits prod.splits)
  show "mb_get (cs_backend s') h = Some e' \<Longrightarrow> \<exists>e0. mb_get (cs_backend s) h = Some e0 \<and> ce_original_content e' = ce_original_content e0"
    using assms by (auto simp: d Let_def dict_get_set dict_get_del split: option.splits if_splits prod.splits)
qed

lemma expansions_content:
  assumes "execute_expansions clk recs s = (exps, s')" "x \<in> set exps"
  shows "\<exists>r\<in>set recs. ex_hash x = er_hash_key r \<and> ex_reason x = er_reason r \<and>
    (\<exists>e. mb_get (cs_backend s) (er_hash_key r) = Some e \<and> ex_content x = ce_original_content e)"
  using assms
proof (induction recs arbitrary: clk s exps s')
  case (Cons r recs)
  obtain now na nl where clk: "clk 0 = (now, na, nl)" by (cases "clk 0")
  obtain s1 found where r: "retrieve now na nl (er_hash_key r) None s = (s1, found)"
    by (cases "retrieve now na nl (er_hash_key r) None s")
  obtain rest s2 where rest: "execute_expansions (\<lambda>n. clk (Suc n)) recs s1 = (rest, s2)"
    by (cases "execute_expansions (\<lambda>n. clk (Suc n)) recs s1")
  have exps: "exps = (case found of Some entry \<Rightarrow> [\<lparr>ex_hash = er_hash_key r, ex_content = ce_original_content entry,
      ex_item_count = ce_original_item_count entry, ex_reason = er_reason r\<rparr>] | None \<Rightarrow> []) @ rest"
    using Cons.prems(1) by (simp add: clk r rest split: option.splits)
  show ?case
  proof (cases "x \<in> set rest")
    case True
    from Cons.IH [OF rest True] obtain r' e where "r' \<in> set recs" "ex_hash x = er_hash_key r'" "ex_reason x = er_reason r'"
      "mb_get (cs_backend s1) (er_hash_key r') = Some e" "ex_content x = ce_original_content e" by blast
    with retrieve_content(2) [OF r] show ?thesis by (metis list.set_intros(2))
  next
    case False
    then obtain entry where "found = Some entry" "x = \<lparr>ex_hash = er_hash_key r, ex_content = ce_original_content entry,
      ex_item_count = ce_original_item_count entry, ex_reason = er_reason r\<rparr>"
      using Cons.prems(2) exps by (auto split: option.splits)
    with retrieve_content(1) [OF r] show ?thesis by auto
  qed
qed simp

text \<open>C8: Workspaces do not leak: whatever was tracked before, in any order and for any projects, a text expanded for a request of
  workspace \<open>ws\<close> is the original the store holds for a hash whose last tracking was in that same, non-empty
  workspace, no longer ago than the maximal age.
\<close>
theorem expansions_stay_in_workspace:
  assumes "analyze_query now query turn ws (tracker_run ops (context_tracker_init cfg)) = (t', Inr recs)"
    and "execute_expansions clk recs s = (exps, s')" and "x \<in> set exps"
  shows "ws \<noteq> [] \<and> (\<exists>e. mb_get (cs_backend s) (ex_hash x) = Some e \<and> ex_content x = ce_original_content e) \<and>
    (\<exists>tracked_at a. last_tracked ops (ex_hash x) tracked_at a \<and> ta_workspace_key a = ws \<and>
       now - tracked_at \<le> ct_max_context_age_seconds cfg)"
proof -
  let ?t = "tracker_run ops (context_tracker_init cfg)"
  from expansions_content [OF assms(2,3)] obtain r e where r: "r \<in> set recs" "ex_hash x = er_hash_key r"
    and e: "mb_get (cs_backend s) (er_hash_key r) = Some e" "ex_content x = ce_original_content e" by blast
  obtain c where ws: "ws \<noteq> []" and c: "(er_hash_key r, c) \<in> set (tr_contexts ?t)" "eligible (tr_config ?t) now query ws c"
    by (rule analyze_members [OF assms(1) r(1)])
  have "dict_get (tr_contexts ?t) (er_hash_key r) = Some c"
    using c(1) tracker_ok_run [of ops cfg] by (simp add: tracker_ok_def in_step_def)
  from entry_tracked [OF this] obtain tracked_at a where a: "last_tracked ops (er_hash_key r) tracked_at a" "c = context_of tracked_at a" by blast
  have "tr_config ?t = cfg" by (simp add: context_tracker_init_def)
  then show ?thesis using ws e a c(2) r(2) by (auto simp: eligible_def context_of_def)
qed

text \<open>The tracker never raises and never holds more entries than configured, as long as the configured maximum is not
  negative; its eviction order always lists exactly the hashes it holds.
\<close>
lemma tracker_bounded:
  assumes "0 \<le> ct_max_tracked_contexts cfg"
  shows "let t = tracker_run ops (context_tracker_init cfg) in
    int (length (tr_contexts t)) \<le> ct_max_tracked_contexts cfg \<and> set (tr_turn_order t) = set (get_tracked_hashes t) \<and>
    distinct (tr_turn_order t) \<and> (\<forall>now a. snd (track_compression now a t) = None)"
proof -
  let ?t = "tracker_run ops (context_tracker_init cfg)"
  have "tr_config ?t = cfg" by (simp add: context_tracker_init_def)
  then show ?thesis
    using assms tracker_ok_run [of ops cfg] track_effect [OF tracker_ok_run [of ops cfg]]
    by (auto simp: tracker_ok_def in_step_def get_tracked_hashes_def dict_keys_def Let_def)
qed

section \<open>The wrapper\<close>

lemma no_cross: "n \<notin> set p \<Longrightarrow> startswith (x @ n # y) p \<Longrightarrow> startswith x p"
proof -
  assume n: "n \<notin> set p" and s: "startswith (x @ n # y) p"
  then have p: "p = take (length p) (x @ n # y)" by (simp add: startswith_def)
  have "length p \<le> length x"
  proof (rule ccontr)
    assume "\<not> length p \<le> length x"
    then have "n \<in> set (take (length p) (x @ n # y))" by (cases "length p - length x") auto
    with n p show False by simp
  qed
  with p show ?thesis by (simp add: startswith_def)
qed

lemma startswith_Cons: "startswith (c # s) (d # p) \<longleftrightarrow> c = d \<and> startswith s p"
  by (auto simp: startswith_def)

lemma startswith_Nil: "startswith [] p \<longleftrightarrow> p = []"
  by (auto simp: startswith_def)

definition TAG_REST :: string where
  "TAG_REST = ''/headroom_proactive_expansion>''"

lemma tags: "CLOSE_TAG = CHR ''<'' # TAG_REST" "ESCAPED_CLOSE_TAG = CHR ''<'' # CHR 0x5C # TAG_REST"
  "CHR ''<'' \<notin> set TAG_REST" "CHR ''<'' \<notin> set (CHR 0x5C # TAG_REST)" "NL \<notin> set CLOSE_TAG" "\<not> startswith (CHR 0x5C # s) TAG_REST" "TAG_REST \<noteq> []"
  by (simp_all add: CLOSE_TAG_def ESCAPED_CLOSE_TAG_def TAG_REST_def NL_def startswith_def)

lemma startswith_tag: "startswith (c # s) CLOSE_TAG \<longleftrightarrow> c = CHR ''<'' \<and> startswith s TAG_REST"
  by (simp add: tags(1) startswith_Cons)

lemma replaced_tail:
  "CHR ''<'' \<notin> set q \<Longrightarrow> startswith (str_replace CLOSE_TAG ESCAPED_CLOSE_TAG u) q \<Longrightarrow> startswith u q"
proof (induction q arbitrary: u)
  case Nil
  then show ?case by (simp add: startswith_def)
next
  case (Cons c q)
  show ?case
  proof (cases "u = [] \<or> startswith u CLOSE_TAG")
    case True
    then have "\<exists>r. str_replace CLOSE_TAG ESCAPED_CLOSE_TAG u = [] \<or> str_replace CLOSE_TAG ESCAPED_CLOSE_TAG u = CHR ''<'' # r"
      by (subst (1 2) str_replace.simps) (auto simp: tags(1,2))
    then show ?thesis using Cons.prems by (auto simp: startswith_Cons startswith_Nil)
  next
    case False
    then have "str_replace CLOSE_TAG ESCAPED_CLOSE_TAG u = hd u # str_replace CLOSE_TAG ESCAPED_CLOSE_TAG (tl u)"
      by (subst str_replace.simps) simp
    with Cons False show ?thesis by (cases u) (auto simp: startswith_Cons)
  qed
qed

lemma no_tag_inside:
  assumes "CHR ''<'' \<notin> set x"
  shows "startswith (drop i x @ s) CLOSE_TAG \<Longrightarrow> length x \<le> i"
proof (rule ccontr)
  assume a: "startswith (drop i x @ s) CLOSE_TAG" "\<not> length x \<le> i"
  then obtain c r where "drop i x = c # r" by (cases "drop i x") auto
  moreover have "c \<in> set x" using calculation by (metis in_set_dropD list.set_intros(1))
  ultimately show False using a(1) assms by (auto simp: tags(1) startswith_Cons)
qed

lemma replaced_no_tag: "\<not> startswith (drop i (str_replace CLOSE_TAG ESCAPED_CLOSE_TAG s)) CLOSE_TAG"
proof (induction s arbitrary: i rule: length_induct)
  case (1 s)
  let ?rep = "str_replace CLOSE_TAG ESCAPED_CLOSE_TAG"
  show ?case
  proof (cases "s = []")
    case True
    then show ?thesis by (subst str_replace.simps) (simp add: tags(1) startswith_Nil)
  next
    case ne: False
    show ?thesis
    proof (cases "startswith s CLOSE_TAG")
      case True
      let ?u = "drop (length CLOSE_TAG) s"
      have rep: "?rep s = ESCAPED_CLOSE_TAG @ ?rep ?u" using True ne by (subst str_replace.simps) (simp add: tags(1))
      have "length ?u < length s" using ne by (simp add: tags(1))
      with 1 have IH: "\<not> startswith (drop j (?rep ?u)) CLOSE_TAG" for j by blast
      show ?thesis
      proof
        assume a: "startswith (drop i (?rep s)) CLOSE_TAG"
        show False
        proof (cases i)
          case 0
          then have "startswith (CHR ''<'' # CHR 0x5C # TAG_REST @ ?rep ?u) (CHR ''<'' # TAG_REST)"
            using a by (simp only: drop_0 rep) (simp only: tags(1,2) append_Cons)
          then show ?thesis using tags(6) by (simp only: startswith_Cons simp_thms)
        next
          case (Suc j)
          let ?x = "CHR 0x5C # TAG_REST"
          have d: "drop (Suc j) (ESCAPED_CLOSE_TAG @ y) = drop j ?x @ drop (j - length ?x) y" for y
            by (simp only: tags(2) append_Cons drop_Suc_Cons) (simp only: append_Cons [symmetric] drop_append)
          have b: "startswith (drop j ?x @ drop (j - length ?x) (?rep ?u)) CLOSE_TAG"
            using a unfolding Suc rep d .
          then have "length ?x \<le> j" by (rule no_tag_inside [OF tags(4)])
          with b IH show ?thesis by simp
        qed
      qed
    next
      case False
      have rep: "?rep s = hd s # ?rep (tl s)" using False ne by (subst str_replace.simps) simp
      have IH: "\<not> startswith (drop j (?rep (tl s))) CLOSE_TAG" for j using 1 ne by simp
      show ?thesis
      proof (cases i)
        case 0
        show ?thesis
        proof
          assume "startswith (drop i (?rep s)) CLOSE_TAG"
          then have "hd s = CHR ''<''" "startswith (?rep (tl s)) TAG_REST"
            unfolding 0 drop_0 rep startswith_tag by blast+
          with replaced_tail [OF tags(3)] have "startswith (hd s # tl s) CLOSE_TAG" by (simp add: startswith_tag)
          with False ne show False by simp
        qed
      next
        case (Suc j)
        then show ?thesis using IH by (simp add: rep)
      qed
    qed
  qed
qed

text \<open>C30: The closing tag of the expansion block cannot be forged: whatever the expanded texts, reasons and workspace label contain, the
  block starts with the opening tag and the closing tag occurs in it exactly once, at its end.
\<close>
theorem wrapper_boundary_unforgeable:
  "format_expansions_for_context expansions label = [] \<and> expansions = [] \<or>
   startswith (format_expansions_for_context expansions label) ''<headroom_proactive_expansion>'' \<and>
   (\<forall>i. startswith (drop i (format_expansions_for_context expansions label)) CLOSE_TAG \<longleftrightarrow>
        i + length CLOSE_TAG = length (format_expansions_for_context expansions label))"
proof (cases "expansions = []")
  case True
  then show ?thesis by (simp add: format_expansions_for_context_def)
next
  case False
  then obtain u where f: "format_expansions_for_context expansions label =
      ''<headroom_proactive_expansion>'' @ NL # str_replace CLOSE_TAG ESCAPED_CLOSE_TAG u @ NL # CLOSE_TAG"
    by (simp add: format_expansions_for_context_def Let_def)
  let ?body = "str_replace CLOSE_TAG ESCAPED_CLOSE_TAG u"
  let ?open = "''headroom_proactive_expansion>''"
  have plain: "CHR ''<'' \<notin> set (?open @ [NL])" by (simp add: NL_def)
  have occ: "i + length CLOSE_TAG = length (?body @ NL # CLOSE_TAG)" if "startswith (drop i (?body @ NL # CLOSE_TAG)) CLOSE_TAG" for i
  proof (cases "i \<le> length ?body")
    case True
    then have "startswith (drop i ?body @ NL # CLOSE_TAG) CLOSE_TAG" using that by simp
    with no_cross [OF tags(5)] replaced_no_tag show ?thesis by blast
  next
    case i: False
    then obtain j where j: "i = length ?body + Suc j" by (metis less_imp_Suc_add not_le add_Suc_right)
    have "startswith (drop j CLOSE_TAG) CLOSE_TAG" using that by (simp add: j)
    then have "length CLOSE_TAG \<le> length (drop j CLOSE_TAG)" by (auto simp: startswith_def dest: arg_cong [of _ _ length])
    then have "j = 0" by (simp add: tags(1))
    then show ?thesis by (simp add: j)
  qed
  have "i + length CLOSE_TAG = length (CHR ''<'' # (?open @ [NL]) @ ?body @ NL # CLOSE_TAG)"
    if a: "startswith (drop i (CHR ''<'' # (?open @ [NL]) @ ?body @ NL # CLOSE_TAG)) CLOSE_TAG" for i
  proof (cases i)
    case 0
    then show ?thesis using a by (simp add: tags(1) TAG_REST_def startswith_Cons)
  next
    case (Suc j)
    have b: "startswith (drop j (?open @ [NL]) @ drop (j - length (?open @ [NL])) (?body @ NL # CLOSE_TAG)) CLOSE_TAG"
      using a by (simp only: Suc drop_Suc_Cons drop_append)
    then have "length (?open @ [NL]) \<le> j" by (rule no_tag_inside [OF plain])
    with b occ [of "j - length (?open @ [NL])"] show ?thesis by (simp add: Suc)
  qed
  moreover have "startswith (drop i xs) CLOSE_TAG" if "xs = ys @ CLOSE_TAG" "i + length CLOSE_TAG = length xs" for i xs ys
    using that by (simp add: startswith_def)
  moreover have eq: "format_expansions_for_context expansions label = CHR ''<'' # (?open @ [NL]) @ ?body @ NL # CLOSE_TAG"
    by (simp add: f)
  moreover have "CHR ''<'' # (?open @ [NL]) @ ?body @ NL # CLOSE_TAG = (CHR ''<'' # (?open @ [NL]) @ ?body @ [NL]) @ CLOSE_TAG" by simp
  ultimately show ?thesis unfolding f using startswith_append [of "''<headroom_proactive_expansion>''"] by (metis f eq)
qed

section \<open>The best entries\<close>

lemma take_sorted_best:
  assumes "xs = sort_key (\<lambda>r. - f r) ys" "y \<in> set ys" "y \<notin> set (take n xs)"
  shows "length (take n xs) = n \<and> (\<forall>x\<in>set (take n xs). (f y :: rat) \<le> f x)"
proof -
  have y: "y \<in> set xs" using assms(1,2) by simp
  then have d: "y \<in> set (drop n xs)" using assms(3) by (metis append_take_drop_id set_append UnE)
  then have "n \<le> length xs" by (metis drop_all empty_iff empty_set nle_le)
  moreover have "f y \<le> f x" if "x \<in> set (take n xs)" for x
  proof -
    have "sorted_wrt (\<lambda>a b. - f a \<le> - f b) (take n xs @ drop n xs)"
      using sorted_sort_key [of "\<lambda>r. - f r" ys] by (simp add: assms(1) sorted_map)
    then show ?thesis using that d unfolding sorted_wrt_append by fastforce
  qed
  ultimately show ?thesis by simp
qed

text \<open>The recommendations are the best ones: in descending order of score, each at or above the threshold, at most as many as
  configured; an entry of the workspace that is young and relevant enough is left out only when the list is full of entries
  that score at least as high.
\<close>
theorem best_recommendations:
  assumes "analyze_query now query turn ws t = (t', Inr recs)" "0 \<le> ct_max_proactive_expansions (tr_config t)"
  shows "sorted_wrt (\<lambda>a b. er_relevance_score b \<le> er_relevance_score a) recs \<and>
    int (length recs) \<le> ct_max_proactive_expansions (tr_config t) \<and>
    list_all (\<lambda>r. ct_relevance_threshold (tr_config t) \<le> er_relevance_score r) recs \<and>
    (ct_enabled (tr_config t) \<and> ct_proactive_expansion (tr_config t) \<and> ws \<noteq> [] \<longrightarrow>
      list_all (\<lambda>(h, c). eligible (tr_config t) now query ws c \<longrightarrow>
         h \<in> er_hash_key ` set recs \<or>
         int (length recs) = ct_max_proactive_expansions (tr_config t) \<and>
         list_all (\<lambda>r. score (tr_config t) now query c \<le> er_relevance_score r) recs) (tr_contexts t))"
proof -
  let ?cfg = "tr_config t"
  let ?ys = "map (recommendation ?cfg now query) (filter (\<lambda>p. eligible ?cfg now query ws (snd p)) (tr_contexts t))"
  let ?xs = "sort_key (\<lambda>r. - er_relevance_score r) ?ys"
  let ?n = "nat (ct_max_proactive_expansions ?cfg)"
  have recs: "recs = take ?n ?xs" if "ct_enabled ?cfg \<and> ct_proactive_expansion ?cfg \<and> ws \<noteq> []"
    using that assms recommend_all [of ?cfg now query ws "tr_contexts t" "[]"]
    by (auto simp: analyze_query_def and_then_Inr_iff slice_to_def split: if_splits)
  have none: "recs = []" if "\<not> (ct_enabled ?cfg \<and> ct_proactive_expansion ?cfg \<and> ws \<noteq> [])"
    using that assms(1) by (auto simp: analyze_query_def split: if_splits)
  have left: "h \<in> er_hash_key ` set recs \<or> int (length recs) = ct_max_proactive_expansions ?cfg \<and>
      list_all (\<lambda>r. score ?cfg now query c \<le> er_relevance_score r) recs"
    if r: "recs = take ?n ?xs" and c: "(h, c) \<in> set (tr_contexts t)" "eligible ?cfg now query ws c" for h c
  proof (cases "recommendation ?cfg now query (h, c) \<in> set recs")
    case True
    then show ?thesis by (force simp: recommendation_def)
  next
    case False
    have "recommendation ?cfg now query (h, c) \<in> set ?ys" using c by (auto intro!: rev_image_eqI [of "(h, c)"])
    from take_sorted_best [of ?xs er_relevance_score ?ys _ ?n, OF refl this] False
    have best: "length recs = ?n"
      "\<forall>x\<in>set recs. er_relevance_score (recommendation ?cfg now query (h, c)) \<le> er_relevance_score x"
      unfolding r by blast+
    from best(2) have "list_all (\<lambda>r. score ?cfg now query c \<le> er_relevance_score r) recs"
      by (simp add: recommendation_def list_all_iff)
    with best(1) assms(2) show ?thesis by simp
  qed
  have s: "sorted_wrt (\<lambda>a b. er_relevance_score b \<le> er_relevance_score a) ?xs"
    using sorted_sort_key [of "\<lambda>r. - er_relevance_score r" ?ys] by (simp add: sorted_map)
  have above: "ct_relevance_threshold ?cfg \<le> er_relevance_score r" if "r \<in> set ?xs" for r
    using that by (auto simp: recommendation_def eligible_def)
  show ?thesis
  proof (cases "ct_enabled ?cfg \<and> ct_proactive_expansion ?cfg \<and> ws \<noteq> []")
    case False
    from none [OF this] have "recs = []" .
    with False assms(2) show ?thesis by auto
  next
    case True
    note r = recs [OF True]
    have "sorted_wrt (\<lambda>a b. er_relevance_score b \<le> er_relevance_score a) recs" unfolding r by (rule sorted_wrt_take [OF s])
    moreover have "int (length recs) \<le> ct_max_proactive_expansions ?cfg" unfolding r using assms(2) by simp
    moreover have "list_all (\<lambda>r. ct_relevance_threshold ?cfg \<le> er_relevance_score r) recs"
      unfolding r list_all_iff using above by (blast dest: in_set_takeD)
    moreover note left [OF r]
    ultimately show ?thesis unfolding list_all_iff [of _ "tr_contexts t"] by blast
  qed
qed

section \<open>Edges\<close>

text \<open>A maximal age of zero, with an entry tracked at the reading of the query, divides by zero.\<close>

lemma zero_age_raises:
  assumes "tr_contexts t = [(h, c)]" "cc_timestamp c = now" "cc_workspace_key c = ws" "ws \<noteq> []"
    "ct_enabled (tr_config t)" "ct_proactive_expansion (tr_config t)" "ct_max_context_age_seconds (tr_config t) = 0"
  shows "snd (analyze_query now query turn ws t) = Inl ZeroDivisionError"
  using assms by (simp add: analyze_query_def recommend_def)

text \<open>The same text compressed in two projects has one entry, which belongs to the project that tracked it last.\<close>

lemma shared_hash_moves:
  assumes "tracker_ok t" "ct_enabled (tr_config t)" "\<not> is_summary a"
    "dict_get (tr_contexts (fst (track_compression now a t))) (ta_hash_key a) = Some c"
  shows "cc_workspace_key c = ta_workspace_key a"
  using track_effect [OF assms(1), of now a "ta_hash_key a" c] assms(3,4) by (simp add: context_of_def)

section \<open>Witnesses\<close>

definition sample_track :: "string \<Rightarrow> string \<Rightarrow> string \<Rightarrow> track_args" where
  "sample_track h ws txt =
     \<lparr>ta_hash_key = h, ta_turn_number = 1, ta_tool_name = Some ''Grep'', ta_original_count = 9, ta_compressed_count = 2,
      ta_workspace_key = ws, ta_query_context = None, ta_sample_content = txt\<rparr>"

definition sample_tracker_ops :: "tracker_op list" where
  "sample_tracker_ops =
     [Track 1 (sample_track ''abcdef012345'' ''red'' ''auth.py''), Track 2 (sample_track ''123456abcdef'' ''blue'' ''auth.rb'')]"

definition sample_ccr :: ccr_store where
  "sample_ccr = fst (store (\<lambda>_. replicate 64 (CHR ''0'')) 1 1 (sample_args ''abcdef012345'' ''payload'') (ccr_init 5 600 False mb_init))"

definition sample_tracker :: ContextTracker where
  "sample_tracker = tracker_run sample_tracker_ops (context_tracker_init default_context_config)"

definition sample_recommendation :: ExpansionRecommendation where
  "sample_recommendation =
     \<lparr>er_hash_key = ''abcdef012345'', er_reason = ''from Grep, 9 items compressed in turn 1, high relevance to current query'',
      er_relevance_score = 3289 / 6000\<rparr>"

lemma sample_analysis: "snd (analyze_query 3 ''auth.py file'' None ''red'' sample_tracker) = Inr [sample_recommendation]"
  by code_simp

definition sample_clock :: "nat \<Rightarrow> rat \<times> rat \<times> rat" where
  "sample_clock n = (3, 3, 3)"

lemma sample_expansion:
  "map (\<lambda>x. (ex_hash x, ex_content x)) (fst (execute_expansions sample_clock [sample_recommendation] sample_ccr)) =
     [(''abcdef012345'', ''payload'')]"
  by code_simp

lemmas sample_analysis_run = prod.collapse [of "analyze_query 3 ''auth.py file'' None ''red'' sample_tracker", unfolded sample_analysis, symmetric]

theorem expansions_stay_in_workspace_witness:
  "map (\<lambda>x. (ex_hash x, ex_content x)) (fst (execute_expansions sample_clock [sample_recommendation] sample_ccr)) =
     [(''abcdef012345'', ''payload'')] \<and>
   (\<exists>tracked_at a. last_tracked sample_tracker_ops ''abcdef012345'' tracked_at a \<and> ta_workspace_key a = ''red'' \<and>
      3 - tracked_at \<le> ct_max_context_age_seconds default_context_config)"
proof -
  obtain x where x: "fst (execute_expansions sample_clock [sample_recommendation] sample_ccr) = [x]" "ex_hash x = ''abcdef012345''"
    using sample_expansion by auto
  then show ?thesis
    using sample_expansion
      expansions_stay_in_workspace [OF sample_analysis_run [unfolded sample_tracker_def]
        prod.collapse [of "execute_expansions sample_clock [sample_recommendation] sample_ccr", symmetric], of x]
    by simp
qed

lemma tracker_bounded_sample:
  "get_tracked_hashes sample_tracker = [''abcdef012345'', ''123456abcdef''] \<and>
   set (tr_turn_order sample_tracker) = set (get_tracked_hashes sample_tracker)"
proof -
  have "get_tracked_hashes sample_tracker = [''abcdef012345'', ''123456abcdef'']" "0 \<le> ct_max_tracked_contexts default_context_config"
    by code_simp+
  then show ?thesis
    using tracker_bounded [of default_context_config sample_tracker_ops] by (simp add: sample_tracker_def Let_def)
qed

theorem best_recommendations_witness:
  "snd (analyze_query 3 ''auth.py file'' None ''red'' sample_tracker) = Inr [sample_recommendation] \<and>
   ct_relevance_threshold default_context_config \<le> er_relevance_score sample_recommendation"
proof -
  have c: "tr_config sample_tracker = default_context_config" "0 \<le> ct_max_proactive_expansions default_context_config"
    by code_simp+
  then show ?thesis using sample_analysis best_recommendations [OF sample_analysis_run] by simp
qed

end
