(* ===== verification/Read_Maturation.thy ===== *)
theory Read_Maturation
  imports Read_Redemption Prefix_Replay
begin

text \<open>
  Read maturation, \<open>headroom/transforms/read_maturation.py\<close>, with the stage of \<open>proxy/handlers/anthropic.py\<close>
  that runs it: a fresh file read is kept out of the provider's cache while its file is active and becomes a marker
  once the file is quiet. The manager of a session keeps the markers; the store of the originals is
  \<open>CCR_Store\<close> and is passed in and out, because other components change it between turns. \<open>loads\<close>,
  \<open>sha\<close>, \<open>rp\<close>, the values that serve as keys and the dash of the marker are those of \<open>Read_Lifecycle\<close>; \<open>clk n\<close> are the
  clock readings of the store call of the \<open>n\<close>-th read that matures in a pass. When a pass raises, what it has
  recorded stays recorded. Token counts and log output are not modelled.
\<close>

section \<open>Data\<close>

record ReadMaturationConfig =
  mc_enabled :: bool
  mc_quiesce_turns :: int
  mc_max_hold_turns :: int
  mc_min_size_bytes :: int

definition default_maturation_config :: ReadMaturationConfig where
  "default_maturation_config = \<lparr>mc_enabled = False, mc_quiesce_turns = 5, mc_max_hold_turns = 25, mc_min_size_bytes = 2048\<rparr>"

definition READ_TOOLS :: "string list" where
  "READ_TOOLS = [''Read'', ''read'']"

definition TOUCH_TOOLS :: "string list" where
  "TOUCH_TOOLS = [''Read'', ''read'', ''Edit'', ''edit'', ''Write'', ''write'', ''MultiEdit'', ''NotebookEdit'']"

record MaturedRead =
  md_marker :: string
  md_ccr_hash :: string

record Activity =
  ac_read_calls :: "(json, json \<times> nat) pydict"
  ac_file_last_touch :: "(json, nat) pydict"
  ac_assistant_count :: nat

definition activity_init :: Activity where
  "activity_init = \<lparr>ac_read_calls = [], ac_file_last_touch = [], ac_assistant_count = 0\<rparr>"

record MaturationResult =
  mr_messages :: "message list"
  mr_holding_msg_indices :: "nat list"
  mr_holding_reads :: nat
  mr_newly_matured :: nat
  mr_replacements_applied :: nat
  mr_bytes_saved :: nat

definition maturation_result_init :: "message list \<Rightarrow> MaturationResult" where
  "maturation_result_init messages =
     \<lparr>mr_messages = messages, mr_holding_msg_indices = [], mr_holding_reads = 0, mr_newly_matured = 0,
      mr_replacements_applied = 0, mr_bytes_saved = 0\<rparr>"

record ReadMaturationManager =
  rm_config :: ReadMaturationConfig
  rm_matured :: "(json, MaturedRead) pydict"

definition maturation_manager_init :: "ReadMaturationConfig \<Rightarrow> ReadMaturationManager" where
  "maturation_manager_init cfg = \<lparr>rm_config = cfg, rm_matured = []\<rparr>"

section \<open>The scan of tool activity\<close>

text \<open>\<open>name in names\<close> for a set of strings, and the path among the arguments of a call.\<close>

definition in_names :: "string list \<Rightarrow> json \<Rightarrow> py_error + bool" where
  "in_names names name =
     (if hashable name then Inr (case name of JStr n \<Rightarrow> n \<in> set names | _ \<Rightarrow> False) else Inl TypeError)"

definition touched_path :: "json \<Rightarrow> py_error + json" where
  "touched_path args =
     and_then (json_get args ''file_path'' JNull) (\<lambda>fp.
       and_then (json_get args ''path'' JNull) (\<lambda>p. Inr (py_or (py_or fp p) (JStr []))))"

definition note_touch :: "nat \<Rightarrow> json \<Rightarrow> json \<Rightarrow> json \<Rightarrow> Activity \<Rightarrow> py_error + Activity" where
  "note_touch turn name tc_id fp act =
     and_then (if truthy fp
               then if hashable fp then Inr (act\<lparr>ac_file_last_touch := dict_set fp turn (ac_file_last_touch act)\<rparr>)
                    else Inl TypeError
               else Inr act) (\<lambda>act.
       and_then (in_names READ_TOOLS name) (\<lambda>is_read.
         if is_read
         then if hashable tc_id then Inr (act\<lparr>ac_read_calls := dict_set tc_id (fp, turn) (ac_read_calls act)\<rparr>)
              else Inl TypeError
         else Inr act))"

definition decoded_arguments :: "json_loads \<Rightarrow> json \<Rightarrow> py_error + json" where
  "decoded_arguments loads arguments =
     (case arguments of
        JStr s \<Rightarrow>
          (case loads s of
             Inl JSONDecodeError \<Rightarrow> Inr (JDict [])
           | Inl (LoadsError e) \<Rightarrow> if e \<in> {ValueError, UnicodeError, TypeError} then Inr (JDict []) else Inl e
           | Inr v \<Rightarrow> Inr v)
      | _ \<Rightarrow> Inr (JDict []))"

definition scan_call :: "json_loads \<Rightarrow> nat \<Rightarrow> json \<Rightarrow> Activity \<Rightarrow> py_error + Activity" where
  "scan_call loads turn tc act =
     (case tc of
        JDict d \<Rightarrow>
          let func = dict_get_default d ''function'' (JDict [])
          in and_then (json_get func ''name'' (JStr [])) (\<lambda>name.
               and_then (in_names TOUCH_TOOLS name) (\<lambda>is_touch.
                 if \<not> is_touch then Inr act
                 else and_then (json_get func ''arguments'' (JStr ''{}'')) (\<lambda>arguments.
                   and_then (decoded_arguments loads arguments) (\<lambda>args.
                     and_then (touched_path args) (\<lambda>fp.
                       note_touch turn name (dict_get_default d ''id'' (JStr [])) fp act)))))
      | _ \<Rightarrow> Inr act)"

definition scan_tool_use :: "nat \<Rightarrow> json \<Rightarrow> Activity \<Rightarrow> py_error + Activity" where
  "scan_tool_use turn b act =
     (case b of
        JDict d \<Rightarrow>
          if jget d ''type'' \<noteq> Some (JStr ''tool_use'') then Inr act
          else
            let name = dict_get_default d ''name'' (JStr [])
            in and_then (in_names TOUCH_TOOLS name) (\<lambda>is_touch.
                 if \<not> is_touch then Inr act
                 else and_then (touched_path (py_or (dict_get_default d ''input'' JNull) (JDict []))) (\<lambda>fp.
                   note_touch turn name (dict_get_default d ''id'' (JStr [])) fp act))
      | _ \<Rightarrow> Inr act)"

definition scan_message :: "json_loads \<Rightarrow> message \<Rightarrow> Activity \<Rightarrow> py_error + Activity" where
  "scan_message loads msg act =
     (if \<not> is_assistant msg then Inr act
      else
        let turn = ac_assistant_count act + 1; act = act\<lparr>ac_assistant_count := turn\<rparr>
        in and_then (tool_calls_of msg) (\<lambda>tcs.
             and_then (fold_err (scan_call loads turn) tcs act) (\<lambda>act.
               case dict_get_default msg ''content'' JNull of
                 JList content \<Rightarrow> fold_err (scan_tool_use turn) content act
               | _ \<Rightarrow> Inr act)))"

definition scan_activity :: "json_loads \<Rightarrow> message list \<Rightarrow> py_error + Activity" where
  "scan_activity loads messages = fold_err (scan_message loads) messages activity_init"

section \<open>One pass\<close>

text \<open>What a pass changes: the markers of the manager, the store, the result.\<close>

record mat_state =
  ms_matured :: "(json, MaturedRead) pydict"
  ms_store :: "ccr_store option"
  ms_result :: MaturationResult

definition note_replaced :: "string \<Rightarrow> string \<Rightarrow> mat_state \<Rightarrow> mat_state" where
  "note_replaced content marker s =
     s\<lparr>ms_result := (ms_result s)
        \<lparr>mr_replacements_applied := mr_replacements_applied (ms_result s) + 1,
         mr_bytes_saved := mr_bytes_saved (ms_result s) + (length content - length marker)\<rparr>\<rparr>"

definition has_retrieval_marker :: "string \<Rightarrow> bool" where
  "has_retrieval_marker content =
     (contains_str ''Retrieve original: hash='' content \<or> contains_str ''Retrieve more: hash='' content)"

definition maturation_store_args :: "json \<Rightarrow> string \<Rightarrow> store_args" where
  "maturation_store_args tc_id content =
     \<lparr>sa_original = content, sa_compressed = [], sa_original_tokens = 0, sa_compressed_tokens = 0,
      sa_original_item_count = 0, sa_compressed_item_count = 0, sa_tool_name = Some ''Read'',
      sa_tool_call_id = (case tc_id of JStr i \<Rightarrow> Some i | _ \<Rightarrow> None), sa_query_context = None,
      sa_tool_signature_hash = None, sa_compression_strategy = Some ''read_maturation'',
      sa_ttl = None, sa_explicit_hash = None\<rparr>"

definition maturation_marker :: "(json \<Rightarrow> string) \<Rightarrow> json \<Rightarrow> string \<Rightarrow> string" where
  "maturation_marker rp file_path ccr_hash =
     ''[Read of '' @ py_str rp (py_or file_path (JStr ''unknown'')) @ '' compressed after use '' @ EM_DASH @
     '' re-read the file if needed. Retrieve original: hash='' @ ccr_hash @ '']''"

definition store_original ::
  "(string \<Rightarrow> string) \<Rightarrow> rat \<times> rat \<Rightarrow> json \<Rightarrow> string \<Rightarrow> ccr_store option \<Rightarrow> ccr_store option \<times> string" where
  "store_original sha now tc_id content st =
     (let ccr_hash = take 24 (sha (utf8_encode content))
      in case st of
           None \<Rightarrow> (None, ccr_hash)
         | Some s \<Rightarrow>
             (case store sha (fst now) (snd now) (maturation_store_args tc_id content) s of
                (s', Inr h) \<Rightarrow> (Some s', h)
              | (s', Inl e) \<Rightarrow> (Some s', ccr_hash)))"

text \<open>The caller has found the identifier among the read calls.\<close>

definition handle_read ::
  "(string \<Rightarrow> string) \<Rightarrow> (json \<Rightarrow> string) \<Rightarrow> (nat \<Rightarrow> rat \<times> rat) \<Rightarrow> ReadMaturationConfig \<Rightarrow> Activity \<Rightarrow> json \<Rightarrow> json \<times> nat \<Rightarrow> string
     \<Rightarrow> mat_state \<Rightarrow> mat_state \<times> string option \<times> bool" where
  "handle_read sha rp clk cfg activity tc_id call content s =
     (case dict_get (ms_matured s) tc_id of
        Some matured \<Rightarrow>
          if content = md_marker matured then (s, None, False)
          else (note_replaced content (md_marker matured) s, Some (md_marker matured), False)
      | None \<Rightarrow>
          if int (length (utf8_encode content)) < mc_min_size_bytes cfg then (s, None, False)
          else if has_retrieval_marker content then (s, None, False)
          else
            let (file_path, read_turn) = call;
                last_touch = dict_get_default (ac_file_last_touch activity) file_path read_turn;
                quiet_turns = int (ac_assistant_count activity) - int last_touch;
                held_turns = int (ac_assistant_count activity) - int read_turn
            in if quiet_turns < mc_quiesce_turns cfg \<and> held_turns < mc_max_hold_turns cfg
               then (s\<lparr>ms_result := (ms_result s)\<lparr>mr_holding_reads := mr_holding_reads (ms_result s) + 1\<rparr>\<rparr>, None, True)
               else
                 let (st, ccr_hash) = store_original sha (clk (mr_newly_matured (ms_result s))) tc_id content (ms_store s);
                     marker = maturation_marker rp file_path ccr_hash
                 in (note_replaced content marker
                       (s\<lparr>ms_matured := dict_set tc_id \<lparr>md_marker = marker, md_ccr_hash = ccr_hash\<rparr> (ms_matured s),
                          ms_store := st,
                          ms_result := (ms_result s)\<lparr>mr_newly_matured := mr_newly_matured (ms_result s) + 1\<rparr>\<rparr>),
                     Some marker, False))"

text \<open>A block, and the loop over the blocks of a message: the new blocks, whether one changed, whether one is held.
  The identifier is read twice, first with a default and then without.\<close>

definition mature_block ::
  "(string \<Rightarrow> string) \<Rightarrow> (json \<Rightarrow> string) \<Rightarrow> (nat \<Rightarrow> rat \<times> rat) \<Rightarrow> ReadMaturationConfig \<Rightarrow> Activity \<Rightarrow> json
     \<Rightarrow> mat_state \<Rightarrow> mat_state \<times> (py_error + json \<times> bool \<times> bool)" where
  "mature_block sha rp clk cfg activity b s =
     (case b of
        JDict d \<Rightarrow>
          if jget d ''type'' \<noteq> Some (JStr ''tool_result'') then (s, Inr (b, False, False))
          else if \<not> hashable (dict_get_default d ''tool_use_id'' (JStr [])) then (s, Inl TypeError)
          else
            (case (dict_get (ac_read_calls activity) (dict_get_default d ''tool_use_id'' (JStr [])), jget d ''content'') of
               (Some call, Some (JStr content)) \<Rightarrow>
                 (case jget d ''tool_use_id'' of
                    None \<Rightarrow> (s, Inl KeyError)
                  | Some tc_id \<Rightarrow>
                      (case handle_read sha rp clk cfg activity tc_id call content s of
                         (s', Some new_content, holding) \<Rightarrow> (s', Inr (JDict (dict_set ''content'' (JStr new_content) d), True, holding))
                       | (s', None, holding) \<Rightarrow> (s', Inr (b, False, holding))))
             | _ \<Rightarrow> (s, Inr (b, False, False)))
      | _ \<Rightarrow> (s, Inr (b, False, False)))"

fun mature_blocks ::
  "(string \<Rightarrow> string) \<Rightarrow> (json \<Rightarrow> string) \<Rightarrow> (nat \<Rightarrow> rat \<times> rat) \<Rightarrow> ReadMaturationConfig \<Rightarrow> Activity \<Rightarrow> json list
     \<Rightarrow> mat_state \<Rightarrow> mat_state \<times> (py_error + json list \<times> bool \<times> bool)" where
  "mature_blocks sha rp clk cfg activity [] s = (s, Inr ([], False, False))"
| "mature_blocks sha rp clk cfg activity (b # content) s =
     (case mature_block sha rp clk cfg activity b s of
        (s', Inl e) \<Rightarrow> (s', Inl e)
      | (s', Inr (b', changed, holding)) \<Rightarrow>
          (case mature_blocks sha rp clk cfg activity content s' of
             (s'', Inl e) \<Rightarrow> (s'', Inl e)
           | (s'', Inr (new_blocks, changed', holding')) \<Rightarrow>
               (s'', Inr (b' # new_blocks, changed \<or> changed', holding \<or> holding'))))"

definition mature_message ::
  "(string \<Rightarrow> string) \<Rightarrow> (json \<Rightarrow> string) \<Rightarrow> (nat \<Rightarrow> rat \<times> rat) \<Rightarrow> ReadMaturationConfig \<Rightarrow> Activity \<Rightarrow> message
     \<Rightarrow> mat_state \<Rightarrow> mat_state \<times> (py_error + message \<times> bool \<times> bool)" where
  "mature_message sha rp clk cfg activity msg s =
     (if dict_get_default msg ''role'' (JStr []) = JStr ''tool'' then
        let tc_id = dict_get_default msg ''tool_call_id'' (JStr [])
        in if \<not> hashable tc_id then (s, Inl TypeError)
           else
             (case (dict_get (ac_read_calls activity) tc_id, dict_get_default msg ''content'' (JStr [])) of
                (Some call, JStr content) \<Rightarrow>
                  (case handle_read sha rp clk cfg activity tc_id call content s of
                     (s', Some new_content, holding) \<Rightarrow> (s', Inr (dict_set ''content'' (JStr new_content) msg, True, holding))
                   | (s', None, holding) \<Rightarrow> (s', Inr (msg, False, holding)))
              | _ \<Rightarrow> (s, Inr (msg, False, False)))
      else
        (case dict_get_default msg ''content'' (JStr []) of
           JList content \<Rightarrow>
             (case mature_blocks sha rp clk cfg activity content s of
                (s', Inl e) \<Rightarrow> (s', Inl e)
              | (s', Inr (new_blocks, changed, holding_any)) \<Rightarrow>
                  (s', Inr (if changed then dict_set ''content'' (JList new_blocks) msg else msg, changed, holding_any)))
         | _ \<Rightarrow> (s, Inr (msg, False, False))))"

definition note_holding :: "nat \<Rightarrow> bool \<Rightarrow> mat_state \<Rightarrow> mat_state" where
  "note_holding i holding s =
     (if holding
      then s\<lparr>ms_result := (ms_result s)\<lparr>mr_holding_msg_indices := mr_holding_msg_indices (ms_result s) @ [i]\<rparr>\<rparr> else s)"

fun mature_messages ::
  "(string \<Rightarrow> string) \<Rightarrow> (json \<Rightarrow> string) \<Rightarrow> (nat \<Rightarrow> rat \<times> rat) \<Rightarrow> ReadMaturationConfig \<Rightarrow> Activity \<Rightarrow> int \<Rightarrow> nat \<Rightarrow> message list
     \<Rightarrow> mat_state \<Rightarrow> mat_state \<times> (py_error + message list \<times> bool)" where
  "mature_messages sha rp clk cfg activity frozen i [] s = (s, Inr ([], False))"
| "mature_messages sha rp clk cfg activity frozen i (msg # messages) s =
     (case (if int i < frozen then (s, Inr (msg, False, False)) else mature_message sha rp clk cfg activity msg s) of
        (s', Inl e) \<Rightarrow> (s', Inl e)
      | (s', Inr (new_msg, changed, holding)) \<Rightarrow>
          (case mature_messages sha rp clk cfg activity frozen (Suc i) messages (note_holding i holding s') of
             (s'', Inl e) \<Rightarrow> (s'', Inl e)
           | (s'', Inr (out, any_changed)) \<Rightarrow> (s'', Inr (new_msg # out, changed \<or> any_changed))))"

definition apply_maturation ::
  "json_loads \<Rightarrow> (string \<Rightarrow> string) \<Rightarrow> (json \<Rightarrow> string) \<Rightarrow> (nat \<Rightarrow> rat \<times> rat) \<Rightarrow> message list \<Rightarrow> int \<Rightarrow> ccr_store option
     \<Rightarrow> ReadMaturationManager \<Rightarrow> ReadMaturationManager \<times> ccr_store option \<times> (py_error + MaturationResult)" where
  "apply_maturation loads sha rp clk messages frozen st mgr =
     (if \<not> mc_enabled (rm_config mgr) then (mgr, st, Inr (maturation_result_init messages))
      else
        (case scan_activity loads messages of
           Inl e \<Rightarrow> (mgr, st, Inl e)
         | Inr activity \<Rightarrow>
             (case mature_messages sha rp clk (rm_config mgr) activity frozen 0 messages
                     \<lparr>ms_matured = rm_matured mgr, ms_store = st, ms_result = maturation_result_init messages\<rparr> of
                (s, Inl e) \<Rightarrow> (mgr\<lparr>rm_matured := ms_matured s\<rparr>, ms_store s, Inl e)
              | (s, Inr (out, any_changed)) \<Rightarrow>
                  (mgr\<lparr>rm_matured := ms_matured s\<rparr>, ms_store s,
                   Inr (if any_changed then (ms_result s)\<lparr>mr_messages := out\<rparr> else ms_result s)))))"

section \<open>The breakpoint before held reads\<close>

definition strip_message :: "message \<Rightarrow> message" where
  "strip_message msg =
     (case jget msg ''content'' of
        Some (JList content) \<Rightarrow>
          if list_ex has_marker content then dict_set ''content'' (JList (map strip_block content)) msg else msg
      | _ \<Rightarrow> msg)"

definition is_marked :: "message \<Rightarrow> bool" where
  "is_marked msg = (case jget msg ''content'' of Some (JList content) \<Rightarrow> list_ex has_marker content | _ \<Rightarrow> False)"

text \<open>\<open>for i in range(n - 1, -1, -1)\<close> with its \<open>break\<close>.\<close>

fun reanchor :: "nat \<Rightarrow> message list \<Rightarrow> message list" where
  "reanchor 0 out = out"
| "reanchor (Suc i) out =
     (case jget (out ! i) ''content'' of
        Some (JList content) \<Rightarrow>
          if content \<noteq> [] \<and> is_jdict (last content)
          then out[i := place_marker [(''type'', JStr ''ephemeral'')] (out ! i)] else reanchor i out
      | _ \<Rightarrow> reanchor i out)"

definition relocate_cache_breakpoint :: "message list \<Rightarrow> nat list \<Rightarrow> message list" where
  "relocate_cache_breakpoint messages holding_msg_indices =
     (case holding_msg_indices of
        [] \<Rightarrow> messages
      | i # rest \<Rightarrow>
          let earliest = fold min rest i;
              out = take earliest messages @ map strip_message (drop earliest messages)
          in if \<not> list_ex is_marked (drop earliest messages) then out else reanchor earliest out)"

section \<open>The stage of the handler\<close>

text \<open>An exception leaves the messages as they were.\<close>

definition read_maturation_stage ::
  "json_loads \<Rightarrow> (string \<Rightarrow> string) \<Rightarrow> (json \<Rightarrow> string) \<Rightarrow> (nat \<Rightarrow> rat \<times> rat) \<Rightarrow> bool \<Rightarrow> bool \<Rightarrow> ReadMaturationConfig \<Rightarrow> message list \<Rightarrow> int
     \<Rightarrow> ccr_store \<Rightarrow> ReadMaturationManager option \<Rightarrow> ReadMaturationManager option \<times> ccr_store option \<times> message list" where
  "read_maturation_stage loads sha rp clk read_maturation bypass cfg messages frozen st mgr =
     (if read_maturation \<and> \<not> bypass
      then
        let maturation_mgr = (case mgr of None \<Rightarrow> maturation_manager_init (cfg\<lparr>mc_enabled := True\<rparr>) | Some m \<Rightarrow> m)
        in case apply_maturation loads sha rp clk messages frozen (Some st) maturation_mgr of
             (mgr', st', Inl e) \<Rightarrow> (Some mgr', st', messages)
           | (mgr', st', Inr maturation) \<Rightarrow>
               (Some mgr', st',
                if mr_replacements_applied maturation \<noteq> 0 \<or> mr_holding_msg_indices maturation \<noteq> []
                then relocate_cache_breakpoint (mr_messages maturation) (mr_holding_msg_indices maturation)
                else messages)
      else (mgr, Some st, messages))"

section \<open>The settled form of a read\<close>

text \<open>A read is settled when it is recorded with its marker, or is too small or too compact ever to be replaced; its form
  then depends on nothing else.\<close>

definition kept :: "ReadMaturationConfig \<Rightarrow> string \<Rightarrow> bool" where
  "kept cfg content \<longleftrightarrow> int (length (utf8_encode content)) < mc_min_size_bytes cfg \<or> has_retrieval_marker content"

definition settled_form :: "ReadMaturationConfig \<Rightarrow> (json, MaturedRead) pydict \<Rightarrow> json \<Rightarrow> string \<Rightarrow> string option" where
  "settled_form cfg matured i content =
     (case dict_get matured i of Some m \<Rightarrow> Some (md_marker m) | None \<Rightarrow> if kept cfg content then Some content else None)"

definition text_after :: "string \<Rightarrow> string option \<Rightarrow> string" where
  "text_after content r = (case r of Some t \<Rightarrow> t | None \<Rightarrow> content)"

lemma text_after_simps [simp]: "text_after c None = c" "text_after c (Some t) = t"
  by (simp_all add: text_after_def)

lemma note_replaced_frame [simp]:
  "ms_matured (note_replaced c t s) = ms_matured s" "ms_store (note_replaced c t s) = ms_store s"
  "mr_holding_msg_indices (ms_result (note_replaced c t s)) = mr_holding_msg_indices (ms_result s)"
  "mr_newly_matured (ms_result (note_replaced c t s)) = mr_newly_matured (ms_result s)"
  "mr_messages (ms_result (note_replaced c t s)) = mr_messages (ms_result s)"
  by (simp_all add: note_replaced_def)

lemma note_holding_frame [simp]:
  "ms_matured (note_holding i h s) = ms_matured s" "ms_store (note_holding i h s) = ms_store s"
  "mr_holding_msg_indices (ms_result (note_holding i h s)) = mr_holding_msg_indices (ms_result s) @ (if h then [i] else [])"
  "mr_newly_matured (ms_result (note_holding i h s)) = mr_newly_matured (ms_result s)"
  "mr_messages (ms_result (note_holding i h s)) = mr_messages (ms_result s)"
  by (simp_all add: note_holding_def)

definition still_active :: "ReadMaturationConfig \<Rightarrow> Activity \<Rightarrow> json \<times> nat \<Rightarrow> bool" where
  "still_active cfg act call \<longleftrightarrow>
     int (ac_assistant_count act) - int (dict_get_default (ac_file_last_touch act) (fst call) (snd call)) < mc_quiesce_turns cfg \<and>
     int (ac_assistant_count act) - int (snd call) < mc_max_hold_turns cfg"

lemma handle_read_cases:
  assumes "handle_read sha rp clk cfg act i call c s = (s', r, h)"
  obtains (replay) m where "dict_get (ms_matured s) i = Some m" "ms_matured s' = ms_matured s" "text_after c r = md_marker m" "\<not> h"
      "s' = s \<or> s' = note_replaced c (md_marker m) s"
  | (keep) "dict_get (ms_matured s) i = None" "kept cfg c" "s' = s" "r = None" "\<not> h"
  | (hold) "dict_get (ms_matured s) i = None" "\<not> kept cfg c" "still_active cfg act call" "r = None" "h"
      "s' = s\<lparr>ms_result := (ms_result s)\<lparr>mr_holding_reads := mr_holding_reads (ms_result s) + 1\<rparr>\<rparr>"
  | (mature) st k where "dict_get (ms_matured s) i = None" "\<not> kept cfg c" "\<not> still_active cfg act call" "\<not> h"
      "store_original sha (clk (mr_newly_matured (ms_result s))) i c (ms_store s) = (st, k)"
      "r = Some (maturation_marker rp (fst call) k)"
      "s' = note_replaced c (maturation_marker rp (fst call) k)
         (s\<lparr>ms_matured := dict_set i \<lparr>md_marker = maturation_marker rp (fst call) k, md_ccr_hash = k\<rparr> (ms_matured s), ms_store := st,
            ms_result := (ms_result s)\<lparr>mr_newly_matured := mr_newly_matured (ms_result s) + 1\<rparr>\<rparr>)"
proof (cases "dict_get (ms_matured s) i")
  case None
  obtain st k where st: "store_original sha (clk (mr_newly_matured (ms_result s))) i c (ms_store s) = (st, k)"
    by (cases "store_original sha (clk (mr_newly_matured (ms_result s))) i c (ms_store s)")
  consider "kept cfg c" | "\<not> kept cfg c" "still_active cfg act call" | "\<not> kept cfg c" "\<not> still_active cfg act call" by blast
  then show thesis
  proof cases
    case 1
    with assms None show thesis by (intro keep) (auto simp: handle_read_def kept_def split: if_splits)
  next
    case 2
    with assms None show thesis
      by (intro hold) (auto simp: handle_read_def kept_def still_active_def split: prod.splits)
  next
    case 3
    with assms None st show thesis
      by (intro mature [of st k]) (auto simp: handle_read_def kept_def still_active_def Let_def split: prod.splits)
  qed
next
  case (Some m)
  with assms show thesis by (intro replay [of m]) (auto simp: handle_read_def split: if_splits)
qed

lemma handle_read_frame:
  assumes "handle_read sha rp clk cfg act i call c s = (s', r, h)"
  shows "j \<noteq> i \<Longrightarrow> dict_get (ms_matured s') j = dict_get (ms_matured s) j"
    and "mr_holding_msg_indices (ms_result s') = mr_holding_msg_indices (ms_result s)"
    and "mr_messages (ms_result s') = mr_messages (ms_result s)"
  using assms by (auto elim!: handle_read_cases simp: dict_simps)

definition grows :: "mat_state \<Rightarrow> mat_state \<Rightarrow> bool" where
  "grows s s' \<longleftrightarrow> (\<forall>j. dict_get (ms_matured s) j \<noteq> None \<longrightarrow> dict_get (ms_matured s') j \<noteq> None)"

lemma grows_refl [simp]: "grows s s"
  by (simp add: grows_def)

lemma grows_trans: "grows s s1 \<Longrightarrow> grows s1 s' \<Longrightarrow> grows s s'"
  by (simp add: grows_def)

lemma grows_note_holding [simp]: "grows (note_holding i h s) s' = grows s s'"
  by (simp add: grows_def)

lemma handle_read_grows: "handle_read sha rp clk cfg act i call c s = (s', r, h) \<Longrightarrow> grows s s'"
  by (erule handle_read_cases) (auto simp: grows_def dict_simps)

lemma handle_read_settles:
  "handle_read sha rp clk cfg act i call c s = (s', r, False) \<Longrightarrow>
     settled_form cfg (ms_matured s') i c = Some (text_after c r)"
  by (erule handle_read_cases) (auto simp: settled_form_def dict_simps)

lemma settled_form_Some:
  "settled_form cfg matured i c = Some t \<longleftrightarrow>
     (\<exists>m. dict_get matured i = Some m \<and> t = md_marker m) \<or> dict_get matured i = None \<and> kept cfg c \<and> t = c"
  by (cases "dict_get matured i") (auto simp: settled_form_def)

lemma handle_read_repeats:
  assumes "settled_form cfg (ms_matured s) i c = Some t" "c' = c \<or> c' = t"
  shows "\<exists>s' r. handle_read sha rp clk cfg act i call c' s = (s', r, False) \<and> text_after c' r = t \<and> (r = None \<longleftrightarrow> c' = t) \<and>
    ms_matured s' = ms_matured s"
proof -
  from assms have "(\<exists>m. dict_get (ms_matured s) i = Some m \<and> t = md_marker m) \<or> dict_get (ms_matured s) i = None \<and> kept cfg c' \<and> t = c'"
    unfolding settled_form_Some by blast
  then show ?thesis by (auto simp: handle_read_def kept_def)
qed

lemma handle_read_nonempty:
  assumes "handle_read sha rp clk cfg act i call c s = (s', Some c, h)"
  shows "c \<noteq> []"
  using assms
proof (cases rule: handle_read_cases)
  case (replay m)
  then show ?thesis using assms by (auto simp: handle_read_def split: if_splits)
qed (auto simp: maturation_marker_def)

section \<open>Identifiers\<close>

text \<open>A result of a tool in a block: its dictionary, identifier and text.\<close>

definition block_result :: "json \<Rightarrow> (message \<times> json \<times> string) option" where
  "block_result b =
     (case b of
        JDict d \<Rightarrow>
          if jget d ''type'' = Some (JStr ''tool_result'')
          then (case jget d ''content'' of
                  Some (JStr c) \<Rightarrow> Some (d, dict_get_default d ''tool_use_id'' (JStr []), c)
                | _ \<Rightarrow> None)
          else None
      | _ \<Rightarrow> None)"

definition block_ids :: "json \<Rightarrow> json list" where
  "block_ids b = (case block_result b of Some (d, i, c) \<Rightarrow> [i] | None \<Rightarrow> [])"

definition result_ids :: "message \<Rightarrow> json list" where
  "result_ids msg =
     (if dict_get_default msg ''role'' (JStr []) = JStr ''tool''
      then (case dict_get_default msg ''content'' (JStr []) of
              JStr c \<Rightarrow> [dict_get_default msg ''tool_call_id'' (JStr [])] | _ \<Rightarrow> [])
      else (case dict_get_default msg ''content'' (JStr []) of
              JList bs \<Rightarrow> concat (map block_ids bs) | _ \<Rightarrow> []))"

text \<open>The two scans see the same calls for these identifiers.\<close>

definition same_calls :: "Activity \<Rightarrow> Activity \<Rightarrow> json list \<Rightarrow> bool" where
  "same_calls act act' ids =
     list_all (\<lambda>i. (dict_get (ac_read_calls act) i = None) = (dict_get (ac_read_calls act') i = None)) ids"

definition same_markers :: "mat_state \<Rightarrow> mat_state \<Rightarrow> json list \<Rightarrow> bool" where
  "same_markers s s' ids = list_all (\<lambda>i. dict_get (ms_matured s) i = dict_get (ms_matured s') i) ids"

definition bad_block :: "json \<Rightarrow> bool" where
  "bad_block b = (case b of JDict d \<Rightarrow> jget d ''type'' = Some (JStr ''tool_result'') \<and> \<not> hashable (dict_get_default d ''tool_use_id'' (JStr []))
                  | _ \<Rightarrow> False)"

lemma block_result_Some:
  "block_result b = Some (d, i, c) \<longleftrightarrow>
     b = JDict d \<and> jget d ''type'' = Some (JStr ''tool_result'') \<and> jget d ''content'' = Some (JStr c) \<and>
     i = dict_get_default d ''tool_use_id'' (JStr [])"
proof (cases b)
  case (JDict d')
  show ?thesis
  proof (cases "jget d' ''content''")
    case (Some v)
    with JDict show ?thesis by (cases v) (auto simp: block_result_def)
  qed (use JDict in \<open>auto simp: block_result_def\<close>)
qed (simp_all add: block_result_def)

lemma mature_block_eq:
  "mature_block sha rp clk cfg act b s =
     (if bad_block b then (s, Inl TypeError)
      else case block_result b of
        None \<Rightarrow> (s, Inr (b, False, False))
      | Some (d, i, c) \<Rightarrow>
          (case dict_get (ac_read_calls act) i of
             None \<Rightarrow> (s, Inr (b, False, False))
           | Some call \<Rightarrow>
               if jget d ''tool_use_id'' = None then (s, Inl KeyError)
               else case handle_read sha rp clk cfg act i call c s of
                 (s', r, h) \<Rightarrow> (s', Inr (JDict (dict_set ''content'' (JStr (text_after c r)) d), r \<noteq> None, h))))"
proof (cases b)
  case (JDict d)
  let ?i = "dict_get_default d ''tool_use_id'' (JStr [])"
  show ?thesis
  proof (cases "jget d ''type'' = Some (JStr ''tool_result'') \<and> hashable ?i")
    case True
    show ?thesis
    proof (cases "block_result b")
      case None
      with JDict True have "\<nexists>c. jget d ''content'' = Some (JStr c)"
        using block_result_Some [of b d ?i] by auto
      then have "mature_block sha rp clk cfg act b s = (s, Inr (b, False, False))"
        using JDict True by (auto simp: mature_block_def split: option.splits json.splits)
      with None True JDict show ?thesis by (simp add: bad_block_def)
    next
      case (Some x)
      then obtain c where x: "x = (d, ?i, c)" "jget d ''content'' = Some (JStr c)"
        using JDict by (cases x) (simp add: block_result_Some)
      show ?thesis
      proof (cases "dict_get (ac_read_calls act) ?i")
        case (Some call)
        obtain s' r h where hr: "handle_read sha rp clk cfg act ?i call c s = (s', r, h)" by (cases "handle_read sha rp clk cfg act ?i call c s")
        show ?thesis
        proof (cases "jget d ''tool_use_id''")
          case None
          with Some \<open>block_result b = Some x\<close> x True JDict show ?thesis by (simp add: mature_block_def bad_block_def)
        next
          case (Some j)
          then have "?i = j" by (simp add: dict_get_default_def)
          with Some \<open>dict_get (ac_read_calls act) ?i = Some call\<close> \<open>block_result b = Some x\<close> x True JDict hr dict_set_same [OF x(2)]
          show ?thesis by (cases r) (simp_all add: mature_block_def bad_block_def)
        qed
      qed (use Some x True JDict in \<open>simp add: mature_block_def bad_block_def\<close>)
    qed
  next
    case False
    moreover from this JDict have "block_result b = None" if "\<not> bad_block b"
      using that by (auto simp: block_result_def bad_block_def)
    ultimately show ?thesis using JDict by (auto simp: mature_block_def bad_block_def)
  qed
qed (simp_all add: mature_block_def bad_block_def block_result_def)

lemma mature_block_cases:
  assumes "mature_block sha rp clk cfg act b s = (s', Inr (b', ch, h))"
  obtains (none) "s' = s" "b' = b" "\<not> ch" "\<not> h" "\<And>i. i \<in> set (block_ids b) \<Longrightarrow> dict_get (ac_read_calls act) i = None"
  | (read) d i call c r where "b = JDict d" "block_result b = Some (d, i, c)" "jget d ''tool_use_id'' \<noteq> None"
      "dict_get (ac_read_calls act) i = Some call" "handle_read sha rp clk cfg act i call c s = (s', r, h)"
      "ch = (r \<noteq> None)" "b' = JDict (dict_set ''content'' (JStr (text_after c r)) d)"
proof (cases "block_result b")
  case None
  with assms show thesis by (intro none) (auto simp: mature_block_eq block_ids_def split: if_splits)
next
  case (Some x)
  then obtain d i c where x: "block_result b = Some (d, i, c)" by (cases x) auto
  show thesis
  proof (cases "dict_get (ac_read_calls act) i")
    case None
    with assms x show thesis by (intro none) (auto simp: mature_block_eq block_ids_def split: if_splits)
  next
    case (Some call)
    obtain s1 r h1 where hr: "handle_read sha rp clk cfg act i call c s = (s1, r, h1)" by (cases "handle_read sha rp clk cfg act i call c s")
    have "b = JDict d" using x unfolding block_result_Some by blast
    moreover have "jget d ''tool_use_id'' \<noteq> None" using assms x Some by (auto simp: mature_block_eq split: if_splits)
    ultimately show thesis
      using assms x Some hr by (intro read [of d i c call r]) (auto simp: mature_block_eq split: if_splits)
  qed
qed

lemma block_result_set_content:
  assumes "block_result (JDict d) = Some (d, i, c)"
  shows "block_result (JDict (dict_set ''content'' (JStr t) d)) = Some (dict_set ''content'' (JStr t) d, i, t)"
proof -
  have "dict_get_default (dict_set ''content'' (JStr t) d) ''tool_use_id'' (JStr []) = dict_get_default d ''tool_use_id'' (JStr [])"
    by (simp add: dict_get_default_def dict_simps)
  with assms show ?thesis by (simp add: block_result_Some dict_simps)
qed

lemma bad_block_set_content: "bad_block (JDict (dict_set ''content'' v d)) = bad_block (JDict d)"
  by (simp add: bad_block_def dict_get_default_def dict_simps)

lemma mature_block_ids:
  assumes "mature_block sha rp clk cfg act b s = (s', Inr (b', ch, h))"
  shows "block_ids b' = block_ids b"
  using assms
proof (cases rule: mature_block_cases)
  case (read d i call c r)
  with block_result_set_content [of d i c] show ?thesis by (simp add: block_ids_def)
qed simp

lemma mature_block_frame:
  assumes "mature_block sha rp clk cfg act b s = (s', Inr (b', ch, h))"
  shows "\<And>j. j \<notin> set (block_ids b) \<Longrightarrow> dict_get (ms_matured s') j = dict_get (ms_matured s) j"
    and "mr_holding_msg_indices (ms_result s') = mr_holding_msg_indices (ms_result s)"
    and "mr_messages (ms_result s') = mr_messages (ms_result s)"
    and "\<not> ch \<Longrightarrow> b' = b"
proof -
  have "(\<forall>j. j \<notin> set (block_ids b) \<longrightarrow> dict_get (ms_matured s') j = dict_get (ms_matured s) j) \<and>
    mr_holding_msg_indices (ms_result s') = mr_holding_msg_indices (ms_result s) \<and>
    mr_messages (ms_result s') = mr_messages (ms_result s) \<and> (\<not> ch \<longrightarrow> b' = b)"
    using assms
  proof (cases rule: mature_block_cases)
    case (read d i call c r)
    have "jget d ''content'' = Some (JStr c)" using read(2) unfolding block_result_Some by blast
    then have "dict_set ''content'' (JStr c) d = d" by (rule dict_set_same)
    then have "\<not> ch \<longrightarrow> b' = b" using read(1,6,7) by simp
    moreover have "block_ids b = [i]" using read(2) by (simp add: block_ids_def)
    ultimately show ?thesis using handle_read_frame [OF read(5)] by simp
  qed simp
  then show "\<And>j. j \<notin> set (block_ids b) \<Longrightarrow> dict_get (ms_matured s') j = dict_get (ms_matured s) j"
    "mr_holding_msg_indices (ms_result s') = mr_holding_msg_indices (ms_result s)"
    "mr_messages (ms_result s') = mr_messages (ms_result s)" "\<not> ch \<Longrightarrow> b' = b" by blast+
qed

lemma mature_block_repeats:
  assumes "mature_block sha rp clk cfg act b s = (s', Inr (b', ch, False))"
    and "b2 = b \<or> b2 = b'" "same_calls act act' (block_ids b)" "same_markers s' s2 (block_ids b)"
  shows "\<exists>s2' ch2. mature_block sha rp clk' cfg act' b2 s2 = (s2', Inr (b', ch2, False)) \<and> ms_matured s2' = ms_matured s2"
  using assms(1)
proof (cases rule: mature_block_cases)
  case none
  then have "dict_get (ac_read_calls act') i = None" if "i \<in> set (block_ids b)" for i
    using assms(3) that by (auto simp: same_calls_def list_all_iff)
  moreover have "\<not> bad_block b" using assms(1) by (auto simp: mature_block_eq)
  ultimately have "mature_block sha rp clk' cfg act' b s2 = (s2, Inr (b, False, False))"
    by (cases "block_result b") (auto simp: mature_block_eq block_ids_def)
  then show ?thesis using assms(2) none by auto
next
  case (read d i call c r)
  let ?t = "text_after c r"
  have ok: "\<not> bad_block (JDict d)" using assms(1) read(1) by (auto simp: mature_block_eq)
  obtain call' where call': "dict_get (ac_read_calls act') i = Some call'"
    using assms(3) read(2,4) by (auto simp: same_calls_def block_ids_def)
  have "settled_form cfg (ms_matured s') i c = Some ?t" using handle_read_settles read(5) by simp
  then have form: "settled_form cfg (ms_matured s2) i c = Some ?t"
    using assms(4) read(2) by (simp add: same_markers_def block_ids_def settled_form_def)
  obtain c2 where b2: "b2 = JDict (dict_set ''content'' (JStr c2) d)" and c2: "c2 = c \<or> c2 = ?t"
  proof -
    have "jget d ''content'' = Some (JStr c)" using read(2) unfolding block_result_Some by blast
    then have "b = JDict (dict_set ''content'' (JStr c) d)" using read(1) by (simp add: dict_set_same)
    then show thesis using assms(2) read(7) that by blast
  qed
  obtain s2' r2 where r2: "handle_read sha rp clk' cfg act' i call' c2 s2 = (s2', r2, False)" "text_after c2 r2 = ?t"
    "ms_matured s2' = ms_matured s2"
    using handle_read_repeats [OF form c2] by blast
  have "block_result b2 = Some (dict_set ''content'' (JStr c2) d, i, c2)"
    using block_result_set_content [of d i c c2] read(1,2) b2 by simp
  moreover have "\<not> bad_block b2" using ok b2 by (simp add: bad_block_set_content)
  moreover have "jget (dict_set ''content'' (JStr c2) d) ''tool_use_id'' \<noteq> None" using read(3) by (simp add: dict_simps)
  moreover have "dict_set ''content'' (JStr ?t) (dict_set ''content'' (JStr c2) d) = dict_set ''content'' (JStr ?t) d"
    by (rule dict_set_twice)
  ultimately have "mature_block sha rp clk' cfg act' b2 s2 = (s2', Inr (b', r2 \<noteq> None, False))"
    using call' r2 read(7) by (simp add: mature_block_eq)
  with r2(3) show ?thesis by blast
qed

lemma mature_block_grows: "mature_block sha rp clk cfg act b s = (s', Inr (b', ch, h)) \<Longrightarrow> grows s s'"
  by (erule mature_block_cases) (auto dest: handle_read_grows)

definition pass_frame :: "json list \<Rightarrow> mat_state \<Rightarrow> mat_state \<Rightarrow> bool" where
  "pass_frame ids s s' \<longleftrightarrow>
     (\<forall>j. j \<notin> set ids \<longrightarrow> dict_get (ms_matured s') j = dict_get (ms_matured s) j) \<and>
     mr_holding_msg_indices (ms_result s') = mr_holding_msg_indices (ms_result s) \<and>
     mr_messages (ms_result s') = mr_messages (ms_result s)"

lemma pass_frame_refl [simp]: "pass_frame ids s s"
  by (simp add: pass_frame_def)

lemma pass_frame_trans: "pass_frame ids s s1 \<Longrightarrow> pass_frame ids' s1 s' \<Longrightarrow> pass_frame (ids @ ids') s s'"
  by (simp add: pass_frame_def)

lemma block_frame: "mature_block sha rp clk cfg act b s = (s', Inr (b', ch, h)) \<Longrightarrow> pass_frame (block_ids b) s s'"
  using mature_block_frame [of sha rp clk cfg act b s s' b' ch h] by (simp add: pass_frame_def)

lemma mature_blocks_Cons:
  assumes "mature_blocks sha rp clk cfg act (b # bs) s = (s', Inr (bs', ch, h))"
  obtains s1 b' ch1 h1 bs1 ch2 h2 where "mature_block sha rp clk cfg act b s = (s1, Inr (b', ch1, h1))"
    "mature_blocks sha rp clk cfg act bs s1 = (s', Inr (bs1, ch2, h2))" "bs' = b' # bs1" "ch = (ch1 \<or> ch2)" "h = (h1 \<or> h2)"
  using assms by (auto split: prod.splits sum.splits)

lemma mature_blocks_grows: "mature_blocks sha rp clk cfg act bs s = (s', Inr (bs', ch, h)) \<Longrightarrow> grows s s'"
proof (induction bs arbitrary: s bs' ch h)
  case (Cons b bs)
  from Cons.prems show ?case
    by (rule mature_blocks_Cons) (use Cons.IH mature_block_grows grows_trans in blast)
qed simp

lemma mature_blocks_facts:
  "mature_blocks sha rp clk cfg act bs s = (s', Inr (bs', ch, h)) \<Longrightarrow>
     pass_frame (concat (map block_ids bs)) s s' \<and> map block_ids bs' = map block_ids bs \<and> (\<not> ch \<longrightarrow> bs' = bs)"
proof (induction bs arbitrary: s bs' ch h)
  case (Cons b bs)
  from Cons.prems obtain s1 b' ch1 h1 bs1 ch2 h2 where b: "mature_block sha rp clk cfg act b s = (s1, Inr (b', ch1, h1))"
    and bs: "mature_blocks sha rp clk cfg act bs s1 = (s', Inr (bs1, ch2, h2))" and r: "bs' = b' # bs1" "ch = (ch1 \<or> ch2)"
    by (rule mature_blocks_Cons)
  have "pass_frame (block_ids b @ concat (map block_ids bs)) s s'"
    using pass_frame_trans [OF block_frame [OF b]] Cons.IH [OF bs] by blast
  then show ?case using Cons.IH [OF bs] mature_block_ids [OF b] mature_block_frame(4) [OF b] r by auto
qed simp

lemma same_markers_frame:
  "same_markers s' s2 ids \<Longrightarrow> pass_frame ids' s1 s' \<Longrightarrow> set ids \<inter> set ids' = {} \<Longrightarrow> same_markers s1 s2 ids"
  by (auto simp: same_markers_def pass_frame_def list_all_iff)

lemma mature_blocks_repeats:
  assumes "mature_blocks sha rp clk cfg act bs s = (s', Inr (bs', ch, False))" "distinct (concat (map block_ids bs))"
    "same_calls act act' (concat (map block_ids bs))" "same_markers s' s2 (concat (map block_ids bs))"
    "list_all2 (\<lambda>b2 x. b2 = fst x \<or> b2 = snd x) bs2 (zip bs bs')"
  shows "\<exists>s2' ch2. mature_blocks sha rp clk' cfg act' bs2 s2 = (s2', Inr (bs', ch2, False)) \<and> ms_matured s2' = ms_matured s2"
  using assms
proof (induction bs arbitrary: s bs' ch s2 bs2)
  case (Cons b bs)
  from Cons.prems(1) obtain s1 b' ch1 h1 bs1 ch2 h2 where b: "mature_block sha rp clk cfg act b s = (s1, Inr (b', ch1, h1))"
    and bs: "mature_blocks sha rp clk cfg act bs s1 = (s', Inr (bs1, ch2, h2))"
    and r: "bs' = b' # bs1" "ch = (ch1 \<or> ch2)" "False = (h1 \<or> h2)"
    by (rule mature_blocks_Cons)
  obtain b2 bs3 where b2: "bs2 = b2 # bs3" "b2 = b \<or> b2 = b'" "list_all2 (\<lambda>b2 x. b2 = fst x \<or> b2 = snd x) bs3 (zip bs bs1)"
    using Cons.prems(5) r(1) by (auto simp: list_all2_Cons2)
  have calls: "same_calls act act' (block_ids b)" "same_calls act act' (concat (map block_ids bs))"
    using Cons.prems(3) by (simp_all add: same_calls_def)
  have markers: "same_markers s' s2 (block_ids b)" "same_markers s' s2 (concat (map block_ids bs))"
    using Cons.prems(4) by (simp_all add: same_markers_def)
  have "same_markers s1 s2 (block_ids b)"
    using same_markers_frame [OF markers(1)] mature_blocks_facts [OF bs] Cons.prems(2) by auto
  moreover have b': "mature_block sha rp clk cfg act b s = (s1, Inr (b', ch1, False))"
    and bs': "mature_blocks sha rp clk cfg act bs s1 = (s', Inr (bs1, ch2, False))" using b bs r(3) by simp_all
  ultimately obtain s3 ch3
    where s3: "mature_block sha rp clk' cfg act' b2 s2 = (s3, Inr (b', ch3, False))" "ms_matured s3 = ms_matured s2"
    using mature_block_repeats [OF b' b2(2) calls(1)] by blast
  have m3: "same_markers s' s3 (concat (map block_ids bs))" using markers(2) s3(2) by (simp add: same_markers_def)
  have d: "distinct (concat (map block_ids bs))" using Cons.prems(2) by simp
  from Cons.IH [OF bs' d calls(2) m3 b2(3)] obtain s4 ch4
    where s4: "mature_blocks sha rp clk' cfg act' bs3 s3 = (s4, Inr (bs1, ch4, False))" "ms_matured s4 = ms_matured s3" by blast
  show ?case using s3 s4 b2(1) r(1) by simp
next
  case Nil
  then show ?case by (auto intro: exI [of _ False])
qed

lemma mature_message_cases:
  assumes "mature_message sha rp clk cfg act msg s = (s', Inr (msg', ch, h))"
  obtains (none) "s' = s" "msg' = msg" "\<not> ch" "\<not> h" "\<forall>i\<in>set (result_ids msg). dict_get (ac_read_calls act) i = None"
      "\<And>act' s2 clk'. \<forall>i\<in>set (result_ids msg). dict_get (ac_read_calls act') i = None \<Longrightarrow>
         mature_message sha rp clk' cfg act' msg s2 = (s2, Inr (msg, False, False))"
  | (tool) i call c r where "dict_get_default msg ''role'' (JStr []) = JStr ''tool''" "i = dict_get_default msg ''tool_call_id'' (JStr [])"
      "hashable i" "dict_get_default msg ''content'' (JStr []) = JStr c" "dict_get (ac_read_calls act) i = Some call"
      "handle_read sha rp clk cfg act i call c s = (s', r, h)" "ch = (r \<noteq> None)"
      "msg' = (if r = None then msg else dict_set ''content'' (JStr (text_after c r)) msg)"
  | (blocks) bs bs' where "dict_get_default msg ''role'' (JStr []) \<noteq> JStr ''tool''" "jget msg ''content'' = Some (JList bs)"
      "mature_blocks sha rp clk cfg act bs s = (s', Inr (bs', ch, h))" "msg' = dict_set ''content'' (JList bs') msg"
proof (cases "dict_get_default msg ''role'' (JStr []) = JStr ''tool''")
  case True
  let ?i = "dict_get_default msg ''tool_call_id'' (JStr [])"
  have hash: "hashable ?i" using assms True by (auto simp: mature_message_def Let_def split: if_splits)
  show thesis
  proof (cases "dict_get_default msg ''content'' (JStr [])")
    case (JStr c)
    show thesis
    proof (cases "dict_get (ac_read_calls act) ?i")
      case None
      with assms True hash JStr show thesis by (intro none) (simp_all add: mature_message_def result_ids_def Let_def)
    next
      case (Some call)
      obtain s1 r h1 where hr: "handle_read sha rp clk cfg act ?i call c s = (s1, r, h1)" by (cases "handle_read sha rp clk cfg act ?i call c s")
      with assms True hash JStr Some show thesis
        by (intro tool [of ?i c call r]) (cases r; simp add: mature_message_def Let_def)+
    qed
  qed (use assms True hash in \<open>intro none; simp add: mature_message_def result_ids_def Let_def split: option.splits\<close>)+
next
  case False
  show thesis
  proof (cases "dict_get_default msg ''content'' (JStr [])")
    case (JList bs)
    then have c: "jget msg ''content'' = Some (JList bs)" by (auto simp: dict_get_default_def split: option.splits)
    obtain s1 bs' ch1 h1 where bs: "mature_blocks sha rp clk cfg act bs s = (s1, Inr (bs', ch1, h1))"
      using assms False JList by (auto simp: mature_message_def split: prod.splits sum.splits)
    with assms False JList c show thesis
      using mature_blocks_facts [OF bs] dict_set_same [OF c]
      by (intro blocks [of bs bs']) (auto simp: mature_message_def split: if_splits)
  qed (use assms False in \<open>intro none; simp add: mature_message_def result_ids_def\<close>)+
qed

lemma mature_message_facts:
  assumes "mature_message sha rp clk cfg act msg s = (s', Inr (msg', ch, h))"
  shows "pass_frame (result_ids msg) s s'" "result_ids msg' = result_ids msg" "\<not> ch \<Longrightarrow> msg' = msg"
proof -
  have "pass_frame (result_ids msg) s s' \<and> result_ids msg' = result_ids msg \<and> (\<not> ch \<longrightarrow> msg' = msg)"
    using assms
  proof (cases rule: mature_message_cases)
    case (tool i call c r)
    have "result_ids msg = [i]" using tool(1,2,4) by (simp add: result_ids_def)
    moreover have "result_ids (dict_set ''content'' (JStr t) msg) = [i]" for t
      using tool(1,2) by (simp add: result_ids_def dict_get_default_def dict_simps)
    moreover have "pass_frame [i] s s'" using handle_read_frame [OF tool(6)] by (simp add: pass_frame_def)
    ultimately show ?thesis using tool(7,8) by simp
  next
    case (blocks bs bs')
    have "result_ids msg = concat (map block_ids bs)" using blocks(1,2) by (simp add: result_ids_def dict_get_default_def)
    moreover have "result_ids (dict_set ''content'' (JList bs') msg) = concat (map block_ids bs')"
      using blocks(1) by (simp add: result_ids_def dict_get_default_def dict_simps)
    ultimately show ?thesis using mature_blocks_facts [OF blocks(3)] dict_set_same [OF blocks(2)] blocks(4) by auto
  qed simp
  then show "pass_frame (result_ids msg) s s'" "result_ids msg' = result_ids msg" "\<not> ch \<Longrightarrow> msg' = msg" by blast+
qed

lemma mature_message_grows: "mature_message sha rp clk cfg act msg s = (s', Inr (msg', ch, h)) \<Longrightarrow> grows s s'"
  by (erule mature_message_cases) (auto dest: handle_read_grows mature_blocks_grows)

lemma mature_message_repeats:
  assumes "mature_message sha rp clk cfg act msg s = (s', Inr (msg', ch, False))"
    and m2: "msg2 = msg \<or> msg2 = msg'" and "distinct (result_ids msg)"
    and "same_calls act act' (result_ids msg)" "same_markers s' s2 (result_ids msg)"
  shows "\<exists>s2' ch2. mature_message sha rp clk' cfg act' msg2 s2 = (s2', Inr (msg', ch2, False)) \<and> ms_matured s2' = ms_matured s2"
  using assms(1)
proof (cases rule: mature_message_cases)
  case none
  then have "\<forall>i\<in>set (result_ids msg). dict_get (ac_read_calls act') i = None"
    using assms(4) by (auto simp: same_calls_def list_all_iff)
  from none(6) [OF this] show ?thesis using m2 none by auto
next
  case (tool i call c r)
  let ?t = "text_after c r"
  have ids: "result_ids msg = [i]" using tool(1,2,4) by (simp add: result_ids_def)
  obtain call' where call': "dict_get (ac_read_calls act') i = Some call'"
    using assms(4) tool(5) ids by (auto simp: same_calls_def)
  have form: "settled_form cfg (ms_matured s2) i c = Some ?t"
    using handle_read_settles [of sha rp clk cfg act i call c s s' r] tool(6) assms(5) ids by (simp add: same_markers_def settled_form_def)
  obtain c2 where c2: "c2 = c \<or> c2 = ?t" "dict_get_default msg2 ''content'' (JStr []) = JStr c2"
    using m2 tool(4,8) by (cases "r = None") (auto simp: dict_get_default_def dict_simps)
  have same: "dict_get_default msg2 ''role'' (JStr []) = JStr ''tool''" "dict_get_default msg2 ''tool_call_id'' (JStr []) = i"
    using m2 tool(1,2,8) by (auto simp: dict_get_default_def dict_simps)
  obtain s2' r2 where r2: "handle_read sha rp clk' cfg act' i call' c2 s2 = (s2', r2, False)" "text_after c2 r2 = ?t"
    "ms_matured s2' = ms_matured s2" "r2 = None \<longleftrightarrow> c2 = ?t"
    using handle_read_repeats [OF form c2(1)] by blast
  have "mature_message sha rp clk' cfg act' msg2 s2 =
    (s2', Inr (if r2 = None then msg2 else dict_set ''content'' (JStr ?t) msg2, r2 \<noteq> None, False))"
    using same c2(2) tool(3) call' r2 by (cases r2) (auto simp: mature_message_def)
  moreover have "(if r2 = None then msg2 else dict_set ''content'' (JStr ?t) msg2) = msg'"
  proof (cases "r = None")
    case True
    then show ?thesis using m2 c2 r2(4) tool(4,8) by auto
  next
    case False
    show ?thesis
    proof (cases "msg2 = msg'")
      case True
      then have "c2 = ?t" using c2(2) tool(8) False by (simp add: dict_get_default_def dict_simps)
      with True r2(4) show ?thesis by simp
    next
      case m: False
      then have "msg2 = msg" "c2 = c" using m2 c2(2) tool(4) by simp_all
      moreover have "dict_set ''content'' (JStr c) msg = msg" if "?t = c"
      proof -
        have "c \<noteq> []" using handle_read_nonempty [of sha rp clk cfg act i call c s s' False] tool(6) that False by auto
        then have "dict_get msg ''content'' = Some (JStr c)" using tool(4) by (auto simp: dict_get_default_def split: option.splits)
        then show ?thesis by (rule dict_set_same)
      qed
      ultimately show ?thesis using r2(4) tool(8) False by auto
    qed
  qed
  ultimately show ?thesis using r2(3) by auto
next
  case (blocks bs bs')
  have ids: "result_ids msg = concat (map block_ids bs)" using blocks(1,2) by (simp add: result_ids_def dict_get_default_def)
  obtain bs2 where bs2: "jget msg2 ''content'' = Some (JList bs2)" "bs2 = bs \<or> bs2 = bs'"
    using m2 blocks(2,4) by (auto simp: dict_simps)
  have len: "length bs' = length bs" using mature_blocks_facts [OF blocks(3)] by (metis length_map)
  then have "list_all2 (\<lambda>b2 x. b2 = fst x \<or> b2 = snd x) bs2 (zip bs bs')"
    using bs2(2) by (auto simp: list_all2_conv_all_nth)
  from mature_blocks_repeats [OF blocks(3) _ _ _ this, of act' s2 clk'] assms(3-5) ids obtain s2' ch2
    where r2: "mature_blocks sha rp clk' cfg act' bs2 s2 = (s2', Inr (bs', ch2, False))" "ms_matured s2' = ms_matured s2" by auto
  have role: "dict_get_default msg2 ''role'' (JStr []) \<noteq> JStr ''tool''"
    using m2 blocks(1,4) by (auto simp: dict_get_default_def dict_simps)
  have "mature_message sha rp clk' cfg act' msg2 s2 = (s2', Inr (if ch2 then dict_set ''content'' (JList bs') msg2 else msg2, ch2, False))"
    using role bs2(1) r2(1) by (simp add: mature_message_def dict_get_default_def)
  moreover have "(if ch2 then dict_set ''content'' (JList bs') msg2 else msg2) = dict_set ''content'' (JList bs') msg2"
    using mature_blocks_facts [OF r2(1)] bs2(1) by (auto simp: dict_set_same)
  moreover have "dict_set ''content'' (JList bs') msg2 = msg'" using m2 blocks(4) by (auto simp: dict_set_twice)
  ultimately show ?thesis using r2(2) by auto
qed

abbreviation all_ids :: "message list \<Rightarrow> json list" where
  "all_ids messages \<equiv> concat (map result_ids messages)"

text \<open>What one pass did at position \<open>k\<close>: the state before and after it, between which only the identifiers of the other
  positions may have changed.\<close>

definition pass_at ::
  "(string \<Rightarrow> string) \<Rightarrow> (json \<Rightarrow> string) \<Rightarrow> (nat \<Rightarrow> rat \<times> rat) \<Rightarrow> ReadMaturationConfig \<Rightarrow> Activity \<Rightarrow> message list \<Rightarrow> message list
     \<Rightarrow> mat_state \<Rightarrow> mat_state \<Rightarrow> nat \<Rightarrow> bool \<Rightarrow> bool" where
  "pass_at sha rp clk cfg act msgs outs s s' k h \<longleftrightarrow>
     (\<exists>sk sk' ch. mature_message sha rp clk cfg act (msgs ! k) sk = (sk', Inr (outs ! k, ch, h)) \<and>
        (\<forall>j. j \<notin> set (all_ids (take k msgs)) \<longrightarrow> dict_get (ms_matured sk) j = dict_get (ms_matured s) j) \<and> grows sk' s' \<and>
        (\<forall>j. j \<notin> set (all_ids (drop (Suc k) msgs)) \<longrightarrow> dict_get (ms_matured s') j = dict_get (ms_matured sk') j))"

lemma mature_messages_Cons:
  assumes "mature_messages sha rp clk cfg act frozen i (msg # msgs) s = (s', Inr (outs, ch))"
  obtains s1 msg' ch1 h1 outs1 ch2 where
    "(if int i < frozen then (s, Inr (msg, False, False)) else mature_message sha rp clk cfg act msg s) = (s1, Inr (msg', ch1, h1))"
    "mature_messages sha rp clk cfg act frozen (Suc i) msgs (note_holding i h1 s1) = (s', Inr (outs1, ch2))"
    "outs = msg' # outs1" "ch = (ch1 \<or> ch2)"
  using assms by (auto simp del: of_nat_Suc split: prod.splits sum.splits if_splits)

lemma mature_step_facts:
  assumes "(if frozen then (s, Inr (msg, False, False)) else mature_message sha rp clk cfg act msg s) = (s1, Inr (msg', ch1, h1))"
  shows "pass_frame (result_ids msg) s s1" "result_ids msg' = result_ids msg" "\<not> ch1 \<Longrightarrow> msg' = msg"
proof -
  have "pass_frame (result_ids msg) s s1 \<and> result_ids msg' = result_ids msg \<and> (\<not> ch1 \<longrightarrow> msg' = msg)"
  proof (cases frozen)
    case False
    with assms have m: "mature_message sha rp clk cfg act msg s = (s1, Inr (msg', ch1, h1))" by simp
    show ?thesis using mature_message_facts [OF m] by blast
  qed (use assms in simp)
  then show "pass_frame (result_ids msg) s s1" "result_ids msg' = result_ids msg" "\<not> ch1 \<Longrightarrow> msg' = msg" by blast+
qed

lemma mature_messages_grows:
  "mature_messages sha rp clk cfg act frozen i msgs s = (s', Inr (outs, ch)) \<Longrightarrow> grows s s'"
proof (induction msgs arbitrary: i s outs ch)
  case (Cons msg msgs)
  from Cons.prems show ?case
  proof (rule mature_messages_Cons)
    fix s1 msg' ch1 h1 outs1 ch2
    assume m: "(if int i < frozen then (s, Inr (msg, False, False)) else mature_message sha rp clk cfg act msg s) = (s1, Inr (msg', ch1, h1))"
      and ms: "mature_messages sha rp clk cfg act frozen (Suc i) msgs (note_holding i h1 s1) = (s', Inr (outs1, ch2))"
    have "grows s s1" using m mature_message_grows by (cases "int i < frozen") auto
    with Cons.IH [OF ms] show "grows s s'" using grows_trans by simp
  qed
qed simp

lemma mature_messages_facts:
  assumes "mature_messages sha rp clk cfg act frozen i msgs s = (s', Inr (outs, ch))"
  shows "map result_ids outs = map result_ids msgs \<and> (\<not> ch \<longrightarrow> outs = msgs) \<and> mr_messages (ms_result s') = mr_messages (ms_result s) \<and>
    (\<forall>j. j \<notin> set (all_ids msgs) \<longrightarrow> dict_get (ms_matured s') j = dict_get (ms_matured s) j)"
  using assms
proof (induction msgs arbitrary: i s outs ch)
  case (Cons msg msgs)
  from Cons.prems obtain s1 msg' ch1 h1 outs1 ch2 where
    m: "(if int i < frozen then (s, Inr (msg, False, False)) else mature_message sha rp clk cfg act msg s) = (s1, Inr (msg', ch1, h1))"
    and ms: "mature_messages sha rp clk cfg act frozen (Suc i) msgs (note_holding i h1 s1) = (s', Inr (outs1, ch2))"
    and r: "outs = msg' # outs1" "ch = (ch1 \<or> ch2)"
    by (rule mature_messages_Cons)
  show ?case using Cons.IH [OF ms] mature_step_facts [OF m] r by (auto simp: pass_frame_def)
qed simp

lemma mature_messages_positions:
  assumes "mature_messages sha rp clk cfg act frozen i msgs s = (s', Inr (outs, ch))"
  shows "\<exists>hs. mr_holding_msg_indices (ms_result s') = mr_holding_msg_indices (ms_result s) @ hs \<and> set hs \<subseteq> {i..<i + length msgs} \<and>
    (\<forall>k<length msgs. if int (i + k) < frozen then outs ! k = msgs ! k \<and> i + k \<notin> set hs
       else pass_at sha rp clk cfg act msgs outs s s' k (i + k \<in> set hs))"
  using assms
proof (induction msgs arbitrary: i s outs ch)
  case (Cons msg msgs)
  from Cons.prems obtain s1 msg' ch1 h1 outs1 ch2 where
    m: "(if int i < frozen then (s, Inr (msg, False, False)) else mature_message sha rp clk cfg act msg s) = (s1, Inr (msg', ch1, h1))"
    and ms: "mature_messages sha rp clk cfg act frozen (Suc i) msgs (note_holding i h1 s1) = (s', Inr (outs1, ch2))"
    and r: "outs = msg' # outs1" "ch = (ch1 \<or> ch2)"
    by (rule mature_messages_Cons)
  from Cons.IH [OF ms] obtain hs where hs: "mr_holding_msg_indices (ms_result s') = mr_holding_msg_indices (ms_result (note_holding i h1 s1)) @ hs"
      "set hs \<subseteq> {Suc i..<Suc i + length msgs}"
    and at: "\<And>k. k < length msgs \<Longrightarrow> if int (Suc i + k) < frozen then outs1 ! k = msgs ! k \<and> Suc i + k \<notin> set hs
       else pass_at sha rp clk cfg act msgs outs1 (note_holding i h1 s1) s' k (Suc i + k \<in> set hs)"
    by blast
  note fr = mature_step_facts(1) [OF m]
  let ?hs = "(if h1 then [i] else []) @ hs"
  have "mr_holding_msg_indices (ms_result s') = mr_holding_msg_indices (ms_result s) @ ?hs"
    using hs(1) fr by (simp add: pass_frame_def)
  moreover have "set ?hs \<subseteq> {i..<i + length (msg # msgs)}" using hs(2) by auto
  moreover have "if int (i + k) < frozen then outs ! k = (msg # msgs) ! k \<and> i + k \<notin> set ?hs
       else pass_at sha rp clk cfg act (msg # msgs) outs s s' k (i + k \<in> set ?hs)" if k: "k < length (msg # msgs)" for k
  proof (cases k)
    case 0
    have i: "i \<in> set ?hs \<longleftrightarrow> h1" using hs(2) by auto
    have "dict_get (ms_matured s') j = dict_get (ms_matured s1) j" if "j \<notin> set (all_ids msgs)" for j
      using mature_messages_facts [OF ms] that by simp
    then show ?thesis
      using m r(1) i 0 mature_messages_grows [OF ms] by (cases "int i < frozen") (auto simp: pass_at_def)
  next
    case (Suc k')
    have i: "i + k \<in> set ?hs \<longleftrightarrow> Suc i + k' \<in> set hs" using Suc by auto
    show ?thesis
    proof (cases "int (i + k) < frozen")
      case True
      with at [of k'] k Suc r i show ?thesis by simp
    next
      case False
      then have "pass_at sha rp clk cfg act msgs outs1 (note_holding i h1 s1) s' k' (Suc i + k' \<in> set hs)"
        using at [of k'] k Suc by simp
      then obtain sk sk' c where sk: "mature_message sha rp clk cfg act (msgs ! k') sk = (sk', Inr (outs1 ! k', c, Suc i + k' \<in> set hs))"
        "\<And>j. j \<notin> set (all_ids (take k' msgs)) \<Longrightarrow> dict_get (ms_matured sk) j = dict_get (ms_matured s1) j"
        "\<And>j. j \<notin> set (all_ids (drop (Suc k') msgs)) \<Longrightarrow> dict_get (ms_matured s') j = dict_get (ms_matured sk') j" "grows sk' s'"
        unfolding pass_at_def by auto
      have "dict_get (ms_matured sk) j = dict_get (ms_matured s) j" if "j \<notin> set (all_ids (take k (msg # msgs)))" for j
        using sk(2) [of j] fr that Suc by (simp add: pass_frame_def)
      then have "pass_at sha rp clk cfg act (msg # msgs) outs s s' k (Suc i + k' \<in> set hs)"
        unfolding pass_at_def using sk(1,3,4) Suc r(1) by (intro exI [of _ sk] exI [of _ sk'] exI [of _ c]) simp
      with False i show ?thesis by simp
    qed
  qed
  ultimately show ?case by blast
qed simp

section \<open>Sessions\<close>

text \<open>
  The turns of a session. The store and the clock are whatever they are at each turn; only the manager carries over.
  A turn continues the one before when it repeats every message, in the form the client sent or the form that was
  forwarded (the latter throughout its frozen prefix), new tool calls and results have new identifiers, and the frozen prefix does not shrink.
\<close>

record mat_turn =
  mt_messages :: "message list"
  mt_frozen :: int
  mt_store :: "ccr_store option"
  mt_clock :: "nat \<Rightarrow> rat \<times> rat"

fun maturation_run ::
  "json_loads \<Rightarrow> (string \<Rightarrow> string) \<Rightarrow> (json \<Rightarrow> string) \<Rightarrow> mat_turn list \<Rightarrow> ReadMaturationManager \<Rightarrow> py_error + MaturationResult list" where
  "maturation_run loads sha rp [] mgr = Inr []"
| "maturation_run loads sha rp (tn # tns) mgr =
     (case apply_maturation loads sha rp (mt_clock tn) (mt_messages tn) (mt_frozen tn) (mt_store tn) mgr of
        (mgr', st', r) \<Rightarrow> and_then r (\<lambda>r. and_then (maturation_run loads sha rp tns mgr') (\<lambda>rs. Inr (r # rs))))"

definition mat_continues :: "json_loads \<Rightarrow> mat_turn \<times> MaturationResult \<Rightarrow> mat_turn \<times> MaturationResult \<Rightarrow> bool" where
  "mat_continues loads x y \<longleftrightarrow>
     (case (x, y) of ((tn, r), (tn', r')) \<Rightarrow>
        length (mt_messages tn) \<le> length (mt_messages tn') \<and> mt_frozen tn \<le> mt_frozen tn' \<and>
        list_all (\<lambda>k. mt_messages tn' ! k = mr_messages r ! k \<or> mt_messages tn' ! k = mt_messages tn ! k \<and> mt_frozen tn' \<le> int k)
          [0..<length (mt_messages tn)] \<and>
        distinct (all_ids (mt_messages tn')) \<and>
        (case (scan_activity loads (mt_messages tn), scan_activity loads (mt_messages tn')) of
           (Inr act, Inr act') \<Rightarrow> same_calls act act' (all_ids (mt_messages tn))
         | _ \<Rightarrow> False))"

text \<open>The messages before the first held one: all that the provider may cache.\<close>

definition settled_prefix :: "MaturationResult \<Rightarrow> message list" where
  "settled_prefix r = take (fold min (mr_holding_msg_indices r) (length (mr_messages r))) (mr_messages r)"

lemma fold_min_le: "(k::nat) < fold min xs n \<longleftrightarrow> k < n \<and> (\<forall>x\<in>set xs. k < x)"
  by (induction xs arbitrary: n) auto

lemma settled_prefix_nth:
  "k < length (settled_prefix r) \<longleftrightarrow> k < length (mr_messages r) \<and> (\<forall>x\<in>set (mr_holding_msg_indices r). k < x)"
proof -
  have "fold min xs n \<le> n" for xs and n :: nat by (induction xs arbitrary: n) (simp_all, meson min.cobounded2 order_trans)
  then have "length (settled_prefix r) = fold min (mr_holding_msg_indices r) (length (mr_messages r))"
    by (simp add: settled_prefix_def min_absorb2)
  then show ?thesis by (simp add: fold_min_le)
qed

lemma apply_maturation_run:
  assumes "apply_maturation loads sha rp clk messages frozen st mgr = (mgr', st', Inr r)" "mc_enabled (rm_config mgr)"
  obtains act s ch where "scan_activity loads messages = Inr act"
    "mature_messages sha rp clk (rm_config mgr) act frozen 0 messages
       \<lparr>ms_matured = rm_matured mgr, ms_store = st, ms_result = maturation_result_init messages\<rparr> = (s, Inr (mr_messages r, ch))"
    "mgr' = mgr\<lparr>rm_matured := ms_matured s\<rparr>" "st' = ms_store s" "mr_holding_msg_indices r = mr_holding_msg_indices (ms_result s)"
    "r = (ms_result s)\<lparr>mr_messages := mr_messages r\<rparr>"
proof -
  let ?s = "\<lparr>ms_matured = rm_matured mgr, ms_store = st, ms_result = maturation_result_init messages\<rparr>"
  obtain act where act: "scan_activity loads messages = Inr act" using assms by (auto simp: apply_maturation_def split: sum.splits)
  obtain s out ch where run: "mature_messages sha rp clk (rm_config mgr) act frozen 0 messages ?s = (s, Inr (out, ch))"
    using assms act by (auto simp: apply_maturation_def split: prod.splits sum.splits)
  have "mr_messages (ms_result s) = messages" "\<not> ch \<Longrightarrow> out = messages"
    using mature_messages_facts [OF run] by (simp_all add: maturation_result_init_def)
  then have "r = (ms_result s)\<lparr>mr_messages := out\<rparr>" "mgr' = mgr\<lparr>rm_matured := ms_matured s\<rparr>" "st' = ms_store s"
    using assms act run by (auto simp: apply_maturation_def split: if_splits)
  then show thesis using that [of act s ch] act run by simp
qed

lemma concat_split_disjoint:
  assumes "distinct (concat L)" "k < length L"
  shows "distinct (L ! k)" "set (L ! k) \<inter> set (concat (take k L)) = {}" "set (L ! k) \<inter> set (concat (drop (Suc k) L)) = {}"
proof -
  have "distinct (concat (take k L @ L ! k # drop (Suc k) L))" using assms id_take_nth_drop [of k L] by simp
  then show "distinct (L ! k)" "set (L ! k) \<inter> set (concat (take k L)) = {}" "set (L ! k) \<inter> set (concat (drop (Suc k) L)) = {}"
    by auto
qed

lemma repeated_ids:
  assumes eq: "\<And>j. j < length m \<Longrightarrow> result_ids (m' ! j) = result_ids (m ! j)" and len: "length m \<le> length m'"
    and dist: "distinct (all_ids m')" and k: "k < length m"
  shows "distinct (result_ids (m ! k))" "set (result_ids (m ! k)) \<inter> set (all_ids (take k m')) = {}"
    "set (result_ids (m ! k)) \<inter> set (all_ids (drop (Suc k) m)) = {}"
proof -
  let ?L = "map result_ids m'"
  have L: "?L ! k = result_ids (m ! k)" "k < length ?L" using eq [OF k] k len by simp_all
  note d = concat_split_disjoint [OF dist L(2), unfolded L(1)]
  have "map result_ids m = take (length m) ?L" using eq len by (intro nth_equalityI) (auto simp: min_def)
  then have "map result_ids (drop (Suc k) m) = take (length m - Suc k) (drop (Suc k) ?L)"
    unfolding drop_map [symmetric] by (simp add: drop_take)
  then have "set (map result_ids (drop (Suc k) m)) \<subseteq> set (drop (Suc k) ?L)" by (metis set_take_subset)
  then have "set (all_ids (drop (Suc k) m)) \<subseteq> set (concat (drop (Suc k) ?L))" by auto
  with d(3) show "set (result_ids (m ! k)) \<inter> set (all_ids (drop (Suc k) m)) = {}" by blast
  show "distinct (result_ids (m ! k))" by (rule d(1))
  show "set (result_ids (m ! k)) \<inter> set (all_ids (take k m')) = {}" using d(2) by (simp only: take_map)
qed

lemma settled_step:
  assumes a1: "apply_maturation loads sha rp (mt_clock tn) (mt_messages tn) (mt_frozen tn) st mgr = (mgr1, st1, Inr r)"
    and a2: "apply_maturation loads sha rp (mt_clock tn') (mt_messages tn') (mt_frozen tn') st' mgr1 = (mgr2, st2, Inr r')"
    and en: "mc_enabled (rm_config mgr)" and c: "mat_continues loads (tn, r) (tn', r')" and k: "k < length (settled_prefix r)"
  shows "mr_messages r' ! k = mr_messages r ! k \<and> k \<notin> set (mr_holding_msg_indices r')"
proof -
  let ?m = "mt_messages tn" and ?m' = "mt_messages tn'"
  obtain act s ch where act: "scan_activity loads ?m = Inr act"
    and run: "mature_messages sha rp (mt_clock tn) (rm_config mgr) act (mt_frozen tn) 0 ?m
       \<lparr>ms_matured = rm_matured mgr, ms_store = st, ms_result = maturation_result_init ?m\<rparr> = (s, Inr (mr_messages r, ch))"
    and mgr1: "mgr1 = mgr\<lparr>rm_matured := ms_matured s\<rparr>" and hold: "mr_holding_msg_indices r = mr_holding_msg_indices (ms_result s)"
    using apply_maturation_run [OF a1 en] by metis
  let ?s' = "\<lparr>ms_matured = ms_matured s, ms_store = st', ms_result = maturation_result_init ?m'\<rparr>"
  obtain act' s2 ch' where act': "scan_activity loads ?m' = Inr act'"
    and run': "mature_messages sha rp (mt_clock tn') (rm_config mgr) act' (mt_frozen tn') 0 ?m' ?s' = (s2, Inr (mr_messages r', ch'))"
    and hold': "mr_holding_msg_indices r' = mr_holding_msg_indices (ms_result s2)"
  proof (rule apply_maturation_run [OF a2])
    show "mc_enabled (rm_config mgr1)" using en mgr1 by simp
  qed (simp add: mgr1)
  have same: "map result_ids (mr_messages r) = map result_ids ?m" using mature_messages_facts [OF run] by blast
  then have len: "length (mr_messages r) = length ?m" by (metis length_map)
  have kl: "k < length ?m" "k < length ?m'" and free: "k \<notin> set (mr_holding_msg_indices r)"
    using k c len by (auto simp: settled_prefix_nth mat_continues_def)
  have at: "if int k < mt_frozen tn then mr_messages r ! k = ?m ! k
    else pass_at sha rp (mt_clock tn) (rm_config mgr) act ?m (mr_messages r)
      \<lparr>ms_matured = rm_matured mgr, ms_store = st, ms_result = maturation_result_init ?m\<rparr> s k False"
    using mature_messages_positions [OF run] kl(1) free hold by (auto simp: maturation_result_init_def split: if_splits)
  have at': "if int k < mt_frozen tn' then mr_messages r' ! k = ?m' ! k \<and> k \<notin> set (mr_holding_msg_indices r')
    else pass_at sha rp (mt_clock tn') (rm_config mgr) act' ?m' (mr_messages r') ?s' s2 k (k \<in> set (mr_holding_msg_indices r'))"
    using mature_messages_positions [OF run'] kl(2) hold' by (auto simp: maturation_result_init_def split: if_splits)
  have rep: "?m' ! j = mr_messages r ! j \<or> ?m' ! j = ?m ! j \<and> mt_frozen tn' \<le> int j" if "j < length ?m" for j
    using c that by (auto simp: mat_continues_def list_all_iff)
  have fr: "mt_frozen tn \<le> mt_frozen tn'" using c by (simp add: mat_continues_def)
  show ?thesis
  proof (cases "int k < mt_frozen tn'")
    case True
    then show ?thesis using at' rep [OF kl(1)] by auto
  next
    case False
    let ?ids = "result_ids (?m ! k)"
    from False fr at obtain sk sk' c1 where
      p: "mature_message sha rp (mt_clock tn) (rm_config mgr) act (?m ! k) sk = (sk', Inr (mr_messages r ! k, c1, False))"
      "\<And>j. j \<notin> set (all_ids (drop (Suc k) ?m)) \<Longrightarrow> dict_get (ms_matured s) j = dict_get (ms_matured sk') j"
      by (auto simp: pass_at_def split: if_splits)
    from False at' obtain sk2 sk2' c2 where
      p': "mature_message sha rp (mt_clock tn') (rm_config mgr) act' (?m' ! k) sk2 =
        (sk2', Inr (mr_messages r' ! k, c2, k \<in> set (mr_holding_msg_indices r')))"
      "\<And>j. j \<notin> set (all_ids (take k ?m')) \<Longrightarrow> dict_get (ms_matured sk2) j = dict_get (ms_matured s) j"
      by (auto simp: pass_at_def split: if_splits)
    have eq: "result_ids (?m' ! j) = result_ids (?m ! j)" if "j < length ?m" for j
      using rep [OF that] same that len by (metis nth_map)
    have l: "length ?m \<le> length ?m'" and dist: "distinct (all_ids ?m')" using c by (simp_all add: mat_continues_def)
    note d = repeated_ids [OF eq l dist kl(1)]
    have "dict_get (ms_matured sk') i = dict_get (ms_matured sk2) i" if "i \<in> set ?ids" for i
    proof -
      have "i \<notin> set (all_ids (drop (Suc k) ?m))" "i \<notin> set (all_ids (take k ?m'))" using d(2,3) that by blast+
      then show ?thesis using p(2) [of i] p'(2) [of i] by (simp only: simp_thms)
    qed
    then have "same_markers sk' sk2 ?ids" by (simp add: same_markers_def list_all_iff)
    moreover have "same_calls act act' ?ids"
      using c act act' kl(1) by (auto simp: mat_continues_def same_calls_def list_all_iff)
    moreover note d(1)
    moreover have "?m' ! k = ?m ! k \<or> ?m' ! k = mr_messages r ! k" using rep [OF kl(1)] by blast
    ultimately have "\<exists>s2' ch2. mature_message sha rp (mt_clock tn') (rm_config mgr) act' (?m' ! k) sk2 = (s2', Inr (mr_messages r ! k, ch2, False))"
      using mature_message_repeats [OF p(1)] by blast
    then show ?thesis using p'(1) by auto
  qed
qed

lemma length_maturation:
  assumes "apply_maturation loads sha rp clk messages frozen st mgr = (mgr', st', Inr r)" "mc_enabled (rm_config mgr)"
  shows "length (mr_messages r) = length messages" "rm_config mgr' = rm_config mgr"
proof -
  obtain act s ch where "mature_messages sha rp clk (rm_config mgr) act frozen 0 messages
       \<lparr>ms_matured = rm_matured mgr, ms_store = st, ms_result = maturation_result_init messages\<rparr> = (s, Inr (mr_messages r, ch))"
    and "mgr' = mgr\<lparr>rm_matured := ms_matured s\<rparr>"
    using apply_maturation_run [OF assms] by metis
  then show "length (mr_messages r) = length messages" "rm_config mgr' = rm_config mgr"
    using mature_messages_facts by (metis length_map, simp)
qed

lemma settled_prefix_step:
  assumes a1: "apply_maturation loads sha rp (mt_clock tn) (mt_messages tn) (mt_frozen tn) st mgr = (mgr1, st1, Inr r)"
    and a2: "apply_maturation loads sha rp (mt_clock tn') (mt_messages tn') (mt_frozen tn') st' mgr1 = (mgr2, st2, Inr r')"
    and en: "mc_enabled (rm_config mgr)" and c: "mat_continues loads (tn, r) (tn', r')"
  shows "prefix (settled_prefix r) (settled_prefix r')"
proof -
  note step = settled_step [OF a1 a2 en c]
  have len: "length (mr_messages r) \<le> length (mr_messages r')"
    using length_maturation [OF a1 en] length_maturation [OF a2] en c by (simp add: mat_continues_def)
  have in': "k < length (settled_prefix r')" if k: "k < length (settled_prefix r)" for k
  proof -
    have "k < x" if x: "x \<in> set (mr_holding_msg_indices r')" for x
    proof (rule ccontr)
      assume "\<not> k < x"
      with k have "x < length (settled_prefix r)" by simp
      from step [OF this] x show False by blast
    qed
    moreover have "k < length (mr_messages r')" using k len by (simp add: settled_prefix_nth)
    ultimately show ?thesis by (simp add: settled_prefix_nth)
  qed
  then have l: "length (settled_prefix r) \<le> length (settled_prefix r')" by (meson not_le less_irrefl)
  have "settled_prefix r = take (length (settled_prefix r)) (settled_prefix r')"
  proof (rule nth_equalityI)
    fix k assume k: "k < length (settled_prefix r)"
    then show "settled_prefix r ! k = take (length (settled_prefix r)) (settled_prefix r') ! k"
      using step [OF k] in' [OF k] by (simp add: settled_prefix_def)
  qed (use l in simp)
  then show ?thesis by (metis take_is_prefix)
qed

lemma maturation_run_prefixes:
  assumes "maturation_run loads sha rp tns mgr = Inr rs" "mc_enabled (rm_config mgr)"
    and "successively (mat_continues loads) (zip tns rs)"
  shows "successively (\<lambda>r r'. prefix (settled_prefix r) (settled_prefix r')) rs"
  using assms
proof (induction tns arbitrary: mgr rs)
  case (Cons tn tns)
  obtain mgr1 st1 r rs1 where a1: "apply_maturation loads sha rp (mt_clock tn) (mt_messages tn) (mt_frozen tn) (mt_store tn) mgr = (mgr1, st1, Inr r)"
    and rest: "maturation_run loads sha rp tns mgr1 = Inr rs1" "rs = r # rs1"
    using Cons.prems(1) by (auto simp: and_then_Inr_iff split: prod.splits)
  note en = length_maturation(2) [OF a1 Cons.prems(2)]
  show ?case
  proof (cases tns)
    case Nil
    with rest show ?thesis by auto
  next
    case tns: (Cons tn' tns')
    obtain mgr2 st2 r' rs2 where a2: "apply_maturation loads sha rp (mt_clock tn') (mt_messages tn') (mt_frozen tn') (mt_store tn') mgr1 = (mgr2, st2, Inr r')"
      and rs: "rs1 = r' # rs2"
      using rest(1) tns by (auto simp: and_then_Inr_iff split: prod.splits)
    have c: "mat_continues loads (tn, r) (tn', r')" "successively (mat_continues loads) (zip tns rs1)"
      using Cons.prems(3) tns rs rest(2) by simp_all
    from Cons.IH [OF rest(1) _ c(2)] en Cons.prems(2) have "successively (\<lambda>r r'. prefix (settled_prefix r) (settled_prefix r')) rs1" by simp
    then show ?thesis using settled_prefix_step [OF a1 a2 Cons.prems(2) c(1)] rs rest(2) by simp
  qed
qed simp

text \<open>C10: No cached byte changes while every pass returns: take a session of turns whose passes all return, where each
  turn continues the one before, that is, it repeats every message, in the form last returned or, only beyond its frozen
  prefix, in the form the client sent before, no call is added for an old result, results have distinct identifiers and
  the frozen prefix does not shrink. Then the messages before the first held read, which are all the provider may cache,
  are returned in the same form by the pass of every later turn, whatever happens to the store, the clock and the
  messages added behind them. A turn whose pass raises forwards its messages as they came and is not covered (a Read
  call with arguments null makes one, lemma null_read_stops_stage).\<close>
theorem matured_prefix_stable:
  assumes "maturation_run loads sha rp tns mgr = Inr rs" "mc_enabled (rm_config mgr)"
    and "successively (mat_continues loads) (zip tns rs)"
  shows "sorted_wrt (\<lambda>r r'. prefix (settled_prefix r) (settled_prefix r')) rs"
proof -
  have "transp (\<lambda>r r'. prefix (settled_prefix r) (settled_prefix r'))" by (auto intro!: transpI dest: prefix_order.trans)
  then show ?thesis using maturation_run_prefixes [OF assms] by (simp add: successively_conv_sorted_wrt)
qed

section \<open>Held reads stay out of the cache\<close>

lemma strip_message_eq: "strip_message msg = unmark msg"
proof (cases "list_ex has_marker (blocks_of msg)")
  case True
  then show ?thesis by (auto simp: strip_message_def unmark_def blocks_of_def split: option.splits json.splits)
next
  case False
  then have "strip_message msg = msg" by (auto simp: strip_message_def blocks_of_def split: option.splits json.splits)
  with unmark_unmarked [OF False] show ?thesis by simp
qed

lemma is_marked_eq: "is_marked msg = list_ex has_marker (blocks_of msg)"
  by (auto simp: is_marked_def blocks_of_def split: option.splits json.splits)

lemma strip_block_set_marker: "strip_block (JDict (dict_set ''cache_control'' v d)) = strip_block (JDict d)"
proof -
  have "filter (\<lambda>(k, v). k \<noteq> ''cache_control'') (dict_set ''cache_control'' v d) = filter (\<lambda>(k, v). k \<noteq> ''cache_control'') d"
    by (induction d) auto
  then show ?thesis by (simp add: strip_block_def)
qed

lemma place_marker_any:
  assumes "block_style msg"
  shows "unmark (place_marker mk msg) = unmark msg"
    and "length (filter has_marker (blocks_of (place_marker mk msg))) \<le> Suc (length (filter has_marker (blocks_of msg)))"
proof -
  obtain content d where c: "jget msg ''content'' = Some (JList content)" "content \<noteq> []" "last content = JDict d"
    using assms by (auto simp: block_style_def blocks_of_def elim!: is_jdict.elims split: option.splits json.splits)
  define new where "new = butlast content @ [JDict (dict_set ''cache_control'' (JDict mk) d)]"
  have p: "place_marker mk msg = dict_set ''content'' (JList new) msg" using c by (simp add: place_marker_def new_def)
  have split: "content = butlast content @ [JDict d]" using c(2,3) by (metis append_butlast_last_id)
  have "map strip_block new = map strip_block content"
    unfolding new_def by (subst (2) split) (simp only: map_append list.map strip_block_set_marker)
  then show "unmark (place_marker mk msg) = unmark msg" using c(1) p by (simp add: unmark_def dict_simps dict_set_twice)
  have "length (filter has_marker new) \<le> Suc (length (filter has_marker (butlast content)))" by (simp add: new_def)
  also have "\<dots> \<le> Suc (length (filter has_marker content))" by (subst (2) split) simp
  finally show "length (filter has_marker (blocks_of (place_marker mk msg))) \<le> Suc (length (filter has_marker (blocks_of msg)))"
    using c(1) p by (simp add: blocks_of_def dict_simps)
qed

lemma breakpoints_append: "breakpoints (xs @ ys) = breakpoints xs + breakpoints ys"
  by (simp add: breakpoints_def)

lemma breakpoints_update:
  assumes "k < length xs" "length (filter has_marker (blocks_of y)) \<le> Suc (length (filter has_marker (blocks_of (xs ! k))))"
  shows "breakpoints (xs[k := y]) \<le> Suc (breakpoints xs)"
proof -
  have "breakpoints (take k xs @ xs ! k # drop (Suc k) xs) = breakpoints xs" using id_take_nth_drop [OF assms(1)] by simp
  then show ?thesis unfolding upd_conv_take_nth_drop [OF assms(1)] using assms(2) by (simp add: breakpoints_def)
qed

lemma reanchor_cases:
  obtains (same) "reanchor n out = out"
  | (placed) k where "k < n" "block_style (out ! k)" "reanchor n out = out[k := place_marker [(''type'', JStr ''ephemeral'')] (out ! k)]"
proof (induction n)
  case (Suc n)
  show ?case
  proof (cases "block_style (out ! n)")
    case True
    then have "reanchor (Suc n) out = out[n := place_marker [(''type'', JStr ''ephemeral'')] (out ! n)]"
      by (auto simp: block_style_def blocks_of_def split: option.splits json.splits)
    with True Suc.prems(2) [of n] show ?thesis by simp
  next
    case False
    then have "reanchor (Suc n) out = reanchor n out"
      by (auto simp: block_style_def blocks_of_def split: option.splits json.splits)
    with Suc show ?thesis by (metis less_SucI)
  qed
qed simp

lemma reanchor_facts:
  assumes "n \<le> length out"
  shows "map unmark (reanchor n out) = map unmark out" "breakpoints (reanchor n out) \<le> Suc (breakpoints out)"
    "drop n (reanchor n out) = drop n out" "length (reanchor n out) = length out"
proof -
  have "map unmark (reanchor n out) = map unmark out \<and> breakpoints (reanchor n out) \<le> Suc (breakpoints out) \<and>
    drop n (reanchor n out) = drop n out \<and> length (reanchor n out) = length out"
  proof (rule reanchor_cases [of n out])
    fix k assume k: "k < n" "block_style (out ! k)" "reanchor n out = out[k := place_marker [(''type'', JStr ''ephemeral'')] (out ! k)]"
    note p = place_marker_any [OF k(2), of "[(''type'', JStr ''ephemeral'')]"]
    have "map unmark (reanchor n out) = map unmark out"
      unfolding k(3) map_update p(1) using k(1) assms by (metis list_update_id map_update)
    moreover have "breakpoints (reanchor n out) \<le> Suc (breakpoints out)"
      unfolding k(3) by (rule breakpoints_update [OF _ p(2)]) (use k(1) assms in simp)
    ultimately show ?thesis using k(1,3) by simp
  qed simp
  then show "map unmark (reanchor n out) = map unmark out" "breakpoints (reanchor n out) \<le> Suc (breakpoints out)"
    "drop n (reanchor n out) = drop n out" "length (reanchor n out) = length out" by blast+
qed

lemma breakpoints_marked: "list_ex is_marked msgs \<Longrightarrow> 0 < breakpoints msgs"
  by (induction msgs) (auto simp: breakpoints_def is_marked_eq list_ex_iff filter_empty_conv)

lemma unmarked_list: "\<not> list_ex is_marked msgs \<Longrightarrow> map unmark msgs = msgs"
  by (induction msgs) (auto simp: is_marked_eq unmark_unmarked)

text \<open>C32: A held read is not cached: in what the handler forwards no block at or after a held message carries a cache
  breakpoint, the relocation changes nothing but block markers, and it never adds to their number.\<close>
theorem held_reads_uncached:
  "let out = relocate_cache_breakpoint messages holding in
     list_all (\<lambda>i. breakpoints (drop i out) = 0) holding \<and> map unmark out = map unmark messages \<and>
     breakpoints out \<le> breakpoints messages"
proof (cases holding)
  case Nil
  then show ?thesis by (simp add: relocate_cache_breakpoint_def)
next
  case (Cons i rest)
  define e where "e = fold min rest i"
  let ?out = "take e messages @ map unmark (drop e messages)"
  have out: "relocate_cache_breakpoint messages holding =
      (if list_ex is_marked (drop e messages) then reanchor e ?out else ?out)"
  proof -
    have "strip_message = unmark" by (rule ext) (rule strip_message_eq)
    then show ?thesis unfolding relocate_cache_breakpoint_def Cons e_def by (simp add: Let_def)
  qed
  have b: "breakpoints ?out = breakpoints (take e messages)" by (simp add: breakpoints_append)
  have total: "breakpoints messages = breakpoints (take e messages) + breakpoints (drop e messages)"
    by (metis append_take_drop_id breakpoints_append)
  have un: "map unmark ?out = map unmark messages" by (simp add: comp_def) (metis append_take_drop_id map_append)
  have e: "e \<le> x" if "x \<in> set holding" for x
    using fold_min_le [of x rest i] that Cons e_def by auto
  have clean: "breakpoints (drop x o') = 0" if "x \<in> set holding" "drop e o' = map unmark (drop e messages)" for x o'
  proof -
    have "drop x o' = drop (x - e) (drop e o')" using e [OF that(1)] by simp
    then show ?thesis using that(2) by (simp add: drop_map)
  qed
  show ?thesis
  proof (cases "list_ex is_marked (drop e messages)")
    case True
    then have "e \<le> length ?out" by (cases "e \<le> length messages") simp_all
    note f = reanchor_facts [OF this]
    have "drop e ?out = map unmark (drop e messages)" by (cases "e \<le> length messages") simp_all
    then show ?thesis
      using True out f un clean breakpoints_marked [OF True] b total by (simp add: Let_def list_all_iff)
  next
    case False
    have "drop e ?out = map unmark (drop e messages)" by (cases "e \<le> length messages") simp_all
    then have "list_all (\<lambda>i. breakpoints (drop i ?out) = 0) holding" unfolding list_all_iff using clean by blast
    moreover have "relocate_cache_breakpoint messages holding = ?out" using out False by simp
    moreover have "breakpoints ?out \<le> breakpoints messages" using b total by simp
    ultimately show ?thesis using un by (simp only: Let_def simp_thms)
  qed
qed

section \<open>Witnesses\<close>

definition mat_cfg :: ReadMaturationConfig where
  "mat_cfg = \<lparr>mc_enabled = True, mc_quiesce_turns = 1, mc_max_hold_turns = 5, mc_min_size_bytes = 4\<rparr>"

definition mat_read :: "message list" where
  "mat_read =
     [[(''role'', JStr ''assistant''), (''content'', JList [JDict [(''type'', JStr ''tool_use''), (''id'', JStr ''r1''),
         (''name'', JStr ''Read''), (''input'', JDict [(''file_path'', JStr ''a.py'')])]])],
      [(''role'', JStr ''user''), (''content'', JList [JDict [(''type'', JStr ''tool_result''), (''tool_use_id'', JStr ''r1''),
         (''content'', JStr ''import os'')]])]]"

definition mat_more :: "message list" where
  "mat_more = [[(''role'', JStr ''assistant''), (''content'', JStr ''ok'')], [(''role'', JStr ''user''), (''content'', JStr ''go on'')]]"

definition mat_session :: "mat_turn list" where
  "mat_session =
     [\<lparr>mt_messages = mat_read, mt_frozen = 0, mt_store = None, mt_clock = (\<lambda>n. (5, 5))\<rparr>,
      \<lparr>mt_messages = mat_read @ mat_more, mt_frozen = 0, mt_store = None, mt_clock = (\<lambda>n. (5, 5))\<rparr>,
      \<lparr>mt_messages = mat_read @ mat_more @ mat_more, mt_frozen = 0, mt_store = None, mt_clock = (\<lambda>n. (5, 5))\<rparr>]"

definition mat_results :: "MaturationResult list" where
  "mat_results =
     (case maturation_run sample_loads sample_hex (\<lambda>_. []) mat_session (maturation_manager_init mat_cfg) of Inr rs \<Rightarrow> rs | Inl _ \<Rightarrow> [])"

lemma mat_session_runs:
  "maturation_run sample_loads sample_hex (\<lambda>_. []) mat_session (maturation_manager_init mat_cfg) = Inr mat_results"
proof -
  have "\<not> isl (maturation_run sample_loads sample_hex (\<lambda>_. []) mat_session (maturation_manager_init mat_cfg))" by code_simp
  then show ?thesis unfolding mat_results_def by (auto split: sum.splits)
qed

lemma mat_session_continues: "successively (mat_continues sample_loads) (zip mat_session mat_results)"
  by code_simp

theorem matured_prefix_stable_witness:
  "map (\<lambda>r. (mr_holding_msg_indices r, length (settled_prefix r))) mat_results = [([1], 1), ([], 4), ([], 6)] \<and>
   sorted_wrt (\<lambda>r r'. prefix (settled_prefix r) (settled_prefix r')) mat_results"
proof
  show "map (\<lambda>r. (mr_holding_msg_indices r, length (settled_prefix r))) mat_results = [([1], 1), ([], 4), ([], 6)]" by code_simp
  show "sorted_wrt (\<lambda>r r'. prefix (settled_prefix r) (settled_prefix r')) mat_results"
    by (rule matured_prefix_stable [OF mat_session_runs _ mat_session_continues]) (simp add: maturation_manager_init_def mat_cfg_def)
qed

end
