(* ===== verification/Maturation_Activity.thy ===== *)
theory Maturation_Activity
  imports Read_Maturation
begin

text \<open>
  When read maturation holds a read, continued: the scan of tool activity against a specification that looks at the
  replies directly, what a pass does with each read of a message, the redemption of a matured read from
  the store, and where the code falls short.
\<close>

section \<open>What the scan sees\<close>

text \<open>The calls of a message that touch a file: tool name, identifier and path.\<close>

definition call_touch :: "json_loads \<Rightarrow> json \<Rightarrow> (json \<times> json \<times> json) option" where
  "call_touch loads tc =
     (case tc of
        JDict d \<Rightarrow>
          (case json_get (dict_get_default d ''function'' (JDict [])) ''name'' (JStr []) of
             Inr name \<Rightarrow>
               if in_names TOUCH_TOOLS name = Inr True
               then (case and_then (json_get (dict_get_default d ''function'' (JDict [])) ''arguments'' (JStr ''{}''))
                            (\<lambda>arguments. and_then (decoded_arguments loads arguments) touched_path) of
                       Inr fp \<Rightarrow> Some (name, dict_get_default d ''id'' (JStr []), fp)
                     | Inl e \<Rightarrow> None)
               else None
           | Inl e \<Rightarrow> None)
      | _ \<Rightarrow> None)"

definition use_touch :: "json \<Rightarrow> (json \<times> json \<times> json) option" where
  "use_touch b =
     (case b of
        JDict d \<Rightarrow>
          if jget d ''type'' = Some (JStr ''tool_use'') \<and> in_names TOUCH_TOOLS (dict_get_default d ''name'' (JStr [])) = Inr True
          then (case touched_path (py_or (dict_get_default d ''input'' JNull) (JDict [])) of
                  Inr fp \<Rightarrow> Some (dict_get_default d ''name'' (JStr []), dict_get_default d ''id'' (JStr []), fp)
                | Inl e \<Rightarrow> None)
          else None
      | _ \<Rightarrow> None)"

definition touches :: "json_loads \<Rightarrow> message \<Rightarrow> (json \<times> json \<times> json) list" where
  "touches loads msg =
     (case tool_calls_of msg of Inr tcs \<Rightarrow> List.map_filter (call_touch loads) tcs | Inl e \<Rightarrow> []) @
     (case dict_get_default msg ''content'' JNull of JList content \<Rightarrow> List.map_filter use_touch content | _ \<Rightarrow> [])"

definition touches_file :: "json_loads \<Rightarrow> message \<Rightarrow> json \<Rightarrow> bool" where
  "touches_file loads msg fp = list_ex (\<lambda>(name, i, p). p = fp) (touches loads msg)"

definition reads_file :: "json_loads \<Rightarrow> message \<Rightarrow> json \<Rightarrow> json \<Rightarrow> bool" where
  "reads_file loads msg i fp = list_ex (\<lambda>(name, j, p). j = i \<and> p = fp \<and> in_names READ_TOOLS name = Inr True) (touches loads msg)"

definition is_read :: "json_loads \<Rightarrow> message list \<Rightarrow> json \<Rightarrow> bool" where
  "is_read loads replies i = list_ex (\<lambda>msg. list_ex (\<lambda>(name, j, p). j = i \<and> in_names READ_TOOLS name = Inr True) (touches loads msg)) replies"

definition noted :: "nat \<Rightarrow> (json \<times> json \<times> json) option \<Rightarrow> Activity \<Rightarrow> py_error + Activity" where
  "noted turn t act = (case t of None \<Rightarrow> Inr act | Some (name, i, fp) \<Rightarrow> note_touch turn name i fp act)"

lemma scan_call_noted:
  assumes "scan_call loads turn tc act = Inr act'"
  shows "noted turn (call_touch loads tc) act = Inr act'"
proof (cases tc)
  case (JDict d)
  let ?f = "dict_get_default d ''function'' (JDict [])"
  obtain name where name: "json_get ?f ''name'' (JStr []) = Inr name"
    using assms JDict by (auto simp: scan_call_def and_then_Inr_iff Let_def)
  then obtain t where t: "in_names TOUCH_TOOLS name = Inr t"
    using assms JDict by (auto simp: scan_call_def and_then_Inr_iff Let_def)
  show ?thesis
  proof (cases t)
    case True
    then obtain a args fp where "json_get ?f ''arguments'' (JStr ''{}'') = Inr a" "decoded_arguments loads a = Inr args" "touched_path args = Inr fp"
      using assms JDict name t by (auto simp: scan_call_def and_then_Inr_iff Let_def)
    with True assms JDict name t show ?thesis by (simp add: scan_call_def call_touch_def noted_def Let_def)
  next
    case False
    with assms JDict name t show ?thesis by (simp add: scan_call_def call_touch_def noted_def Let_def)
  qed
qed (use assms in \<open>simp_all add: scan_call_def call_touch_def noted_def\<close>)

lemma scan_tool_use_noted:
  assumes "scan_tool_use turn b act = Inr act'"
  shows "noted turn (use_touch b) act = Inr act'"
proof (cases b)
  case (JDict d)
  show ?thesis
  proof (cases "jget d ''type'' = Some (JStr ''tool_use'')")
    case True
    then obtain t where t: "in_names TOUCH_TOOLS (dict_get_default d ''name'' (JStr [])) = Inr t"
      using assms JDict by (auto simp: scan_tool_use_def and_then_Inr_iff Let_def)
    show ?thesis
    proof (cases t)
      case tt: True
      then obtain fp where "touched_path (py_or (dict_get_default d ''input'' JNull) (JDict [])) = Inr fp"
        using assms JDict True t by (auto simp: scan_tool_use_def and_then_Inr_iff Let_def)
      with True tt assms JDict t show ?thesis by (simp add: scan_tool_use_def use_touch_def noted_def Let_def)
    next
      case False
      with True assms JDict t show ?thesis by (simp add: scan_tool_use_def use_touch_def noted_def Let_def)
    qed
  next
    case False
    with assms JDict show ?thesis by (simp add: scan_tool_use_def use_touch_def noted_def)
  qed
qed (use assms in \<open>simp_all add: scan_tool_use_def use_touch_def noted_def\<close>)

lemma fold_noted:
  assumes "\<And>x act act'. f x act = Inr act' \<Longrightarrow> noted turn (g x) act = Inr act'"
  shows "fold_err f xs act = Inr act' \<Longrightarrow>
    fold_err (\<lambda>(name, i, fp). note_touch turn name i fp) (List.map_filter g xs) act = Inr act'"
proof (induction xs arbitrary: act)
  case (Cons x xs)
  then obtain act1 where a: "f x act = Inr act1" "fold_err f xs act1 = Inr act'" by (auto simp: and_then_Inr_iff)
  from assms [OF a(1)] Cons.IH [OF a(2)] show ?case
    by (cases "g x") (auto simp: noted_def List.map_filter_simps split: prod.splits)
qed (simp add: List.map_filter_simps)

lemma scan_message_noted:
  assumes "scan_message loads msg act = Inr act'"
  shows "if is_assistant msg
    then fold_err (\<lambda>(name, i, fp). note_touch (ac_assistant_count act + 1) name i fp) (touches loads msg)
           (act\<lparr>ac_assistant_count := ac_assistant_count act + 1\<rparr>) = Inr act'
    else act' = act"
proof (cases "is_assistant msg")
  case True
  let ?turn = "ac_assistant_count act + 1"
  obtain tcs act1 where t: "tool_calls_of msg = Inr tcs" "fold_err (scan_call loads ?turn) tcs (act\<lparr>ac_assistant_count := ?turn\<rparr>) = Inr act1"
    and r: "(case dict_get_default msg ''content'' JNull of JList content \<Rightarrow> fold_err (scan_tool_use ?turn) content act1 | _ \<Rightarrow> Inr act1) = Inr act'"
    using assms True unfolding scan_message_def Let_def by (simp only: simp_thms if_False and_then_Inr_iff) blast
  have "fold_err (\<lambda>(name, i, fp). note_touch ?turn name i fp)
    (case dict_get_default msg ''content'' JNull of JList content \<Rightarrow> List.map_filter use_touch content | _ \<Rightarrow> []) act1 = Inr act'"
    using r fold_noted [of "scan_tool_use ?turn" ?turn use_touch, OF scan_tool_use_noted]
    by (cases "dict_get_default msg ''content'' JNull") simp_all
  with fold_noted [of "scan_call loads ?turn" ?turn "call_touch loads", OF scan_call_noted t(2)] True t(1)
  show ?thesis by (simp add: touches_def fold_err_append)
qed (use assms in \<open>simp add: scan_message_def\<close>)

text \<open>After the scan: which assistant message, counted from 1, a recorded call or a last touch comes from.\<close>

definition scan_ok :: "json_loads \<Rightarrow> message list \<Rightarrow> Activity \<Rightarrow> bool" where
  "scan_ok loads replies act \<longleftrightarrow>
     ac_assistant_count act = length replies \<and>
     (\<forall>i fp turn. dict_get (ac_read_calls act) i = Some (fp, turn) \<longrightarrow>
        0 < turn \<and> turn \<le> length replies \<and> reads_file loads (replies ! (turn - 1)) i fp) \<and>
     (\<forall>fp turn. dict_get (ac_file_last_touch act) fp = Some turn \<longrightarrow>
        0 < turn \<and> turn \<le> length replies \<and> touches_file loads (replies ! (turn - 1)) fp) \<and>
     (\<forall>i. is_read loads replies i \<longrightarrow> dict_get (ac_read_calls act) i \<noteq> None) \<and>
     (\<forall>n fp. n < length replies \<longrightarrow> touches_file loads (replies ! n) fp \<longrightarrow> truthy fp \<longrightarrow>
        (\<exists>turn. dict_get (ac_file_last_touch act) fp = Some turn \<and> n < turn))"

lemma note_touch_Inr:
  assumes "note_touch turn name i fp act = Inr act'"
  shows "ac_assistant_count act' = ac_assistant_count act"
    "ac_file_last_touch act' = (if truthy fp then dict_set fp turn (ac_file_last_touch act) else ac_file_last_touch act)"
    "ac_read_calls act' = (if in_names READ_TOOLS name = Inr True then dict_set i (fp, turn) (ac_read_calls act) else ac_read_calls act)"
proof -
  obtain is_read where n: "in_names READ_TOOLS name = Inr is_read" using assms by (auto simp: note_touch_def and_then_Inr_iff)
  define a1 where "a1 = (if truthy fp then act\<lparr>ac_file_last_touch := dict_set fp turn (ac_file_last_touch act)\<rparr> else act)"
  have "act' = (if is_read then a1\<lparr>ac_read_calls := dict_set i (fp, turn) (ac_read_calls a1)\<rparr> else a1)"
    using assms n by (auto simp: note_touch_def and_then_Inr_iff a1_def split: if_splits)
  then show "ac_assistant_count act' = ac_assistant_count act"
    "ac_file_last_touch act' = (if truthy fp then dict_set fp turn (ac_file_last_touch act) else ac_file_last_touch act)"
    "ac_read_calls act' = (if in_names READ_TOOLS name = Inr True then dict_set i (fp, turn) (ac_read_calls act) else ac_read_calls act)"
    using n by (simp_all add: a1_def)
qed

lemma note_touches_read:
  assumes "fold_err (\<lambda>(name, i, fp). note_touch turn name i fp) ts act = Inr act'"
    "dict_get (ac_read_calls act) i \<noteq> None \<or> (\<exists>name fp. (name, i, fp) \<in> set ts \<and> in_names READ_TOOLS name = Inr True)"
  shows "dict_get (ac_read_calls act') i \<noteq> None"
  using assms
proof (induction ts arbitrary: act)
  case (Cons t ts)
  obtain name j p where t: "t = (name, j, p)" by (cases t)
  obtain act1 where a: "note_touch turn name j p act = Inr act1" "fold_err (\<lambda>(name, i, fp). note_touch turn name i fp) ts act1 = Inr act'"
    using Cons.prems(1) by (auto simp: t and_then_Inr_iff)
  show ?case
    by (rule Cons.IH [OF a(2)]) (use Cons.prems(2) note_touch_Inr(3) [OF a(1)] t in \<open>auto simp: dict_simps\<close>)
qed simp

text \<open>Noting the touches \<open>ts\<close> of the reply that is being scanned.\<close>

lemma note_touches_ok:
  assumes "fold_err (\<lambda>(name, i, fp). note_touch turn name i fp) ts act = Inr act'"
  shows "ac_assistant_count act' = ac_assistant_count act"
    "dict_get (ac_read_calls act') i = Some x \<Longrightarrow> dict_get (ac_read_calls act) i = Some x \<or>
       snd x = turn \<and> (\<exists>name. (name, i, fst x) \<in> set ts \<and> in_names READ_TOOLS name = Inr True)"
    "dict_get (ac_file_last_touch act') fp = (if truthy fp \<and> (\<exists>name i. (name, i, fp) \<in> set ts) then Some turn else dict_get (ac_file_last_touch act) fp)"
  using assms
proof (induction ts arbitrary: act)
  case (Cons t ts)
  obtain name j p where t: "t = (name, j, p)" by (cases t)
  {
    case 1
    then obtain act1 where a: "note_touch turn name j p act = Inr act1" "fold_err (\<lambda>(name, i, fp). note_touch turn name i fp) ts act1 = Inr act'"
      by (auto simp: t and_then_Inr_iff)
    show ?case using Cons.IH(1) [OF a(2)] note_touch_Inr [OF a(1)] by simp
  next
    case 2
    then obtain act1 where a: "note_touch turn name j p act = Inr act1" "fold_err (\<lambda>(name, i, fp). note_touch turn name i fp) ts act1 = Inr act'"
      by (auto simp: t and_then_Inr_iff)
    show ?case using Cons.IH(2) [OF 2(1) a(2)] note_touch_Inr(3) [OF a(1)] t by (auto simp: dict_simps split: if_splits)
  next
    case 3
    then obtain act1 where a: "note_touch turn name j p act = Inr act1" "fold_err (\<lambda>(name, i, fp). note_touch turn name i fp) ts act1 = Inr act'"
      by (auto simp: t and_then_Inr_iff)
    show ?case using Cons.IH(3) [OF a(2)] note_touch_Inr(2) [OF a(1)] t by (auto simp: dict_simps split: if_splits)
  }
qed simp_all

lemma scan_ok_reply:
  assumes ok: "scan_ok loads replies act" and turn: "turn = length replies + 1"
    and f: "fold_err (\<lambda>(name, i, fp). note_touch turn name i fp) (touches loads msg) (act\<lparr>ac_assistant_count := turn\<rparr>) = Inr act'"
  shows "scan_ok loads (replies @ [msg]) act'"
  unfolding scan_ok_def
proof (intro conjI allI impI)
  show "ac_assistant_count act' = length (replies @ [msg])" using note_touches_ok(1) [OF f] turn by simp
next
  fix i fp n assume "dict_get (ac_read_calls act') i = Some (fp, n)"
  from note_touches_ok(2) [OF f this] consider "dict_get (ac_read_calls act) i = Some (fp, n)"
    | name where "n = turn" "(name, i, fp) \<in> set (touches loads msg)" "in_names READ_TOOLS name = Inr True" by auto
  then have "0 < n \<and> n \<le> length (replies @ [msg]) \<and> reads_file loads ((replies @ [msg]) ! (n - 1)) i fp"
  proof cases
    case 1
    with ok have "0 < n" "n \<le> length replies" "reads_file loads (replies ! (n - 1)) i fp" unfolding scan_ok_def by blast+
    moreover from this have "(replies @ [msg]) ! (n - 1) = replies ! (n - 1)" by (intro nth_append_left) simp
    ultimately show ?thesis by simp
  next
    case 2
    then show ?thesis using turn by (auto simp: reads_file_def list_ex_iff)
  qed
  then show "0 < n" "n \<le> length (replies @ [msg])" "reads_file loads ((replies @ [msg]) ! (n - 1)) i fp" by blast+
next
  fix fp n assume n: "dict_get (ac_file_last_touch act') fp = Some n"
  have "0 < n \<and> n \<le> length (replies @ [msg]) \<and> touches_file loads ((replies @ [msg]) ! (n - 1)) fp"
  proof (cases "truthy fp \<and> (\<exists>name i. (name, i, fp) \<in> set (touches loads msg))")
    case True
    then have "touches_file loads msg fp" by (force simp: touches_file_def list_ex_iff)
    with True show ?thesis using n turn note_touches_ok(3) [OF f, of fp] by auto
  next
    case False
    then have "dict_get (ac_file_last_touch act) fp = Some n" using n note_touches_ok(3) [OF f, of fp] by auto
    with ok have "0 < n" "n \<le> length replies" "touches_file loads (replies ! (n - 1)) fp" unfolding scan_ok_def by blast+
    moreover from this have "(replies @ [msg]) ! (n - 1) = replies ! (n - 1)" by (intro nth_append_left) simp
    ultimately show ?thesis by simp
  qed
  then show "0 < n" "n \<le> length (replies @ [msg])" "touches_file loads ((replies @ [msg]) ! (n - 1)) fp" by blast+
next
  fix i assume "is_read loads (replies @ [msg]) i"
  then have "dict_get (ac_read_calls act) i \<noteq> None \<or>
      (\<exists>name fp. (name, i, fp) \<in> set (touches loads msg) \<and> in_names READ_TOOLS name = Inr True)"
  proof -
    have "is_read loads replies i \<or> (\<exists>name fp. (name, i, fp) \<in> set (touches loads msg) \<and> in_names READ_TOOLS name = Inr True)"
      using \<open>is_read loads (replies @ [msg]) i\<close> unfolding is_read_def list_ex_append by (auto simp: list_ex_iff)
    then show ?thesis using ok unfolding scan_ok_def by blast
  qed
  then show "dict_get (ac_read_calls act') i \<noteq> None" using note_touches_read [OF f, of i] by simp
next
  fix m fp assume m: "m < length (replies @ [msg])" "touches_file loads ((replies @ [msg]) ! m) fp" "truthy fp"
  show "\<exists>n. dict_get (ac_file_last_touch act') fp = Some n \<and> m < n"
  proof (cases "\<exists>name i. (name, i, fp) \<in> set (touches loads msg)")
    case True
    then show ?thesis using m(1,3) turn note_touches_ok(3) [OF f, of fp] by auto
  next
    case False
    then have "m < length replies" using m(1,2) by (cases "m = length replies") (auto simp: touches_file_def list_ex_iff)
    with m ok have "\<exists>n. dict_get (ac_file_last_touch act) fp = Some n \<and> m < n" unfolding scan_ok_def by (simp add: nth_append)
    then show ?thesis using False note_touches_ok(3) [OF f, of fp] by auto
  qed
qed

lemma scan_ok_message:
  assumes "scan_ok loads replies act" "scan_message loads msg act = Inr act'"
  shows "scan_ok loads (replies @ (if is_assistant msg then [msg] else [])) act'"
proof (cases "is_assistant msg")
  case True
  have "ac_assistant_count act = length replies" using assms(1) by (simp add: scan_ok_def)
  with scan_message_noted [OF assms(2)] True have
    "fold_err (\<lambda>(name, i, fp). note_touch (length replies + 1) name i fp) (touches loads msg)
       (act\<lparr>ac_assistant_count := length replies + 1\<rparr>) = Inr act'" by simp
  from scan_ok_reply [OF assms(1) refl this] True show ?thesis by simp
next
  case False
  then show ?thesis using assms scan_message_noted [OF assms(2)] by simp
qed

lemma scan_activity_ok:
  assumes "scan_activity loads messages = Inr act"
  shows "scan_ok loads (filter is_assistant messages) act"
proof -
  have "scan_ok loads (replies @ filter is_assistant messages) act'"
    if "fold_err (scan_message loads) messages a = Inr act'" "scan_ok loads replies a" for replies a act'
    using that
  proof (induction messages arbitrary: replies a)
    case (Cons msg messages)
    then obtain a1 where a1: "scan_message loads msg a = Inr a1" "fold_err (scan_message loads) messages a1 = Inr act'"
      by (auto simp: and_then_Inr_iff)
    from Cons.IH [OF a1(2) scan_ok_message [OF Cons.prems(2) a1(1)]] show ?case by (cases "is_assistant msg") simp_all
  qed simp
  from this [of activity_init act "[]"] assms show ?thesis by (simp add: scan_activity_def scan_ok_def activity_init_def is_read_def)
qed

lemma reads_touches: "reads_file loads msg i fp \<Longrightarrow> touches_file loads msg fp"
  by (auto simp: reads_file_def touches_file_def list_ex_iff)

text \<open>A held read: the call is young enough and the file was touched lately.\<close>

definition recently_active :: "json_loads \<Rightarrow> ReadMaturationConfig \<Rightarrow> message list \<Rightarrow> json \<Rightarrow> bool" where
  "recently_active loads cfg replies i \<longleftrightarrow>
     (\<exists>n m fp. n < length replies \<and> m < length replies \<and> reads_file loads (replies ! n) i fp \<and> touches_file loads (replies ! m) fp \<and>
        int (length replies) - int (n + 1) < mc_max_hold_turns cfg \<and> int (length replies) - int (m + 1) < mc_quiesce_turns cfg)"

lemma still_active_recently:
  assumes "scan_ok loads replies act" "dict_get (ac_read_calls act) i = Some call" "still_active cfg act call"
  shows "recently_active loads cfg replies i"
proof -
  obtain fp turn where c: "call = (fp, turn)" by (cases call)
  have n: "0 < turn" "turn \<le> length replies" "reads_file loads (replies ! (turn - 1)) i fp"
    using assms(1,2) c unfolding scan_ok_def by blast+
  let ?last = "dict_get_default (ac_file_last_touch act) fp turn"
  have "0 < ?last \<and> ?last \<le> length replies \<and> touches_file loads (replies ! (?last - 1)) fp"
  proof (cases "dict_get (ac_file_last_touch act) fp")
    case None
    then show ?thesis using n reads_touches by (simp add: dict_get_default_def)
  next
    case (Some m)
    then show ?thesis using assms(1) unfolding scan_ok_def by (auto simp: dict_get_default_def)
  qed
  then show ?thesis unfolding recently_active_def
    using n assms(1,3) c
    by (intro exI [of _ "turn - 1"] exI [of _ "?last - 1"] exI [of _ fp]) (auto simp: still_active_def scan_ok_def)
qed

text \<open>The tool results of a message; the reads among them that a pass may hold, and those it is done with.\<close>

definition block_pairs :: "json \<Rightarrow> (json \<times> string) list" where
  "block_pairs b = (case block_result b of Some (d, i, c) \<Rightarrow> [(i, c)] | None \<Rightarrow> [])"

definition tool_results :: "message \<Rightarrow> (json \<times> string) list" where
  "tool_results msg =
     (if dict_get_default msg ''role'' (JStr []) = JStr ''tool''
      then (case dict_get_default msg ''content'' (JStr []) of
              JStr c \<Rightarrow> [(dict_get_default msg ''tool_call_id'' (JStr []), c)] | _ \<Rightarrow> [])
      else (case dict_get_default msg ''content'' (JStr []) of
              JList bs \<Rightarrow> concat (map block_pairs bs) | _ \<Rightarrow> []))"

definition may_hold :: "ReadMaturationConfig \<Rightarrow> Activity \<Rightarrow> json \<Rightarrow> bool" where
  "may_hold cfg act i \<longleftrightarrow> (\<exists>call. dict_get (ac_read_calls act) i = Some call \<and> still_active cfg act call)"

definition done_with :: "ReadMaturationConfig \<Rightarrow> Activity \<Rightarrow> (json, MaturedRead) pydict \<Rightarrow> json \<times> string \<Rightarrow> bool" where
  "done_with cfg act matured p \<longleftrightarrow>
     dict_get (ac_read_calls act) (fst p) = None \<or> kept cfg (snd p) \<or> dict_get matured (fst p) \<noteq> None"

definition outcome :: "ReadMaturationConfig \<Rightarrow> Activity \<Rightarrow> mat_state \<Rightarrow> bool \<Rightarrow> (json \<times> string) list \<Rightarrow> bool" where
  "outcome cfg act s h ps \<longleftrightarrow> (if h then \<exists>p\<in>set ps. may_hold cfg act (fst p) else \<forall>p\<in>set ps. done_with cfg act (ms_matured s) p)"

lemma outcome_grows: "outcome cfg act s h ps \<Longrightarrow> grows s s' \<Longrightarrow> outcome cfg act s' h ps"
proof (cases h)
  case False
  assume "outcome cfg act s h ps" "grows s s'"
  with False have "\<forall>p\<in>set ps. done_with cfg act (ms_matured s') p" unfolding outcome_def done_with_def grows_def by (simp only: if_False) blast
  with False show ?thesis by (simp add: outcome_def)
qed (simp add: outcome_def)

lemma outcome_append:
  "outcome cfg act s h ps \<Longrightarrow> outcome cfg act s h' qs \<Longrightarrow> outcome cfg act s (h \<or> h') (ps @ qs)"
  unfolding outcome_def by (cases h; cases h'; simp; blast)

lemma handle_read_outcome:
  assumes "handle_read sha rp clk cfg act i call c s = (s', r, h)" "dict_get (ac_read_calls act) i = Some call"
  shows "outcome cfg act s' h [(i, c)]"
  using assms(1)
proof (cases rule: handle_read_cases)
  case hold
  with assms(2) show ?thesis unfolding outcome_def may_hold_def by simp
qed (use assms(2) in \<open>simp_all add: outcome_def done_with_def dict_simps\<close>)

lemma mature_block_outcome:
  assumes "mature_block sha rp clk cfg act b s = (s', Inr (b', ch, h))"
  shows "outcome cfg act s' h (block_pairs b)"
  using assms
proof (cases rule: mature_block_cases)
  case none
  then show ?thesis by (cases "block_result b") (auto simp: block_ids_def block_pairs_def outcome_def done_with_def)
next
  case (read d i call c r)
  then show ?thesis using handle_read_outcome [OF read(5,4)] by (simp add: block_pairs_def)
qed

lemma mature_blocks_outcome:
  "mature_blocks sha rp clk cfg act bs s = (s', Inr (bs', ch, h)) \<Longrightarrow> outcome cfg act s' h (concat (map block_pairs bs))"
proof (induction bs arbitrary: s bs' ch h)
  case (Cons b bs)
  from Cons.prems obtain s1 b' ch1 h1 bs1 ch2 h2 where b: "mature_block sha rp clk cfg act b s = (s1, Inr (b', ch1, h1))"
    and bs: "mature_blocks sha rp clk cfg act bs s1 = (s', Inr (bs1, ch2, h2))" and r: "h = (h1 \<or> h2)"
    by (rule mature_blocks_Cons)
  have "outcome cfg act s' h1 (block_pairs b)" using outcome_grows [OF mature_block_outcome [OF b] mature_blocks_grows [OF bs]] .
  from outcome_append [OF this Cons.IH [OF bs]] r show ?case by simp
qed (simp add: outcome_def)

lemma fst_block_pairs: "map fst (block_pairs b) = block_ids b"
  by (cases "block_result b") (auto simp: block_pairs_def block_ids_def)

lemma fst_tool_results: "map fst (tool_results msg) = result_ids msg"
proof -
  have "map fst (concat (map block_pairs bs)) = concat (map block_ids bs)" for bs
    by (induction bs) (simp_all add: fst_block_pairs)
  then show ?thesis unfolding tool_results_def result_ids_def
    by (cases "dict_get_default msg ''content'' (JStr [])") simp_all
qed

lemma mature_message_outcome:
  assumes "mature_message sha rp clk cfg act msg s = (s', Inr (msg', ch, h))"
  shows "outcome cfg act s' h (tool_results msg)"
  using assms
proof (cases rule: mature_message_cases)
  case none
  have "fst p \<in> set (result_ids msg)" if "p \<in> set (tool_results msg)" for p
    using that fst_tool_results [of msg] by (metis image_eqI set_map)
  with none show ?thesis by (simp add: outcome_def done_with_def)
next
  case (tool i call c r)
  then show ?thesis using handle_read_outcome [OF tool(6,5)] by (simp add: tool_results_def)
next
  case (blocks bs bs')
  then show ?thesis using mature_blocks_outcome [OF blocks(3)] by (simp add: tool_results_def dict_get_default_def)
qed

text \<open>C31: A read is held only while its file is active: in a pass that returns, every held message beyond the frozen
  prefix has a read that was called in the last \<open>max_hold_turns\<close> replies and whose file was touched in the last
  \<open>quiesce_turns\<close> replies; and a message beyond the frozen prefix that is not held is done with: each of its reads is
  recorded with a marker, or too small, or already compact.\<close>
theorem held_only_while_active:
  assumes "apply_maturation loads sha rp clk messages frozen st mgr = (mgr', st', Inr r)" "mc_enabled (rm_config mgr)"
    and "k < length messages" "frozen \<le> int k"
  shows "if k \<in> set (mr_holding_msg_indices r)
    then \<exists>i\<in>set (result_ids (messages ! k)). recently_active loads (rm_config mgr) (filter is_assistant messages) i
    else \<forall>(i, c)\<in>set (tool_results (messages ! k)). is_read loads (filter is_assistant messages) i \<longrightarrow>
      kept (rm_config mgr) c \<or> dict_get (rm_matured mgr') i \<noteq> None"
proof -
  obtain act s ch where act: "scan_activity loads messages = Inr act"
    and run: "mature_messages sha rp clk (rm_config mgr) act frozen 0 messages
       \<lparr>ms_matured = rm_matured mgr, ms_store = st, ms_result = maturation_result_init messages\<rparr> = (s, Inr (mr_messages r, ch))"
    and m: "mgr' = mgr\<lparr>rm_matured := ms_matured s\<rparr>" "mr_holding_msg_indices r = mr_holding_msg_indices (ms_result s)"
    using apply_maturation_run [OF assms(1,2)] by metis
  note ok = scan_activity_ok [OF act]
  let ?h = "k \<in> set (mr_holding_msg_indices r)"
  obtain sk sk' c where "mature_message sha rp clk (rm_config mgr) act (messages ! k) sk = (sk', Inr (mr_messages r ! k, c, ?h))" "grows sk' s"
    using mature_messages_positions [OF run] assms(3,4) m(2) by (auto simp: maturation_result_init_def pass_at_def split: if_splits)
  then have out: "outcome (rm_config mgr) act s ?h (tool_results (messages ! k))"
    using outcome_grows mature_message_outcome by blast
  show ?thesis
  proof (cases ?h)
    case True
    with out obtain p where p: "p \<in> set (tool_results (messages ! k))" "may_hold (rm_config mgr) act (fst p)" by (auto simp: outcome_def)
    from p(2) have "recently_active loads (rm_config mgr) (filter is_assistant messages) (fst p)"
      unfolding may_hold_def using still_active_recently [OF ok] by blast
    moreover have "fst p \<in> set (result_ids (messages ! k))" using p(1) fst_tool_results [of "messages ! k"] by (metis image_eqI set_map)
    ultimately show ?thesis using True by auto
  next
    case False
    have "dict_get (ac_read_calls act) i \<noteq> None" if "is_read loads (filter is_assistant messages) i" for i
      using ok that unfolding scan_ok_def by blast
    with False out show ?thesis using m(1) unfolding outcome_def done_with_def by fastforce
  qed
qed

section \<open>Redemption\<close>

lemma maturation_marker_is_marker:
  assumes "sha_shape sha"
  shows "\<exists>pre mk post. maturation_marker rp fp (take 24 (sha x)) = pre @ mk @ post \<and> is_marker mk (take 24 (sha x)) post"
proof -
  have "read_marker (''Retrieve original: hash='' @ take 24 (sha x)) (take 24 (sha x)) '']''"
    using sha_shape_key [OF assms, of x] by (auto simp: read_marker_def is_lower_hex_def list_all_iff)
  then have m: "is_marker (''Retrieve original: hash='' @ take 24 (sha x)) (take 24 (sha x)) '']''"
    by (simp add: is_marker_def)
  have "'' re-read the file if needed. Retrieve original: hash='' = '' re-read the file if needed. '' @ ''Retrieve original: hash=''"
    by simp
  then have "\<exists>pre. maturation_marker rp fp (take 24 (sha x)) = pre @ (''Retrieve original: hash='' @ take 24 (sha x)) @ '']''"
    unfolding maturation_marker_def by (simp only: append_assoc [symmetric]) blast
  with m show ?thesis by blast
qed

text \<open>C33: A matured read is redeemable: when a large read of a quiet file matures, the text put in its place carries a marker
  that the retrieval tool's scan recognises, and looking up its hash, after any reads of the store and
  before the entry expires, returns the file content verbatim.\<close>
theorem matured_read_redeemable:
  assumes m: "0 < m" and sh: "sha_shape sha" and st: "ms_store s = Some (ccr_run sha ops (ccr_init m ttl fb mb_init))"
    and new: "dict_get (ms_matured s) i = None" and big: "\<not> kept cfg c" and quiet: "\<not> still_active cfg act call"
    and t: "t \<le> fst (clk (mr_newly_matured (ms_result s))) + of_int (cs_default_ttl (ccr_run sha ops (ccr_init m ttl fb mb_init)))"
    and reads: "list_all (read_op t) reads" and now': "now' \<le> t"
    and run: "handle_read sha rp clk cfg act i call c s = (s', r, h)"
  shows "\<exists>pre mk post k st'. r = Some (pre @ mk @ post) \<and> is_marker mk k post \<and> ms_store s' = Some st' \<and>
    map_option ce_original_content (snd (retrieve now' na nl k q (ccr_run sha reads st'))) = Some c"
  using run
proof (cases rule: handle_read_cases)
  case (mature st' k)
  let ?s0 = "ccr_run sha ops (ccr_init m ttl fb mb_init)" and ?a = "maturation_store_args i c"
  let ?k = "take 24 (sha (utf8_encode c))" and ?now = "clk (mr_newly_matured (ms_result s))"
  have key: "store_key sha ?a = Inr ?k" by (simp add: store_key_def maturation_store_args_def)
  have "t \<le> fst ?now + of_int (case sa_ttl ?a of None \<Rightarrow> cs_default_ttl ?s0 | Some x \<Rightarrow> x)"
    using t by (simp add: maturation_store_args_def)
  from stored_is_retrieved [OF m refl key this reads now', of "snd ?now" na nl q]
  have stored: "snd (store sha (fst ?now) (snd ?now) ?a ?s0) = Inr ?k"
    "map_option ce_original_content (snd (retrieve now' na nl ?k q (ccr_run sha reads (fst (store sha (fst ?now) (snd ?now) ?a ?s0))))) = Some c"
    by (simp_all add: maturation_store_args_def)
  then have "st' = Some (fst (store sha (fst ?now) (snd ?now) ?a ?s0)) \<and> k = ?k"
    using mature(5) st by (auto simp: store_original_def Let_def split: prod.splits sum.splits)
  then have k: "k = ?k" and s': "ms_store s' = Some (fst (store sha (fst ?now) (snd ?now) ?a ?s0))" using mature(7) by simp_all
  obtain pre mk post where "maturation_marker rp (fst call) ?k = pre @ mk @ post" "is_marker mk ?k post"
    using maturation_marker_is_marker [OF sh, of rp "fst call" "utf8_encode c"] by blast
  with s' stored(2) mature(6) k show ?thesis by blast
qed (use new big quiet in simp_all)

section \<open>Where the code falls short\<close>

text \<open>The handler around the decoding of arguments does not cover \<open>args.get\<close>: a read call whose arguments decode to \<open>null\<close> makes every
  pass over the conversation raise, and the stage forwards the messages as they are from then on.\<close>

definition null_read :: message where
  "null_read = [(''role'', JStr ''assistant''), (''tool_calls'', JList [JDict [(''id'', JStr ''t1''),
     (''function'', JDict [(''name'', JStr ''Read''), (''arguments'', JStr ''null'')])]])]"

lemma null_read_stops_stage:
  assumes "loads ''null'' = Inr JNull" "mc_enabled (rm_config mgr)"
  shows "read_maturation_stage loads sha rp clk True False cfg (null_read # messages) frozen st (Some mgr) = (Some mgr, Some st, null_read # messages)"
proof -
  have "scan_activity loads (null_read # messages) = Inl AttributeError"
    using assms(1) by (simp add: scan_activity_def scan_message_def null_read_def is_assistant_def dict_get_default_def tool_calls_of_def
        scan_call_def in_names_def TOUCH_TOOLS_def decoded_arguments_def touched_path_def Let_def)
  then show ?thesis using assms(2) by (simp add: read_maturation_stage_def apply_maturation_def)
qed

text \<open>While a read is held, the breakpoint put before it is a plain one: a longer lifetime the client asked for is lost.\<close>

lemma hold_drops_ttl:
  "relocate_cache_breakpoint
     [[(''role'', JStr ''user''), (''content'', JList [JDict [(''type'', JStr ''text'')]])],
      [(''role'', JStr ''user''), (''content'', JList [JDict [(''cache_control'', JDict [(''type'', JStr ''ephemeral''), (''ttl'', JStr ''1h'')])]])]] [1] =
     [[(''role'', JStr ''user''), (''content'', JList [JDict [(''type'', JStr ''text''), (''cache_control'', JDict [(''type'', JStr ''ephemeral'')])]])],
      [(''role'', JStr ''user''), (''content'', JList [JDict []])]]"
  by code_simp

section \<open>Witnesses\<close>

definition mat_first :: "ReadMaturationManager \<times> ccr_store option \<times> (py_error + MaturationResult)" where
  "mat_first = apply_maturation sample_loads sample_hex (\<lambda>_. []) (\<lambda>n. (5, 5)) mat_read 0 None (maturation_manager_init mat_cfg)"

lemma mat_first_held: "case snd (snd mat_first) of Inr r \<Rightarrow> mr_holding_msg_indices r = [1] | Inl _ \<Rightarrow> False"
  by code_simp

theorem held_only_while_active_witness:
  "\<exists>i\<in>set (result_ids (mat_read ! 1)). recently_active sample_loads mat_cfg (filter is_assistant mat_read) i"
proof -
  obtain mgr st x where x: "mat_first = (mgr, st, x)" by (cases mat_first)
  have "case x of Inr r \<Rightarrow> mr_holding_msg_indices r = [1] | Inl _ \<Rightarrow> False" using mat_first_held unfolding x by simp
  with x obtain r where r: "mat_first = (mgr, st, Inr r)" "mr_holding_msg_indices r = [1]" by (cases x) auto
  have "mc_enabled (rm_config (maturation_manager_init mat_cfg))" "rm_config (maturation_manager_init mat_cfg) = mat_cfg"
    by (simp_all add: maturation_manager_init_def mat_cfg_def)
  moreover have "1 < length mat_read" by (simp add: mat_read_def)
  ultimately show ?thesis
    using held_only_while_active [OF r(1) [unfolded mat_first_def], of 1] r(2) by simp
qed

definition mat_state0 :: mat_state where
  "mat_state0 = \<lparr>ms_matured = [], ms_store = Some (ccr_run sample_hex [] (ccr_init 10 60 True mb_init)), ms_result = maturation_result_init []\<rparr>"

definition mat_act :: Activity where
  "mat_act = \<lparr>ac_read_calls = [(JStr ''r1'', JStr ''a.py'', 1)], ac_file_last_touch = [(JStr ''a.py'', 1)], ac_assistant_count = 3\<rparr>"

theorem matured_read_redeemable_witness:
  "\<exists>pre mk post k st' s' h.
     handle_read sample_hex (\<lambda>_. []) (\<lambda>n. (5, 5)) mat_cfg mat_act (JStr ''r1'') (JStr ''a.py'', 1) ''import os'' mat_state0 =
       (s', Some (pre @ mk @ post), h) \<and> is_marker mk k post \<and> ms_store s' = Some st' \<and>
     map_option ce_original_content (snd (retrieve 50 50 50 k None (ccr_run sample_hex [Stats 40] st'))) = Some ''import os''"
proof -
  obtain s' r h where run: "handle_read sample_hex (\<lambda>_. []) (\<lambda>n. (5, 5)) mat_cfg mat_act (JStr ''r1'') (JStr ''a.py'', 1) ''import os'' mat_state0 = (s', r, h)"
    by (cases "handle_read sample_hex (\<lambda>_. []) (\<lambda>n. (5, 5)) mat_cfg mat_act (JStr ''r1'') (JStr ''a.py'', 1) ''import os'' mat_state0")
  have "\<not> kept mat_cfg ''import os''" "\<not> still_active mat_cfg mat_act (JStr ''a.py'', 1)" by code_simp+
  then have "\<exists>pre mk post k st'. r = Some (pre @ mk @ post) \<and> is_marker mk k post \<and> ms_store s' = Some st' \<and>
    map_option ce_original_content (snd (retrieve 50 50 50 k None (ccr_run sample_hex [Stats 40] st'))) = Some ''import os''"
    by (intro matured_read_redeemable [where m = 10 and ttl = 60 and fb = True and ops = "[]" and t = 50, OF _ sample_hex_shape _ _ _ _ _ _ _ run])
      (simp_all add: mat_state0_def ccr_run_def ccr_init_def)
  with run show ?thesis by blast
qed

end
