(* ===== verification/Session_Trackers.thy ===== *)
theory Session_Trackers
  imports LRU Py_Text
begin

text \<open>
  The per-session memories that keep requests byte-stable from turn to turn: the trackers of the
  retrieval tool (\<open>headroom/proxy/ccr_session_tracker.py\<close>), of the memory tools
  (\<open>tool_injection_tracker.py\<close>) and of beta-header tokens (\<open>SessionBetaTracker\<close> of \<open>helpers.py\<close>, with
  \<open>beta_header_merge.py\<close>), and the environment settings they read. Each is a bounded
  \<open>OrderedDict\<close> from (provider, session) to what was recorded. An operation returns its result or
  the exception, and the tracker, which keeps the changes made before an exception. Abstractly a tracker
  is an unbounded map; the last section shows that within the bound no caller can tell.
\<close>

section \<open>Settings\<close>

text \<open>\<open>x or ""\<close> for an optional text.\<close>

abbreviation or_empty :: "string option \<Rightarrow> string" where
  "or_empty x \<equiv> (case x of None \<Rightarrow> [] | Some s \<Rightarrow> s)"

definition resolve_beta_header_sticky_mode :: "string option \<Rightarrow> py_error + string" where
  "resolve_beta_header_sticky_mode raw =
     (let normalized = str_lower (strip (or_empty raw))
      in if normalized = [] then Inr ''enabled''
         else if normalized \<in> {''enabled'', ''disabled''} then Inr normalized
         else Inl ValueError)"

definition resolve_beta_tracker_max_sessions :: "string option \<Rightarrow> py_error + int" where
  "resolve_beta_tracker_max_sessions raw =
     (let normalized = strip (or_empty raw)
      in if normalized = [] then Inr 1000
         else case int_of_str normalized of
                Inl e \<Rightarrow> Inl e
              | Inr v \<Rightarrow> if v \<le> 0 then Inl ValueError else Inr v)"

definition resolve_tool_injection_sticky_mode :: "string option \<Rightarrow> py_error + string" where
  "resolve_tool_injection_sticky_mode raw =
     (let normalized = str_lower (strip (or_empty raw))
      in if normalized = [] then Inr ''enabled''
         else if normalized \<in> {''enabled'', ''disabled''} then Inr normalized
         else Inl ValueError)"

definition resolve_tool_tracker_max_sessions :: "string option \<Rightarrow> py_error + int" where
  "resolve_tool_tracker_max_sessions raw =
     (let normalized = strip (or_empty raw)
      in if normalized = [] then Inr 1000
         else case int_of_str normalized of
                Inl e \<Rightarrow> Inl e
              | Inr v \<Rightarrow> if v \<le> 0 then Inl ValueError else Inr v)"

section \<open>A bounded dictionary of sessions\<close>

type_synonym session_key = "string \<times> string"

record 'v session_tracker =
  st_max_sessions :: int
  st_sessions :: "(session_key, 'v) pydict"

text \<open>Operations on a tracker that may raise, one after the other.\<close>

type_synonym ('a, 'v) tracked = "(py_error + 'a) \<times> 'v session_tracker"

fun st_then :: "('a, 'v) tracked \<Rightarrow> ('a \<Rightarrow> 'v session_tracker \<Rightarrow> ('b, 'v) tracked) \<Rightarrow> ('b, 'v) tracked" where
  "st_then (Inl e, t) f = (Inl e, t)"
| "st_then (Inr x, t) f = f x t"

lemma snd_st_then: "snd (st_then r (\<lambda>_ t. (y, t))) = snd r"
  by (cases r; cases "fst r") auto

definition sess_init :: "int \<Rightarrow> py_error + 'v session_tracker" where
  "sess_init max_sessions =
     (if max_sessions \<le> 0 then Inl ValueError
      else Inr \<lparr>st_max_sessions = max_sessions, st_sessions = []\<rparr>)"

definition sess_active :: "'v session_tracker \<Rightarrow> nat" where
  "sess_active t = length (st_sessions t)"

definition sess_reset :: "'v session_tracker \<Rightarrow> 'v session_tracker" where
  "sess_reset t = t\<lparr>st_sessions := []\<rparr>"

text \<open>The two checks every operation starts with, and the key.\<close>

definition session_key_of :: "string \<Rightarrow> string \<Rightarrow> py_error + session_key" where
  "session_key_of provider session_id =
     (if provider = [] then Inl ValueError else if session_id = [] then Inl ValueError else Inr (provider, session_id))"

text \<open>A lookup moves a session it finds to the end.\<close>

definition lookup_session :: "session_key \<Rightarrow> 'v session_tracker \<Rightarrow> 'v option \<times> 'v session_tracker" where
  "lookup_session key t =
     (case dict_get (st_sessions t) key of
        None \<Rightarrow> (None, t)
      | Some entry \<Rightarrow> (Some entry, t\<lparr>st_sessions := move_to_end key (st_sessions t)\<rparr>))"

text \<open>A store moves the session to the end and pops the oldest ones \<open>while len > max_sessions\<close>.\<close>

definition store_session :: "session_key \<Rightarrow> 'v \<Rightarrow> 'v session_tracker \<Rightarrow> (unit, 'v) tracked" where
  "store_session key v t =
     (case pop_until (st_max_sessions t + 1) (move_to_end key (dict_set key v (st_sessions t))) of
        Inl e \<Rightarrow> (Inl e, t\<lparr>st_sessions := []\<rparr>)
      | Inr (popped, rest) \<Rightarrow> (Inr (), t\<lparr>st_sessions := rest\<rparr>))"

section \<open>The retrieval-tool tracker\<close>

text \<open>An entry is the flag and the pinned bytes of the tool definition.\<close>

type_synonym ccr_tracker = "(bool \<times> string option) session_tracker"

definition has_done_ccr :: "string \<Rightarrow> string \<Rightarrow> ccr_tracker \<Rightarrow> (bool, bool \<times> string option) tracked" where
  "has_done_ccr provider session_id t =
     (case session_key_of provider session_id of
        Inl e \<Rightarrow> (Inl e, t)
      | Inr key \<Rightarrow>
          (case lookup_session key t of
             (None, t) \<Rightarrow> (Inr False, t)
           | (Some entry, t) \<Rightarrow> (Inr (fst entry), t)))"

definition get_golden_tool_bytes :: "string \<Rightarrow> string \<Rightarrow> ccr_tracker \<Rightarrow> (string option, bool \<times> string option) tracked" where
  "get_golden_tool_bytes provider session_id t =
     (case session_key_of provider session_id of
        Inl e \<Rightarrow> (Inl e, t)
      | Inr key \<Rightarrow>
          (case lookup_session key t of
             (None, t) \<Rightarrow> (Inr None, t)
           | (Some entry, t) \<Rightarrow> (Inr (snd entry), t)))"

definition record_ccr_done :: "string \<Rightarrow> string \<Rightarrow> string \<Rightarrow> ccr_tracker \<Rightarrow> (unit, bool \<times> string option) tracked" where
  "record_ccr_done provider session_id golden_tool_bytes t =
     (case session_key_of provider session_id of
        Inl e \<Rightarrow> (Inl e, t)
      | Inr key \<Rightarrow>
          if golden_tool_bytes = [] then (Inl ValueError, t)
          else (case dict_get (st_sessions t) key of
                  None \<Rightarrow> store_session key (True, Some golden_tool_bytes) t
                | Some existing \<Rightarrow>
                    store_session key
                      (True, if snd existing \<noteq> None then snd existing else Some golden_tool_bytes) t))"

section \<open>The memory-tool tracker\<close>

text \<open>An entry is the ordered dictionary from tool name to the pinned bytes.\<close>

type_synonym tool_tracker = "(string, string) pydict session_tracker"

definition should_inject :: "string \<Rightarrow> string \<Rightarrow> tool_tracker \<Rightarrow> (bool, (string, string) pydict) tracked" where
  "should_inject provider session_id t =
     (case session_key_of provider session_id of
        Inl e \<Rightarrow> (Inl e, t)
      | Inr key \<Rightarrow>
          (case lookup_session key t of
             (None, t) \<Rightarrow> (Inr False, t)
           | (Some entry, t) \<Rightarrow> (Inr (0 < length entry), t)))"

definition get_golden_definitions ::
  "string \<Rightarrow> string \<Rightarrow> tool_tracker \<Rightarrow> ((string \<times> string) list option, (string, string) pydict) tracked" where
  "get_golden_definitions provider session_id t =
     (case session_key_of provider session_id of
        Inl e \<Rightarrow> (Inl e, t)
      | Inr key \<Rightarrow>
          (case lookup_session key t of
             (None, t) \<Rightarrow> (Inr None, t)
           | (Some entry, t) \<Rightarrow> (Inr (Some entry), t)))"

definition record_injection ::
  "string \<Rightarrow> string \<Rightarrow> string \<Rightarrow> string \<Rightarrow> tool_tracker \<Rightarrow> (unit, (string, string) pydict) tracked" where
  "record_injection provider session_id tool_name tool_definition_bytes t =
     (case session_key_of provider session_id of
        Inl e \<Rightarrow> (Inl e, t)
      | Inr key \<Rightarrow>
          if tool_name = [] then (Inl ValueError, t)
          else if tool_definition_bytes = [] then (Inl ValueError, t)
          else
            let entry = (case dict_get (st_sessions t) key of None \<Rightarrow> [] | Some entry \<Rightarrow> entry);
                entry = (if dict_get entry tool_name = None then dict_set tool_name tool_definition_bytes entry else entry)
            in store_session key entry t)"

section \<open>Beta headers\<close>

definition split_beta_tokens :: "string option \<Rightarrow> string list" where
  "split_beta_tokens value =
     (case value of
        None \<Rightarrow> []
      | Some v \<Rightarrow> if v = [] then [] else filter (\<lambda>token. token \<noteq> []) (map strip (split_on (CHR '','') v)))"

text \<open>Append the tokens whose lower-case form was not seen yet; \<open>seen_lower\<close> is that of the tokens so far.\<close>

fun add_tokens :: "string list \<Rightarrow> string list \<Rightarrow> string list" where
  "add_tokens out [] = out"
| "add_tokens out (token # tokens) =
     (if str_lower token \<in> set (map str_lower out) then add_tokens out tokens
      else add_tokens (out @ [token]) tokens)"

definition merge_beta_tokens :: "string option \<Rightarrow> string list \<Rightarrow> string" where
  "merge_beta_tokens client_value headroom_required =
     join_with '',''
       (add_tokens (add_tokens [] (split_beta_tokens client_value))
          (filter (\<lambda>token. token \<noteq> []) (map strip (filter (\<lambda>token. token \<noteq> []) headroom_required))))"

type_synonym beta_tracker = "string list session_tracker"

text \<open>\<open>env\<close> is the environment variable, read on every request.\<close>

definition record_and_get_sticky_betas ::
  "string option \<Rightarrow> string \<Rightarrow> string \<Rightarrow> string option \<Rightarrow> beta_tracker \<Rightarrow> (string, string list) tracked" where
  "record_and_get_sticky_betas env provider session_id client_value t =
     (case session_key_of provider session_id of
        Inl e \<Rightarrow> (Inl e, t)
      | Inr key \<Rightarrow>
          (case resolve_beta_header_sticky_mode env of
             Inl e \<Rightarrow> (Inl e, t)
           | Inr mode \<Rightarrow>
               if mode = ''disabled'' then (Inr (strip (or_empty client_value)), t)
               else
                 let client_tokens = split_beta_tokens client_value;
                     (previous, t) = lookup_session key t;
                     merged_list = add_tokens (case previous of None \<Rightarrow> [] | Some tokens \<Rightarrow> tokens) client_tokens
                 in st_then (store_session key merged_list t) (\<lambda>_ t. (Inr (join_with '','' merged_list), t))))"

section \<open>Facts about the bounded dictionary\<close>

definition sess_ok :: "'v session_tracker \<Rightarrow> bool" where
  "sess_ok t = (0 < st_max_sessions t \<and> dict_ok (st_sessions t) \<and> int (length (st_sessions t)) \<le> st_max_sessions t)"

lemma sess_init_ok: "sess_init m = Inr t \<Longrightarrow> sess_ok t"
  by (auto simp: sess_init_def sess_ok_def split: if_splits)

lemma dict_del_set_same: "dict_del k (dict_set k v d) = dict_del k d"
  by (induction d) auto

lemma move_to_end_set: "move_to_end k (dict_set k v d) = dict_del k d @ [(k, v)]"
  by (simp add: move_to_end_def dict_simps dict_del_set_same)

lemma move_to_end_get [dict_simps]: "dict_get (move_to_end k d) j = dict_get d j"
  by (auto simp: move_to_end_def dict_simps map_add_def split: option.splits)

lemma move_to_end_ok [simp]: "dict_ok d \<Longrightarrow> dict_ok (move_to_end k d)"
  by (auto simp: move_to_end_def dict_get_None_iff dict_keys_del split: option.splits)

lemma move_to_end_length [dict_simps]: "dict_ok d \<Longrightarrow> length (move_to_end k d) = length d"
proof (cases "dict_get d k")
  case (Some v)
  then have "0 < length d" by (cases d) auto
  then show "dict_ok d \<Longrightarrow> length (move_to_end k d) = length d" using Some by (simp add: move_to_end_def dict_simps)
qed (simp add: move_to_end_def)

lemma move_to_end_absent: "dict_get d k = None \<Longrightarrow> move_to_end k d = d"
  by (simp add: move_to_end_def)

lemma lookup_session_eq:
  "lookup_session key t = (dict_get (st_sessions t) key, t\<lparr>st_sessions := move_to_end key (st_sessions t)\<rparr>)"
  by (simp add: lookup_session_def move_to_end_absent split: option.split)

lemma lookup_session_ok: "sess_ok t \<Longrightarrow> sess_ok (snd (lookup_session key t))"
  by (simp add: lookup_session_eq sess_ok_def dict_simps)

text \<open>A store never raises, leaves the session last, and drops the oldest sessions beyond the bound.\<close>

lemma store_session_eq:
  assumes "0 < st_max_sessions t"
  shows "store_session key v t =
    (let d = dict_del key (st_sessions t) @ [(key, v)]
     in (Inr (), t\<lparr>st_sessions := drop (nat (int (length d) - st_max_sessions t)) d\<rparr>))"
proof -
  have m: "0 < st_max_sessions t + 1" using assms by simp
  have n: "x - (st_max_sessions t + 1) + 1 = x - st_max_sessions t" for x by simp
  show ?thesis by (simp only: store_session_def move_to_end_set pop_until_eq [OF m] n Let_def sum.case prod.case)
qed

lemma store_session_last:
  assumes "sess_ok t"
  obtains p where "store_session key v t = (Inr (), t\<lparr>st_sessions := p @ [(key, v)]\<rparr>)" "dict_get p key = None"
    "dict_ok (p @ [(key, v)])" "int (length p) < st_max_sessions t"
proof
  let ?d = "dict_del key (st_sessions t)"
  let ?p = "drop (nat (int (length ?d) - st_max_sessions t + 1)) ?d"
  have m: "0 < st_max_sessions t" "dict_ok ?d" using assms by (simp_all add: sess_ok_def)
  have n: "int (length (?d @ [(key, v)])) - st_max_sessions t = int (length ?d) - st_max_sessions t + 1" by simp
  have "drop (nat (int (length ?d) - st_max_sessions t + 1) - length ?d) [(key, v)] = [(key, v)]" using m(1) by simp
  then show "store_session key v t = (Inr (), t\<lparr>st_sessions := ?p @ [(key, v)]\<rparr>)"
    using m(1) by (simp only: store_session_eq Let_def n drop_append)
  have "fst ` set ?p \<subseteq> fst ` set ?d" by (intro image_mono set_drop_subset)
  then show none: "dict_get ?p key = None" by (auto simp: dict_get_None_iff dict_keys_del)
  show "dict_ok (?p @ [(key, v)])" using none m(2) distinct_drop [of "map fst ?d"]
    by (simp add: dict_get_None_iff drop_map [symmetric])
  show "int (length ?p) < st_max_sessions t" using m(1) by simp
qed

lemma store_session_ok: "sess_ok t \<Longrightarrow> sess_ok (snd (store_session key v t))"
  by (rule store_session_last [of t key v]) (auto simp: sess_ok_def)

lemma store_session_done: "sess_ok t \<Longrightarrow> fst (store_session key v t) = Inr ()"
  by (rule store_session_last [of t key v]) auto

lemma store_session_get: "sess_ok t \<Longrightarrow> dict_get (st_sessions (snd (store_session key v t))) key = Some v"
  by (rule store_session_last [of t key v]) (auto simp: map_add_def)

lemma store_session_max [simp]: "st_max_sessions (snd (store_session key v t)) = st_max_sessions t"
  by (auto simp: store_session_def split: sum.split)

text \<open>Within the bound a store is an update of the map.\<close>

lemma card_dict: "dict_ok d \<Longrightarrow> card (dom (dict_get d)) = length d"
  by (simp add: dom_map_of_conv_image_fst) (metis distinct_card length_map list.set_map)

lemma store_session_room:
  assumes ok: "sess_ok t" and room: "int (card (insert key (dom (dict_get (st_sessions t))))) \<le> st_max_sessions t"
  shows "dict_get (st_sessions (snd (store_session key v t))) = (dict_get (st_sessions t))(key \<mapsto> v)"
proof -
  let ?d = "dict_del key (st_sessions t)"
  have d: "dict_ok (?d @ [(key, v)])" using ok by (simp add: sess_ok_def dict_keys_del)
  have get: "dict_get (?d @ [(key, v)]) = (dict_get (st_sessions t))(key \<mapsto> v)"
    by (auto simp: fun_eq_iff map_add_def dict_simps split: option.split)
  then have "length (?d @ [(key, v)]) = card (insert key (dom (dict_get (st_sessions t))))"
    using card_dict [OF d] by simp
  then have "st_sessions (snd (store_session key v t)) = ?d @ [(key, v)]"
    using ok room by (simp add: store_session_eq sess_ok_def Let_def)
  then show ?thesis using get by simp
qed

section \<open>Working on one session\<close>

text \<open>The trackers that lookups and stores of one session can lead to.\<close>

inductive works_on :: "session_key \<Rightarrow> 'v session_tracker \<Rightarrow> 'v session_tracker \<Rightarrow> bool" for key t where
  works_nothing: "works_on key t t"
| works_lookup: "works_on key t t' \<Longrightarrow> works_on key t (snd (lookup_session key t'))"
| works_store: "works_on key t t' \<Longrightarrow> works_on key t (snd (store_session key v t'))"

lemma works_on_max: "works_on key t t' \<Longrightarrow> st_max_sessions t' = st_max_sessions t"
  by (induction rule: works_on.induct) (simp_all add: lookup_session_eq)

lemma works_on_ok: "works_on key t t' \<Longrightarrow> sess_ok t \<Longrightarrow> sess_ok t'"
  by (induction rule: works_on.induct) (simp_all add: lookup_session_ok store_session_ok)

lemma recent_move_own: "recent k v T d \<Longrightarrow> recent k v T (move_to_end k d)"
  using recent_snoc [of "dict_del k d" k v] recent_mono [of k v "{}" _ T] recent_get [of k v T d]
  by (simp add: recent_def move_to_end_def dict_simps)

lemma store_session_recent:
  assumes r: "recent k v T (st_sessions t)" and j: "j \<noteq> k" and T: "finite T"
    and cap: "int (card (insert j T)) < st_max_sessions t"
  shows "recent k v (insert j T) (st_sessions (snd (store_session j w t)))"
proof -
  let ?d = "move_to_end j (dict_set j w (st_sessions t))"
  have "recent k v (insert j T) (dict_del j (st_sessions t) @ [(j, w)])"
    using recent_append [OF recent_del [OF r j], of j w] by (simp add: dict_simps)
  then have d: "recent k v (insert j T) ?d" by (simp only: move_to_end_set)
  have m: "0 < st_max_sessions t" using cap by linarith
  obtain popped rest where p: "pop_until (st_max_sessions t + 1) ?d = Inr (popped, rest)"
    using m pop_until_eq [of "st_max_sessions t + 1" ?d] by simp
  have "recent k v (insert j T) rest" using recent_pop [OF d _ _ p] T cap by simp
  then show ?thesis by (simp add: store_session_def p)
qed

text \<open>Work on another session keeps a session while there is room for both.\<close>

lemma works_on_recent:
  assumes "works_on j t t'" "recent k v T (st_sessions t)" "j \<noteq> k" "finite T"
    and "int (card (insert j T)) < st_max_sessions t"
  shows "recent k v (insert j T) (st_sessions t')"
  using assms
proof (induction rule: works_on.induct)
  case works_nothing
  then show ?case by (intro recent_mono [OF works_nothing.prems(1)] subset_insertI)
next
  case (works_lookup t')
  then have "recent k v (insert j T) (st_sessions t')" by blast
  from recent_move [OF this works_lookup.prems(2)] show ?case by (simp add: lookup_session_eq)
next
  case (works_store t' w)
  have "recent k v (insert j T) (st_sessions t')" using works_store.IH works_store.prems by blast
  moreover have "st_max_sessions t' = st_max_sessions t" using works_store.hyps by (rule works_on_max)
  ultimately have "recent k v (insert j (insert j T)) (st_sessions (snd (store_session j w t')))"
    using works_store.prems by (intro store_session_recent) (simp_all only: insert_absorb2 finite_insert simp_thms)
  then show ?case by (simp only: insert_absorb2)
qed

section \<open>Refinement of an unbounded map\<close>

text \<open>The answers a run of operations gives.\<close>

fun answers :: "('op \<Rightarrow> 's \<Rightarrow> 'r \<times> 's) \<Rightarrow> 'op list \<Rightarrow> 's \<Rightarrow> 'r list" where
  "answers step [] s = []"
| "answers step (op # ops) s = fst (step op s) # answers step ops (snd (step op s))"

text \<open>
  A tracker implements a specification when, related to a state of it, every operation gives the
  answer of the specification and stays related, provided the sessions recorded so far and the one the
  operation records fit. Then a whole run gives the answers of the specification.
\<close>

locale refined_tracker =
  fixes step :: "'op \<Rightarrow> 'c \<Rightarrow> 'r \<times> 'c"
    and spec :: "'op \<Rightarrow> 'm \<Rightarrow> 'r \<times> 'm"
    and rel :: "'c \<Rightarrow> 'm \<Rightarrow> bool"
    and records :: "'op \<Rightarrow> 'k set"
    and recorded :: "'m \<Rightarrow> 'k set"
    and room :: "'c \<Rightarrow> int"
  assumes step_answer: "rel c m \<Longrightarrow> int (card (recorded m \<union> records op)) \<le> room c \<Longrightarrow> fst (step op c) = fst (spec op m)"
    and step_rel: "rel c m \<Longrightarrow> int (card (recorded m \<union> records op)) \<le> room c \<Longrightarrow> rel (snd (step op c)) (snd (spec op m))"
    and step_room: "rel c m \<Longrightarrow> room (snd (step op c)) = room c"
    and spec_recorded: "recorded (snd (spec op m)) \<subseteq> recorded m \<union> records op"
    and finite_records: "finite (records op)"
    and finite_recorded: "rel c m \<Longrightarrow> finite (recorded m)"
begin

lemma run_refines:
  assumes "rel c m" "int (card (recorded m \<union> \<Union> (records ` set ops))) \<le> room c"
  shows "answers step ops c = answers spec ops m"
  using assms
proof (induction ops arbitrary: c m)
  case (Cons op ops)
  let ?all = "recorded m \<union> \<Union> (records ` set (op # ops))"
  have fin: "finite ?all" using finite_recorded [OF Cons.prems(1)] finite_records by auto
  have "card (recorded m \<union> records op) \<le> card ?all" by (rule card_mono [OF fin]) auto
  then have now: "int (card (recorded m \<union> records op)) \<le> room c" using Cons.prems(2) by simp
  have "recorded (snd (spec op m)) \<union> \<Union> (records ` set ops) \<subseteq> ?all" using spec_recorded [of op m] by auto
  from card_mono [OF fin this] have "int (card (recorded (snd (spec op m)) \<union> \<Union> (records ` set ops))) \<le> room (snd (step op c))"
    using Cons.prems(2) step_room [OF Cons.prems(1), of op] by simp
  with Cons.IH [OF step_rel [OF Cons.prems(1) now]] step_answer [OF Cons.prems(1) now] show ?case by simp
qed simp

end

text \<open>The retrieval-tool tracker: what a caller may ask, and the answers.\<close>

datatype retrieval_call = Has_Done string string | Golden_Bytes string string | Record_Done string string string | Ccr_Reset

datatype ccr_answer = Done_Flag bool | Pinned "string option" | Nothing

definition ccr_do :: "retrieval_call \<Rightarrow> ccr_tracker \<Rightarrow> (py_error + ccr_answer) \<times> ccr_tracker" where
  "ccr_do c t =
     (case c of
        Has_Done p s \<Rightarrow> apfst (map_sum id Done_Flag) (has_done_ccr p s t)
      | Golden_Bytes p s \<Rightarrow> apfst (map_sum id Pinned) (get_golden_tool_bytes p s t)
      | Record_Done p s b \<Rightarrow> apfst (map_sum id (\<lambda>_. Nothing)) (record_ccr_done p s b t)
      | Ccr_Reset \<Rightarrow> (Inr Nothing, sess_reset t))"

text \<open>The specification: a map from sessions to bytes, written once.\<close>

fun ccr_spec :: "retrieval_call \<Rightarrow> (session_key \<rightharpoonup> string) \<Rightarrow> (py_error + ccr_answer) \<times> (session_key \<rightharpoonup> string)" where
  "ccr_spec (Has_Done p s) m = (if p = [] \<or> s = [] then Inl ValueError else Inr (Done_Flag (m (p, s) \<noteq> None)), m)"
| "ccr_spec (Golden_Bytes p s) m = (if p = [] \<or> s = [] then Inl ValueError else Inr (Pinned (m (p, s))), m)"
| "ccr_spec (Record_Done p s b) m =
     (if p = [] \<or> s = [] \<or> b = [] then (Inl ValueError, m)
      else (Inr Nothing, if m (p, s) = None then m((p, s) \<mapsto> b) else m))"
| "ccr_spec Ccr_Reset m = (Inr Nothing, Map.empty)"

fun ccr_records :: "retrieval_call \<Rightarrow> session_key set" where
  "ccr_records (Record_Done p s b) = {(p, s)}"
| "ccr_records _ = {}"

definition ccr_rel :: "ccr_tracker \<Rightarrow> (session_key \<rightharpoonup> string) \<Rightarrow> bool" where
  "ccr_rel t m = (sess_ok t \<and> dict_get (st_sessions t) = map_option (\<lambda>b. (True, Some b)) \<circ> m)"

lemma session_key_of_eq: "session_key_of p s = (if p = [] \<or> s = [] then Inl ValueError else Inr (p, s))"
  by (simp add: session_key_of_def)

lemma sess_reset_ok: "sess_ok t \<Longrightarrow> sess_ok (sess_reset t)"
  by (simp add: sess_reset_def sess_ok_def)

lemma dom_rel: "dict_get d = map_option f \<circ> m \<Longrightarrow> dom m = dom (dict_get d)"
  by (auto simp: dom_def)

lemma finite_rel: "dict_get d = map_option f \<circ> m \<Longrightarrow> finite (dom m)"
  by (subst dom_rel, assumption, rule finite_dom_map_of)

text \<open>Storing what the map says, and looking it up.\<close>

lemma store_rel:
  assumes "sess_ok t" "dict_get (st_sessions t) = map_option f \<circ> m" "int (card (dom m \<union> {k})) \<le> st_max_sessions t"
  shows "sess_ok (snd (store_session k (f b) t))"
    "dict_get (st_sessions (snd (store_session k (f b) t))) = map_option f \<circ> m(k \<mapsto> b)"
  using assms dom_rel [OF assms(2)] store_session_room [of t k "f b"] by (auto simp: store_session_ok fun_eq_iff)

lemma lookup_rel:
  assumes "sess_ok t" "dict_get (st_sessions t) = map_option f \<circ> m"
  shows "fst (lookup_session k t) = map_option f (m k)" "sess_ok (snd (lookup_session k t))"
    "dict_get (st_sessions (snd (lookup_session k t))) = map_option f \<circ> m"
  using assms lookup_session_ok [of t k] by (cases k; auto simp: lookup_session_eq fun_eq_iff dict_simps)+

lemma sess_reset_rel: "dict_get (st_sessions (sess_reset t)) = map_option f \<circ> Map.empty"
  by (auto simp: sess_reset_def)

lemma ccr_done_eq:
  assumes "ccr_rel t m" "p \<noteq> []" "s \<noteq> []"
  shows "has_done_ccr p s t = (Inr (m (p, s) \<noteq> None), snd (lookup_session (p, s) t))"
    "get_golden_tool_bytes p s t = (Inr (m (p, s)), snd (lookup_session (p, s) t))"
proof -
  have "fst (lookup_session (p, s) t) = map_option (\<lambda>b. (True, Some b)) (m (p, s))"
    using assms(1) by (simp add: ccr_rel_def lookup_rel)
  then show "has_done_ccr p s t = (Inr (m (p, s) \<noteq> None), snd (lookup_session (p, s) t))"
    "get_golden_tool_bytes p s t = (Inr (m (p, s)), snd (lookup_session (p, s) t))"
    using assms(2,3) by (cases "m (p, s)"; cases "lookup_session (p, s) t";
        simp add: has_done_ccr_def get_golden_tool_bytes_def session_key_of_eq)+
qed

lemma ccr_record_eq:
  assumes "ccr_rel t m" "p \<noteq> []" "s \<noteq> []" "b \<noteq> []"
  shows "record_ccr_done p s b t =
    store_session (p, s) (True, Some (case m (p, s) of None \<Rightarrow> b | Some b' \<Rightarrow> b')) t"
  using assms by (cases "m (p, s)") (auto simp: record_ccr_done_def session_key_of_eq ccr_rel_def)

lemma ccr_rel_lookup: "ccr_rel t m \<Longrightarrow> ccr_rel (snd (lookup_session k t)) m"
  by (simp add: ccr_rel_def lookup_rel)

text \<open>Every call answers as the specification does, and keeps the relation.\<close>

lemma ccr_step_refines:
  assumes rel: "ccr_rel t m" and room: "int (card (dom m \<union> ccr_records c)) \<le> st_max_sessions t"
  shows "fst (ccr_do c t) = fst (ccr_spec c m) \<and> ccr_rel (snd (ccr_do c t)) (snd (ccr_spec c m))"
proof (cases c)
  case (Has_Done p s)
  then show ?thesis using rel ccr_done_eq(1) [OF rel, of p s] ccr_rel_lookup [OF rel]
    by (cases "p = [] \<or> s = []") (auto simp: ccr_do_def has_done_ccr_def session_key_of_eq)
next
  case (Golden_Bytes p s)
  then show ?thesis using rel ccr_done_eq(2) [OF rel, of p s] ccr_rel_lookup [OF rel]
    by (cases "p = [] \<or> s = []") (auto simp: ccr_do_def get_golden_tool_bytes_def session_key_of_eq)
next
  case (Record_Done p s b)
  show ?thesis
  proof (cases "p = [] \<or> s = [] \<or> b = []")
    case True
    then show ?thesis using Record_Done rel by (auto simp: ccr_do_def record_ccr_done_def session_key_of_eq)
  next
    case False
    let ?b = "case m (p, s) of None \<Rightarrow> b | Some b' \<Rightarrow> b'"
    have ok: "sess_ok t" "dict_get (st_sessions t) = map_option (\<lambda>b. (True, Some b)) \<circ> m"
      using rel by (simp_all add: ccr_rel_def)
    have "int (card (dom m \<union> {(p, s)})) \<le> st_max_sessions t" using room Record_Done by simp
    note st = store_rel [OF ok this, of ?b]
    have "m((p, s) \<mapsto> ?b) = snd (ccr_spec c m)" using False Record_Done by (auto simp: fun_eq_iff)
    moreover have "ccr_do c t = apfst (map_sum id (\<lambda>_. Nothing)) (store_session (p, s) (True, Some ?b) t)"
      using ccr_record_eq [OF rel, of p s b] False Record_Done by (simp add: ccr_do_def)
    ultimately show ?thesis
      using st store_session_done [OF ok(1), of "(p, s)" "(True, Some ?b)"] False Record_Done by (simp add: ccr_rel_def)
  qed
next
  case Ccr_Reset
  then show ?thesis using rel by (auto simp: ccr_do_def ccr_rel_def sess_reset_ok sess_reset_rel [simplified])
qed

lemma ccr_do_max: "ccr_rel t m \<Longrightarrow> st_max_sessions (snd (ccr_do c t)) = st_max_sessions t"
  by (cases c) (auto simp: ccr_do_def has_done_ccr_def get_golden_tool_bytes_def record_ccr_done_def sess_reset_def
      lookup_session_eq session_key_of_eq split: option.split)

interpretation rct: refined_tracker ccr_do ccr_spec ccr_rel ccr_records dom st_max_sessions
proof
  show "dom (snd (ccr_spec op m)) \<subseteq> dom m \<union> ccr_records op" for op m by (cases op) auto
  show "finite (ccr_records op)" for op by (cases op) simp_all
  show "finite (dom m)" if "ccr_rel c m" for c m
    using that by (auto simp: ccr_rel_def intro: finite_rel)
qed (simp_all add: ccr_step_refines ccr_do_max)

lemma ccr_rel_init: "sess_init n = Inr t \<Longrightarrow> ccr_rel t Map.empty"
  by (auto simp: ccr_rel_def sess_init_ok sess_init_def split: if_splits)

text \<open>The memory-tool tracker; its specification is a log of the first recording of each tool of a session.\<close>

datatype tool_call = Should_Inject string string | Golden_Definitions string string
  | Record_Injection string string string string | Tool_Reset

datatype tool_answer = Inject_Flag bool | Definitions "(string \<times> string) list option" | Stored

definition tool_do :: "tool_call \<Rightarrow> tool_tracker \<Rightarrow> (py_error + tool_answer) \<times> tool_tracker" where
  "tool_do c t =
     (case c of
        Should_Inject p s \<Rightarrow> apfst (map_sum id Inject_Flag) (should_inject p s t)
      | Golden_Definitions p s \<Rightarrow> apfst (map_sum id Definitions) (get_golden_definitions p s t)
      | Record_Injection p s n b \<Rightarrow> apfst (map_sum id (\<lambda>_. Stored)) (record_injection p s n b t)
      | Tool_Reset \<Rightarrow> (Inr Stored, sess_reset t))"

type_synonym tool_log = "(session_key \<times> string \<times> string) list"

definition log_of :: "tool_log \<Rightarrow> session_key \<Rightarrow> (string \<times> string) list" where
  "log_of lg k = map snd (filter (\<lambda>(j, d). j = k) lg)"

definition log_map :: "tool_log \<Rightarrow> session_key \<rightharpoonup> (string \<times> string) list" where
  "log_map lg k = (if log_of lg k = [] then None else Some (log_of lg k))"

fun tool_spec :: "tool_call \<Rightarrow> tool_log \<Rightarrow> (py_error + tool_answer) \<times> tool_log" where
  "tool_spec (Should_Inject p s) lg =
     (if p = [] \<or> s = [] then Inl ValueError else Inr (Inject_Flag (log_of lg (p, s) \<noteq> [])), lg)"
| "tool_spec (Golden_Definitions p s) lg =
     (if p = [] \<or> s = [] then Inl ValueError else Inr (Definitions (log_map lg (p, s))), lg)"
| "tool_spec (Record_Injection p s n b) lg =
     (if p = [] \<or> s = [] \<or> n = [] \<or> b = [] then (Inl ValueError, lg)
      else (Inr Stored, if n \<in> fst ` set (log_of lg (p, s)) then lg else lg @ [((p, s), n, b)]))"
| "tool_spec Tool_Reset lg = (Inr Stored, [])"

fun tool_records :: "tool_call \<Rightarrow> session_key set" where
  "tool_records (Record_Injection p s n b) = {(p, s)}"
| "tool_records _ = {}"

definition tool_rel :: "tool_tracker \<Rightarrow> tool_log \<Rightarrow> bool" where
  "tool_rel t lg = (sess_ok t \<and> dict_get (st_sessions t) = map_option id \<circ> log_map lg)"

lemma log_of_snoc: "log_of (lg @ [(j, d)]) k = log_of lg k @ (if j = k then [d] else [])"
  by (simp add: log_of_def)

lemma dom_log_map: "dom (log_map lg) = fst ` set lg"
  by (force simp: dom_def log_map_def log_of_def filter_empty_conv split: if_splits)

lemma tool_rel_get: "tool_rel t lg \<Longrightarrow> dict_get (st_sessions t) k = log_map lg k"
  by (simp add: tool_rel_def option.map_id)

lemma tool_lookup_eq:
  assumes "tool_rel t lg" "p \<noteq> []" "s \<noteq> []"
  shows "should_inject p s t = (Inr (log_of lg (p, s) \<noteq> []), snd (lookup_session (p, s) t))"
    "get_golden_definitions p s t = (Inr (log_map lg (p, s)), snd (lookup_session (p, s) t))"
proof -
  have "fst (lookup_session (p, s) t) = log_map lg (p, s)"
    using tool_rel_get [OF assms(1)] by (simp add: lookup_session_eq)
  then show "should_inject p s t = (Inr (log_of lg (p, s) \<noteq> []), snd (lookup_session (p, s) t))"
    "get_golden_definitions p s t = (Inr (log_map lg (p, s)), snd (lookup_session (p, s) t))"
    using assms(2,3) by (cases "log_of lg (p, s) = []"; cases "lookup_session (p, s) t";
        simp add: should_inject_def get_golden_definitions_def session_key_of_eq log_map_def)+
qed

lemma tool_rel_lookup: "tool_rel t lg \<Longrightarrow> tool_rel (snd (lookup_session k t)) lg"
  using lookup_rel [of t id "log_map lg" k] by (simp add: tool_rel_def)

lemma tool_record_eq:
  assumes "tool_rel t lg" "p \<noteq> []" "s \<noteq> []" "n \<noteq> []" "b \<noteq> []"
  shows "record_injection p s n b t = store_session (p, s) (log_of (snd (tool_spec (Record_Injection p s n b) lg)) (p, s)) t"
proof -
  let ?l = "log_of lg (p, s)"
  have e: "(case dict_get (st_sessions t) (p, s) of None \<Rightarrow> [] | Some entry \<Rightarrow> entry) = ?l"
    using tool_rel_get [OF assms(1)] by (simp add: log_map_def)
  have "(if dict_get ?l n = None then dict_set n b ?l else ?l)
      = log_of (snd (tool_spec (Record_Injection p s n b) lg)) (p, s)"
    using assms(2-) by (auto simp: dict_set_new log_of_snoc dict_get_None_iff)
  with assms(2-) show ?thesis by (simp only: record_injection_def session_key_of_eq e Let_def simp_thms if_False sum.case)
qed

lemma tool_step_refines:
  assumes rel: "tool_rel t lg" and room: "int (card (fst ` set lg \<union> tool_records c)) \<le> st_max_sessions t"
  shows "fst (tool_do c t) = fst (tool_spec c lg) \<and> tool_rel (snd (tool_do c t)) (snd (tool_spec c lg))"
proof (cases c)
  case (Should_Inject p s)
  then show ?thesis using rel tool_lookup_eq(1) [OF rel, of p s] tool_rel_lookup [OF rel]
    by (cases "p = [] \<or> s = []") (auto simp: tool_do_def should_inject_def session_key_of_eq)
next
  case (Golden_Definitions p s)
  then show ?thesis using rel tool_lookup_eq(2) [OF rel, of p s] tool_rel_lookup [OF rel]
    by (cases "p = [] \<or> s = []") (auto simp: tool_do_def get_golden_definitions_def session_key_of_eq)
next
  case (Record_Injection p s n b)
  show ?thesis
  proof (cases "p = [] \<or> s = [] \<or> n = [] \<or> b = []")
    case True
    then show ?thesis using Record_Injection rel by (auto simp: tool_do_def record_injection_def session_key_of_eq)
  next
    case False
    let ?new = "snd (tool_spec c lg)"
    have ok: "sess_ok t" "dict_get (st_sessions t) = map_option id \<circ> log_map lg"
      using rel by (simp_all add: tool_rel_def)
    have "int (card (dom (log_map lg) \<union> {(p, s)})) \<le> st_max_sessions t"
      using room Record_Injection by (simp add: dom_log_map)
    note st = store_rel [OF ok this, of "log_of ?new (p, s)", unfolded id_apply]
    have m: "(log_map lg)((p, s) \<mapsto> log_of ?new (p, s)) = log_map ?new"
    proof
      fix k
      show "((log_map lg)((p, s) \<mapsto> log_of ?new (p, s))) k = log_map ?new k"
      proof (cases "k = (p, s)")
        case True
        then show ?thesis using False Record_Injection by (auto simp: log_map_def log_of_snoc)
      next
        case neq: False
        then have "log_of ?new k = log_of lg k" using False Record_Injection by (auto simp: log_of_snoc)
        then show ?thesis using neq by (simp add: log_map_def)
      qed
    qed
    have "tool_rel (snd (store_session (p, s) (log_of ?new (p, s)) t)) ?new"
      using st m by (simp only: tool_rel_def simp_thms id_def)
    moreover have "tool_do c t = apfst (map_sum id (\<lambda>_. Stored)) (store_session (p, s) (log_of ?new (p, s)) t)"
      using tool_record_eq [OF rel, of p s n b] False Record_Injection by (simp add: tool_do_def)
    moreover have "fst (tool_spec c lg) = Inr Stored" using False Record_Injection by simp
    ultimately show ?thesis
      using store_session_done [OF ok(1), of "(p, s)" "log_of ?new (p, s)"] by (simp only: fst_apfst snd_apfst map_sum.simps simp_thms)
  qed
next
  case Tool_Reset
  then show ?thesis using rel
    by (simp add: tool_do_def tool_rel_def sess_reset_ok) (simp add: log_map_def log_of_def sess_reset_def fun_eq_iff)
qed

lemma tool_do_max: "st_max_sessions (snd (tool_do c t)) = st_max_sessions t"
  by (cases c) (auto simp: tool_do_def should_inject_def get_golden_definitions_def record_injection_def sess_reset_def
      lookup_session_eq session_key_of_eq Let_def split: option.split)

interpretation rtt: refined_tracker tool_do tool_spec tool_rel tool_records "\<lambda>lg. fst ` set lg" st_max_sessions
proof
  show "fst ` set (snd (tool_spec op lg)) \<subseteq> fst ` set lg \<union> tool_records op" for op lg by (cases op) auto
  show "finite (tool_records op)" for op by (cases op) simp_all
qed (simp_all add: tool_step_refines tool_do_max)

lemma tool_rel_init: "sess_init n = Inr t \<Longrightarrow> tool_rel t []"
  by (auto simp: tool_rel_def sess_init_ok sess_init_def log_map_def log_of_def fun_eq_iff split: if_splits)

section \<open>Beta headers\<close>

text \<open>A token of a header: stripped, not empty, no comma. Tokens that differ in more than case are distinct.\<close>

definition beta_token :: "string \<Rightarrow> bool" where
  "beta_token s = (s \<noteq> [] \<and> strip s = s \<and> CHR '','' \<notin> set s)"

definition beta_list :: "string list \<Rightarrow> bool" where
  "beta_list l = (list_all beta_token l \<and> distinct (map str_lower l))"

lemma strip_set: "set (strip s) \<subseteq> set s"
proof -
  have "set (dropWhile P l) \<subseteq> set l" for P and l :: string by (auto dest: set_dropWhileD)
  from this [of is_space "rev (dropWhile is_space s)"] this [of is_space s]
  show ?thesis by (auto simp: strip_def lstrip_def rstrip_def)
qed

lemma strip_strip: "strip (strip s) = strip s"
proof -
  let ?l = "dropWhile is_space s"
  have "dropWhile is_space (rev (dropWhile is_space (rev ?l))) = rev (dropWhile is_space (rev ?l))"
  proof (cases "rev (dropWhile is_space (rev ?l))")
    case (Cons c r)
    obtain z where "rev (rev ?l) = rev (dropWhile is_space (rev ?l)) @ z"
      by (metis rev_append takeWhile_dropWhile_id)
    then have "?l = c # r @ z" using Cons by simp
    then have "\<not> is_space c" using hd_dropWhile [of is_space s] by simp
    then show ?thesis using Cons by simp
  next
    case Nil
    then show ?thesis by (simp only: Nil dropWhile.simps)
  qed
  then show ?thesis by (simp add: strip_def lstrip_def rstrip_def)
qed

lemma split_beta_tokens_ok: "list_all beta_token (split_beta_tokens v)"
proof (cases v)
  case (Some s)
  have "CHR '','' \<notin> set (strip l)" if "l \<in> set (split_on (CHR '','') s)" for l
    using split_on_no_sep [OF that] strip_set [of l] by blast
  then show ?thesis using Some by (auto simp: split_beta_tokens_def list_all_iff beta_token_def strip_strip)
qed (simp add: split_beta_tokens_def)

lemma add_tokens_extends: "\<exists>new. add_tokens out tokens = out @ new \<and> set new \<subseteq> set tokens"
proof (induction out tokens rule: add_tokens.induct)
  case (2 out token tokens)
  then show ?case by (cases "str_lower token \<in> set (map str_lower out)") (force simp: subset_insertI2)+
qed simp

lemma add_tokens_seen:
  "set (map str_lower (add_tokens out tokens)) = set (map str_lower out) \<union> set (map str_lower tokens)"
  by (induction out tokens rule: add_tokens.induct) auto

lemma add_tokens_distinct: "distinct (map str_lower out) \<Longrightarrow> distinct (map str_lower (add_tokens out tokens))"
  by (induction out tokens rule: add_tokens.induct) auto

lemma add_tokens_ok: "beta_list out \<Longrightarrow> list_all beta_token tokens \<Longrightarrow> beta_list (add_tokens out tokens)"
  using add_tokens_extends [of out tokens] add_tokens_distinct [of out tokens]
  by (fastforce simp: beta_list_def list_all_iff)

lemma add_tokens_old: "set (map str_lower tokens) \<subseteq> set (map str_lower out) \<Longrightarrow> add_tokens out tokens = out"
  by (induction out tokens rule: add_tokens.induct) auto

lemma add_tokens_new: "distinct (map str_lower (out @ tokens)) \<Longrightarrow> add_tokens out tokens = out @ tokens"
  by (induction out tokens rule: add_tokens.induct) auto

text \<open>A header written from tokens is read back as these tokens.\<close>

lemma split_join_tokens: "beta_list l \<Longrightarrow> split_beta_tokens (Some (join_with '','' l)) = l"
proof (cases "l = []")
  case False
  assume l: "beta_list l"
  then have t: "list_all beta_token l" by (simp add: beta_list_def)
  then have "join_with '','' l \<noteq> []" using False by (auto simp: join_with_eq_Nil beta_token_def)
  moreover have "split_on (CHR '','') (join_with '','' l) = l"
    using False t by (intro split_join) (auto simp: list_all_iff beta_token_def)
  moreover have "map strip l = l" using t by (intro map_idI) (simp add: list_all_iff beta_token_def)
  moreover have "filter (\<lambda>token. token \<noteq> []) l = l" using t by (auto simp: filter_id_conv list_all_iff beta_token_def)
  ultimately show ?thesis by (simp add: split_beta_tokens_def)
qed (simp add: split_beta_tokens_def)

lemma add_tokens_self: "beta_list l \<Longrightarrow> add_tokens [] l = l"
  using add_tokens_new [of "[]" l] by (simp add: beta_list_def)

text \<open>Merging the required tokens once more changes nothing, so every stage may do it.\<close>

lemma merge_beta_tokens_again:
  assumes "\<And>token. token \<in> set headroom_required \<Longrightarrow> CHR '','' \<notin> set token"
  shows "merge_beta_tokens (Some (merge_beta_tokens v headroom_required)) headroom_required = merge_beta_tokens v headroom_required"
proof -
  let ?r = "filter (\<lambda>token. token \<noteq> []) (map strip (filter (\<lambda>token. token \<noteq> []) headroom_required))"
  let ?l = "add_tokens (add_tokens [] (split_beta_tokens v)) ?r"
  have "CHR '','' \<notin> set (strip token)" if "token \<in> set headroom_required" for token
    using assms [OF that] strip_set [of token] by blast
  then have "list_all beta_token ?r" by (auto simp: list_all_iff beta_token_def strip_strip)
  moreover have "beta_list (add_tokens [] (split_beta_tokens v))"
    by (rule add_tokens_ok) (simp_all add: beta_list_def split_beta_tokens_ok)
  ultimately have l: "beta_list ?l" by (rule add_tokens_ok [rotated])
  then have "add_tokens (add_tokens [] (split_beta_tokens (Some (join_with '','' ?l)))) ?r = add_tokens ?l ?r"
    by (simp only: split_join_tokens add_tokens_self)
  also have "\<dots> = ?l" by (rule add_tokens_old) (simp only: add_tokens_seen Un_upper2)
  finally show ?thesis by (simp only: merge_beta_tokens_def)
qed

section \<open>Sticking to a session\<close>

text \<open>A store adds nothing but its own session.\<close>

lemma store_session_from:
  assumes "sess_ok t" "dict_get (st_sessions (snd (store_session key v t))) j = Some w"
  shows "j = key \<and> w = v \<or> j \<noteq> key \<and> dict_get (st_sessions t) j = Some w"
proof -
  let ?d = "dict_del key (st_sessions t) @ [(key, v)]"
  have d: "dict_ok ?d" using assms(1) by (simp add: sess_ok_def dict_keys_del)
  have "(j, w) \<in> set (st_sessions (snd (store_session key v t)))" using assms(2) by (rule dict_get_Some_in)
  then have "(j, w) \<in> set ?d"
    using assms(1) set_drop_subset [of _ ?d] by (auto simp: store_session_eq sess_ok_def Let_def)
  from dict_in_get [OF d this] show ?thesis by (auto simp: dict_simps map_add_def split: if_splits option.splits)
qed

lemma store_session_own: "sess_ok t \<Longrightarrow> recent key v T (st_sessions (snd (store_session key v t)))"
  by (rule store_session_last [of t key v]) (auto intro: recent_mono [OF recent_snoc])

text \<open>
  What a session relies on: besides the LRU promise for the others' operations, its own ones keep what
  is held for it. Then it is held over any run in which the others use fewer distinct sessions than fit.
\<close>

locale pinned_lru = lru_retention step used cap held
  for step :: "'op \<Rightarrow> 'c \<Rightarrow> 'c" and used :: "'op \<Rightarrow> 'k set" and cap :: "'c \<Rightarrow> int"
    and held :: "'k \<Rightarrow> 'v \<Rightarrow> 'k set \<Rightarrow> 'c \<Rightarrow> bool" +
  assumes own_step: "held k v T c \<Longrightarrow> k \<in> used op \<Longrightarrow> held k v T (step op c)"
    and one_used: "k \<in> used op \<Longrightarrow> used op = {k}"
begin

lemma pinned_run:
  assumes "held k v T c" "finite T" "int (card (T \<union> (\<Union> (used ` set ops) - {k}))) < cap c"
  shows "held k v (T \<union> (\<Union> (used ` set ops) - {k})) (fold step ops c)"
  using assms
proof (induction ops arbitrary: T c)
  case (Cons op ops)
  show ?case
  proof (cases "k \<in> used op")
    case True
    then have "held k v T (step op c)" using Cons.prems by (intro own_step)
    with Cons.IH [OF this] Cons.prems True one_used [OF True] cap_step show ?thesis by simp
  next
    case False
    let ?rest = "\<Union> (used ` set ops) - {k}"
    have all: "T \<union> (\<Union> (used ` set (op # ops)) - {k}) = (T \<union> used op) \<union> ?rest" using False by auto
    have fin: "finite ((T \<union> used op) \<union> ?rest)" using Cons.prems(2) finite_used by auto
    have "card (T \<union> used op) \<le> card ((T \<union> used op) \<union> ?rest)" by (rule card_mono [OF fin]) auto
    with Cons.prems(3) have "int (card (T \<union> used op)) < cap c" by (simp only: all)
    with Cons.prems(1,2) False have "held k v (T \<union> used op) (step op c)" by (intro held_step)
    with Cons.IH [OF this] Cons.prems finite_used cap_step show ?thesis by (simp only: all fold_simps finite_Un simp_thms)
  qed
qed simp

end

text \<open>A turn of the beta-header tracker, as the handlers take it for every request.\<close>

record beta_turn =
  bt_env :: "string option"
  bt_provider :: string
  bt_session_id :: string
  bt_client_value :: "string option"

definition beta_run :: "beta_turn \<Rightarrow> beta_tracker \<Rightarrow> beta_tracker" where
  "beta_run b t = snd (record_and_get_sticky_betas (bt_env b) (bt_provider b) (bt_session_id b) (bt_client_value b) t)"

definition beta_used :: "beta_turn \<Rightarrow> session_key set" where
  "beta_used b = {(bt_provider b, bt_session_id b)}"

definition beta_inv :: "beta_tracker \<Rightarrow> bool" where
  "beta_inv t = (sess_ok t \<and> (\<forall>k v. dict_get (st_sessions t) k = Some v \<longrightarrow> beta_list v))"

text \<open>The tokens a turn leaves: those of the session so far, and the new ones of the client.\<close>

definition session_tokens :: "session_key \<Rightarrow> beta_tracker \<Rightarrow> string list" where
  "session_tokens k t = (case dict_get (st_sessions t) k of None \<Rightarrow> [] | Some l \<Rightarrow> l)"

lemma record_betas_eq:
  assumes "resolve_beta_header_sticky_mode env = Inr ''enabled''" "p \<noteq> []" "s \<noteq> []" "sess_ok t"
  shows "record_and_get_sticky_betas env p s v t =
    (let l = add_tokens (session_tokens (p, s) t) (split_beta_tokens v)
     in (Inr (join_with '','' l), snd (store_session (p, s) l (snd (lookup_session (p, s) t)))))"
proof -
  obtain t' where lk: "lookup_session (p, s) t = (dict_get (st_sessions t) (p, s), t')" "sess_ok t'"
    using lookup_session_ok [OF assms(4), of "(p, s)"] by (simp add: lookup_session_eq)
  let ?l = "add_tokens (session_tokens (p, s) t) (split_beta_tokens v)"
  obtain u where "store_session (p, s) ?l t' = (Inr (), u)"
    using store_session_done [OF lk(2)] by (metis prod.collapse)
  then show ?thesis
    using assms(1-3) lk(1) by (simp add: record_and_get_sticky_betas_def session_key_of_eq session_tokens_def)
qed

lemma record_betas_off:
  assumes "resolve_beta_header_sticky_mode env \<noteq> Inr ''enabled'' \<or> p = [] \<or> s = []"
  shows "snd (record_and_get_sticky_betas env p s v t) = t"
proof -
  have "resolve_beta_header_sticky_mode env \<in> {Inr ''enabled'', Inr ''disabled'', Inl ValueError}"
    by (simp add: resolve_beta_header_sticky_mode_def Let_def)
  with assms show ?thesis by (auto simp: record_and_get_sticky_betas_def session_key_of_eq)
qed

lemma beta_run_cases:
  assumes "sess_ok t"
  obtains (off) "beta_run b t = t"
    | (stored) l where "beta_run b t = snd (store_session (bt_provider b, bt_session_id b) l
          (snd (lookup_session (bt_provider b, bt_session_id b) t)))"
        "l = add_tokens (session_tokens (bt_provider b, bt_session_id b) t) (split_beta_tokens (bt_client_value b))"
proof (cases "resolve_beta_header_sticky_mode (bt_env b) \<noteq> Inr ''enabled'' \<or> bt_provider b = [] \<or> bt_session_id b = []")
  case True
  then show ?thesis using record_betas_off off by (simp add: beta_run_def)
next
  case False
  then show ?thesis using record_betas_eq [OF _ _ _ assms] stored by (simp add: beta_run_def Let_def)
qed

lemma beta_run_works: "sess_ok t \<Longrightarrow> works_on (bt_provider b, bt_session_id b) t (beta_run b t)"
  by (rule beta_run_cases [of t b]) (auto intro: works_on.intros)

lemma session_tokens_ok: "beta_inv t \<Longrightarrow> beta_list (session_tokens k t)"
  by (cases k) (auto simp: beta_inv_def session_tokens_def beta_list_def split: option.split)

lemma lookup_session_get [simp]: "dict_get (st_sessions (snd (lookup_session j t))) k = dict_get (st_sessions t) k"
  by (simp add: lookup_session_eq dict_simps)

lemma beta_inv_store:
  assumes "beta_inv t" "beta_list l"
  shows "beta_inv (snd (store_session j l (snd (lookup_session j t))))"
proof -
  have ok: "sess_ok (snd (lookup_session j t))" using assms(1) by (simp add: beta_inv_def lookup_session_ok)
  moreover have "beta_list v" if "dict_get (st_sessions (snd (store_session j l (snd (lookup_session j t))))) k = Some v" for k v
    using store_session_from [OF ok that] assms by (cases k) (auto simp: beta_inv_def)
  ultimately show ?thesis by (simp add: beta_inv_def store_session_ok)
qed

lemma beta_inv_run: "beta_inv t \<Longrightarrow> beta_inv (beta_run b t)"
  by (rule beta_run_cases [of t b])
    (auto simp: beta_inv_def [of t] intro!: beta_inv_store add_tokens_ok session_tokens_ok split_beta_tokens_ok)

lemma beta_inv_runs: "beta_inv t \<Longrightarrow> beta_inv (fold beta_run bs t)"
  by (induction bs arbitrary: t) (simp_all add: beta_inv_run)

text \<open>A session holds the tokens \<open>l\<close> and possibly more behind them.\<close>

definition beta_held :: "session_key \<Rightarrow> string list \<Rightarrow> session_key set \<Rightarrow> beta_tracker \<Rightarrow> bool" where
  "beta_held k l T t = (sess_ok t \<and> (\<exists>new. recent k (l @ new) T (st_sessions t)))"

lemma beta_held_own:
  assumes "beta_held k l T t" "k \<in> beta_used b"
  shows "beta_held k l T (beta_run b t)"
proof (rule beta_run_cases [of t b])
  obtain new where ok: "sess_ok t" and r: "recent k (l @ new) T (st_sessions t)"
    using assms(1) by (auto simp: beta_held_def)
  show "sess_ok t" by (rule ok)
  show ?thesis if "beta_run b t = t" using that assms(1) by simp
  fix l'
  assume st: "beta_run b t = snd (store_session (bt_provider b, bt_session_id b) l'
          (snd (lookup_session (bt_provider b, bt_session_id b) t)))"
    and l': "l' = add_tokens (session_tokens (bt_provider b, bt_session_id b) t) (split_beta_tokens (bt_client_value b))"
  have k: "(bt_provider b, bt_session_id b) = k" using assms(2) by (simp add: beta_used_def)
  obtain new' where "l' = l @ new @ new'"
    using l' add_tokens_extends [of "l @ new"] recent_get [OF r] by (auto simp: k session_tokens_def)
  then show ?thesis
    using store_session_own [OF lookup_session_ok [OF ok], of k l'] store_session_ok [OF lookup_session_ok [OF ok], of k l']
    unfolding beta_held_def st k by blast
qed

interpretation bt: pinned_lru beta_run beta_used st_max_sessions beta_held
proof
  fix k l T t b
  assume held: "beta_held k l T t" and b: "k \<notin> beta_used b" "finite T" "int (card (T \<union> beta_used b)) < st_max_sessions t"
  then show "beta_held k l (T \<union> beta_used b) (beta_run b t)"
    using works_on_recent [OF beta_run_works] works_on_ok [OF beta_run_works] unfolding beta_held_def beta_used_def
    by (metis Un_insert_right sup_bot_right insertI1)
next
  show "st_max_sessions (beta_run b t) = st_max_sessions t" for b t
    by (simp add: beta_run_def record_and_get_sticky_betas_def lookup_session_eq Let_def snd_st_then split: sum.split)
qed (auto simp: beta_held_own beta_used_def)

lemma beta_inv_init: "sess_init n = Inr t \<Longrightarrow> beta_inv t"
  by (auto simp: beta_inv_def sess_init_ok sess_init_def split: if_splits)

lemma sess_init_max: "sess_init n = Inr t \<Longrightarrow> st_max_sessions t = n"
  by (auto simp: sess_init_def split: if_splits)

lemma beta_runs_max: "st_max_sessions (fold beta_run bs t) = st_max_sessions t"
  by (induction bs arbitrary: t) (simp_all add: bt.cap_step)

section \<open>Properties\<close>

text \<open>C13: the memory-tool tracker implements a write-once log. A caller that makes any sequence of calls
  (asking whether to inject, reading the definitions, recording, resetting, with bad arguments too) gets
  from a tracker with a bound of \<open>n\<close> sessions exactly the answers, exceptions included, that the log of first
  recordings gives, as long as the calls record for at most \<open>n\<close> sessions: the nested dictionaries, the
  reordering and the eviction cannot be observed.\<close>
theorem tool_tracker_refines_log:
  assumes "sess_init n = Inr t" "int (card (\<Union> (tool_records ` set calls))) \<le> n"
  shows "answers tool_do calls t = answers tool_spec calls []"
  by (rule rtt.run_refines) (use assms in \<open>simp_all add: tool_rel_init sess_init_max\<close>)

text \<open>The retrieval-tool tracker implements a write-once map. Its pair of a flag and optional bytes, with
  recency and eviction, answers every sequence of calls as a map from sessions to the first bytes
  recorded does, while at most \<open>n\<close> sessions are recorded for.\<close>
lemma ccr_tracker_refines_map:
  assumes "sess_init n = Inr t" "int (card (\<Union> (ccr_records ` set calls))) \<le> n"
  shows "answers ccr_do calls t = answers ccr_spec calls Map.empty"
  by (rule rct.run_refines) (use assms in \<open>simp_all add: ccr_rel_init sess_init_max\<close>)

text \<open>C26: the beta tokens of a session only grow. With \<open>HEADROOM_BETA_HEADER_STICKY\<close> enabled, as it is by default:
  after any history, let a call of \<open>record_and_get_sticky_betas\<close> for session \<open>s\<close> with the client's header \<open>v\<close> return a value.
  Whatever calls follow, for this session and for fewer than \<open>n\<close> other sessions, the value a later call for \<open>s\<close> with
  the setting enabled returns starts with the tokens returned before, in the same order, lacks none of the tokens the client sends then,
  whatever their casing, and has none twice. What the handler does with the value is not part of it: it may merge the
  memory tool's tokens behind it, and restores the client's header on an unchanged streamed body to another upstream.\<close>
theorem beta_header_grows:
  assumes t: "sess_init n = Inr t0" "t = fold beta_run history t0"
    and on: "resolve_beta_header_sticky_mode env = Inr ''enabled''" "resolve_beta_header_sticky_mode env' = Inr ''enabled''"
    and key: "p \<noteq> []" "s \<noteq> []"
    and turn: "record_and_get_sticky_betas env p s v t = (Inr header, t1)"
    and few: "int (card (\<Union> (beta_used ` set turns) - {(p, s)})) < n"
    and later: "fst (record_and_get_sticky_betas env' p s v' (fold beta_run turns t1)) = Inr header'"
  shows "\<exists>new. split_beta_tokens (Some header') = split_beta_tokens (Some header) @ new
    \<and> set (map str_lower (split_beta_tokens v')) \<subseteq> set (map str_lower (split_beta_tokens (Some header')))
    \<and> distinct (map str_lower (split_beta_tokens (Some header')))"
proof -
  have inv: "beta_inv t" using t by (simp add: beta_inv_runs beta_inv_init)
  have max: "st_max_sessions t = n" using t by (simp add: beta_runs_max sess_init_max)
  let ?l = "add_tokens (session_tokens (p, s) t) (split_beta_tokens v)"
  have ok: "sess_ok t" using inv by (simp add: beta_inv_def)
  have h: "header = join_with '','' ?l" "t1 = snd (store_session (p, s) ?l (snd (lookup_session (p, s) t)))"
    using turn record_betas_eq [OF on(1) key ok, of v] by (simp_all add: Let_def)
  have l: "beta_list ?l" using inv by (intro add_tokens_ok session_tokens_ok split_beta_tokens_ok)
  have inv1: "beta_inv t1" using beta_inv_store [OF inv l] h(2) by simp
  have max1: "st_max_sessions t1 = n" using max by (simp add: h(2) lookup_session_eq)
  have "recent (p, s) ?l {} (st_sessions t1)" unfolding h(2) by (intro store_session_own lookup_session_ok ok)
  then have "beta_held (p, s) ?l {} t1" using inv1 by (auto simp: beta_held_def beta_inv_def intro: exI [of _ "[]"])
  then have "beta_held (p, s) ?l ({} \<union> (\<Union> (beta_used ` set turns) - {(p, s)})) (fold beta_run turns t1)"
    using few max1 by (intro bt.pinned_run) simp_all
  then obtain new where held: "session_tokens (p, s) (fold beta_run turns t1) = ?l @ new"
    using recent_get by (fastforce simp: beta_held_def session_tokens_def)
  have inv2: "beta_inv (fold beta_run turns t1)" using inv1 by (rule beta_inv_runs)
  let ?l' = "add_tokens (?l @ new) (split_beta_tokens v')"
  have "header' = join_with '','' ?l'"
    using later record_betas_eq [OF on(2) key, of "fold beta_run turns t1" v'] inv2 held by (simp add: Let_def beta_inv_def)
  moreover have l': "beta_list ?l'"
    using session_tokens_ok [OF inv2, of "(p, s)"] held by (intro add_tokens_ok split_beta_tokens_ok) simp
  ultimately have "split_beta_tokens (Some header') = ?l'" by (simp only: split_join_tokens)
  moreover have "split_beta_tokens (Some header) = ?l" using h(1) l by (simp only: split_join_tokens)
  ultimately show ?thesis
    using add_tokens_extends [of "?l @ new" "split_beta_tokens v'"] add_tokens_seen [of "?l @ new" "split_beta_tokens v'"] l'
    by (auto simp: beta_list_def)
qed

definition sample_tool_calls :: "tool_call list" where
  "sample_tool_calls =
     [Record_Injection ''openai'' ''s1'' ''memory_save'' ''{1}'', Record_Injection ''openai'' ''s2'' ''memory_save'' ''{2}'',
      Should_Inject ''openai'' ''s1'', Record_Injection ''openai'' ''s1'' ''memory_save'' ''{3}'',
      Record_Injection ''openai'' ''s1'' ''memory_search'' ''{4}'', Golden_Definitions ''openai'' ''s1'', Should_Inject ''openai'' []]"

lemma sample_tool_records: "\<Union> (tool_records ` set sample_tool_calls) = {(''openai'', ''s1''), (''openai'', ''s2'')}"
  by (auto simp: sample_tool_calls_def)

lemma tool_tracker_refines_log_witness:
  "answers tool_do sample_tool_calls \<lparr>st_max_sessions = 2, st_sessions = []\<rparr>
   = [Inr Stored, Inr Stored, Inr (Inject_Flag True), Inr Stored, Inr Stored,
      Inr (Definitions (Some [(''memory_save'', ''{1}''), (''memory_search'', ''{4}'')])), Inl ValueError]"
proof -
  have "answers tool_do sample_tool_calls \<lparr>st_max_sessions = 2, st_sessions = []\<rparr> = answers tool_spec sample_tool_calls []"
    by (rule tool_tracker_refines_log [of 2]) (simp_all add: sess_init_def sample_tool_records)
  then show ?thesis by (simp add: sample_tool_calls_def log_of_def log_map_def)
qed

definition sample_ccr_calls :: "retrieval_call list" where
  "sample_ccr_calls =
     [Has_Done ''openai'' ''s1'', Record_Done ''openai'' ''s1'' ''{1}'', Record_Done ''openai'' ''s1'' ''{2}'',
      Golden_Bytes ''openai'' ''s1'', Golden_Bytes ''anthropic'' ''s1'', Record_Done ''openai'' ''s1'' []]"

lemma ccr_tracker_refines_map_witness:
  "answers ccr_do sample_ccr_calls \<lparr>st_max_sessions = 1, st_sessions = []\<rparr>
   = [Inr (Done_Flag False), Inr Nothing, Inr Nothing, Inr (Pinned (Some ''{1}'')), Inr (Pinned None), Inl ValueError]"
proof -
  have "\<Union> (ccr_records ` set sample_ccr_calls) = {(''openai'', ''s1'')}" by (auto simp: sample_ccr_calls_def)
  then have "answers ccr_do sample_ccr_calls \<lparr>st_max_sessions = 1, st_sessions = []\<rparr> = answers ccr_spec sample_ccr_calls Map.empty"
    by (intro ccr_tracker_refines_map [of 1]) (simp_all add: sess_init_def)
  then show ?thesis by (simp add: sample_ccr_calls_def)
qed

definition sample_beta :: "string \<Rightarrow> string option \<Rightarrow> beta_turn" where
  "sample_beta s v = \<lparr>bt_env = None, bt_provider = ''anthropic'', bt_session_id = s, bt_client_value = v\<rparr>"

definition sample_beta_tracker :: beta_tracker where
  "sample_beta_tracker = \<lparr>st_max_sessions = 2, st_sessions = []\<rparr>"

lemma sample_beta_first:
  "record_and_get_sticky_betas None ''anthropic'' ''s'' (Some ''b1, B2'') sample_beta_tracker
   = (Inr ''b1,B2'', \<lparr>st_max_sessions = 2, st_sessions = [((''anthropic'', ''s''), [''b1'', ''B2''])]\<rparr>)"
  by code_simp

lemma sample_beta_later:
  "fst (record_and_get_sticky_betas None ''anthropic'' ''s'' (Some ''b2,b4'')
     (fold beta_run [sample_beta ''other'' (Some ''x''), sample_beta ''s'' (Some ''b3'')]
       \<lparr>st_max_sessions = 2, st_sessions = [((''anthropic'', ''s''), [''b1'', ''B2''])]\<rparr>)) = Inr ''b1,B2,b3,b4''"
  by code_simp

lemma beta_header_grows_witness:
  "\<exists>new. split_beta_tokens (Some ''b1,B2,b3,b4'') = split_beta_tokens (Some ''b1,B2'') @ new"
proof -
  have used: "\<Union> (beta_used ` set [sample_beta ''other'' (Some ''x''), sample_beta ''s'' (Some ''b3'')]) - {(''anthropic'', ''s'')}
      = {(''anthropic'', ''other'')}"
    by (auto simp: beta_used_def sample_beta_def)
  have init: "sess_init 2 = Inr sample_beta_tracker" by (simp add: sess_init_def sample_beta_tracker_def)
  from beta_header_grows [OF init _ _ _ _ _ sample_beta_first _ sample_beta_later, of "[]"]
  show ?thesis unfolding used by (simp add: resolve_beta_header_sticky_mode_def str_eval)
qed

end
