(* ===== verification/Sticky_Tools.thy ===== *)
theory Sticky_Tools
  imports Session_Trackers CCR_Tool_Injection SSE_Buffer
begin

text \<open>
  Session-sticky tool injection: \<open>apply_session_sticky_ccr_tool\<close> and \<open>apply_session_sticky_memory_tools\<close> of
  \<open>headroom/proxy/helpers.py\<close>, the policies they call (\<open>tool_name_policy.py\<close>, \<open>ccr_golden_policy.py\<close>,
  \<open>memory_golden_policy.py\<close>, \<open>ccr_marker_policy.py\<close>), and the stages of the two handlers that decide whether
  to inject the retrieval tool. A tool is a decoded JSON value; the pinned bytes are its compact
  \<open>json.dumps\<close> in UTF-8, decoded again with \<open>json.loads\<close>, a parameter here as in the tool calls. Log lines
  are left out.
\<close>

section \<open>Bytes and names\<close>

text \<open>\<open>bytes.decode("utf-8")\<close>; code points beyond 255 are outside the range of \<open>char\<close>.\<close>

definition bytes_decode :: "string \<Rightarrow> py_error + string" where
  "bytes_decode b = and_then (utf8_decode (map of_char b)) (\<lambda>t. Inr (map char_of t))"

definition serialize_canonical :: "(rat \<Rightarrow> string) \<Rightarrow> json \<Rightarrow> string" where
  "serialize_canonical frepr tool_definition = utf8_encode (json_compact json_escape_char frepr tool_definition)"

text \<open>Decoding pinned bytes: \<open>None\<close> is \<open>UnicodeDecodeError\<close> or \<open>JSONDecodeError\<close>, which the callers catch.\<close>

definition replay_golden :: "json_loads \<Rightarrow> string \<Rightarrow> py_error + json option" where
  "replay_golden loads golden_tool_bytes =
     (case bytes_decode golden_tool_bytes of
        Inl e \<Rightarrow> Inr None
      | Inr text_form \<Rightarrow>
          (case loads text_form of
             Inl JSONDecodeError \<Rightarrow> Inr None
           | Inl (LoadsError e) \<Rightarrow> Inl e
           | Inr tool_definition \<Rightarrow> Inr (Some tool_definition)))"

fun filled_str :: "json \<Rightarrow> string option" where
  "filled_str (JStr s) = (if s = [] then None else Some s)"
| "filled_str _ = None"

definition extract_tool_name :: "json \<Rightarrow> py_error + string option" where
  "extract_tool_name tool_definition =
     (case tool_definition of
        JDict d \<Rightarrow>
          Inr (case filled_str (dict_get_default d ''name'' JNull) of
                 Some name \<Rightarrow> Some name
               | None \<Rightarrow>
                   (case (case dict_get_default d ''function'' JNull of
                            JDict f \<Rightarrow> filled_str (dict_get_default f ''name'' JNull)
                          | _ \<Rightarrow> None) of
                      Some function_name \<Rightarrow> Some function_name
                    | None \<Rightarrow> filled_str (dict_get_default d ''type'' JNull)))
      | _ \<Rightarrow> Inl AttributeError)"

text \<open>The set of names in a tool list, here as a list.\<close>

definition add_name :: "json \<Rightarrow> string list \<Rightarrow> py_error + string list" where
  "add_name t names =
     and_then (extract_tool_name t) (\<lambda>n. Inr (case n of None \<Rightarrow> names | Some n \<Rightarrow> n # names))"

definition existing_names_of :: "json list \<Rightarrow> py_error + string list" where
  "existing_names_of tools = fold_err add_name tools []"

section \<open>The retrieval tool\<close>

text \<open>Errors of the list come first: the provider, then a tool that is no dictionary.\<close>

definition apply_session_sticky_ccr_tool ::
  "json_loads \<Rightarrow> (rat \<Rightarrow> string) \<Rightarrow> string \<Rightarrow> string option \<Rightarrow> json list option \<Rightarrow> bool \<Rightarrow> ccr_tracker
    \<Rightarrow> (json list \<times> bool, bool \<times> string option) tracked" where
  "apply_session_sticky_ccr_tool loads frepr provider session_id existing_tools has_compressed_content_this_turn t =
     (if provider \<notin> {''anthropic'', ''openai'', ''google''} then (Inl ValueError, t)
      else
        let tools_out = tools_or_empty existing_tools;
            fresh = create_ccr_tool_definition provider
        in case existing_names_of tools_out of
             Inl e \<Rightarrow> (Inl e, t)
           | Inr existing_names \<Rightarrow>
               if CCR_TOOL_NAME \<in> set existing_names then (Inr (tools_out, False), t)
               else if or_empty session_id = []
               then (Inr (if has_compressed_content_this_turn then (tools_out @ [fresh], True) else (tools_out, False)), t)
               else
                 let sid = or_empty session_id
                 in
                     st_then (has_done_ccr provider sid t) (\<lambda>previously_done t.
                       if previously_done then
                         st_then (get_golden_tool_bytes provider sid t) (\<lambda>golden t.
                           case (case golden of None \<Rightarrow> Inr None | Some b \<Rightarrow> replay_golden loads b) of
                             Inl e \<Rightarrow> (Inl e, t)
                           | Inr (Some tool_definition) \<Rightarrow> (Inr (tools_out @ [tool_definition], True), t)
                           | Inr None \<Rightarrow>
                               st_then (record_ccr_done provider sid (serialize_canonical frepr fresh) t)
                                 (\<lambda>_ t. (Inr (tools_out @ [fresh], True), t)))
                       else if \<not> has_compressed_content_this_turn then (Inr (tools_out, False), t)
                       else
                         st_then (record_ccr_done provider sid (serialize_canonical frepr fresh) t)
                           (\<lambda>_ t. (Inr (tools_out @ [fresh], True), t))))"

definition has_new_ccr_markers ::
  "string list \<Rightarrow> message list option \<Rightarrow> string \<Rightarrow> py_error + bool" where
  "has_new_ccr_markers current_detected_hashes previous_forwarded_messages provider =
     (if current_detected_hashes = [] then Inr False
      else case previous_forwarded_messages of
             None \<Rightarrow> Inr True
           | Some [] \<Rightarrow> Inr True
           | Some messages \<Rightarrow>
               and_then (scan_for_markers messages (injector_init provider False False ''/v1/retrieve'')) (\<lambda>previous.
                 Inr (filter (\<lambda>h. h \<notin> set (ti_detected_hashes previous)) current_detected_hashes \<noteq> [])))"

definition should_inject_ccr_tool :: "bool \<Rightarrow> int \<Rightarrow> bool \<Rightarrow> bool \<times> bool" where
  "should_inject_ccr_tool configured_inject_tool frozen_message_count fresh_content =
     (let inject_tool = (if configured_inject_tool \<and> 0 < frozen_message_count then False else configured_inject_tool);
          is_marker_override = (\<not> inject_tool \<and> fresh_content)
      in (inject_tool \<or> is_marker_override, is_marker_override))"

text \<open>
  The stage of the Anthropic handler, behind the scan that found the hashes \<open>detected\<close> in the messages, and
  that of the OpenAI handler. \<open>tools\<close> is \<open>body.get("tools")\<close>.
\<close>

definition anthropic_ccr_tool_stage ::
  "json_loads \<Rightarrow> (rat \<Rightarrow> string) \<Rightarrow> bool \<Rightarrow> int \<Rightarrow> string list \<Rightarrow> message list option \<Rightarrow> string option
    \<Rightarrow> json list option \<Rightarrow> ccr_tracker \<Rightarrow> (json list option, bool \<times> string option) tracked" where
  "anthropic_ccr_tool_stage loads frepr configured_inject_tool frozen_message_count detected previous session_id tools t =
     (case has_new_ccr_markers detected previous ''anthropic'' of
        Inl e \<Rightarrow> (Inl e, t)
      | Inr has_new_compressed_content \<Rightarrow>
          if fst (should_inject_ccr_tool configured_inject_tool frozen_message_count has_new_compressed_content)
          then st_then (apply_session_sticky_ccr_tool loads frepr ''anthropic'' session_id tools has_new_compressed_content t)
                 (\<lambda>r t. (Inr (Some (fst r)), t))
          else (Inr tools, t))"

definition openai_ccr_tool_stage ::
  "json_loads \<Rightarrow> (rat \<Rightarrow> string) \<Rightarrow> bool \<Rightarrow> string list \<Rightarrow> message list option \<Rightarrow> string option
    \<Rightarrow> json list option \<Rightarrow> ccr_tracker \<Rightarrow> (json list option, bool \<times> string option) tracked" where
  "openai_ccr_tool_stage loads frepr ccr_inject_tool detected previous session_id tools t =
     (if \<not> ccr_inject_tool then (Inr tools, t)
      else case has_new_ccr_markers detected previous ''openai'' of
             Inl e \<Rightarrow> (Inl e, t)
           | Inr has_new_compressed_content \<Rightarrow>
               st_then (apply_session_sticky_ccr_tool loads frepr ''openai'' session_id tools has_new_compressed_content t)
                 (\<lambda>r t. (Inr (Some (fst r)), t)))"

section \<open>The memory tools\<close>

text \<open>Appending definitions whose name is new; a definition without a name is skipped. The number counts bytes.\<close>

type_synonym tool_list = "json list \<times> string list \<times> nat"

definition append_tool :: "(rat \<Rightarrow> string) \<Rightarrow> json \<Rightarrow> tool_list \<Rightarrow> py_error + tool_list" where
  "append_tool frepr tool_def st =
     (case st of (tools_out, existing_names, added_bytes) \<Rightarrow>
        and_then (extract_tool_name tool_def) (\<lambda>tn.
          case tn of
            None \<Rightarrow> Inr st
          | Some tn \<Rightarrow>
              if tn \<in> set existing_names then Inr st
              else Inr (tools_out @ [tool_def], tn # existing_names,
                        added_bytes + length (serialize_canonical frepr tool_def))))"

definition append_this_turn ::
  "(rat \<Rightarrow> string) \<Rightarrow> json list \<Rightarrow> json list \<Rightarrow> string list \<Rightarrow> bool \<Rightarrow> py_error + json list \<times> bool" where
  "append_this_turn frepr memory_tools tools_out existing_names inject_this_turn =
     (if \<not> inject_this_turn then Inr (tools_out, False)
      else and_then (fold_err (append_tool frepr) memory_tools (tools_out, existing_names, 0))
             (\<lambda>(tools_out, _, added_bytes). Inr (tools_out, 0 < added_bytes)))"

definition replay_tool :: "json_loads \<Rightarrow> string \<times> string \<Rightarrow> tool_list \<Rightarrow> py_error + tool_list" where
  "replay_tool loads golden st =
     (case (golden, st) of ((tn, golden_bytes), (tools_out, existing_names, replay_bytes)) \<Rightarrow>
        if tn \<in> set existing_names then Inr st
        else and_then (replay_golden loads golden_bytes) (\<lambda>d.
               case d of
                 None \<Rightarrow> Inr st
               | Some tool_definition \<Rightarrow>
                   Inr (tools_out @ [tool_definition], tn # existing_names, replay_bytes + length golden_bytes)))"

fun record_tools ::
  "(rat \<Rightarrow> string) \<Rightarrow> string \<Rightarrow> string \<Rightarrow> json list \<Rightarrow> tool_list \<Rightarrow> tool_tracker
    \<Rightarrow> (tool_list, (string, string) pydict) tracked" where
  "record_tools frepr provider sid [] st t = (Inr st, t)"
| "record_tools frepr provider sid (tool_def # memory_tools) (tools_out, existing_names, added_bytes) t =
     (case extract_tool_name tool_def of
        Inl e \<Rightarrow> (Inl e, t)
      | Inr None \<Rightarrow> record_tools frepr provider sid memory_tools (tools_out, existing_names, added_bytes) t
      | Inr (Some tn) \<Rightarrow>
          if tn \<in> set existing_names then record_tools frepr provider sid memory_tools (tools_out, existing_names, added_bytes) t
          else
            let golden_bytes = serialize_canonical frepr tool_def
            in st_then (record_injection provider sid tn golden_bytes t)
                 (\<lambda>_ t. record_tools frepr provider sid memory_tools
                    (tools_out @ [tool_def], tn # existing_names, added_bytes + length golden_bytes) t))"

text \<open>\<open>env\<close> is the environment variable, read on every request.\<close>

definition apply_session_sticky_memory_tools ::
  "json_loads \<Rightarrow> (rat \<Rightarrow> string) \<Rightarrow> string option \<Rightarrow> string \<Rightarrow> string option \<Rightarrow> json list option \<Rightarrow> json list \<Rightarrow> bool
    \<Rightarrow> tool_tracker \<Rightarrow> (json list \<times> bool, (string, string) pydict) tracked" where
  "apply_session_sticky_memory_tools loads frepr env provider session_id existing_tools memory_tools inject_this_turn t =
     (if provider \<notin> {''anthropic'', ''openai''} then (Inl ValueError, t)
      else
        let tools_out = tools_or_empty existing_tools
        in case existing_names_of tools_out of
             Inl e \<Rightarrow> (Inl e, t)
           | Inr existing_names \<Rightarrow>
               (case resolve_tool_injection_sticky_mode env of
                  Inl e \<Rightarrow> (Inl e, t)
                | Inr mode \<Rightarrow>
                    if mode = ''disabled'' then (append_this_turn frepr memory_tools tools_out existing_names inject_this_turn, t)
                    else if or_empty session_id = []
                    then (append_this_turn frepr memory_tools tools_out existing_names inject_this_turn, t)
                    else
                      let sid = or_empty session_id
                      in st_then (should_inject provider sid t) (\<lambda>previously_injected t.
                           if previously_injected then
                             st_then (get_golden_definitions provider sid t) (\<lambda>golden t.
                               (and_then (fold_err (replay_tool loads) (case golden of None \<Rightarrow> [] | Some g \<Rightarrow> g) (tools_out, existing_names, 0))
                                  (\<lambda>(tools_out, _, replay_bytes). Inr (tools_out, 0 < replay_bytes)), t))
                           else if \<not> inject_this_turn then (Inr (tools_out, False), t)
                           else
                             st_then (record_tools frepr provider sid memory_tools (tools_out, existing_names, 0) t)
                               (\<lambda>(tools_out, _, added_bytes) t. (Inr (tools_out, 0 < added_bytes), t)))))"

section \<open>Facts\<close>

lemma char_of_of_char_int [simp]: "char_of (of_char c :: int) = c"
  by simp

lemma of_char_int: "(of_char c :: int) = int (of_char c)"
  by (rule of_nat_of_char [symmetric])

lemma of_char_mod_256: "(of_char (char_of (n :: nat)) :: int) = int (n mod 256)"
  by (simp add: of_char_int)

lemma utf8_decode_two:
  "128 \<le> n \<Longrightarrow> n < 256 \<Longrightarrow>
   utf8_decode (int (192 + n div 64) # int (128 + n mod 64) # bs) = and_then (utf8_decode bs) (\<lambda>t. Inr (int n # t))"
proof -
  assume n: "128 \<le> n" "n < 256"
  have "int (n mod 64) < 64" by simp
  moreover have "2 \<le> n div 64" "n div 64 < 4" using n by linarith+
  moreover have "int (n div 64) * 64 + int (n mod 64) = int n" by (metis div_mult_mod_eq of_nat_add of_nat_mult of_nat_numeral)
  ultimately show ?thesis by (simp add: cont_def)
qed

lemma bytes_decode_encode: "bytes_decode (utf8_encode s) = Inr s"
proof (induction s)
  case (Cons c s)
  let ?n = "of_char c :: nat"
  have n: "?n < 256" by simp
  obtain t where t: "utf8_decode (map of_char (utf8_encode s)) = Inr t" "map char_of t = s"
    using Cons by (auto simp: bytes_decode_def and_then_Inr_iff)
  show ?case
  proof (cases "?n < 128")
    case True
    then have "utf8_encode (c # s) = c # utf8_encode s" by (simp add: utf8_encode_def)
    moreover have "0 \<le> (of_char c :: int) \<and> (of_char c :: int) < 128" using True by (simp only: of_char_int) simp
    ultimately show ?thesis using t by (simp add: bytes_decode_def)
  next
    case False
    then have e: "utf8_encode (c # s) = char_of (192 + ?n div 64) # char_of (128 + ?n mod 64) # utf8_encode s"
      by (simp add: utf8_encode_def)
    have "(of_char (char_of (192 + ?n div 64)) :: int) = int (192 + ?n div 64)"
      using n by (subst of_char_mod_256, subst mod_less) linarith+
    moreover have "(of_char (char_of (128 + ?n mod 64)) :: int) = int (128 + ?n mod 64)"
      by (subst of_char_mod_256, subst mod_less) (use pos_mod_bound [of 64 ?n] in linarith)+
    moreover have "char_of (int ?n) = c" by (metis of_char_int char_of_of_char_int)
    ultimately show ?thesis
      using t utf8_decode_two [of ?n "map of_char (utf8_encode s)"] False n
      by (simp only: e bytes_decode_def list.map) (simp del: utf8_decode.simps)
  qed
qed (simp add: bytes_decode_def utf8_encode_def)

section \<open>The retrieval tool sticks\<close>

text \<open>What the tracker pins for a provider, and the invariant that it pins nothing else.\<close>

definition golden :: "(rat \<Rightarrow> string) \<Rightarrow> string \<Rightarrow> string" where
  "golden frepr provider = serialize_canonical frepr (create_ccr_tool_definition provider)"

definition ccr_pinned :: "(rat \<Rightarrow> string) \<Rightarrow> ccr_tracker \<Rightarrow> bool" where
  "ccr_pinned frepr t =
     (sess_ok t \<and> (\<forall>k v. dict_get (st_sessions t) k = Some v \<longrightarrow> v = (True, Some (golden frepr (fst k)))))"

lemma serialize_nonempty: "serialize_canonical frepr (JDict d) \<noteq> []"
  by (simp add: serialize_canonical_def utf8_encode_def)

lemma ccr_tool_dict: "\<exists>d. create_ccr_tool_definition p = JDict d"
  by (simp add: create_ccr_tool_definition_def Let_def)

lemma golden_nonempty: "golden frepr p \<noteq> []"
  using ccr_tool_dict [of p] serialize_nonempty by (auto simp: golden_def)

abbreviation looked_up :: "session_key \<Rightarrow> 'v session_tracker \<Rightarrow> 'v session_tracker" where
  "looked_up k t \<equiv> snd (lookup_session k t)"

abbreviation stored_for :: "session_key \<Rightarrow> 'v \<Rightarrow> 'v session_tracker \<Rightarrow> 'v session_tracker" where
  "stored_for k v t \<equiv> snd (store_session k v t)"

lemma pinned_lookup: "ccr_pinned frepr t \<Longrightarrow> ccr_pinned frepr (looked_up k t)"
  unfolding ccr_pinned_def lookup_session_get using lookup_session_ok by blast

lemma pinned_get: "ccr_pinned frepr t \<Longrightarrow> dict_get (st_sessions t) k = Some v \<Longrightarrow> v = (True, Some (golden frepr (fst k)))"
  unfolding ccr_pinned_def by blast

lemma pinned_store:
  assumes "ccr_pinned frepr t"
  shows "ccr_pinned frepr (stored_for k (True, Some (golden frepr (fst k))) t)"
proof -
  have ok: "sess_ok t" using assms by (simp add: ccr_pinned_def)
  have "v = (True, Some (golden frepr (fst j)))"
    if "dict_get (st_sessions (stored_for k (True, Some (golden frepr (fst k))) t)) j = Some v" for j v
    using store_session_from [OF ok that] pinned_get [OF assms] by blast
  then show ?thesis using store_session_ok [OF ok] unfolding ccr_pinned_def by blast
qed

lemma pinned_calls:
  assumes "ccr_pinned frepr t" "p \<noteq> []" "s \<noteq> []"
  shows "has_done_ccr p s t = (Inr (dict_get (st_sessions t) (p, s) \<noteq> None), looked_up (p, s) t)"
    "get_golden_tool_bytes p s t =
       (Inr (if dict_get (st_sessions t) (p, s) = None then None else Some (golden frepr p)), looked_up (p, s) t)"
    "record_ccr_done p s (golden frepr p) t = (Inr (), stored_for (p, s) (True, Some (golden frepr p)) t)"
proof -
  note get = pinned_get [OF assms(1), of "(p, s)"]
  show "has_done_ccr p s t = (Inr (dict_get (st_sessions t) (p, s) \<noteq> None), looked_up (p, s) t)"
    "get_golden_tool_bytes p s t =
       (Inr (if dict_get (st_sessions t) (p, s) = None then None else Some (golden frepr p)), looked_up (p, s) t)"
    using get assms(2,3) by (cases "dict_get (st_sessions t) (p, s)";
        simp add: has_done_ccr_def get_golden_tool_bytes_def session_key_of_eq lookup_session_eq)+
  have "record_ccr_done p s (golden frepr p) t = store_session (p, s) (True, Some (golden frepr p)) t"
    using get assms(2,3) by (cases "dict_get (st_sessions t) (p, s)")
      (simp_all add: record_ccr_done_def session_key_of_eq golden_nonempty)
  then show "record_ccr_done p s (golden frepr p) t = (Inr (), stored_for (p, s) (True, Some (golden frepr p)) t)"
    using store_session_done [of t "(p, s)"] assms(1) by (metis ccr_pinned_def prod.collapse)
qed

text \<open>When a session is known, on a turn whose tools do not have the name: the cases of one call.\<close>

lemma apply_ccr_eq:
  assumes pinned: "ccr_pinned frepr t" and p: "p \<in> {''anthropic'', ''openai'', ''google''}" and sid: "or_empty session_id \<noteq> []"
    and names: "existing_names_of (tools_or_empty ex) = Inr ns" "CCR_TOOL_NAME \<notin> set ns"
  shows "apply_session_sticky_ccr_tool loads frepr p session_id ex fresh t =
    (let k = (p, or_empty session_id); out = tools_or_empty ex; d = create_ccr_tool_definition p;
         g = (True, Some (golden frepr p))
     in if dict_get (st_sessions t) k \<noteq> None then
          (case replay_golden loads (golden frepr p) of
             Inl e \<Rightarrow> (Inl e, looked_up k (looked_up k t))
           | Inr (Some d') \<Rightarrow> (Inr (out @ [d'], True), looked_up k (looked_up k t))
           | Inr None \<Rightarrow> (Inr (out @ [d], True), stored_for k g (looked_up k (looked_up k t))))
        else if fresh then (Inr (out @ [d], True), stored_for k g (looked_up k t))
        else (Inr (out, False), looked_up k t))"
proof -
  have p': "p \<noteq> []" using p by auto
  note calls = pinned_calls [OF pinned p' sid]
    pinned_calls [OF pinned_lookup [OF pinned] p' sid]
    pinned_calls [OF pinned_lookup [OF pinned_lookup [OF pinned]] p' sid]
  have ser: "serialize_canonical frepr (create_ccr_tool_definition p) = golden frepr p" by (simp add: golden_def)
  show ?thesis
    using p sid names
    by (cases "replay_golden loads (golden frepr p)"; cases "dict_get (st_sessions t) (p, or_empty session_id)")
      (simp_all add: apply_session_sticky_ccr_tool_def calls ser Let_def split: option.split)
qed

text \<open>Work on a session that stores one value only.\<close>

inductive pins :: "session_key \<Rightarrow> 'v \<Rightarrow> 'v session_tracker \<Rightarrow> 'v session_tracker \<Rightarrow> bool" for k v t where
  pins_nothing: "pins k v t t"
| pins_lookup: "pins k v t u \<Longrightarrow> pins k v t (looked_up k u)"
| pins_store: "pins k v t u \<Longrightarrow> pins k v t (stored_for k v u)"

lemma pins_works: "pins k v t u \<Longrightarrow> works_on k t u"
  by (induction rule: pins.induct) (blast intro: works_on.intros)+

lemma pins_pinned: "pins k (True, Some (golden frepr (fst k))) t u \<Longrightarrow> ccr_pinned frepr t \<Longrightarrow> ccr_pinned frepr u"
  by (induction rule: pins.induct) (blast intro: pinned_lookup pinned_store)+

lemma looked_up_recent: "recent k v T (st_sessions t) \<Longrightarrow> recent k v T (st_sessions (looked_up k t))"
  by (simp add: lookup_session_eq recent_move_own)

lemma pins_recent:
  assumes "pins k v t u" "sess_ok t" "recent k v T (st_sessions t)"
  shows "recent k v T (st_sessions u)"
  using assms
proof (induction rule: pins.induct)
  case (pins_store u)
  from works_on_ok [OF pins_works [OF pins_store.hyps] pins_store.prems(1)] show ?case by (rule store_session_own)
qed (blast intro: looked_up_recent)+

text \<open>A call pins the one definition of its provider in its own session, or changes nothing.\<close>

lemma apply_ccr_pins:
  fixes loads p sid ex fresh
  assumes pinned: "ccr_pinned frepr t"
  defines "u \<equiv> snd (apply_session_sticky_ccr_tool loads frepr p sid ex fresh t)"
  shows "u = t \<or> or_empty sid \<noteq> [] \<and> pins (p, or_empty sid) (True, Some (golden frepr p)) t u"
proof (cases "p \<in> {''anthropic'', ''openai'', ''google''} \<and> or_empty sid \<noteq> []
    \<and> (\<exists>ns. existing_names_of (tools_or_empty ex) = Inr ns \<and> CCR_TOOL_NAME \<notin> set ns)")
  case True
  then obtain ns where c: "p \<in> {''anthropic'', ''openai'', ''google''}" "or_empty sid \<noteq> []"
    "existing_names_of (tools_or_empty ex) = Inr ns" "CCR_TOOL_NAME \<notin> set ns" by blast
  have "pins (p, or_empty sid) (True, Some (golden frepr p)) t u"
    unfolding u_def apply_ccr_eq [OF pinned c] Let_def
    by (auto intro!: pins.intros split: sum.split option.split)
  then show ?thesis using c(2) by blast
next
  case False
  have "u = t"
  proof (cases "existing_names_of (tools_or_empty ex)")
    case (Inr ns)
    then show ?thesis using False by (auto simp: u_def apply_session_sticky_ccr_tool_def Let_def)
  qed (simp add: u_def apply_session_sticky_ccr_tool_def Let_def)
  then show ?thesis ..
qed

text \<open>A turn of the retrieval tool, and the sessions it uses.\<close>

record ccr_turn =
  ct_provider :: string
  ct_session_id :: "string option"
  ct_tools :: "json list option"
  ct_compressed :: bool

definition ccr_turn_run :: "json_loads \<Rightarrow> (rat \<Rightarrow> string) \<Rightarrow> ccr_turn \<Rightarrow> ccr_tracker \<Rightarrow> ccr_tracker" where
  "ccr_turn_run loads frepr c t =
     snd (apply_session_sticky_ccr_tool loads frepr (ct_provider c) (ct_session_id c) (ct_tools c) (ct_compressed c) t)"

definition ccr_used :: "ccr_turn \<Rightarrow> session_key set" where
  "ccr_used c = (if or_empty (ct_session_id c) = [] then {} else {(ct_provider c, or_empty (ct_session_id c))})"

definition ccr_held :: "(rat \<Rightarrow> string) \<Rightarrow> session_key \<Rightarrow> bool \<times> string option \<Rightarrow> session_key set \<Rightarrow> ccr_tracker \<Rightarrow> bool" where
  "ccr_held frepr k v T t = (ccr_pinned frepr t \<and> recent k v T (st_sessions t))"

lemma ccr_turn_run_pins:
  assumes "ccr_pinned frepr t"
  obtains (nothing) "ccr_turn_run loads frepr c t = t"
    | (pinning) k where "ccr_used c = {k}" "pins k (True, Some (golden frepr (fst k))) t (ccr_turn_run loads frepr c t)"
proof (cases "ccr_turn_run loads frepr c t = t")
  case False
  let ?k = "(ct_provider c, or_empty (ct_session_id c))"
  have "or_empty (ct_session_id c) \<noteq> [] \<and> pins ?k (True, Some (golden frepr (fst ?k))) t (ccr_turn_run loads frepr c t)"
    using apply_ccr_pins [OF assms, of loads "ct_provider c" "ct_session_id c" "ct_tools c" "ct_compressed c"] False
    unfolding ccr_turn_run_def fst_conv by blast
  then show ?thesis using pinning [of ?k] by (simp add: ccr_used_def)
qed (rule nothing)

lemma ccr_turn_run_pinned: "ccr_pinned frepr t \<Longrightarrow> ccr_pinned frepr (ccr_turn_run loads frepr c t)"
  by (rule ccr_turn_run_pins [of frepr t loads c]) (auto intro: pins_pinned)

lemma pinned_held_value: "ccr_held frepr k v T t \<Longrightarrow> v = (True, Some (golden frepr (fst k)))"
  unfolding ccr_held_def by (elim conjE) (rule pinned_get [OF _ recent_get])

lemma ccr_held_own:
  assumes held: "ccr_held frepr k v T t" and k: "k \<in> ccr_used c"
  shows "ccr_held frepr k v T (ccr_turn_run loads frepr c t)"
proof -
  have p: "ccr_pinned frepr t" and r: "recent k v T (st_sessions t)" using held by (simp_all add: ccr_held_def)
  have ok: "sess_ok t" using p unfolding ccr_pinned_def by blast
  show ?thesis
  proof (rule ccr_turn_run_pins [OF p, of loads c])
    fix j assume j: "ccr_used c = {j}" "pins j (True, Some (golden frepr (fst j))) t (ccr_turn_run loads frepr c t)"
    then have "pins k v t (ccr_turn_run loads frepr c t)" using k pinned_held_value [OF held] by simp
    then show ?thesis using pins_recent [OF _ ok r] ccr_turn_run_pinned [OF p] by (simp add: ccr_held_def)
  qed (simp add: held)
qed

lemma ccr_held_other:
  assumes held: "ccr_held frepr k v T t" and c: "k \<notin> ccr_used c" "finite T" "int (card (T \<union> ccr_used c)) < st_max_sessions t"
  shows "ccr_held frepr k v (T \<union> ccr_used c) (ccr_turn_run loads frepr c t)"
proof -
  have p: "ccr_pinned frepr t" and r: "recent k v T (st_sessions t)" using held by (simp_all add: ccr_held_def)
  have "recent k v (T \<union> ccr_used c) (st_sessions (ccr_turn_run loads frepr c t))"
  proof (rule ccr_turn_run_pins [OF p, of loads c])
    fix j assume j: "ccr_used c = {j}" "pins j (True, Some (golden frepr (fst j))) t (ccr_turn_run loads frepr c t)"
    from works_on_recent [OF pins_works [OF j(2)] r] c j(1) show ?thesis by simp
  qed (use recent_mono [OF r] in simp)
  then show ?thesis using ccr_turn_run_pinned [OF p] by (simp add: ccr_held_def)
qed

lemma has_done_max: "st_max_sessions (snd (has_done_ccr p s t)) = st_max_sessions t"
  "st_max_sessions (snd (get_golden_tool_bytes p s t)) = st_max_sessions t"
  "st_max_sessions (snd (record_ccr_done p s b t)) = st_max_sessions t"
  by (simp_all add: has_done_ccr_def get_golden_tool_bytes_def record_ccr_done_def lookup_session_eq split: sum.split option.split)

lemma st_then_max:
  assumes "st_max_sessions (snd r) = m" "\<And>x t. st_max_sessions t = m \<Longrightarrow> st_max_sessions (snd (f x t)) = m"
  shows "st_max_sessions (snd (st_then r f)) = m"
  using assms by (cases "(r, f)" rule: st_then.cases) auto

lemma ccr_turn_run_max: "st_max_sessions (ccr_turn_run loads frepr c t) = st_max_sessions t"
  unfolding ccr_turn_run_def apply_session_sticky_ccr_tool_def Let_def
  by (auto simp: has_done_max intro!: st_then_max split: sum.split option.split)

interpretation ct: pinned_lru "ccr_turn_run loads frepr" ccr_used st_max_sessions "ccr_held frepr"
proof
  show "finite (ccr_used c)" for c by (simp add: ccr_used_def)
  show "ccr_used c = {k}" if "k \<in> ccr_used c" for k c using that by (auto simp: ccr_used_def split: if_splits)
qed (simp_all add: ccr_held_own ccr_held_other ccr_turn_run_max)

lemma looked_up_last: "sess_ok t \<Longrightarrow> dict_get (st_sessions t) k = Some v \<Longrightarrow> recent k v T (st_sessions (looked_up k t))"
  using recent_mono [OF recent_snoc [of "dict_del k (st_sessions t)" k v]]
  by (simp add: lookup_session_eq sess_ok_def move_to_end_def dict_simps)

lemma replay_golden_serialized:
  "loads (json_compact json_escape_char frepr d) = Inr d \<Longrightarrow> replay_golden loads (serialize_canonical frepr d) = Inr (Some d)"
  by (simp add: replay_golden_def serialize_canonical_def bytes_decode_encode)

lemma ccr_pinned_init: "sess_init n = Inr t \<Longrightarrow> ccr_pinned frepr t"
  by (auto simp: ccr_pinned_def sess_init_ok sess_init_def split: if_splits)

lemma ccr_pinned_runs: "ccr_pinned frepr t \<Longrightarrow> ccr_pinned frepr (fold (ccr_turn_run loads frepr) cs t)"
  by (induction cs arbitrary: t) (simp_all add: ccr_turn_run_pinned)

lemma ccr_runs_max: "st_max_sessions (fold (ccr_turn_run loads frepr) cs t) = st_max_sessions t"
  by (induction cs arbitrary: t) (simp_all add: ccr_turn_run_max)

text \<open>A turn that injects the tool did so for a known provider and tools without the name.\<close>

lemma apply_ccr_injected:
  assumes "apply_session_sticky_ccr_tool loads frepr p sid ex fresh t = (Inr (out, True), t1)"
  shows "p \<in> {''anthropic'', ''openai'', ''google''}"
    "\<exists>ns. existing_names_of (tools_or_empty ex) = Inr ns \<and> CCR_TOOL_NAME \<notin> set ns"
proof -
  show p: "p \<in> {''anthropic'', ''openai'', ''google''}"
    using assms by (rule contrapos_pp) (simp add: apply_session_sticky_ccr_tool_def)
  show "\<exists>ns. existing_names_of (tools_or_empty ex) = Inr ns \<and> CCR_TOOL_NAME \<notin> set ns"
  proof (cases "existing_names_of (tools_or_empty ex)")
    case (Inl e)
    then show ?thesis using assms p by (auto simp: apply_session_sticky_ccr_tool_def)
  next
    case (Inr ns)
    then have "CCR_TOOL_NAME \<notin> set ns" using assms p by (auto simp: apply_session_sticky_ccr_tool_def)
    then show ?thesis using Inr by blast
  qed
qed

text \<open>Such a turn leaves the session pinned and used last.\<close>

lemma apply_ccr_held:
  assumes pinned: "ccr_pinned frepr t" and s: "s \<noteq> []"
    and loads: "loads (json_compact json_escape_char frepr (create_ccr_tool_definition p)) = Inr (create_ccr_tool_definition p)"
    and turn: "apply_session_sticky_ccr_tool loads frepr p (Some s) ex fresh t = (Inr (out, True), t1)"
  shows "out = tools_or_empty ex @ [create_ccr_tool_definition p]"
    "ccr_held frepr (p, s) (True, Some (golden frepr p)) {} t1"
proof -
  let ?g = "(True, Some (golden frepr p))"
  have ok: "sess_ok t" "sess_ok (looked_up (p, s) t)"
    using pinned lookup_session_ok unfolding ccr_pinned_def by blast+
  obtain ns where ns: "existing_names_of (tools_or_empty ex) = Inr ns" "CCR_TOOL_NAME \<notin> set ns"
    using apply_ccr_injected(2) [OF turn] by blast
  have "replay_golden loads (golden frepr p) = Inr (Some (create_ccr_tool_definition p))"
    unfolding golden_def by (rule replay_golden_serialized) (rule loads)
  with turn apply_ccr_eq [OF pinned apply_ccr_injected(1) [OF turn] _ ns, of "Some s" loads fresh] s
  have r: "out = tools_or_empty ex @ [create_ccr_tool_definition p]"
    "dict_get (st_sessions t) (p, s) \<noteq> None \<and> t1 = looked_up (p, s) (looked_up (p, s) t)
     \<or> t1 = stored_for (p, s) ?g (looked_up (p, s) t)"
    by (auto simp: Let_def split: if_splits)
  show "out = tools_or_empty ex @ [create_ccr_tool_definition p]" by (rule r(1))
  have t1: "ccr_pinned frepr t1"
    using apply_ccr_pins [OF pinned, of loads p "Some s" ex fresh] pins_pinned [of "(p, s)" frepr] pinned turn by auto
  from r(2) have "recent (p, s) ?g {} (st_sessions t1)"
  proof
    assume known: "dict_get (st_sessions t) (p, s) \<noteq> None \<and> t1 = looked_up (p, s) (looked_up (p, s) t)"
    then have "dict_get (st_sessions t) (p, s) = Some ?g" using pinned_get [OF pinned, of "(p, s)"] by auto
    then show ?thesis using known looked_up_last [OF ok(2), of "(p, s)" ?g] by simp
  next
    assume "t1 = stored_for (p, s) ?g (looked_up (p, s) t)"
    then show ?thesis using store_session_own [OF ok(2)] by simp
  qed
  then show "ccr_held frepr (p, s) ?g {} t1" using t1 by (simp add: ccr_held_def)
qed

section \<open>The memory tools stick\<close>

text \<open>A turn of the memory tools, and the sessions it uses.\<close>

record mem_turn =
  mt_env :: "string option"
  mt_provider :: string
  mt_session_id :: "string option"
  mt_tools :: "json list option"
  mt_memory_tools :: "json list"
  mt_inject :: bool

definition mem_run :: "json_loads \<Rightarrow> (rat \<Rightarrow> string) \<Rightarrow> mem_turn \<Rightarrow> tool_tracker \<Rightarrow> tool_tracker" where
  "mem_run loads frepr c t =
     snd (apply_session_sticky_memory_tools loads frepr (mt_env c) (mt_provider c) (mt_session_id c) (mt_tools c)
            (mt_memory_tools c) (mt_inject c) t)"

definition mem_used :: "mem_turn \<Rightarrow> session_key set" where
  "mem_used c = (if or_empty (mt_session_id c) = [] then {} else {(mt_provider c, or_empty (mt_session_id c))})"

text \<open>The definitions a session holds; none of a recorded session is empty.\<close>

definition definitions_of :: "session_key \<Rightarrow> tool_tracker \<Rightarrow> (string \<times> string) list" where
  "definitions_of k t = (case dict_get (st_sessions t) k of None \<Rightarrow> [] | Some l \<Rightarrow> l)"

lemma should_inject_eq:
  "p \<noteq> [] \<Longrightarrow> s \<noteq> [] \<Longrightarrow> should_inject p s t = (Inr (definitions_of (p, s) t \<noteq> []), looked_up (p, s) t)"
  "p \<noteq> [] \<Longrightarrow> s \<noteq> [] \<Longrightarrow> get_golden_definitions p s t = (Inr (dict_get (st_sessions t) (p, s)), looked_up (p, s) t)"
  by (auto simp: should_inject_def get_golden_definitions_def session_key_of_eq lookup_session_eq definitions_of_def split: option.split)

lemma record_injection_eq:
  assumes "sess_ok t" "p \<noteq> []" "s \<noteq> []" "n \<noteq> []" "b \<noteq> []" "n \<notin> fst ` set (definitions_of (p, s) t)"
  shows "record_injection p s n b t = (Inr (), stored_for (p, s) (definitions_of (p, s) t @ [(n, b)]) t)"
proof -
  have "record_injection p s n b t = store_session (p, s) (definitions_of (p, s) t @ [(n, b)]) t"
    using assms(2-6) by (simp add: record_injection_def session_key_of_eq definitions_of_def Let_def dict_set_new dict_get_None_iff)
  then show ?thesis using store_session_done [OF assms(1)] by (metis prod.collapse)
qed

text \<open>Any call works on its own session only.\<close>

lemma works_st_then:
  assumes "works_on k t (snd r)" "\<And>x u. works_on k t u \<Longrightarrow> works_on k t (snd (f x u))"
  shows "works_on k t (snd (st_then r f))"
  using assms by (cases "(r, f)" rule: st_then.cases) auto

lemma works_calls:
  assumes "works_on (p, s) t u"
  shows "works_on (p, s) t (snd (should_inject p s u))" "works_on (p, s) t (snd (get_golden_definitions p s u))"
    "works_on (p, s) t (snd (record_injection p s n b u))"
proof -
  have l: "works_on (p, s) t (looked_up (p, s) u)" using assms by (rule works_lookup)
  show "works_on (p, s) t (snd (should_inject p s u))" "works_on (p, s) t (snd (get_golden_definitions p s u))"
    using assms l by (simp_all add: should_inject_def get_golden_definitions_def session_key_of_eq lookup_session_eq split: option.split)
  show "works_on (p, s) t (snd (record_injection p s n b u))"
    using assms works_store [OF assms] by (simp add: record_injection_def session_key_of_eq Let_def)
qed

lemma works_record_tools: "works_on (p, s) t u \<Longrightarrow> works_on (p, s) t (snd (record_tools frepr p s ds st u))"
proof (induction ds arbitrary: st u)
  case (Cons d ds)
  obtain out ns b where st: "st = (out, ns, b)" by (cases st)
  show ?case
    using Cons.prems by (auto simp: st Let_def intro!: works_st_then works_calls(3) Cons.IH split: sum.split option.split)
qed simp

lemma mem_run_works:
  "mem_run loads frepr c t = t \<or> (\<exists>k. mem_used c = {k} \<and> works_on k t (mem_run loads frepr c t))"
proof (cases "or_empty (mt_session_id c) = []")
  case True
  then show ?thesis
    by (simp add: mem_run_def apply_session_sticky_memory_tools_def Let_def split: sum.split)
next
  case False
  let ?k = "(mt_provider c, or_empty (mt_session_id c))"
  have "works_on ?k t (mem_run loads frepr c t)"
    unfolding mem_run_def apply_session_sticky_memory_tools_def Let_def
    by (auto intro!: works_st_then works_calls works_record_tools works_nothing split: sum.split)
  then show ?thesis using False by (simp add: mem_used_def)
qed

text \<open>A session with definitions is only looked up by its own turns.\<close>

definition mem_held :: "session_key \<Rightarrow> (string \<times> string) list \<Rightarrow> session_key set \<Rightarrow> tool_tracker \<Rightarrow> bool" where
  "mem_held k l T t = (sess_ok t \<and> l \<noteq> [] \<and> recent k l T (st_sessions t))"

lemma mem_held_own:
  assumes held: "mem_held k l T t" and k: "k \<in> mem_used c"
  shows "mem_held k l T (mem_run loads frepr c t)"
proof -
  have k: "k = (mt_provider c, or_empty (mt_session_id c))" "or_empty (mt_session_id c) \<noteq> []"
    using k by (auto simp: mem_used_def split: if_splits)
  have l: "definitions_of k t \<noteq> []" using held recent_get by (fastforce simp: mem_held_def definitions_of_def)
  have "mem_run loads frepr c t \<in> {t, looked_up k (looked_up k t)}"
    using l k(2) unfolding mem_run_def apply_session_sticky_memory_tools_def Let_def k(1)
    by (auto simp: should_inject_eq split: sum.split)
  moreover have "mem_held k l T (looked_up k u)" if "mem_held k l T u" for u
    using that by (simp add: mem_held_def lookup_session_ok looked_up_recent)
  ultimately show ?thesis using held by auto
qed

lemma mem_held_other:
  assumes held: "mem_held k l T t" and c: "k \<notin> mem_used c" "finite T" "int (card (T \<union> mem_used c)) < st_max_sessions t"
  shows "mem_held k l (T \<union> mem_used c) (mem_run loads frepr c t)"
  using mem_run_works [of loads frepr c t]
proof
  assume "mem_run loads frepr c t = t"
  then show ?thesis using held recent_mono [of k l T "st_sessions t" "T \<union> mem_used c"] by (simp add: mem_held_def)
next
  assume "\<exists>j. mem_used c = {j} \<and> works_on j t (mem_run loads frepr c t)"
  then obtain j where j: "mem_used c = {j}" "works_on j t (mem_run loads frepr c t)" by blast
  have "recent k l T (st_sessions t)" using held by (simp add: mem_held_def)
  from works_on_recent [OF j(2) this] works_on_ok [OF j(2)] held j(1) c show ?thesis by (simp add: mem_held_def)
qed

lemma mem_run_max: "st_max_sessions (mem_run loads frepr c t) = st_max_sessions t"
  using mem_run_works [of loads frepr c t] works_on_max by auto

interpretation mt: pinned_lru "mem_run loads frepr" mem_used st_max_sessions mem_held
proof
  show "finite (mem_used c)" for c by (simp add: mem_used_def)
  show "mem_used c = {k}" if "k \<in> mem_used c" for k c using that by (auto simp: mem_used_def split: if_splits)
qed (simp_all add: mem_held_own mem_held_other mem_run_max)

text \<open>Tools with a name are dictionaries, and the name is not empty.\<close>

lemma filled_str_Some: "filled_str v = Some n \<Longrightarrow> n \<noteq> []"
  by (cases v) (auto split: if_splits)

lemma named_tool:
  assumes "extract_tool_name d = Inr (Some n)"
  shows "n \<noteq> []" "serialize_canonical frepr d \<noteq> []"
proof -
  obtain kvs where d: "d = JDict kvs" using assms by (cases d) (auto simp: extract_tool_name_def)
  show "serialize_canonical frepr d \<noteq> []" by (simp add: d serialize_nonempty)
  show "n \<noteq> []"
    using assms by (auto simp: d extract_tool_name_def dest!: filled_str_Some split: option.splits json.splits)
qed

text \<open>What recording a list of named definitions pins.\<close>

definition pinned_of :: "(rat \<Rightarrow> string) \<Rightarrow> (string \<times> json) list \<Rightarrow> (string \<times> string) list" where
  "pinned_of frepr new = map (\<lambda>(n, d). (n, serialize_canonical frepr d)) new"

definition named_new :: "json list \<Rightarrow> string list \<Rightarrow> (string \<times> json) list \<Rightarrow> bool" where
  "named_new ds ns new =
     (distinct (map fst new) \<and> (\<forall>(n, d) \<in> set new. extract_tool_name d = Inr (Some n) \<and> d \<in> set ds \<and> n \<notin> set ns))"

lemma definitions_of_stored: "sess_ok t \<Longrightarrow> definitions_of k (stored_for k l t) = l"
  by (simp add: definitions_of_def store_session_get)

lemma record_tools_pins:
  assumes "sess_ok t" "p \<noteq> []" "s \<noteq> []" "fst ` set (definitions_of (p, s) t) \<subseteq> set ns"
    and "record_tools frepr p s ds (out, ns, b) t = (Inr (out', ns', b'), t')"
  shows "\<exists>new. out' = out @ map snd new \<and> named_new ds ns new \<and> b' = b + length (concat (map snd (pinned_of frepr new)))
    \<and> (if new = [] then t' = t
       else sess_ok t' \<and> recent (p, s) (definitions_of (p, s) t @ pinned_of frepr new) {} (st_sessions t'))"
  using assms
proof (induction ds arbitrary: out ns b t)
  case Nil
  then show ?case by (intro exI [of _ "[]"]) (simp add: named_new_def pinned_of_def)
next
  case (Cons d ds)
  have mono: "named_new ds ns new \<Longrightarrow> named_new (d # ds) ns new" for new by (auto simp: named_new_def)
  show ?case
  proof (cases "\<exists>n. extract_tool_name d = Inr (Some n) \<and> n \<notin> set ns")
    case False
    then have "record_tools frepr p s ds (out, ns, b) t = (Inr (out', ns', b'), t')"
      using Cons.prems(5) by (auto split: sum.splits option.splits if_splits)
    from Cons.IH [OF Cons.prems(1-4) this] mono show ?thesis by blast
  next
    case True
    then obtain n where n: "extract_tool_name d = Inr (Some n)" "n \<notin> set ns" by blast
    let ?e = "definitions_of (p, s) t" and ?b = "serialize_canonical frepr d"
    let ?t = "stored_for (p, s) (?e @ [(n, ?b)]) t"
    have "n \<notin> fst ` set ?e" using n(2) Cons.prems(4) by blast
    note rec = record_injection_eq [OF Cons.prems(1-3) named_tool [OF n(1)] this, of frepr]
    have e: "definitions_of (p, s) ?t = ?e @ [(n, ?b)]" by (rule definitions_of_stored [OF Cons.prems(1)])
    have ok: "sess_ok ?t" by (rule store_session_ok [OF Cons.prems(1)])
    have "fst ` set (definitions_of (p, s) ?t) \<subseteq> set (n # ns)" using Cons.prems(4) by (auto simp: e)
    moreover have "record_tools frepr p s ds (out @ [d], n # ns, b + length ?b) ?t = (Inr (out', ns', b'), t')"
      using Cons.prems(5) n rec by (simp add: Let_def)
    ultimately obtain new where new: "out' = (out @ [d]) @ map snd new" "named_new ds (n # ns) new"
      "b' = b + length ?b + length (concat (map snd (pinned_of frepr new)))"
      "if new = [] then t' = ?t else sess_ok t' \<and> recent (p, s) (definitions_of (p, s) ?t @ pinned_of frepr new) {} (st_sessions t')"
      using Cons.IH [OF ok Cons.prems(2,3)] by blast
    have "sess_ok t' \<and> recent (p, s) (?e @ pinned_of frepr ((n, d) # new)) {} (st_sessions t')"
      using new(4) ok store_session_own [OF Cons.prems(1), of "(p, s)" "?e @ [(n, ?b)]" "{}"]
      by (cases "new = []") (simp_all add: e pinned_of_def)
    moreover have "named_new (d # ds) ns ((n, d) # new)" using new(2) n by (fastforce simp: named_new_def)
    ultimately show ?thesis using new(1,3) by (intro exI [of _ "(n, d) # new"]) (simp add: pinned_of_def)
  qed
qed

lemma pinned_of_Cons: "pinned_of frepr ((n, d) # new) = (n, serialize_canonical frepr d) # pinned_of frepr new"
  by (simp add: pinned_of_def)

text \<open>Replaying pinned definitions appends those whose name the client does not have.\<close>

lemma replay_tools_eq:
  assumes "named_new ds ms new" "\<And>d. d \<in> set ds \<Longrightarrow> loads (json_compact json_escape_char frepr d) = Inr d"
  shows "\<exists>ns'. fold_err (replay_tool loads) (pinned_of frepr new) (out, ns, b) =
    (let kept = filter (\<lambda>(n, d). n \<notin> set ns) new
     in Inr (out @ map snd kept, ns', b + length (concat (map snd (pinned_of frepr kept)))))"
  using assms(1)
proof (induction new arbitrary: out ns b)
  case Nil
  then show ?case by (simp add: pinned_of_def)
next
  case (Cons nd new)
  obtain n d where nd: "nd = (n, d)" by (cases nd)
  have new: "named_new ds ms new" "n \<notin> fst ` set new" "d \<in> set ds" using Cons.prems by (auto simp: named_new_def nd)
  have golden: "replay_golden loads (serialize_canonical frepr d) = Inr (Some d)"
    by (rule replay_golden_serialized) (rule assms(2) [OF new(3)])
  have step: "replay_tool loads (n, serialize_canonical frepr d) (out, ns, b) =
      (if n \<in> set ns then Inr (out, ns, b) else Inr (out @ [d], n # ns, b + length (serialize_canonical frepr d)))"
    using golden by (simp add: replay_tool_def)
  have "filter (\<lambda>(m, d). m \<notin> set (n # ns)) new = filter (\<lambda>(m, d). m \<notin> set ns) new"
    using new(2) by (intro filter_cong) (force)+
  then show ?case
    using Cons.IH [OF new(1), of out ns b] Cons.IH [OF new(1), of "out @ [d]" "n # ns" "b + length (serialize_canonical frepr d)"]
    by (cases "n \<in> set ns") (simp_all add: nd pinned_of_Cons step Let_def add.assoc)
qed

lemma pinned_of_nonempty:
  "named_new ds ns new \<Longrightarrow> (0 < length (concat (map snd (pinned_of frepr new)))) = (new \<noteq> [])"
  using named_tool(2) by (cases new) (auto simp: named_new_def pinned_of_def)

text \<open>A turn that injects into a session not seen before recorded what it appended.\<close>

lemma apply_mem_held:
  assumes ok: "sess_ok t" and on: "resolve_tool_injection_sticky_mode env = Inr ''enabled''" and s: "s \<noteq> []"
    and new: "dict_get (st_sessions t) (p, s) = None"
    and turn: "apply_session_sticky_memory_tools loads frepr env p (Some s) ex ds inject t = (Inr (out, True), t1)"
  shows "\<exists>ns new. out = tools_or_empty ex @ map snd new \<and> named_new ds ns new \<and> new \<noteq> []
    \<and> mem_held (p, s) (pinned_of frepr new) {} t1 \<and> p \<in> {''anthropic'', ''openai''}"
proof -
  have p: "p \<in> {''anthropic'', ''openai''}"
    using turn by (rule contrapos_pp) (simp add: apply_session_sticky_memory_tools_def)
  then have p': "p \<noteq> []" by auto
  obtain ns where ns: "existing_names_of (tools_or_empty ex) = Inr ns"
    using turn p by (cases "existing_names_of (tools_or_empty ex)") (auto simp: apply_session_sticky_memory_tools_def)
  let ?t = "looked_up (p, s) t"
  have e: "definitions_of (p, s) t = []" "definitions_of (p, s) ?t = []" using new by (simp_all add: definitions_of_def)
  have eq: "apply_session_sticky_memory_tools loads frepr env p (Some s) ex ds inject t
      = (if \<not> inject then (Inr (tools_or_empty ex, False), ?t)
         else st_then (record_tools frepr p s ds (tools_or_empty ex, ns, 0) ?t)
                (\<lambda>(tools_out, _, added_bytes) t. (Inr (tools_out, 0 < added_bytes), t)))"
    using p s on ns e(1) by (simp add: apply_session_sticky_memory_tools_def should_inject_eq [OF p' s] Let_def)
  obtain out' ns' b' where r: "record_tools frepr p s ds (tools_or_empty ex, ns, 0) ?t = (Inr (out', ns', b'), t1)"
    and res: "out = out'" "0 < b'"
  proof (cases "record_tools frepr p s ds (tools_or_empty ex, ns, 0) ?t")
    case (Pair x u)
    then show ?thesis using that turn eq by (cases x) (auto split: if_splits)
  qed
  have "sess_ok ?t" by (rule lookup_session_ok [OF ok])
  from record_tools_pins [OF this p' s _ r, unfolded e append_Nil] obtain new where n: "out' = tools_or_empty ex @ map snd new" "named_new ds ns new"
    "b' = length (concat (map snd (pinned_of frepr new)))"
    "if new = [] then t1 = ?t else sess_ok t1 \<and> recent (p, s) (pinned_of frepr new) {} (st_sessions t1)"
    by auto
  moreover have "new \<noteq> []" using res(2) n(3) pinned_of_nonempty [OF n(2)] by simp
  moreover from this have "mem_held (p, s) (pinned_of frepr new) {} t1"
    using n(4) by (cases new) (auto simp: mem_held_def pinned_of_def)
  ultimately show ?thesis using res(1) p by blast
qed

lemma apply_mem_replay:
  assumes held: "mem_held (p, s) (pinned_of frepr new) T t" and on: "resolve_tool_injection_sticky_mode env = Inr ''enabled''"
    and s: "s \<noteq> []" and p: "p \<in> {''anthropic'', ''openai''}" and new: "named_new ds ms new"
    and loads: "\<And>d. d \<in> set ds \<Longrightarrow> loads (json_compact json_escape_char frepr d) = Inr d"
    and names: "existing_names_of (tools_or_empty ex) = Inr ns"
  shows "fst (apply_session_sticky_memory_tools loads frepr env p (Some s) ex ds' inject t) =
    (let kept = filter (\<lambda>(n, d). n \<notin> set ns) new in Inr (tools_or_empty ex @ map snd kept, kept \<noteq> []))"
proof -
  let ?kept = "filter (\<lambda>(n, d). n \<notin> set ns) new"
  have p': "p \<noteq> []" using p by auto
  have g: "dict_get (st_sessions t) (p, s) = Some (pinned_of frepr new)" "pinned_of frepr new \<noteq> []"
    using held recent_get by (auto simp: mem_held_def)
  obtain ns' where "fold_err (replay_tool loads) (pinned_of frepr new) (tools_or_empty ex, ns, 0) =
      Inr (tools_or_empty ex @ map snd ?kept, ns', length (concat (map snd (pinned_of frepr ?kept))))"
    using replay_tools_eq [OF new loads, of "tools_or_empty ex" ns 0] by (auto simp: Let_def)
  moreover have "named_new ds ms ?kept" using new by (auto simp: named_new_def distinct_map_filter)
  ultimately show ?thesis
    using p s on names g pinned_of_nonempty [of ds ms ?kept frepr]
    by (simp add: apply_session_sticky_memory_tools_def should_inject_eq [OF p' s] definitions_of_def Let_def)
qed

lemma mem_runs_ok: "sess_ok t \<Longrightarrow> sess_ok (fold (mem_run loads frepr) cs t)"
proof (induction cs arbitrary: t)
  case (Cons c cs)
  have "sess_ok (mem_run loads frepr c t)" using mem_run_works [of loads frepr c t] works_on_ok Cons.prems by auto
  then show ?case using Cons.IH by simp
qed simp

lemma mem_runs_max: "st_max_sessions (fold (mem_run loads frepr) cs t) = st_max_sessions t"
  by (induction cs arbitrary: t) (simp_all add: mem_run_max)

section \<open>Properties\<close>

text \<open>C11: memory tools, once injected, stay. With \<open>HEADROOM_TOOL_INJECTION_STICKY\<close> enabled, as it is by default:
  after any history of calls of \<open>apply_session_sticky_memory_tools\<close>, let a call for a session not seen before inject the
  tools \<open>new\<close>. Then every later call for this session that finds the setting enabled, after calls for itself and for
  fewer than \<open>n\<close> other sessions, returns the client's tools followed by exactly these definitions in the same
  order, less those whose name the client now has itself, whatever definitions that call would have
  injected and whether its flag asks for them. A turn in which the handler does not call the routine (memory is off for it) is not
  covered. The hypothesis on \<open>json.loads\<close> is that it reads back what \<open>json.dumps\<close> wrote.\<close>
theorem memory_tools_stick:
  assumes t: "sess_init n = Inr t0" "t = fold (mem_run loads frepr) history t0"
    and on: "resolve_tool_injection_sticky_mode env = Inr ''enabled''" "resolve_tool_injection_sticky_mode env' = Inr ''enabled''"
    and s: "s \<noteq> []" and first: "dict_get (st_sessions t) (p, s) = None"
    and loads: "\<And>d. d \<in> set ds \<Longrightarrow> loads (json_compact json_escape_char frepr d) = Inr d"
    and turn: "apply_session_sticky_memory_tools loads frepr env p (Some s) ex ds inject t = (Inr (out, True), t1)"
    and few: "int (card (\<Union> (mem_used ` set turns) - {(p, s)})) < n"
    and names: "existing_names_of (tools_or_empty ex') = Inr ns'"
  shows "\<exists>new. out = tools_or_empty ex @ map snd new \<and> new \<noteq> []
    \<and> (\<forall>(m, d) \<in> set new. extract_tool_name d = Inr (Some m) \<and> d \<in> set ds)
    \<and> fst (apply_session_sticky_memory_tools loads frepr env' p (Some s) ex' ds' inject' (fold (mem_run loads frepr) turns t1))
      = (let kept = filter (\<lambda>(m, d). m \<notin> set ns') new in Inr (tools_or_empty ex' @ map snd kept, kept \<noteq> []))"
proof -
  have ok: "sess_ok t" using t by (simp add: mem_runs_ok sess_init_ok)
  obtain ns new where new: "out = tools_or_empty ex @ map snd new" "named_new ds ns new" "new \<noteq> []"
    "mem_held (p, s) (pinned_of frepr new) {} t1" "p \<in> {''anthropic'', ''openai''}"
    using apply_mem_held [OF ok on(1) s first turn] by blast
  have "t1 = mem_run loads frepr (mem_turn.make env p (Some s) ex ds inject) t" by (simp add: mem_run_def mem_turn.defs turn)
  then have max: "st_max_sessions t1 = n" using t by (simp add: mem_run_max mem_runs_max sess_init_max)
  have "mem_held (p, s) (pinned_of frepr new) ({} \<union> (\<Union> (mem_used ` set turns) - {(p, s)})) (fold (mem_run loads frepr) turns t1)"
    using new(4) few max by (intro mt.pinned_run) simp_all
  from apply_mem_replay [OF this on(2) s new(5,2) loads names] new(1-3) show ?thesis
    by (intro exI [of _ new]) (auto simp: named_new_def)
qed

text \<open>C25: the retrieval tool, once injected, stays wherever the tracker is asked. After any history of calls of
  \<open>apply_session_sticky_ccr_tool\<close>, let a call for session \<open>s\<close> inject the tool, for the first time or not. Then every later
  call for this session, after calls for itself and for fewer than \<open>n\<close> other sessions, appends the same definition
  to the client's tools, whether or not anything was compressed in that turn, unless the client has a tool of that
  name. So does the OpenAI stage of a later turn with tool injection on. The Anthropic stage does so exactly when
  injection is configured and no message is frozen, or a marker is new; else it leaves the client's tools alone.
  The hypothesis on \<open>json.loads\<close> is that it reads back the definition \<open>json.dumps\<close> wrote.\<close>
theorem retrieval_tool_sticks:
  assumes t: "sess_init n = Inr t0" "t = fold (ccr_turn_run loads frepr) history t0"
    and s: "s \<noteq> []"
    and loads: "loads (json_compact json_escape_char frepr (create_ccr_tool_definition p)) = Inr (create_ccr_tool_definition p)"
    and turn: "apply_session_sticky_ccr_tool loads frepr p (Some s) ex fresh t = (Inr (out, True), t1)"
    and few: "int (card (\<Union> (ccr_used ` set turns) - {(p, s)})) < n"
    and names: "existing_names_of (tools_or_empty ex') = Inr ns" "CCR_TOOL_NAME \<notin> set ns"
  shows "out = tools_or_empty ex @ [create_ccr_tool_definition p]
    \<and> fst (apply_session_sticky_ccr_tool loads frepr p (Some s) ex' fresh' (fold (ccr_turn_run loads frepr) turns t1))
      = Inr (tools_or_empty ex' @ [create_ccr_tool_definition p], True)
    \<and> (p = ''openai'' \<longrightarrow> has_new_ccr_markers detected previous p = Inr fresh' \<longrightarrow>
        fst (openai_ccr_tool_stage loads frepr True detected previous (Some s) ex' (fold (ccr_turn_run loads frepr) turns t1))
        = Inr (Some (tools_or_empty ex' @ [create_ccr_tool_definition p])))
    \<and> (p = ''anthropic'' \<longrightarrow> has_new_ccr_markers detected previous p = Inr fresh' \<longrightarrow>
        fst (anthropic_ccr_tool_stage loads frepr configured frozen detected previous (Some s) ex' (fold (ccr_turn_run loads frepr) turns t1))
        = Inr (if configured \<and> frozen \<le> 0 \<or> fresh' then Some (tools_or_empty ex' @ [create_ccr_tool_definition p]) else ex'))"
proof -
  have pinned: "ccr_pinned frepr t" using t by (simp add: ccr_pinned_runs ccr_pinned_init)
  note held = apply_ccr_held [OF pinned s loads turn]
  let ?t = "fold (ccr_turn_run loads frepr) turns t1"
  have "t1 = ccr_turn_run loads frepr (ccr_turn.make p (Some s) ex fresh) t" by (simp add: ccr_turn_run_def ccr_turn.defs turn)
  then have max: "st_max_sessions t1 = n" using t by (simp add: ccr_turn_run_max ccr_runs_max sess_init_max)
  have "ccr_held frepr (p, s) (True, Some (golden frepr p)) ({} \<union> (\<Union> (ccr_used ` set turns) - {(p, s)})) ?t"
    using held(2) few max by (intro ct.pinned_run) simp_all
  then have t': "ccr_pinned frepr ?t" "dict_get (st_sessions ?t) (p, s) = Some (True, Some (golden frepr p))"
    using recent_get by (auto simp: ccr_held_def)
  have replay: "replay_golden loads (golden frepr p) = Inr (Some (create_ccr_tool_definition p))"
    unfolding golden_def by (rule replay_golden_serialized) (rule loads)
  have "or_empty (Some s) \<noteq> []" using s by simp
  from apply_ccr_eq [OF t'(1) apply_ccr_injected(1) [OF turn] this names, of loads fresh'] held(1)
  have call: "out = tools_or_empty ex @ [create_ccr_tool_definition p]
    \<and> fst (apply_session_sticky_ccr_tool loads frepr p (Some s) ex' fresh' ?t) = Inr (tools_or_empty ex' @ [create_ccr_tool_definition p], True)"
    by (simp add: t'(2) replay Let_def ex_bool_eq)
  then obtain t2 where "apply_session_sticky_ccr_tool loads frepr p (Some s) ex' fresh' ?t = (Inr (tools_or_empty ex' @ [create_ccr_tool_definition p], True), t2)"
    by (metis prod.collapse)
  then show ?thesis using call
    by (auto simp: openai_ccr_tool_stage_def anthropic_ccr_tool_stage_def should_inject_ccr_tool_def Let_def)
qed

text \<open>
  The OpenAI handler asks the tracker on every turn, so its tool list keeps the tool. The Anthropic handler does
  not: with a frozen prefix and no new marker it leaves the client's tools as they are, whatever the tracker
  says of the session.
\<close>

lemma anthropic_stage_drops_tool:
  assumes "has_new_ccr_markers detected previous ''anthropic'' = Inr False" "0 < frozen_message_count"
  shows "anthropic_ccr_tool_stage loads frepr configured frozen_message_count detected previous session_id tools t = (Inr tools, t)"
  using assms by (simp add: anthropic_ccr_tool_stage_def should_inject_ccr_tool_def)

lemma openai_stage_asks_tracker:
  assumes "has_new_ccr_markers detected previous ''openai'' = Inr fresh"
    and "apply_session_sticky_ccr_tool loads frepr ''openai'' session_id tools fresh t = (Inr (out, injected), t')"
  shows "openai_ccr_tool_stage loads frepr True detected previous session_id tools t = (Inr (Some out), t')"
  using assms by (simp add: openai_ccr_tool_stage_def)

text \<open>New markers are never left without the tool: they override the deferral and the configuration.\<close>

lemma new_markers_injected: "fst (should_inject_ccr_tool configured frozen True)"
  by (simp add: should_inject_ccr_tool_def Let_def)

section \<open>Witnesses\<close>

definition listed_loads :: "json list \<Rightarrow> json_loads" where
  "listed_loads ds s =
     (case filter (\<lambda>d. json_compact json_escape_char (\<lambda>_. []) d = s) ds of
        [] \<Rightarrow> Inl JSONDecodeError
      | d # _ \<Rightarrow> Inr d)"

definition memory_save :: json where
  "memory_save = JDict [(''name'', JStr ''memory_save''), (''description'', JStr [char_of (228 :: nat)])]"

definition memory_search :: json where
  "memory_search = JDict [(''type'', JStr ''function''), (''function'', JDict [(''name'', JStr ''memory_search'')])]"

definition client_tool :: json where
  "client_tool = JDict [(''name'', JStr ''memory_search''), (''input_schema'', JDict [])]"

definition sample_tool_tracker :: tool_tracker where
  "sample_tool_tracker = \<lparr>st_max_sessions = 2, st_sessions = []\<rparr>"

definition sample_mem_turn :: "string \<Rightarrow> mem_turn" where
  "sample_mem_turn s = mem_turn.make None ''openai'' (Some s) None [memory_search] True"

definition sample_first where
  "sample_first =
     apply_session_sticky_memory_tools (listed_loads [memory_save, memory_search]) (\<lambda>_. []) None ''openai'' (Some ''s'')
       None [memory_save, memory_search] True sample_tool_tracker"

lemma sample_first_tools: "fst sample_first = Inr ([memory_save, memory_search], True)"
  by code_simp

lemma memory_tools_stick_witness:
  "fst (apply_session_sticky_memory_tools (listed_loads [memory_save, memory_search]) (\<lambda>_. []) None ''openai'' (Some ''s'')
      (Some [client_tool]) [] False
      (fold (mem_run (listed_loads [memory_save, memory_search]) (\<lambda>_. [])) [sample_mem_turn ''s'', sample_mem_turn ''u''] (snd sample_first)))
   = Inr ([client_tool, memory_save], True)"
proof -
  have used: "\<Union> (mem_used ` set [sample_mem_turn ''s'', sample_mem_turn ''u'']) - {(''openai'', ''s'')} = {(''openai'', ''u'')}"
    by (auto simp: mem_used_def sample_mem_turn_def mem_turn.defs)
  have turn: "apply_session_sticky_memory_tools (listed_loads [memory_save, memory_search]) (\<lambda>_. []) None ''openai'' (Some ''s'')
      None [memory_save, memory_search] True sample_tool_tracker = (Inr ([memory_save, memory_search], True), snd sample_first)"
    using sample_first_tools unfolding sample_first_def by (metis prod.collapse)
  have loads: "listed_loads [memory_save, memory_search] (json_compact json_escape_char (\<lambda>_. []) d) = Inr d"
    if "d \<in> set [memory_save, memory_search]" for d
  proof -
    have "listed_loads [memory_save, memory_search] (json_compact json_escape_char (\<lambda>_. []) memory_save) = Inr memory_save"
      "listed_loads [memory_save, memory_search] (json_compact json_escape_char (\<lambda>_. []) memory_search) = Inr memory_search"
      by code_simp+
    then show ?thesis using that by auto
  qed
  have init: "sess_init 2 = Inr sample_tool_tracker" by (simp add: sess_init_def sample_tool_tracker_def)
  have on: "resolve_tool_injection_sticky_mode None = Inr ''enabled''" by code_simp
  have names: "existing_names_of (tools_or_empty (Some [client_tool])) = Inr [''memory_search'']" by code_simp
  have few: "int (card (\<Union> (mem_used ` set [sample_mem_turn ''s'', sample_mem_turn ''u'']) - {(''openai'', ''s'')})) < 2"
    unfolding used by simp
  have first: "dict_get (st_sessions sample_tool_tracker) (''openai'', ''s'') = None" by (simp add: sample_tool_tracker_def)
  have "\<exists>new. [memory_save, memory_search] = tools_or_empty None @ map snd new \<and> new \<noteq> []
    \<and> (\<forall>(m, d) \<in> set new. extract_tool_name d = Inr (Some m) \<and> d \<in> set [memory_save, memory_search])
    \<and> fst (apply_session_sticky_memory_tools (listed_loads [memory_save, memory_search]) (\<lambda>_. []) None ''openai'' (Some ''s'')
      (Some [client_tool]) [] False
      (fold (mem_run (listed_loads [memory_save, memory_search]) (\<lambda>_. [])) [sample_mem_turn ''s'', sample_mem_turn ''u''] (snd sample_first)))
     = (let kept = filter (\<lambda>(m, d). m \<notin> set [''memory_search'']) new in Inr (tools_or_empty (Some [client_tool]) @ map snd kept, kept \<noteq> []))"
    by (rule memory_tools_stick [OF init _ on on _ first loads turn few names, of "[]"]) simp_all
  then obtain new where new: "[memory_save, memory_search] = map snd new"
    "\<forall>(m, d) \<in> set new. extract_tool_name d = Inr (Some m) \<and> d \<in> set [memory_save, memory_search]"
    and later: "fst (apply_session_sticky_memory_tools (listed_loads [memory_save, memory_search]) (\<lambda>_. []) None ''openai'' (Some ''s'')
      (Some [client_tool]) [] False
      (fold (mem_run (listed_loads [memory_save, memory_search]) (\<lambda>_. [])) [sample_mem_turn ''s'', sample_mem_turn ''u''] (snd sample_first)))
     = (let kept = filter (\<lambda>(m, d). m \<notin> set [''memory_search'']) new in Inr (tools_or_empty (Some [client_tool]) @ map snd kept, kept \<noteq> []))"
    unfolding tools_or_empty_def option.case append_Nil by (elim exE conjE) assumption+
  have "extract_tool_name memory_save = Inr (Some ''memory_save'')" "extract_tool_name memory_search = Inr (Some ''memory_search'')"
    by code_simp+
  then have "new = [(''memory_save'', memory_save), (''memory_search'', memory_search)]"
    using new(1,2) by (auto simp: Cons_eq_map_conv)
  then show ?thesis unfolding later by (simp add: tools_or_empty_def)
qed

definition sample_ccr_tracker :: ccr_tracker where
  "sample_ccr_tracker = \<lparr>st_max_sessions = 1, st_sessions = []\<rparr>"

definition sample_ccr_turn :: ccr_turn where
  "sample_ccr_turn = ccr_turn.make ''anthropic'' (Some ''s'') None False"

definition sample_injected where
  "sample_injected =
     apply_session_sticky_ccr_tool (listed_loads [create_ccr_tool_definition ''anthropic'']) (\<lambda>_. []) ''anthropic'' (Some ''s'')
       None True sample_ccr_tracker"

lemma sample_injected_tools: "fst sample_injected = Inr ([create_ccr_tool_definition ''anthropic''], True)"
  by code_simp

lemma retrieval_tool_sticks_witness:
  "fst (apply_session_sticky_ccr_tool (listed_loads [create_ccr_tool_definition ''anthropic'']) (\<lambda>_. []) ''anthropic'' (Some ''s'')
      (Some [client_tool]) False
      (fold (ccr_turn_run (listed_loads [create_ccr_tool_definition ''anthropic'']) (\<lambda>_. [])) [sample_ccr_turn] (snd sample_injected)))
   = Inr ([client_tool, create_ccr_tool_definition ''anthropic''], True)"
proof -
  have used: "\<Union> (ccr_used ` set [sample_ccr_turn]) - {(''anthropic'', ''s'')} = {}"
    by (auto simp: ccr_used_def sample_ccr_turn_def ccr_turn.defs)
  have turn: "apply_session_sticky_ccr_tool (listed_loads [create_ccr_tool_definition ''anthropic'']) (\<lambda>_. []) ''anthropic'' (Some ''s'')
       None True sample_ccr_tracker = (Inr ([create_ccr_tool_definition ''anthropic''], True), snd sample_injected)"
    using sample_injected_tools unfolding sample_injected_def by (metis prod.collapse)
  have init: "sess_init 1 = Inr sample_ccr_tracker" by (simp add: sess_init_def sample_ccr_tracker_def)
  have loads: "listed_loads [create_ccr_tool_definition ''anthropic'']
      (json_compact json_escape_char (\<lambda>_. []) (create_ccr_tool_definition ''anthropic'')) = Inr (create_ccr_tool_definition ''anthropic'')"
    by (simp add: listed_loads_def)
  have names: "existing_names_of (tools_or_empty (Some [client_tool])) = Inr [''memory_search'']" by code_simp
  have name: "CCR_TOOL_NAME \<notin> set [''memory_search'']" by code_simp
  have few: "int (card (\<Union> (ccr_used ` set [sample_ccr_turn]) - {(''anthropic'', ''s'')})) < 1" unfolding used by simp
  show ?thesis
    using retrieval_tool_sticks [OF init _ _ loads turn few names name, of "[]" False] by (simp add: tools_or_empty_def)
qed

end
