(* ===== verification/Tool_Schema.thy ===== *)
theory Tool_Schema
  imports Py_Text "HOL-Library.List_Lexorder" "HOL-Library.Char_ord"
begin

text \<open>
  Compaction of tool definitions, \<open>headroom/proxy/tool_schema_compaction.py\<close>: annotation keys of JSON
  schemas are dropped and the white space of descriptions is collapsed (layer 1); descriptions are
  truncated, or dropped where the name of a parameter says enough (layers 2 and 3). Results are kept in
  a process-wide dictionary under a digest of the tools and the settings. A payload is a decoded JSON object;
  the ellipsis, U+2026, is beyond the range of \<open>char\<close> here and an argument \<open>ell\<close>. Values are immutable
  here: the code hands out the list it keeps in its cache without copying it, so a caller that
  changed the tools of its payload in place would change the cached entry, which is not modelled.
\<close>

section \<open>Layer 1: annotation keys\<close>

definition TOOL_SCHEMA_DROP_KEYS :: "string list" where
  "TOOL_SCHEMA_DROP_KEYS =
     [''$id'', ''$schema'', ''$comment'', ''deprecated'', ''examples'', ''example'', ''markdownDescription'', ''readOnly'',
      ''title'', ''writeOnly'']"

definition SEMANTIC_PARAM_NAMES :: "string list" where
  "SEMANTIC_PARAM_NAMES =
     [''query'', ''search'', ''filter'', ''sort'', ''order'', ''limit'', ''offset'', ''page'', ''per_page'', ''perpage'',
      ''cursor'', ''after'', ''before'', ''owner'', ''repo'', ''repository'', ''org'', ''organization'', ''user'',
      ''username'', ''email'', ''name'', ''title'', ''description'', ''id'', ''number'', ''count'', ''url'', ''path'',
      ''file'', ''filename'', ''branch'', ''tag'', ''sha'', ''commit'', ''ref'', ''key'', ''token'', ''type'', ''format'',
      ''state'', ''status'', ''action'', ''method'', ''body'', ''content'', ''message'', ''text'', ''comment'', ''note'',
      ''start'', ''end'', ''from'', ''to'', ''direction'', ''ascending'', ''dry_run'', ''verbose'', ''force'',
      ''recursive'', ''include'', ''exclude'', ''pattern'', ''regex'', ''since'', ''until'']"

text \<open>\<open>" ".join(s.split())\<close>.\<close>

definition collapse :: "string \<Rightarrow> string" where
  "collapse s = join_with '' '' (words s)"

fun compact_tool_schema_value :: "json \<Rightarrow> string option \<Rightarrow> json"
  and compact_values :: "json list \<Rightarrow> string option \<Rightarrow> json list"
  and compact_items :: "(string \<times> json) list \<Rightarrow> string option \<Rightarrow> (string \<times> json) list" where
  "compact_tool_schema_value (JList items) parent_key = JList (compact_values items parent_key)"
| "compact_tool_schema_value (JDict d) parent_key = JDict (compact_items d parent_key)"
| "compact_tool_schema_value value parent_key = value"
| "compact_values [] parent_key = []"
| "compact_values (item # items) parent_key =
     compact_tool_schema_value item parent_key # compact_values items parent_key"
| "compact_items [] parent_key = []"
| "compact_items ((key, child) # d) parent_key =
     (if parent_key \<noteq> Some ''properties'' \<and> key \<in> set TOOL_SCHEMA_DROP_KEYS then compact_items d parent_key
      else (key, case child of
                   JStr s \<Rightarrow> if key = ''description'' then JStr (collapse s) else compact_tool_schema_value (JStr s) (Some key)
                 | _ \<Rightarrow> compact_tool_schema_value child (Some key)) # compact_items d parent_key)"

section \<open>Layers 2 and 3: descriptions\<close>

text \<open>
  The match of \<open>^(.*?[.!?])(?:\s|$)\<close>: the shortest prefix that ends in a stop before white space or the end. The
  texts it is applied to have no trailing newline.
\<close>

fun first_sentence :: "string \<Rightarrow> string option" where
  "first_sentence [] = None"
| "first_sentence (c # s) =
     (if c \<in> set ''.!?'' \<and> (s = [] \<or> is_space (hd s)) then Some [c] else map_option ((#) c) (first_sentence s))"

definition truncate_description :: "char \<Rightarrow> string \<Rightarrow> int \<Rightarrow> string" where
  "truncate_description ell desc max_chars =
     (if max_chars \<le> 0 then desc
      else
        let desc = collapse desc
        in if int (length desc) \<le> max_chars then desc
           else case first_sentence desc of
                  Some first \<Rightarrow>
                    if int (length first) \<le> max_chars then
                      let rest = strip (drop (length first) desc)
                      in if rest = [] then first
                         else case first_sentence rest of
                                Some second \<Rightarrow>
                                  if int (length first) + 1 + int (length second) \<le> py_int (of_int max_chars * 3 / 2)
                                  then first @ '' '' @ second else first
                              | None \<Rightarrow> first
                    else rstrip (take (nat max_chars) desc) @ [ell]
                | None \<Rightarrow> rstrip (take (nat max_chars) desc) @ [ell])"

definition is_semantic_param_name :: "string \<Rightarrow> bool" where
  "is_semantic_param_name name =
     (map (\<lambda>c. if c = CHR ''-'' then CHR ''_'' else c) (str_lower name) \<in> set SEMANTIC_PARAM_NAMES)"

fun truncate_in_schema :: "char \<Rightarrow> int \<Rightarrow> bool \<Rightarrow> json \<Rightarrow> string option \<Rightarrow> string option \<Rightarrow> json"
  and truncate_values :: "char \<Rightarrow> int \<Rightarrow> bool \<Rightarrow> json list \<Rightarrow> json list"
  and truncate_items ::
    "char \<Rightarrow> int \<Rightarrow> bool \<Rightarrow> (string \<times> json) list \<Rightarrow> string option \<Rightarrow> string option \<Rightarrow> (string \<times> json) list" where
  "truncate_in_schema ell mc strip_semantic (JList items) parent grandparent = JList (truncate_values ell mc strip_semantic items)"
| "truncate_in_schema ell mc strip_semantic (JDict d) parent grandparent =
     JDict (truncate_items ell mc strip_semantic d parent grandparent)"
| "truncate_in_schema ell mc strip_semantic value parent grandparent = value"
| "truncate_values ell mc strip_semantic [] = []"
| "truncate_values ell mc strip_semantic (item # items) =
     truncate_in_schema ell mc strip_semantic item None None # truncate_values ell mc strip_semantic items"
| "truncate_items ell mc strip_semantic [] parent grandparent = []"
| "truncate_items ell mc strip_semantic ((key, child) # d) parent grandparent =
     (let rest = truncate_items ell mc strip_semantic d parent grandparent;
          recursive = (key, truncate_in_schema ell mc strip_semantic child (Some key) parent) # rest
      in case child of
           JStr s \<Rightarrow>
             if key = ''description'' then
               (if strip_semantic \<and> grandparent = Some ''properties''
                  \<and> (case parent of None \<Rightarrow> False | Some name \<Rightarrow> name \<noteq> [] \<and> is_semantic_param_name name)
                then rest
                else (key, JStr (truncate_description ell s mc)) # rest)
             else recursive
         | _ \<Rightarrow> recursive)"

section \<open>The cache\<close>

text \<open>\<open>json.dumps\<close> with \<open>sort_keys=True\<close>, compact, and the digest over it and the settings.\<close>

fun sorted_json :: "json \<Rightarrow> json"
  and sorted_values :: "json list \<Rightarrow> json list"
  and sorted_items :: "(string \<times> json) list \<Rightarrow> (string \<times> json) list" where
  "sorted_json (JList xs) = JList (sorted_values xs)"
| "sorted_json (JDict d) = JDict (sort_key fst (sorted_items d))"
| "sorted_json v = v"
| "sorted_values [] = []"
| "sorted_values (x # xs) = sorted_json x # sorted_values xs"
| "sorted_items [] = []"
| "sorted_items ((k, v) # d) = (k, sorted_json v) # sorted_items d"

definition schema_cache_key :: "(string \<Rightarrow> string) \<Rightarrow> (rat \<Rightarrow> string) \<Rightarrow> json list \<Rightarrow> string list \<Rightarrow> string" where
  "schema_cache_key sha frepr tools config_vals =
     take 16 (sha (json_compact json_escape_ascii frepr (sorted_json (JList tools)) @ concat config_vals))"

type_synonym schema_cache = "(string, json list \<times> nat \<times> nat) pydict"

definition CACHE_MAX_ENTRIES :: nat where
  "CACHE_MAX_ENTRIES = 8"

definition schema_cache_put :: "string \<Rightarrow> json list \<times> nat \<times> nat \<Rightarrow> schema_cache \<Rightarrow> schema_cache" where
  "schema_cache_put key entry cache =
     dict_set key entry (if CACHE_MAX_ENTRIES \<le> length cache then tl cache else cache)"

definition invalidate_cache :: "schema_cache \<Rightarrow> schema_cache" where
  "invalidate_cache cache = []"

definition json_byte_len :: "(rat \<Rightarrow> string) \<Rightarrow> json \<Rightarrow> nat" where
  "json_byte_len frepr value = length (json_compact json_escape_char frepr value)"

text \<open>The payload that goes on, whether it was changed, and the two sizes.\<close>

type_synonym compaction = "message \<times> bool \<times> nat \<times> nat"

definition with_tools :: "message \<Rightarrow> json list \<times> nat \<times> nat \<Rightarrow> compaction" where
  "with_tools payload entry =
     (case entry of (compacted_tools, len_before, len_after) \<Rightarrow>
        if len_before \<le> len_after then (payload, False, len_before, len_after)
        else (dict_set ''tools'' (JList compacted_tools) payload, True, len_before, len_after))"

definition compact_tools ::
  "(string \<Rightarrow> string) \<Rightarrow> (rat \<Rightarrow> string) \<Rightarrow> message \<Rightarrow> schema_cache \<Rightarrow> compaction \<times> schema_cache" where
  "compact_tools sha frepr payload cache =
     (case dict_get_default payload ''tools'' JNull of
        JList tools \<Rightarrow>
          if tools = [] then ((payload, False, 0, 0), cache)
          else
            let key = schema_cache_key sha frepr tools [''L1'']
            in case dict_get cache key of
                 Some entry \<Rightarrow> (with_tools payload entry, cache)
               | None \<Rightarrow>
                   let compacted_tools = compact_values tools None;
                       len_before = json_byte_len frepr (JList tools);
                       len_after = json_byte_len frepr (JList compacted_tools)
                   in (with_tools payload (compacted_tools, len_before, len_after),
                       schema_cache_put key (compacted_tools, len_before, len_after) cache)
      | _ \<Rightarrow> ((payload, False, 0, 0), cache))"

text \<open>\<open>strip_sem\<close> is the setting of layer 3.\<close>

definition compact_tool_descriptions ::
  "(string \<Rightarrow> string) \<Rightarrow> (rat \<Rightarrow> string) \<Rightarrow> char \<Rightarrow> bool \<Rightarrow> message \<Rightarrow> int \<Rightarrow> schema_cache \<Rightarrow> compaction \<times> schema_cache" where
  "compact_tool_descriptions sha frepr ell strip_sem payload max_chars cache =
     (if max_chars \<le> 0 then ((payload, False, 0, 0), cache)
      else case dict_get_default payload ''tools'' JNull of
        JList tools \<Rightarrow>
          if tools = [] then ((payload, False, 0, 0), cache)
          else
            let key = schema_cache_key sha frepr tools [''L2'', int_dec max_chars, if strip_sem then ''True'' else ''False'']
            in case dict_get cache key of
                 Some entry \<Rightarrow> (with_tools payload entry, cache)
               | None \<Rightarrow>
                   let compacted_tools = truncate_values ell max_chars strip_sem tools;
                       len_before = json_byte_len frepr (JList tools);
                       len_after = json_byte_len frepr (JList compacted_tools)
                   in (with_tools payload (compacted_tools, len_before, len_after),
                       schema_cache_put key (compacted_tools, len_before, len_after) cache)
      | _ \<Rightarrow> ((payload, False, 0, 0), cache))"

definition tool_desc_max_chars :: "string option \<Rightarrow> int" where
  "tool_desc_max_chars env = (case int_of_str (case env of None \<Rightarrow> ''0'' | Some s \<Rightarrow> s) of Inl e \<Rightarrow> 0 | Inr n \<Rightarrow> n)"

definition strip_semantic_params :: "string option \<Rightarrow> bool" where
  "strip_semantic_params env = ((case env of None \<Rightarrow> ''0'' | Some s \<Rightarrow> s) = ''1'')"

section \<open>Collapsing white space\<close>

lemma words_aux_clean:
  "list_all (\<lambda>c. \<not> is_space c) cur \<Longrightarrow> list_all (\<lambda>l. l \<noteq> [] \<and> list_all (\<lambda>c. \<not> is_space c) l) (words_aux cur s)"
proof (induction s arbitrary: cur)
  case (Cons c s)
  then show ?case by (cases "is_space c"; cases "cur = []") simp_all
qed simp

lemma words_clean: "l \<in> set (words s) \<Longrightarrow> l \<noteq> [] \<and> list_all (\<lambda>c. \<not> is_space c) l"
  using words_aux_clean [of "[]" s] by (simp add: words_def list_all_iff)

lemma words_aux_word:
  "list_all (\<lambda>c. \<not> is_space c) l \<Longrightarrow> words_aux cur (l @ s) = words_aux (rev l @ cur) s"
  by (induction l arbitrary: cur) auto

text \<open>Joining clean words and splitting again gives the words back.\<close>

lemma words_join:
  "(\<And>l. l \<in> set ls \<Longrightarrow> l \<noteq> [] \<and> list_all (\<lambda>c. \<not> is_space c) l) \<Longrightarrow> words (join_with '' '' ls) = ls"
proof (induction "'' ''" ls rule: join_with.induct)
  case (2 l)
  then show ?case using words_aux_word [of l "[]" "[]"] by (simp add: words_def)
next
  case (3 l m ls)
  have "is_space (CHR '' '')" by (simp add: is_space_def)
  then have "words_aux [] (l @ '' '' @ join_with '' '' (m # ls)) = l # words_aux [] (join_with '' '' (m # ls))"
    using 3(2) [of l] words_aux_word [of l "[]" "'' '' @ join_with '' '' (m # ls)"] by simp
  then show ?case using 3 by (simp add: words_def)
qed (simp add: words_def)

lemma collapse_idem [simp]: "collapse (collapse s) = collapse s"
  using words_join [of "words s"] words_clean by (simp add: collapse_def)

text \<open>Collapsing never costs: white space of any kind weighs at least what a blank does.\<close>

lemma words_aux_weight:
  fixes w :: "char \<Rightarrow> nat"
  assumes "\<And>c. w (CHR '' '') \<le> w c"
  shows "(\<Sum>c\<leftarrow>join_with '' '' (words_aux cur s). w c) \<le> (\<Sum>c\<leftarrow>cur. w c) + (\<Sum>c\<leftarrow>s. w c)"
proof (induction cur s rule: words_aux.induct)
  case (1 cur)
  then show ?case by (simp add: rev_map [symmetric] sum_list_rev)
next
  case (2 cur c s)
  show ?case
  proof (cases "is_space c \<and> cur \<noteq> []")
    case True
    have "(\<Sum>c\<leftarrow>join_with '' '' (rev cur # words_aux [] s). w c)
        \<le> (\<Sum>c\<leftarrow>cur. w c) + w (CHR '' '') + (\<Sum>c\<leftarrow>join_with '' '' (words_aux [] s). w c)"
      by (cases "words_aux [] s") (simp_all add: rev_map [symmetric] sum_list_rev)
    then show ?thesis using 2(2) True assms [of c] by simp
  next
    case False
    then show ?thesis using 2 assms [of c] by (auto simp: trans_le_add2 le_SucI)
  qed
qed

lemma collapse_weight:
  fixes w :: "char \<Rightarrow> nat"
  assumes "\<And>c. w (CHR '' '') \<le> w c"
  shows "(\<Sum>c\<leftarrow>collapse s. w c) \<le> (\<Sum>c\<leftarrow>s. w c)"
  using words_aux_weight [of w "[]" s] assms by (simp add: collapse_def words_def)

section \<open>Layer 1 costs nothing\<close>

lemma compact_idem [simp]:
  "compact_tool_schema_value (compact_tool_schema_value v p) p = compact_tool_schema_value v p"
  "compact_values (compact_values vs p) p = compact_values vs p"
  "compact_items (compact_items d p) p = compact_items d p"
proof (induction v p and vs p and d p rule: compact_tool_schema_value_compact_values_compact_items.induct)
  case (7 key child d p)
  then show ?case by (cases child) auto
qed auto

lemma esc_weight: "length (json_escape_char (CHR '' '')) \<le> length (json_escape_char c)"
  by (simp add: json_escape_char_def)

lemma length_json_string: "length (json_string esc s) = 2 + (\<Sum>c\<leftarrow>s. length (esc c))"
  by (simp add: json_string_def length_concat comp_def)

lemma length_join: "length (join_with [c] ls) = (\<Sum>l\<leftarrow>ls. length l + 1) - 1"
  by (induction "[c]" ls rule: join_with.induct) auto

lemma compact_shrinks:
  "length (json_compact json_escape_char frepr (compact_tool_schema_value v p)) \<le> length (json_compact json_escape_char frepr v)"
  "(\<Sum>l\<leftarrow>json_compact_list json_escape_char frepr (compact_values vs p). length l + 1)
     \<le> (\<Sum>l\<leftarrow>json_compact_list json_escape_char frepr vs. length l + 1)"
  "(\<Sum>l\<leftarrow>json_compact_items json_escape_char frepr (compact_items d p). length l + 1)
     \<le> (\<Sum>l\<leftarrow>json_compact_items json_escape_char frepr d. length l + 1)"
proof (induction v p and vs p and d p rule: compact_tool_schema_value_compact_values_compact_items.induct)
  case (1 items p)
  then show ?case using diff_le_mono [of _ _ 1] by (simp add: length_join)
next
  case (2 d p)
  then show ?case using diff_le_mono [of _ _ 1] by (simp add: length_join)
next
  case (7 key child d p)
  show ?case
  proof (cases "p \<noteq> Some ''properties'' \<and> key \<in> set TOOL_SCHEMA_DROP_KEYS")
    case True
    then show ?thesis using 7(1) by simp
  next
    case False
    have "length (json_string json_escape_char (collapse s)) \<le> length (json_string json_escape_char s)" for s
      using collapse_weight [of "\<lambda>c. length (json_escape_char c)" s] esc_weight by (simp add: length_json_string)
    then show ?thesis using 7 False by (cases child) (auto intro!: add_mono)
  qed
qed simp_all

section \<open>Layer 1 keeps the valid inputs\<close>

text \<open>
  What a schema accepts, in one dialect: the applicator keywords that hold subschemas are spelled out, the keywords
  that constrain no instance are listed (the annotations of the JSON Schema standard, the identifiers of a schema
  and its dialect, which matter to references only, and two names no dialect defines), every other keyword is judged
  by \<open>kw\<close>, given the keyword, its value and the instance.
\<close>

definition ANNOTATION_KEYWORDS :: "string list" where
  "ANNOTATION_KEYWORDS =
     [''title'', ''description'', ''default'', ''deprecated'', ''readOnly'', ''writeOnly'', ''examples'', ''$comment'',
      ''$id'', ''$schema'', ''example'', ''markdownDescription'']"

definition REFERENCE_KEYWORDS :: "string list" where
  "REFERENCE_KEYWORDS = [''$ref'', ''$dynamicRef'', ''$recursiveRef'']"

type_synonym keyword_check = "string \<Rightarrow> json \<Rightarrow> json \<Rightarrow> bool"

definition combine :: "string \<Rightarrow> bool list \<Rightarrow> bool" where
  "combine k bs =
     (if k = ''anyOf'' then list_ex id bs else if k = ''allOf'' then list_all id bs else length (filter id bs) = 1)"

definition property_names :: "(string \<times> json) list \<Rightarrow> string list" where
  "property_names d = (case jget d ''properties'' of Some (JDict ps) \<Rightarrow> map fst ps | _ \<Rightarrow> [])"

fun accepts :: "keyword_check \<Rightarrow> json \<Rightarrow> json \<Rightarrow> bool"
  and accepts_each :: "keyword_check \<Rightarrow> json list \<Rightarrow> json \<Rightarrow> bool list"
  and accepts_props :: "keyword_check \<Rightarrow> (string \<times> json) list \<Rightarrow> json \<Rightarrow> bool"
  and accepts_keys :: "keyword_check \<Rightarrow> string list \<Rightarrow> (string \<times> json) list \<Rightarrow> json \<Rightarrow> bool" where
  "accepts kw (JBool b) v = b"
| "accepts kw (JDict d) v = accepts_keys kw (property_names d) d v"
| "accepts kw _ v = True"
| "accepts_each kw [] v = []"
| "accepts_each kw (s # ss) v = accepts kw s v # accepts_each kw ss v"
| "accepts_props kw [] v = True"
| "accepts_props kw ((n, s) # ps) v =
     ((case v of JDict ob \<Rightarrow> (case jget ob n of None \<Rightarrow> True | Some x \<Rightarrow> accepts kw s x) | _ \<Rightarrow> True)
      \<and> accepts_props kw ps v)"
| "accepts_keys kw names [] v = True"
| "accepts_keys kw names ((k, c) # d) v =
     ((if k \<in> set ANNOTATION_KEYWORDS then True
       else if k = ''properties'' then (case c of JDict ps \<Rightarrow> accepts_props kw ps v | _ \<Rightarrow> True)
       else if k = ''items'' then (case v of JList xs \<Rightarrow> list_all (\<lambda>x. accepts kw c x) xs | _ \<Rightarrow> True)
       else if k = ''additionalProperties''
            then (case v of JDict ob \<Rightarrow> list_all (\<lambda>(n, x). n \<in> set names \<or> accepts kw c x) ob | _ \<Rightarrow> True)
       else if k = ''not'' then \<not> accepts kw c v
       else if k \<in> {''anyOf'', ''allOf'', ''oneOf''}
            then (case c of JList ss \<Rightarrow> combine k (accepts_each kw ss v) | _ \<Rightarrow> True)
       else kw k c v)
      \<and> accepts_keys kw names d v)"

text \<open>
  The schemas the claim is about: no references, and no value of another keyword is changed by the compaction, as
  none is that holds only scalars and lists of scalars.
\<close>

fun plain_schema :: "json \<Rightarrow> bool"
  and plain_each :: "json list \<Rightarrow> bool"
  and plain_props :: "(string \<times> json) list \<Rightarrow> bool"
  and plain_keys :: "(string \<times> json) list \<Rightarrow> bool" where
  "plain_schema (JDict d) = plain_keys d"
| "plain_schema _ = True"
| "plain_each [] = True"
| "plain_each (s # ss) = (plain_schema s \<and> plain_each ss)"
| "plain_props [] = True"
| "plain_props ((n, s) # ps) = (plain_schema s \<and> plain_props ps)"
| "plain_keys [] = True"
| "plain_keys ((k, c) # d) =
     ((if k \<in> set ANNOTATION_KEYWORDS then True
       else if k \<in> set REFERENCE_KEYWORDS then False
       else if k = ''properties'' then (case c of JDict ps \<Rightarrow> plain_props ps | _ \<Rightarrow> True)
       else if k \<in> {''items'', ''additionalProperties'', ''not''} then plain_schema c
       else if k \<in> {''anyOf'', ''allOf'', ''oneOf''} then (case c of JList ss \<Rightarrow> plain_each ss | _ \<Rightarrow> True)
       else compact_tool_schema_value c (Some k) = c)
      \<and> plain_keys d)"

definition compact_child :: "string \<Rightarrow> json \<Rightarrow> json" where
  "compact_child key child =
     (case child of
        JStr s \<Rightarrow> if key = ''description'' then JStr (collapse s) else JStr s
      | _ \<Rightarrow> compact_tool_schema_value child (Some key))"

lemma compact_items_Cons:
  "compact_items ((key, child) # d) p =
     (if p \<noteq> Some ''properties'' \<and> key \<in> set TOOL_SCHEMA_DROP_KEYS then compact_items d p
      else (key, compact_child key child) # compact_items d p)"
  by (cases child) (simp_all add: compact_child_def)

lemma jget_compact:
  "k \<notin> set TOOL_SCHEMA_DROP_KEYS \<Longrightarrow> jget (compact_items d p) k = map_option (compact_child k) (jget d k)"
  by (induction d) (auto simp: compact_items_Cons simp del: compact_items.simps(2))

lemma keys_of_properties: "map fst (compact_items ps (Some ''properties'')) = map fst ps"
  by (induction ps) (auto simp: compact_items_Cons simp del: compact_items.simps(2))

lemma property_names_compact: "property_names (compact_items d p) = property_names d"
proof -
  have "''properties'' \<notin> set TOOL_SCHEMA_DROP_KEYS" by (simp add: TOOL_SCHEMA_DROP_KEYS_def)
  from jget_compact [OF this, of d p] show ?thesis
    by (cases "jget d ''properties''"; cases "the (jget d ''properties'')")
      (auto simp: property_names_def compact_child_def keys_of_properties)
qed

lemma accepts_child:
  "(\<And>p. accepts kw (compact_tool_schema_value c p) x = accepts kw c x) \<Longrightarrow> accepts kw (compact_child k c) x = accepts kw c x"
  by (cases c) (auto simp: compact_child_def)

lemma child_unchanged: "k \<noteq> ''description'' \<Longrightarrow> compact_child k c = compact_tool_schema_value c (Some k)"
  by (cases c) (simp_all add: compact_child_def)

text \<open>The verdict of one keyword.\<close>

definition accepts_key :: "keyword_check \<Rightarrow> string list \<Rightarrow> string \<Rightarrow> json \<Rightarrow> json \<Rightarrow> bool" where
  "accepts_key kw names k c v = accepts_keys kw names [(k, c)] v"

lemma accepts_keys_Cons: "accepts_keys kw names ((k, c) # d) v = (accepts_key kw names k c v \<and> accepts_keys kw names d v)"
  by (simp only: accepts_key_def accepts_keys.simps simp_thms)

lemma accepts_key_annotation: "k \<in> set ANNOTATION_KEYWORDS \<Longrightarrow> accepts_key kw names k c v"
  by (simp only: accepts_key_def accepts_keys.simps simp_thms if_True)

text \<open>What is dropped constrains nothing.\<close>

lemma dropped_annotations: "set TOOL_SCHEMA_DROP_KEYS \<subseteq> set ANNOTATION_KEYWORDS"
  by (simp add: TOOL_SCHEMA_DROP_KEYS_def ANNOTATION_KEYWORDS_def)

lemma accepts_keys_compact_Cons:
  assumes "accepts_key kw names k (compact_child k c) v = accepts_key kw names k c v"
    and "accepts_keys kw names (compact_items d p) v = accepts_keys kw names d v"
  shows "accepts_keys kw names (compact_items ((k, c) # d) p) v = accepts_keys kw names ((k, c) # d) v"
proof (cases "p \<noteq> Some ''properties'' \<and> k \<in> set TOOL_SCHEMA_DROP_KEYS")
  case True
  then have "k \<in> set ANNOTATION_KEYWORDS" using dropped_annotations by blast
  from accepts_key_annotation [OF this] True assms(2) show ?thesis
    by (simp only: compact_items_Cons accepts_keys_Cons if_True simp_thms)
next
  case False
  then show ?thesis using assms by (simp only: compact_items_Cons accepts_keys_Cons if_False)
qed

lemma accepts_key_props:
  "accepts_key kw names ''properties'' c v = (case c of JDict ps \<Rightarrow> accepts_props kw ps v | _ \<Rightarrow> True)"
  by (cases c) (simp_all add: accepts_key_def ANNOTATION_KEYWORDS_def REFERENCE_KEYWORDS_def)

lemma accepts_key_sub:
  "accepts_key kw names ''items'' c v = (case v of JList xs \<Rightarrow> list_all (\<lambda>x. accepts kw c x) xs | _ \<Rightarrow> True)"
  "accepts_key kw names ''additionalProperties'' c v =
     (case v of JDict ob \<Rightarrow> list_all (\<lambda>(n, x). n \<in> set names \<or> accepts kw c x) ob | _ \<Rightarrow> True)"
  "accepts_key kw names ''not'' c v = (\<not> accepts kw c v)"
  by (cases v; simp add: accepts_key_def ANNOTATION_KEYWORDS_def REFERENCE_KEYWORDS_def)+

lemma accepts_key_comb:
  "accepts_key kw names ''anyOf'' c v = (case c of JList ss \<Rightarrow> combine ''anyOf'' (accepts_each kw ss v) | _ \<Rightarrow> True)"
  "accepts_key kw names ''allOf'' c v = (case c of JList ss \<Rightarrow> combine ''allOf'' (accepts_each kw ss v) | _ \<Rightarrow> True)"
  "accepts_key kw names ''oneOf'' c v = (case c of JList ss \<Rightarrow> combine ''oneOf'' (accepts_each kw ss v) | _ \<Rightarrow> True)"
  by (cases c; simp add: accepts_key_def ANNOTATION_KEYWORDS_def REFERENCE_KEYWORDS_def)+

lemma keyword_kinds:
  obtains (drop) "k \<in> set ANNOTATION_KEYWORDS" | (props) "k = ''properties''"
    | (items) "k = ''items''" | (rest_props) "k = ''additionalProperties''" | (negated) "k = ''not''"
    | (any) "k = ''anyOf''" | (all) "k = ''allOf''" | (one) "k = ''oneOf''"
    | (leaf) "k \<notin> set ANNOTATION_KEYWORDS" "k \<noteq> ''properties''" "k \<notin> {''items'', ''additionalProperties'', ''not''}"
        "k \<notin> {''anyOf'', ''allOf'', ''oneOf''}"
  by (metis insert_iff singleton_iff)

lemma accepts_compact:
  "plain_schema s \<Longrightarrow> accepts kw (compact_tool_schema_value s p) v = accepts kw s v"
  "plain_each ss \<Longrightarrow> accepts_each kw (compact_values ss p) v = accepts_each kw ss v"
  "plain_props ps \<Longrightarrow> accepts_props kw (compact_items ps (Some ''properties'')) v = accepts_props kw ps v"
  "plain_keys d \<Longrightarrow> accepts_keys kw names (compact_items d p) v = accepts_keys kw names d v"
proof (induction s and ss and ps and d arbitrary: v p and v p and v and v p names
    rule: plain_schema_plain_each_plain_props_plain_keys.induct)
  case (1 d)
  then show ?case by (simp add: property_names_compact)
next
  case (6 n s ps)
  have "accepts kw (compact_child n s) x = accepts kw s x" for x
    by (rule accepts_child) (use 6 in simp)
  then show ?case using 6 by (auto simp: compact_items_Cons simp del: compact_items.simps(2) split: json.split option.split)
next
  case (8 k c d)
  have rest: "accepts_keys kw names (compact_items d p) v = accepts_keys kw names d v" using 8 by simp
  have "accepts_key kw names k (compact_child k c) v = accepts_key kw names k c v"
  proof -
    note sub = accepts_child [of kw c _ k]
    show ?thesis
    proof (cases k rule: keyword_kinds)
      case drop
      then show ?thesis by (simp only: accepts_key_annotation)
    next
      case props
      then show ?thesis
        using 8 by (cases c) (simp_all add: accepts_key_props compact_child_def ANNOTATION_KEYWORDS_def REFERENCE_KEYWORDS_def)
    next
      case items
      have "accepts kw (compact_tool_schema_value c q) x = accepts kw c x" for q x
        using 8 by (simp add: items ANNOTATION_KEYWORDS_def REFERENCE_KEYWORDS_def)
      from sub [OF this] show ?thesis by (simp only: items accepts_key_sub)
    next
      case rest_props
      have "accepts kw (compact_tool_schema_value c q) x = accepts kw c x" for q x
        using 8 by (simp add: rest_props ANNOTATION_KEYWORDS_def REFERENCE_KEYWORDS_def)
      from sub [OF this] show ?thesis by (simp only: rest_props accepts_key_sub)
    next
      case negated
      have "accepts kw (compact_tool_schema_value c q) x = accepts kw c x" for q x
        using 8 by (simp add: negated ANNOTATION_KEYWORDS_def REFERENCE_KEYWORDS_def)
      from sub [OF this] show ?thesis by (simp only: negated accepts_key_sub)
    next
      case any
      then show ?thesis
        using 8 by (cases c) (simp_all add: accepts_key_comb compact_child_def ANNOTATION_KEYWORDS_def REFERENCE_KEYWORDS_def)
    next
      case all
      then show ?thesis
        using 8 by (cases c) (simp_all add: accepts_key_comb compact_child_def ANNOTATION_KEYWORDS_def REFERENCE_KEYWORDS_def)
    next
      case one
      then show ?thesis
        using 8 by (cases c) (simp_all add: accepts_key_comb compact_child_def ANNOTATION_KEYWORDS_def REFERENCE_KEYWORDS_def)
    next
      case leaf
      then have "compact_tool_schema_value c (Some k) = c" using "8.prems" by (simp split: if_splits)
      moreover have "k \<noteq> ''description''" using leaf(1) by (auto simp: ANNOTATION_KEYWORDS_def)
      ultimately show ?thesis by (simp only: child_unchanged simp_thms)
    qed
  qed
  then show ?case using rest by (rule accepts_keys_compact_Cons)
qed auto

section \<open>The cache is transparent\<close>

text \<open>A call of either entry point.\<close>

datatype schema_call = Layer1 message | Layer2 int message

fun run_schema_call ::
  "(string \<Rightarrow> string) \<Rightarrow> (rat \<Rightarrow> string) \<Rightarrow> char \<Rightarrow> bool \<Rightarrow> schema_call \<Rightarrow> schema_cache \<Rightarrow> compaction \<times> schema_cache" where
  "run_schema_call sha frepr ell strip_sem (Layer1 payload) cache = compact_tools sha frepr payload cache"
| "run_schema_call sha frepr ell strip_sem (Layer2 max_chars payload) cache =
     compact_tool_descriptions sha frepr ell strip_sem payload max_chars cache"

text \<open>The tools a call works on, if it does; what it computes without the cache; its key.\<close>

fun call_tools :: "schema_call \<Rightarrow> json list" where
  "call_tools (Layer1 payload) = (case dict_get_default payload ''tools'' JNull of JList tools \<Rightarrow> tools | _ \<Rightarrow> [])"
| "call_tools (Layer2 max_chars payload) =
     (if max_chars \<le> 0 then [] else case dict_get_default payload ''tools'' JNull of JList tools \<Rightarrow> tools | _ \<Rightarrow> [])"

fun call_layer :: "schema_call \<Rightarrow> int option" where
  "call_layer (Layer1 payload) = None"
| "call_layer (Layer2 max_chars payload) = Some max_chars"

fun call_payload :: "schema_call \<Rightarrow> message" where
  "call_payload (Layer1 payload) = payload"
| "call_payload (Layer2 max_chars payload) = payload"

definition compacted :: "char \<Rightarrow> bool \<Rightarrow> int option \<Rightarrow> json list \<Rightarrow> json list" where
  "compacted ell strip_sem layer tools =
     (case layer of None \<Rightarrow> compact_values tools None | Some max_chars \<Rightarrow> truncate_values ell max_chars strip_sem tools)"

definition schema_entry :: "(rat \<Rightarrow> string) \<Rightarrow> char \<Rightarrow> bool \<Rightarrow> int option \<Rightarrow> json list \<Rightarrow> json list \<times> nat \<times> nat" where
  "schema_entry frepr ell strip_sem layer tools =
     (let c = compacted ell strip_sem layer tools in (c, json_byte_len frepr (JList tools), json_byte_len frepr (JList c)))"

definition call_key :: "(string \<Rightarrow> string) \<Rightarrow> (rat \<Rightarrow> string) \<Rightarrow> bool \<Rightarrow> schema_call \<Rightarrow> string" where
  "call_key sha frepr strip_sem c =
     schema_cache_key sha frepr (call_tools c)
       (case call_layer c of None \<Rightarrow> [''L1'']
        | Some m \<Rightarrow> [''L2'', int_dec m, if strip_sem then ''True'' else ''False''])"

lemma run_schema_call_eq:
  "run_schema_call sha frepr ell strip_sem c cache =
    (if call_tools c = [] then ((call_payload c, False, 0, 0), cache)
     else case dict_get cache (call_key sha frepr strip_sem c) of
       Some entry \<Rightarrow> (with_tools (call_payload c) entry, cache)
     | None \<Rightarrow>
         (let entry = schema_entry frepr ell strip_sem (call_layer c) (call_tools c)
          in (with_tools (call_payload c) entry, schema_cache_put (call_key sha frepr strip_sem c) entry cache)))"
proof (cases c)
  case (Layer1 payload)
  show ?thesis
    by (cases "dict_get_default payload ''tools'' JNull")
      (simp_all add: Layer1 compact_tools_def schema_entry_def compacted_def call_key_def Let_def split: option.split)
next
  case (Layer2 m payload)
  show ?thesis
  proof (cases "m \<le> 0")
    case True
    then show ?thesis by (simp add: Layer2 compact_tool_descriptions_def)
  next
    case False
    then show ?thesis
      by (cases "dict_get_default payload ''tools'' JNull")
        (simp_all add: Layer2 compact_tool_descriptions_def schema_entry_def compacted_def call_key_def Let_def split: option.split)
  qed
qed

definition fresh_answer :: "(rat \<Rightarrow> string) \<Rightarrow> char \<Rightarrow> bool \<Rightarrow> schema_call \<Rightarrow> compaction" where
  "fresh_answer frepr ell strip_sem c =
     (if call_tools c = [] then (call_payload c, False, 0, 0)
      else with_tools (call_payload c) (schema_entry frepr ell strip_sem (call_layer c) (call_tools c)))"

fun run_schema_calls ::
  "(string \<Rightarrow> string) \<Rightarrow> (rat \<Rightarrow> string) \<Rightarrow> char \<Rightarrow> bool \<Rightarrow> schema_call list \<Rightarrow> schema_cache \<Rightarrow> compaction list" where
  "run_schema_calls sha frepr ell strip_sem [] cache = []"
| "run_schema_calls sha frepr ell strip_sem (c # cs) cache =
     (let (answer, cache) = run_schema_call sha frepr ell strip_sem c cache
      in answer # run_schema_calls sha frepr ell strip_sem cs cache)"

text \<open>Every entry is what some call with its key computes.\<close>

definition entries_of :: "(string \<Rightarrow> string) \<Rightarrow> (rat \<Rightarrow> string) \<Rightarrow> char \<Rightarrow> bool \<Rightarrow> schema_call set \<Rightarrow> schema_cache \<Rightarrow> bool" where
  "entries_of sha frepr ell strip_sem C cache =
     (\<forall>(k, e) \<in> set cache. \<exists>c \<in> C. call_tools c \<noteq> [] \<and> call_key sha frepr strip_sem c = k
        \<and> e = schema_entry frepr ell strip_sem (call_layer c) (call_tools c))"

lemma dict_set_subset: "set (dict_set k v d) \<subseteq> insert (k, v) (set d)"
  by (induction d) auto

lemma entries_of_put:
  assumes "entries_of sha frepr ell strip_sem C cache" "c \<in> C" "call_tools c \<noteq> []"
  shows "entries_of sha frepr ell strip_sem C
    (schema_cache_put (call_key sha frepr strip_sem c) (schema_entry frepr ell strip_sem (call_layer c) (call_tools c)) cache)"
proof -
  let ?k = "call_key sha frepr strip_sem c" and ?e = "schema_entry frepr ell strip_sem (call_layer c) (call_tools c)"
  have "set (tl cache) \<subseteq> set cache" by (cases cache) auto
  then have "set (schema_cache_put ?k ?e cache) \<subseteq> insert (?k, ?e) (set cache)"
    using dict_set_subset [of ?k ?e cache] dict_set_subset [of ?k ?e "tl cache"] by (auto simp: schema_cache_put_def)
  then show ?thesis using assms unfolding entries_of_def by blast
qed

lemma run_schema_calls_fresh:
  assumes "entries_of sha frepr ell strip_sem C cache" "set cs \<subseteq> C"
    and inj: "\<And>c c'. c \<in> C \<Longrightarrow> c' \<in> C \<Longrightarrow> call_tools c \<noteq> [] \<Longrightarrow> call_tools c' \<noteq> [] \<Longrightarrow>
      call_key sha frepr strip_sem c = call_key sha frepr strip_sem c' \<Longrightarrow> call_tools c = call_tools c' \<and> call_layer c = call_layer c'"
  shows "run_schema_calls sha frepr ell strip_sem cs cache = map (fresh_answer frepr ell strip_sem) cs"
  using assms(1,2)
proof (induction cs arbitrary: cache)
  case (Cons c cs)
  let ?k = "call_key sha frepr strip_sem c" and ?e = "schema_entry frepr ell strip_sem (call_layer c) (call_tools c)"
  note eq = run_schema_call_eq [of sha frepr ell strip_sem c cache]
  show ?case
  proof (cases "call_tools c = []")
    case True
    then show ?thesis using Cons eq by (simp add: fresh_answer_def)
  next
    case False
    show ?thesis
    proof (cases "dict_get cache ?k")
      case None
      have "entries_of sha frepr ell strip_sem C (schema_cache_put ?k ?e cache)"
        using entries_of_put Cons.prems False by auto
      from Cons.IH [OF this] show ?thesis using Cons.prems eq None False by (simp add: fresh_answer_def Let_def)
    next
      case (Some e)
      from dict_get_Some_in [OF Some] Cons.prems(1) obtain c' where c': "c' \<in> C" "call_tools c' \<noteq> []"
        "call_key sha frepr strip_sem c' = ?k" "e = schema_entry frepr ell strip_sem (call_layer c') (call_tools c')"
        unfolding entries_of_def by blast
      then have "e = ?e" using inj [of c' c] Cons.prems(2) False by simp
      then show ?thesis using Cons eq Some False by (simp add: fresh_answer_def)
    qed
  qed
qed simp

section \<open>Truncated descriptions\<close>

lemma first_sentence_prefix: "first_sentence s = Some f \<Longrightarrow> take (length f) s = f"
  by (induction s arbitrary: f) (auto split: if_splits)

lemma length_rstrip_le: "length (rstrip s) \<le> length s"
  using length_dropWhile_le [of is_space "rev s"] by (simp add: rstrip_def)

text \<open>A description keeps at most half as much again, or one character more than the bound.\<close>

lemma truncate_description_bounds:
  assumes "0 < mc"
  shows "int (length (truncate_description ell desc mc)) \<le> max (mc + 1) (3 * mc div 2)"
proof -
  have half: "py_int (of_int mc * 3 / 2) = 3 * mc div 2"
  proof -
    have "(of_int mc * 3 / 2 :: rat) = of_int (3 * mc) / of_int 2" by simp
    then show ?thesis using assms by (simp only: py_int_def floor_divide_of_int_eq) simp
  qed
  have hard: "int (length (rstrip (take (nat mc) s) @ [ell])) \<le> mc + 1" for s
    using length_rstrip_le [of "take (nat mc) s"] assms by (simp add: le_nat_iff)
  let ?d = "collapse desc"
  show ?thesis
  proof (cases "int (length ?d) \<le> mc")
    case True
    then show ?thesis using assms by (simp add: truncate_description_def Let_def)
  next
    case long: False
    show ?thesis
    proof (cases "first_sentence ?d")
      case None
      then show ?thesis using long assms hard [of ?d] by (simp add: truncate_description_def Let_def)
    next
      case (Some f)
      show ?thesis
      proof (cases "int (length f) \<le> mc")
        case False
        then show ?thesis using Some long assms hard [of ?d] by (simp add: truncate_description_def Let_def)
      next
        case True
        then show ?thesis using Some long assms
          by (cases "first_sentence (strip (drop (length f) ?d))") (auto simp: truncate_description_def Let_def half le_max_iff_disj)
      qed
    qed
  qed
qed

text \<open>A description without a sentence end grows past the bound by the ellipsis.\<close>

lemma truncation_exceeds:
  "truncate_description ell (replicate 5 (CHR ''a'')) 4 = ''aaaa'' @ [ell]"
  by (simp add: truncate_description_def collapse_def words_def is_space_def rstrip_def numeral_eq_Suc Let_def)

section \<open>Tools of the three request formats\<close>

text \<open>Where a tool has its name and its schema: Anthropic messages, OpenAI responses, OpenAI chat completions.\<close>

definition schema_of :: "message \<Rightarrow> json option" where
  "schema_of t =
     (case jget t ''input_schema'' of
        Some s \<Rightarrow> Some s
      | None \<Rightarrow>
          (case jget t ''parameters'' of
             Some s \<Rightarrow> Some s
           | None \<Rightarrow> (case jget t ''function'' of Some (JDict f) \<Rightarrow> jget f ''parameters'' | _ \<Rightarrow> None)))"

definition name_of :: "message \<Rightarrow> json option" where
  "name_of t =
     (case jget t ''name'' of
        Some n \<Rightarrow> Some n
      | None \<Rightarrow> (case jget t ''function'' of Some (JDict f) \<Rightarrow> jget f ''name'' | _ \<Rightarrow> None))"

lemma tool_keys_kept:
  "k \<in> {''name'', ''input_schema'', ''parameters'', ''function''} \<Longrightarrow> jget (compact_items t p) k = map_option (compact_child k) (jget t k)"
  by (rule jget_compact) (auto simp: TOOL_SCHEMA_DROP_KEYS_def)

lemma schema_of_compact:
  assumes "schema_of t = Some schema"
  shows "\<exists>key. schema_of (compact_items t None) = Some (compact_child key schema)"
proof (cases "jget t ''input_schema'' = None \<and> jget t ''parameters'' = None")
  case True
  then obtain f where "jget t ''function'' = Some (JDict f)" "jget f ''parameters'' = Some schema"
    using assms by (auto simp: schema_of_def split: option.splits json.splits)
  with True show ?thesis by (auto simp: schema_of_def tool_keys_kept compact_child_def)
next
  case False
  then show ?thesis using assms by (auto simp: schema_of_def tool_keys_kept split: option.splits)
qed

lemma name_of_compact:
  assumes "name_of t = Some (JStr n)"
  shows "name_of (compact_items t None) = Some (JStr n)"
proof (cases "jget t ''name''")
  case None
  then obtain f where "jget t ''function'' = Some (JDict f)" "jget f ''name'' = Some (JStr n)"
    using assms by (auto simp: name_of_def split: option.splits json.splits)
  with None show ?thesis by (simp add: name_of_def tool_keys_kept compact_child_def)
next
  case (Some x)
  then show ?thesis using assms by (simp add: name_of_def tool_keys_kept compact_child_def)
qed

section \<open>Properties\<close>

text \<open>C24: dropping annotations does not change what a tool accepts. Let a payload with a tools array go
  through layer 1, nothing being cached. Then every tool with a schema (under \<open>input_schema\<close>, \<open>parameters\<close> or
  \<open>parameters\<close> of \<open>function\<close>) is still in its place with the same name, and its schema, in the same place, accepts exactly
  the same instances as before, for every way of judging the keywords that have no subschemas, if the schema is
  plain: it has no references, and no value of another keyword than the annotations and the applicators spelled out
  (the values of \<open>const\<close>, \<open>enum\<close> or \<open>$defs\<close>, say) is changed by the compaction. Nothing else of the payload is touched.\<close>
theorem compaction_keeps_inputs:
  assumes "fst (compact_tools sha frepr payload []) = (payload', modified, len_before, len_after)"
    and "jget payload ''tools'' = Some (JList tools)" "i < length tools" "tools ! i = JDict t"
    and "schema_of t = Some schema" "plain_schema schema"
  shows "\<exists>tools' t' schema'. jget payload' ''tools'' = Some (JList tools') \<and> length tools' = length tools
    \<and> tools' ! i = JDict t' \<and> (\<forall>n. name_of t = Some (JStr n) \<longrightarrow> name_of t' = Some (JStr n)) \<and> schema_of t' = Some schema'
    \<and> (\<forall>kw v. accepts kw schema' v = accepts kw schema v)
    \<and> (\<forall>k. k \<noteq> ''tools'' \<longrightarrow> jget payload' k = jget payload k)"
proof (cases "payload' = payload")
  case True
  then show ?thesis using assms(2-) by blast
next
  case False
  have ne: "tools \<noteq> []" using assms(3) by auto
  have p': "payload' = dict_set ''tools'' (JList (compact_values tools None)) payload"
    using assms(1,2) ne False
    by (simp add: compact_tools_def dict_get_default_def with_tools_def Let_def split: if_splits)
  have vals: "compact_values ts p = map (\<lambda>x. compact_tool_schema_value x p) ts" for ts p
    by (induction ts) simp_all
  let ?t = "compact_items t None"
  have "compact_values tools None ! i = JDict ?t" using assms(3,4) by (simp add: vals)
  moreover have "name_of ?t = Some (JStr n)" if "name_of t = Some (JStr n)" for n
    using that by (rule name_of_compact)
  moreover obtain key where "schema_of ?t = Some (compact_child key schema)" using schema_of_compact [OF assms(5)] by blast
  moreover have "accepts kw (compact_child key schema) v = accepts kw schema v" for kw v key
    by (rule accepts_child) (rule accepts_compact(1) [OF assms(6)])
  moreover have "length (compact_values tools None) = length tools" by (simp add: vals)
  moreover have "jget payload' ''tools'' = Some (JList (compact_values tools None))" "k \<noteq> ''tools'' \<Longrightarrow> jget payload' k = jget payload k" for k
    by (simp_all add: p' dict_simps)
  ultimately show ?thesis by blast
qed

text \<open>C27: the digest cache cannot be seen. Any sequence of compactions of both layers, starting with an empty
  cache, gives exactly the answers each call would give alone, through every hit and eviction, provided
  the digest tells the tools and settings of the sequence apart (it does not tell the order of keys
  in a tool: of two such lists the first one's result is used for both).\<close>
theorem schema_cache_transparent:
  assumes "\<And>c c'. c \<in> set calls \<Longrightarrow> c' \<in> set calls \<Longrightarrow> call_tools c \<noteq> [] \<Longrightarrow> call_tools c' \<noteq> [] \<Longrightarrow>
      call_key sha frepr strip_sem c = call_key sha frepr strip_sem c' \<Longrightarrow> call_tools c = call_tools c' \<and> call_layer c = call_layer c'"
  shows "run_schema_calls sha frepr ell strip_sem calls [] = map (\<lambda>c. fst (run_schema_call sha frepr ell strip_sem c [])) calls"
proof -
  have "fst (run_schema_call sha frepr ell strip_sem c []) = fresh_answer frepr ell strip_sem c" for c
    by (simp add: run_schema_call_eq fresh_answer_def Let_def)
  moreover have "run_schema_calls sha frepr ell strip_sem calls [] = map (fresh_answer frepr ell strip_sem) calls"
  proof (rule run_schema_calls_fresh)
    show "entries_of sha frepr ell strip_sem (set calls) []" by (simp add: entries_of_def)
  qed (rule subset_refl, rule assms)
  ultimately show ?thesis by simp
qed

text \<open>Layer 1 never grows the tools, is only applied when it shrinks them, and is done after one pass.\<close>

lemma compaction_never_grows:
  assumes "fst (compact_tools sha frepr payload []) = (payload', modified, len_before, len_after)"
    and "jget payload ''tools'' = Some (JList tools)" "tools \<noteq> []"
  shows "len_before = json_byte_len frepr (JList tools)" "len_after \<le> len_before" "modified = (len_after < len_before)"
    "\<exists>tools'. jget payload' ''tools'' = Some (JList tools') \<and> json_byte_len frepr (JList tools') = len_after"
proof -
  have e: "(payload', modified, len_before, len_after) =
      with_tools payload (compact_values tools None, json_byte_len frepr (JList tools), json_byte_len frepr (JList (compact_values tools None)))"
    using assms by (simp add: compact_tools_def dict_get_default_def Let_def)
  have le: "json_byte_len frepr (JList (compact_values tools None)) \<le> json_byte_len frepr (JList tools)"
    using compact_shrinks(1) [of frepr "JList tools" None] by (simp add: json_byte_len_def)
  show "len_before = json_byte_len frepr (JList tools)" "len_after \<le> len_before" "modified = (len_after < len_before)"
    using e le by (auto simp: with_tools_def split: if_splits)
  show "\<exists>tools'. jget payload' ''tools'' = Some (JList tools') \<and> json_byte_len frepr (JList tools') = len_after"
    using e le assms(2) by (auto simp: with_tools_def dict_simps split: if_splits)
qed

section \<open>Where the documentation goes too far\<close>

text \<open>A definition or a constant value that happens to have the name of an annotation is dropped as well.\<close>

lemma definition_dropped:
  "compact_tool_schema_value (JDict [(''$ref'', JStr ''#/$defs/example''), (''$defs'', JDict [(''example'', JDict [(''type'', JStr ''string'')])])]) None
   = JDict [(''$ref'', JStr ''#/$defs/example''), (''$defs'', JDict [])]"
  by (simp add: TOOL_SCHEMA_DROP_KEYS_def)

lemma constant_changed:
  fixes kw :: keyword_check
  defines "kw \<equiv> \<lambda>k c v. k = ''const'' \<longrightarrow> v = c"
  shows "accepts kw (JDict [(''const'', JDict [(''title'', JStr ''a'')])]) (JDict [(''title'', JStr ''a'')])"
    "\<not> accepts kw (compact_tool_schema_value (JDict [(''const'', JDict [(''title'', JStr ''a'')])]) None) (JDict [(''title'', JStr ''a'')])"
  by (simp_all add: kw_def TOOL_SCHEMA_DROP_KEYS_def ANNOTATION_KEYWORDS_def)

section \<open>Witnesses\<close>

definition sample_schema :: json where
  "sample_schema = JDict [(''$schema'', JStr ''x''), (''type'', JStr ''object''),
     (''properties'', JDict [(''title'', JDict [(''type'', JStr ''string''), (''description'', JStr ''the   title'')])]),
     (''required'', JList [JStr ''title''])]"

definition sample_tools :: "json list" where
  "sample_tools = [JDict [(''name'', JStr ''create''), (''input_schema'', sample_schema)]]"

definition sample_payload :: message where
  "sample_payload = [(''model'', JStr ''m''), (''tools'', JList sample_tools)]"

lemma sample_compacted:
  "fst (compact_tools id (\<lambda>_. []) sample_payload []) =
     ([(''model'', JStr ''m''), (''tools'', JList [JDict [(''name'', JStr ''create''),
        (''input_schema'', JDict [(''type'', JStr ''object''),
           (''properties'', JDict [(''title'', JDict [(''type'', JStr ''string''), (''description'', JStr ''the title'')])]),
           (''required'', JList [JStr ''title''])])]])], True, 156, 140)"
  by code_simp

lemma compaction_keeps_inputs_witness:
  "\<forall>kw v. accepts kw (JDict [(''type'', JStr ''object''),
       (''properties'', JDict [(''title'', JDict [(''type'', JStr ''string''), (''description'', JStr ''the title'')])]),
       (''required'', JList [JStr ''title''])]) v = accepts kw sample_schema v"
proof -
  have "plain_schema sample_schema" by (simp add: sample_schema_def ANNOTATION_KEYWORDS_def REFERENCE_KEYWORDS_def TOOL_SCHEMA_DROP_KEYS_def)
  then show ?thesis
    using compaction_keeps_inputs [OF sample_compacted, of sample_tools 0 "[(''name'', JStr ''create''), (''input_schema'', sample_schema)]"
        sample_schema]
    by (auto simp: sample_payload_def sample_tools_def schema_of_def)
qed

definition sample_schema_calls :: "schema_call list" where
  "sample_schema_calls = [Layer1 sample_payload, Layer2 40 sample_payload, Layer1 sample_payload]"

lemma schema_cache_transparent_witness:
  "run_schema_calls rev (\<lambda>_. []) (CHR ''~'') False sample_schema_calls []
   = map (\<lambda>c. fst (run_schema_call rev (\<lambda>_. []) (CHR ''~'') False c [])) sample_schema_calls"
proof (rule schema_cache_transparent)
  fix c c'
  assume "c \<in> set sample_schema_calls" "c' \<in> set sample_schema_calls"
    and key: "call_key rev (\<lambda>_. []) False c = call_key rev (\<lambda>_. []) False c'"
  then have c: "c = Layer1 sample_payload \<or> c = Layer2 40 sample_payload" "c' = Layer1 sample_payload \<or> c' = Layer2 40 sample_payload"
    by (auto simp: sample_schema_calls_def)
  have "call_key rev (\<lambda>_. []) False (Layer1 sample_payload) \<noteq> call_key rev (\<lambda>_. []) False (Layer2 40 sample_payload)"
    by code_simp
  then show "call_tools c = call_tools c' \<and> call_layer c = call_layer c'" using c key by auto
qed

end
