(* ===== verification/Thinking_Compaction.thy ===== *)
theory Thinking_Compaction
  imports LRU Py_Text
begin

text \<open>
  Compaction of prior reasoning, \<open>headroom/transforms/thinking_compactor.py\<close>: thinking blocks of Anthropic
  messages become shorter text blocks, plain-text reasoning of OpenAI-style messages is shortened, or dropped
  when the provider's cache has expired. The compressor is a parameter that may answer every call
  differently: it takes the number of calls made so far. Its answers are kept in a process-wide LRU
  dictionary under the SHA-1 of the text, which the model passes along.
\<close>

section \<open>The memo\<close>

type_synonym kompressor = "nat \<Rightarrow> string \<Rightarrow> py_error + json"

record memo =
  tm_calls :: nat
  tm_cache :: "(string, string) pydict"

definition memo_init :: memo where
  "memo_init = \<lparr>tm_calls = 0, tm_cache = []\<rparr>"

definition MEMO_CAP :: int where
  "MEMO_CAP = 8192"

definition THINKING_MARKER :: string where
  "THINKING_MARKER = ''[prior reasoning, compressed]''"

text \<open>\<open>None\<close>: the compressor raised or gave nothing usable; such an answer is not kept.\<close>

definition memo_compact :: "(string \<Rightarrow> string) \<Rightarrow> kompressor \<Rightarrow> string \<Rightarrow> memo \<Rightarrow> string option \<times> memo" where
  "memo_compact sha1 kompress txt st =
     (let key = sha1 (utf8_encode txt)
      in case dict_get (tm_cache st) key of
           Some cached \<Rightarrow> (Some cached, st\<lparr>tm_cache := move_to_end key (tm_cache st)\<rparr>)
         | None \<Rightarrow>
             let st = st\<lparr>tm_calls := tm_calls st + 1\<rparr>
             in case kompress (tm_calls st - 1) txt of
                  Inr (JStr compacted) \<Rightarrow>
                    if compacted = [] then (None, st)
                    else (case pop_until (MEMO_CAP + 1) (move_to_end key (dict_set key compacted (tm_cache st))) of
                            Inl e \<Rightarrow> (Some compacted, st\<lparr>tm_cache := []\<rparr>)
                          | Inr (popped, rest) \<Rightarrow> (Some compacted, st\<lparr>tm_cache := rest\<rparr>))
                | _ \<Rightarrow> (None, st))"

section \<open>Which models bill prior thinking\<close>

text \<open>\<open>str.isdigit\<close> also accepts superscripts, which \<open>int\<close> does not.\<close>

definition isdigit :: "char \<Rightarrow> bool" where
  "isdigit c = (is_digit c \<or> code_point c \<in> {178, 179, 185 :: nat})"

fun version_numbers :: "string list \<Rightarrow> nat list \<Rightarrow> py_error + nat list" where
  "version_numbers [] nums = Inr nums"
| "version_numbers (part # parts) nums =
     (if part \<noteq> [] \<and> list_all isdigit part
      then (if list_all is_digit part
            then (case int_of_digits part of Inl e \<Rightarrow> Inl e | Inr n \<Rightarrow> version_numbers parts (nums @ [n]))
            else Inl ValueError)
      else if nums \<noteq> [] then Inr nums
      else version_numbers parts nums)"

definition bills_prior_thinking :: "string \<Rightarrow> py_error + bool" where
  "bills_prior_thinking model =
     and_then (version_numbers (split_on (CHR ''-'') (str_lower model)) []) (\<lambda>nums.
       if nums = [] then Inr False
       else
         let major = nums ! 0;
             minor = (if 1 < length nums then nums ! 1 else 0)
         in Inr (5 \<le> major \<or> 4 < major \<or> major = 4 \<and> 6 \<le> minor))"

section \<open>Anthropic thinking blocks\<close>

definition is_thinking :: "json \<Rightarrow> bool" where
  "is_thinking b = (case b of JDict d \<Rightarrow> dict_get d ''type'' = Some (JStr ''thinking'') | _ \<Rightarrow> False)"

definition word_count :: "string \<Rightarrow> nat" where
  "word_count s = length (words s)"

text \<open>The positions of the last assistant turns, whose reasoning stays.\<close>

definition from_assistant :: "message \<Rightarrow> bool" where
  "from_assistant m = (dict_get m ''role'' = Some (JStr ''assistant''))"

definition asst_indices :: "message list \<Rightarrow> nat list" where
  "asst_indices messages = filter (\<lambda>i. from_assistant (messages ! i)) [0..<length messages]"

definition keep_indices :: "int \<Rightarrow> message list \<Rightarrow> nat set" where
  "keep_indices keep_last_turns messages =
     (if 0 < keep_last_turns then set (last_n (nat keep_last_turns) (asst_indices messages)) else {})"

text \<open>A block, and the words before and after if it was compacted.\<close>

definition compact_block ::
  "(string \<Rightarrow> string) \<Rightarrow> kompressor \<Rightarrow> int \<Rightarrow> json \<Rightarrow> memo \<Rightarrow> (py_error + json \<times> (nat \<times> nat) list) \<times> memo" where
  "compact_block sha1 kompress min_words b st =
     (if \<not> is_thinking b then (Inr (b, []), st)
      else case b of
        JDict d \<Rightarrow>
          (case dict_get_default d ''thinking'' (JStr []) of
             JStr txt \<Rightarrow>
               if int (word_count txt) < min_words then (Inr (b, []), st)
               else (case memo_compact sha1 kompress txt st of
                       (None, st) \<Rightarrow> (Inr (b, []), st)
                     | (Some compacted, st) \<Rightarrow>
                         if word_count txt \<le> word_count compacted then (Inr (b, []), st)
                         else
                           let text_block = [(''type'', JStr ''text''), (''text'', JStr (THINKING_MARKER @ '' '' @ compacted))];
                               text_block = (case dict_get d ''cache_control'' of
                                               None \<Rightarrow> text_block
                                             | Some c \<Rightarrow> dict_set ''cache_control'' c text_block)
                           in (Inr (JDict text_block, [(word_count txt, word_count compacted)]), st))
           | _ \<Rightarrow> (Inl AttributeError, st))
      | _ \<Rightarrow> (Inr (b, []), st))"

fun compact_blocks ::
  "(string \<Rightarrow> string) \<Rightarrow> kompressor \<Rightarrow> int \<Rightarrow> json list \<Rightarrow> memo \<Rightarrow> (py_error + json list \<times> (nat \<times> nat) list) \<times> memo" where
  "compact_blocks sha1 kompress min_words [] st = (Inr ([], []), st)"
| "compact_blocks sha1 kompress min_words (b # bs) st =
     (case compact_block sha1 kompress min_words b st of
        (Inl e, st) \<Rightarrow> (Inl e, st)
      | (Inr (b, g), st) \<Rightarrow>
          (case compact_blocks sha1 kompress min_words bs st of
             (Inl e, st) \<Rightarrow> (Inl e, st)
           | (Inr (bs, gs), st) \<Rightarrow> (Inr (b # bs, g @ gs), st)))"

record thinking_stats =
  ts_turns_compacted :: nat
  ts_blocks :: nat
  ts_words_before :: nat
  ts_words_after :: nat

definition stats_init :: thinking_stats where
  "stats_init = \<lparr>ts_turns_compacted = 0, ts_blocks = 0, ts_words_before = 0, ts_words_after = 0\<rparr>"

definition count_turn :: "(nat \<times> nat) list \<Rightarrow> thinking_stats \<Rightarrow> thinking_stats" where
  "count_turn gains stats =
     (if gains = [] then stats
      else stats\<lparr>ts_turns_compacted := ts_turns_compacted stats + 1,
                 ts_blocks := ts_blocks stats + length gains,
                 ts_words_before := ts_words_before stats + sum_list (map fst gains),
                 ts_words_after := ts_words_after stats + sum_list (map snd gains)\<rparr>)"

fun compact_thinking_from ::
  "(string \<Rightarrow> string) \<Rightarrow> kompressor \<Rightarrow> int \<Rightarrow> nat set \<Rightarrow> nat \<Rightarrow> message list \<Rightarrow> thinking_stats \<Rightarrow> memo
    \<Rightarrow> (py_error + message list \<times> thinking_stats) \<times> memo" where
  "compact_thinking_from sha1 kompress min_words keep i [] stats st = (Inr ([], stats), st)"
| "compact_thinking_from sha1 kompress min_words keep i (m # ms) stats st =
     (let rest = (\<lambda>m stats st.
            case compact_thinking_from sha1 kompress min_words keep (i + 1) ms stats st of
              (Inl e, st) \<Rightarrow> (Inl e, st)
            | (Inr (out, stats), st) \<Rightarrow> (Inr (m # out, stats), st))
      in case dict_get_default m ''content'' JNull of
           JList content \<Rightarrow>
             if \<not> from_assistant m \<or> i \<in> keep \<or> \<not> list_ex is_thinking content then rest m stats st
             else (case compact_blocks sha1 kompress min_words content st of
                     (Inl e, st) \<Rightarrow> (Inl e, st)
                   | (Inr (new_content, gains), st) \<Rightarrow>
                       rest (if gains = [] then m else dict_set ''content'' (JList new_content) m) (count_turn gains stats) st)
         | _ \<Rightarrow> rest m stats st)"

definition compact_thinking_to_text ::
  "(string \<Rightarrow> string) \<Rightarrow> message list \<Rightarrow> kompressor option \<Rightarrow> int \<Rightarrow> int \<Rightarrow> memo
    \<Rightarrow> (py_error + message list \<times> thinking_stats) \<times> memo" where
  "compact_thinking_to_text sha1 messages kompress keep_last_turns min_words st =
     (case kompress of
        None \<Rightarrow> (Inr (messages, stats_init), st)
      | Some k \<Rightarrow>
          compact_thinking_from sha1 k min_words (keep_indices keep_last_turns messages) 0 messages stats_init st)"

section \<open>Plain-text reasoning\<close>

text \<open>The text before the first occurrence of a tag and the text behind it.\<close>

fun find_tag :: "string \<Rightarrow> string \<Rightarrow> (string \<times> string) option" where
  "find_tag tag [] = (if tag = [] then Some ([], []) else None)"
| "find_tag tag (c # s) =
     (if startswith (c # s) tag then Some ([], drop (length tag) (c # s))
      else map_option (apfst ((#) c)) (find_tag tag s))"

definition THINK_OPEN :: string where "THINK_OPEN = ''<think>''"
definition THINK_CLOSE :: string where "THINK_CLOSE = ''</think>''"

lemma find_tag_split: "find_tag tag s = Some (a, b) \<Longrightarrow> s = a @ tag @ b"
proof (induction s arbitrary: a)
  case (Cons c s)
  show ?case
  proof (cases "startswith (c # s) tag")
    case True
    then show ?thesis using Cons.prems append_take_drop_id [of "length tag" "c # s"] by (auto simp: startswith_def)
  next
    case False
    then show ?thesis using Cons by auto
  qed
qed (auto split: if_splits)

text \<open>One pass over the spans: the new text, and the words before and after of the spans that changed.\<close>

function compact_think_spans ::
  "(string \<Rightarrow> string) \<Rightarrow> kompressor \<Rightarrow> int \<Rightarrow> bool \<Rightarrow> string \<Rightarrow> memo \<Rightarrow> string \<times> (nat \<times> nat) list \<times> memo" where
  "compact_think_spans sha1 kompress min_words drp content st =
     (case find_tag THINK_OPEN content of
        None \<Rightarrow> (content, [], st)
      | Some (pre, rest) \<Rightarrow>
          (case find_tag THINK_CLOSE rest of
             None \<Rightarrow> (content, [], st)
           | Some (inner, rest) \<Rightarrow>
               (let w = word_count inner;
                    (part, g, st) =
                      (if min_words \<le> int w \<and> drp then ([], [(w, 0)], st)
                       else if min_words \<le> int w then
                         (case memo_compact sha1 kompress inner st of
                            (Some shorter, st) \<Rightarrow>
                              if word_count shorter < w then (THINK_OPEN @ shorter @ THINK_CLOSE, [(w, word_count shorter)], st)
                              else (THINK_OPEN @ inner @ THINK_CLOSE, [], st)
                          | (None, st) \<Rightarrow> (THINK_OPEN @ inner @ THINK_CLOSE, [], st))
                       else (THINK_OPEN @ inner @ THINK_CLOSE, [], st));
                    (out, gs, st) = compact_think_spans sha1 kompress min_words drp rest st
                in (pre @ part @ out, g @ gs, st))))"
  by pat_completeness auto
termination
  by (relation "measure (\<lambda>(sha1, kompress, min_words, drp, content, st). length content)")
    (auto dest!: find_tag_split simp: THINK_OPEN_def)

declare compact_think_spans.simps [simp del]

text \<open>One assistant message; \<open>content\<close> is looked up in the message as it came.\<close>

definition compact_reasoning ::
  "(string \<Rightarrow> string) \<Rightarrow> kompressor \<Rightarrow> int \<Rightarrow> bool \<Rightarrow> message \<Rightarrow> memo \<Rightarrow> message \<times> (nat \<times> nat) list \<times> memo" where
  "compact_reasoning sha1 kompress min_words drp m st =
     (let (nm, g, st) =
            (case dict_get m ''reasoning_content'' of
               Some (JStr rc) \<Rightarrow>
                 if min_words \<le> int (word_count rc) then
                   (if drp then (dict_set ''reasoning_content'' (JStr []) m, [(word_count rc, 0)], st)
                    else (case memo_compact sha1 kompress rc st of
                            (Some shorter, st) \<Rightarrow>
                              if word_count shorter < word_count rc
                              then (dict_set ''reasoning_content'' (JStr shorter) m, [(word_count rc, word_count shorter)], st)
                              else (m, [], st)
                          | (None, st) \<Rightarrow> (m, [], st)))
                 else (m, [], st)
             | _ \<Rightarrow> (m, [], st));
          (nm, gs, st) =
            (case dict_get m ''content'' of
               Some (JStr c) \<Rightarrow>
                 if find_tag THINK_OPEN c \<noteq> None then
                   (let (new_c, gs, st) = compact_think_spans sha1 kompress min_words drp c st
                    in (if gs = [] then nm else dict_set ''content'' (JStr new_c) nm, gs, st))
                 else (nm, [], st)
             | _ \<Rightarrow> (nm, [], st))
      in (nm, g @ gs, st))"

fun compact_reasoning_from ::
  "(string \<Rightarrow> string) \<Rightarrow> kompressor \<Rightarrow> int \<Rightarrow> bool \<Rightarrow> nat set \<Rightarrow> nat \<Rightarrow> message list \<Rightarrow> thinking_stats \<Rightarrow> memo
    \<Rightarrow> message list \<times> thinking_stats \<times> memo" where
  "compact_reasoning_from sha1 kompress min_words drp keep i [] stats st = ([], stats, st)"
| "compact_reasoning_from sha1 kompress min_words drp keep i (m # ms) stats st =
     (let (nm, gains, st) =
            (if \<not> from_assistant m \<or> i \<in> keep then (m, [], st) else compact_reasoning sha1 kompress min_words drp m st);
          (out, stats, st) = compact_reasoning_from sha1 kompress min_words drp keep (i + 1) ms (count_turn gains stats) st
      in ((if gains = [] then m else nm) # out, stats, st))"

definition compact_reasoning_openai_chat ::
  "(string \<Rightarrow> string) \<Rightarrow> message list \<Rightarrow> kompressor option \<Rightarrow> int \<Rightarrow> int \<Rightarrow> bool \<Rightarrow> memo \<Rightarrow> message list \<times> thinking_stats \<times> memo" where
  "compact_reasoning_openai_chat sha1 messages kompress keep_last_turns min_words drp st =
     (if kompress = None \<and> \<not> drp then (messages, stats_init, st)
      else compact_reasoning_from sha1 (case kompress of None \<Rightarrow> (\<lambda>_ _. Inl TypeError) | Some k \<Rightarrow> k) min_words drp
             (keep_indices keep_last_turns messages) 0 messages stats_init st)"

section \<open>A deterministic compressor\<close>

text \<open>What an answer of the compressor is worth, and the texts a message hands to it.\<close>

definition usable :: "py_error + json \<Rightarrow> string option" where
  "usable r = (case r of Inr (JStr c) \<Rightarrow> if c = [] then None else Some c | _ \<Rightarrow> None)"

function span_texts :: "string \<Rightarrow> string list" where
  "span_texts content =
     (case find_tag THINK_OPEN content of
        None \<Rightarrow> []
      | Some (pre, rest) \<Rightarrow>
          (case find_tag THINK_CLOSE rest of
             None \<Rightarrow> []
           | Some (inner, rest) \<Rightarrow> inner # span_texts rest))"
  by pat_completeness auto
termination
  by (relation "measure length") (auto dest!: find_tag_split simp: THINK_OPEN_def)

declare span_texts.simps [simp del]

definition text_of :: "json option \<Rightarrow> string list" where
  "text_of v = (case v of Some (JStr s) \<Rightarrow> [s] | _ \<Rightarrow> [])"

definition reasoning_texts :: "message \<Rightarrow> string set" where
  "reasoning_texts m =
     set (text_of (dict_get m ''reasoning_content'')) \<union> set (concat (map span_texts (text_of (dict_get m ''content''))))"

text \<open>The memo holds nothing wrong for the texts of \<open>X\<close>.\<close>

definition memo_good :: "(string \<Rightarrow> string) \<Rightarrow> kompressor \<Rightarrow> string set \<Rightarrow> memo \<Rightarrow> bool" where
  "memo_good sha1 kompress X st =
     (\<forall>(key, c) \<in> set (tm_cache st). \<forall>x \<in> X. key = sha1 (utf8_encode x) \<longrightarrow> usable (kompress 0 x) = Some c)"

lemma memo_good_init: "memo_good sha1 kompress X memo_init"
  by (simp add: memo_good_def memo_init_def)

lemma memo_good_subset:
  "memo_good sha1 kompress X st \<Longrightarrow> set (tm_cache st') \<subseteq> set (tm_cache st) \<Longrightarrow> memo_good sha1 kompress X st'"
  unfolding memo_good_def by blast

lemma move_to_end_subset: "set (move_to_end k d) \<subseteq> set d"
proof (cases "dict_get d k")
  case (Some v)
  then have "(k, v) \<in> set d" by (rule dict_get_Some_in)
  then show ?thesis using Some by (auto simp: move_to_end_def AList.delete_eq)
qed (simp add: move_to_end_def)

lemma dict_set_members: "set (dict_set k v d) \<subseteq> insert (k, v) (set d)"
  by (induction d) auto

lemma memo_compact_good:
  assumes det: "\<And>n s. kompress n s = kompress 0 s" and inj: "inj_on (\<lambda>x. sha1 (utf8_encode x)) X"
    and good: "memo_good sha1 kompress X st" and x: "x \<in> X"
  shows "fst (memo_compact sha1 kompress x st) = usable (kompress 0 x)"
    "memo_good sha1 kompress X (snd (memo_compact sha1 kompress x st))"
proof -
  let ?key = "sha1 (utf8_encode x)" and ?d = "tm_cache st"
  have "fst (memo_compact sha1 kompress x st) = usable (kompress 0 x) \<and> memo_good sha1 kompress X (snd (memo_compact sha1 kompress x st))"
  proof (cases "dict_get ?d ?key")
    case (Some c)
    then have "usable (kompress 0 x) = Some c"
      using good x dict_get_Some_in [OF Some] unfolding memo_good_def by blast
    moreover have "memo_good sha1 kompress X (st\<lparr>tm_cache := move_to_end ?key ?d\<rparr>)"
      by (rule memo_good_subset [OF good]) (simp add: move_to_end_subset)
    ultimately show ?thesis using Some by (simp add: memo_compact_def)
  next
    case None
    have same: "memo_good sha1 kompress X (st\<lparr>tm_calls := n\<rparr>)" for n
      by (rule memo_good_subset [OF good]) simp
    show ?thesis
    proof (cases "usable (kompress 0 x)")
      case unusable: None
      then show ?thesis using None det [of "tm_calls st" x] same
        by (auto simp: memo_compact_def usable_def Let_def split: sum.splits json.splits if_splits)
    next
      case (Some c)
      then have k: "kompress (tm_calls st) x = Inr (JStr c)" "c \<noteq> []"
        using det [of "tm_calls st" x] by (auto simp: usable_def split: sum.splits json.splits if_splits)
      have cap: "0 < MEMO_CAP + 1" by (simp add: MEMO_CAP_def)
      let ?m = "move_to_end ?key (dict_set ?key c ?d)"
      obtain n where p: "pop_until (MEMO_CAP + 1) ?m = Inr (take n ?m, drop n ?m)" using pop_until_eq [OF cap, of ?m] by blast
      have "set (drop n ?m) \<subseteq> insert (?key, c) (set ?d)"
        using set_drop_subset [of n ?m] move_to_end_subset [of ?key "dict_set ?key c ?d"] dict_set_members [of ?key c ?d] by blast
      moreover have "usable (kompress 0 y) = Some c" if "y \<in> X" "?key = sha1 (utf8_encode y)" for y
        using inj_onD [OF inj that(2) x that(1)] Some by simp
      ultimately have "memo_good sha1 kompress X (st\<lparr>tm_calls := tm_calls st + 1, tm_cache := drop n ?m\<rparr>)"
        using good unfolding memo_good_def by fastforce
      then show ?thesis using None k Some p by (simp add: memo_compact_def Let_def)
    qed
  qed
  then show "fst (memo_compact sha1 kompress x st) = usable (kompress 0 x)"
    "memo_good sha1 kompress X (snd (memo_compact sha1 kompress x st))" by simp_all
qed

lemma spans_settled:
  assumes det: "\<And>n s. kompress n s = kompress 0 s" and inj: "inj_on (\<lambda>x. sha1 (utf8_encode x)) X"
  shows "memo_good sha1 kompress X st \<Longrightarrow> memo_good sha1 kompress X st2 \<Longrightarrow> set (span_texts content) \<subseteq> X \<Longrightarrow>
    \<exists>out gs u u2. compact_think_spans sha1 kompress min_words drp content st = (out, gs, u) \<and>
      compact_think_spans sha1 kompress min_words drp content st2 = (out, gs, u2) \<and>
      memo_good sha1 kompress X u \<and> memo_good sha1 kompress X u2"
proof (induction "length content" arbitrary: content st st2 rule: less_induct)
  case less
  note unfold = compact_think_spans.simps [of sha1 kompress min_words _ content]
  show ?case
  proof (cases "find_tag THINK_OPEN content")
    case None
    then show ?thesis using less.prems by (simp add: unfold)
  next
    case (Some p)
    obtain pre rest where p: "p = (pre, rest)" by (cases p)
    note o = Some [unfolded p]
    show ?thesis
    proof (cases "find_tag THINK_CLOSE rest")
      case None
      then show ?thesis using less.prems o by (simp add: unfold)
    next
      case (Some q)
      obtain inner tail where q: "q = (inner, tail)" by (cases q)
      note c = Some [unfolded q]
      have len: "length tail < length content"
        using find_tag_split [OF o] find_tag_split [OF c] by (simp add: THINK_OPEN_def)
      have X: "inner \<in> X" "set (span_texts tail) \<subseteq> X"
        using less.prems(3) o c by (simp_all add: span_texts.simps [of content])
      obtain m v where m: "memo_compact sha1 kompress inner st = (m, v)" by fastforce
      obtain m2 v2 where m2: "memo_compact sha1 kompress inner st2 = (m2, v2)" by fastforce
      have same: "m = usable (kompress 0 inner)" "m2 = m" "memo_good sha1 kompress X v" "memo_good sha1 kompress X v2"
        using memo_compact_good [OF det inj less.prems(1) X(1)] memo_compact_good [OF det inj less.prems(2) X(1)] m m2 by simp_all
      obtain out gs u u2 where r1: "compact_think_spans sha1 kompress min_words drp tail st = (out, gs, u)"
        "compact_think_spans sha1 kompress min_words drp tail st2 = (out, gs, u2)"
        "memo_good sha1 kompress X u" "memo_good sha1 kompress X u2"
        using less.hyps [OF len less.prems(1,2) X(2)] by blast
      obtain out' gs' w w2 where r2: "compact_think_spans sha1 kompress min_words drp tail v = (out', gs', w)"
        "compact_think_spans sha1 kompress min_words drp tail v2 = (out', gs', w2)"
        "memo_good sha1 kompress X w" "memo_good sha1 kompress X w2"
        using less.hyps [OF len same(3,4) X(2)] by blast
      show ?thesis
        using o c m m2 r1 r2 same(2) by (cases m; cases drp) (simp_all add: unfold Let_def)
    qed
  qed
qed

lemma reasoning_settled:
  assumes det: "\<And>n s. kompress n s = kompress 0 s" and inj: "inj_on (\<lambda>x. sha1 (utf8_encode x)) X"
    and good: "memo_good sha1 kompress X st" "memo_good sha1 kompress X st2" and texts: "reasoning_texts m \<subseteq> X"
  shows "\<exists>nm gs u u2. compact_reasoning sha1 kompress min_words drp m st = (nm, gs, u) \<and>
      compact_reasoning sha1 kompress min_words drp m st2 = (nm, gs, u2) \<and>
      memo_good sha1 kompress X u \<and> memo_good sha1 kompress X u2"
proof -
  let ?rc = "\<lambda>st. case dict_get m ''reasoning_content'' of
               Some (JStr rc) \<Rightarrow>
                 if min_words \<le> int (word_count rc) then
                   (if drp then (dict_set ''reasoning_content'' (JStr []) m, [(word_count rc, 0)], st)
                    else (case memo_compact sha1 kompress rc st of
                            (Some shorter, st) \<Rightarrow>
                              if word_count shorter < word_count rc
                              then (dict_set ''reasoning_content'' (JStr shorter) m, [(word_count rc, word_count shorter)], st)
                              else (m, [], st)
                          | (None, st) \<Rightarrow> (m, [], st)))
                 else (m, [], st)
             | _ \<Rightarrow> (m, [], st)"
  have "\<exists>nm g v v2. ?rc st = (nm, g, v) \<and> ?rc st2 = (nm, g, v2) \<and> memo_good sha1 kompress X v \<and> memo_good sha1 kompress X v2"
  proof (cases "\<exists>rc. dict_get m ''reasoning_content'' = Some (JStr rc)")
    case False
    then have "?rc st = (m, [], st)" for st by (auto split: option.splits json.splits)
    then show ?thesis using good by simp
  next
    case True
    then obtain rc where rc: "dict_get m ''reasoning_content'' = Some (JStr rc)" by blast
    then have "rc \<in> X" using texts by (simp add: reasoning_texts_def text_of_def)
    then have "fst (memo_compact sha1 kompress rc st2) = fst (memo_compact sha1 kompress rc st)"
      "memo_good sha1 kompress X (snd (memo_compact sha1 kompress rc st))"
      "memo_good sha1 kompress X (snd (memo_compact sha1 kompress rc st2))"
      using memo_compact_good [OF det inj good(1)] memo_compact_good [OF det inj good(2)] by simp_all
    then show ?thesis using rc good
      by (cases "memo_compact sha1 kompress rc st"; cases "memo_compact sha1 kompress rc st2"; cases drp;
          cases "fst (memo_compact sha1 kompress rc st)") simp_all
  qed
  then obtain nm g v v2 where rc: "?rc st = (nm, g, v)" "?rc st2 = (nm, g, v2)"
    and v: "memo_good sha1 kompress X v" "memo_good sha1 kompress X v2" by blast
  show ?thesis
  proof (cases "\<exists>c. dict_get m ''content'' = Some (JStr c) \<and> find_tag THINK_OPEN c \<noteq> None")
    case False
    then have "compact_reasoning sha1 kompress min_words drp m s = ?rc s" for s
      unfolding compact_reasoning_def by (cases "?rc s") (auto simp: Let_def split: option.splits json.splits)
    then show ?thesis using rc v by simp
  next
    case True
    then obtain c where c: "dict_get m ''content'' = Some (JStr c)" "find_tag THINK_OPEN c \<noteq> None" by blast
    then have "set (span_texts c) \<subseteq> X" using texts by (simp add: reasoning_texts_def text_of_def)
    from spans_settled [OF det inj v this, of min_words drp] obtain out gs u u2 where
      s: "compact_think_spans sha1 kompress min_words drp c v = (out, gs, u)"
      "compact_think_spans sha1 kompress min_words drp c v2 = (out, gs, u2)"
      "memo_good sha1 kompress X u" "memo_good sha1 kompress X u2" by blast
    have "compact_reasoning sha1 kompress min_words drp m st = (if gs = [] then nm else dict_set ''content'' (JStr out) nm, g @ gs, u)"
      using c s(1) unfolding compact_reasoning_def rc(1) by simp
    moreover have "compact_reasoning sha1 kompress min_words drp m st2 = (if gs = [] then nm else dict_set ''content'' (JStr out) nm, g @ gs, u2)"
      using c s(2) unfolding compact_reasoning_def rc(2) by simp
    ultimately show ?thesis using s(3,4) by blast
  qed
qed

text \<open>What becomes of one message once it is old, and a whole turn as a map of it.\<close>

definition old_message :: "(string \<Rightarrow> string) \<Rightarrow> kompressor \<Rightarrow> int \<Rightarrow> bool \<Rightarrow> message \<Rightarrow> message" where
  "old_message sha1 kompress min_words drp m =
     (case compact_reasoning sha1 kompress min_words drp m memo_init of (nm, gs, st) \<Rightarrow> if gs = [] then m else nm)"

lemma reasoning_from_settled:
  assumes det: "\<And>n s. kompress n s = kompress 0 s" and inj: "inj_on (\<lambda>x. sha1 (utf8_encode x)) X"
  shows "memo_good sha1 kompress X st \<Longrightarrow> \<forall>m\<in>set ms. reasoning_texts m \<subseteq> X \<Longrightarrow>
    (case compact_reasoning_from sha1 kompress min_words drp keep i ms stats st of (out, stats', st') \<Rightarrow>
      length out = length ms \<and> memo_good sha1 kompress X st' \<and>
      (\<forall>j < length ms. out ! j = (if from_assistant (ms ! j) \<and> i + j \<notin> keep then old_message sha1 kompress min_words drp (ms ! j)
                                 else ms ! j)))"
proof (induction ms arbitrary: i stats st)
  case Nil
  then show ?case by simp
next
  case (Cons m ms)
  have "\<exists>nm gains v. (if \<not> from_assistant m \<or> i \<in> keep then (m, [], st) else compact_reasoning sha1 kompress min_words drp m st)
      = (nm, gains, v) \<and> memo_good sha1 kompress X v \<and>
      (if gains = [] then m else nm) = (if from_assistant m \<and> i \<notin> keep then old_message sha1 kompress min_words drp m else m)"
  proof (cases "\<not> from_assistant m \<or> i \<in> keep")
    case True
    then show ?thesis using Cons.prems(1) by auto
  next
    case False
    have "reasoning_texts m \<subseteq> X" using Cons.prems(2) by simp
    from reasoning_settled [OF det inj Cons.prems(1) memo_good_init this, of min_words drp]
    obtain nm gs u u2 where "compact_reasoning sha1 kompress min_words drp m st = (nm, gs, u)"
      "compact_reasoning sha1 kompress min_words drp m memo_init = (nm, gs, u2)" "memo_good sha1 kompress X u" by auto
    then show ?thesis using False by (intro exI [of _ nm] exI [of _ gs] exI [of _ u]) (simp add: old_message_def)
  qed
  then obtain nm gains v where n: "(if \<not> from_assistant m \<or> i \<in> keep then (m, [], st) else compact_reasoning sha1 kompress min_words drp m st)
      = (nm, gains, v)" and v: "memo_good sha1 kompress X v"
    and head: "(if gains = [] then m else nm) = (if from_assistant m \<and> i \<notin> keep then old_message sha1 kompress min_words drp m else m)"
    by blast
  obtain out stats' st' where r: "compact_reasoning_from sha1 kompress min_words drp keep (i + 1) ms (count_turn gains stats) v = (out, stats', st')"
    by (metis prod_cases3)
  have ih: "length out = length ms" "memo_good sha1 kompress X st'"
    "\<forall>j < length ms. out ! j = (if from_assistant (ms ! j) \<and> i + 1 + j \<notin> keep then old_message sha1 kompress min_words drp (ms ! j) else ms ! j)"
    using Cons.IH [OF v, of "i + 1" "count_turn gains stats"] Cons.prems(2) r by simp_all
  have "compact_reasoning_from sha1 kompress min_words drp keep i (m # ms) stats st = ((if gains = [] then m else nm) # out, stats', st')"
    unfolding compact_reasoning_from.simps n using r by simp
  then show ?case unfolding head using ih by (simp add: nth_Cons' All_less_Suc2 del: compact_reasoning_from.simps)
qed

lemma chat_settled:
  assumes det: "\<And>n s. k n s = k 0 s" and inj: "inj_on (\<lambda>x. sha1 (utf8_encode x)) X"
    and good: "memo_good sha1 k X st" and texts: "\<forall>m\<in>set ms. reasoning_texts m \<subseteq> X"
    and chat: "compact_reasoning_openai_chat sha1 ms (Some k) keep min_words drp st = (out, stats, st')"
  shows "length out = length ms" "memo_good sha1 k X st'"
    "i < length ms \<Longrightarrow> out ! i = (if from_assistant (ms ! i) \<and> i \<notin> keep_indices keep ms
       then old_message sha1 k min_words drp (ms ! i) else ms ! i)"
  using reasoning_from_settled [OF det inj good texts, where min_words = min_words and drp = drp
      and keep = "keep_indices keep ms" and i = 0 and stats = stats_init] chat
  by (simp_all add: compact_reasoning_openai_chat_def)

section \<open>Turns of a conversation\<close>

text \<open>
  The turns a process has served: the messages, how many assistant turns are kept, the least number of words
  and whether the provider's cache had expired. All share one compressor and one memo.
\<close>

record reasoning_turn =
  rt_messages :: "message list"
  rt_keep :: int
  rt_min_words :: int
  rt_cold :: bool

definition serve_turn :: "(string \<Rightarrow> string) \<Rightarrow> kompressor \<Rightarrow> reasoning_turn \<Rightarrow> memo \<Rightarrow> memo" where
  "serve_turn sha1 k t st =
     snd (snd (compact_reasoning_openai_chat sha1 (rt_messages t) (Some k) (rt_keep t) (rt_min_words t) (rt_cold t) st))"

definition turn_texts :: "reasoning_turn \<Rightarrow> string set" where
  "turn_texts t = \<Union> (reasoning_texts ` set (rt_messages t))"

lemma turns_good:
  assumes det: "\<And>n s. k n s = k 0 s" and inj: "inj_on (\<lambda>x. sha1 (utf8_encode x)) X"
  shows "memo_good sha1 k X st \<Longrightarrow> \<forall>t\<in>set turns. turn_texts t \<subseteq> X \<Longrightarrow> memo_good sha1 k X (fold (serve_turn sha1 k) turns st)"
proof (induction turns arbitrary: st)
  case Nil
  then show ?case by simp
next
  case (Cons t turns)
  have texts: "\<forall>m\<in>set (rt_messages t). reasoning_texts m \<subseteq> X" using Cons.prems(2) by (auto simp: turn_texts_def)
  obtain out stats st' where c: "compact_reasoning_openai_chat sha1 (rt_messages t) (Some k) (rt_keep t) (rt_min_words t) (rt_cold t) st
      = (out, stats, st')" by (metis prod_cases3)
  have "memo_good sha1 k X (serve_turn sha1 k t st)"
    using chat_settled(2) [where k = k, OF det inj Cons.prems(1) texts c] c by (simp add: serve_turn_def)
  then show ?case using Cons by simp
qed

lemma asst_indices_append:
  "\<exists>b. asst_indices (ms @ later) = asst_indices ms @ b \<and> (\<forall>i\<in>set b. length ms \<le> i)"
proof -
  have "asst_indices (ms @ later) = filter (\<lambda>i. from_assistant ((ms @ later) ! i)) [0..<length ms]
      @ filter (\<lambda>i. from_assistant ((ms @ later) ! i)) [length ms..<length ms + length later]"
    using upt_add_eq_append [of 0 "length ms" "length later"] by (simp add: asst_indices_def)
  moreover have "filter (\<lambda>i. from_assistant ((ms @ later) ! i)) [0..<length ms] = asst_indices ms"
    unfolding asst_indices_def by (rule filter_cong) (simp_all add: nth_append)
  ultimately show ?thesis by auto
qed

lemma kept_before:
  assumes "i < length ms" and "i \<in> keep_indices keep (ms @ later)"
  shows "i \<in> keep_indices keep ms"
proof -
  obtain b where b: "asst_indices (ms @ later) = asst_indices ms @ b" "\<forall>i\<in>set b. length ms \<le> i"
    using asst_indices_append by blast
  let ?a = "asst_indices ms"
  have pos: "0 < keep" and i: "i \<in> set (drop (length ?a + length b - nat keep) (?a @ b))"
    using assms(2) b(1) by (auto simp: keep_indices_def last_n_def split: if_splits)
  have "i \<in> set (drop (length ?a + length b - nat keep) ?a)"
    using i b(2) assms(1) by (auto dest!: in_set_dropD [where xs = b])
  then have "i \<in> set (drop (length ?a - nat keep) ?a)"
    using set_drop_subset_set_drop [OF diff_le_mono [OF le_add1], of "length ?a" "length b" "nat keep" ?a] by (rule rev_subsetD)
  then show ?thesis using pos by (simp add: keep_indices_def last_n_def)
qed

lemma card_keep_indices: "card (keep_indices keep ms) \<le> nat keep" "finite (keep_indices keep ms)"
proof -
  have "0 < keep \<Longrightarrow> card (set (last_n (nat keep) (asst_indices ms))) \<le> nat keep"
    by (rule order_trans [OF card_length]) (simp add: last_n_def)
  then show "card (keep_indices keep ms) \<le> nat keep" "finite (keep_indices keep ms)" by (simp_all add: keep_indices_def)
qed

text \<open>C12: prior reasoning is rewritten the same way on every turn. Take a process that has served any turns of
  any conversations and then compacts the messages \<open>ms\<close> of one, serves any turns again, and compacts the same
  conversation with more messages appended, both on a warm cache or both on a cold one. A position of \<open>ms\<close> gets
  the same bytes in both unless it was one of the last \<open>keep\<close> assistant turns of the first and is none of the
  second: at most \<open>keep\<close> positions change. The compressor is deterministic and SHA-1 has no collision among
  the reasoning texts at hand; evicting from the memo does not matter.
\<close>
theorem reasoning_prefix_stable:
  assumes "\<And>n s. k n s = k 0 s"
    and "inj_on (\<lambda>x. sha1 (utf8_encode x)) (\<Union> (turn_texts ` set (earlier @ between)) \<union> \<Union> (reasoning_texts ` set (ms @ later)))"
    and "compact_reasoning_openai_chat sha1 ms (Some k) keep min_words cold (fold (serve_turn sha1 k) earlier memo_init)
           = (out, stats, st)"
    and "compact_reasoning_openai_chat sha1 (ms @ later) (Some k) keep min_words cold (fold (serve_turn sha1 k) between st)
           = (out2, stats2, st2)"
  shows "length out = length ms \<and> length out2 = length ms + length later \<and>
    (\<forall>i < length ms. out2 ! i = out ! i \<or> i \<in> keep_indices keep ms \<and> i \<notin> keep_indices keep (ms @ later)) \<and>
    card {i. i < length ms \<and> out2 ! i \<noteq> out ! i} \<le> nat keep"
proof -
  let ?X = "\<Union> (turn_texts ` set (earlier @ between)) \<union> \<Union> (reasoning_texts ` set (ms @ later))"
  note det = assms(1) and inj = assms(2)
  have turns: "\<forall>t\<in>set earlier. turn_texts t \<subseteq> ?X" "\<forall>t\<in>set between. turn_texts t \<subseteq> ?X" by auto
  have texts: "\<forall>m\<in>set ms. reasoning_texts m \<subseteq> ?X" "\<forall>m\<in>set (ms @ later). reasoning_texts m \<subseteq> ?X" by auto
  have good: "memo_good sha1 k ?X (fold (serve_turn sha1 k) earlier memo_init)"
    by (rule turns_good [where k = k]) (rule det, rule inj, rule memo_good_init, rule turns(1))
  note first = chat_settled [where k = k, OF det inj good texts(1) assms(3)]
  have good: "memo_good sha1 k ?X (fold (serve_turn sha1 k) between st)"
    using det inj first(2) turns(2) by (rule turns_good [where k = k])
  note second = chat_settled [where k = k, OF det inj good texts(2) assms(4)]
  have same: "out2 ! i = out ! i \<or> i \<in> keep_indices keep ms \<and> i \<notin> keep_indices keep (ms @ later)" if "i < length ms" for i
    using first(3) [OF that] second(3) [of i] that kept_before [OF that, of keep later] by (auto simp: nth_append)
  then have "{i. i < length ms \<and> out2 ! i \<noteq> out ! i} \<subseteq> keep_indices keep ms" by blast
  from card_mono [OF card_keep_indices(2) this] card_keep_indices(1) [of keep ms]
  have "card {i. i < length ms \<and> out2 ! i \<noteq> out ! i} \<le> nat keep" by simp
  then show ?thesis using same first(1) second(1) by simp
qed

text \<open>A sample: every text becomes one word, reasoning of at least two words counts, the last turn is kept.\<close>

definition sample_kompress :: kompressor where
  "sample_kompress n s = Inr (JStr ''gist'')"

definition reasoned :: "string \<Rightarrow> message" where
  "reasoned rc = [(''role'', JStr ''assistant''), (''content'', JStr ''ok''), (''reasoning_content'', JStr rc)]"

lemma no_spans: "span_texts ''ok'' = []"
  by (simp add: span_texts.simps [of "''ok''"] THINK_OPEN_def startswith_def)

theorem reasoning_prefix_stable_witness:
  "let ms = [reasoned ''a b c'', reasoned ''d e f''];
       r = compact_reasoning_openai_chat (\<lambda>x. x) ms (Some sample_kompress) 1 2 False memo_init;
       r2 = compact_reasoning_openai_chat (\<lambda>x. x) (ms @ [reasoned ''g'']) (Some sample_kompress) 1 2 False (snd (snd r))
   in (\<forall>i < 2. fst r2 ! i = fst r ! i \<or> i \<in> keep_indices 1 ms \<and> i \<notin> keep_indices 1 (ms @ [reasoned ''g''])) \<and>
      fst r ! 0 = reasoned ''gist'' \<and> fst r ! 1 = reasoned ''d e f''"
proof -
  let ?ms = "[reasoned ''a b c'', reasoned ''d e f'']" and ?later = "[reasoned ''g'']"
  let ?r = "compact_reasoning_openai_chat (\<lambda>x. x) ?ms (Some sample_kompress) 1 2 False memo_init"
  let ?r2 = "compact_reasoning_openai_chat (\<lambda>x. x) (?ms @ ?later) (Some sample_kompress) 1 2 False (snd (snd ?r))"
  have texts: "\<Union> (turn_texts ` set ([] @ [])) \<union> \<Union> (reasoning_texts ` set (?ms @ ?later)) = {''a b c'', ''d e f'', ''g''}"
    by (simp add: reasoning_texts_def text_of_def reasoned_def no_spans insert_commute)
  have inj: "inj_on (\<lambda>x. utf8_encode x) {''a b c'', ''d e f'', ''g''}"
    by (simp add: utf8_encode_def)
  have v: "fst ?r ! 0 = reasoned ''gist'' \<and> fst ?r ! 1 = reasoned ''d e f''" by code_simp
  have "\<forall>i < length ?ms. fst ?r2 ! i = fst ?r ! i \<or> i \<in> keep_indices 1 ?ms \<and> i \<notin> keep_indices 1 (?ms @ ?later)"
    using reasoning_prefix_stable [of sample_kompress "\<lambda>x. x" "[]" "[]" ?ms ?later 1 2 False "fst ?r" "fst (snd ?r)" "snd (snd ?r)"
        "fst ?r2" "fst (snd ?r2)" "snd (snd ?r2)"] inj
    unfolding texts by (simp add: sample_kompress_def)
  then show ?thesis using v by (simp add: Let_def numeral_2_eq_2)
qed

section \<open>Where the code falls short\<close>

text \<open>A date behind the major version reads as a minor version: Claude Sonnet 4 would be compacted.\<close>
lemma dated_model_bills: "bills_prior_thinking ''claude-sonnet-4-20250514'' = Inr True"
  by (simp add: bills_prior_thinking_def str_lower_def char_lower_def byte_lower_def isdigit_def is_digit_def
    int_of_digits_def INT_MAX_STR_DIGITS_def dec_val_def digit_val_def)

text \<open>A digit that \<open>int\<close> does not read makes the version check raise.\<close>
lemma superscript_model_raises: "bills_prior_thinking [CHR ''x'', CHR ''-'', CHR 0xB2] = Inl ValueError"
  by code_simp

text \<open>A thinking block without text makes the routine raise, although it promises never to.\<close>
lemma null_thinking_raises:
  "fst (compact_thinking_to_text (\<lambda>x. x)
     [[(''role'', JStr ''assistant''), (''content'', JList [JDict [(''type'', JStr ''thinking''), (''thinking'', JNull)]])]]
     (Some sample_kompress) 0 40 memo_init) = Inl AttributeError"
  by code_simp

text \<open>A failed compression is not remembered: the next turn may send different bytes for an old message.\<close>

definition flaky_kompress :: kompressor where
  "flaky_kompress n s = (if n = 0 then Inl ValueError else Inr (JStr ''gist''))"

lemma failure_breaks_prefix:
  "let r = compact_reasoning_openai_chat (\<lambda>x. x) [reasoned ''a b c''] (Some flaky_kompress) 0 2 False memo_init;
       r2 = compact_reasoning_openai_chat (\<lambda>x. x) [reasoned ''a b c''] (Some flaky_kompress) 0 2 False (snd (snd r))
   in fst r = [reasoned ''a b c''] \<and> fst r2 = [reasoned ''gist'']"
  by code_simp

text \<open>A cold turn writes the provider's cache without the reasoning; the warm turn after it sends a summary again.\<close>
lemma cold_then_warm_differs:
  "let r = compact_reasoning_openai_chat (\<lambda>x. x) [reasoned ''a b c''] (Some sample_kompress) 0 2 True memo_init;
       r2 = compact_reasoning_openai_chat (\<lambda>x. x) [reasoned ''a b c''] (Some sample_kompress) 0 2 False (snd (snd r))
   in fst r = [reasoned []] \<and> fst r2 = [reasoned ''gist'']"
  by code_simp

text \<open>The size check leaves out the marker: a block may grow.\<close>
lemma marker_outgrows_block:
  "let r = compact_thinking_to_text (\<lambda>x. x)
     [[(''role'', JStr ''assistant''), (''content'', JList [JDict [(''type'', JStr ''thinking''), (''thinking'', JStr ''a b'')]])]]
     (Some sample_kompress) 0 2 memo_init
   in map_sum id fst (fst r) = Inr [[(''role'', JStr ''assistant''), (''content'',
        JList [JDict [(''type'', JStr ''text''), (''text'', JStr ''[prior reasoning, compressed] gist'')]])]]"
  by code_simp

end
