(* ===== verification/Cold_Prefix.thy ===== *)
theory Cold_Prefix
  imports Thinking_Compaction Prefix_Tracker
begin

text \<open>
  Turns whose prompt cache has lapsed: \<open>headroom/transforms/cold_prefix.py\<close>, the table of learned lifetimes of
  \<open>headroom/cache/ttl_observations.py\<close>, the proxy mode, and the stages of the two handlers that unfreeze the
  prefix or drop prior reasoning on such a turn. The environment is a dictionary, the learned file what reading
  it gives.
\<close>

section \<open>Configuration\<close>

type_synonym py_environ = "(string, string) pydict"

definition TRUTHY :: "string list" where
  "TRUTHY = [''1'', ''true'', ''yes'', ''on'']"

definition env_truthy :: "py_environ \<Rightarrow> string \<Rightarrow> bool" where
  "env_truthy environ name = (str_lower (strip (dict_get_default environ name [])) \<in> set TRUTHY)"

text \<open>The handlers' own flags do not take \<open>on\<close>.\<close>

definition handler_flag :: "py_environ \<Rightarrow> string \<Rightarrow> bool" where
  "handler_flag environ name = (str_lower (strip (dict_get_default environ name [])) \<in> set [''1'', ''true'', ''yes''])"

definition PROXY_MODE_TOKEN :: string where "PROXY_MODE_TOKEN = ''token''"
definition PROXY_MODE_CACHE :: string where "PROXY_MODE_CACHE = ''cache''"

definition MODE_ALIASES :: "(string, string) pydict" where
  "MODE_ALIASES =
     [(''token'', PROXY_MODE_TOKEN), (''token_mode'', PROXY_MODE_TOKEN), (''token_savings'', PROXY_MODE_TOKEN),
      (''token_headroom'', PROXY_MODE_TOKEN), (''cache'', PROXY_MODE_CACHE), (''cache_mode'', PROXY_MODE_CACHE),
      (''cost_savings'', PROXY_MODE_CACHE)]"

record ProxyModeDecision =
  pm_raw :: "string option"
  pm_key :: string
  pm_normalized :: string
  pm_used_default :: bool
  pm_unknown :: bool
  pm_alias_used :: bool

definition normalize_proxy_mode_decision :: "string option \<Rightarrow> string \<Rightarrow> ProxyModeDecision" where
  "normalize_proxy_mode_decision mode dflt =
     (let key = str_lower (strip (case mode of None \<Rightarrow> [] | Some s \<Rightarrow> s))
      in if key = [] then \<lparr>pm_raw = mode, pm_key = key, pm_normalized = dflt, pm_used_default = True, pm_unknown = False, pm_alias_used = False\<rparr>
         else case dict_get MODE_ALIASES key of
                None \<Rightarrow> \<lparr>pm_raw = mode, pm_key = key, pm_normalized = dflt, pm_used_default = True, pm_unknown = True, pm_alias_used = False\<rparr>
              | Some normalized \<Rightarrow>
                  \<lparr>pm_raw = mode, pm_key = key, pm_normalized = normalized, pm_used_default = False, pm_unknown = False,
                   pm_alias_used = (key \<noteq> normalized)\<rparr>)"

definition is_token_mode :: "string option \<Rightarrow> bool" where
  "is_token_mode mode = (pm_normalized (normalize_proxy_mode_decision mode PROXY_MODE_TOKEN) = PROXY_MODE_TOKEN)"

definition is_cache_mode :: "string option \<Rightarrow> bool" where
  "is_cache_mode mode = (pm_normalized (normalize_proxy_mode_decision mode PROXY_MODE_TOKEN) = PROXY_MODE_CACHE)"

section \<open>Cold prefixes\<close>

definition DEFAULT_MARGIN_SECONDS :: rat where
  "DEFAULT_MARGIN_SECONDS = 60"

definition is_cold_prefix :: "PrefixCacheTracker \<Rightarrow> rat \<Rightarrow> int option \<Rightarrow> bool" where
  "is_cold_prefix prefix_tracker margin_seconds ttl_seconds =
     (let idle = pt_idle_seconds_at_fetch prefix_tracker;
          ttl = (case ttl_seconds of Some ttl \<Rightarrow> ttl | None \<Rightarrow> resolved_cache_ttl_seconds prefix_tracker)
      in of_int ttl + margin_seconds < idle)"

definition ANTHROPIC_FAMILIES :: "string list" where
  "ANTHROPIC_FAMILIES = [''opus'', ''sonnet'', ''haiku'', ''fable'', ''mythos'']"

definition anthropic_family :: "string \<Rightarrow> string option" where
  "anthropic_family model = find (\<lambda>fam. find_tag fam (str_lower model) \<noteq> None) ANTHROPIC_FAMILIES"

text \<open>\<open>fam.upper()\<close>; the families are ASCII.\<close>

definition ascii_upper :: "string \<Rightarrow> string" where
  "ascii_upper s = map (\<lambda>c. if 97 \<le> code_point c \<and> code_point c \<le> 122 then char_of (code_point c - 32) else c) s"

definition marker_ttl :: "json \<Rightarrow> string list" where
  "marker_ttl v =
     (case v of
        JDict d \<Rightarrow>
          (case dict_get_default d ''cache_control'' JNull of
             JDict cc \<Rightarrow> (case dict_get_default cc ''ttl'' JNull of JStr ttl \<Rightarrow> [ttl] | _ \<Rightarrow> [])
           | _ \<Rightarrow> [])
      | _ \<Rightarrow> [])"

definition scan_blocks :: "json \<Rightarrow> string list" where
  "scan_blocks blocks = (case blocks of JList bs \<Rightarrow> concat (map marker_ttl bs) | _ \<Rightarrow> [])"

definition cache_control_ttls :: "message list \<Rightarrow> json \<Rightarrow> string set" where
  "cache_control_ttls messages system =
     set (scan_blocks system @
          concat (map (\<lambda>m. marker_ttl (JDict m) @ scan_blocks (dict_get_default m ''content'' JNull)) messages))"

text \<open>\<open>None\<close>: prompt caching is off.\<close>

definition anthropic_cache_ttl_seconds :: "py_environ \<Rightarrow> string \<Rightarrow> message list \<Rightarrow> json \<Rightarrow> int option" where
  "anthropic_cache_ttl_seconds environ model messages system =
     (if env_truthy environ ''DISABLE_PROMPT_CACHING'' then None
      else if case anthropic_family model of None \<Rightarrow> False
              | Some fam \<Rightarrow> env_truthy environ (''DISABLE_PROMPT_CACHING_'' @ ascii_upper fam) then None
      else
        let ttls = cache_control_ttls messages system
        in if ''1h'' \<in> ttls then Some 3600
           else if ''5m'' \<in> ttls then Some 300
           else if env_truthy environ ''FORCE_PROMPT_CACHING_5M'' then Some 300
           else if env_truthy environ ''ENABLE_PROMPT_CACHING_1H'' then Some 3600
           else Some 300)"

definition has_plaintext_reasoning :: "message list \<Rightarrow> bool" where
  "has_plaintext_reasoning messages =
     list_ex (\<lambda>m. from_assistant m \<and>
       ((case dict_get_default m ''reasoning_content'' JNull of JStr rc \<Rightarrow> strip rc \<noteq> [] | _ \<Rightarrow> False) \<or>
        (case dict_get_default m ''content'' JNull of
           JStr c \<Rightarrow> find_tag THINK_OPEN c \<noteq> None \<and> find_tag THINK_CLOSE c \<noteq> None
         | _ \<Rightarrow> False))) messages"

section \<open>Learned lifetimes\<close>

text \<open>\<open>_learned_cache\<close> (\<open>JNull\<close> before the first read) and \<open>_learned_mtime\<close>.\<close>

record learned_ttls =
  lt_cache :: json
  lt_mtime :: rat

definition learned_init :: learned_ttls where
  "learned_init = \<lparr>lt_cache = JNull, lt_mtime = -1\<rparr>"

text \<open>\<open>int(v)\<close> of a number; booleans are numbers.\<close>

definition number_int :: "json \<Rightarrow> int option" where
  "number_int v =
     (case v of JInt i \<Rightarrow> Some i | JFloat x \<Rightarrow> Some (py_int x) | JBool b \<Rightarrow> Some (if b then 1 else 0) | _ \<Rightarrow> None)"

fun learned_lookup :: "(string, json) pydict \<Rightarrow> string list \<Rightarrow> int option" where
  "learned_lookup table [] = None"
| "learned_lookup table (key # keys) =
     (let v = dict_get_default table key JNull
      in case (case v of JDict d \<Rightarrow> number_int (dict_get_default d ''ttl_seconds'' JNull) | _ \<Rightarrow> number_int v) of
           Some ttl \<Rightarrow> Some ttl
         | None \<Rightarrow> learned_lookup table keys)"

text \<open>
  The file: \<open>None\<close> when its time cannot be read, else the time and its content or the error of reading it. What
  follows the read stands outside the \<open>try\<close>.
\<close>

definition resolve_learned_ttl ::
  "string \<Rightarrow> string \<Rightarrow> (rat \<times> (py_error + json)) option \<Rightarrow> learned_ttls \<Rightarrow> (py_error + int option) \<times> learned_ttls" where
  "resolve_learned_ttl provider model file st =
     (let table_of = (\<lambda>st. case py_or (lt_cache st) (JDict []) of
                        JDict table \<Rightarrow> (Inr (learned_lookup table [provider @ ''/'' @ model, provider]), st)
                      | _ \<Rightarrow> (Inl AttributeError, st))
      in case file of
           None \<Rightarrow> (Inr None, st)
         | Some (mt, content) \<Rightarrow>
             if lt_cache st = JNull \<or> mt \<noteq> lt_mtime st then
               (case content of
                  Inl e \<Rightarrow> (Inr None, st)
                | Inr j \<Rightarrow> table_of (st\<lparr>lt_cache := j, lt_mtime := mt\<rparr>))
             else table_of st)"

section \<open>The stages of the handlers\<close>

definition strict_previous_turn_frozen_count :: "message list \<Rightarrow> nat \<Rightarrow> nat" where
  "strict_previous_turn_frozen_count messages base =
     (if messages = [] then base
      else if dict_get (last messages) ''role'' = Some (JStr ''user'') then max base (length messages - 1)
      else length messages)"

text \<open>The OpenAI handler has its own: tool and function results end a turn too, and the base count is not kept.\<close>

definition openai_strict_frozen_count :: "message list \<Rightarrow> nat \<Rightarrow> nat" where
  "openai_strict_frozen_count messages base =
     (if messages = [] then base
      else if dict_get (last messages) ''role'' \<in> Some ` JStr ` set [''user'', ''tool'', ''function''] then length messages - 1
      else length messages)"

definition mode_frozen_count ::
  "(message list \<Rightarrow> nat \<Rightarrow> nat) \<Rightarrow> string option \<Rightarrow> message list \<Rightarrow> PrefixCacheTracker \<Rightarrow> nat" where
  "mode_frozen_count strict mode messages t =
     (if is_cache_mode mode then strict messages (get_frozen_message_count t) else get_frozen_message_count t)"

text \<open>The Anthropic handler: is the turn recompacted, and how many messages stay frozen.\<close>

definition cold_recompact_active :: "py_environ \<Rightarrow> string \<Rightarrow> message list \<Rightarrow> json \<Rightarrow> PrefixCacheTracker \<Rightarrow> bool" where
  "cold_recompact_active environ model messages system t =
     (handler_flag environ ''HEADROOM_COLD_RECOMPACT'' \<and>
      (let cc_ttl = anthropic_cache_ttl_seconds environ model messages system
       in cc_ttl = None \<or> is_cold_prefix t DEFAULT_MARGIN_SECONDS cc_ttl))"

definition anthropic_frozen_count ::
  "py_environ \<Rightarrow> string option \<Rightarrow> string \<Rightarrow> message list \<Rightarrow> json \<Rightarrow> PrefixCacheTracker \<Rightarrow> nat" where
  "anthropic_frozen_count environ mode model messages system t =
     (if cold_recompact_active environ model messages system t \<and> is_token_mode mode then 0
      else mode_frozen_count strict_previous_turn_frozen_count mode messages t)"

text \<open>The OpenAI handler: \<open>learned\<close> is what \<open>resolve_learned_ttl\<close> returned; here its exception leaves.\<close>

definition openai_frozen_count ::
  "py_environ \<Rightarrow> string option \<Rightarrow> py_error + int option \<Rightarrow> message list \<Rightarrow> PrefixCacheTracker \<Rightarrow> py_error + nat" where
  "openai_frozen_count environ mode learned messages t =
     (if is_token_mode mode \<and> handler_flag environ ''HEADROOM_COLD_RECOMPACT'' then
        and_then learned (\<lambda>ttl. Inr (if is_cold_prefix t DEFAULT_MARGIN_SECONDS ttl then 0 else mode_frozen_count openai_strict_frozen_count mode messages t))
      else Inr (mode_frozen_count openai_strict_frozen_count mode messages t))"

text \<open>The messages, what is added to \<open>transforms_applied\<close>, and the memo; every exception is swallowed.\<close>

definition openai_reasoning_stage ::
  "(string \<Rightarrow> string) \<Rightarrow> py_environ \<Rightarrow> py_error + int option \<Rightarrow> PrefixCacheTracker \<Rightarrow> kompressor option \<Rightarrow> message list \<Rightarrow> memo
    \<Rightarrow> message list \<times> string list \<times> memo" where
  "openai_reasoning_stage sha1 environ learned t kompress messages st =
     (if \<not> handler_flag environ ''HEADROOM_THINKING_COMPACT'' then (messages, [], st)
      else case learned of
             Inl e \<Rightarrow> (messages, [], st)
           | Inr ttl \<Rightarrow>
               let cold = is_cold_prefix t DEFAULT_MARGIN_SECONDS ttl
               in if kompress = None \<and> \<not> cold then (messages, [], st)
                  else case int_of_str (dict_get_default environ ''HEADROOM_THINKING_COMPACT_KEEP_LAST'' ''1'') of
                         Inl e \<Rightarrow> (messages, [], st)
                       | Inr keep \<Rightarrow>
                           let (out, stats, st) = compact_reasoning_openai_chat sha1 messages kompress keep 40 cold st
                           in (out, if ts_turns_compacted stats = 0 then []
                                    else [''openai:reasoning_'' @ (if cold then ''drop'' else ''compact'') @ '':''
                                          @ nat_dec (ts_turns_compacted stats)], st))"

section \<open>A warm prefix stays frozen\<close>

lemma ttl_cases:
  "anthropic_cache_ttl_seconds environ model messages system = Some ttl \<Longrightarrow>
    ttl = 3600 \<or> ttl = 300 \<and> ''1h'' \<notin> cache_control_ttls messages system"
  by (auto simp: anthropic_cache_ttl_seconds_def Let_def split: if_splits)

lemma modes_exclusive: "is_token_mode mode \<noteq> is_cache_mode mode"
proof -
  have "pm_normalized (normalize_proxy_mode_decision mode PROXY_MODE_TOKEN) \<in> {PROXY_MODE_TOKEN, PROXY_MODE_CACHE}"
    by (auto simp: normalize_proxy_mode_decision_def Let_def MODE_ALIASES_def split: if_splits option.splits)
  then show ?thesis by (auto simp: is_token_mode_def is_cache_mode_def PROXY_MODE_TOKEN_def PROXY_MODE_CACHE_def)
qed

text \<open>
  With caching on, a turn within the lifetime that the request names, or within five minutes and the margin,
  is never recompacted: it keeps the frozen prefix of its mode.
\<close>
lemma warm_prefix_kept:
  assumes "anthropic_cache_ttl_seconds environ model messages system \<noteq> None"
    and "pt_idle_seconds_at_fetch t \<le> (if ''1h'' \<in> cache_control_ttls messages system then 3660 else 360)"
  shows "\<not> cold_recompact_active environ model messages system t"
    "anthropic_frozen_count environ mode model messages system t = mode_frozen_count strict_previous_turn_frozen_count mode messages t"
proof -
  obtain ttl where ttl: "anthropic_cache_ttl_seconds environ model messages system = Some ttl" using assms(1) by blast
  from ttl_cases [OF this] assms(2) have "\<not> is_cold_prefix t DEFAULT_MARGIN_SECONDS (Some ttl)"
    by (auto simp: is_cold_prefix_def DEFAULT_MARGIN_SECONDS_def split: if_splits)
  then show "\<not> cold_recompact_active environ model messages system t"
    "anthropic_frozen_count environ mode model messages system t = mode_frozen_count strict_previous_turn_frozen_count mode messages t"
    using ttl by (simp_all add: cold_recompact_active_def anthropic_frozen_count_def)
qed

text \<open>Cache mode never unfreezes, and freezes every turn before the last user turn.\<close>
lemma cache_mode_freezes:
  assumes "is_cache_mode mode" and "messages \<noteq> []"
  shows "length messages - 1 \<le> anthropic_frozen_count environ mode model messages system t"
  using assms modes_exclusive [of mode]
  by (auto simp: anthropic_frozen_count_def mode_frozen_count_def strict_previous_turn_frozen_count_def)

text \<open>The lookup prefers the model's own entry, and a provider without one falls back to the static guess.\<close>
lemma learned_unknown:
  assumes "lt_cache st = JNull" and "dict_get table (provider @ ''/'' @ model) = None" and "dict_get table provider = None"
  shows "fst (resolve_learned_ttl provider model (Some (mt, Inr (JDict table))) st) = Inr None"
  using assms by (cases "table = []") (simp_all add: resolve_learned_ttl_def Let_def py_or_def dict_get_default_def number_int_def)

text \<open>While the file's time stays the same the answer stays the same, whatever is in it now.\<close>
lemma learned_stable:
  assumes "resolve_learned_ttl provider model (Some (mt, Inr j)) st = (r, st')" and "j \<noteq> JNull" and "mt \<noteq> lt_mtime st"
  shows "resolve_learned_ttl provider model (Some (mt, content)) st' = (r, st')"
  using assms by (cases "py_or j (JDict [])") (auto simp: resolve_learned_ttl_def Let_def)

section \<open>The reasoning stage\<close>

text \<open>A keep-last value that is no number turns the stage off; the request goes on.\<close>
lemma bad_keep_last_skips:
  assumes "int_of_str (dict_get_default environ ''HEADROOM_THINKING_COMPACT_KEEP_LAST'' ''1'') = Inl e"
  shows "openai_reasoning_stage sha1 environ learned t kompress messages st = (messages, [], st)"
  using assms by (auto simp: openai_reasoning_stage_def Let_def split: sum.splits)

lemma drop_pure:
  "snd (snd (compact_think_spans sha1 kompress min_words True content st)) = st"
proof (induction "length content" arbitrary: content rule: less_induct)
  case less
  note unfold = compact_think_spans.simps [of sha1 kompress min_words True content]
  show ?case
  proof (cases "\<exists>pre rest inner tail. find_tag THINK_OPEN content = Some (pre, rest) \<and> find_tag THINK_CLOSE rest = Some (inner, tail)")
    case True
    then obtain pre rest inner tail where o: "find_tag THINK_OPEN content = Some (pre, rest)" "find_tag THINK_CLOSE rest = Some (inner, tail)"
      by blast
    have "length tail < length content"
      using find_tag_split [OF o(1)] find_tag_split [OF o(2)] by (simp add: THINK_OPEN_def)
    from less [OF this] show ?thesis
      using o by (cases "compact_think_spans sha1 kompress min_words True tail st") (simp add: unfold Let_def)
  next
    case False
    then show ?thesis by (auto simp: unfold split: option.splits)
  qed
qed

text \<open>A cold turn does not consult the compressor or its memo.\<close>
lemma drop_needs_no_compressor:
  "snd (snd (compact_reasoning_from sha1 kompress min_words True keep i messages stats st)) = st"
proof (induction messages arbitrary: i stats)
  case Nil
  then show ?case by simp
next
  case (Cons m ms)
  have "snd (snd (compact_reasoning sha1 kompress min_words True m st)) = st"
    using drop_pure [of sha1 kompress min_words _ st]
    by (auto simp: compact_reasoning_def Let_def split: option.splits json.splits prod.splits) (metis snd_conv)+
  then show ?case using Cons by (auto simp: Let_def split: prod.splits) (metis snd_conv)+
qed

section \<open>Where the code falls short\<close>

text \<open>A learned file that holds a list makes the lookup raise, although it promises to return \<open>None\<close>.\<close>
lemma learned_list_raises:
  "fst (resolve_learned_ttl provider model (Some (5, Inr (JList [JInt 300]))) learned_init) = Inl AttributeError"
  by (simp add: resolve_learned_ttl_def learned_init_def py_or_def)

text \<open>A breakpoint below the top level of a message is not seen: a one-hour prefix counts as lapsed after six minutes.\<close>
lemma nested_breakpoint_missed:
  "anthropic_cache_ttl_seconds [] ''claude-opus-4-6''
     [[(''role'', JStr ''user''), (''content'', JList [JDict [(''type'', JStr ''tool_result''), (''content'',
        JList [JDict [(''type'', JStr ''text''), (''text'', JStr ''x''),
          (''cache_control'', JDict [(''type'', JStr ''ephemeral''), (''ttl'', JStr ''1h'')])]])]])]] JNull = Some 300"
  by code_simp

end
