(* ===== verification/Spec2Isabelle.thy ===== *)
theory Spec2Isabelle
  imports Usage_Audit Proxy_Rate_Limiter CCR_Store Lossless_Compaction Cross_Turn_Dedup Compression_Cache TTL_Stores
    CCR_Tool_Injection WS_Registry Graph_Traversal Read_Redemption Network_Guard Prefix_Sessions
    SSE_Buffer Context_Tracker Maturation_Activity Sticky_Tools Tool_Schema Cold_Prefix
begin

text \<open>
  HeadroomGate, verified parts.

  The program is an HTTP proxy between coding agents and model providers. A request first passes
  the authentication gateway (\<open>plugins/headroom-auth\<close>): the key is resolved to a user, the user's
  rate limit is checked, the provider key is put in place of the client's and the request is
  forwarded with the user's identity in context. The proxy (\<open>headroom/proxy\<close>) limits again, answers
  from its response cache or compresses the conversation: lossless folds and cross-turn
  de-duplication (\<open>headroom/transforms\<close>), compressed tool results remembered across turns
  (\<open>headroom/cache/compression_cache.py\<close>), originals kept for retrieval in the
  Compress-Cache-Retrieve store (\<open>headroom/cache/compression_store.py\<close>). Finished requests go to
  the audit trail (\<open>headroom/usage\<close>).

  \<^bold>\<open>Theories\<close>

  \<^item> \<open>Py_Base\<close>, \<open>Py_Text\<close>: the prelude. Python dictionaries as association lists in insertion order,
    the contract \<open>kv_dict\<close> of a key-value store, exceptions as \<open>py_error\<close>, string methods, decimal
    numerals, JSON values. \<open>LRU\<close>: \<open>OrderedDict\<close> as an LRU cache and the contract \<open>lru_retention\<close>.
  \<^item> \<open>Token_Bucket\<close>: the contract \<open>token_bucket\<close> (what a bucket grants over a run is bounded by its
    level plus the refill; a refused request is granted after the advertised wait), interpreted for
    both limiters.
  \<^item> \<open>Auth_Rate_Limiter\<close> (\<open>rate_limiter.py\<close>): \<open>_Bucket\<close> and \<open>PerUserRateLimiter\<close>. Admissions of one user
    over any interleaving are bounded, levels stay in range, waits suffice, a zero limit raises.
  \<^item> \<open>Auth_Cache\<close> (\<open>cache.py\<close>): \<open>CachedIdentity\<close>, \<open>AuthCache\<close> with TTL and stale grace.
  \<^item> \<open>Auth_Gateway\<close> (\<open>middleware.py\<close>, \<open>identity.py\<close>, \<open>provider_injector.py\<close>): the whole handler.
    Only resolved keys reach the application, with their own identity; revoked keys are refused
    once the cache entry is past its TTL; the identity is always cleared; which headers go upstream.
  \<^item> \<open>Proxy_Rate_Limiter\<close> (\<open>proxy/rate_limiter.py\<close>, \<open>rate_limit_policy.py\<close>): tokens granted are bounded;
    the number of buckets is not.
  \<^item> \<open>CCR_Store\<close> (\<open>cache/backends/memory.py\<close>, \<open>cache/compression_store.py\<close>): the store's operations over
    the backend contract. A reachable store keeps capacity, heap coverage and an exact stale
    counter; what is stored is retrieved verbatim until its TTL; eviction is oldest first and
    minimal; re-stores cost no other entry, but let the heap grow; a pre-filled backend escapes the
    capacity.
  \<^item> \<open>Lossless_Compaction\<close> (\<open>transforms/lossless_compaction.py\<close>): run collapsing, block folding, three
    heading folds and the dispatcher. The contract \<open>line_codec\<close> lifts inverses from lines to texts and
    \<open>heading_codec\<close> is the scheme of the heading folds; every fold has its exact inverse on texts
    without look-alike lines, and the dispatcher only returns what its inverse restores.
  \<^item> \<open>Cross_Turn_Dedup\<close> (\<open>transforms/cross_turn_dedup.py\<close>): pointers are recoverable from earlier
    verbatim output, the rewriting is prefix-monotonic, and the error handler is not.
  \<^item> \<open>Semantic_Cache\<close> (\<open>proxy/semantic_cache.py\<close>, \<open>semantic_cache_key_policy.py\<close>), \<open>Compression_Cache\<close>
    (\<open>cache/compression_cache.py\<close>): LRU retention, capacity, exact accounting, what a swap of a tool
    result does to the message.
  \<^item> \<open>TTL_Stores\<close> (\<open>shared_context.py\<close>, \<open>ccr/batch_store.py\<close>, \<open>admin/session.py\<close>): the remaining stores.
  \<^item> \<open>CCR_Tool_Calls\<close> (\<open>ccr/tool_calls.py\<close>, \<open>parse_tool_call\<close>), \<open>CCR_Tool_Injection\<close>
    (\<open>ccr/tool_injection.py\<close>): the contract \<open>marker_pattern\<close> of a marker's regular expression; no
    marker of the forms the patterns are for is missed, the diff compressor's included, and the tool
    is then offered, while two forms that are written have no pattern; injection is stable, responses are
    split without loss. Below, with the store: an offloaded text is redeemed verbatim.
  \<^item> \<open>Read_Lifecycle\<close>, \<open>Read_Redemption\<close> (\<open>transforms/read_lifecycle.py\<close>): stale and superseded file reads
    become markers. The pass equals a reference definition that looks at the whole conversation at
    once; the frozen prefix stays; well-typed conversations whose arguments decode to objects do not
    raise; with the store and the injector, every replaced text is redeemed.
  \<^item> \<open>Prefix_Replay\<close>, \<open>Prefix_Tracker\<close>, \<open>Prefix_Sessions\<close> (\<open>cache/prefix_tracker.py\<close> and the lines of
    \<open>proxy/handlers/anthropic.py\<close> and \<open>openai.py\<close> that use it): the provider's prompt cache. An append-only
    conversation is forwarded with a stable prefix and one breakpoint; the frozen prefix is the
    longest that fits; a conversation keeps its tracker under any interleaving with others.
  \<^item> \<open>Read_Maturation\<close>, \<open>Maturation_Activity\<close> (\<open>transforms/read_maturation.py\<close> and its stage in
    \<open>proxy/handlers/anthropic.py\<close>): fresh file reads held out of the provider's cache until their file is
    quiet. Whatever precedes the first held read is forwarded in the same form ever after, no
    breakpoint covers a held read, a read is held only while active, a matured one is redeemed.
  \<^item> \<open>Session_Trackers\<close>, \<open>Sticky_Tools\<close> (\<open>proxy/ccr_session_tracker.py\<close>, \<open>tool_injection_tracker.py\<close>, the
    beta-header and tool policies beside them, \<open>SessionBetaTracker\<close> and the two \<open>apply_session_sticky\<close> functions
    of \<open>proxy/helpers.py\<close>): what was injected once stays byte-stable. The trackers refine unbounded
    write-once maps (contract \<open>refined_tracker\<close>) and keep a session while fewer others than fit are used
    (\<open>pinned_lru\<close>); memory tools, the retrieval tool and beta tokens stay; the Anthropic stage drops the tool
    under a frozen prefix all the same.
  \<^item> \<open>Tool_Schema\<close> (\<open>proxy/tool_schema_compaction.py\<close>): tool definitions made smaller. Dropping annotations keeps
    what a schema accepts, never costs characters and is done after one pass; the digest cache cannot be
    seen; truncated descriptions are bounded.
  \<^item> \<open>Thinking_Compaction\<close>, \<open>Cold_Prefix\<close> (\<open>transforms/thinking_compactor.py\<close>, \<open>cold_prefix.py\<close>,
    \<open>cache/ttl_observations.py\<close> and their stages in the handlers): prior reasoning is shortened, and dropped
    when the provider's cache has lapsed. With a deterministic compressor an old message is rewritten the same
    way on every turn, whatever the memo holds; a prefix within its lifetime stays frozen.
  \<^item> \<open>Context_Tracker\<close> (\<open>ccr/context_tracker.py\<close>): which offloaded texts are expanded again. What is expanded was
    last tracked in the workspace of the request, the recommendations are the best ones, and no content
    can close the wrapper that marks it.
  \<^item> \<open>SSE_Buffer\<close> (\<open>proxy/sse_byte_buffer_policy.py\<close>): events of a byte stream. The loop returns on every
    buffer, the events do not depend on how the stream was cut into chunks, and what a server
    renders is what is read, but for the white space at the start of a field.
  \<^item> \<open>Py_IPAddress\<close>, \<open>Network_Guard\<close> (\<open>proxy/forwarded_policy.py\<close>, \<open>forwarded_headers.py\<close>, \<open>loopback_guard.py\<close>):
    addresses and networks as words; forwarded headers count only from peers inside a listed prefix;
    the loopback guard passes exactly local peers that name the local machine.
  \<^item> \<open>WS_Registry\<close> (\<open>proxy/ws_session_registry.py\<close>): handles in a store of objects; the gauges equal
    what a snapshot counts, deregistration releases exactly the session's tasks.
  \<^item> \<open>Memory_Graph\<close>, \<open>Graph_Traversal\<close> (\<open>memory/adapters/graph.py\<close>): the knowledge graph. Its indexes are
    exact after any run; the breadth-first query returns exactly what its specification by path
    length says; \<open>find_path\<close> is complete and shortest. Both loops terminate by a weight.
  \<^item> \<open>Usage_Audit\<close> (\<open>usage/access.py\<close>, \<open>usage/buffer.py\<close>, \<open>usage/logger.py\<close>): which audit queries pass,
    in-order and exactly-once delivery of audit entries, what a shutdown can lose or repeat.

  \<^bold>\<open>Conventions\<close>

  A class is a record and a method a function from the record (and its arguments) to the updated
  record and its result; a method that may raise returns a sum with the exception left. Every
  reading of a clock, random token and answer of an outside service is an argument, so a theorem
  quantifies over all of them; where it needs clocks to be monotone it says so. Floats are exact
  rationals (\<open>rat\<close>); rounding is not modelled. Strings are lists of code points 0 to 255. Locks
  make each method atomic, and methods are interleaved as lists of operations; coroutines are cut
  where they suspend. Loops are recursion with a proved measure, so there is no fuel, and a loop of
  the code that can raise returns the exception. The one exception is the loop of \<open>SSE_Buffer\<close>, a
  partial function that is proved to return; it works on bytes and lists of full Unicode code
  points. The one bound that is a constant of the platform is CPython's limit of 4300 digits for \<open>int\<close>.

  \<^bold>\<open>Not modelled\<close>

  Neo4j and Qdrant queries (\<open>auth/store.py\<close>, \<open>usage/store.py\<close>, \<open>usage/semantic.py\<close>), cryptography,
  HTTP streaming and provider adapters, ML-based transforms and tokenizers, the Rust core, the
  memory subsystem, command line, dashboards and installers. The content router rests on
  them and is left out too, as are the masks of \<open>headroom/compression\<close>, which a later version can add.
\<close>

section \<open>Redeeming a marker\<close>

text \<open>
  The retrieval loop across components: the store issues a key, the marker carries it to the model,
  the model's call is parsed and the parsed key is looked up.
\<close>

lemma store_key_canonical:
  assumes "store_key sha a = Inr k" and sha: "\<And>x. length (sha x) = 64 \<and> list_all (\<lambda>c. c \<in> set lower_hex) (sha x)"
    and "case sa_explicit_hash a of None \<Rightarrow> True | Some e \<Rightarrow> length e = 12 \<or> length e = 24"
  shows "canonical_hash k"
proof (cases "sa_explicit_hash a")
  case None
  then have "k = take 24 (sha (utf8_encode (sa_original a)))"
    using assms(1) by (simp add: store_key_def)
  with sha show ?thesis
    by (auto simp: canonical_hash_def list_all_iff dest: in_set_takeD)
next
  case (Some e)
  have "list_all (\<lambda>c. char_lower c \<in> set lower_hex) hex_chars"
    by code_simp
  with Some assms(1,3) show ?thesis
    by (auto simp: canonical_hash_def store_key_def str_lower_def list_all_iff split: if_splits)
qed

text \<open>C7: what the compressor offloads can be redeemed through the model, for every provider format: after a
  successful store with a generated key, or an explicit one of 12 or 24 digits, the model may repeat
  the key in any letter case; its tool call parses to exactly the store's key, and looking that key
  up, after any reads and before the entry's TTL, returns the original content verbatim.\<close>
theorem offloaded_content_redeemable:
  assumes "0 < m" and "s = ccr_run sha ops (ccr_init m ttl fb mb_init)"
    and sha: "\<And>x. length (sha x) = 64 \<and> list_all (\<lambda>c. c \<in> set lower_hex) (sha x)"
    and k: "store_key sha a = Inr k" and e: "case sa_explicit_hash a of None \<Rightarrow> True | Some e \<Rightarrow> length e = 12 \<or> length e = 24"
    and t: "t \<le> now + of_int (case sa_ttl a of None \<Rightarrow> cs_default_ttl s | Some x \<Rightarrow> x)"
    and reads: "list_all (read_op t) reads" and "now' \<le> t"
    and json: "loads (dumps (JDict [(''hash'', JStr h)])) = Inr (JDict [(''hash'', JStr h)])"
    and h: "str_lower h = k"
  shows "\<exists>k'. parse_tool_call loads (ccr_call dumps provider i h) provider = Inr (Some k')
    \<and> map_option ce_original_content
        (snd (retrieve now' na nl k' q (ccr_run sha reads (fst (store sha now now_e a s))))) = Some (sa_original a)"
proof -
  have "parse_tool_call loads (ccr_call dumps provider i h) provider = Inr (Some k)"
    using parse_ccr_call [of loads dumps h provider i, OF json] store_key_canonical [OF k sha e] h by simp
  then show ?thesis
    using stored_is_retrieved [OF assms(1,2) k t reads \<open>now' \<le> t\<close>] by blast
qed

theorem offloaded_content_redeemable_witness:
  "\<exists>k'. parse_tool_call (\<lambda>_. Inr (JDict [(''hash'', JStr ''ABCDEF012345'')]))
           (ccr_call (json_dumps (\<lambda>_. [])) ''openai'' ''call_1'' ''ABCDEF012345'') ''openai'' = Inr (Some k')
     \<and> map_option ce_original_content (snd (retrieve 50 50 50 k' None (ccr_run (\<lambda>_. replicate 64 (CHR ''0'')) [Stats 40]
         (fst (store (\<lambda>_. replicate 64 (CHR ''0'')) 1 1 (sample_args ''abcdef012345'' ''payload'')
           (ccr_run (\<lambda>_. replicate 64 (CHR ''0'')) [] (ccr_init 1 60 True mb_init))))))) = Some ''payload''"
proof -
  let ?sha = "\<lambda>_. replicate 64 (CHR ''0'')" and ?a = "sample_args ''abcdef012345'' ''payload''"
  have key: "str_lower ''ABCDEF012345'' = ''abcdef012345''" "store_key ?sha ?a = Inr ''abcdef012345''"
    "list_all (\<lambda>c. c \<in> set lower_hex) (replicate 64 (CHR ''0''))"
    by code_simp+
  have "\<exists>k'. parse_tool_call (\<lambda>_. Inr (JDict [(''hash'', JStr ''ABCDEF012345'')]))
           (ccr_call (json_dumps (\<lambda>_. [])) ''openai'' ''call_1'' ''ABCDEF012345'') ''openai'' = Inr (Some k')
     \<and> map_option ce_original_content (snd (retrieve 50 50 50 k' None (ccr_run ?sha [Stats 40]
         (fst (store ?sha 1 1 ?a (ccr_run ?sha [] (ccr_init 1 60 True mb_init))))))) = Some (sa_original ?a)"
    by (rule offloaded_content_redeemable [where m = 1 and t = 50, OF _ refl _ key(2) _ _ _ _ _ key(1)])
      (simp_all add: key(3) sample_args_def ccr_run_def ccr_init_def)
  then show ?thesis by (simp add: sample_args_def)
qed

end
